(* ===== verification/Mudm_Prelude.thy ===== *)
theory Mudm_Prelude
  imports Main "HOL-Library.Word" "HOL-Library.Multiset"
begin

text \<open>
  Shared vocabulary of the development: machine integers, return codes, and the heap of
  linked-list pointers that the packet pool (\<^verbatim>\<open>bgmudm/mudm_pkt.c\<close>), the RDMA object pool
  (\<^verbatim>\<open>bgmudm/rdma_object.c\<close>) and the connection lists (\<^verbatim>\<open>bgmudm/mudm_connect.c\<close>) all
  manipulate.  A C array of structs is addressed by index, a pointer into it is an
  \<open>index option\<close> with \<open>None\<close> for \<^verbatim>\<open>NULL\<close>, and the \<^verbatim>\<open>next\<close>/\<^verbatim>\<open>prev\<close> fields are kept in
  a separate record \<open>links\<close>, so that the pointer surgery of the code can be reasoned about
  once for every list.
\<close>

unbundle bit_operations_syntax

section \<open>Machine integers and return codes\<close>

type_synonym u8 = "8 word"
type_synonym u16 = "16 word"
type_synonym u32 = "32 word"
type_synonym u64 = "64 word"

text \<open>The error numbers the code returns negated, and the result of an operation.\<close>

datatype errno = EINVAL | EFAULT | EBUSY | E2BIG | ENOMEM | EXFULL | ENOSYS | ENOTCONN
  | ECONNRESET | ECANCELED | EINPROGRESS | EPROTO | EILSEQ | EBADRQC | EOPNOTSUPP | EPERM1 | EAGAIN | EACCES

datatype ret = RetOK | RetErr errno

section \<open>Pointers and links\<close>

type_synonym ptr = "nat option"

record links =
  nxt :: "nat \<Rightarrow> ptr"
  prv :: "nat \<Rightarrow> ptr"

named_theorems link_ops \<open>unfolding of the pointer operations\<close>
named_theorems chain_frame \<open>writes that leave a chain alone\<close>

text \<open>\<open>chain n p xs q\<close>: following \<open>n\<close> from \<open>p\<close> visits exactly \<open>xs\<close> and ends at \<open>q\<close>.\<close>

primrec chain :: "(nat \<Rightarrow> ptr) \<Rightarrow> ptr \<Rightarrow> nat list \<Rightarrow> ptr \<Rightarrow> bool" where
  "chain n p [] q \<longleftrightarrow> p = q"
| "chain n p (x # xs) q \<longleftrightarrow> p = Some x \<and> chain n (n x) xs q"

text \<open>\<open>backlinks v p xs\<close>: the previous pointers \<open>v\<close> of \<open>xs\<close> run backwards, the first being \<open>p\<close>.\<close>

primrec backlinks :: "(nat \<Rightarrow> ptr) \<Rightarrow> ptr \<Rightarrow> nat list \<Rightarrow> bool" where
  "backlinks v p [] \<longleftrightarrow> True"
| "backlinks v p (x # xs) \<longleftrightarrow> v x = p \<and> backlinks v (Some x) xs"

text \<open>Insertion at the head of a singly linked list: \<^verbatim>\<open>x->next = head; head = x\<close>.\<close>

definition link_push1 :: "nat \<Rightarrow> ptr \<Rightarrow> links \<Rightarrow> links" where
  [link_ops]: "link_push1 x hp L = L\<lparr>nxt := (nxt L)(x := hp)\<rparr>"

text \<open>
  Insertion at the head of a doubly linked list:
  \<^verbatim>\<open>x->prev = NULL; x->next = head; if (head) head->prev = x; head = x\<close>.
\<close>

definition link_push2 :: "nat \<Rightarrow> ptr \<Rightarrow> links \<Rightarrow> links" where
  [link_ops]: "link_push2 x hp L =
     (let v = (prv L)(x := None)
      in \<lparr>nxt = (nxt L)(x := hp),
          prv = (case hp of None \<Rightarrow> v | Some h \<Rightarrow> v(h := Some x))\<rparr>)"

text \<open>
  Appending \<open>x\<close> to a private list kept as a pair of head and last pointers, the way the two
  poll loops build the lists of finished and of unfinished entries:
  \<^verbatim>\<open>if (list) { last->next = x; x->prev = last; last = x; }\<close>
  \<^verbatim>\<open>else { list = x; last = x; x->prev = NULL; }  ...  last->next = NULL\<close>.
\<close>

type_synonym qends = "ptr \<times> ptr"

definition tail_append :: "nat \<Rightarrow> qends \<Rightarrow> links \<Rightarrow> qends \<times> links" where
  [link_ops]: "tail_append x q L =
     (case q of
        (Some h, Some l) \<Rightarrow>
          ((Some h, Some x),
           \<lparr>nxt = ((nxt L)(l := Some x))(x := None), prv = (prv L)(x := Some l)\<rparr>)
      | _ \<Rightarrow>
          ((Some x, Some x),
           \<lparr>nxt = (nxt L)(x := None), prv = (prv L)(x := None)\<rparr>))"

text \<open>\<^verbatim>\<open>last->next = head2; head2 = head1\<close>: prepend a whole private list.\<close>

definition link_splice :: "ptr \<Rightarrow> ptr \<Rightarrow> links \<Rightarrow> links" where
  [link_ops]: "link_splice l hp L =
     (case l of None \<Rightarrow> L | Some x \<Rightarrow> L\<lparr>nxt := (nxt L)(x := hp)\<rparr>)"

text \<open>What the pair of pointers of a private list denotes.\<close>

definition queue_rep :: "links \<Rightarrow> qends \<Rightarrow> nat list \<Rightarrow> bool" where
  "queue_rep L q xs \<longleftrightarrow>
     chain (nxt L) (fst q) xs None \<and> (xs \<noteq> [] \<longrightarrow> snd q = Some (last xs))"

section \<open>Lemmas on words\<close>

lemma unat_of_nat_u64: "k < 2 ^ 64 \<Longrightarrow> unat (of_nat k :: u64) = k"
  by (simp add: unat_of_nat)

text \<open>Two positions of a ring that are less than its size apart are different slots.\<close>

lemma mod_window:
  assumes "i < m" "m < i + n"
  shows "i mod n \<noteq> (m :: nat) mod n"
proof
  assume "i mod n = m mod n"
  then have "n dvd m - i" using assms(1) by (metis mod_eq_dvd_iff_nat less_imp_le)
  moreover have "0 < m - i" "m - i < n" using assms by auto
  ultimately show False by (meson nat_dvd_not_less)
qed

section \<open>Lemmas on chains\<close>

lemma chain_None [simp]: "chain n None xs q \<longleftrightarrow> xs = [] \<and> q = None"
  by (cases xs) auto

lemma chain_Some_None:
  "chain n (Some x) xs None \<longleftrightarrow> (\<exists>ys. xs = x # ys \<and> chain n (n x) ys None)"
  by (cases xs) auto

lemma chain_append [simp]:
  "chain n p (xs @ ys) q \<longleftrightarrow> (\<exists>m. chain n p xs m \<and> chain n m ys q)"
  by (induction xs arbitrary: p) auto

lemma chain_upd [simp, chain_frame]:
  "x \<notin> set xs \<Longrightarrow> chain (n(x := y)) p xs q = chain n p xs q"
  by (induction xs arbitrary: p) auto

lemma chain_cong:
  "(\<And>x. x \<in> set xs \<Longrightarrow> n x = m x) \<Longrightarrow> chain n p xs q = chain m p xs q"
  by (induction xs arbitrary: p) auto

lemma chain_fun: "chain n p xs None \<Longrightarrow> chain n p ys None \<Longrightarrow> xs = ys"
proof (induction xs arbitrary: p ys)
  case Nil
  then show ?case by simp
next
  case (Cons x xs)
  then obtain zs where "ys = x # zs" "chain n (n x) zs None"
    by (auto simp: chain_Some_None)
  with Cons show ?case by auto
qed

text \<open>Cutting the end of a chain and hanging another list behind it.\<close>

lemma chain_relink:
  assumes "chain n p xs q" "distinct xs" "xs \<noteq> []"
  shows "chain (n(last xs := r)) p xs r"
  using assms
proof (induction xs arbitrary: p)
  case Nil
  then show ?case by simp
next
  case (Cons x xs)
  show ?case
  proof (cases xs)
    case Nil
    with Cons.prems show ?thesis by simp
  next
    case (Cons y ys)
    with Cons.prems have "last (x # xs) = last xs" "x \<noteq> last xs"
      using last_in_set by fastforce+
    with Cons.IH[of "n x"] Cons Cons.prems show ?thesis by auto
  qed
qed

lemma chain_splice:
  assumes "chain n p xs None" "distinct xs" "xs \<noteq> []" "chain n h ys None" "last xs \<notin> set ys"
  shows "chain (n(last xs := h)) p (xs @ ys) None"
  using chain_relink[OF assms(1,2,3), of h] assms(4,5) by auto

lemma chain_upt:
  assumes "\<And>i. i < k \<Longrightarrow> n (a + i) = (if Suc i < k then Some (a + Suc i) else None)" "0 < k"
  shows "chain n (Some a) [a..<a + k] None"
  using assms
proof (induction k arbitrary: a)
  case 0
  then show ?case by simp
next
  case (Suc k)
  show ?case
  proof (cases "k = 0")
    case True
    with Suc.prems(1)[of 0] show ?thesis by simp
  next
    case False
    have "chain n (Some (Suc a)) [Suc a..<Suc a + k] None"
    proof (rule Suc.IH)
      fix i assume "i < k"
      with Suc.prems(1)[of "Suc i"]
      show "n (Suc a + i) = (if Suc i < k then Some (Suc a + Suc i) else None)" by simp
    qed (use False in simp)
    moreover have "n a = Some (Suc a)" using Suc.prems(1)[of 0] False by simp
    ultimately show ?thesis by (simp add: upt_rec)
  qed
qed

lemma backlinks_upd [simp, chain_frame]:
  "x \<notin> set xs \<Longrightarrow> backlinks (v(x := y)) p xs = backlinks v p xs"
  by (induction xs arbitrary: p) auto

lemma backlinks_append:
  "backlinks v p (xs @ ys) \<longleftrightarrow>
     backlinks v p xs \<and> backlinks v (if xs = [] then p else Some (last xs)) ys"
  by (induction xs arbitrary: p) auto

section \<open>Lemmas on the pointer operations\<close>

lemma link_push1_head:
  "chain (nxt L) hp xs None \<Longrightarrow> x \<notin> set xs \<Longrightarrow> chain (nxt (link_push1 x hp L)) (Some x) (x # xs) None"
  by (simp add: link_push1_def)

lemma link_push1_other [simp, chain_frame]:
  "x \<notin> set ys \<Longrightarrow> chain (nxt (link_push1 x hp L)) p ys q = chain (nxt L) p ys q"
  by (simp add: link_push1_def)

lemma link_push2_head:
  "chain (nxt L) hp xs None \<Longrightarrow> x \<notin> set xs \<Longrightarrow> chain (nxt (link_push2 x hp L)) (Some x) (x # xs) None"
  by (simp add: link_push2_def Let_def)

lemma link_push2_other [simp, chain_frame]:
  "x \<notin> set ys \<Longrightarrow> chain (nxt (link_push2 x hp L)) p ys q = chain (nxt L) p ys q"
  by (simp add: link_push2_def Let_def)

lemma link_push2_backlinks:
  assumes "chain (nxt L) hp xs None" "backlinks (prv L) None xs" "distinct (x # xs)"
  shows "backlinks (prv (link_push2 x hp L)) None (x # xs)"
  using assms by (cases xs) (auto simp: link_push2_def Let_def)

lemma link_push2_backlinks_other [simp, chain_frame]:
  "x \<notin> set ys \<Longrightarrow> (\<forall>h. hp = Some h \<longrightarrow> h \<notin> set ys) \<Longrightarrow>
   backlinks (prv (link_push2 x hp L)) p ys = backlinks (prv L) p ys"
  by (auto simp: link_push2_def Let_def split: option.splits)

lemma queue_rep_empty [simp]: "queue_rep L (None, l) []"
  by (simp add: queue_rep_def)

lemma queue_rep_NoneD: "queue_rep L (None, l) xs \<Longrightarrow> xs = []"
  by (simp add: queue_rep_def)

lemma queue_rep_head: "queue_rep L q xs \<Longrightarrow> fst q = None \<longleftrightarrow> xs = []"
  by (cases xs) (auto simp: queue_rep_def)

lemma tail_append_rep:
  assumes q: "queue_rep L q xs" and x: "x \<notin> set xs" and d: "distinct xs"
    and e: "tail_append x q L = (q', L')"
  shows "queue_rep L' q' (xs @ [x])"
proof (cases xs)
  case Nil
  with q have "fst q = None" by (simp add: queue_rep_def)
  with e Nil show ?thesis
    by (cases q) (auto simp: tail_append_def queue_rep_def)
next
  case (Cons a as)
  with q obtain l where qq: "q = (Some a, Some (last xs))" and l: "l = last xs"
    by (cases q) (auto simp: queue_rep_def)
  have c: "chain (nxt L) (Some a) xs None" using q qq by (simp add: queue_rep_def)
  have "chain ((nxt L)(last xs := Some x)) (Some a) xs (Some x)"
    using chain_relink[OF c d, of "Some x"] Cons by simp
  with x show ?thesis using e qq by (auto simp: tail_append_def queue_rep_def)
qed

lemma tail_append_frame:
  assumes e: "tail_append x q L = (q', L')" and q: "queue_rep L q xs"
    and y: "y \<noteq> x" "y \<notin> set xs"
  shows "nxt L' y = nxt L y"
proof (cases xs)
  case Nil
  with q have "fst q = None" by (simp add: queue_rep_def)
  with e y show ?thesis by (cases q) (auto simp: tail_append_def)
next
  case (Cons a as)
  with q have "q = (Some a, Some (last xs))"
    by (cases q) (auto simp: queue_rep_def)
  with e y Cons show ?thesis by (auto simp: tail_append_def)
qed

lemma tail_append_chain_frame:
  assumes "tail_append x q L = (q', L')" "queue_rep L q xs"
    "x \<notin> set ys" "set xs \<inter> set ys = {}"
  shows "chain (nxt L') p ys r = chain (nxt L) p ys r"
proof (rule chain_cong)
  fix y assume "y \<in> set ys"
  with assms(3,4) have "y \<noteq> x" "y \<notin> set xs" by auto
  then show "nxt L' y = nxt L y" by (rule tail_append_frame[OF assms(1,2)])
qed

lemma tail_append_queue_frame:
  assumes "tail_append x q L = (q', L')" "queue_rep L q xs"
    "x \<notin> set ys" "set xs \<inter> set ys = {}" "queue_rep L r ys"
  shows "queue_rep L' r ys"
  using assms(5) tail_append_chain_frame[OF assms(1-4)] by (simp add: queue_rep_def)

lemma splice_rep:
  assumes "queue_rep L q xs" "distinct xs" "xs \<noteq> []" "chain (nxt L) hp ys None"
    "set xs \<inter> set ys = {}"
  shows "chain (nxt (link_splice (snd q) hp L)) (fst q) (xs @ ys) None"
proof -
  from assms(1,3) have "snd q = Some (last xs)" "chain (nxt L) (fst q) xs None"
    by (auto simp: queue_rep_def)
  moreover from assms(3,5) have "last xs \<notin> set ys" using last_in_set by blast
  ultimately show ?thesis
    using chain_splice[of "nxt L" "fst q" xs hp ys] assms(2-4)
    by (simp add: link_splice_def)
qed

lemma splice_frame:
  assumes "queue_rep L q xs" "xs \<noteq> []" "set xs \<inter> set ys = {}"
  shows "chain (nxt (link_splice (snd q) hp L)) p ys r = chain (nxt L) p ys r"
proof -
  from assms(1,2) have "snd q = Some (last xs)" by (auto simp: queue_rep_def)
  moreover from assms(2,3) have "last xs \<notin> set ys" using last_in_set by blast
  ultimately show ?thesis by (simp add: link_splice_def)
qed

end
