(* ===== verification/Mudm_Lock.thy ===== *)
theory Mudm_Lock
  imports Mudm_Prelude
begin

text \<open>
  The spin lock of \<^verbatim>\<open>bgmudm/mudm_lock.c\<close> and \<^verbatim>\<open>bgmudm/mudm_lock.h\<close>, at the granularity of its
  memory accesses.  \<^verbatim>\<open>comp_and_swap\<close> is a load-reserved/store-conditional loop, so a thread
  inside \<^verbatim>\<open>lock()\<close> is at one of three program points: before the \<^verbatim>\<open>lwarx\<close>, between the
  \<^verbatim>\<open>lwarx\<close> and the \<^verbatim>\<open>stwcx.\<close>, or in the spin on \<^verbatim>\<open>pLock->atom\<close>.  A reservation is lost when
  any thread stores to the word, and a \<^verbatim>\<open>stwcx.\<close> may also fail for no reason the program can
  see.  The other theories treat a critical section as one atomic step; mutual exclusion, which
  is what justifies this, is shown here.
\<close>

section \<open>State\<close>

datatype lock_pc = LIdle | LLoad | LStore | LSpin | LHeld

record lock_state =
  atom :: u32
  resv :: "nat set"
  lpc :: "nat \<Rightarrow> lock_pc"
  freeValue :: "nat \<Rightarrow> u32"

definition ProcessorID :: "u64 \<Rightarrow> u64" where
  "ProcessorID pir = pir AND 0x3FF"

text \<open>The value stored in the word by the thread whose processor-id register is \<open>pir\<close>.\<close>

definition my_unique_index :: "u64 \<Rightarrow> u32" where
  "my_unique_index pir = ucast (ProcessorID pir + 1)"

definition lock_init :: lock_state where
  "lock_init = \<lparr>atom = 0, resv = {}, lpc = (\<lambda>_. LIdle), freeValue = (\<lambda>_. 0)\<rparr>"

section \<open>The operations, one memory access at a time\<close>

definition lock_enter :: "nat \<Rightarrow> lock_state \<Rightarrow> lock_state" where
  "lock_enter t s = s\<lparr>lpc := (lpc s)(t := LLoad), freeValue := (freeValue s)(t := 0)\<rparr>"

text \<open>\<^verbatim>\<open>myLoadReserved32\<close> and the comparison behind it.\<close>

definition myLoadReserved32 :: "nat \<Rightarrow> lock_state \<Rightarrow> lock_state" where
  "myLoadReserved32 t s =
     (if freeValue s t \<noteq> atom s
      then s\<lparr>resv := insert t (resv s), freeValue := (freeValue s)(t := atom s), lpc := (lpc s)(t := LSpin)\<rparr>
      else s\<lparr>resv := insert t (resv s), lpc := (lpc s)(t := LStore)\<rparr>)"

text \<open>\<open>ok\<close> is whether the hardware lets the conditional store of a live reservation succeed.\<close>

definition myStoreConditional32 :: "u32 \<Rightarrow> bool \<Rightarrow> nat \<Rightarrow> lock_state \<Rightarrow> lock_state" where
  "myStoreConditional32 val ok t s =
     (if ok \<and> t \<in> resv s
      then s\<lparr>atom := val, resv := {}, lpc := (lpc s)(t := LHeld)\<rparr>
      else s\<lparr>resv := resv s - {t}, lpc := (lpc s)(t := LLoad)\<rparr>)"

text \<open>One test of \<^verbatim>\<open>while (pLock->atom) { }\<close>, and the reset of \<^verbatim>\<open>freeValue\<close> behind the loop.\<close>

definition lock_spin :: "nat \<Rightarrow> lock_state \<Rightarrow> lock_state" where
  "lock_spin t s =
     (if atom s \<noteq> 0 then s
      else s\<lparr>freeValue := (freeValue s)(t := 0), lpc := (lpc s)(t := LLoad)\<rparr>)"

definition unlock :: "nat \<Rightarrow> lock_state \<Rightarrow> lock_state" where
  "unlock t s = s\<lparr>atom := 0, resv := {}, lpc := (lpc s)(t := LIdle)\<rparr>"

section \<open>Interleavings\<close>

text \<open>\<open>pir\<close> gives the processor-id register of each hardware thread.\<close>

inductive lock_step :: "(nat \<Rightarrow> u64) \<Rightarrow> nat \<Rightarrow> lock_state \<Rightarrow> lock_state \<Rightarrow> bool" for pir where
  step_enter: "lpc s t = LIdle \<Longrightarrow> lock_step pir t s (lock_enter t s)"
| step_load: "lpc s t = LLoad \<Longrightarrow> lock_step pir t s (myLoadReserved32 t s)"
| step_store: "lpc s t = LStore \<Longrightarrow>
    lock_step pir t s (myStoreConditional32 (my_unique_index (pir t)) ok t s)"
| step_spin: "lpc s t = LSpin \<Longrightarrow> lock_step pir t s (lock_spin t s)"
| step_unlock: "lpc s t = LHeld \<Longrightarrow> lock_step pir t s (unlock t s)"

inductive lock_reach :: "(nat \<Rightarrow> u64) \<Rightarrow> lock_state \<Rightarrow> bool" for pir where
  reach_init: "lock_reach pir lock_init"
| reach_step: "lock_reach pir s \<Longrightarrow> lock_step pir t s s' \<Longrightarrow> lock_reach pir s'"

text \<open>The accesses of a single thread \<open>t\<close> that runs undisturbed.\<close>

inductive lock_solo :: "(nat \<Rightarrow> u64) \<Rightarrow> nat \<Rightarrow> lock_state \<Rightarrow> lock_state \<Rightarrow> bool" for pir t where
  solo_refl: "lock_solo pir t s s"
| solo_step: "lock_solo pir t s s' \<Longrightarrow> lock_step pir t s' s'' \<Longrightarrow> lock_solo pir t s s''"

inductive_cases lock_stepE: "lock_step pir t s s'"

section \<open>The invariant\<close>

lemma my_unique_index_nonzero: "my_unique_index pir \<noteq> 0"
proof -
  have "unat (ProcessorID pir) \<le> unat (0x3FF :: u64)"
    unfolding ProcessorID_def by (metis word_and_le1 word_le_nat_alt)
  then have b: "unat (ProcessorID pir) \<le> 1023" by simp
  then have "unat (ProcessorID pir + 1) = unat (ProcessorID pir) + 1"
    by (subst unat_add_lem[THEN iffD1]) simp_all
  then have "unat (my_unique_index pir) = unat (ProcessorID pir) + 1"
    using b by (simp add: my_unique_index_def unsigned_ucast_eq take_bit_nat_eq_self unsigned_take_bit_eq)
  then show ?thesis by auto
qed

definition lock_inv :: "(nat \<Rightarrow> u64) \<Rightarrow> lock_state \<Rightarrow> bool" where
  "lock_inv pir s \<longleftrightarrow>
     (\<forall>t. lpc s t = LHeld \<longrightarrow> atom s = my_unique_index (pir t)) \<and>
     (\<forall>t u. lpc s t = LHeld \<longrightarrow> lpc s u = LHeld \<longrightarrow> t = u) \<and>
     (atom s \<noteq> 0 \<longrightarrow> (\<exists>t. lpc s t = LHeld)) \<and>
     (\<forall>t. lpc s t = LStore \<longrightarrow> t \<in> resv s \<longrightarrow> atom s = 0) \<and>
     (\<forall>t. lpc s t \<in> {LLoad, LStore} \<longrightarrow> freeValue s t = 0)"

lemma lock_inv_free: "lock_inv pir s \<Longrightarrow> atom s = 0 \<longleftrightarrow> (\<forall>t. lpc s t \<noteq> LHeld)"
  using my_unique_index_nonzero unfolding lock_inv_def by metis

lemma lock_inv_init: "lock_inv pir lock_init"
  by (simp add: lock_inv_def lock_init_def)

text \<open>Accesses that neither take nor release the lock.\<close>

lemma lock_inv_move:
  assumes "lock_inv pir s" "atom s' = atom s" "\<And>u. lpc s' u = LHeld \<longleftrightarrow> lpc s u = LHeld"
    and "\<And>u. lpc s' u = LStore \<Longrightarrow> u \<in> resv s' \<Longrightarrow> (lpc s u = LStore \<and> u \<in> resv s) \<or> atom s = 0"
    and "\<And>u. lpc s' u \<in> {LLoad, LStore} \<Longrightarrow> freeValue s' u = 0"
  shows "lock_inv pir s'"
  using assms unfolding lock_inv_def by (simp, metis)

lemma lock_inv_freeValue: "lock_inv pir s \<Longrightarrow> lpc s t \<in> {LLoad, LStore} \<Longrightarrow> freeValue s t = 0"
  unfolding lock_inv_def by blast

lemma lock_inv_step: "lock_step pir t s s' \<Longrightarrow> lock_inv pir s \<Longrightarrow> lock_inv pir s'"
proof (induction rule: lock_step.induct)
  case (step_store s t ok)
  show ?case
  proof (cases "ok \<and> t \<in> resv s")
    case True
    with step_store have "atom s = 0" by (simp add: lock_inv_def)
    with lock_inv_free[OF step_store(2)] have "\<forall>u. lpc s u \<noteq> LHeld" by simp
    with True step_store show ?thesis by (auto simp: lock_inv_def myStoreConditional32_def)
  next
    case False
    then have e: "myStoreConditional32 (my_unique_index (pir t)) ok t s =
        s\<lparr>resv := resv s - {t}, lpc := (lpc s)(t := LLoad)\<rparr>"
      unfolding myStoreConditional32_def by (rule if_not_P)
    show ?thesis unfolding e
      by (rule lock_inv_move[OF step_store(2)])
         (use step_store lock_inv_freeValue[OF step_store(2)] in \<open>auto split: if_splits\<close>)
  qed
next
  case (step_unlock s t)
  then have "\<forall>u. u \<noteq> t \<longrightarrow> lpc s u \<noteq> LHeld" by (auto simp: lock_inv_def)
  with step_unlock show ?case by (auto simp: lock_inv_def unlock_def)
next
  case (step_enter s t)
  show ?case
    by (rule lock_inv_move[OF step_enter(2)])
       (use step_enter lock_inv_freeValue[OF step_enter(2)] in \<open>auto simp: lock_enter_def split: if_splits\<close>)
next
  case (step_load s t)
  show ?case
    by (rule lock_inv_move[OF step_load(2)])
       (use step_load lock_inv_freeValue[OF step_load(2)]
         in \<open>auto simp: myLoadReserved32_def split: if_splits\<close>)
next
  case (step_spin s t)
  show ?case
    by (rule lock_inv_move[OF step_spin(2)])
       (use step_spin lock_inv_freeValue[OF step_spin(2)] in \<open>auto simp: lock_spin_def split: if_splits\<close>)
qed

lemma lock_reach_inv: "lock_reach pir s \<Longrightarrow> lock_inv pir s"
  by (induction rule: lock_reach.induct) (auto intro: lock_inv_init lock_inv_step)

lemma lock_solo_reach: "lock_solo pir t s s' \<Longrightarrow> lock_reach pir s \<Longrightarrow> lock_reach pir s'"
  by (induction rule: lock_solo.induct) (auto intro: reach_step)

section \<open>Acquisition\<close>

lemma lock_solo_load:
  assumes "lock_inv pir s" "atom s = 0" "lpc s t = LLoad"
  shows "\<exists>s'. lock_solo pir t s s' \<and> lpc s' t = LHeld"
proof -
  let ?s1 = "myLoadReserved32 t s"
  have f: "freeValue s t = 0" using assms by (simp add: lock_inv_def)
  have 1: "lock_solo pir t s ?s1" using assms by (meson solo_refl solo_step step_load)
  have p: "lpc ?s1 t = LStore" "t \<in> resv ?s1" using assms f by (simp_all add: myLoadReserved32_def)
  have "lock_solo pir t s (myStoreConditional32 (my_unique_index (pir t)) True t ?s1)"
    using 1 p(1) by (meson solo_step step_store)
  moreover have "lpc (myStoreConditional32 (my_unique_index (pir t)) True t ?s1) t = LHeld"
    using p(2) by (simp add: myStoreConditional32_def)
  ultimately show ?thesis by blast
qed

lemma lock_solo_trans: "lock_solo pir t b c \<Longrightarrow> lock_solo pir t a b \<Longrightarrow> lock_solo pir t a c"
  by (induction rule: lock_solo.induct) (auto intro: solo_step)

lemma lock_solo_via:
  assumes "lock_reach pir s" "lock_step pir t s s1" "atom s1 = 0" "lpc s1 t = LLoad"
  shows "\<exists>s'. lock_solo pir t s s' \<and> lpc s' t = LHeld"
proof -
  have "lock_inv pir s1" using assms by (meson lock_reach_inv reach_step)
  from lock_solo_load[OF this assms(3,4)] obtain s' where "lock_solo pir t s1 s'" "lpc s' t = LHeld" by blast
  moreover have "lock_solo pir t s s1" using assms(2) by (meson solo_refl solo_step)
  ultimately show ?thesis by (meson lock_solo_trans)
qed

section \<open>Properties\<close>

text \<open>
  C36: mutual exclusion.  In every interleaving of the memory accesses of any number of threads
  calling \<^verbatim>\<open>lock()\<close> and \<^verbatim>\<open>unlock()\<close>, at most one thread is past \<^verbatim>\<open>lock()\<close>, and the lock
  word holds exactly that thread's \<^verbatim>\<open>ProcessorID()+1\<close>, being zero precisely when no thread
  holds the lock.
\<close>

theorem lock_mutual_exclusion:
  assumes "lock_reach pir s" "lpc s t = LHeld" "lpc s u = LHeld"
  shows "t = u \<and> atom s = my_unique_index (pir t) \<and> atom s \<noteq> 0"
  using lock_reach_inv[OF assms(1)] assms(2,3) my_unique_index_nonzero
  unfolding lock_inv_def by metis

theorem lock_mutual_exclusion_witness:
  "\<exists>s. lock_reach (\<lambda>_. 5) s \<and> lpc s 0 = LHeld \<and> atom s = my_unique_index 5 \<and> atom s \<noteq> 0"
proof -
  let ?p = "\<lambda>_ :: nat. 5 :: u64"
  let ?s = "lock_enter 0 lock_init"
  have r: "lock_reach ?p ?s"
    by (rule reach_step[OF reach_init step_enter]) (simp add: lock_init_def)
  from lock_solo_load[OF lock_reach_inv[OF r], of 0] obtain s' where
    s: "lock_solo ?p 0 ?s s'" "lpc s' 0 = LHeld" by (auto simp: lock_enter_def lock_init_def)
  from lock_mutual_exclusion[OF lock_solo_reach[OF s(1) r] s(2) s(2)]
  show ?thesis using lock_solo_reach[OF s(1) r] s(2) by blast
qed



end
