(* ===== verification/Mudm_Pool.thy ===== *)
theory Mudm_Pool
  imports Mudm_Prelude
begin

text \<open>
  The contract shared by the packet-descriptor pool and the RDMA-object pool: objects are taken
  from a free list, handed to a caller, and given back either to the free list or to a list
  that a poller sweeps.  The locale states the laws of the four kinds of critical sections; the
  ownership theorem (no object is lost, duplicated or handed out twice, whatever the order in
  which threads run those sections) is proved once from the laws.
\<close>

section \<open>Runs of a pool\<close>

text \<open>
  A state of the system is the pool together with the set of objects callers hold.  Each rule
  is one critical section; the order of the rules in a run is the order in which the threads
  take the list lock.
\<close>

inductive pool_run ::
  "('s \<Rightarrow> ptr \<times> 's) \<Rightarrow> (nat \<Rightarrow> 'f \<Rightarrow> 's \<Rightarrow> 's) \<Rightarrow> (nat \<Rightarrow> 'p \<Rightarrow> 's \<Rightarrow> 's) \<Rightarrow> ('s \<Rightarrow> 's \<Rightarrow> bool)
   \<Rightarrow> 's \<times> nat set \<Rightarrow> 's \<times> nat set \<Rightarrow> bool"
  for alloc :: "'s \<Rightarrow> ptr \<times> 's" and release :: "nat \<Rightarrow> 'f \<Rightarrow> 's \<Rightarrow> 's"
    and park :: "nat \<Rightarrow> 'p \<Rightarrow> 's \<Rightarrow> 's" and sweep :: "'s \<Rightarrow> 's \<Rightarrow> bool"
where
  run_refl: "pool_run alloc release park sweep c c"
| run_alloc: "pool_run alloc release park sweep c (s, own) \<Longrightarrow> alloc s = (Some x, s') \<Longrightarrow>
    pool_run alloc release park sweep c (s', insert x own)"
| run_alloc_fail: "pool_run alloc release park sweep c (s, own) \<Longrightarrow> alloc s = (None, s') \<Longrightarrow>
    pool_run alloc release park sweep c (s', own)"
| run_release: "pool_run alloc release park sweep c (s, own) \<Longrightarrow> x \<in> own \<Longrightarrow>
    pool_run alloc release park sweep c (release x f s, own - {x})"
| run_park: "pool_run alloc release park sweep c (s, own) \<Longrightarrow> x \<in> own \<Longrightarrow>
    pool_run alloc release park sweep c (park x p s, own - {x})"
| run_sweep: "pool_run alloc release park sweep c (s, own) \<Longrightarrow> sweep s s' \<Longrightarrow>
    pool_run alloc release park sweep c (s', own)"

section \<open>The contract\<close>

locale object_pool =
  fixes alloc :: "'s \<Rightarrow> ptr \<times> 's"
    and release :: "nat \<Rightarrow> 'f \<Rightarrow> 's \<Rightarrow> 's"
    and park :: "nat \<Rightarrow> 'p \<Rightarrow> 's \<Rightarrow> 's"
    and sweep :: "'s \<Rightarrow> 's \<Rightarrow> bool"
    and rep :: "'s \<Rightarrow> nat list \<Rightarrow> nat list \<Rightarrow> bool"
  assumes rep_distinct: "rep s fs bs \<Longrightarrow> distinct (fs @ bs)"
    and alloc_Nil: "rep s [] bs \<Longrightarrow> \<exists>s'. alloc s = (None, s') \<and> rep s' [] bs"
    and alloc_Cons: "rep s (x # fs) bs \<Longrightarrow> \<exists>s'. alloc s = (Some x, s') \<and> rep s' fs bs"
    and release_rep: "rep s fs bs \<Longrightarrow> x \<notin> set fs \<union> set bs \<Longrightarrow> rep (release x f s) (x # fs) bs"
    and park_rep: "rep s fs bs \<Longrightarrow> x \<notin> set fs \<union> set bs \<Longrightarrow> rep (park x p s) fs (x # bs)"
    and sweep_rep: "rep s fs bs \<Longrightarrow> sweep s s' \<Longrightarrow>
      \<exists>fs' bs'. rep s' fs' bs' \<and> set fs' \<union> set bs' = set fs \<union> set bs"
begin

lemma alloc_cases:
  assumes "rep s fs bs" "alloc s = (r, s')"
  shows "(fs = [] \<and> r = None \<and> rep s' [] bs) \<or>
         (\<exists>x fs'. fs = x # fs' \<and> r = Some x \<and> rep s' fs' bs)"
proof (cases fs)
  case Nil
  with assms alloc_Nil[of s bs] show ?thesis by auto
next
  case (Cons x fs')
  with assms alloc_Cons[of s x fs' bs] show ?thesis by auto
qed

lemma alloc_release:
  "rep s fs bs \<Longrightarrow> x \<notin> set fs \<union> set bs \<Longrightarrow> \<exists>s'. alloc (release x f s) = (Some x, s') \<and> rep s' fs bs"
  using alloc_Cons[OF release_rep] by blast

text \<open>Ownership is conserved by every run.\<close>

lemma run_ownership:
  assumes "pool_run alloc release park sweep (s, own) (s', own')"
    and "rep s fs bs" "own \<inter> (set fs \<union> set bs) = {}"
  shows "\<exists>fs' bs'. rep s' fs' bs' \<and> own' \<inter> (set fs' \<union> set bs') = {} \<and>
    own' \<union> set fs' \<union> set bs' = own \<union> set fs \<union> set bs"
  using assms(1)
proof (induction "(s, own)" "(s', own')" arbitrary: s' own' rule: pool_run.induct)
  case run_refl
  with assms(2,3) show ?case by blast
next
  case (run_alloc s1 own1 x s')
  then obtain fs1 bs1 where 1: "rep s1 fs1 bs1" "own1 \<inter> (set fs1 \<union> set bs1) = {}"
    "own1 \<union> set fs1 \<union> set bs1 = own \<union> set fs \<union> set bs" by blast
  with run_alloc alloc_cases[of s1 fs1 bs1] obtain fs2 where 2: "fs1 = x # fs2" "rep s' fs2 bs1"
    by fastforce
  from rep_distinct[OF 1(1)] 1 2 show ?case by (intro exI[of _ fs2] exI[of _ bs1]) auto
next
  case (run_alloc_fail s1 own1 s')
  then obtain fs1 bs1 where 1: "rep s1 fs1 bs1" "own1 \<inter> (set fs1 \<union> set bs1) = {}"
    "own1 \<union> set fs1 \<union> set bs1 = own \<union> set fs \<union> set bs" by blast
  with run_alloc_fail alloc_cases[of s1 fs1 bs1] show ?case by fastforce
next
  case (run_release s1 own1 x f)
  then obtain fs1 bs1 where 1: "rep s1 fs1 bs1" "own1 \<inter> (set fs1 \<union> set bs1) = {}"
    "own1 \<union> set fs1 \<union> set bs1 = own \<union> set fs \<union> set bs" by blast
  with run_release have "rep (release x f s1) (x # fs1) bs1" by (auto intro!: release_rep)
  with 1 run_release show ?case by (intro exI[of _ "x # fs1"] exI[of _ bs1]) auto
next
  case (run_park s1 own1 x p)
  then obtain fs1 bs1 where 1: "rep s1 fs1 bs1" "own1 \<inter> (set fs1 \<union> set bs1) = {}"
    "own1 \<union> set fs1 \<union> set bs1 = own \<union> set fs \<union> set bs" by blast
  with run_park have "rep (park x p s1) fs1 (x # bs1)" by (auto intro!: park_rep)
  with 1 run_park show ?case by (intro exI[of _ fs1] exI[of _ "x # bs1"]) auto
next
  case (run_sweep s1 own1 s')
  then obtain fs1 bs1 where 1: "rep s1 fs1 bs1" "own1 \<inter> (set fs1 \<union> set bs1) = {}"
    "own1 \<union> set fs1 \<union> set bs1 = own \<union> set fs \<union> set bs" by blast
  from sweep_rep[OF 1(1)] run_sweep obtain fs2 bs2 where
    "rep s' fs2 bs2" "set fs2 \<union> set bs2 = set fs1 \<union> set bs1" by blast
  with 1 show ?case by (intro exI[of _ fs2] exI[of _ bs2]) (auto simp: Un_assoc)
qed

text \<open>An allocation never returns an object somebody already holds or that is being polled.\<close>

lemma run_alloc_fresh:
  assumes "pool_run alloc release park sweep (s, own) (s', own')"
    and "rep s fs bs" "own \<inter> (set fs \<union> set bs) = {}"
    and "alloc s' = (Some x, s'')"
  shows "x \<notin> own' \<and> x \<in> own \<union> set fs \<union> set bs"
proof -
  from run_ownership[OF assms(1-3)] obtain fs' bs' where
    r: "rep s' fs' bs'" "own' \<inter> (set fs' \<union> set bs') = {}"
       "own' \<union> set fs' \<union> set bs' = own \<union> set fs \<union> set bs" by blast
  from alloc_cases[OF r(1) assms(4)] obtain fs2 where "fs' = x # fs2" by auto
  with r show ?thesis by auto
qed

end

end
