(* ===== verification/Mudm_Alloc.thy ===== *)
theory Mudm_Alloc
  imports Mudm_Prelude
begin

text \<open>
  The allocation and clean-up table of \<^verbatim>\<open>bgmudm/mudm_cleanup.c\<close>: every memory region the
  module obtains is entered in a table of at most \<^verbatim>\<open>MAX_CLEANUP_ENTRIES\<close> entries, and
  \<^verbatim>\<open>process_cleanup_table\<close> undoes them in reverse order.  The user's \<^verbatim>\<open>allocate\<close> callback is
  a parameter: it sees the ordinal of the call and the length, and fails with \<open>None\<close>.
\<close>

record mem_region =
  region_length :: u64
  base_vaddr :: u64
  base_paddr :: u64

text \<open>The clean-up functions the code installs; \<open>CF_null\<close> is the \<^verbatim>\<open>NULL\<close> function pointer.\<close>

datatype cleanup_fn = CF_null | CF_free_mem | CF_free_MU_subgroup_mem | CF_free_MU_inj_region
  | CF_free_recfifo | CF_free_rdma_obj_region

record cleanup_entry =
  ce_memregion :: mem_region
  ce_status :: u64
  ce_argslist :: ptr
  ce_cleanup_fn :: cleanup_fn

text \<open>The used part of \<^verbatim>\<open>clean_table\<close>; its length is \<^verbatim>\<open>num_cleanup_entries\<close>.\<close>

record cleanup =
  clean_table :: "cleanup_entry list"
  alloc_calls :: nat

type_synonym allocate_cb = "nat \<Rightarrow> u64 \<Rightarrow> mem_region option"

definition MAX_CLEANUP_ENTRIES :: nat where "MAX_CLEANUP_ENTRIES = 25"

definition add_object :: "mem_region \<Rightarrow> ptr \<Rightarrow> cleanup_fn \<Rightarrow> cleanup \<Rightarrow> ret \<times> cleanup" where
  "add_object r args fn cl =
     (if length (clean_table cl) \<ge> MAX_CLEANUP_ENTRIES then (RetErr ENOMEM, cl)
      else (RetOK, cl\<lparr>clean_table := clean_table cl @
              [\<lparr>ce_memregion = r, ce_status = 0, ce_argslist = args, ce_cleanup_fn = fn\<rparr>]\<rparr>))"

definition alloc_object ::
  "allocate_cb \<Rightarrow> u64 \<Rightarrow> ptr \<Rightarrow> cleanup_fn \<Rightarrow> cleanup \<Rightarrow> (errno + mem_region) \<times> cleanup" where
  "alloc_object allocate length_mem args fn cl =
     (if length (clean_table cl) \<ge> MAX_CLEANUP_ENTRIES then (Inl ENOMEM, cl)
      else
        let cl1 = cl\<lparr>alloc_calls := Suc (alloc_calls cl)\<rparr>
        in (case allocate (alloc_calls cl) length_mem of
              None \<Rightarrow> (Inl ENOMEM, cl1)
            | Some r \<Rightarrow>
                (Inr r, cl1\<lparr>clean_table := clean_table cl1 @
                  [\<lparr>ce_memregion = r, ce_status = 0, ce_argslist = args, ce_cleanup_fn = fn\<rparr>]\<rparr>)))"

text \<open>
  The clean-up loop runs from the last entry to the first.  \<open>run\<close> is what a clean-up function
  returns on a region; a \<^verbatim>\<open>NULL\<close> function means \<^verbatim>\<open>free_mem\<close>.  The result lists the calls made.
\<close>

definition cleanup_call :: "cleanup_entry \<Rightarrow> cleanup_fn \<times> mem_region \<times> ptr" where
  "cleanup_call e =
     ((if ce_cleanup_fn e = CF_null then CF_free_mem else ce_cleanup_fn e), ce_memregion e, ce_argslist e)"

fun cleanup_loop ::
  "(cleanup_fn \<times> mem_region \<times> ptr \<Rightarrow> u64) \<Rightarrow> nat \<Rightarrow> cleanup_entry list
   \<Rightarrow> (cleanup_fn \<times> mem_region \<times> ptr) list \<times> cleanup_entry list" where
  "cleanup_loop run 0 tab = ([], tab)"
| "cleanup_loop run (Suc i) tab =
     (let c = cleanup_call (tab ! i);
          (cs, tab') = cleanup_loop run i (tab[i := (tab ! i)\<lparr>ce_status := run c\<rparr>])
      in (c # cs, tab'))"

definition process_cleanup_table ::
  "(cleanup_fn \<times> mem_region \<times> ptr \<Rightarrow> u64) \<Rightarrow> cleanup
   \<Rightarrow> (cleanup_fn \<times> mem_region \<times> ptr) list \<times> cleanup" where
  "process_cleanup_table run cl =
     (let (cs, tab) = cleanup_loop run (length (clean_table cl)) (clean_table cl)
      in (cs, cl\<lparr>clean_table := tab\<rparr>))"

section \<open>Lemmas\<close>

lemma alloc_object_bound:
  "length (clean_table cl) \<le> MAX_CLEANUP_ENTRIES \<Longrightarrow>
   alloc_object allocate len args fn cl = (r, cl') \<Longrightarrow>
   length (clean_table cl') \<le> MAX_CLEANUP_ENTRIES"
  by (auto simp: alloc_object_def Let_def split: if_splits option.splits)

lemma alloc_object_Inr:
  "alloc_object allocate len args fn cl = (Inr r, cl') \<Longrightarrow>
   clean_table cl' = clean_table cl @
     [\<lparr>ce_memregion = r, ce_status = 0, ce_argslist = args, ce_cleanup_fn = fn\<rparr>] \<and>
   allocate (alloc_calls cl) len = Some r"
  by (auto simp: alloc_object_def Let_def split: if_splits option.splits)

lemma alloc_object_Inl:
  "alloc_object allocate len args fn cl = (Inl e, cl') \<Longrightarrow>
   e = ENOMEM \<and> clean_table cl' = clean_table cl"
  by (auto simp: alloc_object_def Let_def split: if_splits option.splits)

lemma cleanup_loop_calls:
  "i \<le> length tab \<Longrightarrow> fst (cleanup_loop run i tab) = rev (map cleanup_call (take i tab))"
proof (induction i arbitrary: tab)
  case 0
  then show ?case by simp
next
  case (Suc i)
  then have "take i (tab[i := e]) = take i tab" for e by simp
  with Suc show ?case
    by (simp add: Let_def case_prod_unfold take_Suc_conv_app_nth)
qed

lemma cleanup_loop_length: "length (snd (cleanup_loop run i tab)) = length tab"
  by (induction i arbitrary: tab) (auto simp: Let_def case_prod_unfold)

end
