(* ===== verification/Mudm_Sweep.thy ===== *)
theory Mudm_Sweep
  imports Mudm_Prelude
begin

text \<open>
  The pointer work shared by the poll loops of \<^verbatim>\<open>poll_pkt_message\<close> (\<^verbatim>\<open>bgmudm/mudm_pkt.c\<close>) and
  \<^verbatim>\<open>rdma_poll_rdma_counter\<close> (\<^verbatim>\<open>bgmudm/rdma_object.c\<close>).  Both detach the list of posted
  entries, walk it, and move each entry to one of two private lists: finished entries, which go
  back to the free list, and unfinished ones, which are reposted.  In between a callback may
  run that uses the same pool.  One invariant over the five lists involved covers every step.
\<close>

section \<open>Status reports\<close>

text \<open>
  The arguments of one call of the status callback: request identifiers and their status words,
  at most \<^verbatim>\<open>NUM_REFID\<close> of them.
\<close>

type_synonym status_list = "(u64 \<times> u32) list"

definition NUM_REFID :: nat where "NUM_REFID = 8"

section \<open>The invariant\<close>

text \<open>
  \<open>ys\<close> is what is left of the detached list, from \<open>p\<close> on; \<open>Fs\<close> and \<open>Rs\<close> are the private lists
  of finished and reposted entries with end pointers \<open>fq\<close> and \<open>rq\<close>; \<open>fs\<close> and \<open>bs\<close> are the
  pool's own free and posted lists with heads \<open>f\<close> and \<open>b\<close>.
\<close>

definition sweep_inv ::
  "links \<Rightarrow> ptr \<Rightarrow> ptr \<Rightarrow> ptr \<Rightarrow> qends \<Rightarrow> qends \<Rightarrow> nat list \<Rightarrow> nat list \<Rightarrow> nat list \<Rightarrow> nat list \<Rightarrow> nat list \<Rightarrow> bool" where
  "sweep_inv L f b p fq rq ys Fs Rs fs bs \<longleftrightarrow>
     chain (nxt L) f fs None \<and> chain (nxt L) b bs None \<and> chain (nxt L) p ys None \<and>
     queue_rep L fq Fs \<and> queue_rep L rq Rs \<and> distinct (ys @ Fs @ Rs @ fs @ bs)"

lemma sweep_inv_head: "sweep_inv L f b p fq rq (x # ys) Fs Rs fs bs \<Longrightarrow> p = Some x"
  by (simp add: sweep_inv_def)

lemma sweep_inv_done: "sweep_inv L f b p fq rq [] Fs Rs fs bs \<Longrightarrow> p = None"
  by (simp add: sweep_inv_def)

lemma sweep_inv_queues:
  "sweep_inv L f b p fq rq ys Fs Rs fs bs \<Longrightarrow> (fst fq = None \<longleftrightarrow> Fs = []) \<and> (fst rq = None \<longleftrightarrow> Rs = [])"
  by (auto simp: sweep_inv_def dest: queue_rep_head)

section \<open>Steps\<close>

text \<open>A finished entry goes to the end of the first private list.\<close>

lemma sweep_finish:
  assumes inv: "sweep_inv L f b p fq rq (x # ys) Fs Rs fs bs" and t: "tail_append x fq L = (q', L')"
  shows "sweep_inv L' f b (nxt L x) q' rq ys (Fs @ [x]) Rs fs bs"
proof -
  from inv have q: "queue_rep L fq Fs" and d: "distinct (x # ys @ Fs @ Rs @ fs @ bs)"
    by (auto simp: sweep_inv_def)
  have fr: "chain (nxt L') r zs None = chain (nxt L) r zs None"
    if "x \<notin> set zs" "set Fs \<inter> set zs = {}" for r zs
    using tail_append_chain_frame[OF t q that] by simp
  have 1: "queue_rep L' q' (Fs @ [x])" using tail_append_rep[OF q _ _ t] d by simp
  have 2: "queue_rep L' rq Rs"
    by (rule tail_append_queue_frame[OF t q]) (use d inv in \<open>auto simp: sweep_inv_def\<close>)
  have 3: "chain (nxt L') (nxt L x) ys None" "chain (nxt L') f fs None" "chain (nxt L') b bs None"
    using inv d by (subst fr; force simp: sweep_inv_def)+
  from 1 2 3 d show ?thesis by (auto simp: sweep_inv_def)
qed

text \<open>The two private lists play the same part in the invariant.\<close>

lemma sweep_inv_swap:
  "sweep_inv L f b p fq rq ys Fs Rs fs bs = sweep_inv L f b p rq fq ys Rs Fs fs bs"
  "sweep_inv L f b p fq rq ys Fs Rs fs bs = sweep_inv L b f p fq rq ys Fs Rs bs fs"
  by (auto simp: sweep_inv_def)

lemma sweep_keep:
  "sweep_inv L f b p fq rq (x # ys) Fs Rs fs bs \<Longrightarrow> tail_append x rq L = (q', L') \<Longrightarrow>
   sweep_inv L' f b (nxt L x) fq q' ys Fs (Rs @ [x]) fs bs"
  by (subst sweep_inv_swap(1), rule sweep_finish) (simp_all add: sweep_inv_swap(1)[of L f b p fq])

text \<open>A whole private list is put in front of a list of the pool.\<close>

lemma sweep_give_back:
  assumes inv: "sweep_inv L f b p fq rq ys Fs Rs fs bs" and ne: "Fs \<noteq> []"
  shows "sweep_inv (link_splice (snd fq) f L) (fst fq) b p (None, l) rq ys [] Rs (Fs @ fs) bs"
proof -
  let ?L' = "link_splice (snd fq) f L"
  from inv have q: "queue_rep L fq Fs" and d: "distinct (ys @ Fs @ Rs @ fs @ bs)"
    by (auto simp: sweep_inv_def)
  have fr: "chain (nxt ?L') r zs None = chain (nxt L) r zs None" if "set Fs \<inter> set zs = {}" for r zs
    using splice_frame[OF q ne that] by simp
  have 1: "chain (nxt ?L') (fst fq) (Fs @ fs) None"
    by (rule splice_rep[OF q _ ne]) (use d inv in \<open>auto simp: sweep_inv_def\<close>)
  have 2: "chain (nxt ?L') p ys None" "chain (nxt ?L') b bs None" "chain (nxt ?L') (fst rq) Rs None"
    using inv d by (subst fr; force simp: sweep_inv_def queue_rep_def)+
  from 1 2 d inv show ?thesis by (auto simp: sweep_inv_def queue_rep_def simp del: chain_append)
qed

lemma sweep_repost:
  assumes "sweep_inv L f b p fq rq ys Fs Rs fs bs" "Rs \<noteq> []"
  shows "sweep_inv (link_splice (snd rq) b L) f (fst rq) p fq (None, l) ys Fs [] fs (Rs @ bs)"
proof -
  have "sweep_inv L b f p rq fq ys Rs Fs bs fs"
    using assms(1) sweep_inv_swap(1)[of L f b p fq rq] sweep_inv_swap(2)[of L f b p rq fq] by simp
  from sweep_give_back[OF this assms(2)] show ?thesis
    by (subst sweep_inv_swap(1), subst sweep_inv_swap(2))
qed

text \<open>Another user of the pool runs: it may rearrange the pool's lists, and touches nothing else.\<close>

lemma sweep_env:
  assumes inv: "sweep_inv L f b p fq rq ys Fs Rs fs bs"
    and c: "chain (nxt L') f' fs' None" "chain (nxt L') b' bs' None" "distinct (fs' @ bs')"
    and s: "set fs' \<union> set bs' = set fs \<union> set bs"
    and fr: "\<And>x. x \<notin> set fs \<union> set bs \<Longrightarrow> nxt L' x = nxt L x"
  shows "sweep_inv L' f' b' p fq rq ys Fs Rs fs' bs'"
proof -
  from inv have d: "distinct (ys @ Fs @ Rs @ fs @ bs)" by (simp add: sweep_inv_def)
  have cf: "chain (nxt L') h zs None = chain (nxt L) h zs None" if "set zs \<inter> (set fs \<union> set bs) = {}" for h zs
    by (rule chain_cong) (use that fr in auto)
  have "chain (nxt L') p ys None" "chain (nxt L') (fst fq) Fs None" "chain (nxt L') (fst rq) Rs None"
    using inv d by (subst cf; force simp: sweep_inv_def queue_rep_def)+
  moreover have "distinct (ys @ Fs @ Rs @ fs' @ bs')" using d s c(3) by (auto simp: Un_commute)
  ultimately show ?thesis using inv c by (auto simp: sweep_inv_def queue_rep_def)
qed

section \<open>Walking a detached list\<close>

text \<open>
  The flush loops walk a detached list from head to end, visiting each entry; a visit may run a
  callback that uses the pool.  \<open>pool s fs bs\<close> says what the pool holds in state \<open>s\<close>.  The loop
  ends, and is a fold over the list.
\<close>

locale list_walk =
  fixes lnk :: "'s \<Rightarrow> links"
    and visit :: "nat \<Rightarrow> 's \<Rightarrow> 's"
    and walk :: "ptr \<Rightarrow> ptr \<Rightarrow> 's \<Rightarrow> (ptr \<times> 's) option"
    and pool :: "'s \<Rightarrow> nat list \<Rightarrow> nat list \<Rightarrow> bool"
  assumes walk_None: "walk None l s = Some (l, s)"
    and walk_Some: "walk (Some x) l s = walk (nxt (lnk (visit x s)) x) (Some x) (visit x s)"
    and pool_distinct: "pool s fs bs \<Longrightarrow> distinct (fs @ bs)"
    and visit_pool: "pool s fs bs \<Longrightarrow> x \<notin> set fs \<union> set bs \<Longrightarrow>
      \<exists>fs' bs'. pool (visit x s) fs' bs' \<and> set fs' \<union> set bs' = set fs \<union> set bs"
    and visit_frame: "pool s fs bs \<Longrightarrow> x \<notin> set fs \<union> set bs \<Longrightarrow> y \<notin> set fs \<union> set bs \<Longrightarrow>
      nxt (lnk (visit x s)) y = nxt (lnk s) y"
begin

lemma walk_fold:
  assumes "pool s fs bs" "chain (nxt (lnk s)) p ys None" "set ys \<inter> (set fs \<union> set bs) = {}"
  shows "walk p l s = Some (if ys = [] then l else Some (last ys), fold visit ys s)"
  using assms
proof (induction ys arbitrary: s fs bs p l)
  case Nil
  then show ?case by (simp add: walk_None)
next
  case (Cons x ys)
  then have x: "x \<notin> set fs \<union> set bs" and p: "p = Some x" by auto
  from visit_pool[OF Cons.prems(1) x] obtain fs' bs' where
    1: "pool (visit x s) fs' bs'" "set fs' \<union> set bs' = set fs \<union> set bs" by blast
  have fr: "y \<in> set (x # ys) \<Longrightarrow> nxt (lnk (visit x s)) y = nxt (lnk s) y" for y
    using visit_frame[OF Cons.prems(1) x] Cons.prems(3) by auto
  have "chain (nxt (lnk (visit x s))) (nxt (lnk (visit x s)) x) ys None"
    using Cons.prems(2) fr chain_cong[of ys "nxt (lnk (visit x s))" "nxt (lnk s)"] by simp
  from Cons.IH[OF 1(1) this, of "Some x"] 1(2) Cons.prems(3) show ?case by (simp add: p walk_Some)
qed

lemma fold_pool:
  assumes "pool s fs bs" "set ys \<inter> (set fs \<union> set bs) = {}"
  shows "\<exists>fs' bs'. pool (fold visit ys s) fs' bs' \<and> set fs' \<union> set bs' = set fs \<union> set bs \<and>
    (\<forall>y. y \<notin> set fs \<union> set bs \<longrightarrow> nxt (lnk (fold visit ys s)) y = nxt (lnk s) y)"
  using assms
proof (induction ys arbitrary: s fs bs)
  case Nil
  then show ?case by auto
next
  case (Cons x ys)
  then have x: "x \<notin> set fs \<union> set bs" by auto
  from visit_pool[OF Cons.prems(1) x] obtain fs1 bs1 where
    1: "pool (visit x s) fs1 bs1" "set fs1 \<union> set bs1 = set fs \<union> set bs" by blast
  from Cons.IH[OF 1(1)] 1(2) Cons.prems(2) obtain fs' bs' where
    2: "pool (fold visit ys (visit x s)) fs' bs'" "set fs' \<union> set bs' = set fs \<union> set bs"
      "\<forall>y. y \<notin> set fs \<union> set bs \<longrightarrow> nxt (lnk (fold visit ys (visit x s))) y = nxt (lnk (visit x s)) y"
    by auto
  with visit_frame[OF Cons.prems(1) x] show ?case
    by (intro exI[of _ fs'] exI[of _ bs']) simp
qed

text \<open>Hanging the walked list in front of the free list gives it back whole.\<close>

lemma fold_give_back:
  assumes "pool s fs bs" "chain (nxt (lnk s)) (Some h) ys None" "distinct (ys @ fs @ bs)"
    and "pool (fold visit ys s) fs' bs'" "set fs' \<union> set bs' = set fs \<union> set bs"
    and "chain (nxt (lnk (fold visit ys s))) f fs' None" "chain (nxt (lnk (fold visit ys s))) b bs' None"
  shows "chain (nxt (link_splice (Some (last ys)) f (lnk (fold visit ys s)))) (Some h) (ys @ fs') None"
    and "chain (nxt (link_splice (Some (last ys)) f (lnk (fold visit ys s)))) b bs' None"
    and "distinct ((ys @ fs') @ bs')"
proof -
  let ?L = "lnk (fold visit ys s)"
  have dj: "set ys \<inter> (set fs \<union> set bs) = {}" using assms(3) by auto
  have ne: "ys \<noteq> []" using assms(2) by auto
  have "y \<in> set ys \<Longrightarrow> nxt ?L y = nxt (lnk s) y" for y using fold_pool[OF assms(1) dj] dj by auto
  then have "chain (nxt ?L) (Some h) ys None" using assms(2) chain_cong[of ys "nxt ?L" "nxt (lnk s)"] by simp
  then have q: "queue_rep ?L (Some h, Some (last ys)) ys" by (simp add: queue_rep_def)
  have d: "distinct ys" "set ys \<inter> set fs' = {}" "set ys \<inter> set bs' = {}" using assms(3,5) dj by auto
  show "chain (nxt (link_splice (Some (last ys)) f ?L)) (Some h) (ys @ fs') None"
    using splice_rep[OF q d(1) ne assms(6) d(2)] by simp
  show "chain (nxt (link_splice (Some (last ys)) f ?L)) b bs' None"
    using splice_frame[OF q ne d(3)] assms(7) by simp
  show "distinct ((ys @ fs') @ bs')" using pool_distinct[OF assms(4)] d by auto
qed

end

end
