(* ===== verification/Mudm_Pkt.thy ===== *)
theory Mudm_Pkt
  imports Mudm_Pool Mudm_Alloc Mudm_Sweep
begin

text \<open>
  The packet-descriptor pool of \<^verbatim>\<open>bgmudm/mudm_pkt.h\<close> and \<^verbatim>\<open>bgmudm/mudm_pkt.c\<close>: a fixed array
  of descriptors threaded on a free list and on a list of packets whose completion is awaited
  (\<^verbatim>\<open>pkt_reqid_list\<close>).  \<^verbatim>\<open>poll_pkt_message\<close> and \<^verbatim>\<open>flush_pkt_reqid\<close> are modelled at pointer
  level.  The user's status callback may itself call back into the pool (the verbs layer posts
  more sends from it), so it is a parameter that transforms the pool.
\<close>

section \<open>Data\<close>

record pkt_descriptor =
  desc_cnt :: u64
  req_id :: u64
  error_val :: u64
  pkt_msg :: u64
  message_pa :: u64
  flightinfo4delay :: u64
  pkt_timestamp :: u64
  pkt_ccontext :: ptr

record pkt_controls =
  num_pkts :: nat
  packet_size :: u64
  packetlist :: u64
  pkt_links :: links
  pkt_nodes :: "nat \<Rightarrow> pkt_descriptor"
  pkt_free_list :: ptr
  pkt_reqid_list :: ptr

text \<open>The arguments and the effect of the status callback of \<^verbatim>\<open>mudm_init_info\<close>.\<close>

type_synonym status_cb = "status_list \<Rightarrow> pkt_controls \<Rightarrow> pkt_controls"

section \<open>Operations on one descriptor\<close>

definition set_pkt_req_id :: "nat \<Rightarrow> u64 \<Rightarrow> pkt_controls \<Rightarrow> pkt_controls" where
  "set_pkt_req_id x v pc = pc\<lparr>pkt_nodes := (pkt_nodes pc)(x := (pkt_nodes pc x)\<lparr>req_id := v\<rparr>)\<rparr>"

definition set_pkt_error_val :: "nat \<Rightarrow> u64 \<Rightarrow> pkt_controls \<Rightarrow> pkt_controls" where
  "set_pkt_error_val x v pc = pc\<lparr>pkt_nodes := (pkt_nodes pc)(x := (pkt_nodes pc x)\<lparr>error_val := v\<rparr>)\<rparr>"

definition set_pkt_count :: "nat \<Rightarrow> u64 \<Rightarrow> pkt_controls \<Rightarrow> pkt_controls" where
  "set_pkt_count x c pc = pc\<lparr>pkt_nodes := (pkt_nodes pc)(x := (pkt_nodes pc x)\<lparr>desc_cnt := c\<rparr>)\<rparr>"

definition release_pkt_to_free :: "nat \<Rightarrow> u64 \<Rightarrow> pkt_controls \<Rightarrow> pkt_controls" where
  "release_pkt_to_free x desc_count pc =
     (let pc1 = pc\<lparr>pkt_nodes := (pkt_nodes pc)(x := (pkt_nodes pc x)\<lparr>desc_cnt := 0\<rparr>)\<rparr>
      in pc1\<lparr>pkt_links := link_push1 x (pkt_free_list pc1) (pkt_links pc1),
             pkt_free_list := Some x\<rparr>)"

text \<open>\<open>now\<close> is the value \<^verbatim>\<open>GetTimeBase2\<close> returns.\<close>

definition release_pkt_to_poll :: "u64 \<Rightarrow> nat \<Rightarrow> u64 \<Rightarrow> pkt_controls \<Rightarrow> pkt_controls" where
  "release_pkt_to_poll now x desc_count pc =
     (let pc1 = pc\<lparr>pkt_nodes := (pkt_nodes pc)(x := (pkt_nodes pc x)
                    \<lparr>desc_cnt := desc_count, pkt_timestamp := now\<rparr>)\<rparr>
      in pc1\<lparr>pkt_links := link_push2 x (pkt_reqid_list pc1) (pkt_links pc1),
             pkt_reqid_list := Some x\<rparr>)"

text \<open>The result is whether \<^verbatim>\<open>wakeup()\<close> is called, and the pool.\<close>

definition release_pkt_to_poll_ccontext ::
  "u64 \<Rightarrow> nat \<Rightarrow> u64 \<Rightarrow> nat \<Rightarrow> pkt_controls \<Rightarrow> bool \<times> pkt_controls" where
  "release_pkt_to_poll_ccontext now x desc_count cc pc =
     (let pc1 = pc\<lparr>pkt_nodes := (pkt_nodes pc)(x := (pkt_nodes pc x)\<lparr>pkt_ccontext := Some cc\<rparr>)\<rparr>
      in (req_id (pkt_nodes pc1 x) \<noteq> 0, release_pkt_to_poll now x desc_count pc1))"

definition alloc_pkt_message :: "pkt_controls \<Rightarrow> ptr \<times> pkt_controls" where
  "alloc_pkt_message pc =
     (case pkt_free_list pc of
        None \<Rightarrow> (None, pc)
      | Some x \<Rightarrow>
         (Some x,
          pc\<lparr>pkt_free_list := nxt (pkt_links pc) x,
             pkt_nodes := (pkt_nodes pc)(x := (pkt_nodes pc x)
               \<lparr>req_id := 0, error_val := 0, flightinfo4delay := 0, pkt_timestamp := 0,
                desc_cnt := -1, pkt_ccontext := None\<rparr>)\<rparr>))"

section \<open>Initialisation\<close>

text \<open>
  One iteration of the loop of \<^verbatim>\<open>alloc_pkt_list_object\<close>, the loop with the write behind it,
  and the function with its three allocations.  \<open>mem\<close> and \<open>L\<close> are what the memory of the
  descriptors holds before; \<^verbatim>\<open>alloc_object\<close> zeroes the allocated \<open>n\<close> entries.
\<close>

definition zero_pkt_descriptor :: pkt_descriptor where
  "zero_pkt_descriptor = \<lparr>desc_cnt = 0, req_id = 0, error_val = 0, pkt_msg = 0, message_pa = 0,
     flightinfo4delay = 0, pkt_timestamp = 0, pkt_ccontext = None\<rparr>"

definition pkt_list_entry :: "nat \<Rightarrow> u64 \<Rightarrow> u64 \<Rightarrow> u64 \<Rightarrow> pkt_controls \<Rightarrow> pkt_controls" where
  "pkt_list_entry i packetsize base_va base_pa pc =
     pc\<lparr>pkt_links := \<lparr>nxt = (nxt (pkt_links pc))(i := Some (i + 1)),
                     prv = (prv (pkt_links pc))(i := None)\<rparr>,
        pkt_nodes := (pkt_nodes pc)(i := (pkt_nodes pc i)
          \<lparr>pkt_msg := base_va + of_nat i * packetsize,
           message_pa := base_pa + of_nat i * packetsize\<rparr>)\<rparr>"

definition pkt_list_setup ::
  "nat \<Rightarrow> u64 \<Rightarrow> mem_region \<Rightarrow> links \<Rightarrow> (nat \<Rightarrow> pkt_descriptor) \<Rightarrow> pkt_controls" where
  "pkt_list_setup n packetsize r L mem =
     (let pc0 = \<lparr>num_pkts = n, packet_size = packetsize, packetlist = base_vaddr r,
                 pkt_links = L, pkt_nodes = (\<lambda>i. if i < n then zero_pkt_descriptor else mem i),
                 pkt_free_list = Some 0, pkt_reqid_list = None\<rparr>;
          pc1 = fold (\<lambda>i. pkt_list_entry i packetsize (base_vaddr r) (base_paddr r)) [0..<n] pc0
      in pc1\<lparr>pkt_links := (pkt_links pc1)\<lparr>nxt := (nxt (pkt_links pc1))(num_pkts pc1 := None)\<rparr>\<rparr>)"

text \<open>\<open>sz_ctl\<close> and \<open>sz_desc\<close> are \<^verbatim>\<open>sizeof(struct pkt_controls)\<close> and \<^verbatim>\<open>sizeof(struct pkt_descriptor)\<close>.\<close>

definition alloc_pkt_list_object ::
  "allocate_cb \<Rightarrow> u64 \<Rightarrow> u64 \<Rightarrow> u32 \<Rightarrow> u64 \<Rightarrow> links \<Rightarrow> (nat \<Rightarrow> pkt_descriptor) \<Rightarrow> cleanup
   \<Rightarrow> (errno + pkt_controls) \<times> cleanup" where
  "alloc_pkt_list_object allocate sz_ctl sz_desc max_connections packetsize L mem cl =
     (case alloc_object allocate sz_ctl None CF_free_mem cl of
        (Inl e, cl1) \<Rightarrow> (Inl e, cl1)
      | (Inr _, cl1) \<Rightarrow>
         (case alloc_object allocate (ucast max_connections * packetsize) None CF_free_mem cl1 of
            (Inl e, cl2) \<Rightarrow> (Inl e, cl2)
          | (Inr pkts, cl2) \<Rightarrow>
             (case alloc_object allocate (ucast max_connections * sz_desc) None CF_free_mem cl2 of
                (Inl e, cl3) \<Rightarrow> (Inl e, cl3)
              | (Inr _, cl3) \<Rightarrow> (Inr (pkt_list_setup (unat max_connections) packetsize pkts L mem), cl3))))"

section \<open>Polling for completed packets\<close>

definition TOO_MANY_CYCLES :: u64 where "TOO_MANY_CYCLES = 182000000000"

text \<open>
  The locals of \<^verbatim>\<open>poll_pkt_message\<close> that survive an iteration, with \<^verbatim>\<open>mcontext->StuckState\<close>.
  \<open>pp_calls\<close> records the calls of the status callback.
\<close>

record pkt_poll =
  pp_pool :: pkt_controls
  pp_free :: qends
  pp_repost :: qends
  pp_refs :: status_list
  pp_unfreed :: u64
  pp_stuck :: u32
  pp_calls :: "status_list list"

text \<open>The branch \<^verbatim>\<open>ref_desc_count >= pktd->desc_cnt\<close>, up to the test for a saturated list.\<close>

definition pkt_poll_complete :: "nat \<Rightarrow> pkt_poll \<Rightarrow> pkt_poll" where
  "pkt_poll_complete x st =
     (let pc = pp_pool st; d = pkt_nodes pc x;
          refs' = (if req_id d \<noteq> 0 then pp_refs st @ [(req_id d, ucast (error_val d))] else pp_refs st);
          d' = (if req_id d \<noteq> 0 then d\<lparr>req_id := 0, error_val := 0\<rparr> else d);
          (q', L') = tail_append x (pp_free st) (pkt_links pc)
      in st\<lparr>pp_pool := pc\<lparr>pkt_nodes := (pkt_nodes pc)(x := d'), pkt_links := L'\<rparr>,
            pp_free := q', pp_refs := refs'\<rparr>)"

text \<open>Returning the finished entries to the free list.\<close>

definition pkt_free_splice :: "pkt_poll \<Rightarrow> pkt_poll" where
  "pkt_free_splice st =
     (let pc = pp_pool st; q = pp_free st
      in st\<lparr>pp_pool := pc\<lparr>pkt_links := link_splice (snd q) (pkt_free_list pc) (pkt_links pc),
                           pkt_free_list := fst q\<rparr>,
            pp_free := (None, snd q)\<rparr>)"

definition pkt_report :: "status_cb \<Rightarrow> pkt_poll \<Rightarrow> pkt_poll" where
  "pkt_report cb st =
     st\<lparr>pp_pool := cb (pp_refs st) (pp_pool st),
        pp_calls := pp_calls st @ [pp_refs st], pp_refs := []\<rparr>"

text \<open>The branch of an entry that has not completed: stuck-packet detection and reposting.\<close>

definition pkt_poll_pending :: "u64 \<Rightarrow> nat \<Rightarrow> pkt_poll \<Rightarrow> pkt_poll" where
  "pkt_poll_pending now x st =
     (let pc = pp_pool st; d = pkt_nodes pc x;
          late = (pkt_timestamp d \<noteq> 0 \<and> now - pkt_timestamp d > TOO_MANY_CYCLES);
          d' = (if late then d\<lparr>pkt_timestamp := 0\<rparr> else d);
          (q', L') = tail_append x (pp_repost st) (pkt_links pc)
      in st\<lparr>pp_pool := pc\<lparr>pkt_nodes := (pkt_nodes pc)(x := d'), pkt_links := L'\<rparr>,
            pp_repost := q',
            pp_unfreed := (if req_id d \<noteq> 0 then pp_unfreed st + 1 else pp_unfreed st),
            pp_stuck := (if late \<and> pp_stuck st = 0 then 1 else pp_stuck st)\<rparr>)"

definition pkt_poll_step :: "status_cb \<Rightarrow> u64 \<Rightarrow> u64 \<Rightarrow> nat \<Rightarrow> pkt_poll \<Rightarrow> pkt_poll" where
  "pkt_poll_step cb ref_desc_count now x st =
     (if desc_cnt (pkt_nodes (pp_pool st) x) \<le> ref_desc_count
      then let st1 = pkt_poll_complete x st
           in (if length (pp_refs st1) = NUM_REFID then pkt_report cb (pkt_free_splice st1) else st1)
      else pkt_poll_pending now x st)"

partial_function (option) pkt_poll_loop ::
  "status_cb \<Rightarrow> u64 \<Rightarrow> u64 \<Rightarrow> ptr \<Rightarrow> pkt_poll \<Rightarrow> pkt_poll option" where
  "pkt_poll_loop cb ref_desc_count now p st =
     (case p of
        None \<Rightarrow> Some st
      | Some x \<Rightarrow> pkt_poll_loop cb ref_desc_count now (nxt (pkt_links (pp_pool st)) x)
                    (pkt_poll_step cb ref_desc_count now x st))"

text \<open>The two hand-backs and the last report after the loop.\<close>

definition pkt_poll_finish :: "status_cb \<Rightarrow> pkt_poll \<Rightarrow> pkt_poll" where
  "pkt_poll_finish cb st =
     (let st1 = (if fst (pp_free st) \<noteq> None then pkt_free_splice st else st);
          pc = pp_pool st1; q = pp_repost st1;
          st2 = (if fst q \<noteq> None
                 then st1\<lparr>pp_pool := pc\<lparr>pkt_links := link_splice (snd q) (pkt_reqid_list pc) (pkt_links pc),
                                         pkt_reqid_list := fst q\<rparr>\<rparr>
                 else st1)
      in (if pp_refs st2 \<noteq> [] then pkt_report cb st2 else st2))"

definition pkt_poll_start :: "u32 \<Rightarrow> pkt_controls \<Rightarrow> pkt_poll" where
  "pkt_poll_start stuck pc =
     \<lparr>pp_pool = pc\<lparr>pkt_reqid_list := None\<rparr>, pp_free = (None, None), pp_repost = (None, None),
      pp_refs = [], pp_unfreed = 0, pp_stuck = stuck, pp_calls = []\<rparr>"

text \<open>\<open>hw_desc_count\<close> is what \<^verbatim>\<open>MUSPI_getHwDescCount\<close> reads, \<open>now\<close> the time base.\<close>

definition poll_pkt_message ::
  "status_cb \<Rightarrow> u64 \<Rightarrow> u64 \<Rightarrow> u32 \<Rightarrow> pkt_controls \<Rightarrow> pkt_poll option" where
  "poll_pkt_message cb hw_desc_count now stuck pc =
     (case pkt_reqid_list pc of
        None \<Rightarrow> Some (pkt_poll_start stuck pc)
      | Some x \<Rightarrow> map_option (pkt_poll_finish cb)
                   (pkt_poll_loop cb hw_desc_count now (Some x) (pkt_poll_start stuck pc)))"

section \<open>Flushing on link reset\<close>

definition flush_error_val :: u32 where "flush_error_val = word_of_int (-125)"

text \<open>The first component of the state of the loop records the calls of the callback.\<close>

definition flush_pkt_entry ::
  "status_cb \<Rightarrow> nat \<Rightarrow> status_list \<times> pkt_controls \<Rightarrow> status_list \<times> pkt_controls" where
  "flush_pkt_entry cb x s =
     (let (calls, pc) = s; r = req_id (pkt_nodes pc x); pc1 = set_pkt_req_id x 0 pc
      in if r \<noteq> 0 then (calls @ [(r, flush_error_val)], cb [(r, flush_error_val)] pc1) else (calls, pc1))"

partial_function (option) flush_pkt_loop ::
  "status_cb \<Rightarrow> ptr \<Rightarrow> ptr \<Rightarrow> status_list \<times> pkt_controls \<Rightarrow> (ptr \<times> status_list \<times> pkt_controls) option" where
  "flush_pkt_loop cb p last_pktd s =
     (case p of
        None \<Rightarrow> Some (last_pktd, s)
      | Some x \<Rightarrow>
          let s1 = flush_pkt_entry cb x s
          in flush_pkt_loop cb (nxt (pkt_links (snd s1)) x) (Some x) s1)"

definition flush_pkt_reqid :: "status_cb \<Rightarrow> pkt_controls \<Rightarrow> (status_list \<times> pkt_controls) option" where
  "flush_pkt_reqid cb pc =
     (case pkt_reqid_list pc of
        None \<Rightarrow> Some ([], pc)
      | Some x \<Rightarrow>
          map_option (\<lambda>(l, calls, pc1).
              (calls, pc1\<lparr>pkt_links := link_splice l (pkt_free_list pc1) (pkt_links pc1),
                          pkt_free_list := Some x\<rparr>))
            (flush_pkt_loop cb (Some x) None ([], pc\<lparr>pkt_reqid_list := None\<rparr>)))"

section \<open>What a pool represents\<close>

definition pkt_rep :: "pkt_controls \<Rightarrow> nat list \<Rightarrow> nat list \<Rightarrow> bool" where
  "pkt_rep pc fs bs \<longleftrightarrow>
     chain (nxt (pkt_links pc)) (pkt_free_list pc) fs None \<and>
     chain (nxt (pkt_links pc)) (pkt_reqid_list pc) bs None \<and> distinct (fs @ bs)"

text \<open>
  What the poller relies on of the status callback: it may allocate, release and post
  descriptors (so both lists may change), but keeps none for itself and touches no descriptor
  that is on neither list.
\<close>

definition cb_ok :: "status_cb \<Rightarrow> bool" where
  "cb_ok cb \<longleftrightarrow>
     (\<forall>l pc fs bs. pkt_rep pc fs bs \<longrightarrow>
        (\<exists>fs' bs'. pkt_rep (cb l pc) fs' bs' \<and> set fs' \<union> set bs' = set fs \<union> set bs \<and>
          (\<forall>x. x \<notin> set fs \<union> set bs \<longrightarrow>
             nxt (pkt_links (cb l pc)) x = nxt (pkt_links pc) x \<and>
             pkt_nodes (cb l pc) x = pkt_nodes pc x)))"

lemma pkt_rep_fun: "pkt_rep pc fs bs \<Longrightarrow> pkt_rep pc fs' bs' \<Longrightarrow> fs' = fs \<and> bs' = bs"
  by (auto simp: pkt_rep_def dest: chain_fun)

lemma cb_okD:
  "cb_ok cb \<Longrightarrow> pkt_rep pc fs bs \<Longrightarrow>
   \<exists>fs' bs'. pkt_rep (cb l pc) fs' bs' \<and> set fs' \<union> set bs' = set fs \<union> set bs \<and>
     (\<forall>x. x \<notin> set fs \<union> set bs \<longrightarrow>
        nxt (pkt_links (cb l pc)) x = nxt (pkt_links pc) x \<and> pkt_nodes (cb l pc) x = pkt_nodes pc x)"
  by (simp add: cb_ok_def)

lemma cb_ok_id: "cb_ok (\<lambda>_ pc. pc)"
  unfolding cb_ok_def by blast

lemma alloc_pkt_message_Nil: "pkt_rep pc [] bs \<Longrightarrow> alloc_pkt_message pc = (None, pc)"
  by (simp add: pkt_rep_def alloc_pkt_message_def)

lemma alloc_pkt_message_Cons:
  "pkt_rep pc (x # fs) bs \<Longrightarrow> \<exists>pc'. alloc_pkt_message pc = (Some x, pc') \<and> pkt_rep pc' fs bs"
  by (auto simp: pkt_rep_def alloc_pkt_message_def)

lemma release_pkt_to_free_rep:
  "pkt_rep pc fs bs \<Longrightarrow> x \<notin> set fs \<union> set bs \<Longrightarrow> pkt_rep (release_pkt_to_free x c pc) (x # fs) bs"
  by (simp add: pkt_rep_def release_pkt_to_free_def Let_def link_push1_def)

lemma release_pkt_to_poll_rep:
  "pkt_rep pc fs bs \<Longrightarrow> x \<notin> set fs \<union> set bs \<Longrightarrow> pkt_rep (release_pkt_to_poll now x c pc) fs (x # bs)"
  by (simp add: pkt_rep_def release_pkt_to_poll_def Let_def link_push2_def)

section \<open>The poll loop\<close>

definition poll_inv ::
  "pkt_poll \<Rightarrow> ptr \<Rightarrow> nat list \<Rightarrow> nat list \<Rightarrow> nat list \<Rightarrow> nat list \<Rightarrow> nat list \<Rightarrow> bool" where
  "poll_inv st p ys Fs Rs fs bs \<longleftrightarrow>
     pkt_rep (pp_pool st) fs bs \<and>
     chain (nxt (pkt_links (pp_pool st))) p ys None \<and>
     queue_rep (pkt_links (pp_pool st)) (pp_free st) Fs \<and>
     queue_rep (pkt_links (pp_pool st)) (pp_repost st) Rs \<and>
     distinct (ys @ Fs @ Rs @ fs @ bs)"

lemma poll_inv_sweep:
  "poll_inv st p ys Fs Rs fs bs \<longleftrightarrow>
     sweep_inv (pkt_links (pp_pool st)) (pkt_free_list (pp_pool st)) (pkt_reqid_list (pp_pool st)) p
       (pp_free st) (pp_repost st) ys Fs Rs fs bs"
  by (auto simp: poll_inv_def sweep_inv_def pkt_rep_def)

lemma poll_inv_complete:
  assumes "poll_inv st p (x # ys) Fs Rs fs bs"
  shows "poll_inv (pkt_poll_complete x st) (nxt (pkt_links (pp_pool st)) x) ys (Fs @ [x]) Rs fs bs"
  using sweep_finish[OF assms[unfolded poll_inv_sweep] surjective_pairing]
  by (simp add: poll_inv_sweep pkt_poll_complete_def Let_def case_prod_unfold)

lemma poll_inv_pending:
  assumes "poll_inv st p (x # ys) Fs Rs fs bs"
  shows "poll_inv (pkt_poll_pending now x st) (nxt (pkt_links (pp_pool st)) x) ys Fs (Rs @ [x]) fs bs"
  using sweep_keep[OF assms[unfolded poll_inv_sweep] surjective_pairing]
  by (simp add: poll_inv_sweep pkt_poll_pending_def Let_def case_prod_unfold)

lemma poll_inv_splice:
  assumes "poll_inv st p ys Fs Rs fs bs" "Fs \<noteq> []"
  shows "poll_inv (pkt_free_splice st) p ys [] Rs (Fs @ fs) bs"
  using sweep_give_back[OF assms(1)[unfolded poll_inv_sweep] assms(2)]
  by (simp add: poll_inv_sweep pkt_free_splice_def Let_def)

lemma poll_inv_report:
  assumes cb: "cb_ok cb" and inv: "poll_inv st p ys Fs Rs fs bs"
  shows "\<exists>fs' bs'. poll_inv (pkt_report cb st) p ys Fs Rs fs' bs' \<and>
    set fs' \<union> set bs' = set fs \<union> set bs \<and> ((\<forall>l pc. cb l pc = pc) \<longrightarrow> bs' = bs)"
proof -
  let ?pc = "pp_pool st"
  from inv have r: "pkt_rep ?pc fs bs" by (simp add: poll_inv_def)
  from cb_okD[OF cb r, where l = "pp_refs st"] obtain fs' bs' where
    n: "pkt_rep (cb (pp_refs st) ?pc) fs' bs'" and s: "set fs' \<union> set bs' = set fs \<union> set bs" and
    f: "\<And>x. x \<notin> set fs \<union> set bs \<Longrightarrow>
          nxt (pkt_links (cb (pp_refs st) ?pc)) x = nxt (pkt_links ?pc) x"
    by blast
  have "poll_inv (pkt_report cb st) p ys Fs Rs fs' bs'"
    using sweep_env[OF inv[unfolded poll_inv_sweep] _ _ _ s f] n
    by (simp add: poll_inv_sweep pkt_report_def pkt_rep_def)
  moreover have "(\<forall>l pc. cb l pc = pc) \<longrightarrow> bs' = bs"
    using n r by (auto dest: pkt_rep_fun)
  ultimately show ?thesis using s by blast
qed

text \<open>One iteration, whatever the entry's state: nothing is lost or duplicated.\<close>

lemma poll_inv_step:
  assumes cb: "cb_ok cb" and inv: "poll_inv st p (x # ys) Fs Rs fs bs"
  shows "\<exists>Fs' Rs' fs' bs'.
    poll_inv (pkt_poll_step cb h now x st) (nxt (pkt_links (pp_pool st)) x) ys Fs' Rs' fs' bs' \<and>
    set Fs' \<union> set Rs' \<union> set fs' \<union> set bs' = insert x (set Fs \<union> set Rs \<union> set fs \<union> set bs) \<and>
    Rs' = (if desc_cnt (pkt_nodes (pp_pool st) x) \<le> h then Rs else Rs @ [x]) \<and>
    ((\<forall>l pc. cb l pc = pc) \<longrightarrow> bs' = bs)"
proof (cases "desc_cnt (pkt_nodes (pp_pool st) x) \<le> h")
  case False
  with poll_inv_pending[OF inv, of now] show ?thesis
    by (intro exI[of _ Fs] exI[of _ "Rs @ [x]"] exI[of _ fs] exI[of _ bs])
       (auto simp: pkt_poll_step_def)
next
  case True
  let ?st1 = "pkt_poll_complete x st"
  have 1: "poll_inv ?st1 (nxt (pkt_links (pp_pool st)) x) ys (Fs @ [x]) Rs fs bs"
    by (rule poll_inv_complete[OF inv])
  show ?thesis
  proof (cases "length (pp_refs ?st1) = NUM_REFID")
    case False
    with 1 True show ?thesis
      by (intro exI[of _ "Fs @ [x]"] exI[of _ Rs] exI[of _ fs] exI[of _ bs])
         (auto simp: pkt_poll_step_def Let_def)
  next
    case sat: True
    from poll_inv_splice[OF 1] have
      2: "poll_inv (pkt_free_splice ?st1) (nxt (pkt_links (pp_pool st)) x) ys [] Rs ((Fs @ [x]) @ fs) bs"
      by simp
    from poll_inv_report[OF cb 2] obtain fs' bs' where
      "poll_inv (pkt_report cb (pkt_free_splice ?st1)) (nxt (pkt_links (pp_pool st)) x) ys [] Rs fs' bs'"
      "set fs' \<union> set bs' = set ((Fs @ [x]) @ fs) \<union> set bs"
      "(\<forall>l pc. cb l pc = pc) \<longrightarrow> bs' = bs" by blast
    moreover from this(2) have
      "set [] \<union> set Rs \<union> set fs' \<union> set bs' = insert x (set Fs \<union> set Rs \<union> set fs \<union> set bs)" by auto
    moreover have "pkt_poll_step cb h now x st = pkt_report cb (pkt_free_splice ?st1)"
      using True sat by (simp add: pkt_poll_step_def Let_def)
    ultimately show ?thesis using True by metis
  qed
qed

text \<open>What the loop reports for an entry, and that it reports it once.\<close>

definition pkt_ref :: "u64 \<Rightarrow> (nat \<Rightarrow> pkt_descriptor) \<Rightarrow> nat \<Rightarrow> status_list" where
  "pkt_ref h nodes x =
     (if desc_cnt (nodes x) \<le> h \<and> req_id (nodes x) \<noteq> 0
      then [(req_id (nodes x), ucast (error_val (nodes x)))] else [])"

abbreviation poll_reports :: "pkt_poll \<Rightarrow> status_list" where
  "poll_reports st \<equiv> concat (pp_calls st) @ pp_refs st"

lemma pkt_poll_complete_refs:
  assumes "desc_cnt (pkt_nodes (pp_pool st) x) \<le> h"
  shows "pp_refs (pkt_poll_complete x st) = pp_refs st @ pkt_ref h (pkt_nodes (pp_pool st)) x"
    and "pp_calls (pkt_poll_complete x st) = pp_calls st"
    and "pp_unfreed (pkt_poll_complete x st) = pp_unfreed st"
  using assms by (simp_all add: pkt_poll_complete_def Let_def pkt_ref_def case_prod_unfold)

lemma pkt_poll_pending_refs [simp]:
  "pp_refs (pkt_poll_pending now x st) = pp_refs st"
  "pp_calls (pkt_poll_pending now x st) = pp_calls st"
  by (simp_all add: pkt_poll_pending_def Let_def case_prod_unfold)

lemma pkt_free_splice_refs [simp]:
  "pp_refs (pkt_free_splice st) = pp_refs st" "pp_calls (pkt_free_splice st) = pp_calls st"
  "pp_unfreed (pkt_free_splice st) = pp_unfreed st" "pp_repost (pkt_free_splice st) = pp_repost st"
  "pkt_nodes (pp_pool (pkt_free_splice st)) = pkt_nodes (pp_pool st)"
  by (simp_all add: pkt_free_splice_def Let_def)

lemma poll_step_reports:
  "poll_reports (pkt_poll_step cb h now x st) = poll_reports st @ pkt_ref h (pkt_nodes (pp_pool st)) x"
proof (cases "desc_cnt (pkt_nodes (pp_pool st) x) \<le> h")
  case True
  then show ?thesis
    by (simp add: pkt_poll_step_def Let_def pkt_report_def pkt_poll_complete_refs)
next
  case False
  then show ?thesis by (simp add: pkt_poll_step_def pkt_ref_def)
qed

lemma poll_step_batches:
  assumes "length (pp_refs st) < NUM_REFID"
  shows "length (pp_refs (pkt_poll_step cb h now x st)) < NUM_REFID"
    and "c \<in> set (pp_calls (pkt_poll_step cb h now x st)) \<Longrightarrow>
         c \<in> set (pp_calls st) \<or> length c = NUM_REFID"
proof -
  have "length (pkt_ref h (pkt_nodes (pp_pool st)) x) \<le> 1" by (simp add: pkt_ref_def)
  with assms show "length (pp_refs (pkt_poll_step cb h now x st)) < NUM_REFID"
    using pkt_poll_complete_refs(1)[of st x h]
    by (auto simp: pkt_poll_step_def Let_def pkt_report_def NUM_REFID_def)
  show "c \<in> set (pp_calls (pkt_poll_step cb h now x st)) \<Longrightarrow>
         c \<in> set (pp_calls st) \<or> length c = NUM_REFID"
    using pkt_poll_complete_refs(2)[of st x h]
    by (auto simp: pkt_poll_step_def Let_def pkt_report_def split: if_splits)
qed

lemma poll_step_nodes:
  assumes cb: "cb_ok cb" and inv: "poll_inv st p (x # ys) Fs Rs fs bs" and y: "y \<in> set ys"
  shows "pkt_nodes (pp_pool (pkt_poll_step cb h now x st)) y = pkt_nodes (pp_pool st) y"
proof -
  from inv y have ne: "y \<noteq> x" "y \<notin> set Fs \<union> set Rs \<union> set fs \<union> set bs"
    by (auto simp: poll_inv_def)
  let ?st1 = "pkt_free_splice (pkt_poll_complete x st)"
  have "poll_inv ?st1 (nxt (pkt_links (pp_pool st)) x) ys [] Rs ((Fs @ [x]) @ fs) bs"
    using poll_inv_splice[OF poll_inv_complete[OF inv]] by simp
  then have "pkt_rep (pp_pool ?st1) ((Fs @ [x]) @ fs) bs" by (simp add: poll_inv_def)
  from cb_okD[OF cb this] ne have
    "pkt_nodes (pp_pool (pkt_report cb ?st1)) y = pkt_nodes (pp_pool ?st1) y"
    by (auto simp: pkt_report_def)
  with ne show ?thesis
    by (simp add: pkt_poll_step_def Let_def pkt_poll_complete_def pkt_poll_pending_def
        case_prod_unfold)
qed

abbreviation pkt_pending :: "u64 \<Rightarrow> (nat \<Rightarrow> pkt_descriptor) \<Rightarrow> nat list \<Rightarrow> nat list" where
  "pkt_pending h nodes \<equiv> filter (\<lambda>x. \<not> desc_cnt (nodes x) \<le> h)"

lemma pkt_poll_loop_total:
  assumes cb: "cb_ok cb" and inv: "poll_inv st p ys Fs Rs fs bs"
    and len: "length (pp_refs st) < NUM_REFID"
  shows "\<exists>st' Fs' fs' bs'. pkt_poll_loop cb h now p st = Some st' \<and>
    poll_inv st' None [] Fs' (Rs @ pkt_pending h (pkt_nodes (pp_pool st)) ys) fs' bs' \<and>
    set Fs' \<union> set (Rs @ pkt_pending h (pkt_nodes (pp_pool st)) ys) \<union> set fs' \<union> set bs' =
      set ys \<union> set Fs \<union> set Rs \<union> set fs \<union> set bs \<and>
    poll_reports st' = poll_reports st @ concat (map (pkt_ref h (pkt_nodes (pp_pool st))) ys) \<and>
    length (pp_refs st') < NUM_REFID \<and>
    (\<forall>c \<in> set (pp_calls st'). c \<in> set (pp_calls st) \<or> length c = NUM_REFID) \<and>
    ((\<forall>l pc. cb l pc = pc) \<longrightarrow> bs' = bs)"
  using inv len
proof (induction ys arbitrary: st p Fs Rs fs bs)
  case Nil
  then have p: "p = None" by (simp add: poll_inv_def)
  with Nil show ?case
    by (subst pkt_poll_loop.simps, intro exI[of _ st] exI[of _ Fs] exI[of _ fs] exI[of _ bs])
       (auto simp: Un_ac)
next
  case (Cons x ys)
  let ?st1 = "pkt_poll_step cb h now x st" and ?p1 = "nxt (pkt_links (pp_pool st)) x"
  let ?N = "pkt_nodes (pp_pool st)"
  from Cons.prems(1) have p: "p = Some x" by (simp add: poll_inv_def)
  from poll_inv_step[OF cb Cons.prems(1), of h now] obtain F1 R1 f1 b1 where
    inv1: "poll_inv ?st1 ?p1 ys F1 R1 f1 b1" and
    set1: "set F1 \<union> set R1 \<union> set f1 \<union> set b1 = insert x (set Fs \<union> set Rs \<union> set fs \<union> set bs)" and
    R1: "R1 = (if desc_cnt (?N x) \<le> h then Rs else Rs @ [x])" and
    b1: "(\<forall>l pc. cb l pc = pc) \<longrightarrow> b1 = bs" by blast
  have nodes: "y \<in> set ys \<Longrightarrow> pkt_nodes (pp_pool ?st1) y = ?N y" for y
    by (rule poll_step_nodes[OF cb Cons.prems(1)])
  have pend: "R1 @ pkt_pending h (pkt_nodes (pp_pool ?st1)) ys = Rs @ pkt_pending h ?N (x # ys)"
    using nodes by (auto simp: R1 cong: filter_cong)
  have refs: "map (pkt_ref h (pkt_nodes (pp_pool ?st1))) ys = map (pkt_ref h ?N) ys"
    using nodes by (auto simp: pkt_ref_def)
  from Cons.IH[OF inv1 poll_step_batches(1)[OF Cons.prems(2)]] obtain st' F' f' b' where
    L: "pkt_poll_loop cb h now ?p1 ?st1 = Some st'" and
    I: "poll_inv st' None [] F' (Rs @ pkt_pending h ?N (x # ys)) f' b'" and
    S: "set F' \<union> set (Rs @ pkt_pending h ?N (x # ys)) \<union> set f' \<union> set b' =
        set ys \<union> set F1 \<union> set R1 \<union> set f1 \<union> set b1" and
    P: "poll_reports st' = poll_reports ?st1 @ concat (map (pkt_ref h ?N) ys)" and
    B: "length (pp_refs st') < NUM_REFID"
       "\<forall>c \<in> set (pp_calls st'). c \<in> set (pp_calls ?st1) \<or> length c = NUM_REFID"
       "(\<forall>l pc. cb l pc = pc) \<longrightarrow> b' = b1"
    unfolding pend refs by blast
  have "pkt_poll_loop cb h now p st = Some st'"
    using L by (subst pkt_poll_loop.simps) (simp add: p)
  moreover have "set ys \<union> set F1 \<union> set R1 \<union> set f1 \<union> set b1 =
      set (x # ys) \<union> set Fs \<union> set Rs \<union> set fs \<union> set bs" using set1 by auto
  moreover have "poll_reports st' = poll_reports st @ concat (map (pkt_ref h ?N) (x # ys))"
    by (simp add: P poll_step_reports)
  moreover have "\<forall>c \<in> set (pp_calls st'). c \<in> set (pp_calls st) \<or> length c = NUM_REFID"
    using B(2) poll_step_batches(2)[OF Cons.prems(2), of _ cb h now x] by blast
  ultimately show ?case using I S B(1,3) b1
    by (intro exI[of _ st'] exI[of _ F'] exI[of _ f'] exI[of _ b']) simp
qed

lemma poll_inv_repost:
  assumes inv: "poll_inv st None [] [] Rs fs bs" and ne: "Rs \<noteq> []"
    and st': "st' = st\<lparr>pp_pool := (pp_pool st)
        \<lparr>pkt_links := link_splice (snd (pp_repost st)) (pkt_reqid_list (pp_pool st)) (pkt_links (pp_pool st)),
         pkt_reqid_list := fst (pp_repost st)\<rparr>\<rparr>"
  shows "pkt_rep (pp_pool st') fs (Rs @ bs)"
  using sweep_repost[OF inv[unfolded poll_inv_sweep] ne] by (simp add: sweep_inv_def pkt_rep_def st')

lemma pkt_poll_finish_rep:
  assumes cb: "cb_ok cb" and inv: "poll_inv st None [] Fs Rs fs bs"
  shows "\<exists>fs' bs'. pkt_rep (pp_pool (pkt_poll_finish cb st)) fs' bs' \<and>
    set fs' \<union> set bs' = set Fs \<union> set Rs \<union> set fs \<union> set bs \<and>
    ((\<forall>l pc. cb l pc = pc) \<longrightarrow> bs' = Rs @ bs)"
proof -
  let ?st1 = "if fst (pp_free st) \<noteq> None then pkt_free_splice st else st"
  have hF: "fst (pp_free st) = None \<longleftrightarrow> Fs = []" and hR: "fst (pp_repost st) = None \<longleftrightarrow> Rs = []"
    using inv by (auto simp: poll_inv_def dest: queue_rep_head)
  have 1: "poll_inv ?st1 None [] [] Rs (Fs @ fs) bs"
    using poll_inv_splice[OF inv] inv hF by auto
  have rp: "pp_repost ?st1 = pp_repost st" by simp
  define st2 where "st2 = (if fst (pp_repost ?st1) \<noteq> None
      then ?st1\<lparr>pp_pool := (pp_pool ?st1)
        \<lparr>pkt_links := link_splice (snd (pp_repost ?st1)) (pkt_reqid_list (pp_pool ?st1)) (pkt_links (pp_pool ?st1)),
         pkt_reqid_list := fst (pp_repost ?st1)\<rparr>\<rparr> else ?st1)"
  have 2: "pkt_rep (pp_pool st2) (Fs @ fs) (Rs @ bs)"
  proof (cases "Rs = []")
    case True
    with hR rp have "st2 = ?st1" by (simp add: st2_def)
    with 1 True show ?thesis by (simp only: poll_inv_def) simp
  next
    case False
    with hR rp have "st2 = ?st1\<lparr>pp_pool := (pp_pool ?st1)
        \<lparr>pkt_links := link_splice (snd (pp_repost ?st1)) (pkt_reqid_list (pp_pool ?st1)) (pkt_links (pp_pool ?st1)),
         pkt_reqid_list := fst (pp_repost ?st1)\<rparr>\<rparr>" by (simp add: st2_def)
    from poll_inv_repost[OF 1 False this] show ?thesis .
  qed
  have f: "pkt_poll_finish cb st = (if pp_refs st2 \<noteq> [] then pkt_report cb st2 else st2)"
    by (simp add: pkt_poll_finish_def st2_def Let_def)
  from cb_okD[OF cb 2, of "pp_refs st2"] obtain fs' bs' where
    3: "pkt_rep (cb (pp_refs st2) (pp_pool st2)) fs' bs'"
       "set fs' \<union> set bs' = set (Fs @ fs) \<union> set (Rs @ bs)" by blast
  show ?thesis
  proof (cases "pp_refs st2 = []")
    case True
    with f 2 show ?thesis by (intro exI[of _ "Fs @ fs"] exI[of _ "Rs @ bs"]) auto
  next
    case False
    have "(\<forall>l pc. cb l pc = pc) \<longrightarrow> bs' = Rs @ bs" using 2 3(1) by (auto dest: pkt_rep_fun)
    moreover have "set fs' \<union> set bs' = set Fs \<union> set Rs \<union> set fs \<union> set bs" using 3(2) by auto
    ultimately show ?thesis using f 3(1) False by (auto simp: pkt_report_def)
  qed
qed

lemma pkt_poll_finish_reports:
  "concat (pp_calls (pkt_poll_finish cb st)) = poll_reports st"
  "c \<in> set (pp_calls (pkt_poll_finish cb st)) \<Longrightarrow> c \<in> set (pp_calls st) \<or> (c = pp_refs st \<and> c \<noteq> [])"
  by (auto simp: pkt_poll_finish_def Let_def pkt_report_def split: if_splits)

lemma pkt_poll_start_inv:
  "pkt_rep pc fs bs \<Longrightarrow> poll_inv (pkt_poll_start stuck pc) (pkt_reqid_list pc) bs [] [] fs []"
  by (auto simp: poll_inv_def pkt_rep_def pkt_poll_start_def)

text \<open>The whole poll, for any admissible callback.\<close>

lemma poll_pkt_message_total:
  assumes rep: "pkt_rep pc fs bs" and cb: "cb_ok cb"
  shows "\<exists>st' fs' bs'. poll_pkt_message cb h now stuck pc = Some st' \<and>
    pkt_rep (pp_pool st') fs' bs' \<and> set fs' \<union> set bs' = set fs \<union> set bs \<and>
    concat (pp_calls st') = concat (map (pkt_ref h (pkt_nodes pc)) bs) \<and>
    (\<forall>c \<in> set (pp_calls st'). c \<noteq> [] \<and> length c \<le> NUM_REFID) \<and>
    ((\<forall>l pc. cb l pc = pc) \<longrightarrow> bs' = pkt_pending h (pkt_nodes pc) bs)"
proof (cases "pkt_reqid_list pc")
  case None
  with rep have "bs = []" by (simp add: pkt_rep_def)
  with rep None show ?thesis
    by (intro exI[of _ "pkt_poll_start stuck pc"] exI[of _ fs] exI[of _ "[]"])
       (simp add: poll_pkt_message_def pkt_poll_start_def pkt_rep_def)
next
  case (Some x)
  let ?st0 = "pkt_poll_start stuck pc"
  have s0: "pp_refs ?st0 = []" "pp_calls ?st0 = []" "pkt_nodes (pp_pool ?st0) = pkt_nodes pc"
    by (simp_all add: pkt_poll_start_def)
  have "length (pp_refs ?st0) < NUM_REFID" by (simp add: s0 NUM_REFID_def)
  from pkt_poll_loop_total[OF cb pkt_poll_start_inv[OF rep] this, of h now] obtain st1 Fs fs1 bs1 where
    L: "pkt_poll_loop cb h now (pkt_reqid_list pc) ?st0 = Some st1" and
    I: "poll_inv st1 None [] Fs (pkt_pending h (pkt_nodes pc) bs) fs1 bs1" and
    S: "set Fs \<union> set (pkt_pending h (pkt_nodes pc) bs) \<union> set fs1 \<union> set bs1 = set bs \<union> set fs" and
    P: "poll_reports st1 = concat (map (pkt_ref h (pkt_nodes pc)) bs)" and
    B: "length (pp_refs st1) < NUM_REFID" "\<forall>c \<in> set (pp_calls st1). length c = NUM_REFID"
       "(\<forall>l pc. cb l pc = pc) \<longrightarrow> bs1 = []"
    by (simp only: s0 append_Nil append_Nil2 list.set concat.simps Un_empty_right) blast
  from pkt_poll_finish_rep[OF cb I] obtain fs' bs' where
    R: "pkt_rep (pp_pool (pkt_poll_finish cb st1)) fs' bs'" and
    S2: "set fs' \<union> set bs' = set Fs \<union> set (pkt_pending h (pkt_nodes pc) bs) \<union> set fs1 \<union> set bs1" and
    E: "(\<forall>l pc. cb l pc = pc) \<longrightarrow> bs' = pkt_pending h (pkt_nodes pc) bs @ bs1" by blast
  have "poll_pkt_message cb h now stuck pc = Some (pkt_poll_finish cb st1)"
    using L Some by (simp add: poll_pkt_message_def)
  moreover have "c \<noteq> [] \<and> length c \<le> NUM_REFID" if "c \<in> set (pp_calls (pkt_poll_finish cb st1))" for c
    using pkt_poll_finish_reports(2)[OF that] B(1,2) by (auto simp: NUM_REFID_def)
  ultimately show ?thesis using R S S2 E B(3) P
    by (intro exI[of _ "pkt_poll_finish cb st1"] exI[of _ fs'] exI[of _ bs'])
       (simp add: pkt_poll_finish_reports(1) Un_commute)
qed

section \<open>Flushing\<close>

definition flush_ref :: "(nat \<Rightarrow> pkt_descriptor) \<Rightarrow> nat \<Rightarrow> status_list" where
  "flush_ref nodes x = (if req_id (nodes x) \<noteq> 0 then [(req_id (nodes x), flush_error_val)] else [])"

lemma flush_pkt_entry_rep:
  assumes cb: "cb_ok cb" and rep: "pkt_rep pc fs bs" and x: "x \<notin> set fs \<union> set bs"
    and e: "flush_pkt_entry cb x (calls, pc) = (calls', pc')"
  shows "\<exists>fs' bs'. pkt_rep pc' fs' bs' \<and> set fs' \<union> set bs' = set fs \<union> set bs"
    and "calls' = calls @ flush_ref (pkt_nodes pc) x"
    and "y \<notin> set fs \<union> set bs \<Longrightarrow> nxt (pkt_links pc') y = nxt (pkt_links pc) y"
    and "y \<notin> set fs \<union> set bs \<Longrightarrow> pkt_nodes pc' y =
           (if y = x then (pkt_nodes pc y)\<lparr>req_id := 0\<rparr> else pkt_nodes pc y)"
proof -
  let ?pc1 = "set_pkt_req_id x 0 pc"
  have r1: "pkt_rep ?pc1 fs bs" using rep by (simp add: pkt_rep_def set_pkt_req_id_def)
  note c = cb_okD[OF cb r1, of "[(req_id (pkt_nodes pc x), flush_error_val)]"]
  show "\<exists>fs' bs'. pkt_rep pc' fs' bs' \<and> set fs' \<union> set bs' = set fs \<union> set bs"
    using c r1 e by (auto simp: flush_pkt_entry_def Let_def split: if_splits)
  show "calls' = calls @ flush_ref (pkt_nodes pc) x"
    using e by (auto simp: flush_pkt_entry_def Let_def flush_ref_def split: if_splits)
  show "y \<notin> set fs \<union> set bs \<Longrightarrow> nxt (pkt_links pc') y = nxt (pkt_links pc) y"
    using c e by (auto simp: flush_pkt_entry_def Let_def set_pkt_req_id_def split: if_splits)
  show "y \<notin> set fs \<union> set bs \<Longrightarrow> pkt_nodes pc' y =
           (if y = x then (pkt_nodes pc y)\<lparr>req_id := 0\<rparr> else pkt_nodes pc y)"
    using c e by (auto simp: flush_pkt_entry_def Let_def set_pkt_req_id_def split: if_splits)
qed

interpretation pkt_walk: list_walk "\<lambda>s. pkt_links (snd s)" "flush_pkt_entry cb" "flush_pkt_loop cb"
  "\<lambda>s fs bs. cb_ok cb \<and> pkt_rep (snd s) fs bs" for cb
proof (unfold_locales, goal_cases)
  case (1 l s)
  show ?case by (subst flush_pkt_loop.simps) simp
next
  case (2 x l s)
  show ?case by (subst flush_pkt_loop.simps) (simp add: Let_def)
next
  case (3 s fs bs)
  then show ?case by (simp add: pkt_rep_def)
next
  case (4 s fs bs x)
  with flush_pkt_entry_rep(1)[of cb "snd s" fs bs x "fst s"] show ?case
    by (cases "flush_pkt_entry cb x s") auto
next
  case (5 s fs bs x y)
  with flush_pkt_entry_rep(3)[of cb "snd s" fs bs x "fst s" _ _ y] show ?case
    by (cases "flush_pkt_entry cb x s") auto
qed

lemma flush_pkt_fold:
  assumes "cb_ok cb" "pkt_rep pc fs bs" "distinct (ys @ fs @ bs)"
  shows "fst (fold (flush_pkt_entry cb) ys (calls, pc)) = calls @ concat (map (flush_ref (pkt_nodes pc)) ys)"
    and "x \<notin> set fs \<union> set bs \<Longrightarrow> pkt_nodes (snd (fold (flush_pkt_entry cb) ys (calls, pc))) x =
      (if x \<in> set ys then (pkt_nodes pc x)\<lparr>req_id := 0\<rparr> else pkt_nodes pc x)"
proof -
  have "fst (fold (flush_pkt_entry cb) ys (calls, pc)) = calls @ concat (map (flush_ref (pkt_nodes pc)) ys) \<and>
    (\<forall>x. x \<notin> set fs \<union> set bs \<longrightarrow> pkt_nodes (snd (fold (flush_pkt_entry cb) ys (calls, pc))) x =
      (if x \<in> set ys then (pkt_nodes pc x)\<lparr>req_id := 0\<rparr> else pkt_nodes pc x))"
    using assms(2,3)
  proof (induction ys arbitrary: calls pc fs bs)
    case Nil
    then show ?case by simp
  next
    case (Cons y ys)
    obtain calls1 pc1 where e: "flush_pkt_entry cb y (calls, pc) = (calls1, pc1)" by (rule prod.exhaust)
    from Cons.prems have y: "y \<notin> set fs \<union> set bs" by auto
    note E = flush_pkt_entry_rep[OF assms(1) Cons.prems(1) y e]
    from E(1) obtain fs1 bs1 where 1: "pkt_rep pc1 fs1 bs1" "set fs1 \<union> set bs1 = set fs \<union> set bs" by blast
    have "distinct (ys @ fs1 @ bs1)" using 1 Cons.prems(2) by (auto simp: pkt_rep_def)
    note IH = Cons.IH[OF 1(1) this, of calls1, unfolded 1(2)]
    have nd: "pkt_nodes pc1 z = pkt_nodes pc z" if "z \<in> set ys" for z
    proof -
      have "z \<notin> set fs \<union> set bs" "z \<noteq> y" using Cons.prems(2) that by auto
      then show ?thesis using E(4)[of z] by simp
    qed
    have m: "map (flush_ref (pkt_nodes pc1)) ys = map (flush_ref (pkt_nodes pc)) ys"
      by (auto simp: flush_ref_def nd)
    show ?case using IH E(2,4) Cons.prems(2) by (auto simp: e m)
  qed
  then show "fst (fold (flush_pkt_entry cb) ys (calls, pc)) = calls @ concat (map (flush_ref (pkt_nodes pc)) ys)"
    "x \<notin> set fs \<union> set bs \<Longrightarrow> pkt_nodes (snd (fold (flush_pkt_entry cb) ys (calls, pc))) x =
      (if x \<in> set ys then (pkt_nodes pc x)\<lparr>req_id := 0\<rparr> else pkt_nodes pc x)" by auto
qed

lemma flush_pkt_reqid_total:
  assumes rep: "pkt_rep pc fs bs" and cb: "cb_ok cb"
  shows "\<exists>pc' fs' bs'. flush_pkt_reqid cb pc =
      Some (concat (map (flush_ref (pkt_nodes pc)) bs), pc') \<and>
    pkt_rep pc' (bs @ fs') bs' \<and> set fs' \<union> set bs' = set fs \<and>
    (\<forall>x \<in> set bs. req_id (pkt_nodes pc' x) = 0)"
proof (cases "pkt_reqid_list pc")
  case None
  with rep have "bs = []" by (simp add: pkt_rep_def)
  with rep None show ?thesis
    by (intro exI[of _ pc] exI[of _ fs] exI[of _ "[]"]) (simp add: flush_pkt_reqid_def)
next
  case (Some x)
  let ?s0 = "([], pc\<lparr>pkt_reqid_list := None\<rparr>) :: status_list \<times> pkt_controls"
  let ?s1 = "fold (flush_pkt_entry cb) bs ?s0"
  have ne: "bs \<noteq> []" using rep Some by (auto simp: pkt_rep_def)
  have r0: "cb_ok cb \<and> pkt_rep (snd ?s0) fs []" "chain (nxt (pkt_links (snd ?s0))) (Some x) bs None"
    "distinct (bs @ fs @ [])" "set bs \<inter> (set fs \<union> set []) = {}"
    using rep Some cb by (auto simp: pkt_rep_def)
  from pkt_walk.fold_pool[OF r0(1,4)] obtain fs' bs' where
    1: "pkt_rep (snd ?s1) fs' bs'" "set fs' \<union> set bs' = set fs" by auto
  have p1: "cb_ok cb \<and> pkt_rep (snd ?s1) fs' bs'" "set fs' \<union> set bs' = set fs \<union> set []"
    and c1: "chain (nxt (pkt_links (snd ?s1))) (pkt_free_list (snd ?s1)) fs' None"
      "chain (nxt (pkt_links (snd ?s1))) (pkt_reqid_list (snd ?s1)) bs' None"
    using 1 cb by (auto simp: pkt_rep_def)
  note g = pkt_walk.fold_give_back[OF r0(1-3) p1 c1]
  let ?pc' = "(snd ?s1)\<lparr>pkt_links := link_splice (Some (last bs)) (pkt_free_list (snd ?s1)) (pkt_links (snd ?s1)),
                       pkt_free_list := Some x\<rparr>"
  have "pkt_rep ?pc' (bs @ fs') bs'"
    unfolding pkt_rep_def using g by (simp del: chain_append)
  moreover have "flush_pkt_reqid cb pc = Some (concat (map (flush_ref (pkt_nodes pc)) bs), ?pc')"
    using pkt_walk.walk_fold[OF r0(1,2,4), of None] ne Some
      flush_pkt_fold(1)[OF cb _ r0(3), of "snd ?s0" "[]"] r0(1)
    by (simp add: flush_pkt_reqid_def case_prod_unfold)
  moreover have "req_id (pkt_nodes ?pc' y) = 0" if "y \<in> set bs" for y
  proof -
    have "y \<notin> set fs \<union> set []" using r0(4) that by auto
    then show ?thesis using flush_pkt_fold(2)[OF cb _ r0(3), of "snd ?s0" y "[]"] r0(1) that by simp
  qed
  ultimately show ?thesis using 1(2) by blast
qed

section \<open>The pool contract\<close>

text \<open>The sweeps of the packet pool: a poll, or a flush, with any admissible callback.\<close>

inductive pkt_sweep :: "pkt_controls \<Rightarrow> pkt_controls \<Rightarrow> bool" where
  sweep_poll: "cb_ok cb \<Longrightarrow> poll_pkt_message cb h now stuck pc = Some st \<Longrightarrow> pkt_sweep pc (pp_pool st)"
| sweep_flush: "cb_ok cb \<Longrightarrow> flush_pkt_reqid cb pc = Some (calls, pc') \<Longrightarrow> pkt_sweep pc pc'"

lemma pkt_sweep_rep:
  assumes "pkt_rep pc fs bs" "pkt_sweep pc pc'"
  shows "\<exists>fs' bs'. pkt_rep pc' fs' bs' \<and> set fs' \<union> set bs' = set fs \<union> set bs"
  using assms(2)
proof cases
  case (sweep_poll cb h now stuck st)
  with poll_pkt_message_total[OF assms(1), of cb h now stuck] show ?thesis by auto
next
  case (sweep_flush cb calls)
  with flush_pkt_reqid_total[OF assms(1), of cb] obtain fs' bs' where
    "pkt_rep pc' (bs @ fs') bs'" "set fs' \<union> set bs' = set fs" by auto
  then show ?thesis by (intro exI[of _ "bs @ fs'"] exI[of _ bs']) auto
qed

interpretation pkt: object_pool alloc_pkt_message release_pkt_to_free
  "\<lambda>x (now, c). release_pkt_to_poll now x c" pkt_sweep pkt_rep
proof unfold_locales
  show "pkt_rep s fs bs \<Longrightarrow> distinct (fs @ bs)" for s fs bs by (simp add: pkt_rep_def)
  show "pkt_rep s [] bs \<Longrightarrow> \<exists>s'. alloc_pkt_message s = (None, s') \<and> pkt_rep s' [] bs" for s bs
    by (simp add: alloc_pkt_message_Nil)
  show "pkt_rep s (x # fs) bs \<Longrightarrow> \<exists>s'. alloc_pkt_message s = (Some x, s') \<and> pkt_rep s' fs bs" for s x fs bs
    by (rule alloc_pkt_message_Cons)
  show "pkt_rep s fs bs \<Longrightarrow> x \<notin> set fs \<union> set bs \<Longrightarrow> pkt_rep (release_pkt_to_free x f s) (x # fs) bs"
    for s fs bs x f by (rule release_pkt_to_free_rep)
  show "pkt_rep s fs bs \<Longrightarrow> x \<notin> set fs \<union> set bs \<Longrightarrow>
      pkt_rep ((case p of (now, c) \<Rightarrow> release_pkt_to_poll now x c) s) fs (x # bs)"
    for s fs bs x p by (cases p) (simp add: release_pkt_to_poll_rep)
  show "pkt_rep s fs bs \<Longrightarrow> pkt_sweep s s' \<Longrightarrow>
      \<exists>fs' bs'. pkt_rep s' fs' bs' \<and> set fs' \<union> set bs' = set fs \<union> set bs" for s fs bs s'
    by (rule pkt_sweep_rep)
qed

section \<open>The initial free list\<close>

lemma pkt_list_entry_fold:
  fixes sz va pa :: u64
  shows "nxt (pkt_links (fold (\<lambda>i. pkt_list_entry i sz va pa) [0..<n] pc)) i
          = (if i < n then Some (i + 1) else nxt (pkt_links pc) i)"
    and "pkt_free_list (fold (\<lambda>i. pkt_list_entry i sz va pa) [0..<n] pc) = pkt_free_list pc"
    and "pkt_reqid_list (fold (\<lambda>i. pkt_list_entry i sz va pa) [0..<n] pc) = pkt_reqid_list pc"
    and "num_pkts (fold (\<lambda>i. pkt_list_entry i sz va pa) [0..<n] pc) = num_pkts pc"
    and "pkt_nodes (fold (\<lambda>i. pkt_list_entry i sz va pa) [0..<n] pc) i = (if i < n then (pkt_nodes pc i)
          \<lparr>pkt_msg := va + of_nat i * sz, message_pa := pa + of_nat i * sz\<rparr> else pkt_nodes pc i)"
  by (induction n) (auto simp: pkt_list_entry_def)

lemma pkt_list_setup_free:
  "pkt_rep (pkt_list_setup n sz r L mem) [0..<Suc n] [] \<and>
   pkt_nodes (pkt_list_setup n sz r L mem) n = mem n"
proof -
  let ?pc = "pkt_list_setup n sz r L mem"
  have n: "nxt (pkt_links ?pc) (0 + i) = (if Suc i < Suc n then Some (0 + Suc i) else None)"
    if "i < Suc n" for i
    using that by (simp add: pkt_list_setup_def Let_def pkt_list_entry_fold)
  have "chain (nxt (pkt_links ?pc)) (Some 0) [0..<0 + Suc n] None"
    by (rule chain_upt) (use n in simp_all)
  then show ?thesis
    by (simp add: pkt_rep_def pkt_list_setup_def Let_def pkt_list_entry_fold del: upt_Suc)
qed

section \<open>Properties\<close>

text \<open>A pool of two descriptors, the second of which is posted with request 77, for the examples.\<close>

definition demo_pkts :: pkt_controls where
  "demo_pkts = set_pkt_req_id 1 77 (release_pkt_to_poll 0 1 5
     \<lparr>num_pkts = 2, packet_size = 512, packetlist = 0, pkt_links = \<lparr>nxt = (\<lambda>_. None), prv = (\<lambda>_. None)\<rparr>,
      pkt_nodes = (\<lambda>_. zero_pkt_descriptor), pkt_free_list = Some 0, pkt_reqid_list = None\<rparr>)"

lemma demo_pkts_rep: "pkt_rep demo_pkts [0] [1]"
  by (simp add: demo_pkts_def pkt_rep_def set_pkt_req_id_def release_pkt_to_poll_def link_push2_def Let_def)

text \<open>
  C3: a poll reports every completed request exactly once.  For any pool and any status callback
  that itself only uses the pool through its operations, \<^verbatim>\<open>poll_pkt_message\<close> ends; the calls of the
  callback, put together, are the requests of the posted descriptors whose descriptor count the
  hardware has reached, in list order, each with its error value; no call is empty or longer than
  eight; no descriptor is lost or duplicated; and if the callback leaves the pool alone, exactly
  the descriptors not yet completed stay posted, in order.
\<close>

theorem poll_pkt_message_reports:
  assumes "pkt_rep pc fs bs" "cb_ok cb"
  shows "\<exists>st fs' bs'. poll_pkt_message cb h now stuck pc = Some st \<and>
    concat (pp_calls st) = concat (map (pkt_ref h (pkt_nodes pc)) bs) \<and>
    (\<forall>c \<in> set (pp_calls st). c \<noteq> [] \<and> length c \<le> 8) \<and>
    pkt_rep (pp_pool st) fs' bs' \<and> set fs' \<union> set bs' = set fs \<union> set bs \<and>
    ((\<forall>l pc. cb l pc = pc) \<longrightarrow> bs' = filter (\<lambda>x. h < desc_cnt (pkt_nodes pc x)) bs)"
proof -
  have "pkt_pending h (pkt_nodes pc) bs = filter (\<lambda>x. h < desc_cnt (pkt_nodes pc x)) bs"
    by (simp add: not_le)
  with poll_pkt_message_total[OF assms, of h now stuck] show ?thesis
    unfolding NUM_REFID_def by metis
qed

theorem poll_pkt_message_reports_witness:
  "\<exists>st fs'. poll_pkt_message (\<lambda>_ pc. pc) 5 100 0 demo_pkts = Some st \<and>
     concat (pp_calls st) = [(77, 0)] \<and> pkt_rep (pp_pool st) fs' []"
proof -
  have e: "concat (map (pkt_ref 5 (pkt_nodes demo_pkts)) [1]) = [(77, 0)]"
    "filter (\<lambda>x. 5 < desc_cnt (pkt_nodes demo_pkts x)) [1] = []"
    by (simp_all add: pkt_ref_def demo_pkts_def set_pkt_req_id_def release_pkt_to_poll_def
      zero_pkt_descriptor_def Let_def)
  show ?thesis
    using poll_pkt_message_reports[OF demo_pkts_rep cb_ok_id, of 5 100 0] unfolding e by metis
qed

text \<open>
  C38: a flush cancels every outstanding request exactly once.  \<^verbatim>\<open>flush_pkt_reqid\<close> ends, calls the
  status callback with \<^verbatim>\<open>-ECANCELED\<close> once for each posted descriptor that carries a request, in
  list order, and gives all the posted descriptors back to the free list with their request
  cleared; what the callback does to the rest of the pool in between is kept.
\<close>

theorem flush_pkt_reqid_cancels:
  assumes "pkt_rep pc fs bs" "cb_ok cb"
  shows "\<exists>pc' fs' bs'. flush_pkt_reqid cb pc =
      Some (map (\<lambda>x. (req_id (pkt_nodes pc x), flush_error_val)) (filter (\<lambda>x. req_id (pkt_nodes pc x) \<noteq> 0) bs), pc') \<and>
    pkt_rep pc' (bs @ fs') bs' \<and> set fs' \<union> set bs' = set fs \<and> (\<forall>x \<in> set bs. req_id (pkt_nodes pc' x) = 0)"
proof -
  have "concat (map (flush_ref (pkt_nodes pc)) bs) =
      map (\<lambda>x. (req_id (pkt_nodes pc x), flush_error_val)) (filter (\<lambda>x. req_id (pkt_nodes pc x) \<noteq> 0) bs)"
    by (induction bs) (simp_all add: flush_ref_def)
  with flush_pkt_reqid_total[OF assms] show ?thesis by simp
qed

theorem flush_pkt_reqid_cancels_witness:
  "\<exists>pc' fs' bs'. flush_pkt_reqid (\<lambda>_ pc. pc) demo_pkts = Some ([(77, flush_error_val)], pc') \<and>
     pkt_rep pc' (1 # fs') bs' \<and> set fs' \<union> set bs' = {0}"
proof -
  have e: "filter (\<lambda>x. req_id (pkt_nodes demo_pkts x) \<noteq> 0) [1] = [1]" "req_id (pkt_nodes demo_pkts 1) = 77"
    by (simp_all add: demo_pkts_def set_pkt_req_id_def)
  show ?thesis
    using flush_pkt_reqid_cancels[OF demo_pkts_rep cb_ok_id] e by auto
qed



text \<open>
  The free list built by \<^verbatim>\<open>alloc_pkt_list_object\<close> is one entry too long.  The terminating null
  pointer is stored behind the array, at index \<^verbatim>\<open>num_pkts\<close>, so the free list runs through all
  \<open>n\<close> descriptors and then through the memory behind them, whose contents (the packet addresses
  included) the initialisation never wrote.
\<close>

theorem pkt_list_one_too_long:
  "pkt_rep (pkt_list_setup n sz r L mem) [0..<Suc n] [] \<and> num_pkts (pkt_list_setup n sz r L mem) = n \<and>
   pkt_nodes (pkt_list_setup n sz r L mem) n = mem n"
  using pkt_list_setup_free[of n sz r L mem]
  by (simp add: pkt_list_setup_def Let_def pkt_list_entry_fold del: upt_Suc)

end
