(* ===== verification/Mu_Descriptor.thy ===== *)
theory Mu_Descriptor
  imports Mudm_Prelude
begin

text \<open>
  The message-unit descriptors of \<^verbatim>\<open>bgmudm/mudm_descriptor.c\<close> and the setters of
  \<^verbatim>\<open>bgmudm/common_inlines.h\<close>, over the layouts of \<^verbatim>\<open>hwi/include/bqc/MU_*Header.h\<close>.  The
  network header is kept as the bytes the code writes.  The message-unit header is a C union of
  a memory-FIFO view and a direct-put view; a descriptor here has a type parameter for the view
  it is built with, since the code never reads one view after writing the other.  Bit fields
  are words of their width, so that an assignment truncates as it does in C.
\<close>

section \<open>Layout\<close>

record net_header =
  Data_Packet_Type :: u8
  Byte1 :: u8
  Byte2 :: u8
  Byte3 :: u8
  Destination :: u32
  Byte8 :: u8
  Skip :: u8

record 'h descriptor =
  Half_Word0 :: u32
  Half_Word1 :: u32
  Pa_Payload :: u64
  Message_Length :: u64
  Torus_FIFO_Map :: u64
  NetworkHeader :: net_header
  muh :: 'h

text \<open>
  \<^verbatim>\<open>struct ionet_header\<close>; \<^verbatim>\<open>struct mudm_disconnect_hdr\<close> and \<^verbatim>\<open>struct broadcast_pkt_header\<close> lie
  over the same 18 software bytes, with \<^verbatim>\<open>dest_context_index\<close> in the place of
  \<^verbatim>\<open>sequence_number\<close> and \<^verbatim>\<open>lowbytes_timestamp\<close> in that of \<^verbatim>\<open>payload_length\<close>.
\<close>

record ionet_header =
  sequence_number :: u16
  torus_source_node :: u32
  torus_dest_node :: u32
  payload_length :: u16
  ptype :: u16
  source_qpn :: u16
  dest_qpn :: u16

record memory_fifo =
  Rec_FIFO_Id :: "9 word"
  mf_Unused1 :: "1 word"
  mf_Put_Offset_MSB :: "5 word"
  SoftwareBytes :: ionet_header

record direct_put_hdr =
  Rec_Payload_Base_Address_Id :: "10 word"
  Pacing :: "1 word"
  Put_Offset_MSB :: "5 word"
  Put_Offset_LSB :: u32
  Rec_Counter_Base_Address_Id :: "10 word"
  Counter_Offset :: u64

type_synonym memfifo_desc = "memory_fifo descriptor"
type_synonym directput_desc = "direct_put_hdr descriptor"

datatype inj_desc = MemFifoDesc memfifo_desc | DirectPutDesc directput_desc

section \<open>Constants\<close>

definition MUHWI_PT2PT_DATA_PACKET_TYPE :: u8 where "MUHWI_PT2PT_DATA_PACKET_TYPE = 0x55"
definition MUHWI_COLLECTIVE_DATA_PACKET_TYPE :: u8 where "MUHWI_COLLECTIVE_DATA_PACKET_TYPE = 0x5a"
definition MUHWI_PACKET_TYPE_FIFO :: u8 where "MUHWI_PACKET_TYPE_FIFO = 0"
definition MUHWI_PACKET_TYPE_PUT :: u8 where "MUHWI_PACKET_TYPE_PUT = 0x40"
definition VIRTUAL_CHANNEL_SYSTEM :: u8 where "VIRTUAL_CHANNEL_SYSTEM = 0x60"
definition VIRTUAL_CHANNEL_SYSTEM_COLLECTIVE :: u8 where "VIRTUAL_CHANNEL_SYSTEM_COLLECTIVE = 0xc0"
definition ROUTE_TO_IO_NODE :: u8 where "ROUTE_TO_IO_NODE = 0x20"
definition TORUS_PORT_6 :: u8 where "TORUS_PORT_6 = 0x08"
definition TORUS_PORT_7 :: u8 where "TORUS_PORT_7 = 0x10"
definition IO_PORT :: u8 where "IO_PORT = 0x18"
definition FIFO_MAP_SYSTEM :: u64 where "FIFO_MAP_SYSTEM = 0x4"
definition FIFO_MAP_DM :: u64 where "FIFO_MAP_DM = 0x200"
definition FIFO_MAP_DP :: u64 where "FIFO_MAP_DP = 0x100"
definition FIFO_MAP_CSYSTEM :: u64 where "FIFO_MAP_CSYSTEM = 0x1"
definition ATOMIC_ADDRESS_INDICATOR :: u64 where "ATOMIC_ADDRESS_INDICATOR = 0x1000000000"
definition STORE_ADD_COHERENCE_ON_ZERO :: u64 where "STORE_ADD_COHERENCE_ON_ZERO = 3"
definition SYS_BATID :: "10 word" where "SYS_BATID = 528"
definition SYS_BATID_BCAST_CTR :: "10 word" where "SYS_BATID_BCAST_CTR = 528 + 6"

lemmas mu_consts =
  MUHWI_PT2PT_DATA_PACKET_TYPE_def MUHWI_COLLECTIVE_DATA_PACKET_TYPE_def MUHWI_PACKET_TYPE_FIFO_def
  MUHWI_PACKET_TYPE_PUT_def VIRTUAL_CHANNEL_SYSTEM_def VIRTUAL_CHANNEL_SYSTEM_COLLECTIVE_def
  ROUTE_TO_IO_NODE_def TORUS_PORT_6_def TORUS_PORT_7_def IO_PORT_def FIFO_MAP_SYSTEM_def
  FIFO_MAP_DM_def FIFO_MAP_DP_def FIFO_MAP_CSYSTEM_def ATOMIC_ADDRESS_INDICATOR_def
  STORE_ADD_COHERENCE_ON_ZERO_def SYS_BATID_def SYS_BATID_BCAST_CTR_def

text \<open>\<^verbatim>\<open>IONODE2CN\<close> to \<^verbatim>\<open>NODE2NODE\<close> and \<^verbatim>\<open>UNKNOWN\<close> of \<^verbatim>\<open>common.h\<close>.\<close>

datatype direction = IONODE2CN | CN2IONODE | CN2CN | ION2ION | NODE_LOOPBACK | NODE2NODE | UNKNOWN_DIRECTION

section \<open>Setters\<close>

definition zero_net_header :: net_header where
  "zero_net_header = \<lparr>Data_Packet_Type = 0, Byte1 = 0, Byte2 = 0, Byte3 = 0, Destination = 0,
     Byte8 = 0, Skip = 0\<rparr>"

definition zero_ionet_header :: ionet_header where
  "zero_ionet_header = \<lparr>sequence_number = 0, torus_source_node = 0, torus_dest_node = 0,
     payload_length = 0, ptype = 0, source_qpn = 0, dest_qpn = 0\<rparr>"

definition zero_memory_fifo :: memory_fifo where
  "zero_memory_fifo = \<lparr>Rec_FIFO_Id = 0, mf_Unused1 = 0, mf_Put_Offset_MSB = 0,
     SoftwareBytes = zero_ionet_header\<rparr>"

definition zero_direct_put_hdr :: direct_put_hdr where
  "zero_direct_put_hdr = \<lparr>Rec_Payload_Base_Address_Id = 0, Pacing = 0, Put_Offset_MSB = 0,
     Put_Offset_LSB = 0, Rec_Counter_Base_Address_Id = 0, Counter_Offset = 0\<rparr>"

text \<open>\<^verbatim>\<open>MUSPI_DescriptorZeroOut\<close>, with the zeroed view of the union.\<close>

definition MUSPI_DescriptorZeroOut :: "'h \<Rightarrow> 'h descriptor" where
  "MUSPI_DescriptorZeroOut z = \<lparr>Half_Word0 = 0, Half_Word1 = 0, Pa_Payload = 0, Message_Length = 0,
     Torus_FIFO_Map = 0, NetworkHeader = zero_net_header, muh = z\<rparr>"

definition MUSPI_SetDataPacketType :: "u8 \<Rightarrow> net_header \<Rightarrow> net_header" where
  "MUSPI_SetDataPacketType t h = h\<lparr>Data_Packet_Type := t\<rparr>"

definition MUSPI_SetMessageUnitPacketType :: "u8 \<Rightarrow> net_header \<Rightarrow> net_header" where
  "MUSPI_SetMessageUnitPacketType t h = h\<lparr>Byte8 := (Byte8 h AND 0x3F) OR (t AND 0xC0)\<rparr>"

text \<open>The five-bit field \<^verbatim>\<open>Size\<close> in the low bits of byte 8, and the bit \<^verbatim>\<open>Interrupt\<close> of byte 2.\<close>

definition set_Size :: "u8 \<Rightarrow> net_header \<Rightarrow> net_header" where
  "set_Size n h = h\<lparr>Byte8 := (Byte8 h AND 0xE0) OR (n AND 0x1F)\<rparr>"

definition get_Size :: "net_header \<Rightarrow> u8" where
  "get_Size h = Byte8 h AND 0x1F"

definition set_Interrupt :: "net_header \<Rightarrow> net_header" where
  "set_Interrupt h = h\<lparr>Byte2 := Byte2 h OR 1\<rparr>"

definition set_Class_Route :: "u8 \<Rightarrow> net_header \<Rightarrow> net_header" where
  "set_Class_Route c h = h\<lparr>Byte2 := (Byte2 h AND 0x0F) OR push_bit 4 (c AND 0x0F)\<rparr>"

definition set_dma_directput :: "u64 \<Rightarrow> u64 \<Rightarrow> u64 \<Rightarrow> directput_desc \<Rightarrow> directput_desc" where
  "set_dma_directput bytes source_physaddr dest_physaddr d =
     d\<lparr>Pa_Payload := source_physaddr, Message_Length := bytes,
       muh := (muh d)\<lparr>Put_Offset_MSB := ucast (drop_bit 32 dest_physaddr AND 0x1f),
                      Put_Offset_LSB := ucast (dest_physaddr AND 0xFFFFFFFF)\<rparr>\<rparr>"

text \<open>The misaligned counter is a \<^verbatim>\<open>BUG_ON\<close>, modelled by \<open>None\<close>.\<close>

definition set_counter_directput :: "u64 \<Rightarrow> directput_desc \<Rightarrow> directput_desc option" where
  "set_counter_directput off d =
     (if off AND 7 = 0
      then Some (d\<lparr>muh := (muh d)\<lparr>Counter_Offset :=
             off OR ATOMIC_ADDRESS_INDICATOR OR STORE_ADD_COHERENCE_ON_ZERO\<rparr>\<rparr>)
      else None)"

definition Update_memfifo_payload :: "u64 \<Rightarrow> u64 \<Rightarrow> memfifo_desc \<Rightarrow> memfifo_desc" where
  "Update_memfifo_payload payload_phys_addr len d =
     d\<lparr>Pa_Payload := payload_phys_addr, Message_Length := len,
       muh := (muh d)\<lparr>SoftwareBytes := (SoftwareBytes (muh d))\<lparr>payload_length := ucast len\<rparr>\<rparr>\<rparr>"

section \<open>Routing\<close>

text \<open>
  The \<^verbatim>\<open>switch (direction)\<close> that both point-to-point initialisers contain: byte 2 of the
  network header and the torus injection FIFO map, or \<open>None\<close> for the \<^verbatim>\<open>BUG_ON\<close> behind the
  assertion on \<^verbatim>\<open>io_port\<close>.
\<close>

definition route_byte2 :: "direction \<Rightarrow> u8 \<Rightarrow> u8" where
  "route_byte2 dir io_port =
     (case dir of CN2IONODE \<Rightarrow> ROUTE_TO_IO_NODE | IONODE2CN \<Rightarrow> io_port | _ \<Rightarrow> 0)"

definition route_fifo_map :: "direction \<Rightarrow> u8 \<Rightarrow> u64" where
  "route_fifo_map dir io_port =
     (case dir of
        IONODE2CN \<Rightarrow>
          (if io_port = TORUS_PORT_6 then FIFO_MAP_DM
           else if io_port = TORUS_PORT_7 then FIFO_MAP_DP else FIFO_MAP_SYSTEM)
      | _ \<Rightarrow> FIFO_MAP_SYSTEM)"

definition route_ok :: "direction \<Rightarrow> u8 \<Rightarrow> bool" where
  "route_ok dir io_port \<longleftrightarrow>
     (dir = IONODE2CN \<longrightarrow> io_port \<in> {IO_PORT, TORUS_PORT_6, TORUS_PORT_7})"

text \<open>The network header both point-to-point initialisers build, before the interrupt bit.\<close>

definition pt2pt_header :: "u8 \<Rightarrow> u32 \<Rightarrow> direction \<Rightarrow> u8 \<Rightarrow> net_header" where
  "pt2pt_header mutype dest dir io_port =
     (let h = MUSPI_SetDataPacketType MUHWI_PT2PT_DATA_PACKET_TYPE zero_net_header;
          h = MUSPI_SetMessageUnitPacketType mutype h;
          h = set_Size 16 h
      in h\<lparr>Destination := dest, Byte1 := 0, Byte3 := VIRTUAL_CHANNEL_SYSTEM, Skip := 0,
           Byte2 := route_byte2 dir io_port\<rparr>)"

section \<open>Initialisers\<close>

definition InitPt2PtMemoryFIFODescriptor ::
  "ionet_header \<Rightarrow> u64 \<Rightarrow> u64 \<Rightarrow> u32 \<Rightarrow> direction \<Rightarrow> u8 \<Rightarrow> u16 \<Rightarrow> memfifo_desc option" where
  "InitPt2PtMemoryFIFODescriptor swb payload_phys_addr len dest dir io_port rec_FIFO_Id =
     (if route_ok dir io_port
      then Some ((MUSPI_DescriptorZeroOut zero_memory_fifo)
        \<lparr>Half_Word0 := 0, Half_Word1 := 1, Pa_Payload := payload_phys_addr, Message_Length := len,
         Torus_FIFO_Map := route_fifo_map dir io_port,
         NetworkHeader := set_Interrupt (pt2pt_header MUHWI_PACKET_TYPE_FIFO dest dir io_port),
         muh := \<lparr>Rec_FIFO_Id = ucast rec_FIFO_Id, mf_Unused1 = 0, mf_Put_Offset_MSB = 0,
                 SoftwareBytes = swb\<rparr>\<rparr>)
      else None)"

definition initPt2PtDirectPutDescriptor ::
  "u64 \<Rightarrow> u64 \<Rightarrow> u32 \<Rightarrow> direction \<Rightarrow> u8 \<Rightarrow> u64 \<Rightarrow> u64 \<Rightarrow> directput_desc option" where
  "initPt2PtDirectPutDescriptor payload_phys_addr len dest dir io_port Rec_Counter_Offset Rec_Payload_Offset =
     (if route_ok dir io_port \<and> Rec_Counter_Offset AND 7 = 0
      then Some ((MUSPI_DescriptorZeroOut zero_direct_put_hdr)
        \<lparr>Half_Word0 := 0, Pa_Payload := payload_phys_addr, Message_Length := len,
         Torus_FIFO_Map := route_fifo_map dir io_port,
         NetworkHeader := pt2pt_header MUHWI_PACKET_TYPE_PUT dest dir io_port,
         muh := \<lparr>Rec_Payload_Base_Address_Id = SYS_BATID, Pacing = 0,
                 Put_Offset_MSB = ucast (drop_bit 32 Rec_Payload_Offset AND 0x1f),
                 Put_Offset_LSB = ucast (Rec_Payload_Offset AND 0xFFFFFFFF),
                 Rec_Counter_Base_Address_Id = SYS_BATID,
                 Counter_Offset = Rec_Counter_Offset OR ATOMIC_ADDRESS_INDICATOR OR STORE_ADD_COHERENCE_ON_ZERO\<rparr>\<rparr>)
      else None)"

definition InitCollectiveMemoryFIFODescriptor :: "u32 \<Rightarrow> u16 \<Rightarrow> memfifo_desc" where
  "InitCollectiveMemoryFIFODescriptor source_torus_addr rec_FIFO_Id =
     (let d = MUSPI_DescriptorZeroOut zero_memory_fifo;
          h = MUSPI_SetDataPacketType MUHWI_COLLECTIVE_DATA_PACKET_TYPE (NetworkHeader d);
          h = set_Interrupt h;
          h = set_Size 16 (h\<lparr>Byte3 := VIRTUAL_CHANNEL_SYSTEM_COLLECTIVE\<rparr>)
      in d\<lparr>Half_Word1 := 1, Torus_FIFO_Map := FIFO_MAP_CSYSTEM, NetworkHeader := h,
           muh := (muh d)\<lparr>Rec_FIFO_Id := ucast rec_FIFO_Id,
             SoftwareBytes := (SoftwareBytes (muh d))\<lparr>torus_source_node := source_torus_addr\<rparr>\<rparr>\<rparr>)"

definition InitBroadcastDirectPut :: "u64 \<Rightarrow> u64 \<Rightarrow> directput_desc option" where
  "InitBroadcastDirectPut Rec_Counter_Offset Rec_Payload_Offset =
     (if Rec_Counter_Offset AND 7 = 0 then
        (let d = MUSPI_DescriptorZeroOut zero_direct_put_hdr;
             h = MUSPI_SetDataPacketType MUHWI_COLLECTIVE_DATA_PACKET_TYPE (NetworkHeader d);
             h = (set_Size 16 h)\<lparr>Byte3 := VIRTUAL_CHANNEL_SYSTEM_COLLECTIVE\<rparr>;
             h = MUSPI_SetMessageUnitPacketType MUHWI_PACKET_TYPE_PUT h
         in Some (d\<lparr>Torus_FIFO_Map := FIFO_MAP_CSYSTEM, NetworkHeader := h,
              muh := (muh d)\<lparr>Rec_Payload_Base_Address_Id := SYS_BATID,
                Rec_Counter_Base_Address_Id := SYS_BATID_BCAST_CTR,
                Counter_Offset := Rec_Counter_Offset OR ATOMIC_ADDRESS_INDICATOR OR STORE_ADD_COHERENCE_ON_ZERO,
                Put_Offset_MSB := ucast (drop_bit 32 Rec_Payload_Offset AND 0x1f),
                Put_Offset_LSB := ucast (Rec_Payload_Offset AND 0xFFFFFFFF)\<rparr>\<rparr>))
      else None)"

section \<open>What the message unit reads back\<close>

text \<open>The 37-bit offset of a direct put, and the address and operation of its counter.\<close>

definition put_offset :: "direct_put_hdr \<Rightarrow> u64" where
  "put_offset h = push_bit 32 (ucast (Put_Offset_MSB h)) OR ucast (Put_Offset_LSB h)"

definition counter_address :: "direct_put_hdr \<Rightarrow> u64" where
  "counter_address h = Counter_Offset h AND NOT (ATOMIC_ADDRESS_INDICATOR OR 7)"

definition counter_opcode :: "direct_put_hdr \<Rightarrow> u64" where
  "counter_opcode h = Counter_Offset h AND 7"

lemma put_offset_split:
  fixes a :: u64
  shows "push_bit 32 (ucast (ucast (drop_bit 32 a AND 0x1f) :: 5 word)) OR
         ucast (ucast (a AND 0xFFFFFFFF) :: u32) = take_bit 37 a"
proof -
  have m: "(0x1f :: u64) = mask 5" "(0xFFFFFFFF :: u64) = mask 32" by (simp_all add: mask_eq_exp_minus_1)
  show ?thesis unfolding m
    by (rule bit_word_eqI) (auto simp: bit_simps)
qed

lemma counter_offset_split:
  fixes a :: u64
  assumes "a AND 7 = 0" "take_bit 36 a = a"
  shows "(a OR ATOMIC_ADDRESS_INDICATOR OR STORE_ADD_COHERENCE_ON_ZERO) AND NOT (ATOMIC_ADDRESS_INDICATOR OR 7) = a"
    and "(a OR ATOMIC_ADDRESS_INDICATOR OR STORE_ADD_COHERENCE_ON_ZERO) AND 7 = STORE_ADD_COHERENCE_ON_ZERO"
proof -
  have i: "ATOMIC_ADDRESS_INDICATOR = push_bit 36 1" by (simp add: ATOMIC_ADDRESS_INDICATOR_def)
  have ib: "bit ATOMIC_ADDRESS_INDICATOR n \<longleftrightarrow> n = 36" for n
    unfolding i by (simp only: bit_push_bit_iff bit_1_iff possible_bit_word) auto
  have s: "(7 :: u64) = mask 3" "STORE_ADD_COHERENCE_ON_ZERO = mask 2"
    by (simp_all add: mask_eq_exp_minus_1 STORE_ADD_COHERENCE_ON_ZERO_def)
  have z: "\<not> bit a n" if "n < 3" for n
  proof -
    have "\<not> bit (a AND mask 3) n" using assms(1) unfolding s by simp
    with that show ?thesis by (simp add: bit_simps)
  qed
  have h: "\<not> bit a n" if "n \<ge> 36" for n
    using assms(2) that by (metis bit_take_bit_iff not_le)
  show "(a OR ATOMIC_ADDRESS_INDICATOR OR STORE_ADD_COHERENCE_ON_ZERO) AND NOT (ATOMIC_ADDRESS_INDICATOR OR 7) = a"
    unfolding s by (rule bit_word_eqI) (use z h in \<open>auto simp: bit_simps ib\<close>)
  show "(a OR ATOMIC_ADDRESS_INDICATOR OR STORE_ADD_COHERENCE_ON_ZERO) AND 7 = STORE_ADD_COHERENCE_ON_ZERO"
    unfolding s by (rule bit_word_eqI) (use z h in \<open>auto simp: bit_simps ib\<close>)
qed

end
