(* ===== verification/Mu_InjFifo.thy ===== *)
theory Mu_InjFifo
  imports Mu_Descriptor
begin

text \<open>
  Injection FIFOs: the shadow structure and its operations (\<^verbatim>\<open>spi/include/mu/Fifo.h\<close>,
  \<^verbatim>\<open>InjFifo.h\<close>) and the injection routines the data mover builds on them
  (\<^verbatim>\<open>bgmudm/common_inlines.h\<close>).  Addresses and counters are 64-bit words and wrap.

  What the message unit keeps in its SRAM is volatile: the free space, the number of completed
  descriptors, and (written by another thread) the flag \<^verbatim>\<open>state\<close> of the FIFO controls.  The
  model reads them from a stream of observations indexed by a clock that advances at every
  read, so that a theorem about a spin loop states what it needs of the hardware as a
  hypothesis on the stream.  An operation that does not return (a \<^verbatim>\<open>BUG_ON\<close>, a store through
  \<^verbatim>\<open>NULL\<close>, or a loop that never ends) is \<open>None\<close>.

  \<open>inj_log\<close> is a history variable: the descriptors handed to the message unit, in order.
\<close>

section \<open>State\<close>

record fifo =
  pa_start :: u64
  va_start :: u64
  size_1 :: u64
  va_head :: u64
  va_tail :: u64
  va_end :: u64
  hw_pa_head :: u64
  hw_pa_tail :: u64

record injfifo =
  ififo :: fifo
  descCount :: u64
  freeSpace :: u64
  numInjected :: u64
  slots :: "u64 \<Rightarrow> inj_desc option"
  inj_log :: "inj_desc list"

record hw_obs =
  hw_freeSpace :: u64
  hw_descCount :: u64
  hw_state :: u32

type_synonym hw = "nat \<Rightarrow> hw_obs"

record mudm_injfifo =
  injfifo :: injfifo
  clock :: nat

section \<open>Operations of the SPI\<close>

definition MUSPI_setTailVa :: "u64 \<Rightarrow> fifo \<Rightarrow> fifo option" where
  "MUSPI_setTailVa t f = (if t mod 32 = 0 then Some (f\<lparr>va_tail := t\<rparr>) else None)"

definition MUSPI_setHwTail :: "u64 \<Rightarrow> fifo \<Rightarrow> fifo option" where
  "MUSPI_setHwTail off f =
     (if off < size_1 f then Some (f\<lparr>hw_pa_tail := pa_start f + off\<rparr>) else None)"

definition MUSPI_setHwHead :: "u64 \<Rightarrow> fifo \<Rightarrow> fifo option" where
  "MUSPI_setHwHead off f =
     (if off \<le> size_1 f then Some (f\<lparr>hw_pa_head := pa_start f + off\<rparr>) else None)"

text \<open>The result is the sequence number, or all ones for a full FIFO, and the slot.\<close>

definition MUSPI_InjFifoNextDesc :: "u64 \<Rightarrow> injfifo \<Rightarrow> u64 \<times> u64 option \<times> injfifo" where
  "MUSPI_InjFifoNextDesc hwfree f =
     (let f1 = (if freeSpace f = 0 then f\<lparr>freeSpace := hwfree\<rparr> else f)
      in if freeSpace f1 = 0 then (-1, None, f1)
         else (numInjected f1 + 1, Some (va_tail (ififo f1)), f1))"

definition next_tail :: "fifo \<Rightarrow> u64 \<Rightarrow> u64" where
  "next_tail f t = (if va_end f \<le> t + 64 then va_start f else t + 64)"

definition move_tail :: "u64 \<Rightarrow> injfifo \<Rightarrow> injfifo option" where
  "move_tail t f =
     (case MUSPI_setTailVa t (ififo f) of
        None \<Rightarrow> None
      | Some g \<Rightarrow>
         (case MUSPI_setHwTail (t - va_start g) g of
            None \<Rightarrow> None
          | Some g' \<Rightarrow> Some (f\<lparr>ififo := g'\<rparr>)))"

text \<open>
  Advancing the tail clears the slot it moves to (\<^verbatim>\<open>muspi_dcbz\<close> zeroes the cache line at the
  new tail).
\<close>

definition MUSPI_InjFifoAdvanceDesc :: "injfifo \<Rightarrow> injfifo option" where
  "MUSPI_InjFifoAdvanceDesc f =
     (let t = va_tail (ififo f); t' = next_tail (ififo f) t;
          f1 = f\<lparr>freeSpace := freeSpace f - 1, numInjected := numInjected f + 1,
                 inj_log := inj_log f @ (case slots f t of None \<Rightarrow> [] | Some d \<Rightarrow> [d]),
                 slots := (slots f)(t' := None)\<rparr>
      in move_tail t' f1)"

definition MUSPI_InjFifoInject :: "u64 \<Rightarrow> inj_desc \<Rightarrow> injfifo \<Rightarrow> (u64 \<times> injfifo) option" where
  "MUSPI_InjFifoInject hwfree d f =
     (let f1 = (if freeSpace f = 0 then f\<lparr>freeSpace := hwfree\<rparr> else f)
      in if freeSpace f1 = 0 then Some (-1, f1)
         else let t = va_tail (ififo f1); t' = next_tail (ififo f1) t
              in map_option (\<lambda>f2. (numInjected f2, f2))
                   (move_tail t' (f1\<lparr>freeSpace := freeSpace f1 - 1, numInjected := numInjected f1 + 1,
                      inj_log := inj_log f1 @ [d], slots := ((slots f1)(t := Some d))(t' := None)\<rparr>)))"

definition MUSPI_CheckDescComplete :: "u64 \<Rightarrow> u64 \<Rightarrow> injfifo \<Rightarrow> bool \<times> injfifo" where
  "MUSPI_CheckDescComplete hwdesc desc_count f =
     (if desc_count \<le> descCount f then (True, f)
      else (desc_count \<le> hwdesc, f\<lparr>descCount := hwdesc\<rparr>))"

section \<open>Injection by the data mover\<close>

text \<open>
  The loop of the macro \<^verbatim>\<open>MUDM_GET_NEXT_DESC\<close>.  Iteration \<open>k\<close> reads the free space and then
  the state flag from observation \<open>k\<close>.
\<close>

partial_function (option) next_desc_loop ::
  "hw \<Rightarrow> mudm_injfifo \<Rightarrow> (u64 \<times> u64 option \<times> mudm_injfifo) option" where
  "next_desc_loop h c =
     (let (cnt, p, f1) = MUSPI_InjFifoNextDesc (hw_freeSpace (h (clock c))) (injfifo c);
          c1 = c\<lparr>injfifo := f1, clock := clock c + 1\<rparr>
      in if cnt = -1 \<and> hw_state (h (clock c)) \<noteq> 0 then next_desc_loop h c1
         else Some (cnt, p, c1))"

text \<open>
  \<^verbatim>\<open>InjFifoInject\<close> and its variants share everything but the fields they patch in the copied
  descriptor.  The result is the descriptor count, all ones when the FIFO is inactive.
\<close>

definition store_desc :: "u64 option \<Rightarrow> inj_desc \<Rightarrow> injfifo \<Rightarrow> injfifo option" where
  "store_desc p d f =
     (case p of None \<Rightarrow> None | Some a \<Rightarrow> MUSPI_InjFifoAdvanceDesc (f\<lparr>slots := (slots f)(a := Some d)\<rparr>))"

text \<open>The descriptor is \<open>None\<close> when patching its copy hits an assertion.\<close>

definition inject_desc :: "hw \<Rightarrow> inj_desc option \<Rightarrow> mudm_injfifo \<Rightarrow> (u64 \<times> mudm_injfifo) option" where
  "inject_desc h od c =
     (case next_desc_loop h c of
        None \<Rightarrow> None
      | Some (cnt, p, c1) \<Rightarrow>
         (if hw_state (h (clock c1)) = 0 then Some (-1, c1\<lparr>clock := clock c1 + 1\<rparr>)
          else (case od of
                  None \<Rightarrow> None
                | Some d \<Rightarrow> map_option (\<lambda>f. (cnt, c1\<lparr>injfifo := f, clock := clock c1 + 1\<rparr>))
                             (store_desc p d (injfifo c1)))))"

definition InjFifoInject :: "hw \<Rightarrow> inj_desc \<Rightarrow> mudm_injfifo \<Rightarrow> (u64 \<times> mudm_injfifo) option" where
  "InjFifoInject h d c = inject_desc h (Some d) c"

definition patch_memfifo :: "u16 \<Rightarrow> u64 \<Rightarrow> u64 \<Rightarrow> u64 \<Rightarrow> memfifo_desc \<Rightarrow> memfifo_desc" where
  "patch_memfifo ty payload_phys_addr len send_count d =
     d\<lparr>Pa_Payload := payload_phys_addr, Message_Length := len,
       muh := (muh d)\<lparr>SoftwareBytes := (SoftwareBytes (muh d))
         \<lparr>payload_length := ucast len, ptype := ty, sequence_number := ucast send_count\<rparr>\<rparr>\<rparr>"

text \<open>The second result is \<^verbatim>\<open>*send_count\<close>, which a canceled injection leaves alone.\<close>

definition bump_count :: "u64 \<Rightarrow> u64 \<times> mudm_injfifo \<Rightarrow> u64 \<times> u64 \<times> mudm_injfifo" where
  "bump_count send_count r = (fst r, (if fst r = -1 then send_count else send_count + 1), snd r)"

definition InjFifoInjectMemFifo ::
  "hw \<Rightarrow> memfifo_desc \<Rightarrow> u16 \<Rightarrow> u64 \<Rightarrow> u64 \<Rightarrow> u64 \<Rightarrow> mudm_injfifo \<Rightarrow> (u64 \<times> u64 \<times> mudm_injfifo) option" where
  "InjFifoInjectMemFifo h d ty payload_phys_addr len send_count c =
     map_option (bump_count send_count)
       (InjFifoInject h (MemFifoDesc (patch_memfifo ty payload_phys_addr len send_count d)) c)"

definition InjFifoInjectMemFifo_withDest ::
  "hw \<Rightarrow> memfifo_desc \<Rightarrow> u32 \<Rightarrow> u16 \<Rightarrow> u64 \<Rightarrow> u64 \<Rightarrow> u64 \<Rightarrow> mudm_injfifo
   \<Rightarrow> (u64 \<times> u64 \<times> mudm_injfifo) option" where
  "InjFifoInjectMemFifo_withDest h d dest ty payload_phys_addr len send_count c =
     (let d1 = patch_memfifo ty payload_phys_addr len send_count d;
          d2 = d1\<lparr>NetworkHeader := (NetworkHeader d1)\<lparr>Destination := dest\<rparr>\<rparr>
      in map_option (bump_count send_count) (InjFifoInject h (MemFifoDesc d2) c))"

definition InjFifoInjectMemFifoBcast ::
  "hw \<Rightarrow> memfifo_desc \<Rightarrow> u16 \<Rightarrow> u64 \<Rightarrow> u64 \<Rightarrow> u8 \<Rightarrow> u64 \<Rightarrow> mudm_injfifo
   \<Rightarrow> (u64 \<times> u64 \<times> mudm_injfifo) option" where
  "InjFifoInjectMemFifoBcast h d ty payload_phys_addr len class_route send_count c =
     (let d1 = patch_memfifo ty payload_phys_addr len send_count d;
          d2 = d1\<lparr>NetworkHeader := set_Class_Route class_route (NetworkHeader d1)\<rparr>
      in map_option (bump_count send_count) (InjFifoInject h (MemFifoDesc d2) c))"

definition patch_directput :: "u64 \<Rightarrow> u64 \<Rightarrow> u64 \<Rightarrow> u64 \<Rightarrow> directput_desc \<Rightarrow> directput_desc option" where
  "patch_directput bytes source_physaddr dest_physaddr Rec_Counter_Offset d =
     set_counter_directput Rec_Counter_Offset (set_dma_directput bytes source_physaddr dest_physaddr d)"

definition InjFifoInjectDirectPut ::
  "hw \<Rightarrow> directput_desc \<Rightarrow> u64 \<Rightarrow> u64 \<Rightarrow> u64 \<Rightarrow> u64 \<Rightarrow> mudm_injfifo \<Rightarrow> (u64 \<times> mudm_injfifo) option" where
  "InjFifoInjectDirectPut h d bytes source_physaddr dest_physaddr Rec_Counter_Offset c =
     inject_desc h (map_option DirectPutDesc
       (patch_directput bytes source_physaddr dest_physaddr Rec_Counter_Offset d)) c"

definition InjFifoInjectDirectPut_withDest ::
  "hw \<Rightarrow> directput_desc \<Rightarrow> u32 \<Rightarrow> u64 \<Rightarrow> u64 \<Rightarrow> u64 \<Rightarrow> u64 \<Rightarrow> mudm_injfifo
   \<Rightarrow> (u64 \<times> mudm_injfifo) option" where
  "InjFifoInjectDirectPut_withDest h d dest bytes source_physaddr dest_physaddr Rec_Counter_Offset c =
     inject_desc h (map_option (\<lambda>d1. DirectPutDesc (d1\<lparr>NetworkHeader := (NetworkHeader d1)\<lparr>Destination := dest\<rparr>\<rparr>))
       (patch_directput bytes source_physaddr dest_physaddr Rec_Counter_Offset d)) c"

section \<open>The ring\<close>

text \<open>\<open>inj_inv n f\<close>: a FIFO of \<open>n\<close> slots whose pointers and slots agree with its history.\<close>

definition slot_addr :: "fifo \<Rightarrow> nat \<Rightarrow> u64" where
  "slot_addr g k = va_start g + of_nat (64 * k)"

definition fifo_geometry :: "nat \<Rightarrow> fifo \<Rightarrow> bool" where
  "fifo_geometry n g \<longleftrightarrow> 1 < n \<and> unat (va_start g) mod 32 = 0 \<and> unat (va_start g) + 64 * n < 2 ^ 64 \<and>
     va_end g = slot_addr g n \<and> size_1 g = of_nat (64 * n - 1)"

definition inj_inv :: "nat \<Rightarrow> injfifo \<Rightarrow> bool" where
  "inj_inv n f \<longleftrightarrow>
     fifo_geometry n (ififo f) \<and>
     va_tail (ififo f) = slot_addr (ififo f) (length (inj_log f) mod n) \<and>
     hw_pa_tail (ififo f) = pa_start (ififo f) + of_nat (64 * (length (inj_log f) mod n)) \<and>
     numInjected f = of_nat (length (inj_log f)) \<and>
     (\<forall>i < length (inj_log f). length (inj_log f) < i + n \<longrightarrow>
        slots f (slot_addr (ififo f) (i mod n)) = Some (inj_log f ! i))"

lemma unat_slot_addr:
  assumes "fifo_geometry n g" "k \<le> n"
  shows "unat (slot_addr g k) = unat (va_start g) + 64 * k"
proof -
  from assms have b: "unat (va_start g) + 64 * k < 2 ^ 64" by (simp add: fifo_geometry_def)
  then have "64 * k < 2 ^ 64" by simp
  then have "unat (of_nat (64 * k) :: u64) = 64 * k" by (simp only: unat_of_nat_u64)
  with b show ?thesis unfolding slot_addr_def by (subst unat_add_lem[THEN iffD1]) simp_all
qed

lemma slot_addr_inj:
  "fifo_geometry n g \<Longrightarrow> j \<le> n \<Longrightarrow> k \<le> n \<Longrightarrow> slot_addr g j = slot_addr g k \<longleftrightarrow> j = k"
  using unat_slot_addr[of n g j] unat_slot_addr[of n g k] by (metis add_left_cancel mult_cancel1 zero_neq_numeral)

lemma next_tail_slot:
  assumes "fifo_geometry n g" "k < n"
  shows "next_tail g (slot_addr g k) = slot_addr g (Suc k mod n)"
proof -
  have s: "slot_addr g k + 64 = slot_addr g (Suc k)" by (simp add: slot_addr_def)
  have "va_end g \<le> slot_addr g (Suc k) \<longleftrightarrow> n = Suc k"
    using assms unat_slot_addr[OF assms(1), of "Suc k"] unat_slot_addr[OF assms(1), of n]
    by (auto simp: fifo_geometry_def word_le_nat_alt)
  moreover have "slot_addr g 0 = va_start g" by (simp add: slot_addr_def)
  ultimately show ?thesis using s assms(2) by (auto simp: next_tail_def)
qed

lemma move_tail_slot:
  assumes g: "fifo_geometry n (ififo f)" and k: "k < n"
  shows "move_tail (slot_addr (ififo f) k) f =
    Some (f\<lparr>ififo := (ififo f)\<lparr>va_tail := slot_addr (ififo f) k,
                                hw_pa_tail := pa_start (ififo f) + of_nat (64 * k)\<rparr>\<rparr>)"
proof -
  let ?g = "ififo f"
  from g k have b: "64 * n < 2 ^ 64" "0 < n" by (auto simp: fifo_geometry_def)
  have "unat (slot_addr ?g k mod 32) = (unat (va_start ?g) + 64 * k) mod 32"
    using unat_slot_addr[OF g, of k] k by (simp add: unat_mod_distrib)
  also have "\<dots> = 0"
  proof -
    have "(64 * k) mod 32 = 0" by presburger
    with g show ?thesis by (metis add.right_neutral fifo_geometry_def mod_add_left_eq add_0)
  qed
  finally have "slot_addr ?g k mod 32 = 0" by (simp add: unat_eq_0)
  moreover have "slot_addr ?g k - va_start ?g = of_nat (64 * k)" by (simp add: slot_addr_def)
  moreover have "(of_nat (64 * k) :: u64) < size_1 ?g"
  proof -
    have "64 * n - 1 < 2 ^ 64" "64 * k < 2 ^ 64" using b k by auto
    with g have "unat (of_nat (64 * k) :: u64) = 64 * k" "unat (size_1 ?g) = 64 * n - 1"
      by (simp_all only: fifo_geometry_def unat_of_nat_u64)
    with k show ?thesis by (simp add: word_less_nat_alt)
  qed
  ultimately show ?thesis by (simp add: move_tail_def MUSPI_setTailVa_def MUSPI_setHwTail_def)
qed

text \<open>What one injection does to the shadow structure, whichever routine performs it.\<close>

definition push_slot :: "inj_desc \<Rightarrow> injfifo \<Rightarrow> injfifo" where
  "push_slot d f =
     (let t = va_tail (ififo f)
      in f\<lparr>freeSpace := freeSpace f - 1, numInjected := numInjected f + 1, inj_log := inj_log f @ [d],
           slots := ((slots f)(t := Some d))(next_tail (ififo f) t := None)\<rparr>)"

lemma push_slot_inv:
  assumes inv: "inj_inv n f"
  shows "\<exists>f'. move_tail (next_tail (ififo f) (va_tail (ififo f))) (push_slot d f) = Some f' \<and>
    inj_inv n f' \<and> inj_log f' = inj_log f @ [d] \<and> freeSpace f' = freeSpace f - 1 \<and>
    descCount f' = descCount f \<and> numInjected f' = numInjected f + 1"
proof -
  let ?g = "ififo f" and ?l = "inj_log f"
  let ?k = "length ?l mod n"
  let ?k' = "length (?l @ [d]) mod n"
  have G: "fifo_geometry n ?g" and T: "va_tail ?g = slot_addr ?g ?k" and N: "numInjected f = of_nat (length ?l)"
    and S: "\<And>i. i < length ?l \<Longrightarrow> length ?l < i + n \<Longrightarrow> slots f (slot_addr ?g (i mod n)) = Some (?l ! i)"
    using inv by (auto simp: inj_inv_def)
  have n: "1 < n" using G by (simp add: fifo_geometry_def)
  then have k: "?k < n" "?k' < n" by simp_all
  have t: "next_tail ?g (va_tail ?g) = slot_addr ?g ?k'"
    using next_tail_slot[OF G k(1)] by (simp add: T mod_Suc_eq)
  let ?f' = "(push_slot d f)\<lparr>ififo := ?g\<lparr>va_tail := slot_addr ?g ?k', hw_pa_tail := pa_start ?g + of_nat (64 * ?k')\<rparr>\<rparr>"
  have m: "move_tail (next_tail ?g (va_tail ?g)) (push_slot d f) = Some ?f'"
    using move_tail_slot[of n "push_slot d f" ?k'] G k(2) unfolding t by (simp add: push_slot_def Let_def)
  have a: "slot_addr (ififo ?f') = slot_addr ?g" by (rule ext) (simp add: slot_addr_def)
  have "slots ?f' (slot_addr ?g (i mod n)) = Some ((?l @ [d]) ! i)"
    if "i < Suc (length ?l)" "Suc (length ?l) < i + n" for i
  proof -
    have ne: "i mod n \<noteq> ?k'" using mod_window[of i "Suc (length ?l)" n] that by simp
    have ne2: "i mod n \<noteq> ?k" if "i \<noteq> length ?l"
      using mod_window[of i "length ?l" n] that \<open>i < Suc _\<close> \<open>Suc _ < i + n\<close> by simp
    have i: "i mod n < n" using n by simp
    show ?thesis
    proof (cases "i = length ?l")
      case True
      with ne show ?thesis using slot_addr_inj[OF G, of ?k ?k'] k by (auto simp: push_slot_def Let_def t[unfolded T] T)
    next
      case False
      with that have "i < length ?l" "length ?l < i + n" by auto
      with S ne ne2[OF False] show ?thesis
        using slot_addr_inj[OF G, of "i mod n" ?k'] slot_addr_inj[OF G, of "i mod n" ?k] k i
        by (auto simp: push_slot_def Let_def t[unfolded T] T nth_append)
    qed
  qed
  then have "inj_inv n ?f'"
    using G N unfolding inj_inv_def a
    by (auto simp: fifo_geometry_def push_slot_def Let_def slot_addr_def)
  with m show ?thesis by (intro exI[of _ ?f']) (simp add: push_slot_def Let_def)
qed

lemma AdvanceDesc_push:
  "MUSPI_InjFifoAdvanceDesc (f\<lparr>slots := (slots f)(va_tail (ififo f) := Some d)\<rparr>) =
     move_tail (next_tail (ififo f) (va_tail (ififo f))) (push_slot d f)"
  by (simp add: MUSPI_InjFifoAdvanceDesc_def push_slot_def Let_def)

lemma store_desc_push:
  "store_desc (Some (va_tail (ififo f))) d f =
     move_tail (next_tail (ififo f) (va_tail (ififo f))) (push_slot d f)"
  by (simp add: store_desc_def AdvanceDesc_push)

lemma MUSPI_InjFifoInject_push:
  "MUSPI_InjFifoInject hwfree d f =
     (let f1 = (if freeSpace f = 0 then f\<lparr>freeSpace := hwfree\<rparr> else f)
      in if freeSpace f1 = 0 then Some (-1, f1)
         else map_option (\<lambda>f2. (numInjected f2, f2))
                (move_tail (next_tail (ififo f1) (va_tail (ififo f1))) (push_slot d f1)))"
  by (simp add: MUSPI_InjFifoInject_def push_slot_def Let_def)

section \<open>The FIFO shared with the message unit\<close>

text \<open>
  The free-space register of a FIFO of \<open>n\<close> slots of which the message unit has completed the
  first \<open>k\<close> descriptors: one slot always stays unused (\<^verbatim>\<open>hwi/include/bqc/MU_Fifo.h\<close>).
\<close>

definition mu_free :: "nat \<Rightarrow> nat \<Rightarrow> injfifo \<Rightarrow> u64" where
  "mu_free n k f = of_nat (n - 1 - (length (inj_log f) - k))"

text \<open>
  The interleavings of the message unit, which completes descriptors in order, with a thread
  that injects, either through the pair \<^verbatim>\<open>MUSPI_InjFifoNextDesc\<close>/\<^verbatim>\<open>MUSPI_InjFifoAdvanceDesc\<close> or
  through \<^verbatim>\<open>MUSPI_InjFifoInject\<close>.  The number is that of completed descriptors.
\<close>

inductive inj_sys :: "nat \<Rightarrow> injfifo \<Rightarrow> injfifo \<Rightarrow> nat \<Rightarrow> bool" for n f0 where
  sys_init: "inj_sys n f0 f0 0"
| sys_complete: "inj_sys n f0 f k \<Longrightarrow> k < length (inj_log f) \<Longrightarrow> inj_sys n f0 f (Suc k)"
| sys_inject: "inj_sys n f0 f k \<Longrightarrow> MUSPI_InjFifoInject (mu_free n k f) d f = Some (c, f') \<Longrightarrow>
    inj_sys n f0 f' k"
| sys_store: "inj_sys n f0 f k \<Longrightarrow> MUSPI_InjFifoNextDesc (mu_free n k f) f = (c, p, f1) \<Longrightarrow>
    store_desc p d f1 = Some f' \<Longrightarrow> inj_sys n f0 f' k"

definition inj_safe :: "nat \<Rightarrow> nat \<Rightarrow> injfifo \<Rightarrow> bool" where
  "inj_safe n k f \<longleftrightarrow> inj_inv n f \<and> k \<le> length (inj_log f) \<and>
     length (inj_log f) - k + unat (freeSpace f) \<le> n - 1"

lemma inj_inv_bound: "inj_inv n f \<Longrightarrow> 1 < n \<and> n < 2 ^ 64"
  unfolding inj_inv_def fifo_geometry_def by linarith

lemma unat_mu_free: "inj_inv n f \<Longrightarrow> unat (mu_free n k f) = n - 1 - (length (inj_log f) - k)"
  unfolding mu_free_def by (rule unat_of_nat_u64) (use inj_inv_bound[of n f] in linarith)

lemma inj_safe_reload:
  assumes "inj_safe n k f"
  shows "inj_safe n k (if freeSpace f = 0 then f\<lparr>freeSpace := mu_free n k f\<rparr> else f)"
  using assms unat_mu_free[of n f k] by (auto simp: inj_safe_def inj_inv_def)

lemma inj_safe_push:
  assumes "inj_safe n k f" "freeSpace f \<noteq> 0"
    "move_tail (next_tail (ififo f) (va_tail (ififo f))) (push_slot d f) = Some f'"
  shows "inj_safe n k f'"
proof -
  from push_slot_inv[of n f d] assms have "inj_inv n f'" "inj_log f' = inj_log f @ [d]"
    "freeSpace f' = freeSpace f - 1" by (auto simp: inj_safe_def)
  moreover have "unat (freeSpace f - 1) = unat (freeSpace f) - 1" "0 < unat (freeSpace f)"
    using assms(2) by (simp_all add: unat_minus_one unat_gt_0)
  ultimately show ?thesis using assms(1) by (auto simp: inj_safe_def)
qed

lemma MUSPI_InjFifoInject_safe:
  assumes s: "inj_safe n k f" and e: "MUSPI_InjFifoInject (mu_free n k f) d f = Some (c, f')"
  shows "inj_safe n k f'"
proof -
  let ?f1 = "if freeSpace f = 0 then f\<lparr>freeSpace := mu_free n k f\<rparr> else f"
  note r = inj_safe_reload[OF s]
  show ?thesis
  proof (cases "freeSpace ?f1 = 0")
    case True
    with e have "f' = ?f1" by (simp only: MUSPI_InjFifoInject_push Let_def if_True) simp
    with r show ?thesis by simp
  next
    case False
    with e have "move_tail (next_tail (ififo ?f1) (va_tail (ififo ?f1))) (push_slot d ?f1) = Some f'"
      by (auto simp only: MUSPI_InjFifoInject_push Let_def if_False map_option_eq_Some prod.inject)
    with r False show ?thesis by (rule inj_safe_push)
  qed
qed

lemma store_desc_safe:
  assumes s: "inj_safe n k f" and e: "MUSPI_InjFifoNextDesc (mu_free n k f) f = (c, p, f1)"
    and t: "store_desc p d f1 = Some f'"
  shows "inj_safe n k f'"
proof -
  let ?f1 = "if freeSpace f = 0 then f\<lparr>freeSpace := mu_free n k f\<rparr> else f"
  have "freeSpace ?f1 \<noteq> 0 \<and> f1 = ?f1 \<and> p = Some (va_tail (ififo ?f1))"
    using e t by (cases "freeSpace ?f1 = 0") (auto simp: MUSPI_InjFifoNextDesc_def Let_def store_desc_def)
  with inj_safe_push[OF inj_safe_reload[OF s]] t show ?thesis by (auto simp only: store_desc_push)
qed

lemma inj_sys_safe:
  assumes "inj_sys n f0 f k" "inj_inv n f0" "inj_log f0 = []" "freeSpace f0 = of_nat (n - 1)"
  shows "inj_safe n k f"
  using assms(1)
proof (induction rule: inj_sys.induct)
  case sys_init
  have "n - 1 < 2 ^ 64" using inj_inv_bound[OF assms(2)] by linarith
  with assms show ?case by (simp only: inj_safe_def unat_of_nat_u64) simp
next
  case (sys_complete f k)
  then show ?case by (auto simp: inj_safe_def)
qed (auto intro: MUSPI_InjFifoInject_safe store_desc_safe)

section \<open>The injection loop\<close>

lemma NextDesc_simps:
  "freeSpace f \<noteq> 0 \<Longrightarrow> MUSPI_InjFifoNextDesc w f = (numInjected f + 1, Some (va_tail (ififo f)), f)"
  "freeSpace f = 0 \<Longrightarrow> w \<noteq> 0 \<Longrightarrow> MUSPI_InjFifoNextDesc w f =
     (numInjected f + 1, Some (va_tail (ififo f)), f\<lparr>freeSpace := w\<rparr>)"
  "freeSpace f = 0 \<Longrightarrow> w = 0 \<Longrightarrow> MUSPI_InjFifoNextDesc w f = (-1, None, f)"
  by (simp_all add: MUSPI_InjFifoNextDesc_def)

text \<open>
  As long as the controls stay active and the message unit sooner or later reports free space,
  the loop ends with the slot at the tail.
\<close>

lemma next_desc_loop_total:
  assumes "numInjected (injfifo c) + 1 \<noteq> -1"
    and "freeSpace (injfifo c) \<noteq> 0 \<or> hw_freeSpace (h (clock c + j)) \<noteq> 0"
    and "\<forall>i. hw_state (h i) \<noteq> 0"
  shows "\<exists>w k. w \<noteq> 0 \<and> next_desc_loop h c = Some (numInjected (injfifo c) + 1, Some (va_tail (ififo (injfifo c))),
    c\<lparr>injfifo := (injfifo c)\<lparr>freeSpace := w\<rparr>, clock := k\<rparr>)"
  using assms
proof (induction j arbitrary: c)
  case 0
  show ?case
  proof (cases "freeSpace (injfifo c) = 0")
    case True
    with 0 show ?thesis by (subst next_desc_loop.simps) (auto simp: NextDesc_simps)
  next
    case False
    with 0 show ?thesis
      by (subst next_desc_loop.simps) (auto simp: NextDesc_simps intro!: exI[of _ "freeSpace (injfifo c)"])
  qed
next
  case (Suc j)
  show ?case
  proof (cases "freeSpace (injfifo c) = 0 \<and> hw_freeSpace (h (clock c)) = 0")
    case True
    then have e: "next_desc_loop h c = next_desc_loop h (c\<lparr>clock := clock c + 1\<rparr>)"
      using Suc.prems(3) by (subst next_desc_loop.simps) (simp add: NextDesc_simps)
    have "\<exists>w k. w \<noteq> 0 \<and> next_desc_loop h (c\<lparr>clock := clock c + 1\<rparr>) = Some (numInjected (injfifo c) + 1,
        Some (va_tail (ififo (injfifo c))), c\<lparr>injfifo := (injfifo c)\<lparr>freeSpace := w\<rparr>, clock := k\<rparr>)"
      using Suc.IH[of "c\<lparr>clock := clock c + 1\<rparr>"] Suc.prems True by simp
    with e show ?thesis by simp
  next
    case False
    let ?w = "if freeSpace (injfifo c) = 0 then hw_freeSpace (h (clock c)) else freeSpace (injfifo c)"
    from False Suc.prems show ?thesis
      by (subst next_desc_loop.simps, intro exI[of _ ?w])
         (cases "freeSpace (injfifo c) = 0"; auto simp: NextDesc_simps)
  qed
qed

text \<open>What the data mover relies on of the hardware in an active FIFO.\<close>

definition hw_live :: "hw \<Rightarrow> bool" where
  "hw_live h \<longleftrightarrow> (\<forall>i. hw_state (h i) \<noteq> 0) \<and> (\<forall>i. \<exists>j. hw_freeSpace (h (i + j)) \<noteq> 0)"

text \<open>\<open>ctl_inv n c\<close>: a FIFO that has not yet numbered close to \<open>2 ^ 64\<close> descriptors.\<close>

definition ctl_inv :: "nat \<Rightarrow> mudm_injfifo \<Rightarrow> bool" where
  "ctl_inv n c \<longleftrightarrow> inj_inv n (injfifo c) \<and> length (inj_log (injfifo c)) < 2 ^ 63"

definition ctl_log :: "mudm_injfifo \<Rightarrow> inj_desc list" where
  "ctl_log c = inj_log (injfifo c)"

lemma inject_desc_total:
  assumes "hw_live h" "ctl_inv n c"
  shows "\<exists>c'. inject_desc h (Some d) c = Some (of_nat (Suc (length (ctl_log c))), c') \<and>
    ctl_log c' = ctl_log c @ [d] \<and> inj_inv n (injfifo c')"
proof -
  let ?f = "injfifo c"
  have nI: "numInjected ?f = of_nat (length (inj_log ?f))" and len: "length (inj_log ?f) < 2 ^ 63"
    using assms(2) by (auto simp: ctl_inv_def inj_inv_def)
  have "unat (of_nat (length (inj_log ?f) + 2) :: u64) = length (inj_log ?f) + 2"
    using len by (intro unat_of_nat_u64) simp
  then have "of_nat (length (inj_log ?f) + 2) \<noteq> (0 :: u64)" by auto
  then have "numInjected ?f + 2 \<noteq> 0" by (simp add: nI add.commute)
  then have ne: "numInjected ?f + 1 \<noteq> -1" by (auto simp: add.commute)
  obtain j where j: "hw_freeSpace (h (clock c + j)) \<noteq> 0" using assms(1) by (auto simp: hw_live_def)
  have st: "\<forall>i. hw_state (h i) \<noteq> 0" using assms(1) by (simp add: hw_live_def)
  obtain w k where w: "w \<noteq> 0" and l: "next_desc_loop h c = Some (numInjected ?f + 1, Some (va_tail (ififo ?f)),
      c\<lparr>injfifo := ?f\<lparr>freeSpace := w\<rparr>, clock := k\<rparr>)"
    using next_desc_loop_total[OF ne _ st] j by blast
  let ?f1 = "?f\<lparr>freeSpace := w\<rparr>"
  have "inj_inv n ?f1" using assms(2) by (simp add: ctl_inv_def inj_inv_def)
  from push_slot_inv[OF this, of d] obtain f' where
    f': "move_tail (next_tail (ififo ?f1) (va_tail (ififo ?f1))) (push_slot d ?f1) = Some f'"
      "inj_inv n f'" "inj_log f' = inj_log ?f @ [d]" by auto
  have "store_desc (Some (va_tail (ififo ?f))) d ?f1 = Some f'"
    using store_desc_push[of ?f1 d] f'(1) by simp
  then show ?thesis using l st f' nI
    by (intro exI[of _ "c\<lparr>injfifo := f', clock := k + 1\<rparr>"]) (simp add: inject_desc_def ctl_log_def add.commute)
qed

lemma ctl_count_ne:
  assumes "ctl_inv n c"
  shows "of_nat (Suc (length (ctl_log c))) \<noteq> (-1 :: u64)"
proof -
  have len: "length (ctl_log c) < 2 ^ 63" using assms by (simp add: ctl_inv_def ctl_log_def)
  have "unat (of_nat (Suc (length (ctl_log c)) + 1) :: u64) = Suc (length (ctl_log c)) + 1"
    using len by (intro unat_of_nat_u64) simp
  then have "of_nat (Suc (length (ctl_log c)) + 1) \<noteq> (0 :: u64)" by auto
  then have "of_nat (Suc (length (ctl_log c))) + 1 \<noteq> (0 :: u64)" by (simp add: add.commute)
  then show ?thesis by (metis add.left_inverse)
qed

section \<open>Properties\<close>

text \<open>An empty FIFO of four slots, for the examples.\<close>

definition demo_fifo :: injfifo where
  "demo_fifo = \<lparr>ififo = \<lparr>pa_start = 0x1000, va_start = 0x40000, size_1 = 255, va_head = 0x40000,
      va_tail = 0x40000, va_end = 0x40100, hw_pa_head = 0x1000, hw_pa_tail = 0x1000\<rparr>,
    descCount = 0, freeSpace = 3, numInjected = 0, slots = (\<lambda>_. None), inj_log = []\<rparr>"

definition demo_desc :: inj_desc where
  "demo_desc = DirectPutDesc (MUSPI_DescriptorZeroOut zero_direct_put_hdr)"

lemma demo_fifo_inv: "inj_inv 4 demo_fifo"
  by (simp add: inj_inv_def fifo_geometry_def slot_addr_def demo_fifo_def)

text \<open>
  C1: the ring never loses or overwrites a descriptor the message unit still has to process.
  In every interleaving of injections with completions, starting from an empty FIFO, fewer
  descriptors than slots are outstanding, and reading the slots from the oldest outstanding
  descriptor on yields exactly the injected descriptors in injection order, although each
  injection also clears the line at the new tail; the hardware tail register points behind
  them, and the shadow free space never exceeds what is really free.
\<close>

theorem inj_ring_faithful:
  assumes "inj_sys n f0 f k" "inj_inv n f0" "inj_log f0 = []" "freeSpace f0 = of_nat (n - 1)"
  shows "length (inj_log f) - k + unat (freeSpace f) < n \<and>
    map (\<lambda>i. slots f (slot_addr (ififo f) (i mod n))) [k..<length (inj_log f)] = map Some (drop k (inj_log f)) \<and>
    hw_pa_tail (ififo f) = pa_start (ififo f) + of_nat (64 * (length (inj_log f) mod n))"
proof -
  have s: "inj_safe n k f" using inj_sys_safe assms by blast
  then have i: "inj_inv n f" and k: "k \<le> length (inj_log f)"
    and b: "length (inj_log f) - k + unat (freeSpace f) \<le> n - 1" by (auto simp: inj_safe_def)
  have n: "1 < n" using inj_inv_bound[OF i] by simp
  have "slots f (slot_addr (ififo f) ((k + j) mod n)) = Some (drop k (inj_log f) ! j)"
    if "j < length (inj_log f) - k" for j
    using i that b n by (auto simp: inj_inv_def)
  then have "map (\<lambda>i. slots f (slot_addr (ififo f) (i mod n))) [k..<length (inj_log f)] = map Some (drop k (inj_log f))"
    by (intro nth_equalityI) auto
  with i b n show ?thesis by (auto simp: inj_inv_def)
qed

theorem inj_ring_faithful_witness:
  "\<exists>c f. MUSPI_InjFifoInject 3 demo_desc demo_fifo = Some (c, f) \<and> slots f 0x40000 = Some demo_desc \<and>
     length (inj_log f) - 0 + unat (freeSpace f) < 4"
proof -
  obtain c f where f: "MUSPI_InjFifoInject 3 demo_desc demo_fifo = Some (c, f)"
    by (simp add: MUSPI_InjFifoInject_def demo_fifo_def move_tail_def MUSPI_setTailVa_def MUSPI_setHwTail_def
      next_tail_def)
  have m: "mu_free 4 0 demo_fifo = 3" by (simp add: mu_free_def demo_fifo_def)
  have z: "inj_log demo_fifo = []" "freeSpace demo_fifo = of_nat (4 - 1)" by (simp_all add: demo_fifo_def)
  have "inj_sys 4 demo_fifo f 0" by (rule sys_inject[OF sys_init f[folded m]])
  from inj_ring_faithful[OF this demo_fifo_inv z] have
    r: "length (inj_log f) - 0 + unat (freeSpace f) < 4"
       "map (\<lambda>i. slots f (slot_addr (ififo f) (i mod 4))) [0..<length (inj_log f)] = map Some (drop 0 (inj_log f))"
    by auto
  have "inj_log f = [demo_desc]" "va_start (ififo f) = 0x40000"
    using f by (auto simp: MUSPI_InjFifoInject_def demo_fifo_def move_tail_def MUSPI_setTailVa_def
      MUSPI_setHwTail_def next_tail_def Let_def)
  with r f show ?thesis by (auto simp: slot_addr_def)
qed

text \<open>
  C37: an injection into an active FIFO returns.  If the controls stay active and the message
  unit always eventually reports free space, \<^verbatim>\<open>InjFifoInject\<close> leaves its spin loop, hands
  exactly the given descriptor to the message unit, keeps the ring invariant, and returns the
  sequence number of the descriptor, which is never the error value.
\<close>

theorem InjFifoInject_returns:
  assumes "hw_live h" "ctl_inv n c"
  shows "\<exists>c'. InjFifoInject h d c = Some (of_nat (Suc (length (ctl_log c))), c') \<and>
    ctl_log c' = ctl_log c @ [d] \<and> inj_inv n (injfifo c') \<and>
    of_nat (Suc (length (ctl_log c))) \<noteq> (-1 :: u64)"
  using inject_desc_total[OF assms, of d] ctl_count_ne[OF assms(2)] by (auto simp: InjFifoInject_def)

theorem InjFifoInject_returns_witness:
  "\<exists>c'. InjFifoInject (\<lambda>i. \<lparr>hw_freeSpace = (if i < 7 then 0 else 1), hw_descCount = 0, hw_state = 1\<rparr>) demo_desc
      \<lparr>injfifo = demo_fifo\<lparr>freeSpace := 0\<rparr>, clock = 0\<rparr> = Some (1, c') \<and> ctl_log c' = [demo_desc]"
proof -
  let ?h = "\<lambda>i :: nat. \<lparr>hw_freeSpace = (if i < 7 then 0 else 1), hw_descCount = 0, hw_state = 1\<rparr>"
  let ?c = "\<lparr>injfifo = demo_fifo\<lparr>freeSpace := 0\<rparr>, clock = 0\<rparr>"
  have "hw_live ?h" by (auto simp: hw_live_def intro!: exI[of _ 7])
  moreover have "ctl_inv 4 ?c"
    using demo_fifo_inv by (simp add: ctl_inv_def inj_inv_def) (simp add: demo_fifo_def)
  ultimately show ?thesis
    using InjFifoInject_returns[of ?h 4 ?c demo_desc] by (auto simp: ctl_log_def demo_fifo_def)
qed

text \<open>
  What is written into a direct-put descriptor is what the message unit reads back.  For
  a 37-bit destination and an 8-byte aligned counter below \<open>2 ^ 36\<close>, the two put-offset fields
  recombine to the destination address, the counter field splits into the counter address and
  the operation store-add with coherence on zero, the payload fields are the arguments, and the
  routing part of the template descriptor is kept.
\<close>

theorem patch_directput_roundtrip:
  assumes "off AND 7 = 0" "take_bit 36 off = off" "take_bit 37 dest = dest"
  shows "\<exists>d'. patch_directput bytes src dest off d = Some d' \<and> Pa_Payload d' = src \<and>
    Message_Length d' = bytes \<and> put_offset (muh d') = dest \<and> counter_address (muh d') = off \<and>
    counter_opcode (muh d') = STORE_ADD_COHERENCE_ON_ZERO \<and> NetworkHeader d' = NetworkHeader d \<and>
    Torus_FIFO_Map d' = Torus_FIFO_Map d"
  using put_offset_split[of dest] assms(3) counter_offset_split[OF assms(1,2)] assms(1)
  by (simp add: patch_directput_def set_counter_directput_def set_dma_directput_def put_offset_def
    counter_address_def counter_opcode_def)

theorem patch_directput_roundtrip_witness:
  "\<exists>d'. patch_directput 8 0x40 0x1234567890 0x8000
      (MUSPI_DescriptorZeroOut zero_direct_put_hdr) = Some d' \<and> put_offset (muh d') = 0x1234567890"
proof -
  have a: "(0x8000 :: u64) AND 7 = 0" "take_bit 36 (0x8000 :: u64) = 0x8000"
    "take_bit 37 (0x1234567890 :: u64) = 0x1234567890" by simp_all
  show ?thesis
    using patch_directput_roundtrip[OF a, of 8 "0x40" "MUSPI_DescriptorZeroOut zero_direct_put_hdr"] by blast
qed

end
