(* ===== verification/Mudm_Types.thy ===== *)
theory Mudm_Types
  imports Mu_InjFifo
begin

text \<open>
  The connection block of \<^verbatim>\<open>bgmudm/common.h\<close> and the routines of \<^verbatim>\<open>bgmudm/common_inlines.h\<close> that
  send through one.  Pointers of a connection to per-link objects of the main context
  (\<^verbatim>\<open>injfifo_ctls\<close>, \<^verbatim>\<open>packetcontrols\<close>, \<^verbatim>\<open>conn_pendlist\<close> and so on) are link indices, \<open>None\<close>
  for \<^verbatim>\<open>NULL\<close>; the three pool pointers are always set together and share one index.
\<close>

datatype conn_state = CONN_FREE | CONN_PENDING | CONN_ACTIVE | CONN_DISCONNECTING | CONN_ABORTED | CONN_ORPHANED

definition CONN_MAGIC :: u64 where "CONN_MAGIC = 0xC0C0CCCC01010101"
definition MUDM_MAGIC :: u64 where "MUDM_MAGIC = 0xDDDDDDDD20202020"
definition MUDM_VERSION :: u8 where "MUDM_VERSION = 4"
definition NUM_IO_LINKS :: nat where "NUM_IO_LINKS = 2"
definition TORUS_MAX_PAYLOAD_SIZE :: u16 where "TORUS_MAX_PAYLOAD_SIZE = 512"
definition MUDM_MAX_REMOTE_SGE :: u32 where "MUDM_MAX_REMOTE_SGE = 58"

record mudm_connection =
  mu_iMemoryFifoDescriptor :: memfifo_desc
  mu_iDirectPutDescriptor :: directput_desc
  mu_iDirectPutDescriptor4rget :: directput_desc
  cmagic :: u64
  cstate :: conn_state
  my_index :: u16
  remote_rec_FIFO_Id :: u16
  local_rec_FIFO_Id :: u16
  remote_BlockID :: u32
  destination :: u32
  reverse_destination :: u32
  remote_bridgingCNnode :: u32
  dest_conn_index :: u16
  io_port :: u8
  reverse_io_port :: u8
  cdirection :: direction
  reverse_direction :: direction
  lowbit_timestamp :: u16
  injfifo_of :: nat
  pools_of :: nat
  activelist_of :: ptr
  pendlist_of :: ptr
  abortlist_of :: ptr
  remote_timestamp :: u64
  my_timestamp :: u64
  memfifo_sent :: u64
  rget_memfifo_sent :: u64

text \<open>\<^verbatim>\<open>CHECK_CONN_MAGIC\<close>.\<close>

definition conn_magic_ok :: "mudm_connection \<Rightarrow> bool" where
  "conn_magic_ok cc \<longleftrightarrow> cmagic cc = CONN_MAGIC"

type_synonym hws = "nat \<Rightarrow> hw"
type_synonym injs = "nat \<Rightarrow> mudm_injfifo"

text \<open>
  \<open>hs\<close> are the hardware observations of each link, \<open>is\<close> the FIFO controls of each link.
  \<^verbatim>\<open>conn_memfifo\<close> counts on \<^verbatim>\<open>memfifo_sent\<close>, \<^verbatim>\<open>dput_memfifo\<close> (with its only argument)
  on \<^verbatim>\<open>rget_memfifo_sent\<close>.
\<close>

definition on_link ::
  "nat \<Rightarrow> (mudm_injfifo \<Rightarrow> ('a \<times> mudm_injfifo) option) \<Rightarrow> injs \<Rightarrow> ('a \<times> injs) option" where
  "on_link l op is = map_option (\<lambda>(r, c). (r, is(l := c))) (op (is l))"

definition conn_memfifo ::
  "hws \<Rightarrow> u16 \<Rightarrow> u64 \<Rightarrow> u64 \<Rightarrow> mudm_connection \<Rightarrow> injs \<Rightarrow> (u64 \<times> mudm_connection \<times> injs) option" where
  "conn_memfifo hs ty payload_phys_addr len cc is =
     (case InjFifoInjectMemFifo (hs (injfifo_of cc)) (mu_iMemoryFifoDescriptor cc) ty payload_phys_addr len
             (memfifo_sent cc) (is (injfifo_of cc)) of
        None \<Rightarrow> None
      | Some (cnt, sent, c) \<Rightarrow> Some (cnt, cc\<lparr>memfifo_sent := sent\<rparr>, is(injfifo_of cc := c)))"

definition dput_memfifo ::
  "hws \<Rightarrow> u16 \<Rightarrow> u64 \<Rightarrow> u64 \<Rightarrow> mudm_connection \<Rightarrow> injs \<Rightarrow> (u64 \<times> mudm_connection \<times> injs) option" where
  "dput_memfifo hs ty payload_phys_addr len cc is =
     (case InjFifoInjectMemFifo (hs (injfifo_of cc)) (mu_iMemoryFifoDescriptor cc) ty payload_phys_addr len
             (rget_memfifo_sent cc) (is (injfifo_of cc)) of
        None \<Rightarrow> None
      | Some (cnt, sent, c) \<Rightarrow> Some (cnt, cc\<lparr>rget_memfifo_sent := sent\<rparr>, is(injfifo_of cc := c)))"

definition direct_put ::
  "hws \<Rightarrow> u64 \<Rightarrow> u64 \<Rightarrow> u64 \<Rightarrow> u64 \<Rightarrow> mudm_connection \<Rightarrow> injs \<Rightarrow> (u64 \<times> injs) option" where
  "direct_put hs source_phys_addr target_phys_addr put_length counter cc is =
     on_link (injfifo_of cc)
       (InjFifoInjectDirectPut (hs (injfifo_of cc)) (mu_iDirectPutDescriptor cc) put_length
          source_phys_addr target_phys_addr counter) is"

text \<open>Where the context keeps the words that are put to a peer to report success or an error.\<close>

record notice_addrs =
  rdma_EINVAL_source_pa :: u64
  rdma_GOOD_source_pa :: u64

section \<open>Injection on the links of a connection\<close>

text \<open>Rings of \<open>n l\<close> slots with room for \<open>k\<close> more sequence numbers on every link.\<close>

definition links_room :: "(nat \<Rightarrow> nat) \<Rightarrow> nat \<Rightarrow> injs \<Rightarrow> bool" where
  "links_room n k is \<longleftrightarrow> (\<forall>l. inj_inv (n l) (injfifo (is l)) \<and> length (ctl_log (is l)) + k < 2 ^ 63)"

lemma links_room_ctl: "links_room n k is \<Longrightarrow> ctl_inv (n l) (is l)"
  by (auto simp: links_room_def ctl_inv_def ctl_log_def dest: spec[of _ l])

lemma links_room_mono: "links_room n k is \<Longrightarrow> j \<le> k \<Longrightarrow> links_room n j is"
  unfolding links_room_def by (meson add_left_mono le_less_trans)

definition hws_live :: "hws \<Rightarrow> bool" where
  "hws_live hs \<longleftrightarrow> (\<forall>l. hw_live (hs l))"

lemma direct_put_total:
  assumes "hws_live hs" "ctl_inv n (is (injfifo_of cc))" "counter AND 7 = 0"
  shows "\<exists>d c. patch_directput len src dst counter (mu_iDirectPutDescriptor cc) = Some d \<and>
    direct_put hs src dst len counter cc is =
      Some (of_nat (Suc (length (ctl_log (is (injfifo_of cc))))), is(injfifo_of cc := c)) \<and>
    ctl_log c = ctl_log (is (injfifo_of cc)) @ [DirectPutDesc d] \<and> inj_inv n (injfifo c)"
proof -
  obtain d where d: "patch_directput len src dst counter (mu_iDirectPutDescriptor cc) = Some d"
    using assms(3) by (auto simp: patch_directput_def set_counter_directput_def)
  have "hw_live (hs (injfifo_of cc))" using assms(1) by (simp add: hws_live_def)
  from inject_desc_total[OF this assms(2), of "DirectPutDesc d"] d show ?thesis
    by (auto simp: direct_put_def on_link_def InjFifoInjectDirectPut_def)
qed

lemma links_room_upd:
  assumes "links_room n (Suc k) is" "inj_inv (n l) (injfifo c)" "ctl_log c = ctl_log (is l) @ [d]"
  shows "links_room n k (is(l := c))"
proof -
  have "inj_inv (n j) (injfifo (is j))" "length (ctl_log (is j)) + Suc k < 2 ^ 63" for j
    using assms(1) by (auto simp: links_room_def)
  from this[of l] this show ?thesis using assms(2,3) unfolding links_room_def
    by (metis add_Suc_right add_Suc_shift fun_upd_apply length_append_singleton less_SucI less_eq_Suc_le Suc_leD not_less_eq)
qed

text \<open>A connection, the FIFO controls of its links and an always ready hardware, for the examples.\<close>

definition demo_conn :: mudm_connection where
  "demo_conn = \<lparr>mu_iMemoryFifoDescriptor = MUSPI_DescriptorZeroOut zero_memory_fifo,
     mu_iDirectPutDescriptor = MUSPI_DescriptorZeroOut zero_direct_put_hdr,
     mu_iDirectPutDescriptor4rget = MUSPI_DescriptorZeroOut zero_direct_put_hdr,
     cmagic = CONN_MAGIC, cstate = CONN_ACTIVE, my_index = 1, remote_rec_FIFO_Id = 0, local_rec_FIFO_Id = 0,
     remote_BlockID = 0, destination = 0, reverse_destination = 0, remote_bridgingCNnode = 0,
     dest_conn_index = 2, io_port = 0, reverse_io_port = 0, cdirection = CN2IONODE, reverse_direction = CN2IONODE,
     lowbit_timestamp = 0, injfifo_of = 0, pools_of = 0, activelist_of = Some 0, pendlist_of = Some 0,
     abortlist_of = Some 0, remote_timestamp = 0, my_timestamp = 0, memfifo_sent = 0, rget_memfifo_sent = 0\<rparr>"

definition demo_injs :: injs where
  "demo_injs = (\<lambda>_. \<lparr>injfifo = demo_fifo, clock = 0\<rparr>)"

definition demo_hws :: hws where
  "demo_hws = (\<lambda>_ _. \<lparr>hw_freeSpace = 3, hw_descCount = 0, hw_state = 1\<rparr>)"

lemma demo_hws_live: "hws_live demo_hws"
  by (simp add: hws_live_def hw_live_def demo_hws_def)

lemma demo_injs_room: "k < 2 ^ 63 \<Longrightarrow> links_room (\<lambda>_. 4) k demo_injs"
  using demo_fifo_inv by (simp add: links_room_def demo_injs_def ctl_log_def) (simp add: demo_fifo_def)

end
