(* ===== verification/Rdma_Object.thy ===== *)
theory Rdma_Object
  imports Mudm_Pool Mudm_Alloc Mudm_Sweep Mudm_Types
begin

text \<open>
  RDMA objects (\<^verbatim>\<open>bgmudm/rdma_object.c\<close>, \<^verbatim>\<open>rdma_object.h\<close>): the counters that direct puts
  decrement, the pool they are taken from, the poll that reports the transfers whose counter has
  reached zero (or whose error word has been set) and notifies the remote side, the flush on
  link reset, and the layout computed at initialisation.
\<close>

section \<open>State\<close>

record mu_element =
  mu_counter :: u64
  mu_error :: u64

record mudm_rdma_object =
  remote_rdma_obj_pa :: u64
  rdma_object_pa :: u64
  local_request_id :: u64
  local_connect :: nat

record rdma_obj_controls =
  num_obj :: nat
  rdma_freed_count :: u64
  rdma_allocated_count :: u64
  base_pa :: u64
  base_va :: u64
  compare_area_size :: u64
  ro_links :: links
  ro_nodes :: "nat \<Rightarrow> mudm_rdma_object"
  mues :: "nat \<Rightarrow> mu_element"
  rdma_free_list :: ptr
  counter_list :: ptr
  rdma_bcast_controls_offset :: u64

type_synonym rdma_status_cb = "status_list \<Rightarrow> rdma_obj_controls \<Rightarrow> rdma_obj_controls"

section \<open>Operations\<close>

definition allocate_rdma_object :: "rdma_obj_controls \<Rightarrow> ptr \<times> rdma_obj_controls" where
  "allocate_rdma_object rc =
     (let rc1 = rc\<lparr>rdma_allocated_count := rdma_allocated_count rc + 1\<rparr>
      in case rdma_free_list rc of
           None \<Rightarrow> (None, rc1)
         | Some x \<Rightarrow>
            (Some x, rc1\<lparr>rdma_free_list := nxt (ro_links rc) x,
               ro_nodes := (ro_nodes rc)(x := (ro_nodes rc x)\<lparr>local_request_id := 0, remote_rdma_obj_pa := 0\<rparr>)\<rparr>))"

definition release_rdma_obj_to_poll :: "nat \<Rightarrow> rdma_obj_controls \<Rightarrow> rdma_obj_controls" where
  "release_rdma_obj_to_poll x rc =
     rc\<lparr>ro_links := link_push2 x (counter_list rc) (ro_links rc), counter_list := Some x\<rparr>"

definition free_rdma_obj :: "nat \<Rightarrow> rdma_obj_controls \<Rightarrow> rdma_obj_controls" where
  "free_rdma_obj x rc =
     rc\<lparr>ro_links := link_push1 x (rdma_free_list rc) (ro_links rc), rdma_free_list := Some x,
        rdma_freed_count := rdma_freed_count rc + 1\<rparr>"

text \<open>The fields the callers in \<^verbatim>\<open>mudm.c\<close> set on an object they have allocated.\<close>

definition set_rdma_obj :: "nat \<Rightarrow> u64 \<Rightarrow> u64 \<Rightarrow> u64 \<Rightarrow> nat \<Rightarrow> rdma_obj_controls \<Rightarrow> rdma_obj_controls" where
  "set_rdma_obj x cnt rid remote_pa conn rc =
     rc\<lparr>mues := (mues rc)(x := \<lparr>mu_counter = cnt, mu_error = 0\<rparr>),
        ro_nodes := (ro_nodes rc)(x := (ro_nodes rc x)
          \<lparr>local_request_id := rid, remote_rdma_obj_pa := remote_pa, local_connect := conn\<rparr>)\<rparr>"

section \<open>Polling the counters\<close>

record rdma_poll =
  rp_pool :: rdma_obj_controls
  rp_inj :: injs
  rp_free :: qends
  rp_repost :: qends
  rp_refs :: status_list
  rp_pending :: u64
  rp_calls :: "status_list list"

definition rdma_done :: "mu_element \<Rightarrow> bool" where
  "rdma_done e \<longleftrightarrow> mu_counter e = 0 \<or> mu_error e \<noteq> 0"

text \<open>
  The completion notice to the remote side: \<open>Some (Inl EFAULT)\<close> is the early return of
  \<^verbatim>\<open>CHECK_CONN_MAGIC\<close>.  The eight bytes put are the error word.
\<close>

definition rdma_notify ::
  "hws \<Rightarrow> notice_addrs \<Rightarrow> (nat \<Rightarrow> mudm_connection) \<Rightarrow> mudm_rdma_object \<Rightarrow> mu_element \<Rightarrow> injs
   \<Rightarrow> (errno + injs) option" where
  "rdma_notify hs na conns o1 e is =
     (if remote_rdma_obj_pa o1 = 0 then Some (Inr is)
      else let cc = conns (local_connect o1);
               src = (if mu_error e \<noteq> 0 then rdma_EINVAL_source_pa na else rdma_GOOD_source_pa na)
           in if \<not> conn_magic_ok cc then Some (Inl EFAULT)
              else map_option (\<lambda>(_, is1). Inr is1)
                     (direct_put hs src (remote_rdma_obj_pa o1 + 8) 8 (remote_rdma_obj_pa o1) cc is))"

text \<open>Recording the request and moving the object to the list of objects to be freed.\<close>

definition rdma_poll_complete :: "nat \<Rightarrow> rdma_poll \<Rightarrow> rdma_poll" where
  "rdma_poll_complete x st =
     (let rc = rp_pool st; o1 = ro_nodes rc x; e = mues rc x; r = local_request_id o1;
          refs' = (if r \<noteq> 0 then rp_refs st @ [(r, ucast (mu_error e))] else rp_refs st);
          rc1 = (if r \<noteq> 0
                 then rc\<lparr>ro_nodes := (ro_nodes rc)(x := o1\<lparr>local_request_id := 0\<rparr>),
                         mues := (mues rc)(x := e\<lparr>mu_error := 0\<rparr>)\<rparr>
                 else rc);
          (q', L') = tail_append x (rp_free st) (ro_links rc)
      in st\<lparr>rp_pool := rc1\<lparr>ro_links := L'\<rparr>, rp_free := q', rp_refs := refs'\<rparr>)"

definition rdma_free_splice :: "rdma_poll \<Rightarrow> rdma_poll" where
  "rdma_free_splice st =
     (let rc = rp_pool st; q = rp_free st
      in st\<lparr>rp_pool := rc\<lparr>ro_links := link_splice (snd q) (rdma_free_list rc) (ro_links rc),
                           rdma_free_list := fst q\<rparr>,
            rp_free := (None, snd q)\<rparr>)"

definition rdma_report :: "rdma_status_cb \<Rightarrow> rdma_poll \<Rightarrow> rdma_poll" where
  "rdma_report cb st =
     st\<lparr>rp_pool := cb (rp_refs st) (rp_pool st), rp_calls := rp_calls st @ [rp_refs st], rp_refs := []\<rparr>"

definition rdma_poll_pending :: "nat \<Rightarrow> rdma_poll \<Rightarrow> rdma_poll" where
  "rdma_poll_pending x st =
     (let (q', L') = tail_append x (rp_repost st) (ro_links (rp_pool st))
      in st\<lparr>rp_pool := (rp_pool st)\<lparr>ro_links := L'\<rparr>, rp_repost := q', rp_pending := rp_pending st + 1\<rparr>)"

text \<open>
  One iteration.  \<open>mu x\<close> is what the message unit has done to the counter and the error word of
  object \<open>x\<close> by the time it is visited.
\<close>

definition rdma_poll_step ::
  "hws \<Rightarrow> notice_addrs \<Rightarrow> (nat \<Rightarrow> mudm_connection) \<Rightarrow> (nat \<Rightarrow> mu_element \<Rightarrow> mu_element) \<Rightarrow> rdma_status_cb
   \<Rightarrow> nat \<Rightarrow> rdma_poll \<Rightarrow> (errno + rdma_poll) option" where
  "rdma_poll_step hs na conns mu cb x st0 =
     (let rc0 = rp_pool st0;
          st = st0\<lparr>rp_pool := rc0\<lparr>mues := (mues rc0)(x := mu x (mues rc0 x))\<rparr>\<rparr>;
          rc = rp_pool st
      in if \<not> rdma_done (mues rc x) then Some (Inr (rdma_poll_pending x st))
         else case rdma_notify hs na conns (ro_nodes rc x) (mues rc x) (rp_inj st) of
                None \<Rightarrow> None
              | Some (Inl e) \<Rightarrow> Some (Inl e)
              | Some (Inr is1) \<Rightarrow>
                  let st1 = rdma_poll_complete x (st\<lparr>rp_inj := is1\<rparr>)
                  in Some (Inr (if length (rp_refs st1) = NUM_REFID then rdma_report cb (rdma_free_splice st1) else st1)))"

partial_function (option) rdma_poll_loop ::
  "hws \<Rightarrow> notice_addrs \<Rightarrow> (nat \<Rightarrow> mudm_connection) \<Rightarrow> (nat \<Rightarrow> mu_element \<Rightarrow> mu_element) \<Rightarrow> rdma_status_cb
   \<Rightarrow> ptr \<Rightarrow> rdma_poll \<Rightarrow> (errno + rdma_poll) option" where
  "rdma_poll_loop hs na conns mu cb p st =
     (case p of
        None \<Rightarrow> Some (Inr st)
      | Some x \<Rightarrow>
          (case rdma_poll_step hs na conns mu cb x st of
             None \<Rightarrow> None
           | Some (Inl e) \<Rightarrow> Some (Inl e)
           | Some (Inr st1) \<Rightarrow> rdma_poll_loop hs na conns mu cb (nxt (ro_links (rp_pool st)) x) st1))"

definition rdma_poll_finish :: "rdma_status_cb \<Rightarrow> rdma_poll \<Rightarrow> rdma_poll" where
  "rdma_poll_finish cb st =
     (let st1 = (if fst (rp_free st) \<noteq> None then rdma_free_splice st else st);
          rc = rp_pool st1; q = rp_repost st1;
          st2 = (if fst q \<noteq> None
                 then st1\<lparr>rp_pool := rc\<lparr>ro_links := link_splice (snd q) (counter_list rc) (ro_links rc),
                                         counter_list := fst q\<rparr>\<rparr>
                 else st1)
      in (if rp_refs st2 \<noteq> [] then rdma_report cb st2 else st2))"

definition rdma_poll_start :: "injs \<Rightarrow> rdma_obj_controls \<Rightarrow> rdma_poll" where
  "rdma_poll_start is rc =
     \<lparr>rp_pool = rc\<lparr>counter_list := None\<rparr>, rp_inj = is, rp_free = (None, None), rp_repost = (None, None),
      rp_refs = [], rp_pending = 0, rp_calls = []\<rparr>"

definition rdma_poll_rdma_counter ::
  "hws \<Rightarrow> notice_addrs \<Rightarrow> (nat \<Rightarrow> mudm_connection) \<Rightarrow> (nat \<Rightarrow> mu_element \<Rightarrow> mu_element) \<Rightarrow> rdma_status_cb
   \<Rightarrow> injs \<Rightarrow> rdma_obj_controls \<Rightarrow> (errno + rdma_poll) option" where
  "rdma_poll_rdma_counter hs na conns mu cb is rc =
     map_option (map_sum id (rdma_poll_finish cb))
       (rdma_poll_loop hs na conns mu cb (counter_list rc) (rdma_poll_start is rc))"

section \<open>Flushing on link reset\<close>

definition flush_rdma_entry ::
  "rdma_status_cb \<Rightarrow> nat \<Rightarrow> status_list \<times> rdma_obj_controls \<Rightarrow> status_list \<times> rdma_obj_controls" where
  "flush_rdma_entry cb x s =
     (let (calls, rc) = s; r = local_request_id (ro_nodes rc x);
          rc1 = rc\<lparr>mues := (mues rc)(x := (mues rc x)\<lparr>mu_counter := 0\<rparr>),
                   ro_nodes := (ro_nodes rc)(x := (ro_nodes rc x)\<lparr>local_request_id := 0\<rparr>)\<rparr>
      in if r \<noteq> 0 then (calls @ [(r, word_of_int (-125))], cb [(r, word_of_int (-125))] rc1) else (calls, rc1))"

partial_function (option) flush_rdma_loop ::
  "rdma_status_cb \<Rightarrow> ptr \<Rightarrow> ptr \<Rightarrow> status_list \<times> rdma_obj_controls
   \<Rightarrow> (ptr \<times> status_list \<times> rdma_obj_controls) option" where
  "flush_rdma_loop cb p last_mro s =
     (case p of
        None \<Rightarrow> Some (last_mro, s)
      | Some x \<Rightarrow>
          let s1 = flush_rdma_entry cb x s
          in flush_rdma_loop cb (nxt (ro_links (snd s1)) x) (Some x) s1)"

definition flush_rdma_counter_reqid ::
  "rdma_status_cb \<Rightarrow> rdma_obj_controls \<Rightarrow> (status_list \<times> rdma_obj_controls) option" where
  "flush_rdma_counter_reqid cb rc =
     (case counter_list rc of
        None \<Rightarrow> Some ([], rc)
      | Some x \<Rightarrow>
          map_option (\<lambda>(l, calls, rc1).
              (calls, rc1\<lparr>ro_links := link_splice l (rdma_free_list rc1) (ro_links rc1),
                          rdma_free_list := Some x\<rparr>))
            (flush_rdma_loop cb (Some x) None ([], rc\<lparr>counter_list := None\<rparr>)))"

section \<open>Initialisation\<close>

text \<open>
  The doubling loop of \<^verbatim>\<open>compute_rdma_section_size\<close> in 64-bit arithmetic; an element takes 16
  bytes.  The size is \<open>None\<close> when the loop does not end.
\<close>

partial_function (option) section_loop :: "u64 \<Rightarrow> u64 \<Rightarrow> u64 option" where
  "section_loop need sz = (if sz < need then section_loop need (push_bit 1 sz) else Some sz)"

definition compute_rdma_section_size :: "u32 \<Rightarrow> nat \<Rightarrow> (u64 \<times> u64) option" where
  "compute_rdma_section_size max_connections num_io_links =
     (let per = (if num_io_links > 1 then 2 else 4) :: u32;
          n0 = ucast (per * max_connections) :: u64;
          n = (if n0 < 128 then 128 else n0)
      in map_option (\<lambda>sz. (sz, if sz = n * 16 then n - 1 else n)) (section_loop (n * 16) 2048))"

definition rdma_obj_entry :: "nat \<Rightarrow> rdma_obj_controls \<Rightarrow> rdma_obj_controls" where
  "rdma_obj_entry i rc =
     rc\<lparr>ro_links := \<lparr>nxt = (nxt (ro_links rc))(i := Some (i + 1)), prv = (prv (ro_links rc))(i := None)\<rparr>,
        ro_nodes := (ro_nodes rc)(i := (ro_nodes rc i)\<lparr>rdma_object_pa := base_pa rc + of_nat i * 16\<rparr>)\<rparr>"

definition rdma_obj_init :: "rdma_obj_controls \<Rightarrow> rdma_obj_controls" where
  "rdma_obj_init rc =
     (let rc1 = fold rdma_obj_entry [0..<num_obj rc] (rc\<lparr>rdma_free_list := Some 0, counter_list := None\<rparr>)
      in rc1\<lparr>ro_links := (ro_links rc1)\<lparr>nxt := (nxt (ro_links rc1))(num_obj rc - 1 := None)\<rparr>\<rparr>)"

text \<open>
  The body of the loop of \<^verbatim>\<open>rdma_init\<close> over the links, after the allocation of region \<open>r\<close>; \<open>sz_ctl\<close>
  is \<^verbatim>\<open>sizeof(struct rdma_obj_controls)\<close>.  \<open>num\<close> and \<open>off\<close> are the variables
  \<^verbatim>\<open>num_mu_elements\<close> and \<^verbatim>\<open>compare_block_offset\<close>, which live across iterations; the result
  has the start and mask of the compare block.
\<close>

definition rdma_init_link ::
  "u64 \<Rightarrow> mem_region \<Rightarrow> u64 \<Rightarrow> u64 \<Rightarrow> rdma_obj_controls \<Rightarrow> u64 \<times> u64 \<times> u64 \<times> u64 \<times> rdma_obj_controls" where
  "rdma_init_link rss r num off rc =
     (let low = rss - 1; msk = low XOR (-1); pa0 = base_paddr r;
          pa = (if pa0 AND low \<noteq> 0 then (pa0 + rss) AND msk else pa0);
          off' = (if pa0 AND low \<noteq> 0 then pa - base_paddr r else off);
          num' = num - 1;
          rc1 = rc\<lparr>base_va := base_vaddr r + off', rdma_bcast_controls_offset := num' * 16,
                   num_obj := unat num', base_pa := pa, compare_area_size := rss\<rparr>
      in (num', off', pa, msk, rdma_obj_init rc1))"

text \<open>
  \<^verbatim>\<open>rdma_init\<close> over its links; \<open>rcs\<close> are the zeroed controls of each link, \<open>sz_ctl\<close> and \<open>sz_obj\<close> the
  sizes of the two structures.  The code ignores the status of the allocation and goes on with
  whatever the region holds, which is not modelled further: \<open>None\<close>.
\<close>

fun rdma_init_links ::
  "allocate_cb \<Rightarrow> u64 \<Rightarrow> u64 \<Rightarrow> u64 \<Rightarrow> rdma_obj_controls list \<Rightarrow> u64 \<Rightarrow> u64 \<Rightarrow> cleanup
   \<Rightarrow> ((u64 \<times> u64 \<times> rdma_obj_controls) list \<times> cleanup) option" where
  "rdma_init_links alloc sz_ctl sz_obj rss [] num off cl = Some ([], cl)"
| "rdma_init_links alloc sz_ctl sz_obj rss (rc # rcs) num off cl =
     (case alloc_object alloc (rss * 2 + sz_ctl + num * sz_obj) None CF_free_mem cl of
        (Inl _, _) \<Rightarrow> None
      | (Inr r, cl1) \<Rightarrow>
         (let (num', off', pa, msk, rc') = rdma_init_link rss r num off rc
          in map_option (\<lambda>(out, cl2). ((pa, msk, rc') # out, cl2))
               (rdma_init_links alloc sz_ctl sz_obj rss rcs num' off' cl1)))"

definition rdma_init ::
  "allocate_cb \<Rightarrow> u64 \<Rightarrow> u64 \<Rightarrow> u32 \<Rightarrow> rdma_obj_controls list \<Rightarrow> cleanup
   \<Rightarrow> ((u64 \<times> u64 \<times> rdma_obj_controls) list \<times> cleanup) option" where
  "rdma_init alloc sz_ctl sz_obj max_connections rcs cl =
     (case compute_rdma_section_size max_connections (length rcs) of
        None \<Rightarrow> None
      | Some (rss, num) \<Rightarrow> rdma_init_links alloc sz_ctl sz_obj rss rcs num 0 cl)"

section \<open>What a pool represents\<close>

definition rdma_rep :: "rdma_obj_controls \<Rightarrow> nat list \<Rightarrow> nat list \<Rightarrow> bool" where
  "rdma_rep rc fs bs \<longleftrightarrow>
     chain (nxt (ro_links rc)) (rdma_free_list rc) fs None \<and>
     chain (nxt (ro_links rc)) (counter_list rc) bs None \<and> distinct (fs @ bs)"

text \<open>
  What the poller relies on of the status callback: as for packets, it may allocate, free and
  post objects of the pool, keeps none, and touches no object that is on neither list.
\<close>

definition rcb_ok :: "rdma_status_cb \<Rightarrow> bool" where
  "rcb_ok cb \<longleftrightarrow>
     (\<forall>l rc fs bs. rdma_rep rc fs bs \<longrightarrow>
        (\<exists>fs' bs'. rdma_rep (cb l rc) fs' bs' \<and> set fs' \<union> set bs' = set fs \<union> set bs \<and>
          (\<forall>x. x \<notin> set fs \<union> set bs \<longrightarrow>
             nxt (ro_links (cb l rc)) x = nxt (ro_links rc) x \<and>
             ro_nodes (cb l rc) x = ro_nodes rc x \<and> mues (cb l rc) x = mues rc x)))"

lemma rcb_okD:
  "rcb_ok cb \<Longrightarrow> rdma_rep rc fs bs \<Longrightarrow>
   \<exists>fs' bs'. rdma_rep (cb l rc) fs' bs' \<and> set fs' \<union> set bs' = set fs \<union> set bs \<and>
     (\<forall>x. x \<notin> set fs \<union> set bs \<longrightarrow> nxt (ro_links (cb l rc)) x = nxt (ro_links rc) x \<and>
        ro_nodes (cb l rc) x = ro_nodes rc x \<and> mues (cb l rc) x = mues rc x)"
  by (simp add: rcb_ok_def)

lemma rcb_ok_id: "rcb_ok (\<lambda>_ rc. rc)"
  unfolding rcb_ok_def by blast

lemma allocate_rdma_object_Nil:
  "rdma_rep rc [] bs \<Longrightarrow> \<exists>rc'. allocate_rdma_object rc = (None, rc') \<and> rdma_rep rc' [] bs"
  by (simp add: rdma_rep_def allocate_rdma_object_def Let_def)

lemma allocate_rdma_object_Cons:
  "rdma_rep rc (x # fs) bs \<Longrightarrow> \<exists>rc'. allocate_rdma_object rc = (Some x, rc') \<and> rdma_rep rc' fs bs"
  by (auto simp: rdma_rep_def allocate_rdma_object_def Let_def)

lemma free_rdma_obj_rep:
  "rdma_rep rc fs bs \<Longrightarrow> x \<notin> set fs \<union> set bs \<Longrightarrow> rdma_rep (free_rdma_obj x rc) (x # fs) bs"
  by (simp add: rdma_rep_def free_rdma_obj_def link_push1_def)

lemma release_rdma_obj_to_poll_rep:
  "rdma_rep rc fs bs \<Longrightarrow> x \<notin> set fs \<union> set bs \<Longrightarrow> rdma_rep (release_rdma_obj_to_poll x rc) fs (x # bs)"
  by (simp add: rdma_rep_def release_rdma_obj_to_poll_def link_push2_def Let_def)

section \<open>The poll loop\<close>

abbreviation rdma_inv ::
  "rdma_poll \<Rightarrow> ptr \<Rightarrow> nat list \<Rightarrow> nat list \<Rightarrow> nat list \<Rightarrow> nat list \<Rightarrow> nat list \<Rightarrow> bool" where
  "rdma_inv st p ys Fs Rs fs bs \<equiv>
     sweep_inv (ro_links (rp_pool st)) (rdma_free_list (rp_pool st)) (counter_list (rp_pool st)) p
       (rp_free st) (rp_repost st) ys Fs Rs fs bs"

lemma rdma_inv_rep: "rdma_inv st p ys Fs Rs fs bs \<Longrightarrow> rdma_rep (rp_pool st) fs bs"
  by (simp add: sweep_inv_def rdma_rep_def)

lemma rdma_inv_complete:
  assumes "rdma_inv st p (x # ys) Fs Rs fs bs"
  shows "rdma_inv (rdma_poll_complete x st) (nxt (ro_links (rp_pool st)) x) ys (Fs @ [x]) Rs fs bs"
  using sweep_finish[OF assms surjective_pairing]
  by (simp add: rdma_poll_complete_def Let_def case_prod_unfold)

lemma rdma_inv_pending:
  assumes "rdma_inv st p (x # ys) Fs Rs fs bs"
  shows "rdma_inv (rdma_poll_pending x st) (nxt (ro_links (rp_pool st)) x) ys Fs (Rs @ [x]) fs bs"
  using sweep_keep[OF assms surjective_pairing]
  by (simp add: rdma_poll_pending_def Let_def case_prod_unfold)

lemma rdma_inv_splice:
  assumes "rdma_inv st p ys Fs Rs fs bs" "Fs \<noteq> []"
  shows "rdma_inv (rdma_free_splice st) p ys [] Rs (Fs @ fs) bs"
  using sweep_give_back[OF assms] by (simp add: rdma_free_splice_def Let_def)

lemma rdma_inv_report:
  assumes cb: "rcb_ok cb" and inv: "rdma_inv st p ys Fs Rs fs bs"
  shows "\<exists>fs' bs'. rdma_inv (rdma_report cb st) p ys Fs Rs fs' bs' \<and> set fs' \<union> set bs' = set fs \<union> set bs"
proof -
  let ?rc = "rp_pool st"
  from rcb_okD[OF cb rdma_inv_rep[OF inv], where l = "rp_refs st"] obtain fs' bs' where
    n: "rdma_rep (cb (rp_refs st) ?rc) fs' bs'" and s: "set fs' \<union> set bs' = set fs \<union> set bs" and
    f: "\<And>x. x \<notin> set fs \<union> set bs \<Longrightarrow> nxt (ro_links (cb (rp_refs st) ?rc)) x = nxt (ro_links ?rc) x"
    by blast
  have "rdma_inv (rdma_report cb st) p ys Fs Rs fs' bs'"
    using sweep_env[OF inv _ _ _ s f] n by (simp add: rdma_report_def rdma_rep_def)
  with s show ?thesis by blast
qed

text \<open>An iteration as a total function, given the FIFOs after the notice.\<close>

definition rdma_visit :: "(nat \<Rightarrow> mu_element \<Rightarrow> mu_element) \<Rightarrow> nat \<Rightarrow> rdma_poll \<Rightarrow> rdma_poll" where
  "rdma_visit mu x st =
     st\<lparr>rp_pool := (rp_pool st)\<lparr>mues := (mues (rp_pool st))(x := mu x (mues (rp_pool st) x))\<rparr>\<rparr>"

definition rdma_next ::
  "(nat \<Rightarrow> mu_element \<Rightarrow> mu_element) \<Rightarrow> rdma_status_cb \<Rightarrow> nat \<Rightarrow> injs \<Rightarrow> rdma_poll \<Rightarrow> rdma_poll" where
  "rdma_next mu cb x is1 st0 =
     (let st = rdma_visit mu x st0
      in if \<not> rdma_done (mues (rp_pool st) x) then rdma_poll_pending x st
         else let st1 = rdma_poll_complete x (st\<lparr>rp_inj := is1\<rparr>)
              in if length (rp_refs st1) = NUM_REFID then rdma_report cb (rdma_free_splice st1) else st1)"

lemma rdma_visit_simps [simp]:
  "ro_links (rp_pool (rdma_visit mu x st)) = ro_links (rp_pool st)"
  "ro_nodes (rp_pool (rdma_visit mu x st)) = ro_nodes (rp_pool st)"
  "mues (rp_pool (rdma_visit mu x st)) = (mues (rp_pool st))(x := mu x (mues (rp_pool st) x))"
  "rdma_free_list (rp_pool (rdma_visit mu x st)) = rdma_free_list (rp_pool st)"
  "counter_list (rp_pool (rdma_visit mu x st)) = counter_list (rp_pool st)"
  "rp_free (rdma_visit mu x st) = rp_free st" "rp_repost (rdma_visit mu x st) = rp_repost st"
  "rp_refs (rdma_visit mu x st) = rp_refs st" "rp_calls (rdma_visit mu x st) = rp_calls st"
  "rp_inj (rdma_visit mu x st) = rp_inj st" "rp_pending (rdma_visit mu x st) = rp_pending st"
  by (simp_all add: rdma_visit_def)

lemma rdma_poll_step_next:
  "rdma_poll_step hs na conns mu cb x st =
     (let e = mu x (mues (rp_pool st) x)
      in if \<not> rdma_done e then Some (Inr (rdma_next mu cb x (rp_inj st) st))
         else case rdma_notify hs na conns (ro_nodes (rp_pool st) x) e (rp_inj st) of
                None \<Rightarrow> None | Some (Inl er) \<Rightarrow> Some (Inl er)
              | Some (Inr is1) \<Rightarrow> Some (Inr (rdma_next mu cb x is1 st)))"
  by (simp add: rdma_poll_step_def rdma_next_def rdma_visit_def Let_def split: option.splits sum.splits)

abbreviation mu_at :: "(nat \<Rightarrow> mu_element \<Rightarrow> mu_element) \<Rightarrow> rdma_obj_controls \<Rightarrow> nat \<Rightarrow> mu_element" where
  "mu_at mu rc x \<equiv> mu x (mues rc x)"

lemma rdma_next_inv:
  assumes cb: "rcb_ok cb" and inv: "rdma_inv st p (x # ys) Fs Rs fs bs"
  shows "\<exists>Fs' Rs' fs' bs'.
    rdma_inv (rdma_next mu cb x is1 st) (nxt (ro_links (rp_pool st)) x) ys Fs' Rs' fs' bs' \<and>
    set Fs' \<union> set Rs' \<union> set fs' \<union> set bs' = insert x (set Fs \<union> set Rs \<union> set fs \<union> set bs)"
proof -
  let ?st0 = "rdma_visit mu x st" and ?p' = "nxt (ro_links (rp_pool st)) x"
  have 0: "rdma_inv (?st0\<lparr>rp_inj := is1\<rparr>) p (x # ys) Fs Rs fs bs" "rdma_inv ?st0 p (x # ys) Fs Rs fs bs"
    using inv by simp_all
  show ?thesis
  proof (cases "rdma_done (mu_at mu (rp_pool st) x)")
    case False
    with rdma_inv_pending[OF 0(2)] show ?thesis
      by (intro exI[of _ Fs] exI[of _ "Rs @ [x]"] exI[of _ fs] exI[of _ bs]) (auto simp: rdma_next_def)
  next
    case True
    let ?st1 = "rdma_poll_complete x (?st0\<lparr>rp_inj := is1\<rparr>)"
    have 1: "rdma_inv ?st1 ?p' ys (Fs @ [x]) Rs fs bs" using rdma_inv_complete[OF 0(1)] by simp
    show ?thesis
    proof (cases "length (rp_refs ?st1) = NUM_REFID")
      case False
      with 1 True show ?thesis
        by (intro exI[of _ "Fs @ [x]"] exI[of _ Rs] exI[of _ fs] exI[of _ bs]) (auto simp: rdma_next_def Let_def)
    next
      case sat: True
      from rdma_inv_splice[OF 1] have
        2: "rdma_inv (rdma_free_splice ?st1) ?p' ys [] Rs ((Fs @ [x]) @ fs) bs" by simp
      from rdma_inv_report[OF cb 2] obtain fs' bs' where
        3: "rdma_inv (rdma_report cb (rdma_free_splice ?st1)) ?p' ys [] Rs fs' bs'"
          "set fs' \<union> set bs' = set ((Fs @ [x]) @ fs) \<union> set bs" by blast
      have e: "rdma_next mu cb x is1 st = rdma_report cb (rdma_free_splice ?st1)"
        using True sat by (simp add: rdma_next_def Let_def)
      have "set [] \<union> set Rs \<union> set fs' \<union> set bs' = insert x (set Fs \<union> set Rs \<union> set fs \<union> set bs)"
        using 3(2) by auto
      with 3(1) show ?thesis unfolding e by blast
    qed
  qed
qed

text \<open>What is reported for an object, once, and in batches.\<close>

definition rdma_ref :: "(nat \<Rightarrow> mu_element \<Rightarrow> mu_element) \<Rightarrow> rdma_obj_controls \<Rightarrow> nat \<Rightarrow> status_list" where
  "rdma_ref mu rc x =
     (let r = local_request_id (ro_nodes rc x)
      in if rdma_done (mu_at mu rc x) \<and> r \<noteq> 0 then [(r, ucast (mu_error (mu_at mu rc x)))] else [])"

abbreviation rdma_reports :: "rdma_poll \<Rightarrow> status_list" where
  "rdma_reports st \<equiv> concat (rp_calls st) @ rp_refs st"

lemma rdma_complete_refs:
  "rp_refs (rdma_poll_complete x st) = rp_refs st @
     (if local_request_id (ro_nodes (rp_pool st) x) \<noteq> 0
      then [(local_request_id (ro_nodes (rp_pool st) x), ucast (mu_error (mues (rp_pool st) x)))] else [])"
  "rp_calls (rdma_poll_complete x st) = rp_calls st"
  "rp_inj (rdma_poll_complete x st) = rp_inj st" "rp_pending (rdma_poll_complete x st) = rp_pending st"
  by (simp_all add: rdma_poll_complete_def Let_def case_prod_unfold)

lemma rdma_pending_simps [simp]:
  "rp_refs (rdma_poll_pending x st) = rp_refs st" "rp_calls (rdma_poll_pending x st) = rp_calls st"
  "rp_inj (rdma_poll_pending x st) = rp_inj st" "rp_pending (rdma_poll_pending x st) = rp_pending st + 1"
  by (simp_all add: rdma_poll_pending_def Let_def case_prod_unfold)

lemma rdma_splice_simps [simp]:
  "rp_refs (rdma_free_splice st) = rp_refs st" "rp_calls (rdma_free_splice st) = rp_calls st"
  "rp_inj (rdma_free_splice st) = rp_inj st" "rp_pending (rdma_free_splice st) = rp_pending st"
  "rp_repost (rdma_free_splice st) = rp_repost st"
  "ro_nodes (rp_pool (rdma_free_splice st)) = ro_nodes (rp_pool st)"
  "mues (rp_pool (rdma_free_splice st)) = mues (rp_pool st)"
  by (simp_all add: rdma_free_splice_def Let_def)

lemma rdma_report_simps [simp]:
  "rp_refs (rdma_report cb st) = []" "rp_calls (rdma_report cb st) = rp_calls st @ [rp_refs st]"
  "rp_inj (rdma_report cb st) = rp_inj st" "rp_pending (rdma_report cb st) = rp_pending st"
  "rp_pool (rdma_report cb st) = cb (rp_refs st) (rp_pool st)"
  by (simp_all add: rdma_report_def)

lemma rdma_next_reports:
  "rdma_reports (rdma_next mu cb x is1 st) = rdma_reports st @ rdma_ref mu (rp_pool st) x"
  "rp_inj (rdma_next mu cb x is1 st) = (if rdma_done (mu_at mu (rp_pool st) x) then is1 else rp_inj st)"
  "rp_pending (rdma_next mu cb x is1 st) =
     rp_pending st + (if rdma_done (mu_at mu (rp_pool st) x) then 0 else 1)"
  by (simp_all add: rdma_next_def Let_def rdma_complete_refs rdma_ref_def)

lemma rdma_next_batches:
  assumes "length (rp_refs st) < NUM_REFID"
  shows "length (rp_refs (rdma_next mu cb x is1 st)) < NUM_REFID"
    and "c \<in> set (rp_calls (rdma_next mu cb x is1 st)) \<Longrightarrow> c \<in> set (rp_calls st) \<or> length c = NUM_REFID"
  using assms by (auto simp: rdma_next_def Let_def rdma_complete_refs NUM_REFID_def split: if_splits)

lemma rdma_next_nodes:
  assumes cb: "rcb_ok cb" and inv: "rdma_inv st p (x # ys) Fs Rs fs bs" and y: "y \<in> set ys"
  shows "ro_nodes (rp_pool (rdma_next mu cb x is1 st)) y = ro_nodes (rp_pool st) y"
    and "mues (rp_pool (rdma_next mu cb x is1 st)) y = mues (rp_pool st) y"
proof -
  from inv y have ne: "y \<noteq> x" "y \<notin> set ((Fs @ [x]) @ fs) \<union> set bs" by (auto simp: sweep_inv_def)
  let ?st1 = "rdma_poll_complete x ((rdma_visit mu x st)\<lparr>rp_inj := is1\<rparr>)"
  have "rdma_inv ?st1 (nxt (ro_links (rp_pool st)) x) ys (Fs @ [x]) Rs fs bs"
    using rdma_inv_complete[of "(rdma_visit mu x st)\<lparr>rp_inj := is1\<rparr>"] inv by simp
  from rcb_okD[OF cb rdma_inv_rep[OF rdma_inv_splice[OF this]], of "rp_refs ?st1"] ne have
    c: "ro_nodes (cb (rp_refs ?st1) (rp_pool (rdma_free_splice ?st1))) y = ro_nodes (rp_pool ?st1) y"
      "mues (cb (rp_refs ?st1) (rp_pool (rdma_free_splice ?st1))) y = mues (rp_pool ?st1) y"
    by auto
  have d: "ro_nodes (rp_pool ?st1) y = ro_nodes (rp_pool st) y" "mues (rp_pool ?st1) y = mues (rp_pool st) y"
    using ne by (simp_all add: rdma_poll_complete_def Let_def case_prod_unfold)
  show "ro_nodes (rp_pool (rdma_next mu cb x is1 st)) y = ro_nodes (rp_pool st) y"
    "mues (rp_pool (rdma_next mu cb x is1 st)) y = mues (rp_pool st) y"
    using ne c d by (simp_all add: rdma_next_def Let_def rdma_poll_pending_def case_prod_unfold)
qed

section \<open>Notices to the remote side\<close>

definition rdma_notice ::
  "notice_addrs \<Rightarrow> (nat \<Rightarrow> mudm_connection) \<Rightarrow> (nat \<Rightarrow> mu_element \<Rightarrow> mu_element) \<Rightarrow> rdma_obj_controls
   \<Rightarrow> nat \<Rightarrow> nat \<Rightarrow> inj_desc list" where
  "rdma_notice na conns mu rc l x =
     (let o1 = ro_nodes rc x; e = mu_at mu rc x; cc = conns (local_connect o1)
      in if rdma_done e \<and> remote_rdma_obj_pa o1 \<noteq> 0 \<and> injfifo_of cc = l
         then case patch_directput 8 (if mu_error e \<noteq> 0 then rdma_EINVAL_source_pa na else rdma_GOOD_source_pa na)
                     (remote_rdma_obj_pa o1 + 8) (remote_rdma_obj_pa o1) (mu_iDirectPutDescriptor cc) of
                None \<Rightarrow> [] | Some d \<Rightarrow> [DirectPutDesc d]
         else [])"

text \<open>The connection of an object to be notified is valid and the remote counter is aligned.\<close>

definition notice_ok :: "(nat \<Rightarrow> mudm_connection) \<Rightarrow> mudm_rdma_object \<Rightarrow> bool" where
  "notice_ok conns o1 \<longleftrightarrow> remote_rdma_obj_pa o1 = 0 \<or>
     (conn_magic_ok (conns (local_connect o1)) \<and> remote_rdma_obj_pa o1 AND 7 = 0)"

lemma rdma_notify_total:
  assumes hs: "hws_live hs" and r: "links_room n (Suc k) is" and ok: "notice_ok conns (ro_nodes rc x)"
    and d: "rdma_done (mu_at mu rc x)"
  shows "\<exists>is1. rdma_notify hs na conns (ro_nodes rc x) (mu_at mu rc x) is = Some (Inr is1) \<and>
    links_room n k is1 \<and> (\<forall>l. ctl_log (is1 l) = ctl_log (is l) @ rdma_notice na conns mu rc l x)"
proof (cases "remote_rdma_obj_pa (ro_nodes rc x) = 0")
  case True
  with links_room_mono[OF r, of k] show ?thesis by (simp add: rdma_notify_def rdma_notice_def Let_def)
next
  case False
  let ?o = "ro_nodes rc x" and ?e = "mu_at mu rc x"
  let ?cc = "conns (local_connect ?o)"
  let ?src = "if mu_error ?e \<noteq> 0 then rdma_EINVAL_source_pa na else rdma_GOOD_source_pa na"
  have m: "conn_magic_ok ?cc" "remote_rdma_obj_pa ?o AND 7 = 0" using ok False by (auto simp: notice_ok_def)
  from direct_put_total[of hs "n (injfifo_of ?cc)" "is" ?cc "remote_rdma_obj_pa ?o" 8 ?src "remote_rdma_obj_pa ?o + 8",
      OF hs links_room_ctl[OF r] m(2)] obtain d1 c where
    p: "patch_directput 8 ?src (remote_rdma_obj_pa ?o + 8) (remote_rdma_obj_pa ?o) (mu_iDirectPutDescriptor ?cc) = Some d1"
    and q: "\<exists>w. direct_put hs ?src (remote_rdma_obj_pa ?o + 8) 8 (remote_rdma_obj_pa ?o) ?cc is =
        Some (w, is(injfifo_of ?cc := c))"
    and l: "ctl_log c = ctl_log (is (injfifo_of ?cc)) @ [DirectPutDesc d1]" "inj_inv (n (injfifo_of ?cc)) (injfifo c)"
    by blast
  have "rdma_notify hs na conns ?o ?e is = Some (Inr (is(injfifo_of ?cc := c)))"
    using q m(1) False by (auto simp: rdma_notify_def Let_def)
  moreover have "links_room n k (is(injfifo_of ?cc := c))" by (rule links_room_upd[OF r l(2,1)])
  moreover have "\<forall>l. ctl_log ((is(injfifo_of ?cc := c)) l) = ctl_log (is l) @ rdma_notice na conns mu rc l x"
    using l(1) p d False by (auto simp: rdma_notice_def Let_def)
  ultimately show ?thesis by blast
qed

section \<open>The whole poll\<close>

lemma rdma_fields_cong:
  assumes "ro_nodes rc' x = ro_nodes rc x" "mues rc' x = mues rc x"
  shows "rdma_ref mu rc' x = rdma_ref mu rc x" "rdma_notice na conns mu rc' l x = rdma_notice na conns mu rc l x"
  using assms by (simp_all add: rdma_ref_def rdma_notice_def Let_def)

abbreviation rdma_open :: "(nat \<Rightarrow> mu_element \<Rightarrow> mu_element) \<Rightarrow> rdma_obj_controls \<Rightarrow> nat list \<Rightarrow> nat list" where
  "rdma_open mu rc \<equiv> filter (\<lambda>x. \<not> rdma_done (mu_at mu rc x))"

lemma rdma_step_total:
  assumes cb: "rcb_ok cb" and hs: "hws_live hs" and inv: "rdma_inv st p (x # ys) Fs Rs fs bs"
    and r: "links_room n (Suc k) (rp_inj st)" and ok: "notice_ok conns (ro_nodes (rp_pool st) x)"
  shows "\<exists>is1. rdma_poll_step hs na conns mu cb x st = Some (Inr (rdma_next mu cb x is1 st)) \<and>
    links_room n k (rp_inj (rdma_next mu cb x is1 st)) \<and>
    (\<forall>l. ctl_log (rp_inj (rdma_next mu cb x is1 st) l) =
       ctl_log (rp_inj st l) @ rdma_notice na conns mu (rp_pool st) l x)"
proof (cases "rdma_done (mu_at mu (rp_pool st) x)")
  case False
  with links_room_mono[OF r, of k] show ?thesis
    by (intro exI[of _ "rp_inj st"])
       (simp add: rdma_poll_step_next rdma_next_reports(2) rdma_notice_def)
next
  case True
  from rdma_notify_total[of hs n k "rp_inj st" conns "rp_pool st" x mu na, OF hs r ok True] obtain is1 where
    "rdma_notify hs na conns (ro_nodes (rp_pool st) x) (mu_at mu (rp_pool st) x) (rp_inj st) = Some (Inr is1)"
    "links_room n k is1" "\<forall>l. ctl_log (is1 l) = ctl_log (rp_inj st l) @ rdma_notice na conns mu (rp_pool st) l x"
    by blast
  with True show ?thesis
    by (intro exI[of _ is1]) (simp add: rdma_poll_step_next rdma_next_reports(2))
qed

lemma rdma_poll_loop_total:
  assumes cb: "rcb_ok cb" and hs: "hws_live hs" and inv: "rdma_inv st p ys Fs Rs fs bs"
    and r: "links_room n (length ys) (rp_inj st)"
    and ok: "\<forall>x \<in> set ys. notice_ok conns (ro_nodes (rp_pool st) x)"
    and len: "length (rp_refs st) < NUM_REFID"
  shows "\<exists>st' Fs' Rs' fs' bs'. rdma_poll_loop hs na conns mu cb p st = Some (Inr st') \<and>
    rdma_inv st' None [] Fs' Rs' fs' bs' \<and>
    set Fs' \<union> set Rs' \<union> set fs' \<union> set bs' = set ys \<union> set Fs \<union> set Rs \<union> set fs \<union> set bs \<and>
    rdma_reports st' = rdma_reports st @ concat (map (rdma_ref mu (rp_pool st)) ys) \<and>
    length (rp_refs st') < NUM_REFID \<and>
    (\<forall>c \<in> set (rp_calls st'). c \<in> set (rp_calls st) \<or> length c = NUM_REFID) \<and>
    rp_pending st' = rp_pending st + of_nat (length (rdma_open mu (rp_pool st) ys)) \<and>
    (\<forall>l. ctl_log (rp_inj st' l) = ctl_log (rp_inj st l) @ concat (map (rdma_notice na conns mu (rp_pool st) l) ys))"
  using inv r ok len
proof (induction ys arbitrary: st p Fs Rs fs bs)
  case Nil
  then have "p = None" by (simp add: sweep_inv_def)
  with Nil show ?case
    by (subst rdma_poll_loop.simps, intro exI[of _ st] exI[of _ Fs] exI[of _ Rs] exI[of _ fs] exI[of _ bs]) simp
next
  case (Cons x ys)
  let ?rc = "rp_pool st" and ?p1 = "nxt (ro_links (rp_pool st)) x"
  have p: "p = Some x" using Cons.prems(1) by (rule sweep_inv_head)
  have rk: "links_room n (Suc (length ys)) (rp_inj st)" using Cons.prems(2) by simp
  from rdma_step_total[OF cb hs Cons.prems(1) rk] Cons.prems(3) obtain is1 where
    S: "rdma_poll_step hs na conns mu cb x st = Some (Inr (rdma_next mu cb x is1 st))" and
    R: "links_room n (length ys) (rp_inj (rdma_next mu cb x is1 st))" and
    I: "\<And>l. ctl_log (rp_inj (rdma_next mu cb x is1 st) l) = ctl_log (rp_inj st l) @ rdma_notice na conns mu ?rc l x"
    by (metis list.set_intros(1))
  let ?st1 = "rdma_next mu cb x is1 st"
  from rdma_next_inv[OF cb Cons.prems(1), of mu is1] obtain F1 R1 f1 b1 where
    inv1: "rdma_inv ?st1 ?p1 ys F1 R1 f1 b1" and
    set1: "set F1 \<union> set R1 \<union> set f1 \<union> set b1 = insert x (set Fs \<union> set Rs \<union> set fs \<union> set bs)" by blast
  note nodes = rdma_next_nodes[OF cb Cons.prems(1), of _ mu is1]
  have ok1: "\<forall>y \<in> set ys. notice_ok conns (ro_nodes (rp_pool ?st1) y)"
    using Cons.prems(3) nodes(1) by simp
  have refs: "map (rdma_ref mu (rp_pool ?st1)) ys = map (rdma_ref mu ?rc) ys"
    using nodes by (auto intro!: rdma_fields_cong)
  have nts: "map (rdma_notice na conns mu (rp_pool ?st1) l) ys = map (rdma_notice na conns mu ?rc l) ys" for l
    using nodes by (auto intro!: rdma_fields_cong)
  have opn: "rdma_open mu (rp_pool ?st1) ys = rdma_open mu ?rc ys"
    using nodes(2) by (auto cong: filter_cong)
  from Cons.IH[OF inv1 R ok1 rdma_next_batches(1)[OF Cons.prems(4)], unfolded refs nts opn]
  obtain st' F' R' f' b' where
    L: "rdma_poll_loop hs na conns mu cb ?p1 ?st1 = Some (Inr st')" and
    A: "rdma_inv st' None [] F' R' f' b'"
       "set F' \<union> set R' \<union> set f' \<union> set b' = set ys \<union> set F1 \<union> set R1 \<union> set f1 \<union> set b1"
       "rdma_reports st' = rdma_reports ?st1 @ concat (map (rdma_ref mu ?rc) ys)" and
    B: "length (rp_refs st') < NUM_REFID"
       "\<forall>c \<in> set (rp_calls st'). c \<in> set (rp_calls ?st1) \<or> length c = NUM_REFID"
       "rp_pending st' = rp_pending ?st1 + of_nat (length (rdma_open mu ?rc ys))"
       "\<forall>l. ctl_log (rp_inj st' l) = ctl_log (rp_inj ?st1 l) @ concat (map (rdma_notice na conns mu ?rc l) ys)"
    by blast
  have "rdma_poll_loop hs na conns mu cb p st = Some (Inr st')"
    using L S by (subst rdma_poll_loop.simps) (simp add: p)
  moreover have "set ys \<union> set F1 \<union> set R1 \<union> set f1 \<union> set b1 =
      set (x # ys) \<union> set Fs \<union> set Rs \<union> set fs \<union> set bs" using set1 by auto
  moreover have "rdma_reports st' = rdma_reports st @ concat (map (rdma_ref mu ?rc) (x # ys))"
    using A(3) rdma_next_reports(1)[of mu cb x is1 st] by simp
  moreover have "\<forall>c \<in> set (rp_calls st'). c \<in> set (rp_calls st) \<or> length c = NUM_REFID"
    using B(2) rdma_next_batches(2)[OF Cons.prems(4)] by blast
  moreover have "rp_pending st' = rp_pending st + of_nat (length (rdma_open mu ?rc (x # ys)))"
    by (simp add: B(3) rdma_next_reports(3))
  moreover have "\<forall>l. ctl_log (rp_inj st' l) =
      ctl_log (rp_inj st l) @ concat (map (rdma_notice na conns mu ?rc l) (x # ys))"
    by (simp add: B(4) I)
  ultimately show ?case using A(1,2) B(1)
    by (intro exI[of _ st'] exI[of _ F'] exI[of _ R'] exI[of _ f'] exI[of _ b']) simp
qed

lemma rdma_poll_finish_rep:
  assumes cb: "rcb_ok cb" and inv: "rdma_inv st None [] Fs Rs fs bs"
  shows "\<exists>fs' bs'. rdma_rep (rp_pool (rdma_poll_finish cb st)) fs' bs' \<and>
    set fs' \<union> set bs' = set Fs \<union> set Rs \<union> set fs \<union> set bs"
proof -
  let ?st1 = "if fst (rp_free st) \<noteq> None then rdma_free_splice st else st"
  let ?rc = "rp_pool ?st1"
  define st2 where "st2 = (if fst (rp_repost ?st1) \<noteq> None
      then ?st1\<lparr>rp_pool := ?rc\<lparr>ro_links := link_splice (snd (rp_repost ?st1)) (counter_list ?rc) (ro_links ?rc),
                              counter_list := fst (rp_repost ?st1)\<rparr>\<rparr> else ?st1)"
  have 1: "rdma_inv ?st1 None [] [] Rs (Fs @ fs) bs"
    using rdma_inv_splice[OF inv] inv sweep_inv_queues[OF inv] by auto
  have 2: "rdma_rep (rp_pool st2) (Fs @ fs) (Rs @ bs)"
  proof (cases "Rs = []")
    case True
    with sweep_inv_queues[OF 1] have "st2 = ?st1" unfolding st2_def by (intro if_not_P) simp
    with rdma_inv_rep[OF 1] True show ?thesis by simp
  next
    case False
    with sweep_inv_queues[OF 1] have "st2 = ?st1\<lparr>rp_pool := ?rc\<lparr>ro_links :=
        link_splice (snd (rp_repost ?st1)) (counter_list ?rc) (ro_links ?rc), counter_list := fst (rp_repost ?st1)\<rparr>\<rparr>"
      unfolding st2_def by (intro if_P) simp
    with sweep_repost[OF 1 False] show ?thesis by (simp only: rdma_rep_def sweep_inv_def) simp
  qed
  have f: "rdma_poll_finish cb st = (if rp_refs st2 \<noteq> [] then rdma_report cb st2 else st2)"
    by (simp add: rdma_poll_finish_def st2_def Let_def)
  from rcb_okD[OF cb 2, of "rp_refs st2"] obtain fs' bs' where
    3: "rdma_rep (cb (rp_refs st2) (rp_pool st2)) fs' bs'" "set fs' \<union> set bs' = set (Fs @ fs) \<union> set (Rs @ bs)" by blast
  show ?thesis
  proof (cases "rp_refs st2 = []")
    case True
    with f 2 show ?thesis by (intro exI[of _ "Fs @ fs"] exI[of _ "Rs @ bs"]) auto
  next
    case False
    with f 3 show ?thesis by (intro exI[of _ fs'] exI[of _ bs']) auto
  qed
qed

lemma rdma_poll_finish_simps:
  "concat (rp_calls (rdma_poll_finish cb st)) = rdma_reports st"
  "c \<in> set (rp_calls (rdma_poll_finish cb st)) \<Longrightarrow> c \<in> set (rp_calls st) \<or> (c = rp_refs st \<and> c \<noteq> [])"
  "rp_inj (rdma_poll_finish cb st) = rp_inj st" "rp_pending (rdma_poll_finish cb st) = rp_pending st"
  by (auto simp: rdma_poll_finish_def Let_def split: if_splits)

lemma rdma_poll_rdma_counter_total:
  assumes rep: "rdma_rep rc fs bs" and cb: "rcb_ok cb" and hs: "hws_live hs"
    and r: "links_room n (length bs) is" and ok: "\<forall>x \<in> set bs. notice_ok conns (ro_nodes rc x)"
  shows "\<exists>st' fs' bs'. rdma_poll_rdma_counter hs na conns mu cb is rc = Some (Inr st') \<and>
    rdma_rep (rp_pool st') fs' bs' \<and> set fs' \<union> set bs' = set fs \<union> set bs \<and>
    concat (rp_calls st') = concat (map (rdma_ref mu rc) bs) \<and>
    (\<forall>c \<in> set (rp_calls st'). c \<noteq> [] \<and> length c \<le> NUM_REFID) \<and>
    rp_pending st' = of_nat (length (rdma_open mu rc bs)) \<and>
    (\<forall>l. ctl_log (rp_inj st' l) = ctl_log (is l) @ concat (map (rdma_notice na conns mu rc l) bs))"
proof -
  let ?st0 = "rdma_poll_start is rc"
  have s0: "rp_refs ?st0 = []" "rp_calls ?st0 = []" "rp_inj ?st0 = is" "rp_pending ?st0 = 0"
    "ro_nodes (rp_pool ?st0) = ro_nodes rc" "mues (rp_pool ?st0) = mues rc"
    by (simp_all add: rdma_poll_start_def)
  have i0: "rdma_inv ?st0 (counter_list rc) bs [] [] fs []"
    using rep by (auto simp: sweep_inv_def rdma_poll_start_def rdma_rep_def)
  have c0: "rdma_ref mu (rp_pool ?st0) = rdma_ref mu rc"
    "rdma_notice na conns mu (rp_pool ?st0) = rdma_notice na conns mu rc"
    by (intro ext rdma_fields_cong; simp add: s0)+
  from rdma_poll_loop_total[OF cb hs i0, of n conns na mu] r ok obtain st1 Fs Rs fs1 bs1 where
    L: "rdma_poll_loop hs na conns mu cb (counter_list rc) ?st0 = Some (Inr st1)" and
    I: "rdma_inv st1 None [] Fs Rs fs1 bs1" and
    S: "set Fs \<union> set Rs \<union> set fs1 \<union> set bs1 = set bs \<union> set fs" and
    P: "rdma_reports st1 = concat (map (rdma_ref mu rc) bs)" and
    B: "length (rp_refs st1) < NUM_REFID" "\<forall>c \<in> set (rp_calls st1). length c = NUM_REFID"
       "rp_pending st1 = of_nat (length (rdma_open mu rc bs))"
       "\<forall>l. ctl_log (rp_inj st1 l) = ctl_log (is l) @ concat (map (rdma_notice na conns mu rc l) bs)"
    by (auto simp: s0 c0 NUM_REFID_def)
  from rdma_poll_finish_rep[OF cb I] obtain fs' bs' where
    R: "rdma_rep (rp_pool (rdma_poll_finish cb st1)) fs' bs'" "set fs' \<union> set bs' = set fs \<union> set bs"
    using S by blast
  have "rdma_poll_rdma_counter hs na conns mu cb is rc = Some (Inr (rdma_poll_finish cb st1))"
    using L by (simp add: rdma_poll_rdma_counter_def)
  moreover have "c \<noteq> [] \<and> length c \<le> NUM_REFID" if "c \<in> set (rp_calls (rdma_poll_finish cb st1))" for c
    using rdma_poll_finish_simps(2)[OF that] B(1,2) by (auto simp: NUM_REFID_def)
  ultimately show ?thesis using R P B(3,4)
    by (intro exI[of _ "rdma_poll_finish cb st1"] exI[of _ fs'] exI[of _ bs'])
       (simp add: rdma_poll_finish_simps)
qed

section \<open>Flushing\<close>

definition rdma_flush_ref :: "rdma_obj_controls \<Rightarrow> nat \<Rightarrow> status_list" where
  "rdma_flush_ref rc x =
     (let r = local_request_id (ro_nodes rc x) in if r \<noteq> 0 then [(r, word_of_int (-125))] else [])"

lemma flush_rdma_entry_rep:
  assumes cb: "rcb_ok cb" and rep: "rdma_rep rc fs bs" and x: "x \<notin> set fs \<union> set bs"
    and e: "flush_rdma_entry cb x (calls, rc) = (calls', rc')"
  shows "\<exists>fs' bs'. rdma_rep rc' fs' bs' \<and> set fs' \<union> set bs' = set fs \<union> set bs"
    and "calls' = calls @ rdma_flush_ref rc x"
    and "y \<notin> set fs \<union> set bs \<Longrightarrow> nxt (ro_links rc') y = nxt (ro_links rc) y"
    and "y \<notin> set fs \<union> set bs \<Longrightarrow> ro_nodes rc' y =
           (if y = x then (ro_nodes rc y)\<lparr>local_request_id := 0\<rparr> else ro_nodes rc y)"
    and "y \<notin> set fs \<union> set bs \<Longrightarrow> mues rc' y = (if y = x then (mues rc y)\<lparr>mu_counter := 0\<rparr> else mues rc y)"
proof -
  let ?rc1 = "rc\<lparr>mues := (mues rc)(x := (mues rc x)\<lparr>mu_counter := 0\<rparr>),
                 ro_nodes := (ro_nodes rc)(x := (ro_nodes rc x)\<lparr>local_request_id := 0\<rparr>)\<rparr>"
  have r1: "rdma_rep ?rc1 fs bs" using rep by (simp add: rdma_rep_def)
  note c = rcb_okD[OF cb r1, of "[(local_request_id (ro_nodes rc x), word_of_int (-125))]"]
  have rc': "rc' = (if local_request_id (ro_nodes rc x) \<noteq> 0
      then cb [(local_request_id (ro_nodes rc x), word_of_int (-125))] ?rc1 else ?rc1)"
    and cl: "calls' = calls @ rdma_flush_ref rc x"
    using e by (auto simp: flush_rdma_entry_def Let_def rdma_flush_ref_def split: if_splits)
  show "calls' = calls @ rdma_flush_ref rc x" by (rule cl)
  show "\<exists>fs' bs'. rdma_rep rc' fs' bs' \<and> set fs' \<union> set bs' = set fs \<union> set bs"
  proof (cases "local_request_id (ro_nodes rc x) = 0")
    case True
    then have "rc' = ?rc1" by (simp add: rc')
    with r1 show ?thesis by blast
  next
    case False
    then have "rc' = cb [(local_request_id (ro_nodes rc x), word_of_int (-125))] ?rc1" by (simp add: rc')
    with c show ?thesis by blast
  qed
  have fr: "nxt (ro_links rc') y = nxt (ro_links ?rc1) y \<and> ro_nodes rc' y = ro_nodes ?rc1 y \<and> mues rc' y = mues ?rc1 y"
    if "y \<notin> set fs \<union> set bs"
  proof (cases "local_request_id (ro_nodes rc x) = 0")
    case True
    then show ?thesis by (simp add: rc')
  next
    case False
    then have "rc' = cb [(local_request_id (ro_nodes rc x), word_of_int (-125))] ?rc1" by (simp add: rc')
    with c that show ?thesis by blast
  qed
  then show "y \<notin> set fs \<union> set bs \<Longrightarrow> nxt (ro_links rc') y = nxt (ro_links rc) y"
    "y \<notin> set fs \<union> set bs \<Longrightarrow> ro_nodes rc' y =
           (if y = x then (ro_nodes rc y)\<lparr>local_request_id := 0\<rparr> else ro_nodes rc y)"
    "y \<notin> set fs \<union> set bs \<Longrightarrow> mues rc' y = (if y = x then (mues rc y)\<lparr>mu_counter := 0\<rparr> else mues rc y)"
    by simp_all
qed

interpretation rdma_walk: list_walk "\<lambda>s. ro_links (snd s)" "flush_rdma_entry cb" "flush_rdma_loop cb"
  "\<lambda>s fs bs. rcb_ok cb \<and> rdma_rep (snd s) fs bs" for cb
proof (unfold_locales, goal_cases)
  case (1 l s)
  show ?case by (subst flush_rdma_loop.simps) simp
next
  case (2 x l s)
  show ?case by (subst flush_rdma_loop.simps) (simp add: Let_def)
next
  case (3 s fs bs)
  then show ?case by (simp add: rdma_rep_def)
next
  case (4 s fs bs x)
  with flush_rdma_entry_rep(1)[of cb "snd s" fs bs x "fst s"] show ?case
    by (cases "flush_rdma_entry cb x s") auto
next
  case (5 s fs bs x y)
  with flush_rdma_entry_rep(3)[of cb "snd s" fs bs x "fst s" _ _ y] show ?case
    by (cases "flush_rdma_entry cb x s") auto
qed

lemma flush_rdma_fold:
  assumes "rcb_ok cb" "rdma_rep rc fs bs" "distinct (ys @ fs @ bs)"
  shows "fst (fold (flush_rdma_entry cb) ys (calls, rc)) = calls @ concat (map (rdma_flush_ref rc) ys) \<and>
    (\<forall>x. x \<notin> set fs \<union> set bs \<longrightarrow>
      ro_nodes (snd (fold (flush_rdma_entry cb) ys (calls, rc))) x =
        (if x \<in> set ys then (ro_nodes rc x)\<lparr>local_request_id := 0\<rparr> else ro_nodes rc x) \<and>
      mues (snd (fold (flush_rdma_entry cb) ys (calls, rc))) x =
        (if x \<in> set ys then (mues rc x)\<lparr>mu_counter := 0\<rparr> else mues rc x))"
  using assms(2,3)
proof (induction ys arbitrary: calls rc fs bs)
  case Nil
  then show ?case by simp
next
  case (Cons y ys)
  obtain calls1 rc1 where e: "flush_rdma_entry cb y (calls, rc) = (calls1, rc1)" by (rule prod.exhaust)
  from Cons.prems have y: "y \<notin> set fs \<union> set bs" by auto
  note E = flush_rdma_entry_rep[OF assms(1) Cons.prems(1) y e]
  from E(1) obtain fs1 bs1 where 1: "rdma_rep rc1 fs1 bs1" "set fs1 \<union> set bs1 = set fs \<union> set bs" by blast
  have "distinct (ys @ fs1 @ bs1)" using 1 Cons.prems(2) by (auto simp: rdma_rep_def)
  note IH = Cons.IH[OF 1(1) this, of calls1, unfolded 1(2)]
  have nd: "ro_nodes rc1 z = ro_nodes rc z" if "z \<in> set ys" for z
  proof -
    have "z \<notin> set fs \<union> set bs" "z \<noteq> y" using Cons.prems(2) that by auto
    then show ?thesis using E(4)[of z] by simp
  qed
  have m: "map (rdma_flush_ref rc1) ys = map (rdma_flush_ref rc) ys"
    by (auto simp: rdma_flush_ref_def nd)
  show ?case using IH E(2,4,5) Cons.prems(2) by (auto simp: e m)
qed

lemma flush_rdma_counter_reqid_total:
  assumes rep: "rdma_rep rc fs bs" and cb: "rcb_ok cb"
  shows "\<exists>rc' fs' bs'. flush_rdma_counter_reqid cb rc = Some (concat (map (rdma_flush_ref rc) bs), rc') \<and>
    rdma_rep rc' (bs @ fs') bs' \<and> set fs' \<union> set bs' = set fs \<and>
    (\<forall>x \<in> set bs. local_request_id (ro_nodes rc' x) = 0 \<and> mu_counter (mues rc' x) = 0)"
proof (cases "counter_list rc")
  case None
  with rep have "bs = []" by (simp add: rdma_rep_def)
  with rep None show ?thesis
    by (intro exI[of _ rc] exI[of _ fs] exI[of _ "[]"]) (simp add: flush_rdma_counter_reqid_def)
next
  case (Some x)
  let ?s0 = "([], rc\<lparr>counter_list := None\<rparr>) :: status_list \<times> rdma_obj_controls"
  let ?s1 = "fold (flush_rdma_entry cb) bs ?s0"
  have ne: "bs \<noteq> []" using rep Some by (auto simp: rdma_rep_def)
  have r0: "rcb_ok cb \<and> rdma_rep (snd ?s0) fs []" "chain (nxt (ro_links (snd ?s0))) (Some x) bs None"
    "distinct (bs @ fs @ [])" "set bs \<inter> (set fs \<union> set []) = {}"
    using rep Some cb by (auto simp: rdma_rep_def)
  from rdma_walk.fold_pool[OF r0(1,4)] obtain fs' bs' where
    1: "rdma_rep (snd ?s1) fs' bs'" "set fs' \<union> set bs' = set fs" by auto
  have p1: "rcb_ok cb \<and> rdma_rep (snd ?s1) fs' bs'" "set fs' \<union> set bs' = set fs \<union> set []"
    and c1: "chain (nxt (ro_links (snd ?s1))) (rdma_free_list (snd ?s1)) fs' None"
      "chain (nxt (ro_links (snd ?s1))) (counter_list (snd ?s1)) bs' None"
    using 1 cb by (auto simp: rdma_rep_def)
  note g = rdma_walk.fold_give_back[OF r0(1-3) p1 c1]
  let ?rc' = "(snd ?s1)\<lparr>ro_links := link_splice (Some (last bs)) (rdma_free_list (snd ?s1)) (ro_links (snd ?s1)),
                       rdma_free_list := Some x\<rparr>"
  have f: "fst ?s1 = [] @ concat (map (rdma_flush_ref (snd ?s0)) bs)"
    "\<And>y. y \<notin> set fs \<union> set [] \<Longrightarrow> y \<in> set bs \<Longrightarrow> local_request_id (ro_nodes (snd ?s1) y) = 0 \<and> mu_counter (mues (snd ?s1) y) = 0"
    using flush_rdma_fold[OF cb _ r0(3), of "snd ?s0" "[]"] r0(1) by auto
  have "rdma_rep ?rc' (bs @ fs') bs'"
    unfolding rdma_rep_def using g by (simp del: chain_append)
  moreover have "rdma_flush_ref (snd ?s0) = rdma_flush_ref rc" by (rule ext) (simp add: rdma_flush_ref_def)
  then have "flush_rdma_counter_reqid cb rc = Some (concat (map (rdma_flush_ref rc) bs), ?rc')"
    using rdma_walk.walk_fold[OF r0(1,2,4), of None] ne Some f(1)
    by (simp add: flush_rdma_counter_reqid_def case_prod_unfold)
  moreover have "local_request_id (ro_nodes ?rc' y) = 0 \<and> mu_counter (mues ?rc' y) = 0" if "y \<in> set bs" for y
  proof -
    have "y \<notin> set fs \<union> set []" using r0(4) that by auto
    with f(2) that show ?thesis by simp
  qed
  ultimately show ?thesis using 1(2) by blast
qed

section \<open>The pool contract\<close>

inductive rdma_sweep :: "rdma_obj_controls \<Rightarrow> rdma_obj_controls \<Rightarrow> bool" where
  rdma_sweep_poll: "rcb_ok cb \<Longrightarrow> hws_live hs \<Longrightarrow> rdma_rep rc fs bs \<Longrightarrow> links_room n (length bs) is \<Longrightarrow>
    \<forall>x \<in> set bs. notice_ok conns (ro_nodes rc x) \<Longrightarrow>
    rdma_poll_rdma_counter hs na conns mu cb is rc = Some (Inr st) \<Longrightarrow> rdma_sweep rc (rp_pool st)"
| rdma_sweep_flush: "rcb_ok cb \<Longrightarrow> flush_rdma_counter_reqid cb rc = Some (calls, rc') \<Longrightarrow> rdma_sweep rc rc'"

lemma rdma_rep_fun: "rdma_rep rc fs bs \<Longrightarrow> rdma_rep rc fs' bs' \<Longrightarrow> fs' = fs \<and> bs' = bs"
  by (auto simp: rdma_rep_def dest: chain_fun)

lemma rdma_sweep_rep:
  assumes "rdma_rep rc fs bs" "rdma_sweep rc rc'"
  shows "\<exists>fs' bs'. rdma_rep rc' fs' bs' \<and> set fs' \<union> set bs' = set fs \<union> set bs"
  using assms(2)
proof cases
  case (rdma_sweep_poll cb hs fs1 bs1 n "is" conns na mu st)
  with rdma_rep_fun[OF assms(1)] have "fs1 = fs" "bs1 = bs" by auto
  with rdma_poll_rdma_counter_total[of rc fs bs cb hs n "is" conns na mu] rdma_sweep_poll show ?thesis by auto
next
  case (rdma_sweep_flush cb calls)
  with flush_rdma_counter_reqid_total[OF assms(1), of cb] obtain fs' bs' where
    "rdma_rep rc' (bs @ fs') bs'" "set fs' \<union> set bs' = set fs" by auto
  then show ?thesis by (intro exI[of _ "bs @ fs'"] exI[of _ bs']) auto
qed

interpretation rdma: object_pool allocate_rdma_object "\<lambda>x (_ :: unit). free_rdma_obj x"
  "\<lambda>x (_ :: unit). release_rdma_obj_to_poll x" rdma_sweep rdma_rep
proof unfold_locales
  show "rdma_rep s fs bs \<Longrightarrow> distinct (fs @ bs)" for s fs bs by (simp add: rdma_rep_def)
qed (auto simp: allocate_rdma_object_Nil allocate_rdma_object_Cons free_rdma_obj_rep
  release_rdma_obj_to_poll_rep rdma_sweep_rep)

section \<open>The layout computed at initialisation\<close>

lemma section_loop_total:
  assumes "need \<le> 2 ^ m" "k \<le> m" "m < 64"
  shows "\<exists>j. k \<le> j \<and> j \<le> m \<and> section_loop need (2 ^ k) = Some (2 ^ j) \<and> need \<le> 2 ^ j \<and>
    (k < j \<longrightarrow> \<not> need \<le> (2 :: u64) ^ (j - 1))"
  using assms
proof (induction "m - k" arbitrary: k)
  case 0
  then have "k = m" by simp
  with 0 have "\<not> 2 ^ k < need" by (simp add: not_less)
  then have "section_loop need (2 ^ k) = Some (2 ^ k)" by (subst section_loop.simps) (simp only: if_False)
  with 0 \<open>k = m\<close> show ?case by (intro exI[of _ k]) simp
next
  case (Suc d)
  show ?case
  proof (cases "need \<le> 2 ^ k")
    case True
    then have "\<not> 2 ^ k < need" by (simp add: not_less)
    then have "section_loop need (2 ^ k) = Some (2 ^ k)" by (subst section_loop.simps) (simp only: if_False)
    with Suc True show ?thesis by (intro exI[of _ k]) simp
  next
    case False
    have "push_bit 1 (2 ^ k :: u64) = 2 ^ Suc k" by (simp only: push_bit_eq_mult power_Suc mult.commute power_one_right)
    with False have e: "section_loop need (2 ^ k) = section_loop need (2 ^ Suc k)"
      by (subst section_loop.simps) (simp only: not_le if_True)
    have "d = m - Suc k" "Suc k \<le> m" using Suc by linarith+
    from Suc.hyps(1)[OF this(1) Suc.prems(1) this(2) Suc.prems(3)] obtain j where
      j: "Suc k \<le> j" "j \<le> m" "section_loop need (2 ^ Suc k) = Some (2 ^ j)" "need \<le> 2 ^ j"
        "Suc k < j \<longrightarrow> \<not> need \<le> (2 :: u64) ^ (j - 1)" by blast
    have "\<not> need \<le> (2 :: u64) ^ (j - 1)"
    proof (cases "Suc k < j")
      case False
      with j(1) have "j - 1 = k" by simp
      with \<open>\<not> need \<le> 2 ^ k\<close> show ?thesis by simp
    qed (use j(5) in simp)
    with j e show ?thesis by (intro exI[of _ j]) simp
  qed
qed

lemma rdma_obj_entry_fold:
  "nxt (ro_links (fold rdma_obj_entry [0..<n] rc)) i = (if i < n then Some (i + 1) else nxt (ro_links rc) i)"
  "rdma_free_list (fold rdma_obj_entry [0..<n] rc) = rdma_free_list rc"
  "counter_list (fold rdma_obj_entry [0..<n] rc) = counter_list rc"
  "base_pa (fold rdma_obj_entry [0..<n] rc) = base_pa rc" "base_va (fold rdma_obj_entry [0..<n] rc) = base_va rc"
  "num_obj (fold rdma_obj_entry [0..<n] rc) = num_obj rc"
  by (induction n) (auto simp: rdma_obj_entry_def)

lemma rdma_obj_entry_fold_bcast:
  "rdma_bcast_controls_offset (fold rdma_obj_entry [0..<n] rc) = rdma_bcast_controls_offset rc"
  by (induction n) (auto simp: rdma_obj_entry_def)

lemma rdma_obj_entry_fold_pa:
  "i < n \<Longrightarrow> rdma_object_pa (ro_nodes (fold rdma_obj_entry [0..<n] rc) i) = base_pa rc + of_nat i * 16"
  by (induction n) (auto simp: rdma_obj_entry_def rdma_obj_entry_fold less_Suc_eq)

lemma rdma_obj_init_free:
  assumes "0 < num_obj rc"
  shows "rdma_rep (rdma_obj_init rc) [0..<num_obj rc] []"
    and "i < num_obj rc \<Longrightarrow> rdma_object_pa (ro_nodes (rdma_obj_init rc) i) = base_pa rc + of_nat i * 16"
    and "base_pa (rdma_obj_init rc) = base_pa rc" "base_va (rdma_obj_init rc) = base_va rc"
    and "num_obj (rdma_obj_init rc) = num_obj rc"
proof -
  let ?rc = "rdma_obj_init rc"
  have n: "nxt (ro_links ?rc) (0 + i) = (if Suc i < num_obj rc then Some (0 + Suc i) else None)"
    if "i < num_obj rc" for i
    using that by (auto simp: rdma_obj_init_def Let_def rdma_obj_entry_fold)
  have "chain (nxt (ro_links ?rc)) (Some 0) [0..<0 + num_obj rc] None"
    by (rule chain_upt) (use n assms in simp_all)
  then show "rdma_rep ?rc [0..<num_obj rc] []"
    by (simp add: rdma_rep_def rdma_obj_init_def Let_def rdma_obj_entry_fold)
  show "i < num_obj rc \<Longrightarrow> rdma_object_pa (ro_nodes ?rc i) = base_pa rc + of_nat i * 16"
    using rdma_obj_entry_fold_pa[of i "num_obj rc" "rc\<lparr>rdma_free_list := Some 0, counter_list := None\<rparr>"]
    by (simp add: rdma_obj_init_def Let_def)
  show "base_pa ?rc = base_pa rc" "base_va ?rc = base_va rc" "num_obj ?rc = num_obj rc"
    by (simp_all add: rdma_obj_init_def Let_def rdma_obj_entry_fold)
qed

text \<open>Rounding a physical address up to a power of two.\<close>

lemma round_up_block:
  fixes a :: u64
  assumes "k < 63" "unat a + 2 ^ Suc k \<le> 2 ^ 64"
  defines "low \<equiv> 2 ^ k - 1 :: u64"
  defines "pa \<equiv> (if a AND low \<noteq> 0 then (a + 2 ^ k) AND (low XOR (-1)) else a)"
  shows "2 ^ k dvd unat pa" "unat a \<le> unat pa" "unat pa < unat a + 2 ^ k"
proof -
  have low: "low = mask k" by (simp add: low_def mask_eq_exp_minus_1)
  have m: "unat (x AND low) = unat x mod 2 ^ k" for x :: u64
  proof -
    have "x AND low = take_bit k x" unfolding low by (simp only: take_bit_eq_mask)
    moreover have "unat (take_bit k x) = take_bit k (unat x)" using assms(1) by (simp add: unsigned_take_bit_eq)
    ultimately show ?thesis by (simp only: take_bit_nat_def)
  qed
  have nm: "x AND (low XOR (-1)) = x - (x AND low)" for x :: u64
  proof -
    have "low XOR (-1) = NOT low" by simp
    moreover have "(x AND NOT low) + (x AND low) = (x AND NOT low) OR (x AND low)"
      by (rule disjunctive_add_eq_or) (auto simp: bit_eq_iff bit_simps)
    moreover have "(x AND NOT low) OR (x AND low) = x" by (auto simp: bit_eq_iff bit_simps)
    ultimately show ?thesis by (simp add: algebra_simps)
  qed
  have z: "a AND low \<noteq> 0 \<longleftrightarrow> unat a mod 2 ^ k \<noteq> 0" using m[of a] by (metis unat_0 unat_eq_0)
  have k64: "(2 :: nat) ^ k < 2 ^ 64" using assms(1) by (intro power_strict_increasing) simp_all
  show "2 ^ k dvd unat pa" "unat a \<le> unat pa" "unat pa < unat a + 2 ^ k"
  proof -
    have "2 ^ k dvd unat pa \<and> unat a \<le> unat pa \<and> unat pa < unat a + 2 ^ k"
    proof (cases "a AND low \<noteq> 0")
      case False
      with z show ?thesis by (simp add: pa_def mod_eq_0_iff_dvd)
    next
      case True
      have u2: "unat (2 ^ k :: u64) = 2 ^ k" using k64 unat_of_nat_u64[of "2 ^ k"] by simp
      have "unat a + 2 ^ k < 2 ^ 64"
      proof -
        have "(0 :: nat) < 2 ^ k" by simp
        with assms(2) show ?thesis unfolding power_Suc by linarith
      qed
      then have s: "unat (a + 2 ^ k) = unat a + 2 ^ k" using u2 by (simp add: unat_word_ariths(1))
      have e: "unat pa = (unat a + 2 ^ k) - (unat a + 2 ^ k) mod 2 ^ k"
      proof -
        have "unat pa = unat ((a + 2 ^ k) - ((a + 2 ^ k) AND low))" using True by (simp only: pa_def nm if_True not_False_eq_True simp_thms)
        also have "\<dots> = unat (a + 2 ^ k) - unat ((a + 2 ^ k) AND low)"
          by (rule unat_sub) (simp add: word_and_le2)
        finally show ?thesis by (simp only: m s)
      qed
      have r: "unat a mod 2 ^ k < 2 ^ k" "0 < unat a mod 2 ^ k" using True z by auto
      have "(unat a + 2 ^ k) mod 2 ^ k = unat a mod 2 ^ k" by simp
      then have "unat pa = unat a + 2 ^ k - unat a mod 2 ^ k" using e by simp
      moreover have "2 ^ k dvd (unat a + 2 ^ k) - (unat a + 2 ^ k) mod 2 ^ k" by (rule dvd_minus_mod)
      ultimately have "2 ^ k dvd unat pa" "unat pa = unat a + 2 ^ k - unat a mod 2 ^ k" by simp_all
      then show ?thesis using r by (intro conjI) (assumption | linarith)+
    qed
    then show "2 ^ k dvd unat pa" "unat a \<le> unat pa" "unat pa < unat a + 2 ^ k" by auto
  qed
qed

section \<open>Properties\<close>

text \<open>
  A pool of two objects, the second posted with request 77 and a peer at \<^verbatim>\<open>0x8000\<close>, whose counter
  the message unit takes to zero, for the examples.
\<close>

definition demo_rdma :: rdma_obj_controls where
  "demo_rdma = release_rdma_obj_to_poll 1 (set_rdma_obj 1 64 77 0x8000 0
     \<lparr>num_obj = 2, rdma_freed_count = 0, rdma_allocated_count = 0, base_pa = 0, base_va = 0,
      compare_area_size = 2048, ro_links = \<lparr>nxt = (\<lambda>_. None), prv = (\<lambda>_. None)\<rparr>,
      ro_nodes = (\<lambda>_. \<lparr>remote_rdma_obj_pa = 0, rdma_object_pa = 0, local_request_id = 0, local_connect = 0\<rparr>),
      mues = (\<lambda>_. \<lparr>mu_counter = 0, mu_error = 0\<rparr>), rdma_free_list = Some 0, counter_list = None,
      rdma_bcast_controls_offset = 0\<rparr>)"

lemma demo_rdma_rep: "rdma_rep demo_rdma [0] [1]"
  by (simp add: demo_rdma_def rdma_rep_def set_rdma_obj_def release_rdma_obj_to_poll_def link_push2_def Let_def)

lemma demo_rdma_node: "ro_nodes demo_rdma (Suc 0) =
    \<lparr>remote_rdma_obj_pa = 0x8000, rdma_object_pa = 0, local_request_id = 77, local_connect = 0\<rparr>"
  by (simp add: demo_rdma_def set_rdma_obj_def release_rdma_obj_to_poll_def)

text \<open>
  C2: a poll of the RDMA objects reports and notifies every finished transfer exactly once.  For
  any pool, message unit activity and well-behaved status callback, \<^verbatim>\<open>rdma_poll_rdma_counter\<close> ends
  without an error; the callback's arguments, put together, are the requests of the posted
  objects whose counter is zero or whose error word is set, in list order and with their error,
  in batches of one to eight; each finished object with a remote counter causes exactly one
  direct put, on the link of its connection; the count of pending objects is that of the
  unfinished ones; and no object is lost or duplicated.
\<close>

theorem rdma_poll_reports_and_notifies:
  assumes "rdma_rep rc fs bs" "rcb_ok cb" "hws_live hs" "links_room n (length bs) is"
    "\<forall>x \<in> set bs. notice_ok conns (ro_nodes rc x)"
  shows "\<exists>st' fs' bs'. rdma_poll_rdma_counter hs na conns mu cb is rc = Some (Inr st') \<and>
    rdma_rep (rp_pool st') fs' bs' \<and> set fs' \<union> set bs' = set fs \<union> set bs \<and>
    concat (rp_calls st') = concat (map (rdma_ref mu rc) bs) \<and>
    (\<forall>c \<in> set (rp_calls st'). c \<noteq> [] \<and> length c \<le> NUM_REFID) \<and>
    rp_pending st' = of_nat (length (rdma_open mu rc bs)) \<and>
    (\<forall>l. ctl_log (rp_inj st' l) = ctl_log (is l) @ concat (map (rdma_notice na conns mu rc l) bs))"
  by (rule rdma_poll_rdma_counter_total[OF assms])

theorem rdma_poll_reports_and_notifies_witness:
  "\<exists>st' d. rdma_poll_rdma_counter demo_hws \<lparr>rdma_EINVAL_source_pa = 8, rdma_GOOD_source_pa = 16\<rparr> (\<lambda>_. demo_conn)
      (\<lambda>_ e. e\<lparr>mu_counter := 0\<rparr>) (\<lambda>_ rc. rc) demo_injs demo_rdma = Some (Inr st') \<and>
    concat (rp_calls st') = [(77, 0)] \<and> ctl_log (rp_inj st' 0) = [DirectPutDesc d] \<and> Pa_Payload d = 16"
proof -
  let ?na = "\<lparr>rdma_EINVAL_source_pa = 8, rdma_GOOD_source_pa = 16\<rparr>" and ?mu = "\<lambda>(_ :: nat) e. e\<lparr>mu_counter := 0\<rparr>"
  let ?conns = "\<lambda>_ :: nat. demo_conn"
  have m: "mues demo_rdma (Suc 0) = \<lparr>mu_counter = 64, mu_error = 0\<rparr>"
    by (simp add: demo_rdma_def set_rdma_obj_def release_rdma_obj_to_poll_def)
  have ok: "\<forall>x \<in> set [1]. notice_ok ?conns (ro_nodes demo_rdma x)"
    by (simp add: notice_ok_def demo_rdma_node conn_magic_ok_def demo_conn_def)
  have r: "concat (map (rdma_ref ?mu demo_rdma) [1]) = [(77, 0)]"
    using m by (simp add: rdma_ref_def demo_rdma_node rdma_done_def)
  obtain d where d: "patch_directput 8 16 (0x8000 + 8) 0x8000 (mu_iDirectPutDescriptor demo_conn) = Some d"
    "Pa_Payload d = 16"
    by (simp add: patch_directput_def set_counter_directput_def set_dma_directput_def)
  have nt: "concat (map (rdma_notice ?na ?conns ?mu demo_rdma 0) [1]) = [DirectPutDesc d]"
    using m d(1) by (simp add: rdma_notice_def demo_rdma_node rdma_done_def Let_def) (simp add: demo_conn_def)
  have "ctl_log (demo_injs 0) = []" by (simp add: demo_injs_def ctl_log_def demo_fifo_def)
  with rdma_poll_reports_and_notifies[OF demo_rdma_rep rcb_ok_id demo_hws_live demo_injs_room ok, of ?na ?mu]
  show ?thesis unfolding r using nt d(2) by auto
qed

text \<open>
  A flush cancels every outstanding RDMA request exactly once.  \<^verbatim>\<open>flush_rdma_counter_reqid\<close>
  ends, reports \<^verbatim>\<open>-ECANCELED\<close> once for each posted object that carries a request, in list order,
  clears the counters and requests, and gives all posted objects back to the free list.
\<close>

theorem flush_rdma_cancels:
  assumes "rdma_rep rc fs bs" "rcb_ok cb"
  shows "\<exists>rc' fs' bs'. flush_rdma_counter_reqid cb rc =
      Some (map (\<lambda>x. (local_request_id (ro_nodes rc x), word_of_int (-125)))
              (filter (\<lambda>x. local_request_id (ro_nodes rc x) \<noteq> 0) bs), rc') \<and>
    rdma_rep rc' (bs @ fs') bs' \<and> set fs' \<union> set bs' = set fs \<and>
    (\<forall>x \<in> set bs. local_request_id (ro_nodes rc' x) = 0 \<and> mu_counter (mues rc' x) = 0)"
proof -
  have "concat (map (rdma_flush_ref rc) bs) =
      map (\<lambda>x. (local_request_id (ro_nodes rc x), word_of_int (-125)))
        (filter (\<lambda>x. local_request_id (ro_nodes rc x) \<noteq> 0) bs)"
    by (induction bs) (simp_all add: rdma_flush_ref_def)
  with flush_rdma_counter_reqid_total[OF assms] show ?thesis by simp
qed

theorem flush_rdma_cancels_witness:
  "\<exists>rc' fs' bs'. flush_rdma_counter_reqid (\<lambda>_ rc. rc) demo_rdma = Some ([(77, word_of_int (-125))], rc') \<and>
     rdma_rep rc' (1 # fs') bs' \<and> mu_counter (mues rc' 1) = 0"
proof -
  have e: "filter (\<lambda>x. local_request_id (ro_nodes demo_rdma x) \<noteq> 0) [1] = [1]"
    "local_request_id (ro_nodes demo_rdma 1) = 77"
    by (simp_all add: demo_rdma_node)
  show ?thesis using flush_rdma_cancels[OF demo_rdma_rep rcb_ok_id] e by auto
qed



text \<open>
  C39: the size of the compare block is always found and always right.  For every number of
  connections and links \<^verbatim>\<open>compute_rdma_section_size\<close> ends; the size is a power of two from
  \<open>2 ^ 11\<close> to \<open>2 ^ 36\<close>, the smallest that holds the wanted number of elements, and there is
  room behind the counters for the element reserved for the control bytes.
\<close>

theorem compute_rdma_section_size_minimal:
  "\<exists>j n. compute_rdma_section_size maxc links = Some (2 ^ j, n) \<and> 11 \<le> j \<and> j \<le> 36 \<and>
     16 * unat n + 16 \<le> 2 ^ j \<and>
     (let w = max 128 (unat ((if links > 1 then 2 else 4) * maxc))
      in (unat n = w \<or> unat n = w - 1) \<and> (j = 11 \<or> 2 ^ (j - 1) < 16 * w))"
proof -
  define p where "p = (if links > 1 then 2 else 4) * maxc"
  define n :: u64 where "n = (if ucast p < (128 :: u64) then 128 else ucast p)"
  have up: "unat (ucast p :: u64) = unat p" 
  proof -
    have "unat p < 2 ^ 64" by (rule order.strict_trans2[OF unsigned_less]) simp
    then show ?thesis by (simp add: unsigned_ucast_eq take_bit_nat_eq_self)
  qed
  have un: "unat n = max 128 (unat p)" using up by (auto simp: n_def word_less_nat_alt)
  have "unat p < 2 ^ 32" by (rule order.strict_trans2[OF unsigned_less]) simp
  then have b: "unat n < 2 ^ 32" using un by simp
  then have u16: "unat (n * 16) = unat n * 16"
    using unat_mult_lem[of n 16] by simp
  have "n * 16 \<le> 2 ^ 36" using b u16 by (simp add: word_le_nat_alt)
  from section_loop_total[OF this, of 11] obtain j where
    j: "11 \<le> j" "j \<le> 36" "section_loop (n * 16) (2 ^ 11) = Some (2 ^ j)" "n * 16 \<le> 2 ^ j"
      "11 < j \<longrightarrow> \<not> n * 16 \<le> (2 :: u64) ^ (j - 1)" by auto
  have u2: "unat (2 ^ i :: u64) = 2 ^ i" if "i \<le> 36" for i
  proof -
    have "(2 :: nat) ^ i \<le> 2 ^ 36" using that by (intro power_increasing) auto
    then show ?thesis using unat_of_nat_u64[of "2 ^ i"] by simp
  qed
  let ?n' = "if 2 ^ j = n * 16 then n - 1 else n"
  have "2048 = (2 :: u64) ^ 11" by simp
  with j(3) have s: "section_loop (n * 16) 2048 = Some (2 ^ j)" by (simp only:)
  have e: "compute_rdma_section_size maxc links = Some (2 ^ j, ?n')"
    unfolding compute_rdma_section_size_def Let_def p_def[symmetric] n_def[symmetric] s by (simp only: option.map)
  have le: "unat n * 16 \<le> 2 ^ j" using j(4) u16 u2[OF j(2)] by (simp add: word_le_nat_alt)
  have n1: "unat (n - 1) = unat n - 1" using un by (intro unat_minus_one) auto
  have room: "16 * unat ?n' + 16 \<le> 2 ^ j"
  proof (cases "2 ^ j = n * 16")
    case True
    then have "unat n * 16 = 2 ^ j" using u16 u2[OF j(2)] by simp
    moreover have "1 \<le> unat n" using un by simp
    ultimately show ?thesis using True n1 by simp
  next
    case False
    then have "unat n * 16 \<noteq> 2 ^ j" using u16 u2[OF j(2)] by (metis unsigned_word_eqI)
    moreover have "(16 :: nat) dvd 2 ^ j" using j(1) le_imp_power_dvd[of 4 j "2 :: nat"] by simp
    ultimately show ?thesis using le False by (auto elim!: dvdE)
  qed
  have "j = 11 \<or> 2 ^ (j - 1) < 16 * unat n"
    using j(1,2,5) u16 u2[of "j - 1"] by (auto simp: word_le_nat_alt)
  moreover have "unat ?n' = unat n \<or> unat ?n' = unat n - 1" using n1 by simp
  ultimately show ?thesis using e j(1,2) room un unfolding p_def[symmetric] Let_def by metis
qed

text \<open>
  The counters of a link lie in an aligned block whose physical and virtual addresses agree.
  With a compare block size of \<open>2 ^ k\<close> and an allocated region of twice that size, the block
  starts at a multiple of its size inside the region, at the same offset physically and virtually;
  the free list holds every object once; and counter \<open>i\<close> of the block, whose address the object
  carries, lies in the block, as does the element of the control bytes.
\<close>

theorem rdma_init_link_layout:
  assumes "k < 63" "unat (base_paddr r) + 2 ^ Suc k \<le> 2 ^ 64" "16 * unat num + 16 \<le> 2 ^ k" "1 < unat num"
    and "rdma_init_link (2 ^ k) r num 0 rc = (num', off', pa, msk, rc')"
  shows "2 ^ k dvd unat pa \<and> unat (base_paddr r) \<le> unat pa \<and> unat pa + 2 ^ k \<le> unat (base_paddr r) + 2 ^ Suc k \<and>
    base_pa rc' = pa \<and> base_va rc' - base_vaddr r = pa - base_paddr r \<and>
    rdma_rep rc' [0..<unat num - 1] [] \<and>
    (\<forall>i < unat num - 1. unat (rdma_object_pa (ro_nodes rc' i)) = unat pa + 16 * i) \<and>
    unat (rdma_bcast_controls_offset rc') = 16 * (unat num - 1)"
proof -
  let ?low = "2 ^ k - 1 :: u64"
  have pa: "pa = (if base_paddr r AND ?low \<noteq> 0 then (base_paddr r + 2 ^ k) AND (?low XOR (-1)) else base_paddr r)"
    and n': "num' = num - 1" using assms(5) by (auto simp: rdma_init_link_def Let_def)
  define rc1 where "rc1 = rc\<lparr>base_va := base_vaddr r + (pa - base_paddr r), rdma_bcast_controls_offset := num' * 16,
                   num_obj := unat num', base_pa := pa, compare_area_size := 2 ^ k\<rparr>"
  have rc': "rc' = rdma_obj_init rc1"
    using assms(5) unfolding rc1_def pa n' by (auto simp: rdma_init_link_def Let_def)
  note B = round_up_block[OF assms(1,2), folded pa]
  have un: "unat num' = unat num - 1" using assms(4) unfolding n' by (intro unat_minus_one) auto
  have f: "num_obj rc1 = unat num - 1" "0 < num_obj rc1" "base_pa rc1 = pa"
    "base_va rc1 = base_vaddr r + (pa - base_paddr r)" "rdma_bcast_controls_offset rc1 = num' * 16"
    using assms(4) un by (simp_all add: rc1_def)
  note I = rdma_obj_init_free[OF f(2)]
  have nw: "unat pa + 2 ^ k \<le> 2 ^ 64" using B(3) assms(2) by simp
  have el: "unat (pa + of_nat i * 16) = unat pa + 16 * i" if "i < unat num - 1" for i
  proof -
    have lt: "unat pa + 16 * i < 2 ^ 64" using that assms(3) nw by linarith
    then have "unat (of_nat (unat pa + 16 * i) :: u64) = unat pa + 16 * i" by (rule unat_of_nat_u64)
    moreover have "of_nat (unat pa + 16 * i) = pa + of_nat i * 16" by (simp add: mult.commute)
    ultimately show ?thesis by (simp only:)
  qed
  have "rdma_bcast_controls_offset rc' = num' * 16"
    unfolding rc' using f(5) by (simp add: rdma_obj_init_def Let_def rdma_obj_entry_fold_bcast)
  moreover have "unat (num' * 16) = 16 * (unat num - 1)"
  proof -
    have "16 * unat num' < 2 ^ 64" using assms(3) nw un by linarith
    then have "unat (of_nat (16 * unat num') :: u64) = 16 * unat num'" by (rule unat_of_nat_u64)
    moreover have "of_nat (16 * unat num') = num' * 16" by (simp add: mult.commute)
    ultimately show ?thesis using un by (simp only:)
  qed
  moreover have "unat pa + 2 ^ k \<le> unat (base_paddr r) + 2 ^ Suc k" using B(3) by simp
  ultimately show ?thesis using B(1,2) I f el unfolding rc' by simp
qed

theorem rdma_init_link_layout_witness:
  "\<exists>num' off' msk rc'. rdma_init_link (2 ^ 11) \<lparr>region_length = 0x4000, base_vaddr = 0xC0001400, base_paddr = 0x1400\<rparr>
      127 0 demo_rdma = (num', off', 0x1800, msk, rc') \<and> base_va rc' = 0xC0001800 \<and>
     rdma_rep rc' [0..<126] [] \<and> unat (rdma_object_pa (ro_nodes rc' 5)) = 0x1850"
proof -
  let ?r = "\<lparr>region_length = 0x4000, base_vaddr = 0xC0001400, base_paddr = 0x1400\<rparr>"
  obtain num' off' pa msk rc' where e: "rdma_init_link (2 ^ 11) ?r 127 0 demo_rdma = (num', off', pa, msk, rc')"
    by (rule prod_cases5)
  have pa: "pa = 0x1800" using e by (simp add: rdma_init_link_def Let_def)
  note L = rdma_init_link_layout[OF _ _ _ _ e, simplified]
  from L have 1: "base_va rc' - 0xC0001400 = pa - 0x1400" "rdma_rep rc' [0..<126] []"
    "\<forall>i < 126. unat (rdma_object_pa (ro_nodes rc' i)) = unat pa + 16 * i" by auto
  from 1(1) pa have "base_va rc' = 0x400 + 0xC0001400" by (simp add: diff_eq_eq)
  with e 1(2,3) pa show ?thesis by simp
qed

text \<open>
  The second link of \<^verbatim>\<open>rdma_init\<close> can be laid out wrongly.  The offset of the compare block
  in its region is not reset from one link to the next: when the first region needs an adjustment
  and the second is aligned, the second link's counters get physical addresses from the start of
  its region but virtual addresses behind the first link's offset, so the software watches other
  words than those the message unit decrements.
\<close>

theorem rdma_init_stale_offset:
  assumes "rdma_init_link rss r1 num 0 rc1 = (num', off', pa1, msk1, rc1')"
    "rdma_init_link rss r2 num' off' rc2 = (num'', off'', pa2, msk2, rc2')"
    "base_paddr r1 AND (rss - 1) \<noteq> 0" "pa1 \<noteq> base_paddr r1" "base_paddr r2 AND (rss - 1) = 0"
  shows "base_pa rc2' = base_paddr r2 \<and> base_va rc2' \<noteq> base_vaddr r2 \<and>
    base_va rc2' - base_vaddr r2 = pa1 - base_paddr r1"
  using assms by (auto simp: rdma_init_link_def Let_def rdma_obj_init_def rdma_obj_entry_fold)

theorem rdma_init_stale_offset_witness:
  "\<exists>num' off' msk1 rc1' num'' off'' msk2 rc2'.
     rdma_init_link 2048 \<lparr>region_length = 0x4000, base_vaddr = 0xC0001400, base_paddr = 0x1400\<rparr> 127 0 demo_rdma =
       (num', off', 0x1800, msk1, rc1') \<and>
     rdma_init_link 2048 \<lparr>region_length = 0x4000, base_vaddr = 0xC0008000, base_paddr = 0x8000\<rparr> num' off' demo_rdma =
       (num'', off'', 0x8000, msk2, rc2') \<and>
     base_pa rc2' = 0x8000 \<and> base_va rc2' - 0xC0008000 = 0x400"
proof -
  let ?r1 = "\<lparr>region_length = 0x4000, base_vaddr = 0xC0001400, base_paddr = 0x1400\<rparr>"
  let ?r2 = "\<lparr>region_length = 0x4000, base_vaddr = 0xC0008000, base_paddr = 0x8000\<rparr>"
  obtain num' off' pa msk rc' where e: "rdma_init_link 2048 ?r1 127 0 demo_rdma = (num', off', pa, msk, rc')"
    by (rule prod_cases5)
  obtain num'' off'' pa2 msk2 rc2' where e2: "rdma_init_link 2048 ?r2 num' off' demo_rdma = (num'', off'', pa2, msk2, rc2')"
    by (rule prod_cases5)
  have pa: "pa = 0x1800" using e by (simp add: rdma_init_link_def Let_def)
  have pa2: "pa2 = 0x8000" using e2 by (simp add: rdma_init_link_def Let_def)
  from rdma_init_stale_offset[OF e e2] pa have "base_pa rc2' = 0x8000 \<and> base_va rc2' - 0xC0008000 = 0x400" by simp
  with e e2 pa pa2 show ?thesis by blast
qed

end
