(* ===== verification/Mudm_Conn_List.thy ===== *)
theory Mudm_Conn_List
  imports Mudm_Types Mudm_Alloc
begin

text \<open>
  The lists of connection blocks: \<^verbatim>\<open>conn_list_init\<close>, \<^verbatim>\<open>put_on_pending_list\<close>,
  \<^verbatim>\<open>conn_list_getfree\<close>, \<^verbatim>\<open>connection_activate\<close> and \<^verbatim>\<open>connection_free\<close> of
  \<^verbatim>\<open>bgmudm/mudm_connect.c\<close>, and \<^verbatim>\<open>disable_active_connection_list\<close> and
  \<^verbatim>\<open>disable_pending_connection_list\<close> of \<^verbatim>\<open>bgmudm/mudm_cleanup.c\<close>.  Every block is on at most one
  of the free list and, per IO link, the pending, active and abort lists.  A dereference of a
  \<^verbatim>\<open>NULL\<close> list pointer is the result \<open>None\<close>.
\<close>

section \<open>State\<close>

record conn_table =
  conns :: "nat \<Rightarrow> mudm_connection"
  clinks :: links
  conn_freelist :: ptr
  conn_pendlist :: "nat \<Rightarrow> ptr"
  conn_activelist :: "nat \<Rightarrow> ptr"
  conn_abortlist :: "nat \<Rightarrow> ptr"

definition upd_conn ::
  "nat \<Rightarrow> (mudm_connection \<Rightarrow> mudm_connection) \<Rightarrow> 'a conn_table_scheme \<Rightarrow> 'a conn_table_scheme" where
  "upd_conn x f ct = ct\<lparr>conns := (conns ct)(x := f (conns ct x))\<rparr>"

text \<open>
  Unlinking a block from its neighbours, as \<^verbatim>\<open>connection_activate\<close> and \<^verbatim>\<open>connection_free\<close> both do:
  \<^verbatim>\<open>if (x->next) x->next->prev = x->prev; if (x->prev) x->prev->next = x->next\<close>.
\<close>

definition link_unlink :: "nat \<Rightarrow> links \<Rightarrow> links" where
  "link_unlink x L =
     (let L1 = (case nxt L x of None \<Rightarrow> L | Some m \<Rightarrow> L\<lparr>prv := (prv L)(m := prv L x)\<rparr>)
      in case prv L1 x of None \<Rightarrow> L1 | Some q \<Rightarrow> L1\<lparr>nxt := (nxt L1)(q := nxt L1 x)\<rparr>)"

section \<open>Operations\<close>

definition conn_list_entry :: "nat \<Rightarrow> 'a conn_table_scheme \<Rightarrow> 'a conn_table_scheme" where
  "conn_list_entry i ct =
     (upd_conn i (\<lambda>c. c\<lparr>my_index := of_nat i, cstate := CONN_FREE\<rparr>) ct)
       \<lparr>clinks := \<lparr>nxt = (nxt (clinks ct))(i := Some (i + 1)), prv = (prv (clinks ct))(i := None)\<rparr>\<rparr>"

text \<open>
  \<open>sz\<close> is \<^verbatim>\<open>sizeof(struct mudm_connection)\<close>.  With no connections the last write goes in front of
  the array: \<open>None\<close>.
\<close>

definition conn_list_init ::
  "allocate_cb \<Rightarrow> u64 \<Rightarrow> nat \<Rightarrow> cleanup \<Rightarrow> 'a conn_table_scheme \<Rightarrow> (ret \<times> cleanup \<times> 'a conn_table_scheme) option" where
  "conn_list_init alloc sz max_connections cl ct =
     (let ct1 = ct\<lparr>conn_freelist := None, conn_pendlist := (\<lambda>_. None), conn_activelist := (\<lambda>_. None),
                   conn_abortlist := (\<lambda>_. None)\<rparr>
      in case alloc_object alloc (of_nat max_connections * sz) None CF_free_mem cl of
           (Inl e, cl1) \<Rightarrow> Some (RetErr e, cl1, ct1)
         | (Inr r, cl1) \<Rightarrow>
             if max_connections = 0 then None
             else (let ct2 = fold conn_list_entry [0..<max_connections] (ct1\<lparr>conn_freelist := Some 0\<rparr>)
                   in Some (RetOK, cl1, ct2\<lparr>clinks := (clinks ct2)
                        \<lparr>nxt := (nxt (clinks ct2))(max_connections - 1 := None)\<rparr>\<rparr>)))"

definition put_on_pending_list :: "nat \<Rightarrow> nat \<Rightarrow> 'a conn_table_scheme \<Rightarrow> 'a conn_table_scheme" where
  "put_on_pending_list x LINK_INDEX ct =
     (upd_conn x (\<lambda>c. c\<lparr>pendlist_of := Some LINK_INDEX, cstate := CONN_PENDING\<rparr>) ct)
       \<lparr>clinks := link_push2 x (conn_pendlist ct LINK_INDEX) (clinks ct),
        conn_pendlist := (conn_pendlist ct)(LINK_INDEX := Some x)\<rparr>"

text \<open>\<open>now\<close> is the time stamp the flight recorder macro returns.\<close>

definition conn_list_getfree :: "u64 \<Rightarrow> 'a conn_table_scheme \<Rightarrow> ptr \<times> 'a conn_table_scheme" where
  "conn_list_getfree now ct =
     (case conn_freelist ct of
        None \<Rightarrow> (None, ct)
      | Some x \<Rightarrow>
         (Some x, (upd_conn x (\<lambda>c. c\<lparr>my_timestamp := now, lowbit_timestamp := ucast now, cmagic := CONN_MAGIC,
                       memfifo_sent := 0, rget_memfifo_sent := 0, injfifo_of := 0\<rparr>) ct)
              \<lparr>conn_freelist := nxt (clinks ct) x,
               clinks := \<lparr>nxt = (nxt (clinks ct))(x := None), prv = (prv (clinks ct))(x := None)\<rparr>\<rparr>))"

definition connection_activate :: "nat \<Rightarrow> 'a conn_table_scheme \<Rightarrow> 'a conn_table_scheme option" where
  "connection_activate x ct =
     (case (activelist_of (conns ct x), pendlist_of (conns ct x)) of
        (Some al, Some pl) \<Rightarrow>
          (let L1 = link_unlink x (clinks ct);
               pend1 = (if conn_pendlist ct pl = Some x then (conn_pendlist ct)(pl := nxt L1 x) else conn_pendlist ct)
           in Some ((upd_conn x (\<lambda>c. c\<lparr>cstate := CONN_ACTIVE\<rparr>) ct)
                 \<lparr>conn_pendlist := pend1,
                  clinks := \<lparr>nxt = (nxt L1)(x := conn_activelist ct al),
                             prv = (case conn_activelist ct al of None \<Rightarrow> prv L1 | Some h \<Rightarrow> (prv L1)(h := Some x))(x := None)\<rparr>,
                  conn_activelist := (conn_activelist ct)(al := Some x)\<rparr>))
      | _ \<Rightarrow> None)"

text \<open>
  The head pointers that \<^verbatim>\<open>connection_free\<close> corrects for a block without a predecessor.  The test
  of each list is reached only if the ones before it fail, and dereferences the list pointer; in
  the last case the code stores into \<^verbatim>\<open>*pendlist\<close>.
\<close>

definition free_heads :: "nat \<Rightarrow> ptr \<Rightarrow> 'a conn_table_scheme \<Rightarrow> 'a conn_table_scheme option" where
  "free_heads x nx ct =
     (let c = conns ct x in
      case activelist_of c of None \<Rightarrow> None | Some al \<Rightarrow>
        if conn_activelist ct al = Some x then Some (ct\<lparr>conn_activelist := (conn_activelist ct)(al := nx)\<rparr>)
        else case pendlist_of c of None \<Rightarrow> None | Some pl \<Rightarrow>
          if conn_pendlist ct pl = Some x then Some (ct\<lparr>conn_pendlist := (conn_pendlist ct)(pl := nx)\<rparr>)
          else case abortlist_of c of None \<Rightarrow> None | Some bl \<Rightarrow>
            if conn_abortlist ct bl = Some x then Some (ct\<lparr>conn_pendlist := (conn_pendlist ct)(pl := nx)\<rparr>)
            else Some ct)"

definition connection_free :: "nat \<Rightarrow> 'a conn_table_scheme \<Rightarrow> (ret \<times> 'a conn_table_scheme) option" where
  "connection_free x ct =
     (if \<not> conn_magic_ok (conns ct x) then Some (RetErr EFAULT, ct)
      else
        let ct1 = upd_conn x (\<lambda>c. c\<lparr>cstate := CONN_FREE\<rparr>) ct;
            L1 = link_unlink x (clinks ct);
            heads = (if prv L1 x \<noteq> None then Some ct1 else free_heads x (nxt L1 x) ct1)
        in map_option (\<lambda>ct2.
             (RetOK, (upd_conn x (\<lambda>c. c\<lparr>cmagic := CONN_MAGIC\<rparr>) ct2)
                \<lparr>clinks := \<lparr>nxt = (nxt L1)(x := conn_freelist ct), prv = (prv L1)(x := None)\<rparr>,
                 conn_freelist := Some x\<rparr>)) heads)"

section \<open>Disabling the lists of a link\<close>

partial_function (option) disable_active_loop :: "ptr \<Rightarrow> 'a conn_table_scheme \<Rightarrow> 'a conn_table_scheme option" where
  "disable_active_loop p ct =
     (case p of None \<Rightarrow> Some ct
      | Some x \<Rightarrow> disable_active_loop (nxt (clinks ct) x)
          (upd_conn x (\<lambda>c. c\<lparr>cstate := CONN_DISCONNECTING, activelist_of := None\<rparr>) ct))"

definition disable_active_connection_list :: "nat \<Rightarrow> 'a conn_table_scheme \<Rightarrow> 'a conn_table_scheme option" where
  "disable_active_connection_list l ct = disable_active_loop (conn_activelist ct l) ct"

partial_function (option) disable_pending_loop ::
  "ptr \<Rightarrow> ptr \<Rightarrow> nat \<Rightarrow> 'a conn_table_scheme \<Rightarrow> (ptr \<times> nat \<times> 'a conn_table_scheme) option" where
  "disable_pending_loop p last_ccontext num ct =
     (case p of None \<Rightarrow> Some (last_ccontext, num, ct)
      | Some x \<Rightarrow> disable_pending_loop (nxt (clinks ct) x) (Some x) (num + 1)
          (upd_conn x (\<lambda>c. c\<lparr>cstate := CONN_ABORTED\<rparr>) ct))"

definition disable_pending_connection_list :: "nat \<Rightarrow> 'a conn_table_scheme \<Rightarrow> (nat \<times> 'a conn_table_scheme) option" where
  "disable_pending_connection_list l ct =
     map_option (\<lambda>(lst, num, ct1).
         (num, case lst of None \<Rightarrow> ct1
               | Some x \<Rightarrow> ct1\<lparr>clinks := link_splice lst (conn_abortlist ct1 l) (clinks ct1),
                              conn_abortlist := (conn_abortlist ct1)(l := conn_pendlist ct1 l),
                              conn_pendlist := (conn_pendlist ct1)(l := None)\<rparr>))
       (disable_pending_loop (conn_pendlist ct l) None 0 ct)"

section \<open>What the lists represent\<close>

datatype clist = LFree | LPend nat | LActive nat | LAbort nat

fun clist_head :: "'a conn_table_scheme \<Rightarrow> clist \<Rightarrow> ptr" where
  "clist_head ct LFree = conn_freelist ct"
| "clist_head ct (LPend l) = conn_pendlist ct l"
| "clist_head ct (LActive l) = conn_activelist ct l"
| "clist_head ct (LAbort l) = conn_abortlist ct l"

text \<open>\<open>ls c\<close> are the blocks of list \<open>c\<close>; all but the free list are doubly linked.\<close>

definition links_rep :: "links \<Rightarrow> (clist \<Rightarrow> ptr) \<Rightarrow> (clist \<Rightarrow> nat list) \<Rightarrow> bool" where
  "links_rep L h ls \<longleftrightarrow>
     (\<forall>c. chain (nxt L) (h c) (ls c) None \<and> distinct (ls c) \<and> (c \<noteq> LFree \<longrightarrow> backlinks (prv L) None (ls c))) \<and>
     (\<forall>c d. c \<noteq> d \<longrightarrow> set (ls c) \<inter> set (ls d) = {})"

definition conn_rep :: "'a conn_table_scheme \<Rightarrow> (clist \<Rightarrow> nat list) \<Rightarrow> bool" where
  "conn_rep ct ls \<longleftrightarrow> links_rep (clinks ct) (clist_head ct) ls"

definition conn_floats :: "(clist \<Rightarrow> nat list) \<Rightarrow> nat \<Rightarrow> bool" where
  "conn_floats ls x \<longleftrightarrow> (\<forall>c. x \<notin> set (ls c))"

lemma upd_conn_simps [simp]:
  "clinks (upd_conn x f ct) = clinks ct" "conn_freelist (upd_conn x f ct) = conn_freelist ct"
  "conn_pendlist (upd_conn x f ct) = conn_pendlist ct" "conn_activelist (upd_conn x f ct) = conn_activelist ct"
  "conn_abortlist (upd_conn x f ct) = conn_abortlist ct" "clist_head (upd_conn x f ct) c = clist_head ct c"
  "conns (upd_conn x f ct) y = (if y = x then f (conns ct x) else conns ct y)"
  "conn_table.more (upd_conn x f ct) = conn_table.more ct"
  by (cases c; simp add: upd_conn_def)+

lemma clist_head_clinks [simp]: "clist_head (ct\<lparr>clinks := L\<rparr>) c = clist_head ct c"
  by (cases c) simp_all

lemma clist_head_upd:
  "clist_head (ct\<lparr>conn_pendlist := f\<rparr>) = (\<lambda>c. case c of LPend l \<Rightarrow> f l | _ \<Rightarrow> clist_head ct c)"
  "clist_head (ct\<lparr>conn_activelist := f\<rparr>) = (\<lambda>c. case c of LActive l \<Rightarrow> f l | _ \<Rightarrow> clist_head ct c)"
  "clist_head (ct\<lparr>conn_abortlist := f\<rparr>) = (\<lambda>c. case c of LAbort l \<Rightarrow> f l | _ \<Rightarrow> clist_head ct c)"
  "clist_head (ct\<lparr>conns := g\<rparr>) = clist_head ct"
  by (rule ext, rename_tac c, case_tac c; simp)+

lemma links_rep_fun: "links_rep L h ls \<Longrightarrow> links_rep L h ls' \<Longrightarrow> ls = ls'"
  unfolding links_rep_def by (rule ext) (meson chain_fun)

lemma chain_head: "chain n p xs None \<Longrightarrow> p = (case xs of [] \<Rightarrow> None | x # _ \<Rightarrow> Some x)"
  by (cases xs) auto

lemma links_repD:
  assumes "links_rep L h ls"
  shows "chain (nxt L) (h c) (ls c) None" "distinct (ls c)" "c \<noteq> LFree \<Longrightarrow> backlinks (prv L) None (ls c)"
    "x \<in> set (ls c) \<Longrightarrow> x \<in> set (ls d) \<Longrightarrow> c = d"
  using assms by (auto simp: links_rep_def)

section \<open>Unlinking\<close>

lemma link_unlink_at:
  assumes "chain (nxt L) p (as @ x # bs) None" "backlinks (prv L) None (as @ x # bs)"
  shows "nxt L x = (case bs of [] \<Rightarrow> None | b # _ \<Rightarrow> Some b)"
    "prv L x = (if as = [] then None else Some (last as))"
  using assms by (auto simp: backlinks_append dest: chain_head)

lemma link_unlink_dlist:
  assumes "chain (nxt L) p (as @ x # bs) None" "backlinks (prv L) None (as @ x # bs)" "distinct (as @ x # bs)"
  shows "chain (nxt (link_unlink x L)) (if as = [] then nxt L x else p) (as @ bs) None"
    and "backlinks (prv (link_unlink x L)) None (as @ bs)"
    and "nxt (link_unlink x L) x = nxt L x" "prv (link_unlink x L) x = prv L x"
proof -
  note at = link_unlink_at[OF assms(1,2)]
  have d: "x \<notin> set as" "x \<notin> set bs" "set as \<inter> set bs = {}" "distinct as" "distinct bs" using assms(3) by auto
  let ?L = "link_unlink x L"
  have nx: "nxt ?L = (if as = [] then nxt L else (nxt L)(last as := nxt L x))"
    using at d by (cases bs) (auto simp: link_unlink_def Let_def)
  have pv: "prv ?L = (case bs of [] \<Rightarrow> prv L | b # _ \<Rightarrow> (prv L)(b := prv L x))"
    using at d by (cases bs) (auto simp: link_unlink_def Let_def)
  have c: "chain (nxt L) p as (Some x)" "chain (nxt L) (nxt L x) bs None" using assms(1) by auto
  have b: "backlinks (prv L) None as" "backlinks (prv L) (Some x) bs" using assms(2) by (auto simp: backlinks_append)
  show "chain (nxt ?L) (if as = [] then nxt L x else p) (as @ bs) None"
  proof (cases "as = []")
    case True
    with c nx show ?thesis by simp
  next
    case False
    have "last as \<notin> set bs" using d(3) False by (metis IntI empty_iff last_in_set)
    with chain_relink[OF c(1) d(4) False, of "nxt L x"] c(2) nx False show ?thesis by auto
  qed
  show "backlinks (prv ?L) None (as @ bs)"
  proof (cases bs)
    case Nil
    with b pv show ?thesis by simp
  next
    case (Cons b' bs')
    with b d pv at show ?thesis by (auto simp: backlinks_append)
  qed
  show "nxt ?L x = nxt L x" "prv ?L x = prv L x"
    using nx pv d by (auto split: list.splits)
qed

lemma link_unlink_frame:
  assumes "chain (nxt L) p (as @ x # bs) None" "backlinks (prv L) None (as @ x # bs)"
    "set ys \<inter> set (as @ x # bs) = {}"
  shows "chain (nxt (link_unlink x L)) q ys r = chain (nxt L) q ys r"
    and "backlinks (prv (link_unlink x L)) s ys = backlinks (prv L) s ys"
proof -
  note at = link_unlink_at[OF assms(1,2)]
  have "as \<noteq> [] \<Longrightarrow> last as \<notin> set ys" using assms(3) by (metis IntI UnCI empty_iff last_in_set set_append)
  then show "chain (nxt (link_unlink x L)) q ys r = chain (nxt L) q ys r"
    using at assms(3) by (cases bs; cases "as = []") (simp_all add: link_unlink_def Let_def)
  show "backlinks (prv (link_unlink x L)) s ys = backlinks (prv L) s ys"
    using at assms(3) by (cases bs; cases "as = []") (simp_all add: link_unlink_def Let_def)
qed

text \<open>Taking a block off its list, and putting a floating block on one.\<close>

lemma links_rep_unlink:
  assumes "links_rep L h ls" "c \<noteq> LFree" "x \<in> set (ls c)"
  shows "links_rep (link_unlink x L) (h(c := if h c = Some x then nxt L x else h c)) (ls(c := remove1 x (ls c)))"
    and "conn_floats (ls(c := remove1 x (ls c))) x"
    and "nxt (link_unlink x L) x = nxt L x" "prv (link_unlink x L) x = prv L x"
    and "prv L x = None \<longleftrightarrow> h c = Some x"
proof -
  note R = links_repD[OF assms(1)]
  from assms(3) obtain as bs where s: "ls c = as @ x # bs" "x \<notin> set as" by (meson split_list_first)
  have D: "chain (nxt L) (h c) (as @ x # bs) None" "backlinks (prv L) None (as @ x # bs)" "distinct (as @ x # bs)"
    using R(1-3)[of c] assms(2) s(1) by auto
  note U = link_unlink_dlist[OF D] and F = link_unlink_frame[OF D(1,2)]
  have r: "remove1 x (ls c) = as @ bs" using s by (simp add: remove1_append)
  have hc: "h c = Some x \<longleftrightarrow> as = []" using chain_head[OF D(1)] s(2) by (cases as) auto
  have dj: "set (ls d) \<inter> set (as @ x # bs) = {}" if "d \<noteq> c" for d
    using R(4)[of _ c d] that s(1) by auto
  show "links_rep (link_unlink x L) (h(c := if h c = Some x then nxt L x else h c)) (ls(c := remove1 x (ls c)))"
    unfolding links_rep_def
  proof (intro conjI allI impI)
    fix d
    show "chain (nxt (link_unlink x L)) ((h(c := if h c = Some x then nxt L x else h c)) d)
        ((ls(c := remove1 x (ls c))) d) None"
      using U(1) R(1)[of d] F(1)[OF dj] hc by (cases "d = c") (simp_all add: r del: chain_append)
    show "distinct ((ls(c := remove1 x (ls c))) d)" using R(2) by (simp add: distinct_remove1)
    show "d \<noteq> LFree \<Longrightarrow> backlinks (prv (link_unlink x L)) None ((ls(c := remove1 x (ls c))) d)"
      using U(2) R(3)[of d] F(2)[OF dj] by (cases "d = c") (simp_all add: r)
  next
    fix d e :: clist
    assume "d \<noteq> e"
    then show "set ((ls(c := remove1 x (ls c))) d) \<inter> set ((ls(c := remove1 x (ls c))) e) = {}"
      using R(4) set_remove1_subset[of x "ls c"] by (auto dest: R(4))
  qed
  show "conn_floats (ls(c := remove1 x (ls c))) x"
    using R(4)[OF assms(3)] D(3) by (auto simp: conn_floats_def r)
  show "nxt (link_unlink x L) x = nxt L x" "prv (link_unlink x L) x = prv L x" using U(3,4) .
  show "prv L x = None \<longleftrightarrow> h c = Some x" using link_unlink_at(2)[OF D(1,2)] hc by simp
qed

lemma links_rep_push:
  assumes "links_rep L h ls" "conn_floats ls x"
  shows "links_rep (link_push2 x (h c) L) (h(c := Some x)) (ls(c := x # ls c))"
    and "links_rep \<lparr>nxt = (nxt L)(x := h LFree), prv = (prv L)(x := p)\<rparr> (h(LFree := Some x)) (ls(LFree := x # ls LFree))"
proof -
  note R = links_repD[OF assms(1)]
  have x: "x \<notin> set (ls d)" for d using assms(2) by (simp add: conn_floats_def)
  have dj: "c \<noteq> d \<Longrightarrow> set (ls c) \<inter> set (ls d) = {}" for c d using R(4) by blast
  have ot: "\<forall>y. h c = Some y \<longrightarrow> y \<notin> set (ls d)" if "d \<noteq> c" for d
    using chain_head[OF R(1)[of c]] R(4)[of _ c d] that by (auto split: list.splits)
  show "links_rep (link_push2 x (h c) L) (h(c := Some x)) (ls(c := x # ls c))"
    unfolding links_rep_def
  proof (intro conjI allI impI)
    fix d
    show "chain (nxt (link_push2 x (h c) L)) ((h(c := Some x)) d) ((ls(c := x # ls c)) d) None"
      using R(1)[of d] x[of d] link_push2_head[OF R(1)[of c] x] by (cases "d = c") (simp_all del: chain.simps)
    show "distinct ((ls(c := x # ls c)) d)" using R(2) x by simp
    show "d \<noteq> LFree \<Longrightarrow> backlinks (prv (link_push2 x (h c) L)) None ((ls(c := x # ls c)) d)"
      using R(2)[of c] R(3)[of d] x[of d] link_push2_backlinks[OF R(1)[of c], of x] link_push2_backlinks_other[OF x ot, of d L None]
      by (cases "d = c") (simp_all del: backlinks.simps)
  qed (use dj x in auto)
  show "links_rep \<lparr>nxt = (nxt L)(x := h LFree), prv = (prv L)(x := p)\<rparr> (h(LFree := Some x)) (ls(LFree := x # ls LFree))"
    unfolding links_rep_def using R(1-3) x dj by auto
qed

section \<open>The operations on what the lists represent\<close>

lemma conn_list_getfree_Nil:
  "conn_rep ct ls \<Longrightarrow> ls LFree = [] \<Longrightarrow> conn_list_getfree now ct = (None, ct)"
  using chain_head[OF links_repD(1)[of "clinks ct" "clist_head ct" ls LFree]]
  by (simp add: conn_list_getfree_def conn_rep_def)

lemma conn_list_getfree_Cons:
  assumes "conn_rep ct ls" "ls LFree = x # fs" "conn_list_getfree now ct = (p, ct')"
  shows "p = Some x" "conn_rep ct' (ls(LFree := fs))" "conn_floats (ls(LFree := fs)) x"
    "conns ct' = (conns ct)(x := (conns ct x)\<lparr>my_timestamp := now, lowbit_timestamp := ucast now, cmagic := CONN_MAGIC,
                       memfifo_sent := 0, rget_memfifo_sent := 0, injfifo_of := 0\<rparr>)"
    "conn_table.more ct' = conn_table.more ct" "nxt (clinks ct') x = None" "prv (clinks ct') x = None"
proof -
  have r: "links_rep (clinks ct) (clist_head ct) ls" using assms(1) by (simp add: conn_rep_def)
  note R = links_repD[OF r]
  have h: "conn_freelist ct = Some x" "chain (nxt (clinks ct)) (nxt (clinks ct) x) fs None" "x \<notin> set fs"
    using R(1)[of LFree] R(2)[of LFree] assms(2) by auto
  have x: "d \<noteq> LFree \<Longrightarrow> x \<notin> set (ls d)" for d using R(4)[of x LFree d] assms(2) by auto
  have e: "conn_list_getfree now ct = (Some x, (upd_conn x (\<lambda>c. c\<lparr>my_timestamp := now, lowbit_timestamp := ucast now,
        cmagic := CONN_MAGIC, memfifo_sent := 0, rget_memfifo_sent := 0, injfifo_of := 0\<rparr>) ct)
              \<lparr>conn_freelist := nxt (clinks ct) x,
               clinks := \<lparr>nxt = (nxt (clinks ct))(x := None), prv = (prv (clinks ct))(x := None)\<rparr>\<rparr>)"
    by (simp add: conn_list_getfree_def h(1))
  have hd: "clist_head ct' d = (if d = LFree then nxt (clinks ct) x else clist_head ct d)" for d
    using assms(3) e by (cases d) auto
  have L: "clinks ct' = \<lparr>nxt = (nxt (clinks ct))(x := None), prv = (prv (clinks ct))(x := None)\<rparr>"
    using assms(3) e by auto
  have "links_rep (clinks ct') (clist_head ct') (ls(LFree := fs))"
    unfolding links_rep_def
  proof (intro conjI allI impI)
    fix d
    show "chain (nxt (clinks ct')) (clist_head ct' d) ((ls(LFree := fs)) d) None"
      using R(1)[of d] h(2,3) x[of d] by (simp add: hd L)
    show "distinct ((ls(LFree := fs)) d)" using R(2)[of d] R(2)[of LFree] assms(2) by simp
    show "d \<noteq> LFree \<Longrightarrow> backlinks (prv (clinks ct')) None ((ls(LFree := fs)) d)"
      using R(3)[of d] x[of d] by (simp add: L)
  next
    fix d e :: clist
    assume "d \<noteq> e"
    then show "set ((ls(LFree := fs)) d) \<inter> set ((ls(LFree := fs)) e) = {}"
      using R(4)[of _ d e] R(4)[of _ LFree d] R(4)[of _ LFree e] assms(2) by auto
  qed
  then show "conn_rep ct' (ls(LFree := fs))" by (simp add: conn_rep_def)
  show "p = Some x" "conns ct' = (conns ct)(x := (conns ct x)\<lparr>my_timestamp := now, lowbit_timestamp := ucast now, cmagic := CONN_MAGIC,
                       memfifo_sent := 0, rget_memfifo_sent := 0, injfifo_of := 0\<rparr>)"
    "conn_table.more ct' = conn_table.more ct" "nxt (clinks ct') x = None" "prv (clinks ct') x = None"
    using assms(3) e by (auto simp: upd_conn_def)
  show "conn_floats (ls(LFree := fs)) x" using x h(3) by (simp add: conn_floats_def)
qed

lemma put_on_pending_list_rep:
  assumes "conn_rep ct ls" "conn_floats ls x"
  shows "conn_rep (put_on_pending_list x l ct) (ls(LPend l := x # ls (LPend l)))"
proof -
  have r: "links_rep (clinks ct) (clist_head ct) ls" using assms(1) by (simp add: conn_rep_def)
  have "clist_head (put_on_pending_list x l ct) = (clist_head ct)(LPend l := Some x)"
    by (rule ext, case_tac xa) (auto simp: put_on_pending_list_def)
  moreover have "clinks (put_on_pending_list x l ct) = link_push2 x (clist_head ct (LPend l)) (clinks ct)"
    by (simp add: put_on_pending_list_def)
  ultimately show ?thesis using links_rep_push(1)[OF r assms(2), of "LPend l"] by (simp add: conn_rep_def)
qed

lemma connection_activate_rep:
  assumes "conn_rep ct ls" "x \<in> set (ls (LPend pl))" "pendlist_of (conns ct x) = Some pl"
    "activelist_of (conns ct x) = Some al"
  shows "\<exists>ct'. connection_activate x ct = Some ct' \<and>
    conn_rep ct' (ls(LPend pl := remove1 x (ls (LPend pl)), LActive al := x # ls (LActive al))) \<and>
    conns ct' = (conns ct)(x := (conns ct x)\<lparr>cstate := CONN_ACTIVE\<rparr>) \<and> conn_table.more ct' = conn_table.more ct"
proof -
  have r: "links_rep (clinks ct) (clist_head ct) ls" using assms(1) by (simp add: conn_rep_def)
  let ?L1 = "link_unlink x (clinks ct)" and ?ls1 = "ls(LPend pl := remove1 x (ls (LPend pl)))"
  let ?h1 = "(clist_head ct)(LPend pl := if clist_head ct (LPend pl) = Some x then nxt (clinks ct) x else clist_head ct (LPend pl))"
  note U = links_rep_unlink[OF r _ assms(2), simplified]
  from U have 1: "links_rep ?L1 ?h1 ?ls1" "conn_floats ?ls1 x" "nxt ?L1 x = nxt (clinks ct) x" by simp_all
  note P = links_rep_push(1)[OF 1(1,2), of "LActive al"]
  let ?pend1 = "if conn_pendlist ct pl = Some x then (conn_pendlist ct)(pl := nxt ?L1 x) else conn_pendlist ct"
  let ?ct' = "(upd_conn x (\<lambda>c. c\<lparr>cstate := CONN_ACTIVE\<rparr>) ct)
                 \<lparr>conn_pendlist := ?pend1,
                  clinks := \<lparr>nxt = (nxt ?L1)(x := conn_activelist ct al),
                             prv = (case conn_activelist ct al of None \<Rightarrow> prv ?L1 | Some h \<Rightarrow> (prv ?L1)(h := Some x))(x := None)\<rparr>,
                  conn_activelist := (conn_activelist ct)(al := Some x)\<rparr>"
  have e: "connection_activate x ct = Some ?ct'"
    using assms(3,4) by (simp add: connection_activate_def Let_def)
  have ne: "conn_activelist ct al \<noteq> Some x"
    using chain_head[OF links_repD(1)[OF r, of "LActive al"]] links_repD(4)[OF r assms(2), of "LActive al"]
    by (auto split: list.splits)
  have hd: "clist_head ?ct' = ?h1(LActive al := Some x)"
    by (rule ext, case_tac xa) (auto simp: 1(3))
  have "clinks ?ct' = link_push2 x (?h1 (LActive al)) ?L1"
    using ne by (auto simp: link_push2_def Let_def fun_upd_twist split: option.splits)
  then have "conn_rep ?ct' (?ls1(LActive al := x # ?ls1 (LActive al)))"
    using P unfolding conn_rep_def hd by simp
  then show ?thesis using e by (auto simp: upd_conn_def)
qed

text \<open>The list whose head \<^verbatim>\<open>connection_free\<close> looks for is the one the block is on.\<close>

definition free_ok :: "'a conn_table_scheme \<Rightarrow> clist \<Rightarrow> nat \<Rightarrow> bool" where
  "free_ok ct c x \<longleftrightarrow> conn_magic_ok (conns ct x) \<and>
     (case c of
        LActive l \<Rightarrow> activelist_of (conns ct x) = Some l
      | LPend l \<Rightarrow> activelist_of (conns ct x) \<noteq> None \<and> pendlist_of (conns ct x) = Some l
      | LAbort l \<Rightarrow> conn_abortlist ct l \<noteq> Some x
      | LFree \<Rightarrow> False)"

lemma free_heads_at:
  assumes "free_ok ct c x" "links_rep (clinks ct) (clist_head ct) ls" "x \<in> set (ls c)" "clist_head ct c = Some x"
  shows "\<exists>ct'. free_heads x nx (upd_conn x (\<lambda>k. k\<lparr>cstate := CONN_FREE\<rparr>) ct) = Some ct' \<and>
    clist_head ct' = (clist_head ct)(c := nx) \<and> clinks ct' = clinks ct \<and>
    conns ct' = (conns ct)(x := (conns ct x)\<lparr>cstate := CONN_FREE\<rparr>) \<and> conn_table.more ct' = conn_table.more ct"
proof (cases c)
  case LFree
  with assms(1) show ?thesis by (simp add: free_ok_def)
next
  case (LActive l)
  with assms(1,4) have "free_heads x nx (upd_conn x (\<lambda>k. k\<lparr>cstate := CONN_FREE\<rparr>) ct) =
      Some ((upd_conn x (\<lambda>k. k\<lparr>cstate := CONN_FREE\<rparr>) ct)\<lparr>conn_activelist := (conn_activelist ct)(l := nx)\<rparr>)"
    by (simp add: free_heads_def free_ok_def)
  with LActive show ?thesis by (auto intro!: ext simp: upd_conn_def clist_head_upd split: clist.splits)
next
  case (LPend l)
  then obtain al where al: "activelist_of (conns ct x) = Some al" using assms(1) by (auto simp: free_ok_def)
  have "conn_activelist ct al \<noteq> Some x"
    using chain_head[OF links_repD(1)[OF assms(2), of "LActive al"]] links_repD(4)[OF assms(2,3), of "LActive al"] LPend
    by (auto split: list.splits)
  with assms(1,4) LPend al have "free_heads x nx (upd_conn x (\<lambda>k. k\<lparr>cstate := CONN_FREE\<rparr>) ct) =
      Some ((upd_conn x (\<lambda>k. k\<lparr>cstate := CONN_FREE\<rparr>) ct)\<lparr>conn_pendlist := (conn_pendlist ct)(l := nx)\<rparr>)"
    by (simp add: free_heads_def free_ok_def)
  with LPend show ?thesis by (auto intro!: ext simp: upd_conn_def clist_head_upd split: clist.splits)
next
  case (LAbort l)
  with assms(1,4) show ?thesis by (simp add: free_ok_def)
qed

lemma connection_free_rep:
  assumes "conn_rep ct ls" "x \<in> set (ls c)" "free_ok ct c x"
  shows "\<exists>ct'. connection_free x ct = Some (RetOK, ct') \<and>
    conn_rep ct' (ls(c := remove1 x (ls c), LFree := x # ls LFree)) \<and>
    conns ct' = (conns ct)(x := (conns ct x)\<lparr>cstate := CONN_FREE\<rparr>) \<and> conn_table.more ct' = conn_table.more ct"
proof -
  have r: "links_rep (clinks ct) (clist_head ct) ls" using assms(1) by (simp add: conn_rep_def)
  have c: "c \<noteq> LFree" and mg: "cmagic (conns ct x) = CONN_MAGIC"
    using assms(3) by (auto simp: free_ok_def conn_magic_ok_def)
  let ?L1 = "link_unlink x (clinks ct)" and ?ls1 = "ls(c := remove1 x (ls c))"
  let ?h1 = "(clist_head ct)(c := if clist_head ct c = Some x then nxt (clinks ct) x else clist_head ct c)"
  let ?ct1 = "upd_conn x (\<lambda>k. k\<lparr>cstate := CONN_FREE\<rparr>) ct"
  note U = links_rep_unlink[OF r c assms(2)]
  have "\<exists>ct2. (if prv ?L1 x \<noteq> None then Some ?ct1 else free_heads x (nxt ?L1 x) ?ct1) = Some ct2 \<and>
      clist_head ct2 = ?h1 \<and> conns ct2 = conns ?ct1 \<and> conn_table.more ct2 = conn_table.more ct"
  proof (cases "clist_head ct c = Some x")
    case True
    with U(3-5) free_heads_at[OF assms(3) r assms(2) True, of "nxt (clinks ct) x"] show ?thesis
      by (auto simp: upd_conn_def)
  next
    case False
    then have "?h1 = clist_head ct" by auto
    moreover have "clist_head ?ct1 = clist_head ct" by (rule ext) simp
    ultimately show ?thesis using False U(4,5) by auto
  qed
  then obtain ct2 where 2: "(if prv ?L1 x \<noteq> None then Some ?ct1 else free_heads x (nxt ?L1 x) ?ct1) = Some ct2"
    "clist_head ct2 = ?h1" "conns ct2 = conns ?ct1" "conn_table.more ct2 = conn_table.more ct" by blast
  let ?ct' = "(upd_conn x (\<lambda>k. k\<lparr>cmagic := CONN_MAGIC\<rparr>) ct2)
                \<lparr>clinks := \<lparr>nxt = (nxt ?L1)(x := conn_freelist ct), prv = (prv ?L1)(x := None)\<rparr>, conn_freelist := Some x\<rparr>"
  have e: "connection_free x ct = Some (RetOK, ?ct')"
    using 2(1) mg by (simp add: connection_free_def conn_magic_ok_def Let_def)
  have hd: "clist_head ?ct' = ?h1(LFree := Some x)"
    unfolding 2(2)[symmetric] by (rule ext, case_tac xa) auto
  have fl: "?h1 LFree = conn_freelist ct" using c by simp
  have cl: "clinks ?ct' = \<lparr>nxt = (nxt ?L1)(x := conn_freelist ct), prv = (prv ?L1)(x := None)\<rparr>" by simp
  have "conn_rep ?ct' (?ls1(LFree := x # ?ls1 LFree))"
    using links_rep_push(2)[OF U(1,2), of None] unfolding conn_rep_def hd fl cl .
  moreover have "conns ?ct' = (conns ct)(x := (conns ct x)\<lparr>cstate := CONN_FREE\<rparr>)"
    using 2(3) mg by (auto simp: upd_conn_def)
  ultimately show ?thesis using e c 2(4) by (auto simp: upd_conn_def)
qed

section \<open>Initialisation\<close>

lemma conn_list_entry_fold:
  "nxt (clinks (fold conn_list_entry [0..<n] ct)) i = (if i < n then Some (i + 1) else nxt (clinks ct) i)"
  "conn_freelist (fold conn_list_entry [0..<n] ct) = conn_freelist ct"
  "conn_pendlist (fold conn_list_entry [0..<n] ct) = conn_pendlist ct"
  "conn_activelist (fold conn_list_entry [0..<n] ct) = conn_activelist ct"
  "conn_abortlist (fold conn_list_entry [0..<n] ct) = conn_abortlist ct"
  "i < n \<Longrightarrow> cstate (conns (fold conn_list_entry [0..<n] ct) i) = CONN_FREE"
  "i < n \<Longrightarrow> my_index (conns (fold conn_list_entry [0..<n] ct) i) = of_nat i"
  by (induction n) (auto simp: conn_list_entry_def less_Suc_eq)

lemma conn_list_init_rep:
  assumes "conn_list_init alloc sz n cl ct = Some (RetOK, cl', ct')"
  shows "conn_rep ct' ((\<lambda>_. [])(LFree := [0..<n]))" "\<forall>i < n. cstate (conns ct' i) = CONN_FREE \<and> my_index (conns ct' i) = of_nat i"
proof -
  let ?ct1 = "ct\<lparr>conn_pendlist := (\<lambda>_. None), conn_activelist := (\<lambda>_. None),
                   conn_abortlist := (\<lambda>_. None), conn_freelist := Some 0\<rparr>"
  let ?ct2 = "fold conn_list_entry [0..<n] ?ct1"
  have n: "0 < n" and ct': "ct' = ?ct2\<lparr>clinks := (clinks ?ct2)\<lparr>nxt := (nxt (clinks ?ct2))(n - 1 := None)\<rparr>\<rparr>"
    using assms by (auto simp: conn_list_init_def Let_def split: prod.splits sum.splits if_splits)
  have nx: "nxt (clinks ct') (0 + i) = (if Suc i < n then Some (0 + Suc i) else None)" if "i < n" for i
    using that by (auto simp: ct' conn_list_entry_fold)
  have c: "chain (nxt (clinks ct')) (Some 0) [0..<0 + n] None"
    by (rule chain_upt) (use nx n in simp_all)
  have h: "clist_head ct' c = (if c = LFree then Some 0 else None)" for c
    by (cases c) (simp_all add: ct' conn_list_entry_fold)
  show "conn_rep ct' ((\<lambda>_. [])(LFree := [0..<n]))"
    using c h by (auto simp: conn_rep_def links_rep_def)
  show "\<forall>i < n. cstate (conns ct' i) = CONN_FREE \<and> my_index (conns ct' i) = of_nat i"
    by (simp add: ct' conn_list_entry_fold)
qed

section \<open>Disabling a link\<close>

lemma fold_upd_conn [simp]:
  "clinks (fold (\<lambda>x. upd_conn x (f x)) xs ct) = clinks ct"
  "clist_head (fold (\<lambda>x. upd_conn x (f x)) xs ct) = clist_head ct"
  "conn_freelist (fold (\<lambda>x. upd_conn x (f x)) xs ct) = conn_freelist ct"
  "conn_activelist (fold (\<lambda>x. upd_conn x (f x)) xs ct) = conn_activelist ct"
  "conn_pendlist (fold (\<lambda>x. upd_conn x (f x)) xs ct) = conn_pendlist ct"
  "conn_abortlist (fold (\<lambda>x. upd_conn x (f x)) xs ct) = conn_abortlist ct"
  "conn_table.more (fold (\<lambda>x. upd_conn x (f x)) xs ct) = conn_table.more ct"
  by (induction xs arbitrary: ct) (simp_all, rule ext, simp)

lemma fold_upd_conn_at:
  "distinct xs \<Longrightarrow> conns (fold (\<lambda>x. upd_conn x (f x)) xs ct) y = (if y \<in> set xs then f y (conns ct y) else conns ct y)"
  by (induction xs arbitrary: ct) auto

lemma disable_active_loop_fold:
  "chain (nxt (clinks ct)) p xs None \<Longrightarrow> disable_active_loop p ct =
     Some (fold (\<lambda>x. upd_conn x (\<lambda>c. c\<lparr>cstate := CONN_DISCONNECTING, activelist_of := None\<rparr>)) xs ct)"
proof (induction xs arbitrary: p ct)
  case Nil
  then show ?case by (subst disable_active_loop.simps) simp
next
  case (Cons x xs)
  from Cons.prems have "p = Some x" "chain (nxt (clinks ct)) (nxt (clinks ct) x) xs None" by auto
  with Cons.IH[of "upd_conn x (\<lambda>c. c\<lparr>cstate := CONN_DISCONNECTING, activelist_of := None\<rparr>) ct"] show ?case
    by (subst disable_active_loop.simps) simp
qed

lemma disable_pending_loop_fold:
  "chain (nxt (clinks ct)) p xs None \<Longrightarrow> disable_pending_loop p l k ct =
     Some (if xs = [] then l else Some (last xs), k + length xs,
           fold (\<lambda>x. upd_conn x (\<lambda>c. c\<lparr>cstate := CONN_ABORTED\<rparr>)) xs ct)"
proof (induction xs arbitrary: p l k ct)
  case Nil
  then show ?case by (subst disable_pending_loop.simps) simp
next
  case (Cons x xs)
  from Cons.prems have "p = Some x" "chain (nxt (clinks ct)) (nxt (clinks ct) x) xs None" by auto
  with Cons.IH[of "upd_conn x (\<lambda>c. c\<lparr>cstate := CONN_ABORTED\<rparr>) ct" _ "Some x" "k + 1"] show ?case
    by (subst disable_pending_loop.simps) simp
qed

lemma disable_active_rep:
  assumes "conn_rep ct ls"
  shows "\<exists>ct'. disable_active_connection_list l ct = Some ct' \<and> conn_rep ct' ls \<and>
    conns ct' = (\<lambda>x. if x \<in> set (ls (LActive l))
      then (conns ct x)\<lparr>cstate := CONN_DISCONNECTING, activelist_of := None\<rparr> else conns ct x) \<and>
    conn_table.more ct' = conn_table.more ct"
proof -
  have r: "links_rep (clinks ct) (clist_head ct) ls" using assms by (simp add: conn_rep_def)
  from links_repD(1)[OF r, of "LActive l"] have "chain (nxt (clinks ct)) (conn_activelist ct l) (ls (LActive l)) None" by simp
  from disable_active_loop_fold[OF this] links_repD(2)[OF r, of "LActive l"] r show ?thesis
    by (auto simp: disable_active_connection_list_def conn_rep_def fold_upd_conn_at)
qed

text \<open>
  The pending list in front of an empty abort list; onto a list that is not empty the code does
  not set the back link.
\<close>

lemma disable_pending_rep:
  assumes "conn_rep ct ls" "ls (LAbort l) = []"
  shows "\<exists>ct'. disable_pending_connection_list l ct = Some (length (ls (LPend l)), ct') \<and>
    conn_rep ct' (ls(LAbort l := ls (LPend l), LPend l := [])) \<and>
    conns ct' = (\<lambda>x. if x \<in> set (ls (LPend l)) then (conns ct x)\<lparr>cstate := CONN_ABORTED\<rparr> else conns ct x) \<and>
    conn_table.more ct' = conn_table.more ct"
proof -
  let ?P = "ls (LPend l)"
  have r: "links_rep (clinks ct) (clist_head ct) ls" using assms by (simp add: conn_rep_def)
  note R = links_repD[OF r]
  have c: "chain (nxt (clinks ct)) (conn_pendlist ct l) ?P None" and d: "distinct ?P" using R(1,2)[of "LPend l"] by auto
  let ?ct1 = "fold (\<lambda>x. upd_conn x (\<lambda>c. c\<lparr>cstate := CONN_ABORTED\<rparr>)) ?P ct"
  note L = disable_pending_loop_fold[OF c, of None 0]
  have ab: "conn_abortlist ct l = None" using chain_head[OF R(1)[of "LAbort l"]] assms(2) by simp
  note C = fold_upd_conn_at[OF d, of _ ct]
  show ?thesis
  proof (cases "?P = []")
    case True
    have "ls(LAbort l := ls (LPend l), LPend l := []) = ls" using True assms(2) by auto
    with L True assms(1) show ?thesis by (simp add: disable_pending_connection_list_def)
  next
    case False
    let ?ct' = "?ct1\<lparr>clinks := (clinks ct)\<lparr>nxt := (nxt (clinks ct))(last ?P := None)\<rparr>,
                      conn_abortlist := (conn_abortlist ct)(l := conn_pendlist ct l),
                      conn_pendlist := (conn_pendlist ct)(l := None)\<rparr>"
    have e: "disable_pending_connection_list l ct = Some (length ?P, ?ct')"
      using L False ab by (simp add: disable_pending_connection_list_def link_splice_def)
    have lp: "nxt (clinks ct) (last ?P) = None"
      using c False by (metis append_butlast_last_id chain_append chain.simps)
    then have "(clinks ct)\<lparr>nxt := (nxt (clinks ct))(last ?P := None)\<rparr> = clinks ct" by (simp add: fun_upd_idem)
    moreover have "clist_head ?ct' = (clist_head ct)(LAbort l := conn_pendlist ct l, LPend l := None)"
      by (rule ext, rename_tac c, case_tac c) simp_all
    moreover have "links_rep (clinks ct) ((clist_head ct)(LAbort l := conn_pendlist ct l, LPend l := None))
        (ls(LAbort l := ls (LPend l), LPend l := []))"
      unfolding links_rep_def using R c by (auto dest: R(4))
    ultimately show ?thesis using e C by (auto simp: conn_rep_def)
  qed
qed

section \<open>The life of a block\<close>

text \<open>The state of a block tells which list it is on.\<close>

definition list_ok :: "'a conn_table_scheme \<Rightarrow> clist \<Rightarrow> nat \<Rightarrow> bool" where
  "list_ok ct c x \<longleftrightarrow>
     (let k = conns ct x in
      case c of
        LFree \<Rightarrow> cstate k = CONN_FREE
      | LPend l \<Rightarrow> conn_magic_ok k \<and> activelist_of k \<noteq> None \<and> pendlist_of k = Some l \<and>
          (cstate k = CONN_PENDING \<or> cstate k = CONN_DISCONNECTING)
      | LActive l \<Rightarrow> conn_magic_ok k \<and> activelist_of k = Some l \<and>
          (cstate k = CONN_ACTIVE \<or> cstate k = CONN_DISCONNECTING)
      | LAbort l \<Rightarrow> False)"

definition conn_inv :: "nat \<Rightarrow> 'a conn_table_scheme \<Rightarrow> (clist \<Rightarrow> nat list) \<Rightarrow> bool" where
  "conn_inv n ct ls \<longleftrightarrow> conn_rep ct ls \<and> (\<forall>x. x < n \<longleftrightarrow> (\<exists>c. x \<in> set (ls c))) \<and>
     (\<forall>c. \<forall>x \<in> set (ls c). list_ok ct c x)"

text \<open>
  What the program does with its blocks as long as no link is reset: an incoming or outgoing
  request takes a free block, fills it in (\<open>f\<close>) and puts it on a pending list; an accepted
  connection is activated; a rejected, failing or closing one is marked and then freed.
\<close>

inductive conn_life :: "nat \<Rightarrow> conn_table \<Rightarrow> conn_table \<Rightarrow> bool" for n where
  life_open: "conn_list_getfree now ct = (Some x, ct1) \<Longrightarrow>
    \<forall>c. cmagic (f c) = cmagic c \<and> activelist_of (f c) \<noteq> None \<Longrightarrow>
    conn_life n ct (put_on_pending_list x l (upd_conn x f ct1))"
| life_activate: "x < n \<Longrightarrow> cstate (conns ct x) = CONN_PENDING \<Longrightarrow> connection_activate x ct = Some ct' \<Longrightarrow>
    conn_life n ct ct'"
| life_mark: "x < n \<Longrightarrow> cstate (conns ct x) \<noteq> CONN_FREE \<Longrightarrow>
    conn_life n ct (upd_conn x (\<lambda>c. c\<lparr>cstate := CONN_DISCONNECTING\<rparr>) ct)"
| life_free: "x < n \<Longrightarrow> cstate (conns ct x) \<noteq> CONN_FREE \<Longrightarrow> connection_free x ct = Some (r, ct') \<Longrightarrow>
    conn_life n ct ct'"

lemma list_ok_cong: "conns ct x = conns ct' x \<Longrightarrow> list_ok ct c x = list_ok ct' c x"
  by (simp add: list_ok_def)

lemma conn_invD:
  assumes "conn_inv n ct ls"
  shows "conn_rep ct ls" "x \<in> set (ls c) \<Longrightarrow> list_ok ct c x" "x \<in> set (ls c) \<Longrightarrow> x < n"
    "x < n \<Longrightarrow> \<exists>c. x \<in> set (ls c)" "x \<in> set (ls c) \<Longrightarrow> x \<in> set (ls d) \<Longrightarrow> c = d"
  using assms links_repD(4)[of "clinks ct" "clist_head ct" ls x c d] by (auto simp: conn_inv_def conn_rep_def)

text \<open>A block that moves from one list to another, and the others stay.\<close>

lemma conn_inv_move:
  assumes "conn_inv n ct ls" "x \<in> set (ls c)" "conn_rep ct' (ls(c := remove1 x (ls c), d := x # ls d))" "c \<noteq> d"
    "\<forall>y. y \<noteq> x \<longrightarrow> conns ct' y = conns ct y" "list_ok ct' d x"
  shows "conn_inv n ct' (ls(c := remove1 x (ls c), d := x # ls d))"
proof -
  note D = conn_invD[OF assms(1)]
  let ?ls = "ls(c := remove1 x (ls c), d := x # ls d)"
  have dst: "distinct (ls e)" for e using D(1) links_repD(2) by (auto simp: conn_rep_def)
  have m: "y \<in> set (?ls e) \<longleftrightarrow> (if y = x then e = d else y \<in> set (ls e))" for y e
  proof -
    have "e \<noteq> c \<Longrightarrow> x \<notin> set (ls e)" using D(5)[OF assms(2), of e] by blast
    then show ?thesis using assms(4) dst[of c] by (cases "e = d"; cases "e = c") auto
  qed
  have "list_ok ct' e y" if "y \<in> set (?ls e)" for e y
  proof (cases "y = x")
    case True
    with that m assms(6) show ?thesis by simp
  next
    case False
    with that m have "y \<in> set (ls e)" by simp
    with D(2) list_ok_cong[of ct' y ct e] assms(5) False show ?thesis by simp
  qed
  moreover have "y < n \<longleftrightarrow> (\<exists>e. y \<in> set (?ls e))" for y
    unfolding m using D(3)[of y] D(4)[of y] D(3)[OF assms(2)] by (cases "y = x") auto
  ultimately show ?thesis using assms(3) by (simp add: conn_inv_def)
qed

lemma conn_inv_at:
  assumes "conn_inv n ct ls" "x < n"
  shows "cstate (conns ct x) = CONN_FREE \<longleftrightarrow> x \<in> set (ls LFree)"
    "cstate (conns ct x) = CONN_PENDING \<Longrightarrow> \<exists>l. x \<in> set (ls (LPend l))"
    "cstate (conns ct x) \<noteq> CONN_FREE \<Longrightarrow> \<exists>c. x \<in> set (ls c) \<and> free_ok ct c x"
proof -
  from conn_invD(4)[OF assms] obtain c where c: "x \<in> set (ls c)" by blast
  note ok = conn_invD(2)[OF assms(1) c]
  have u: "x \<in> set (ls LFree) \<Longrightarrow> c = LFree" using conn_invD(5)[OF assms(1) c] by blast
  show "cstate (conns ct x) = CONN_FREE \<longleftrightarrow> x \<in> set (ls LFree)"
    using ok c u by (cases c) (auto simp: list_ok_def Let_def)
  show "cstate (conns ct x) = CONN_PENDING \<Longrightarrow> \<exists>l. x \<in> set (ls (LPend l))"
    using ok c by (cases c) (auto simp: list_ok_def Let_def)
  show "cstate (conns ct x) \<noteq> CONN_FREE \<Longrightarrow> \<exists>c. x \<in> set (ls c) \<and> free_ok ct c x"
    using ok c by (intro exI[of _ c], cases c) (auto simp: list_ok_def Let_def free_ok_def)
qed

lemma conn_life_activates:
  assumes "conn_inv n ct ls" "x < n" "cstate (conns ct x) = CONN_PENDING"
  shows "\<exists>ct' ls'. connection_activate x ct = Some ct' \<and> conn_inv n ct' ls' \<and> cstate (conns ct' x) = CONN_ACTIVE"
proof -
  from conn_inv_at(2)[OF assms] obtain l where l: "x \<in> set (ls (LPend l))" by blast
  from conn_invD(2)[OF assms(1) l] obtain al where
    a: "pendlist_of (conns ct x) = Some l" "activelist_of (conns ct x) = Some al" "conn_magic_ok (conns ct x)"
    by (auto simp: list_ok_def Let_def)
  from connection_activate_rep[OF conn_invD(1)[OF assms(1)] l a(1,2)] obtain ct' where
    e: "connection_activate x ct = Some ct'"
    "conn_rep ct' (ls(LPend l := remove1 x (ls (LPend l)), LActive al := x # ls (LActive al)))"
    "conns ct' = (conns ct)(x := (conns ct x)\<lparr>cstate := CONN_ACTIVE\<rparr>)" by blast
  have "list_ok ct' (LActive al) x" using a e(3) by (simp add: list_ok_def conn_magic_ok_def)
  with conn_inv_move[OF assms(1) l e(2)] e show ?thesis by auto
qed

lemma conn_life_frees:
  assumes "conn_inv n ct ls" "x < n" "cstate (conns ct x) \<noteq> CONN_FREE"
  shows "\<exists>ct' ls'. connection_free x ct = Some (RetOK, ct') \<and> conn_inv n ct' ls' \<and> conn_freelist ct' = Some x"
proof -
  from conn_inv_at(3)[OF assms] obtain c where c: "x \<in> set (ls c)" "free_ok ct c x" by blast
  from connection_free_rep[OF conn_invD(1)[OF assms(1)] c] obtain ct' where
    e: "connection_free x ct = Some (RetOK, ct')"
    "conn_rep ct' (ls(c := remove1 x (ls c), LFree := x # ls LFree))"
    "conns ct' = (conns ct)(x := (conns ct x)\<lparr>cstate := CONN_FREE\<rparr>)" by blast
  have ne: "c \<noteq> LFree" using c(2) by (auto simp: free_ok_def)
  have "list_ok ct' LFree x" using e(3) by (simp add: list_ok_def)
  with conn_inv_move[OF assms(1) c(1) e(2) ne] e(3)
  have i: "conn_inv n ct' (ls(c := remove1 x (ls c), LFree := x # ls LFree))" by simp
  have "conn_freelist ct' = Some x"
    using chain_head[OF links_repD(1)[OF conn_invD(1)[OF i, unfolded conn_rep_def], of LFree]] by simp
  with e(1) i show ?thesis by blast
qed

lemma conn_life_opens:
  assumes "conn_inv n ct ls" "conn_list_getfree now ct = (Some x, ct1)"
    "\<forall>c. cmagic (f c) = cmagic c \<and> activelist_of (f c) \<noteq> None"
  shows "\<exists>ls'. conn_inv n (put_on_pending_list x l (upd_conn x f ct1)) ls'"
proof -
  let ?ct' = "put_on_pending_list x l (upd_conn x f ct1)"
  note D = conn_invD[OF assms(1)]
  obtain fs where fs: "ls LFree = x # fs"
    using conn_list_getfree_Nil[OF D(1)] conn_list_getfree_Cons(1)[OF D(1) _ assms(2)] assms(2)
    by (cases "ls LFree") auto
  note G = conn_list_getfree_Cons[OF D(1) fs assms(2)]
  have "conn_rep (upd_conn x f ct1) (ls(LFree := fs))"
    using G(2) by (simp add: conn_rep_def) (metis (no_types) clist_head_upd(4) upd_conn_def)
  from put_on_pending_list_rep[OF this G(3), of l]
  have r: "conn_rep ?ct' (ls(LFree := remove1 x (ls LFree), LPend l := x # ls (LPend l)))" by (simp add: fs)
  have o: "\<forall>y. y \<noteq> x \<longrightarrow> conns ?ct' y = conns ct y" by (simp add: put_on_pending_list_def G(4))
  have "list_ok ?ct' (LPend l) x"
    using assms(3) by (simp add: list_ok_def put_on_pending_list_def G(4) conn_magic_ok_def)
  with conn_inv_move[OF assms(1) _ r _ o] fs show ?thesis by auto
qed

lemma conn_life_inv:
  assumes "conn_inv n ct ls" "conn_life n ct ct'"
  shows "\<exists>ls'. conn_inv n ct' ls'"
  using assms(2)
proof cases
  case (life_open now x ct1 f l)
  with conn_life_opens[OF assms(1)] show ?thesis by blast
next
  case (life_activate x)
  with conn_life_activates[OF assms(1)] show ?thesis by fastforce
next
  case (life_mark x)
  let ?ct' = "upd_conn x (\<lambda>c. c\<lparr>cstate := CONN_DISCONNECTING\<rparr>) ct"
  have "list_ok ?ct' c y" if "y \<in> set (ls c)" for c y
    using conn_invD(2)[OF assms(1) that] life_mark conn_inv_at(1)[OF assms(1) life_mark(2)] that
    by (cases "y = x"; cases c) (auto simp: list_ok_def Let_def conn_magic_ok_def)
  moreover have "conn_rep ?ct' ls"
    using conn_invD(1)[OF assms(1)] by (simp add: conn_rep_def) (metis (no_types) clist_head_upd(4) upd_conn_def)
  ultimately show ?thesis using assms(1) life_mark(1) by (auto simp: conn_inv_def)
next
  case (life_free x r)
  with conn_life_frees[OF assms(1)] show ?thesis by fastforce
qed

section \<open>Properties\<close>

definition demo_table :: conn_table where
  "demo_table = \<lparr>conns = (\<lambda>_. demo_conn), clinks = \<lparr>nxt = (\<lambda>_. None), prv = (\<lambda>_. None)\<rparr>, conn_freelist = None,
     conn_pendlist = (\<lambda>_. None), conn_activelist = (\<lambda>_. None), conn_abortlist = (\<lambda>_. None)\<rparr>"

abbreviation demo_alloc :: allocate_cb where
  "demo_alloc \<equiv> \<lambda>_ sz. Some \<lparr>region_length = sz, base_vaddr = 0xC0000000, base_paddr = 0x1000\<rparr>"

abbreviation demo_cleanup :: cleanup where
  "demo_cleanup \<equiv> \<lparr>clean_table = [], alloc_calls = 0\<rparr>"

lemma demo_table_init:
  "\<exists>cl ct. conn_list_init demo_alloc 640 2 demo_cleanup demo_table = Some (RetOK, cl, ct)"
  by (simp add: conn_list_init_def alloc_object_def MAX_CLEANUP_ENTRIES_def Let_def)



text \<open>
  Freeing the head of the abort list corrupts the lists.  \<^verbatim>\<open>connection_free\<close> stores the
  successor of a block it finds at the head of an abort list into the pending list: the abort
  list still starts with the block, which now is also the head of the free list, and the pending
  list has lost its connections to the rest of the abort list.
\<close>

theorem connection_free_abort_head:
  assumes "conn_rep ct ls" "ls (LAbort bl) = x # bs" "conn_magic_ok (conns ct x)"
    "activelist_of (conns ct x) = Some al" "pendlist_of (conns ct x) = Some pl" "abortlist_of (conns ct x) = Some bl"
  shows "\<exists>ct'. connection_free x ct = Some (RetOK, ct') \<and> conn_freelist ct' = Some x \<and>
    conn_abortlist ct' bl = Some x \<and> conn_pendlist ct' pl = (case bs of [] \<Rightarrow> None | b # _ \<Rightarrow> Some b)"
proof -
  have r: "links_rep (clinks ct) (clist_head ct) ls" using assms(1) by (simp add: conn_rep_def)
  have x: "x \<in> set (ls (LAbort bl))" using assms(2) by simp
  have h: "conn_abortlist ct bl = Some x" "chain (nxt (clinks ct)) (nxt (clinks ct) x) bs None"
    using links_repD(1)[OF r, of "LAbort bl"] assms(2) by auto
  have ne: "conn_activelist ct al \<noteq> Some x" "conn_pendlist ct pl \<noteq> Some x"
    using chain_head[OF links_repD(1)[OF r, of "LActive al"]] links_repD(4)[OF r x, of "LActive al"]
      chain_head[OF links_repD(1)[OF r, of "LPend pl"]] links_repD(4)[OF r x, of "LPend pl"]
    by (auto split: list.splits)
  from links_rep_unlink(3-5)[OF r _ x] h(1) chain_head[OF h(2)] show ?thesis
    using assms(3-6) ne by (simp add: connection_free_def free_heads_def Let_def conn_magic_ok_def)
qed

theorem connection_free_abort_head_witness:
  "\<exists>ct'. connection_free 0 (demo_table\<lparr>conn_abortlist := (\<lambda>_. None)(0 := Some 0)\<rparr>) = Some (RetOK, ct') \<and>
     conn_freelist ct' = Some 0 \<and> conn_abortlist ct' 0 = Some 0"
proof -
  let ?ct = "demo_table\<lparr>conn_abortlist := (\<lambda>_. None)(0 := Some 0)\<rparr>" and ?ls = "(\<lambda>_. [])(LAbort 0 := [0])"
  have "clist_head ?ct = (\<lambda>_. None)(LAbort 0 := Some 0)"
    by (rule ext, rename_tac c, case_tac c) (auto simp: demo_table_def)
  then have "conn_rep ?ct ?ls" by (auto simp: conn_rep_def links_rep_def demo_table_def)
  from connection_free_abort_head[OF this, of 0 0 "[]" 0 0] show ?thesis
    by (auto simp: demo_table_def demo_conn_def conn_magic_ok_def)
qed

lemma disable_active_spins:
  assumes "disable_active_loop p ct = Some r"
  shows "\<forall>x. p = Some x \<longrightarrow> nxt (clinks ct) x \<noteq> Some x"
  using _ assms
proof (rule disable_active_loop.raw_induct)
  fix loop :: "ptr \<Rightarrow> 'a conn_table_scheme \<Rightarrow> 'a conn_table_scheme option" and p ct r
  assume IH: "\<And>p ct r. loop p ct = Some r \<Longrightarrow> \<forall>x. p = Some x \<longrightarrow> nxt (clinks ct) x \<noteq> Some x"
    and e: "(case p of None \<Rightarrow> Some ct | Some x \<Rightarrow> loop (nxt (clinks ct) x)
          (upd_conn x (\<lambda>c. c\<lparr>cstate := CONN_DISCONNECTING, activelist_of := None\<rparr>) ct)) = Some r"
  show "\<forall>x. p = Some x \<longrightarrow> nxt (clinks ct) x \<noteq> Some x"
  proof (intro allI impI notI)
    fix x assume "p = Some x" "nxt (clinks ct) x = Some x"
    with e have "loop (Some x) (upd_conn x (\<lambda>c. c\<lparr>cstate := CONN_DISCONNECTING, activelist_of := None\<rparr>) ct) = Some r"
      by simp
    from IH[OF this] \<open>nxt (clinks ct) x = Some x\<close> show False by simp
  qed
qed

text \<open>
  Activating the newest active connection again makes a list loop on itself.
  \<^verbatim>\<open>connect_reply\<close> activates the block a packet names without looking at its state; when that
  block is already at the head of its active list its successor becomes the block itself, and
  the walk of \<^verbatim>\<open>disable_active_connection_list\<close> in a later link reset, done under the lock, never
  ends.
\<close>

theorem duplicate_activation_loops:
  assumes "conn_rep ct ls" "ls (LActive al) = x # xs" "activelist_of (conns ct x) = Some al"
    "pendlist_of (conns ct x) = Some pl"
  shows "\<exists>ct'. connection_activate x ct = Some ct' \<and> nxt (clinks ct') x = Some x \<and>
    disable_active_connection_list al ct' = None"
proof -
  have r: "links_rep (clinks ct) (clist_head ct) ls" using assms(1) by (simp add: conn_rep_def)
  have h: "conn_activelist ct al = Some x" using links_repD(1)[OF r, of "LActive al"] assms(2) by simp
  then obtain ct' where ct': "connection_activate x ct = Some ct'" "nxt (clinks ct') x = Some x" "conn_activelist ct' al = Some x"
    using assms(3,4) by (simp add: connection_activate_def Let_def)
  have "disable_active_connection_list al ct' = None"
  proof (cases "disable_active_loop (Some x) ct'")
    case None
    then show ?thesis by (simp add: disable_active_connection_list_def ct'(3))
  next
    case (Some r)
    from disable_active_spins[OF this] ct'(2) show ?thesis by simp
  qed
  with ct' show ?thesis by blast
qed

theorem duplicate_activation_loops_witness:
  "\<exists>ct'. connection_activate 0 (demo_table\<lparr>conn_activelist := (\<lambda>_. None)(0 := Some 0)\<rparr>) = Some ct' \<and>
     disable_active_connection_list 0 ct' = None"
proof -
  let ?ct = "demo_table\<lparr>conn_activelist := (\<lambda>_. None)(0 := Some 0)\<rparr>" and ?ls = "(\<lambda>_. [])(LActive 0 := [0])"
  have "clist_head ?ct = (\<lambda>_. None)(LActive 0 := Some 0)"
    by (rule ext, rename_tac c, case_tac c) (auto simp: demo_table_def)
  then have "conn_rep ?ct ?ls" by (auto simp: conn_rep_def links_rep_def demo_table_def)
  from duplicate_activation_loops[OF this, of 0 0 "[]" 0] show ?thesis
    by (auto simp: demo_table_def demo_conn_def)
qed

end
