(* ===== verification/Mudm_Context.thy ===== *)
theory Mudm_Context
  imports Mudm_Pkt Rdma_Object Mudm_Conn_List
begin

text \<open>
  The main context of the data mover, \<^verbatim>\<open>struct my_context\<close> of \<^verbatim>\<open>bgmudm/common.h\<close>, as an extension
  of the connection table; the packets a node sends and receives; and the byte layout of the
  connection payload \<^verbatim>\<open>struct mudm_connect_payload\<close>, big-endian as on the machine.
\<close>

section \<open>Packets as bytes\<close>

primrec be_bytes :: "nat \<Rightarrow> 'a::len word \<Rightarrow> u8 list" where
  "be_bytes 0 w = []"
| "be_bytes (Suc k) w = ucast (drop_bit (8 * k) w) # be_bytes k w"

primrec be_word :: "u8 list \<Rightarrow> 'a::len word" where
  "be_word [] = 0"
| "be_word (b # bs) = push_bit (8 * length bs) (ucast b) OR be_word bs"

text \<open>\<^verbatim>\<open>memcpy(msg + off, bs, length bs)\<close>, and the bytes \<open>off ..< off + n\<close>.\<close>

definition write_at :: "nat \<Rightarrow> u8 list \<Rightarrow> u8 list \<Rightarrow> u8 list" where
  "write_at off bs msg = take off msg @ bs @ drop (off + length bs) msg"

definition read_at :: "nat \<Rightarrow> nat \<Rightarrow> u8 list \<Rightarrow> u8 list" where
  "read_at off n msg = take n (drop off msg)"

lemma length_be_bytes [simp]: "length (be_bytes k w) = k"
  by (induction k) auto

lemma be_word_bytes: "be_word (be_bytes k (w :: 'a::len word)) = take_bit (8 * k) w"
proof (induction k)
  case 0
  then show ?case by simp
next
  case (Suc k)
  have "push_bit (8 * k) (ucast (ucast (drop_bit (8 * k) w) :: u8)) OR take_bit (8 * k) w = take_bit (8 * Suc k) w"
  proof (rule bit_word_eqI)
    fix n assume n: "n < LENGTH('a)"
    show "bit (push_bit (8 * k) (ucast (ucast (drop_bit (8 * k) w) :: u8)) OR take_bit (8 * k) w) n =
        bit (take_bit (8 * Suc k) w) n"
      using n by (cases "n < 8 * k") (auto simp: bit_simps)
  qed
  with Suc show ?case by simp
qed

lemma be_word_bytes_self [simp]:
  "be_word (be_bytes (Suc 0) (a :: u8)) = a" "be_word (be_bytes 2 (b :: u16)) = b"
  "be_word (be_bytes 4 (c :: u32)) = c" "be_word (be_bytes 8 (d :: u64)) = d"
  by (simp_all add: be_word_bytes take_bit_word_eq_self del: be_bytes.simps)

lemma length_write_at [simp]: "off + length bs \<le> length msg \<Longrightarrow> length (write_at off bs msg) = length msg"
  by (simp add: write_at_def)

lemma read_write_same: "off + length bs \<le> length msg \<Longrightarrow> read_at off (length bs) (write_at off bs msg) = bs"
  by (simp add: read_at_def write_at_def)

lemma read_write_before: "n + k \<le> off \<Longrightarrow> off \<le> length msg \<Longrightarrow> read_at n k (write_at off bs msg) = read_at n k msg"
  by (simp add: read_at_def write_at_def take_drop min_def)

section \<open>The connection payload\<close>

record mudm_connect_payload =
  source_conn_index :: u16
  pl_dest_conn_index :: u16
  pl_version :: u8
  using_IO_port :: u8
  rec_FIFO_Id :: u16
  source_BlockID :: u32
  myBridgeTorusAddress :: u32
  sourceUCI :: u64
  pl_timestamp :: u64

definition payload_bytes :: "mudm_connect_payload \<Rightarrow> u8 list" where
  "payload_bytes p = be_bytes 2 (source_conn_index p) @ be_bytes 2 (pl_dest_conn_index p) @ be_bytes 1 (pl_version p) @
     be_bytes 1 (using_IO_port p) @ be_bytes 2 (rec_FIFO_Id p) @ be_bytes 4 (source_BlockID p) @
     be_bytes 4 (myBridgeTorusAddress p) @ be_bytes 8 (sourceUCI p) @ be_bytes 8 (pl_timestamp p)"

definition payload_of_bytes :: "u8 list \<Rightarrow> mudm_connect_payload" where
  "payload_of_bytes bs = \<lparr>source_conn_index = be_word (read_at 0 2 bs), pl_dest_conn_index = be_word (read_at 2 2 bs),
     pl_version = be_word (read_at 4 1 bs), using_IO_port = be_word (read_at 5 1 bs),
     rec_FIFO_Id = be_word (read_at 6 2 bs), source_BlockID = be_word (read_at 8 4 bs),
     myBridgeTorusAddress = be_word (read_at 12 4 bs), sourceUCI = be_word (read_at 16 8 bs),
     pl_timestamp = be_word (read_at 24 8 bs)\<rparr>"

lemma length_payload_bytes [simp]: "length (payload_bytes p) = 32"
  by (simp add: payload_bytes_def del: be_bytes.simps)

lemma payload_roundtrip: "payload_of_bytes (payload_bytes p) = p"
  by (cases p) (simp add: payload_of_bytes_def payload_bytes_def read_at_def del: be_bytes.simps)

section \<open>Received packets\<close>

text \<open>
  What a handler finds behind the pointer \<^verbatim>\<open>hdr\<close> to a memory FIFO packet: the network header, the
  memory FIFO header with the software bytes, and the payload behind the 32 header bytes.
\<close>

record mu_packet =
  pk_net :: net_header
  pk_muh :: memory_fifo
  pk_payload :: "u8 list"

abbreviation pk_sw :: "mu_packet \<Rightarrow> ionet_header" where
  "pk_sw p \<equiv> SoftwareBytes (pk_muh p)"

section \<open>The context\<close>

record my_context = conn_table +
  mmagic :: u64
  max_connections :: u64
  injfifo_ctls :: injs
  packetcontrols :: "nat \<Rightarrow> pkt_controls"
  smallpa_obj_ctls :: "nat \<Rightarrow> pkt_controls"
  rdma_obj_ctls :: "nat \<Rightarrow> rdma_obj_controls"
  pkt_mem :: "nat \<Rightarrow> nat \<Rightarrow> u8 list"
  smallpa_mem :: "nat \<Rightarrow> nat \<Rightarrow> u8 list"
  notice_sources :: notice_addrs
  my_using_IO_port :: u8
  myTorusAddress :: u32
  mybridgingCNnode :: u32
  myUCI :: u64
  myBlockID :: u32
  sys_rec_fifo_id :: "nat \<Rightarrow> u32"
  link_BlockID :: "nat \<Rightarrow> u32"
  link4reset :: "nat \<Rightarrow> u64"
  StuckState :: bool

text \<open>For the examples: a context at torus address \<open>me\<close> with one connection, on the list \<open>c\<close>.\<close>

definition demo_ctx :: "u32 \<Rightarrow> clist \<Rightarrow> my_context" where
  "demo_ctx me c = \<lparr>conns = (\<lambda>_. demo_conn), clinks = \<lparr>nxt = (\<lambda>_. None), prv = (\<lambda>_. None)\<rparr>,
     conn_freelist = (if c = LFree then Some 0 else None),
     conn_pendlist = (\<lambda>l. if c = LPend l then Some 0 else None),
     conn_activelist = (\<lambda>l. if c = LActive l then Some 0 else None),
     conn_abortlist = (\<lambda>l. if c = LAbort l then Some 0 else None),
     mmagic = MUDM_MAGIC, max_connections = 1, injfifo_ctls = demo_injs, packetcontrols = (\<lambda>_. demo_pkts),
     smallpa_obj_ctls = (\<lambda>_. demo_pkts), rdma_obj_ctls = (\<lambda>_. demo_rdma), pkt_mem = (\<lambda>_ _. replicate 512 0),
     smallpa_mem = (\<lambda>_ _. replicate 512 0), notice_sources = \<lparr>rdma_EINVAL_source_pa = 8, rdma_GOOD_source_pa = 16\<rparr>,
     my_using_IO_port = TORUS_PORT_6, myTorusAddress = me, mybridgingCNnode = 9, myUCI = 3, myBlockID = 5,
     sys_rec_fifo_id = (\<lambda>_. 264), link_BlockID = (\<lambda>_. 0), link4reset = (\<lambda>_. 0), StuckState = False\<rparr>"

lemma demo_ctx_rep: "conn_rep (demo_ctx me c) ((\<lambda>_. [])(c := [0]))"
proof -
  have "clist_head (demo_ctx me c) = (\<lambda>_. None)(c := Some 0)"
    by (rule ext, rename_tac d, case_tac d) (auto simp: demo_ctx_def)
  then show ?thesis by (auto simp: conn_rep_def links_rep_def demo_ctx_def)
qed

lemma demo_pkts_free: "pkt_free_list demo_pkts = Some 0"
  using demo_pkts_rep by (simp add: pkt_rep_def)

lemma demo_injs_ctl: "ctl_inv 4 (demo_injs l)"
  using links_room_ctl[OF demo_injs_room[of 1]] by simp

end
