(* ===== verification/Mudm_Connect.thy ===== *)
theory Mudm_Connect
  imports Mudm_Context
begin

text \<open>
  Connection management, \<^verbatim>\<open>bgmudm/mudm_connect.c\<close>: connecting, replying, disconnecting, and the
  handlers of the packets the peer sends for each.  The result \<open>None\<close> of an operation stands for
  a failed assertion, a \<^verbatim>\<open>NULL\<close> pointer followed, or an injection that spins for ever.  A handler
  returns \<open>Inl e\<close> for \<^verbatim>\<open>-e\<close> and \<open>Inr n\<close> for the value of the user's callback.
\<close>

section \<open>Constants and messages\<close>

definition MUDM_CONN_REQUEST :: u16 where "MUDM_CONN_REQUEST = 0x1bc2"
definition MUDM_CONN_REPLY :: u16 where "MUDM_CONN_REPLY = 0x1bc3"
definition MUDM_DISCONNECTED :: u16 where "MUDM_DISCONNECTED = 0xdddd"
definition MUDM_CN2IO_NODE :: u32 where "MUDM_CN2IO_NODE = -1"
definition MUDM_NODE_LOOPBACK :: u32 where "MUDM_NODE_LOOPBACK = 0xC0000000"

definition get_init_sys_rec_fifo_id :: "nat \<Rightarrow> u32" where
  "get_init_sys_rec_fifo_id i = [264, 268] ! i"

record ionet_connect =
  ic_hdr :: ionet_header
  source_port :: u32
  dest_port :: u32
  source_IP_addr :: "u8 list"
  dest_IP_addr :: "u8 list"
  source_request_id :: u64
  ic_status :: u32
  private_data_length :: u16

text \<open>The bytes of the structure behind its header; an IP address has 16 bytes.\<close>

definition connect_bytes :: "ionet_connect \<Rightarrow> u8 list" where
  "connect_bytes ic = be_bytes 4 (source_port ic) @ be_bytes 4 (dest_port ic) @ source_IP_addr ic @ dest_IP_addr ic @
     be_bytes 8 (source_request_id ic) @ be_bytes 4 (ic_status ic) @ be_bytes 2 (private_data_length ic)"

definition connect_payload_length :: nat where "connect_payload_length = 54"

text \<open>\<open>ic->status\<close> of a received packet, and the connection payload at byte 256.\<close>

definition pk_status :: "mu_packet \<Rightarrow> u32" where
  "pk_status p = be_word (read_at 48 4 (pk_payload p))"

definition pk_connect :: "mu_packet \<Rightarrow> mudm_connect_payload" where
  "pk_connect p = payload_of_bytes (read_at 256 32 (pk_payload p))"

text \<open>The three writes into the packet buffer, in the order of the code.\<close>

definition connect_body :: "ionet_connect \<Rightarrow> u8 list option \<Rightarrow> u8 list \<Rightarrow> u8 list" where
  "connect_body ic private_data msg =
     (let m1 = write_at 0 (connect_bytes ic) msg
      in case private_data of
           None \<Rightarrow> m1
         | Some pd \<Rightarrow> write_at connect_payload_length (take (unat (private_data_length ic)) pd) m1)"

definition connect_message ::
  "ionet_connect \<Rightarrow> u8 list option \<Rightarrow> mudm_connect_payload \<Rightarrow> u8 list \<Rightarrow> u8 list" where
  "connect_message ic private_data pl msg = write_at 256 (payload_bytes pl) (connect_body ic private_data msg)"

section \<open>Directions\<close>

definition set_direction_request :: "u32 \<Rightarrow> u32 \<Rightarrow> direction" where
  "set_direction_request src_torus dest_torus =
     (if src_torus = MUDM_NODE_LOOPBACK then NODE_LOOPBACK
      else if src_torus = dest_torus then NODE_LOOPBACK
      else if dest_torus = MUDM_CN2IO_NODE then CN2IONODE
      else if src_torus AND 0x80000000 \<noteq> 0
      then (if dest_torus AND 0x80000000 \<noteq> 0 then ION2ION else IONODE2CN)
      else (if dest_torus AND 0x80000000 \<noteq> 0 then CN2IONODE else CN2CN))"

section \<open>Shared pieces\<close>

definition upd_packets :: "nat \<Rightarrow> (pkt_controls \<Rightarrow> pkt_controls) \<Rightarrow> my_context \<Rightarrow> my_context" where
  "upd_packets l f mc = mc\<lparr>packetcontrols := (packetcontrols mc)(l := f (packetcontrols mc l))\<rparr>"

definition conn_inject :: "hws \<Rightarrow> nat \<Rightarrow> my_context \<Rightarrow> (u64 \<times> my_context) option" where
  "conn_inject hs x mc =
     (let c = conns mc x; l = injfifo_of c in
      map_option (\<lambda>(cnt, is). (cnt, mc\<lparr>injfifo_ctls := is\<rparr>))
        (on_link l (InjFifoInject (hs l) (MemFifoDesc (mu_iMemoryFifoDescriptor c))) (injfifo_ctls mc)))"

text \<open>
  Behind a successful injection: the packet goes to the free list if the hardware has already
  processed it, else to the poll list.  Reading the descriptor count takes one observation.
\<close>

definition conn_pkt_sent :: "hws \<Rightarrow> u64 \<Rightarrow> nat \<Rightarrow> nat \<Rightarrow> u64 \<Rightarrow> my_context \<Rightarrow> my_context" where
  "conn_pkt_sent hs now x pktd desc_count mc =
     (let c = conns mc x; l = injfifo_of c; ctl = injfifo_ctls mc l;
          (complete, f) = MUSPI_CheckDescComplete (hw_descCount (hs l (clock ctl))) desc_count (injfifo ctl);
          mc1 = mc\<lparr>injfifo_ctls := (injfifo_ctls mc)(l := \<lparr>injfifo = f, clock = clock ctl + 1\<rparr>)\<rparr>
      in upd_packets (pools_of c)
           (if complete then release_pkt_to_free pktd desc_count
            else (\<lambda>pc. snd (release_pkt_to_poll_ccontext now pktd desc_count x pc))) mc1)"

text \<open>The destination of the reverse direct puts, with the port they use.\<close>

definition reverse_target :: "my_context \<Rightarrow> mudm_connection \<Rightarrow> u32" where
  "reverse_target mc c =
     (if reverse_direction c = CN2IONODE then remote_bridgingCNnode c else myTorusAddress mc)"

section \<open>Connecting\<close>

definition connect_fields :: "my_context \<Rightarrow> u32 \<Rightarrow> mudm_connection \<Rightarrow> mudm_connection" where
  "connect_fields mc dest_node c =
     (let dir = set_direction_request (myTorusAddress mc) dest_node;
          c0 = c\<lparr>cdirection := dir, local_rec_FIFO_Id := ucast (sys_rec_fifo_id mc 0),
                 remote_rec_FIFO_Id := ucast (sys_rec_fifo_id mc 0), injfifo_of := 0, pools_of := 0,
                 activelist_of := Some 0, abortlist_of := Some 0\<rparr>
      in if dir = IONODE2CN
         then (let c1 = c0\<lparr>reverse_direction := CN2IONODE\<rparr>
               in if my_using_IO_port mc \<noteq> IO_PORT \<and> NUM_IO_LINKS > 1
                  then c1\<lparr>local_rec_FIFO_Id := ucast (sys_rec_fifo_id mc 1), injfifo_of := 1, pools_of := 1,
                          activelist_of := Some 1, abortlist_of := Some 1\<rparr>
                  else c1)
         else if dir = CN2IONODE
         then (let c1 = c0\<lparr>reverse_direction := IONODE2CN\<rparr>
               in if my_using_IO_port mc \<noteq> IO_PORT
                  then c1\<lparr>remote_rec_FIFO_Id := ucast (get_init_sys_rec_fifo_id 1)\<rparr> else c1)
         else c0\<lparr>reverse_direction := dir\<rparr>)"

definition connect_payload :: "my_context \<Rightarrow> mudm_connection \<Rightarrow> mudm_connect_payload" where
  "connect_payload mc c =
     \<lparr>source_conn_index = my_index c, pl_dest_conn_index = -1, pl_version = MUDM_VERSION,
      using_IO_port = my_using_IO_port mc, rec_FIFO_Id = local_rec_FIFO_Id c, source_BlockID = myBlockID mc,
      myBridgeTorusAddress = mybridgingCNnode mc, sourceUCI = myUCI mc, pl_timestamp = my_timestamp c\<rparr>"

text \<open>The connection block after its descriptors are initialised, for a packet at \<open>pa\<close>.\<close>

definition connect_descriptors ::
  "my_context \<Rightarrow> u32 \<Rightarrow> ionet_header \<Rightarrow> u16 \<Rightarrow> u64 \<Rightarrow> mudm_connection \<Rightarrow> mudm_connection option" where
  "connect_descriptors mc dest_node hdr plen pa c =
     (let dir = cdirection c; port = my_using_IO_port mc; me = myTorusAddress mc;
          swb = hdr\<lparr>sequence_number := my_index c, torus_source_node := me,
                    torus_dest_node := (if dir = NODE_LOOPBACK then me else dest_node),
                    payload_length := of_nat connect_payload_length + plen, ptype := MUDM_CONN_REQUEST\<rparr>;
          use_dest = (if dir = CN2IONODE then mybridgingCNnode mc
                      else if dir = NODE_LOOPBACK then me else dest_node);
          rport = (if port = 0xff then IO_PORT else port);
          rdest = reverse_target mc c
      in case (InitPt2PtMemoryFIFODescriptor swb pa 288 use_dest dir port (remote_rec_FIFO_Id c),
               initPt2PtDirectPutDescriptor 0 0 use_dest dir port 0 0,
               initPt2PtDirectPutDescriptor 0 0 rdest (reverse_direction c) rport 0 0) of
           (Some mf, Some dp, Some rg) \<Rightarrow>
             Some (c\<lparr>lowbit_timestamp := ucast (my_timestamp c), io_port := port, destination := dest_node,
                     mu_iMemoryFifoDescriptor := mf, mu_iDirectPutDescriptor := dp, reverse_destination := rdest,
                     reverse_io_port := rport, mu_iDirectPutDescriptor4rget := rg\<rparr>)
         | _ \<Rightarrow> None)"

text \<open>
  \<open>now\<close> and \<open>now'\<close> are the time stamps of \<^verbatim>\<open>conn_list_getfree\<close> and \<^verbatim>\<open>release_pkt_to_poll\<close>.  The
  second result is \<^verbatim>\<open>*conn_context\<close>, \<open>None\<close> where the code has not set it.
\<close>

definition mudm_connect ::
  "hws \<Rightarrow> u64 \<Rightarrow> u64 \<Rightarrow> u32 \<Rightarrow> ionet_connect \<Rightarrow> u8 list option \<Rightarrow> u16 \<Rightarrow> my_context
   \<Rightarrow> (ret \<times> ptr \<times> my_context) option" where
  "mudm_connect hs now now' dest_node conn_request private_data plen mc =
     (if mmagic mc \<noteq> MUDM_MAGIC then Some (RetErr EINVAL, None, mc)
      else if plen > 256 then Some (RetErr EINVAL, None, mc)
      else case conn_list_getfree now mc of
        (None, mc1) \<Rightarrow> Some (RetErr EXFULL, None, mc1)
      | (Some x, mc1) \<Rightarrow>
         (let mc2 = upd_conn x (connect_fields mc1 dest_node) mc1;
              l = pools_of (conns mc2 x);
              req = conn_request\<lparr>private_data_length := plen\<rparr>
          in case alloc_pkt_message (packetcontrols mc2 l) of
               (None, pc) \<Rightarrow>
                 map_option (\<lambda>(_, mc3). (RetErr EBUSY, Some x, mc3)) (connection_free x mc2)
             | (Some pktd, pc) \<Rightarrow>
                 (let mc3 = mc2\<lparr>packetcontrols := (packetcontrols mc2)(l := pc),
                      pkt_mem := (pkt_mem mc2)(l := (pkt_mem mc2 l)(pktd :=
                        connect_message req private_data (connect_payload mc2 (conns mc2 x)) (pkt_mem mc2 l pktd)))\<rparr>
                  in case connect_descriptors mc3 dest_node (ic_hdr req) plen (message_pa (pkt_nodes pc pktd)) (conns mc3 x) of
                       None \<Rightarrow> None
                     | Some c \<Rightarrow>
                        (case conn_inject hs x (put_on_pending_list x 0 (upd_conn x (\<lambda>_. c) mc3)) of
                           None \<Rightarrow> None
                         | Some (desc_count, mc4) \<Rightarrow>
                            if desc_count = -1
                            then map_option (\<lambda>(_, mc5). (RetErr ECANCELED, Some x, mc5))
                                   (connection_free x (upd_packets l (release_pkt_to_free pktd desc_count) mc4))
                            else Some (RetOK, Some x, conn_pkt_sent hs now' x pktd desc_count mc4)))))"

section \<open>Replying\<close>

definition reply_payload :: "my_context \<Rightarrow> mudm_connection \<Rightarrow> mudm_connect_payload" where
  "reply_payload mc c =
     \<lparr>source_conn_index = my_index c, pl_dest_conn_index = dest_conn_index c, pl_version = MUDM_VERSION,
      using_IO_port = io_port c, rec_FIFO_Id = local_rec_FIFO_Id c, source_BlockID = myBlockID mc,
      myBridgeTorusAddress = mybridgingCNnode mc, sourceUCI = myUCI mc, pl_timestamp = my_timestamp c\<rparr>"

definition reply_memfifo ::
  "my_context \<Rightarrow> ionet_header \<Rightarrow> u16 \<Rightarrow> u64 \<Rightarrow> mudm_connection \<Rightarrow> memfifo_desc option" where
  "reply_memfifo mc hdr plen pa c =
     InitPt2PtMemoryFIFODescriptor
       (hdr\<lparr>sequence_number := my_index c, torus_source_node := myTorusAddress mc, torus_dest_node := destination c,
            payload_length := of_nat connect_payload_length + plen, ptype := MUDM_CONN_REPLY\<rparr>)
       pa 288 (if cdirection c = CN2IONODE then mybridgingCNnode mc else destination c)
       (cdirection c) (io_port c) (remote_rec_FIFO_Id c)"

definition reply_directputs :: "my_context \<Rightarrow> mudm_connection \<Rightarrow> mudm_connection option" where
  "reply_directputs mc c =
     (let rdest = reverse_target mc c
      in case (initPt2PtDirectPutDescriptor 0 0 (destination c) (cdirection c) (io_port c) 0 0,
               initPt2PtDirectPutDescriptor 0 0 rdest (reverse_direction c) (io_port c) 0 0) of
           (Some dp, Some rg) \<Rightarrow>
             Some (c\<lparr>mu_iDirectPutDescriptor := dp, reverse_destination := rdest, reverse_io_port := io_port c,
                     mu_iDirectPutDescriptor4rget := rg\<rparr>)
         | _ \<Rightarrow> None)"

text \<open>The label \<^verbatim>\<open>CONN_RESP_ERR\<close>.\<close>

definition conn_resp_err :: "nat \<Rightarrow> u32 \<Rightarrow> my_context \<Rightarrow> (ret \<times> my_context) option" where
  "conn_resp_err x status mc =
     (if status = 0
      then map_option (\<lambda>(_, mc1). (RetErr ENOTCONN, mc1))
             (connection_free x (upd_conn x (\<lambda>c. c\<lparr>cstate := CONN_ORPHANED\<rparr>) mc))
      else map_option (\<lambda>(_, mc1). (RetOK, mc1)) (connection_free x mc))"

definition reply_activate :: "nat \<Rightarrow> u32 \<Rightarrow> my_context \<Rightarrow> my_context option" where
  "reply_activate x status mc =
     (if status \<noteq> 0 then Some (upd_conn x (\<lambda>c. c\<lparr>cstate := CONN_DISCONNECTING\<rparr>) mc)
      else connection_activate x mc)"

definition reset_seqnum :: "mudm_connection \<Rightarrow> mudm_connection" where
  "reset_seqnum c = c\<lparr>memfifo_sent := 0\<rparr>"

text \<open>From the initialisation of the direct puts to the end.\<close>

definition reply_send ::
  "hws \<Rightarrow> u64 \<Rightarrow> nat \<Rightarrow> nat \<Rightarrow> ionet_connect \<Rightarrow> my_context \<Rightarrow> (ret \<times> my_context) option" where
  "reply_send hs now' x pktd rep mc =
     (case reply_directputs mc (conns mc x) of
        None \<Rightarrow> None
      | Some c \<Rightarrow>
         (case reply_activate x (ic_status rep) (upd_conn x (\<lambda>_. c) mc) of
            None \<Rightarrow> None
          | Some mc1 \<Rightarrow>
             (case conn_inject hs x (upd_conn x reset_seqnum mc1) of
                None \<Rightarrow> None
              | Some (desc_count, mc2) \<Rightarrow>
                 (let l = pools_of (conns mc2 x) in
                  if desc_count = -1
                  then conn_resp_err x (ic_status rep) (upd_packets l (release_pkt_to_free pktd desc_count) mc2)
                  else let mc3 = conn_pkt_sent hs now' x pktd desc_count (upd_conn x reset_seqnum mc2)
                       in if ic_status rep \<noteq> 0 then conn_resp_err x (ic_status rep) mc3 else Some (RetOK, mc3)))))"

definition mudm_conn_reply ::
  "hws \<Rightarrow> u64 \<Rightarrow> nat \<Rightarrow> ionet_connect \<Rightarrow> u8 list option \<Rightarrow> u16 \<Rightarrow> my_context \<Rightarrow> (ret \<times> my_context) option" where
  "mudm_conn_reply hs now' x conn_reply private_data plen mc0 =
     (let mc = upd_conn x reset_seqnum mc0; c = conns mc x; l = pools_of c;
          rep = conn_reply\<lparr>private_data_length := plen\<rparr>
      in if plen > 256 then Some (RetErr EINVAL, mc)
         else if \<not> conn_magic_ok c then Some (RetErr EFAULT, mc)
         else if mmagic mc \<noteq> MUDM_MAGIC then Some (RetErr EFAULT, mc)
         else case alloc_pkt_message (packetcontrols mc l) of
           (None, pc) \<Rightarrow> Some (RetErr EBUSY, mc)
         | (Some pktd, pc) \<Rightarrow>
            (case reply_memfifo mc (ic_hdr rep) plen (message_pa (pkt_nodes pc pktd)) c of
               None \<Rightarrow> None
             | Some mf \<Rightarrow>
                (let put_msg = (\<lambda>m. upd_conn x (\<lambda>k. k\<lparr>mu_iMemoryFifoDescriptor := mf\<rparr>)
                       (mc\<lparr>packetcontrols := (packetcontrols mc)(l := pc),
                           pkt_mem := (pkt_mem mc)(l := (pkt_mem mc l)(pktd := m (pkt_mem mc l pktd)))\<rparr>))
                 in if cstate c = CONN_ABORTED
                    then conn_resp_err x (ic_status rep)
                           (upd_packets l (release_pkt_to_free pktd (-1)) (put_msg (connect_body rep private_data)))
                    else reply_send hs now' x pktd rep
                           (put_msg (connect_message rep private_data (reply_payload mc c))))))"

section \<open>Disconnecting\<close>

text \<open>
  On Linux the result of a successful disconnect is \<^verbatim>\<open>-ENOSYS\<close>.  The disconnect header lies over
  the software bytes, the index over the sequence number, the time stamp over the length.
\<close>

definition disconnect_header :: "mudm_connection \<Rightarrow> memfifo_desc \<Rightarrow> memfifo_desc" where
  "disconnect_header c d =
     (let d1 = Update_memfifo_payload 0 0 d
      in d1\<lparr>muh := (muh d1)\<lparr>SoftwareBytes := (SoftwareBytes (muh d1))
            \<lparr>sequence_number := dest_conn_index c, ptype := MUDM_DISCONNECTED,
             payload_length := ucast (remote_timestamp c)\<rparr>\<rparr>\<rparr>)"

definition mudm_disconnect :: "hws \<Rightarrow> nat \<Rightarrow> my_context \<Rightarrow> (ret \<times> my_context) option" where
  "mudm_disconnect hs x mc =
     (let c = conns mc x in
      if \<not> conn_magic_ok c then Some (RetErr EFAULT, mc)
      else if cstate c = CONN_FREE then Some (RetErr ENOTCONN, mc)
      else if cstate c = CONN_DISCONNECTING then Some (RetErr ECONNRESET, mc)
      else
        (let mc1 = upd_conn x (\<lambda>k. k\<lparr>mu_iMemoryFifoDescriptor := disconnect_header k (mu_iMemoryFifoDescriptor k),
                                     cstate := CONN_DISCONNECTING\<rparr>) mc
         in case conn_inject hs x mc1 of
              None \<Rightarrow> None
            | Some (desc_count, mc2) \<Rightarrow>
                if desc_count = -1 then Some (RetErr ECANCELED, mc2)
                else map_option (\<lambda>(_, mc3). (RetErr ENOSYS, mc3)) (connection_free x mc2)))"

section \<open>Handlers of connection packets\<close>

text \<open>The user's callback on a connection, the header of the message, and the payload behind it.\<close>

type_synonym recv_conn = "nat \<Rightarrow> ionet_header \<Rightarrow> u8 list \<Rightarrow> my_context \<Rightarrow> (int \<times> my_context) option"

definition disconnect_swap :: "mudm_connection \<Rightarrow> ionet_header \<Rightarrow> ionet_header" where
  "disconnect_swap c h =
     h\<lparr>source_qpn := dest_qpn h, dest_qpn := source_qpn h, torus_source_node := torus_dest_node h,
       torus_dest_node := torus_source_node h, ptype := MUDM_DISCONNECTED, payload_length := 0,
       sequence_number := my_index c\<rparr>"

definition disconnect_indicate ::
  "recv_conn \<Rightarrow> nat \<Rightarrow> bool \<Rightarrow> my_context \<Rightarrow> (int \<times> my_context) option" where
  "disconnect_indicate recv_conn x free_option mc =
     (let swap = (\<lambda>c. c\<lparr>mu_iMemoryFifoDescriptor := (mu_iMemoryFifoDescriptor c)
                \<lparr>muh := (muh (mu_iMemoryFifoDescriptor c))
                   \<lparr>SoftwareBytes := disconnect_swap c (SoftwareBytes (muh (mu_iMemoryFifoDescriptor c)))\<rparr>\<rparr>\<rparr>);
          mc1 = upd_conn x swap mc
      in case recv_conn x (SoftwareBytes (muh (mu_iMemoryFifoDescriptor (conns mc1 x)))) [] mc1 of
           None \<Rightarrow> None
         | Some (r, mc2) \<Rightarrow>
             if free_option then map_option (\<lambda>(_, mc3). (r, mc3)) (connection_free x mc2) else Some (r, mc2))"

partial_function (option) flush_iolink_loop ::
  "recv_conn \<Rightarrow> ptr \<Rightarrow> ptr \<Rightarrow> my_context \<Rightarrow> (ptr \<times> my_context) option" where
  "flush_iolink_loop recv_conn p last_ccontext mc =
     (case p of None \<Rightarrow> Some (last_ccontext, mc)
      | Some x \<Rightarrow>
         (case disconnect_indicate recv_conn x False (upd_conn x (\<lambda>c. c\<lparr>cstate := CONN_FREE\<rparr>) mc) of
            None \<Rightarrow> None
          | Some (_, mc1) \<Rightarrow>
              flush_iolink_loop recv_conn (nxt (clinks mc1) x) (Some x)
                (upd_conn x (\<lambda>c. c\<lparr>activelist_of := None\<rparr>) mc1)))"

definition flush_iolink_connection_list :: "recv_conn \<Rightarrow> nat \<Rightarrow> my_context \<Rightarrow> my_context option" where
  "flush_iolink_connection_list recv_conn l mc =
     (case conn_activelist mc l of
        None \<Rightarrow> Some mc
      | Some x \<Rightarrow>
         map_option (\<lambda>(lst, mc1).
             mc1\<lparr>clinks := link_splice lst (conn_freelist mc1) (clinks mc1), conn_freelist := Some x,
                 conn_activelist := (conn_activelist mc1)(l := None)\<rparr>)
           (flush_iolink_loop recv_conn (Some x) (Some x) mc))"

text \<open>The index in the packet is not checked: \<open>conns\<close> beyond the table is foreign memory.\<close>

definition disconnect_request :: "recv_conn \<Rightarrow> mu_packet \<Rightarrow> my_context \<Rightarrow> ((errno + int) \<times> my_context) option" where
  "disconnect_request recv_conn p mc =
     (let h = pk_sw p; x = unat (sequence_number h); c = conns mc x in
      if \<not> conn_magic_ok c then Some (Inl EFAULT, mc)
      else if payload_length h \<noteq> lowbit_timestamp c then Some (Inl EINVAL, mc)
      else if cstate c = CONN_FREE then Some (Inl ENOTCONN, mc)
      else if cstate c = CONN_DISCONNECTING then Some (Inl ECONNRESET, mc)
      else case connection_free x (upd_conn x (\<lambda>k. k\<lparr>cstate := CONN_DISCONNECTING\<rparr>) mc) of
             None \<Rightarrow> None
           | Some (_, mc1) \<Rightarrow> map_option (\<lambda>(r, mc2). (Inr r, mc2)) (recv_conn x h (pk_payload p) mc1))"

definition request_fields :: "my_context \<Rightarrow> mu_packet \<Rightarrow> nat \<Rightarrow> mudm_connection \<Rightarrow> mudm_connection" where
  "request_fields mc p l c =
     (let h = pk_sw p; pl = pk_connect p; dir = set_direction_request (myTorusAddress mc) (torus_source_node h)
      in c\<lparr>remote_rec_FIFO_Id := rec_FIFO_Id pl, cdirection := dir,
           reverse_direction := (if dir = IONODE2CN then CN2IONODE else if dir = CN2IONODE then IONODE2CN else dir),
           injfifo_of := l, local_rec_FIFO_Id := ucast (sys_rec_fifo_id mc l), pools_of := l,
           activelist_of := Some l, abortlist_of := Some l, destination := torus_source_node h,
           dest_conn_index := source_conn_index pl, remote_bridgingCNnode := myBridgeTorusAddress pl,
           reverse_io_port := using_IO_port pl, io_port := using_IO_port pl, remote_BlockID := source_BlockID pl,
           remote_timestamp := pl_timestamp pl,
           mu_iMemoryFifoDescriptor := (mu_iMemoryFifoDescriptor c)\<lparr>NetworkHeader := pk_net p, muh := pk_muh p\<rparr>\<rparr>)"

definition request_link :: "my_context \<Rightarrow> mu_packet \<Rightarrow> nat" where
  "request_link mc p =
     (if set_direction_request (myTorusAddress mc) (torus_source_node (pk_sw p)) = IONODE2CN \<and>
         using_IO_port (pk_connect p) \<noteq> IO_PORT \<and> NUM_IO_LINKS > 1
      then 1 else 0)"

text \<open>The link to reset when the peer's block goes away, by the port it uses.\<close>

definition reset_link :: "u8 \<Rightarrow> u64 \<Rightarrow> u64" where
  "reset_link port l4r =
     (if l4r \<noteq> 0 then l4r
      else if port = IO_PORT then 10 else if port = TORUS_PORT_6 then 6 else if port = TORUS_PORT_7 then 7 else l4r)"

definition connect_request ::
  "u64 \<Rightarrow> recv_conn \<Rightarrow> mu_packet \<Rightarrow> my_context \<Rightarrow> ((errno + int) \<times> my_context) option" where
  "connect_request now recv_conn p mc =
     (case conn_list_getfree now mc of
        (None, mc1) \<Rightarrow> Some (Inl EXFULL, mc1)
      | (Some x, mc1) \<Rightarrow>
         (let l = request_link mc1 p; pl = pk_connect p;
              mc2 = (upd_conn x (request_fields mc1 p l) mc1)
                \<lparr>link_BlockID := (link_BlockID mc1)(l := source_BlockID pl),
                 link4reset := (link4reset mc1)(l := reset_link (using_IO_port pl) (link4reset mc1 l))\<rparr>;
              mc3 = upd_conn x reset_seqnum (put_on_pending_list x l mc2)
          in map_option (\<lambda>(r, mc4). (Inr r, upd_conn x reset_seqnum mc4)) (recv_conn x (pk_sw p) (pk_payload p) mc3)))"

text \<open>What a reply changes in the block before it is activated.\<close>

definition reply_fields :: "mu_packet \<Rightarrow> mudm_connection \<Rightarrow> mudm_connection option" where
  "reply_fields p c =
     (let pl = pk_connect p; h = pk_sw p; d = mu_iMemoryFifoDescriptor c;
          d1 = d\<lparr>muh := (muh d)\<lparr>SoftwareBytes := (SoftwareBytes (muh d))
                 \<lparr>dest_qpn := source_qpn h, torus_dest_node := torus_source_node h\<rparr>\<rparr>\<rparr>;
          d2 = (if remote_rec_FIFO_Id c \<noteq> rec_FIFO_Id pl
                then d1\<lparr>muh := (muh d1)\<lparr>Rec_FIFO_Id := ucast (rec_FIFO_Id pl)\<rparr>\<rparr> else d1);
          c1 = (if io_port c \<noteq> using_IO_port pl \<and> reverse_direction c = IONODE2CN
                then map_option (\<lambda>rg. c\<lparr>reverse_io_port := using_IO_port pl, io_port := using_IO_port pl,
                                        mu_iDirectPutDescriptor4rget := rg\<rparr>)
                       (initPt2PtDirectPutDescriptor 0 0 (reverse_destination c) (reverse_direction c) (using_IO_port pl) 0 0)
                else Some c)
      in map_option (\<lambda>k. k\<lparr>mu_iMemoryFifoDescriptor := d2, dest_conn_index := source_conn_index pl,
             remote_bridgingCNnode := myBridgeTorusAddress pl, remote_timestamp := pl_timestamp pl,
             remote_BlockID := source_BlockID pl, remote_rec_FIFO_Id := rec_FIFO_Id pl\<rparr>) c1)"

definition connect_reply ::
  "recv_conn \<Rightarrow> mu_packet \<Rightarrow> my_context \<Rightarrow> ((errno + int) \<times> my_context) option" where
  "connect_reply recv_conn p mc =
     (let i = pl_dest_conn_index (pk_connect p); x = unat i in
      if \<not> ucast i < max_connections mc then Some (Inl EPERM1, mc)
      else if \<not> conn_magic_ok (conns mc x) then Some (Inl EFAULT, mc)
      else case reply_fields p (conns mc x) of
        None \<Rightarrow> None
      | Some c \<Rightarrow>
         (case connection_activate x (upd_conn x (\<lambda>_. c) mc) of
            None \<Rightarrow> None
          | Some mc1 \<Rightarrow>
             (let bad = (pk_status p \<noteq> 0);
                  mc2 = (if bad then upd_conn x (\<lambda>k. k\<lparr>cstate := CONN_DISCONNECTING\<rparr>) mc1 else mc1)
              in case recv_conn x (pk_sw p) (pk_payload p) mc2 of
                   None \<Rightarrow> None
                 | Some (r, mc3) \<Rightarrow>
                     if bad then map_option (\<lambda>(_, mc4). (Inr r, mc4)) (connection_free x mc3)
                     else Some (Inr r, mc3))))"

section \<open>Frames\<close>

lemma upd_conn_my_context [simp]:
  "mmagic (upd_conn x f mc) = mmagic mc" "max_connections (upd_conn x f mc) = max_connections mc"
  "injfifo_ctls (upd_conn x f mc) = injfifo_ctls mc" "packetcontrols (upd_conn x f mc) = packetcontrols mc"
  "pkt_mem (upd_conn x f mc) = pkt_mem mc" "my_using_IO_port (upd_conn x f mc) = my_using_IO_port mc"
  "myTorusAddress (upd_conn x f mc) = myTorusAddress mc" "mybridgingCNnode (upd_conn x f mc) = mybridgingCNnode mc"
  "myUCI (upd_conn x f mc) = myUCI mc" "myBlockID (upd_conn x f mc) = myBlockID mc"
  "sys_rec_fifo_id (upd_conn x f mc) = sys_rec_fifo_id mc"
  by (simp_all add: upd_conn_def)

lemma my_context_more:
  assumes "conn_table.more mc' = conn_table.more mc"
  shows "mmagic mc' = mmagic mc" "max_connections mc' = max_connections mc"
    "injfifo_ctls mc' = injfifo_ctls mc" "packetcontrols mc' = packetcontrols mc"
    "pkt_mem mc' = pkt_mem mc" "my_using_IO_port mc' = my_using_IO_port mc"
    "myTorusAddress mc' = myTorusAddress mc" "mybridgingCNnode mc' = mybridgingCNnode mc"
    "myUCI mc' = myUCI mc" "myBlockID mc' = myBlockID mc"
    "sys_rec_fifo_id mc' = sys_rec_fifo_id mc"
  using assms by (cases mc; cases mc'; simp)+

lemma upd_packets_simps [simp]:
  "conns (upd_packets l f mc) = conns mc" "clinks (upd_packets l f mc) = clinks mc"
  "clist_head (upd_packets l f mc) = clist_head mc" "injfifo_ctls (upd_packets l f mc) = injfifo_ctls mc"
  "pkt_mem (upd_packets l f mc) = pkt_mem mc" "mmagic (upd_packets l f mc) = mmagic mc"
  "packetcontrols (upd_packets l f mc) = (packetcontrols mc)(l := f (packetcontrols mc l))"
  by (simp_all add: upd_packets_def) (rule ext, rename_tac c, case_tac c; simp)

lemma put_on_pending_more [simp]: "conn_table.more (put_on_pending_list x l ct) = conn_table.more ct"
  by (simp add: put_on_pending_list_def)

lemma put_on_pending_conns [simp]:
  "conns (put_on_pending_list x l ct) =
     (conns ct)(x := (conns ct x)\<lparr>pendlist_of := Some l, cstate := CONN_PENDING\<rparr>)"
  by (rule ext) (simp add: put_on_pending_list_def)

lemma conn_inject_total:
  assumes "hws_live hs" "l = injfifo_of (conns mc x)" "ctl_inv n (injfifo_ctls mc l)"
  shows "\<exists>c'. conn_inject hs x mc = Some (of_nat (Suc (length (ctl_log (injfifo_ctls mc l)))),
        mc\<lparr>injfifo_ctls := (injfifo_ctls mc)(l := c')\<rparr>) \<and>
    ctl_log c' = ctl_log (injfifo_ctls mc l) @ [MemFifoDesc (mu_iMemoryFifoDescriptor (conns mc x))] \<and>
    inj_inv n (injfifo c') \<and> of_nat (Suc (length (ctl_log (injfifo_ctls mc l)))) \<noteq> (-1 :: u64)"
proof -
  have "hw_live (hs l)" using assms(1) by (simp add: hws_live_def)
  from inject_desc_total[OF this assms(3)] ctl_count_ne[OF assms(3)] show ?thesis
    by (fastforce simp: conn_inject_def on_link_def InjFifoInject_def assms(2)[symmetric] Let_def)
qed

lemma conn_pkt_sent_frame:
  "conns (conn_pkt_sent hs now x k cnt mc) = conns mc" "clinks (conn_pkt_sent hs now x k cnt mc) = clinks mc"
  "clist_head (conn_pkt_sent hs now x k cnt mc) = clist_head mc"
  "ctl_log (injfifo_ctls (conn_pkt_sent hs now x k cnt mc) l) = ctl_log (injfifo_ctls mc l)"
  "inj_inv n (injfifo (injfifo_ctls (conn_pkt_sent hs now x k cnt mc) l)) = inj_inv n (injfifo (injfifo_ctls mc l))"
  "pkt_mem (conn_pkt_sent hs now x k cnt mc) = pkt_mem mc"
proof -
  have h: "clist_head (mc\<lparr>injfifo_ctls := c\<rparr>) = clist_head mc" for c
    by (rule ext, rename_tac d, case_tac d) simp_all
  show "conns (conn_pkt_sent hs now x k cnt mc) = conns mc" "clinks (conn_pkt_sent hs now x k cnt mc) = clinks mc"
    "clist_head (conn_pkt_sent hs now x k cnt mc) = clist_head mc"
    "pkt_mem (conn_pkt_sent hs now x k cnt mc) = pkt_mem mc"
    by (simp_all add: conn_pkt_sent_def Let_def h split: prod.splits)
  show "ctl_log (injfifo_ctls (conn_pkt_sent hs now x k cnt mc) l) = ctl_log (injfifo_ctls mc l)"
    "inj_inv n (injfifo (injfifo_ctls (conn_pkt_sent hs now x k cnt mc) l)) = inj_inv n (injfifo (injfifo_ctls mc l))"
    by (auto simp: conn_pkt_sent_def Let_def MUSPI_CheckDescComplete_def ctl_log_def inj_inv_def fifo_geometry_def
        split: if_splits)
qed

lemma conn_rep_cong:
  "clinks mc' = clinks mc \<Longrightarrow> clist_head mc' = clist_head mc \<Longrightarrow> conn_rep mc' ls = conn_rep mc ls"
  by (simp add: conn_rep_def)

lemma conn_rep_upd [simp]: "conn_rep (upd_conn x f ct) ls = conn_rep ct ls"
proof -
  have "clist_head (upd_conn x f ct) = clist_head ct" by (rule ext) simp
  then show ?thesis by (simp add: conn_rep_def)
qed

text \<open>The fields of a block that connecting keeps, and those it chooses.\<close>

lemma connect_fields_simps [simp]:
  "my_index (connect_fields mc dest c) = my_index c" "my_timestamp (connect_fields mc dest c) = my_timestamp c"
  "cmagic (connect_fields mc dest c) = cmagic c" "activelist_of (connect_fields mc dest c) = Some (pools_of (connect_fields mc dest c))"
  "injfifo_of (connect_fields mc dest c) = pools_of (connect_fields mc dest c)"
  "cdirection (connect_fields mc dest c) = set_direction_request (myTorusAddress mc) dest"
  by (simp_all add: connect_fields_def Let_def)

lemma connect_fields_reverse:
  "reverse_direction (connect_fields mc dest c) =
     (case set_direction_request (myTorusAddress mc) dest of
        IONODE2CN \<Rightarrow> CN2IONODE | CN2IONODE \<Rightarrow> IONODE2CN | d \<Rightarrow> d)"
  by (simp add: connect_fields_def Let_def split: direction.splits)

definition port_ok :: "u8 \<Rightarrow> bool" where
  "port_ok p \<longleftrightarrow> p \<in> {IO_PORT, TORUS_PORT_6, TORUS_PORT_7}"

lemma connect_descriptors_total:
  assumes "port_ok (my_using_IO_port mc)"
  shows "\<exists>c' d. connect_descriptors mc dest hdr plen pa c = Some c' \<and> mu_iMemoryFifoDescriptor c' = d \<and>
    Pa_Payload d = pa \<and> Message_Length d = 288 \<and> ptype (SoftwareBytes (muh d)) = MUDM_CONN_REQUEST \<and>
    sequence_number (SoftwareBytes (muh d)) = my_index c \<and> torus_source_node (SoftwareBytes (muh d)) = myTorusAddress mc \<and>
    source_qpn (SoftwareBytes (muh d)) = source_qpn hdr \<and> dest_qpn (SoftwareBytes (muh d)) = dest_qpn hdr \<and>
    destination c' = dest \<and> my_index c' = my_index c \<and> my_timestamp c' = my_timestamp c \<and>
    lowbit_timestamp c' = ucast (my_timestamp c) \<and> cmagic c' = cmagic c \<and> activelist_of c' = activelist_of c \<and>
    injfifo_of c' = injfifo_of c \<and> pools_of c' = pools_of c \<and> io_port c' = my_using_IO_port mc \<and>
    cdirection c' = cdirection c \<and> reverse_direction c' = reverse_direction c"
proof -
  have r: "route_ok dir (my_using_IO_port mc)" for dir using assms by (simp add: route_ok_def port_ok_def)
  have ne: "my_using_IO_port mc \<noteq> 0xff" using assms by (auto simp: port_ok_def mu_consts)
  show ?thesis
    using r ne by (simp add: connect_descriptors_def Let_def InitPt2PtMemoryFIFODescriptor_def
      initPt2PtDirectPutDescriptor_def)
qed

section \<open>The message\<close>

definition ip_ok :: "ionet_connect \<Rightarrow> bool" where
  "ip_ok ic \<longleftrightarrow> length (source_IP_addr ic) = 16 \<and> length (dest_IP_addr ic) = 16"

lemma length_connect_bytes: "ip_ok ic \<Longrightarrow> length (connect_bytes ic) = 54"
  by (simp add: connect_bytes_def ip_ok_def del: be_bytes.simps)

lemma connect_message_read:
  assumes "ip_ok ic" "length msg = 512" "private_data_length ic \<le> 256"
  shows "length (connect_message ic pd pl msg) = 512"
    and "read_at 256 32 (connect_message ic pd pl msg) = payload_bytes pl"
    and "read_at 0 54 (connect_message ic pd pl msg) = connect_bytes ic"
    and "pd = Some bs \<Longrightarrow> length bs = unat (private_data_length ic) \<Longrightarrow>
      read_at 54 (min (unat (private_data_length ic)) 202) (connect_message ic pd pl msg) = take 202 bs"
proof -
  let ?m1 = "write_at 0 (connect_bytes ic) msg"
  let ?m2 = "case pd of None \<Rightarrow> ?m1 | Some b \<Rightarrow> write_at 54 (take (unat (private_data_length ic)) b) ?m1"
  have p: "unat (private_data_length ic) \<le> 256" using assms(3) by (simp add: word_le_nat_alt)
  have c: "length (connect_bytes ic) = 54" using length_connect_bytes[OF assms(1)] .
  have l1: "length ?m1 = 512" using assms(2) c by simp
  have l2: "length ?m2 = 512" using l1 p by (cases pd) simp_all
  have e: "connect_message ic pd pl msg = write_at 256 (payload_bytes pl) ?m2"
    unfolding connect_message_def connect_body_def Let_def connect_payload_length_def by (rule refl)
  show "length (connect_message ic pd pl msg) = 512" using l2 by (simp add: e)
  show "read_at 256 32 (connect_message ic pd pl msg) = payload_bytes pl"
    using read_write_same[of 256 "payload_bytes pl" ?m2] l2 by (simp add: e)
  have "read_at 0 54 (connect_message ic pd pl msg) = read_at 0 54 ?m2"
    unfolding e using l2 by (intro read_write_before) simp_all
  also have "\<dots> = read_at 0 54 ?m1" using l1 by (cases pd) (simp_all add: read_write_before)
  also have "\<dots> = connect_bytes ic" using read_write_same[of 0 "connect_bytes ic" msg] c assms(2) by simp
  finally show "read_at 0 54 (connect_message ic pd pl msg) = connect_bytes ic" .
  show "read_at 54 (min (unat (private_data_length ic)) 202) (connect_message ic pd pl msg) = take 202 bs"
    if "pd = Some bs" "length bs = unat (private_data_length ic)"
  proof -
    let ?n = "min (unat (private_data_length ic)) 202"
    have "read_at 54 ?n (connect_message ic pd pl msg) = read_at 54 ?n ?m2"
      unfolding e using l2 by (intro read_write_before) simp_all
    also have "\<dots> = take ?n (read_at 54 (length bs) ?m2)"
      using that(2) by (simp add: read_at_def min_def)
    also have "read_at 54 (length bs) ?m2 = bs"
      using that read_write_same[of 54 bs ?m1] l1 p by simp
    finally show ?thesis using that(2) by (simp add: min_def)
  qed
qed

section \<open>Connecting succeeds\<close>

text \<open>The link a request is sent on.\<close>

definition connect_link :: "my_context \<Rightarrow> u32 \<Rightarrow> nat" where
  "connect_link mc dest =
     (if set_direction_request (myTorusAddress mc) dest = IONODE2CN \<and> my_using_IO_port mc \<noteq> IO_PORT then 1 else 0)"

lemma connect_fields_link: "pools_of (connect_fields mc dest c) = connect_link mc dest"
  by (simp add: connect_fields_def connect_link_def Let_def NUM_IO_LINKS_def)

lemma mudm_connect_total:
  assumes mm: "mmagic mc = MUDM_MAGIC" and pl: "plen \<le> 256" and po: "port_ok (my_using_IO_port mc)"
    and rep: "conn_rep mc ls" and fs: "ls LFree = x # fs" and hs: "hws_live hs"
    and inj: "ctl_inv n (injfifo_ctls mc l)" and l: "l = connect_link mc dest"
    and pool: "pkt_free_list (packetcontrols mc l) = Some k"
  shows "\<exists>mc' d. mudm_connect hs now now' dest req pd plen mc = Some (RetOK, Some x, mc') \<and>
    conn_rep mc' (ls(LFree := fs, LPend 0 := x # ls (LPend 0))) \<and>
    ctl_log (injfifo_ctls mc' l) = ctl_log (injfifo_ctls mc l) @ [MemFifoDesc d] \<and>
    mu_iMemoryFifoDescriptor (conns mc' x) = d \<and>
    Pa_Payload d = message_pa (pkt_nodes (packetcontrols mc l) k) \<and> Message_Length d = 288 \<and>
    ptype (SoftwareBytes (muh d)) = MUDM_CONN_REQUEST \<and> torus_source_node (SoftwareBytes (muh d)) = myTorusAddress mc \<and>
    pkt_mem mc' l k = connect_message (req\<lparr>private_data_length := plen\<rparr>) pd
      \<lparr>source_conn_index = my_index (conns mc x), pl_dest_conn_index = -1, pl_version = MUDM_VERSION,
       using_IO_port = my_using_IO_port mc, rec_FIFO_Id = local_rec_FIFO_Id (conns mc' x), source_BlockID = myBlockID mc,
       myBridgeTorusAddress = mybridgingCNnode mc, sourceUCI = myUCI mc, pl_timestamp = now\<rparr> (pkt_mem mc l k) \<and>
    cstate (conns mc' x) = CONN_PENDING \<and> pendlist_of (conns mc' x) = Some 0 \<and> activelist_of (conns mc' x) = Some l \<and>
    cmagic (conns mc' x) = CONN_MAGIC \<and> destination (conns mc' x) = dest \<and> my_index (conns mc' x) = my_index (conns mc x) \<and>
    my_timestamp (conns mc' x) = now \<and> lowbit_timestamp (conns mc' x) = ucast now \<and> io_port (conns mc' x) = my_using_IO_port mc \<and>
    source_qpn (SoftwareBytes (muh d)) = source_qpn (ic_hdr req) \<and> dest_qpn (SoftwareBytes (muh d)) = dest_qpn (ic_hdr req)"
proof -
  obtain p mc1 where g: "conn_list_getfree now mc = (p, mc1)" by (rule prod.exhaust)
  note G = conn_list_getfree_Cons[OF rep fs g]
  note M = my_context_more[OF G(5)]
  let ?c0 = "(conns mc x)\<lparr>my_timestamp := now, lowbit_timestamp := ucast now, cmagic := CONN_MAGIC,
                       memfifo_sent := 0, rget_memfifo_sent := 0, injfifo_of := 0\<rparr>"
  let ?c1 = "connect_fields mc1 dest ?c0"
  let ?mc2 = "upd_conn x (connect_fields mc1 dest) mc1"
  have c2: "conns ?mc2 x = ?c1" by (simp add: G(4))
  have lk: "pools_of ?c1 = l" using l by (simp add: connect_fields_link connect_link_def M)
  let ?pc = "packetcontrols mc l"
  obtain pc where a: "alloc_pkt_message ?pc = (Some k, pc)" and pa: "message_pa (pkt_nodes pc k) = message_pa (pkt_nodes ?pc k)"
    using pool by (simp add: alloc_pkt_message_def)
  let ?req = "req\<lparr>private_data_length := plen\<rparr>"
  let ?msg = "connect_message ?req pd (connect_payload ?mc2 ?c1) (pkt_mem mc l k)"
  let ?mc3 = "?mc2\<lparr>packetcontrols := (packetcontrols mc)(l := pc), pkt_mem := (pkt_mem mc)(l := (pkt_mem mc l)(k := ?msg))\<rparr>"
  have "port_ok (my_using_IO_port ?mc3)" using po by (simp add: M)
  from connect_descriptors_total[OF this, of dest "ic_hdr ?req" plen "message_pa (pkt_nodes pc k)" ?c1] obtain c' d where
    D: "connect_descriptors ?mc3 dest (ic_hdr ?req) plen (message_pa (pkt_nodes pc k)) ?c1 = Some c'"
    "mu_iMemoryFifoDescriptor c' = d" "Pa_Payload d = message_pa (pkt_nodes pc k)" "Message_Length d = 288"
    "ptype (SoftwareBytes (muh d)) = MUDM_CONN_REQUEST" "torus_source_node (SoftwareBytes (muh d)) = myTorusAddress mc"
    "destination c' = dest" "my_index c' = my_index (conns mc x)" "my_timestamp c' = now"
    "lowbit_timestamp c' = ucast now" "cmagic c' = CONN_MAGIC" "activelist_of c' = Some l"
    "injfifo_of c' = l" "pools_of c' = l" "io_port c' = my_using_IO_port mc"
    "source_qpn (SoftwareBytes (muh d)) = source_qpn (ic_hdr req)" "dest_qpn (SoftwareBytes (muh d)) = dest_qpn (ic_hdr req)"
    using lk by (auto simp: M)
  let ?mc4 = "put_on_pending_list x 0 (upd_conn x (\<lambda>_. c') ?mc3)"
  have c4: "conns ?mc4 x = c'\<lparr>pendlist_of := Some 0, cstate := CONN_PENDING\<rparr>" by simp
  have i4: "injfifo_ctls ?mc4 = injfifo_ctls mc" "pkt_mem ?mc4 = pkt_mem ?mc3"
    using my_context_more[OF put_on_pending_more, of x 0 "upd_conn x (\<lambda>_. c') ?mc3"] by (simp_all add: M)
  have "conn_rep ?mc3 (ls(LFree := fs))"
    using G(2) by (subst conn_rep_cong[of _ mc1]) (simp_all, rule ext, rename_tac c, case_tac c, simp_all)
  then have r4: "conn_rep ?mc4 (ls(LFree := fs, LPend 0 := x # ls (LPend 0)))"
    using put_on_pending_list_rep[of "upd_conn x (\<lambda>_. c') ?mc3" "ls(LFree := fs)" x 0] G(3) by simp
  have "l = injfifo_of (conns ?mc4 x)" "ctl_inv n (injfifo_ctls ?mc4 l)" using c4 D inj i4 by simp_all
  from conn_inject_total[OF hs this] obtain ct where
    I: "conn_inject hs x ?mc4 = Some (of_nat (Suc (length (ctl_log (injfifo_ctls mc l)))),
        ?mc4\<lparr>injfifo_ctls := (injfifo_ctls mc)(l := ct)\<rparr>)"
    "ctl_log ct = ctl_log (injfifo_ctls mc l) @ [MemFifoDesc d]"
    "of_nat (Suc (length (ctl_log (injfifo_ctls mc l)))) \<noteq> (-1 :: u64)"
    using c4 D(2) i4 by auto
  let ?cnt = "of_nat (Suc (length (ctl_log (injfifo_ctls mc l))))"
  let ?mc5 = "?mc4\<lparr>injfifo_ctls := (injfifo_ctls mc)(l := ct)\<rparr>"
  let ?mc' = "conn_pkt_sent hs now' x k ?cnt ?mc5"
  have e: "mudm_connect hs now now' dest req pd plen mc = Some (RetOK, Some x, ?mc')"
    using mm pl g G(1) c2 lk a D(1) I(1,3)
    by (simp add: mudm_connect_def Let_def M not_less[symmetric] del: of_nat_Suc)
  note F = conn_pkt_sent_frame[where hs = hs and now = now' and x = x and k = k and cnt = ?cnt and mc = ?mc5]
  have "clist_head ?mc5 = clist_head ?mc4" by (rule ext, rename_tac c, case_tac c) simp_all
  with F(3) have ch: "clist_head ?mc' = clist_head ?mc4" by (simp only:)
  have cl: "clinks ?mc' = clinks ?mc4" using F(2) by simp
  from r4 have r: "conn_rep ?mc' (ls(LFree := fs, LPend 0 := x # ls (LPend 0)))"
    unfolding conn_rep_cong[OF cl ch] .
  have cx: "conns ?mc' x = c'\<lparr>pendlist_of := Some 0, cstate := CONN_PENDING\<rparr>" using c4 F(1) by simp
  have pl': "connect_payload ?mc2 ?c1 = \<lparr>source_conn_index = my_index (conns mc x), pl_dest_conn_index = -1,
       pl_version = MUDM_VERSION, using_IO_port = my_using_IO_port mc, rec_FIFO_Id = local_rec_FIFO_Id c',
       source_BlockID = myBlockID mc, myBridgeTorusAddress = mybridgingCNnode mc, sourceUCI = myUCI mc, pl_timestamp = now\<rparr>"
    using D(1) by (simp add: connect_payload_def M)
      (auto simp: connect_descriptors_def Let_def split: option.splits)
  have pm: "pkt_mem ?mc' l k = ?msg" using F(6) i4(2) by simp
  have lg: "ctl_log (injfifo_ctls ?mc' l) = ctl_log (injfifo_ctls mc l) @ [MemFifoDesc d]"
    unfolding F(4) using I(2) by simp
  define mc' where "mc' = ?mc'"
  note facts = e[folded mc'_def] r[folded mc'_def] lg[folded mc'_def] cx[folded mc'_def] pm[folded mc'_def, unfolded pl']
  show ?thesis by (rule exI[of _ mc'], rule exI[of _ d]) (use facts D pa in simp)
qed

section \<open>Replying succeeds\<close>

lemma clist_head_my_context [simp]:
  "clist_head (mc\<lparr>packetcontrols := a\<rparr>) = clist_head mc" "clist_head (mc\<lparr>pkt_mem := b\<rparr>) = clist_head mc"
  "clist_head (mc\<lparr>injfifo_ctls := c\<rparr>) = clist_head mc" "clist_head (mc\<lparr>link_BlockID := e\<rparr>) = clist_head mc"
  "clist_head (mc\<lparr>link4reset := g\<rparr>) = clist_head mc"
  by (rule ext, rename_tac d, case_tac d; simp)+

lemma reply_directputs_total:
  assumes "port_ok (io_port c)"
  shows "\<exists>dp rg. reply_directputs mc c = Some (c\<lparr>mu_iDirectPutDescriptor := dp, reverse_destination := reverse_target mc c,
    reverse_io_port := io_port c, mu_iDirectPutDescriptor4rget := rg\<rparr>)"
proof -
  have "route_ok dir (io_port c)" for dir using assms by (simp add: route_ok_def port_ok_def)
  then obtain dp rg where "initPt2PtDirectPutDescriptor 0 0 (destination c) (cdirection c) (io_port c) 0 0 = Some dp"
    "initPt2PtDirectPutDescriptor 0 0 (reverse_target mc c) (reverse_direction c) (io_port c) 0 0 = Some rg"
    by (simp add: initPt2PtDirectPutDescriptor_def)
  then show ?thesis by (intro exI[of _ dp] exI[of _ rg]) (simp add: reply_directputs_def Let_def)
qed

lemma reply_memfifo_total:
  assumes "port_ok (io_port c)"
  shows "\<exists>d. reply_memfifo mc hdr plen pa c = Some d \<and> Pa_Payload d = pa \<and> Message_Length d = 288 \<and>
    ptype (SoftwareBytes (muh d)) = MUDM_CONN_REPLY \<and> torus_source_node (SoftwareBytes (muh d)) = myTorusAddress mc \<and>
    source_qpn (SoftwareBytes (muh d)) = source_qpn hdr \<and> dest_qpn (SoftwareBytes (muh d)) = dest_qpn hdr"
proof -
  have "route_ok dir (io_port c)" for dir using assms by (simp add: route_ok_def port_ok_def)
  then show ?thesis by (simp add: reply_memfifo_def InitPt2PtMemoryFIFODescriptor_def)
qed

text \<open>The block after an accepting reply, apart from its descriptors.\<close>

lemma reply_send_total:
  assumes rep: "conn_rep mc ls" and y: "y \<in> set (ls (LPend pl))" "pendlist_of (conns mc y) = Some pl"
    "activelist_of (conns mc y) = Some al" and po: "port_ok (io_port (conns mc y))"
    and st: "ic_status rp = 0" and hs: "hws_live hs" and l: "l = injfifo_of (conns mc y)"
    and inj: "ctl_inv n (injfifo_ctls mc l)"
  shows "\<exists>mc' c'. reply_send hs now' y k rp mc = Some (RetOK, mc') \<and>
    conn_rep mc' (ls(LPend pl := remove1 y (ls (LPend pl)), LActive al := y # ls (LActive al))) \<and>
    conns mc' = (conns mc)(y := c') \<and> cstate c' = CONN_ACTIVE \<and>
    mu_iMemoryFifoDescriptor c' = mu_iMemoryFifoDescriptor (conns mc y) \<and> cmagic c' = cmagic (conns mc y) \<and>
    my_index c' = my_index (conns mc y) \<and> my_timestamp c' = my_timestamp (conns mc y) \<and>
    lowbit_timestamp c' = lowbit_timestamp (conns mc y) \<and> dest_conn_index c' = dest_conn_index (conns mc y) \<and>
    remote_timestamp c' = remote_timestamp (conns mc y) \<and> activelist_of c' = Some al \<and>
    pendlist_of c' = Some pl \<and> pools_of c' = pools_of (conns mc y) \<and> injfifo_of c' = l \<and> memfifo_sent c' = 0 \<and>
    ctl_log (injfifo_ctls mc' l) = ctl_log (injfifo_ctls mc l) @ [MemFifoDesc (mu_iMemoryFifoDescriptor (conns mc y))] \<and>
    pkt_mem mc' = pkt_mem mc"
proof -
  let ?c = "conns mc y"
  from reply_directputs_total[OF po, of mc] obtain dp rg where
    rd: "reply_directputs mc ?c = Some (?c\<lparr>mu_iDirectPutDescriptor := dp, reverse_destination := reverse_target mc ?c,
      reverse_io_port := io_port ?c, mu_iDirectPutDescriptor4rget := rg\<rparr>)" by blast
  define c1 where "c1 = ?c\<lparr>mu_iDirectPutDescriptor := dp, reverse_destination := reverse_target mc ?c,
      reverse_io_port := io_port ?c, mu_iDirectPutDescriptor4rget := rg\<rparr>"
  let ?mc1 = "upd_conn y (\<lambda>_. c1) mc"
  have c1: "pendlist_of (conns ?mc1 y) = Some pl" "activelist_of (conns ?mc1 y) = Some al"
    using y by (simp_all add: c1_def)
  have "conn_rep ?mc1 ls" using rep by simp
  from connection_activate_rep[OF this y(1) c1] obtain mc2 where
    A: "connection_activate y ?mc1 = Some mc2"
    "conn_rep mc2 (ls(LPend pl := remove1 y (ls (LPend pl)), LActive al := y # ls (LActive al)))"
    "conns mc2 = (conns ?mc1)(y := (conns ?mc1 y)\<lparr>cstate := CONN_ACTIVE\<rparr>)" "conn_table.more mc2 = conn_table.more ?mc1"
    by blast
  note M = my_context_more[OF A(4)]
  define c2 where "c2 = reset_seqnum (c1\<lparr>cstate := CONN_ACTIVE\<rparr>)"
  define mc3 where "mc3 = upd_conn y reset_seqnum mc2"
  have c3: "conns mc3 = (conns mc)(y := c2)" by (rule ext) (simp add: mc3_def A(3) c2_def)
  have i3: "injfifo_ctls mc3 = injfifo_ctls mc" "pkt_mem mc3 = pkt_mem mc" by (simp_all add: mc3_def M)
  have c2: "injfifo_of c2 = l" "mu_iMemoryFifoDescriptor c2 = mu_iMemoryFifoDescriptor ?c"
    by (simp_all add: c2_def c1_def reset_seqnum_def l)
  have "l = injfifo_of (conns mc3 y)" "ctl_inv n (injfifo_ctls mc3 l)" using c2 c3 inj i3 by simp_all
  from conn_inject_total[OF hs this] obtain ct where
    I: "conn_inject hs y mc3 = Some (of_nat (Suc (length (ctl_log (injfifo_ctls mc l)))),
        mc3\<lparr>injfifo_ctls := (injfifo_ctls mc)(l := ct)\<rparr>)"
    "ctl_log ct = ctl_log (injfifo_ctls mc l) @ [MemFifoDesc (mu_iMemoryFifoDescriptor ?c)]"
    "of_nat (Suc (length (ctl_log (injfifo_ctls mc l)))) \<noteq> (-1 :: u64)"
    unfolding i3 using c3 c2 by auto
  define cnt :: u64 where "cnt = of_nat (Suc (length (ctl_log (injfifo_ctls mc l))))"
  define mc4 where "mc4 = upd_conn y reset_seqnum (mc3\<lparr>injfifo_ctls := (injfifo_ctls mc)(l := ct)\<rparr>)"
  define mc5 where "mc5 = conn_pkt_sent hs now' y k cnt mc4"
  note F = conn_pkt_sent_frame[where hs = hs and now = now' and x = y and k = k and cnt = cnt and mc = mc4, folded mc5_def]
  have e: "reply_send hs now' y k rp mc = Some (RetOK, mc5)"
    using rd A(1) I(1,3) st unfolding cnt_def[symmetric] mc5_def mc4_def
    by (simp add: reply_send_def reply_activate_def c1_def[symmetric] mc3_def[symmetric] Let_def)
  have c5: "conns mc5 = (conns mc)(y := c2)"
    by (rule ext) (simp add: F(1) mc4_def c3 c2_def reset_seqnum_def)
  have "clist_head mc4 = clist_head mc2" "clinks mc4 = clinks mc2"
    by (rule ext, simp add: mc4_def mc3_def) (simp add: mc4_def mc3_def)
  with F(2,3) A(2) have r: "conn_rep mc5 (ls(LPend pl := remove1 y (ls (LPend pl)), LActive al := y # ls (LActive al)))"
    by (simp add: conn_rep_def)
  have lg: "ctl_log (injfifo_ctls mc5 l) = ctl_log (injfifo_ctls mc l) @ [MemFifoDesc (mu_iMemoryFifoDescriptor ?c)]"
    unfolding F(4) by (simp add: mc4_def I(2))
  have pm: "pkt_mem mc5 = pkt_mem mc" by (simp add: F(6) mc4_def i3)
  show ?thesis
    by (rule exI[of _ mc5], rule exI[of _ c2]) (use e r c5 lg pm c2 y(2,3) in \<open>simp add: c2_def c1_def reset_seqnum_def\<close>)
qed

lemma mudm_conn_reply_total:
  assumes mm: "mmagic mc = MUDM_MAGIC" and pl: "plen \<le> 256" and rep: "conn_rep mc ls"
    and y: "y \<in> set (ls (LPend pnd))" "pendlist_of (conns mc y) = Some pnd" "activelist_of (conns mc y) = Some al"
    and ma: "conn_magic_ok (conns mc y)" and na: "cstate (conns mc y) \<noteq> CONN_ABORTED"
    and po: "port_ok (io_port (conns mc y))" and st: "ic_status rp = 0" and hs: "hws_live hs"
    and l: "l = injfifo_of (conns mc y)" "pl' = pools_of (conns mc y)"
    and inj: "ctl_inv n (injfifo_ctls mc l)" and pool: "pkt_free_list (packetcontrols mc pl') = Some k"
  shows "\<exists>mc' d c'. mudm_conn_reply hs now' y rp pd plen mc = Some (RetOK, mc') \<and>
    conn_rep mc' (ls(LPend pnd := remove1 y (ls (LPend pnd)), LActive al := y # ls (LActive al))) \<and>
    conns mc' = (conns mc)(y := c') \<and> cstate c' = CONN_ACTIVE \<and> mu_iMemoryFifoDescriptor c' = d \<and> cmagic c' = CONN_MAGIC \<and>
    my_index c' = my_index (conns mc y) \<and> my_timestamp c' = my_timestamp (conns mc y) \<and>
    lowbit_timestamp c' = lowbit_timestamp (conns mc y) \<and> dest_conn_index c' = dest_conn_index (conns mc y) \<and>
    remote_timestamp c' = remote_timestamp (conns mc y) \<and> activelist_of c' = Some al \<and>
    ctl_log (injfifo_ctls mc' l) = ctl_log (injfifo_ctls mc l) @ [MemFifoDesc d] \<and>
    Pa_Payload d = message_pa (pkt_nodes (packetcontrols mc pl') k) \<and> Message_Length d = 288 \<and>
    ptype (SoftwareBytes (muh d)) = MUDM_CONN_REPLY \<and> torus_source_node (SoftwareBytes (muh d)) = myTorusAddress mc \<and>
    pkt_mem mc' pl' k = connect_message (rp\<lparr>private_data_length := plen\<rparr>) pd (reply_payload mc (conns mc y)) (pkt_mem mc pl' k) \<and>
    source_qpn (SoftwareBytes (muh d)) = source_qpn (ic_hdr rp) \<and> dest_qpn (SoftwareBytes (muh d)) = dest_qpn (ic_hdr rp)"
proof -
  define c0 where "c0 = reset_seqnum (conns mc y)"
  let ?mc0 = "upd_conn y reset_seqnum mc" and ?rp = "rp\<lparr>private_data_length := plen\<rparr>"
  have c0: "conns ?mc0 y = c0" by (simp add: c0_def)
  have same: "pools_of c0 = pl'" "injfifo_of c0 = l" "cmagic c0 = CONN_MAGIC" "cstate c0 = cstate (conns mc y)"
    "io_port c0 = io_port (conns mc y)" "pendlist_of c0 = Some pnd" "activelist_of c0 = Some al"
    using l y ma by (simp_all add: c0_def reset_seqnum_def conn_magic_ok_def)
  obtain pc where a: "alloc_pkt_message (packetcontrols mc pl') = (Some k, pc)"
    and pa: "message_pa (pkt_nodes pc k) = message_pa (pkt_nodes (packetcontrols mc pl') k)"
    using pool by (simp add: alloc_pkt_message_def)
  have "port_ok (io_port c0)" using po same by simp
  from reply_memfifo_total[OF this, of ?mc0 "ic_hdr ?rp" plen "message_pa (pkt_nodes pc k)"] obtain d where
    d: "reply_memfifo ?mc0 (ic_hdr ?rp) plen (message_pa (pkt_nodes pc k)) c0 = Some d"
    "Pa_Payload d = message_pa (pkt_nodes pc k)" "Message_Length d = 288"
    "ptype (SoftwareBytes (muh d)) = MUDM_CONN_REPLY" "torus_source_node (SoftwareBytes (muh d)) = myTorusAddress mc"
    "source_qpn (SoftwareBytes (muh d)) = source_qpn (ic_hdr rp)" "dest_qpn (SoftwareBytes (muh d)) = dest_qpn (ic_hdr rp)" by auto
  have rpl: "reply_payload ?mc0 c0 = reply_payload mc (conns mc y)"
    by (simp add: reply_payload_def c0_def reset_seqnum_def)
  define msg where "msg = connect_message ?rp pd (reply_payload mc (conns mc y)) (pkt_mem mc pl' k)"
  define mc1 where "mc1 = upd_conn y (\<lambda>c. c\<lparr>mu_iMemoryFifoDescriptor := d\<rparr>)
     (?mc0\<lparr>packetcontrols := (packetcontrols mc)(pl' := pc), pkt_mem := (pkt_mem mc)(pl' := (pkt_mem mc pl')(k := msg))\<rparr>)"
  have c1: "conns mc1 = (conns mc)(y := c0\<lparr>mu_iMemoryFifoDescriptor := d\<rparr>)"
    by (rule ext) (simp add: mc1_def c0_def)
  have i1: "injfifo_ctls mc1 = injfifo_ctls mc" "pkt_mem mc1 pl' k = msg" by (simp_all add: mc1_def)
  have r1: "conn_rep mc1 ls"
    using rep by (simp add: mc1_def conn_rep_def upd_conn_def clist_head_upd)
  have e: "mudm_conn_reply hs now' y rp pd plen mc = reply_send hs now' y k ?rp mc1"
    using mm pl same a d(1) na rpl
    by (simp add: mudm_conn_reply_def c0_def[symmetric] Let_def conn_magic_ok_def not_less[symmetric] msg_def[symmetric] mc1_def[symmetric])
  have h: "y \<in> set (ls (LPend pnd))" "pendlist_of (conns mc1 y) = Some pnd" "activelist_of (conns mc1 y) = Some al"
    "port_ok (io_port (conns mc1 y))" "ic_status ?rp = 0" "l = injfifo_of (conns mc1 y)" "ctl_inv n (injfifo_ctls mc1 l)"
    using y(1) same po st inj by (simp_all add: c1 i1)
  from reply_send_total[OF r1 h(1-5) hs h(6,7), of now' k] obtain mc' c' where
    S: "reply_send hs now' y k ?rp mc1 = Some (RetOK, mc')"
    "conn_rep mc' (ls(LPend pnd := remove1 y (ls (LPend pnd)), LActive al := y # ls (LActive al)))"
    "conns mc' = (conns mc1)(y := c')" "cstate c' = CONN_ACTIVE"
    "mu_iMemoryFifoDescriptor c' = mu_iMemoryFifoDescriptor (conns mc1 y)" "cmagic c' = cmagic (conns mc1 y)"
    "my_index c' = my_index (conns mc1 y)" "my_timestamp c' = my_timestamp (conns mc1 y)"
    "lowbit_timestamp c' = lowbit_timestamp (conns mc1 y)" "dest_conn_index c' = dest_conn_index (conns mc1 y)"
    "remote_timestamp c' = remote_timestamp (conns mc1 y)" "activelist_of c' = Some al"
    "ctl_log (injfifo_ctls mc' l) = ctl_log (injfifo_ctls mc1 l) @ [MemFifoDesc (mu_iMemoryFifoDescriptor (conns mc1 y))]"
    "pkt_mem mc' = pkt_mem mc1" by blast
  have f: "my_index c0 = my_index (conns mc y)" "my_timestamp c0 = my_timestamp (conns mc y)"
    "lowbit_timestamp c0 = lowbit_timestamp (conns mc y)" "dest_conn_index c0 = dest_conn_index (conns mc y)"
    "remote_timestamp c0 = remote_timestamp (conns mc y)" by (simp_all add: c0_def reset_seqnum_def)
  have "conns mc' = (conns mc)(y := c')" by (simp add: S(3) c1)
  then show ?thesis
    by (intro exI[of _ mc'] exI[of _ d] exI[of _ c'])
      (use S e d pa f same i1 in \<open>simp add: c1 msg_def\<close>)
qed

section \<open>The handlers\<close>

lemma connect_request_accepts:
  assumes rep: "conn_rep mc ls" and fs: "ls LFree = y # fs"
  shows "\<exists>mc1 l. connect_request now cb p mc =
      map_option (\<lambda>(r, mc2). (Inr r, upd_conn y reset_seqnum mc2)) (cb y (pk_sw p) (pk_payload p) mc1) \<and>
    l = request_link mc p \<and> conn_rep mc1 (ls(LFree := fs, LPend l := y # ls (LPend l))) \<and>
    cstate (conns mc1 y) = CONN_PENDING \<and> pendlist_of (conns mc1 y) = Some l \<and> activelist_of (conns mc1 y) = Some l \<and>
    my_index (conns mc1 y) = my_index (conns mc y) \<and> my_timestamp (conns mc1 y) = now \<and>
    lowbit_timestamp (conns mc1 y) = ucast now \<and> cmagic (conns mc1 y) = CONN_MAGIC \<and>
    destination (conns mc1 y) = torus_source_node (pk_sw p) \<and>
    dest_conn_index (conns mc1 y) = source_conn_index (pk_connect p) \<and>
    remote_timestamp (conns mc1 y) = pl_timestamp (pk_connect p) \<and>
    remote_BlockID (conns mc1 y) = source_BlockID (pk_connect p) \<and>
    remote_rec_FIFO_Id (conns mc1 y) = rec_FIFO_Id (pk_connect p) \<and> io_port (conns mc1 y) = using_IO_port (pk_connect p) \<and>
    cdirection (conns mc1 y) = set_direction_request (myTorusAddress mc) (torus_source_node (pk_sw p))"
proof -
  obtain q mc1 where g: "conn_list_getfree now mc = (q, mc1)" by (rule prod.exhaust)
  note G = conn_list_getfree_Cons[OF rep fs g]
  note M = my_context_more[OF G(5)]
  define l where "l = request_link mc1 p"
  have l: "l = request_link mc p" by (simp add: l_def request_link_def M)
  let ?pl = "pk_connect p"
  define mc2 where "mc2 = (upd_conn y (request_fields mc1 p l) mc1)
      \<lparr>link_BlockID := (link_BlockID mc1)(l := source_BlockID ?pl),
       link4reset := (link4reset mc1)(l := reset_link (using_IO_port ?pl) (link4reset mc1 l))\<rparr>"
  define mc3 where "mc3 = upd_conn y reset_seqnum (put_on_pending_list y l mc2)"
  have e: "connect_request now cb p mc =
      map_option (\<lambda>(r, mc4). (Inr r, upd_conn y reset_seqnum mc4)) (cb y (pk_sw p) (pk_payload p) mc3)"
    using G(1) by (simp add: connect_request_def g Let_def l_def mc2_def mc3_def)
  have "conn_rep mc2 (ls(LFree := fs))"
    using G(2) by (simp add: mc2_def conn_rep_def upd_conn_def clist_head_upd)
  from put_on_pending_list_rep[OF this G(3), of l] have
    r: "conn_rep mc3 (ls(LFree := fs, LPend l := y # ls (LPend l)))" by (simp add: mc3_def)
  have c: "conns mc3 y = reset_seqnum ((request_fields mc1 p l (conns mc1 y))\<lparr>pendlist_of := Some l, cstate := CONN_PENDING\<rparr>)"
    by (simp add: mc3_def mc2_def)
  show ?thesis
    by (rule exI[of _ mc3], rule exI[of _ l])
      (use e r l in \<open>simp add: c reset_seqnum_def request_fields_def Let_def G(4) M\<close>)
qed

lemma reply_fields_total:
  assumes "port_ok (using_IO_port (pk_connect p))"
  shows "\<exists>c'. reply_fields p c = Some c' \<and> dest_conn_index c' = source_conn_index (pk_connect p) \<and>
    remote_timestamp c' = pl_timestamp (pk_connect p) \<and> remote_BlockID c' = source_BlockID (pk_connect p) \<and>
    remote_rec_FIFO_Id c' = rec_FIFO_Id (pk_connect p) \<and> pendlist_of c' = pendlist_of c \<and>
    activelist_of c' = activelist_of c \<and> cmagic c' = cmagic c \<and> lowbit_timestamp c' = lowbit_timestamp c \<and>
    my_index c' = my_index c \<and> my_timestamp c' = my_timestamp c \<and>
    dest_qpn (SoftwareBytes (muh (mu_iMemoryFifoDescriptor c'))) = source_qpn (pk_sw p)"
proof -
  let ?pl = "pk_connect p"
  have "route_ok dir (using_IO_port ?pl)" for dir using assms by (simp add: route_ok_def port_ok_def)
  then have "\<exists>rg. initPt2PtDirectPutDescriptor 0 0 (reverse_destination c) dir (using_IO_port ?pl) 0 0 = Some rg" for dir
    by (simp add: initPt2PtDirectPutDescriptor_def)
  then obtain rg where rg: "\<And>dir. initPt2PtDirectPutDescriptor 0 0 (reverse_destination c) dir (using_IO_port ?pl) 0 0 = Some (rg dir)"
    by metis
  show ?thesis
    by (cases "io_port c \<noteq> using_IO_port ?pl \<and> reverse_direction c = IONODE2CN")
      (simp_all add: reply_fields_def Let_def rg split: if_splits)
qed

lemma connect_reply_activates:
  assumes rep: "conn_rep mc ls" and x: "x \<in> set (ls (LPend pnd))" "pendlist_of (conns mc x) = Some pnd"
    "activelist_of (conns mc x) = Some al" and ma: "conn_magic_ok (conns mc x)"
    and i: "unat (pl_dest_conn_index (pk_connect p)) = x" "ucast (pl_dest_conn_index (pk_connect p)) < max_connections mc"
    and st: "pk_status p = 0" and po: "port_ok (using_IO_port (pk_connect p))"
  shows "\<exists>mc1. connect_reply cb p mc = map_option (\<lambda>(r, mc2). (Inr r, mc2)) (cb x (pk_sw p) (pk_payload p) mc1) \<and>
    conn_rep mc1 (ls(LPend pnd := remove1 x (ls (LPend pnd)), LActive al := x # ls (LActive al))) \<and>
    cstate (conns mc1 x) = CONN_ACTIVE \<and> dest_conn_index (conns mc1 x) = source_conn_index (pk_connect p) \<and>
    remote_timestamp (conns mc1 x) = pl_timestamp (pk_connect p) \<and>
    remote_BlockID (conns mc1 x) = source_BlockID (pk_connect p) \<and> activelist_of (conns mc1 x) = Some al \<and>
    cmagic (conns mc1 x) = CONN_MAGIC \<and> lowbit_timestamp (conns mc1 x) = lowbit_timestamp (conns mc x) \<and>
    dest_qpn (SoftwareBytes (muh (mu_iMemoryFifoDescriptor (conns mc1 x)))) = source_qpn (pk_sw p)"
proof -
  from reply_fields_total[OF po, of "conns mc x"] obtain c where
    c: "reply_fields p (conns mc x) = Some c" "dest_conn_index c = source_conn_index (pk_connect p)"
      "remote_timestamp c = pl_timestamp (pk_connect p)" "remote_BlockID c = source_BlockID (pk_connect p)"
      "pendlist_of c = pendlist_of (conns mc x)"
      "activelist_of c = activelist_of (conns mc x)" "cmagic c = cmagic (conns mc x)"
      "lowbit_timestamp c = lowbit_timestamp (conns mc x)"
      "dest_qpn (SoftwareBytes (muh (mu_iMemoryFifoDescriptor c))) = source_qpn (pk_sw p)" by blast
  let ?mc0 = "upd_conn x (\<lambda>_. c) mc"
  have r0: "conn_rep ?mc0 ls" "pendlist_of (conns ?mc0 x) = Some pnd" "activelist_of (conns ?mc0 x) = Some al"
    using rep x(2,3) c(5,6) by simp_all
  from connection_activate_rep[OF r0(1) x(1) r0(2,3)] obtain mc1 where
    A: "connection_activate x ?mc0 = Some mc1"
    "conn_rep mc1 (ls(LPend pnd := remove1 x (ls (LPend pnd)), LActive al := x # ls (LActive al)))"
    "conns mc1 = (conns ?mc0)(x := (conns ?mc0 x)\<lparr>cstate := CONN_ACTIVE\<rparr>)" by blast
  have "connect_reply cb p mc = map_option (\<lambda>(r, mc2). (Inr r, mc2)) (cb x (pk_sw p) (pk_payload p) mc1)"
    using i ma c(1) A(1) st by (auto simp: connect_reply_def Let_def split: option.splits)
  then show ?thesis using A(2,3) c ma x(3) by (intro exI[of _ mc1]) (simp add: conn_magic_ok_def)
qed

lemma mudm_disconnect_total:
  assumes rep: "conn_rep mc ls" and x: "x \<in> set (ls c)" "free_ok mc c x"
    and st: "cstate (conns mc x) \<noteq> CONN_FREE" "cstate (conns mc x) \<noteq> CONN_DISCONNECTING" and hs: "hws_live hs"
    and l: "l = injfifo_of (conns mc x)" and inj: "ctl_inv n (injfifo_ctls mc l)"
  shows "\<exists>mc' d. mudm_disconnect hs x mc = Some (RetErr ENOSYS, mc') \<and>
    conn_rep mc' (ls(c := remove1 x (ls c), LFree := x # ls LFree)) \<and> cstate (conns mc' x) = CONN_FREE \<and>
    ctl_log (injfifo_ctls mc' l) = ctl_log (injfifo_ctls mc l) @ [MemFifoDesc d] \<and> Message_Length d = 0 \<and>
    ptype (SoftwareBytes (muh d)) = MUDM_DISCONNECTED \<and>
    sequence_number (SoftwareBytes (muh d)) = dest_conn_index (conns mc x) \<and>
    payload_length (SoftwareBytes (muh d)) = ucast (remote_timestamp (conns mc x))"
proof -
  define d where "d = disconnect_header (conns mc x) (mu_iMemoryFifoDescriptor (conns mc x))"
  define mc1 where "mc1 = upd_conn x (\<lambda>k. k\<lparr>mu_iMemoryFifoDescriptor := disconnect_header k (mu_iMemoryFifoDescriptor k),
                                     cstate := CONN_DISCONNECTING\<rparr>) mc"
  have c1: "conns mc1 x = (conns mc x)\<lparr>mu_iMemoryFifoDescriptor := d, cstate := CONN_DISCONNECTING\<rparr>"
    by (simp add: mc1_def d_def)
  have "l = injfifo_of (conns mc1 x)" "ctl_inv n (injfifo_ctls mc1 l)" using l inj by (simp_all add: c1 mc1_def)
  from conn_inject_total[OF hs this] obtain ct where
    I: "conn_inject hs x mc1 = Some (of_nat (Suc (length (ctl_log (injfifo_ctls mc l)))),
        mc1\<lparr>injfifo_ctls := (injfifo_ctls mc)(l := ct)\<rparr>)"
    "ctl_log ct = ctl_log (injfifo_ctls mc l) @ [MemFifoDesc d]"
    "of_nat (Suc (length (ctl_log (injfifo_ctls mc l)))) \<noteq> (-1 :: u64)"
    by (auto simp: c1) (auto simp: mc1_def)
  define mc2 where "mc2 = mc1\<lparr>injfifo_ctls := (injfifo_ctls mc)(l := ct)\<rparr>"
  have r2: "conn_rep mc2 ls" using rep by (simp add: mc2_def mc1_def conn_rep_def upd_conn_def clist_head_upd)
  have "free_ok mc2 c x"
    using x(2) by (cases c) (auto simp: free_ok_def mc2_def c1 conn_magic_ok_def mc1_def)
  from connection_free_rep[OF r2 x(1) this] obtain mc3 where
    F: "connection_free x mc2 = Some (RetOK, mc3)" "conn_rep mc3 (ls(c := remove1 x (ls c), LFree := x # ls LFree))"
    "conns mc3 = (conns mc2)(x := (conns mc2 x)\<lparr>cstate := CONN_FREE\<rparr>)" "conn_table.more mc3 = conn_table.more mc2" by blast
  have "mudm_disconnect hs x mc = Some (RetErr ENOSYS, mc3)"
    using x(2) st I(1,3) F(1) by (simp add: mudm_disconnect_def Let_def free_ok_def mc1_def[symmetric] mc2_def del: of_nat_Suc)
  moreover have "ctl_log (injfifo_ctls mc3 l) = ctl_log (injfifo_ctls mc l) @ [MemFifoDesc d]"
    using my_context_more(3)[OF F(4)] I(2) by (simp add: mc2_def)
  ultimately show ?thesis
    using F(2,3) by (intro exI[of _ mc3] exI[of _ d])
      (simp add: d_def disconnect_header_def Let_def Update_memfifo_payload_def)
qed

lemma disconnect_request_accepts:
  assumes rep: "conn_rep mc ls" and y: "y \<in> set (ls c)" "free_ok mc c y"
    and st: "cstate (conns mc y) \<noteq> CONN_FREE" "cstate (conns mc y) \<noteq> CONN_DISCONNECTING"
    and h: "unat (sequence_number (pk_sw p)) = y" "payload_length (pk_sw p) = lowbit_timestamp (conns mc y)"
  shows "\<exists>mc1. disconnect_request cb p mc = map_option (\<lambda>(r, mc2). (Inr r, mc2)) (cb y (pk_sw p) (pk_payload p) mc1) \<and>
    conn_rep mc1 (ls(c := remove1 y (ls c), LFree := y # ls LFree)) \<and> cstate (conns mc1 y) = CONN_FREE"
proof -
  let ?mc0 = "upd_conn y (\<lambda>k. k\<lparr>cstate := CONN_DISCONNECTING\<rparr>) mc"
  have "conn_rep ?mc0 ls" "free_ok ?mc0 c y"
    using rep y(2) by (simp, cases c) (auto simp: free_ok_def conn_magic_ok_def)
  from connection_free_rep[OF this(1) y(1) this(2)] obtain mc1 where
    F: "connection_free y ?mc0 = Some (RetOK, mc1)" "conn_rep mc1 (ls(c := remove1 y (ls c), LFree := y # ls LFree))"
    "conns mc1 = (conns ?mc0)(y := (conns ?mc0 y)\<lparr>cstate := CONN_FREE\<rparr>)" by blast
  have "disconnect_request cb p mc = map_option (\<lambda>(r, mc2). (Inr r, mc2)) (cb y (pk_sw p) (pk_payload p) mc1)"
    using y(2) st h F(1) by (simp add: disconnect_request_def Let_def free_ok_def)
  with F(2,3) show ?thesis by (intro exI[of _ mc1]) simp
qed

end
