(* ===== verification/Mudm_Handshake.thy ===== *)
theory Mudm_Handshake
  imports Mudm_Connect
begin

text \<open>
  The two ends of a connection together: what one node injects is what the handler on the other
  node receives.  The message unit moves the packet; the only thing relied on is that it delivers
  the network header, the memory FIFO header and the first \<^verbatim>\<open>Message_Length\<close> bytes of the payload
  as they are in the descriptor and in memory (\<open>packet_of\<close>).
\<close>

definition packet_of :: "memfifo_desc \<Rightarrow> u8 list \<Rightarrow> mu_packet" where
  "packet_of d payload = \<lparr>pk_net = NetworkHeader d, pk_muh = muh d, pk_payload = take (unat (Message_Length d)) payload\<rparr>"

lemma packet_of_simps [simp]:
  "pk_net (packet_of d m) = NetworkHeader d" "pk_muh (packet_of d m) = muh d"
  "pk_payload (packet_of d m) = take (unat (Message_Length d)) m"
  by (simp_all add: packet_of_def)

lemma read_at_take: "i + n \<le> k \<Longrightarrow> read_at i n (take k m) = read_at i n m"
  by (simp add: read_at_def drop_take min_def)

lemma packet_connect:
  assumes "ip_ok ic" "length msg = 512" "private_data_length ic \<le> 256" "Message_Length d = 288"
  shows "pk_connect (packet_of d (connect_message ic pd pl msg)) = pl"
  using connect_message_read(2)[OF assms(1-3)] assms(4)
  by (simp add: pk_connect_def read_at_take payload_roundtrip)

lemma read_at_read_at: "i + n \<le> k \<Longrightarrow> read_at i n (read_at 0 k m) = read_at i n m"
  by (simp add: read_at_def drop_take min_def)

lemma packet_status:
  assumes "ip_ok ic" "length msg = 512" "private_data_length ic \<le> 256" "Message_Length d = 288"
  shows "pk_status (packet_of d (connect_message ic pd pl msg)) = ic_status ic"
proof -
  let ?m = "connect_message ic pd pl msg"
  have "read_at 48 4 (take 288 ?m) = read_at 48 4 (read_at 0 54 ?m)"
    by (simp add: read_at_take read_at_read_at)
  also have "\<dots> = be_bytes 4 (ic_status ic)"
    using assms(1) unfolding connect_message_read(3)[OF assms(1-3)]
    by (simp add: connect_bytes_def read_at_def ip_ok_def del: be_bytes.simps)
  finally show ?thesis using assms(4) by (simp add: pk_status_def del: be_bytes.simps)
qed

text \<open>For the examples: a request or reply without private data and the given status.\<close>

definition demo_req :: "u32 \<Rightarrow> ionet_connect" where
  "demo_req st = \<lparr>ic_hdr = SoftwareBytes (muh (mu_iMemoryFifoDescriptor demo_conn)), source_port = 1, dest_port = 2,
     source_IP_addr = replicate 16 10, dest_IP_addr = replicate 16 11, source_request_id = 3, ic_status = st,
     private_data_length = 0\<rparr>"

lemma demo_req_ip: "ip_ok (demo_req st)"
  by (simp add: ip_ok_def demo_req_def)

definition demo_peer :: "u32 \<Rightarrow> clist \<Rightarrow> my_context" where
  "demo_peer me c = upd_conn 0 (\<lambda>k. k\<lparr>io_port := TORUS_PORT_6, dest_conn_index := 0\<rparr>) (demo_ctx me c)"

lemma demo_peer_rep: "conn_rep (demo_peer me c) ((\<lambda>_. [])(c := [0]))"
  using demo_ctx_rep by (simp add: demo_peer_def)

section \<open>Connecting\<close>

text \<open>
  C23: a connect request arrives.  When a connection, a packet and a ready injection FIFO are
  there, \<^verbatim>\<open>mudm_connect\<close> returns 0, the connection is pending, and exactly one packet is injected;
  the handler of the node that receives it opens a pending connection of its own that names the
  requester: its torus address, its connection index, time stamp, block and port, in the direction
  of a request from there.
\<close>

theorem mudm_connect_reaches_peer:
  assumes mm: "mmagic mc = MUDM_MAGIC" and pl: "plen \<le> 256" and po: "port_ok (my_using_IO_port mc)"
    and rep: "conn_rep mc ls" and fs: "ls LFree = x # fs" and hs: "hws_live hs"
    and inj: "ctl_inv n (injfifo_ctls mc l)" and l: "l = connect_link mc dest"
    and pool: "pkt_free_list (packetcontrols mc l) = Some k" and buf: "length (pkt_mem mc l k) = 512"
    and ip: "ip_ok req" and repp: "conn_rep mcp lsp" and fsp: "lsp LFree = y # fsp"
  shows "\<exists>mc' d mc3. mudm_connect hs now now' dest req pd plen mc = Some (RetOK, Some x, mc') \<and>
    cstate (conns mc' x) = CONN_PENDING \<and> x \<in> set ((ls(LFree := fs, LPend 0 := x # ls (LPend 0))) (LPend 0)) \<and>
    conn_rep mc' (ls(LFree := fs, LPend 0 := x # ls (LPend 0))) \<and>
    ctl_log (injfifo_ctls mc' l) = ctl_log (injfifo_ctls mc l) @ [MemFifoDesc d] \<and>
    ptype (SoftwareBytes (muh d)) = MUDM_CONN_REQUEST \<and>
    (let p = packet_of d (pkt_mem mc' l k) in
      connect_request nowp cb p mcp =
        map_option (\<lambda>(r, mc4). (Inr r, upd_conn y reset_seqnum mc4)) (cb y (pk_sw p) (pk_payload p) mc3) \<and>
      cstate (conns mc3 y) = CONN_PENDING \<and> destination (conns mc3 y) = myTorusAddress mc \<and>
      dest_conn_index (conns mc3 y) = my_index (conns mc x) \<and>
      remote_timestamp (conns mc3 y) = my_timestamp (conns mc' x) \<and> remote_BlockID (conns mc3 y) = myBlockID mc \<and>
      io_port (conns mc3 y) = my_using_IO_port mc \<and>
      cdirection (conns mc3 y) = set_direction_request (myTorusAddress mcp) (myTorusAddress mc))"
proof -
  from mudm_connect_total[OF mm pl po rep fs hs inj l pool, of now now' req pd] obtain mc' d where
    C: "mudm_connect hs now now' dest req pd plen mc = Some (RetOK, Some x, mc')"
    "conn_rep mc' (ls(LFree := fs, LPend 0 := x # ls (LPend 0)))"
    "ctl_log (injfifo_ctls mc' l) = ctl_log (injfifo_ctls mc l) @ [MemFifoDesc d]" "Message_Length d = 288"
    "ptype (SoftwareBytes (muh d)) = MUDM_CONN_REQUEST" "torus_source_node (SoftwareBytes (muh d)) = myTorusAddress mc"
    "pkt_mem mc' l k = connect_message (req\<lparr>private_data_length := plen\<rparr>) pd
      \<lparr>source_conn_index = my_index (conns mc x), pl_dest_conn_index = -1, pl_version = MUDM_VERSION,
       using_IO_port = my_using_IO_port mc, rec_FIFO_Id = local_rec_FIFO_Id (conns mc' x), source_BlockID = myBlockID mc,
       myBridgeTorusAddress = mybridgingCNnode mc, sourceUCI = myUCI mc, pl_timestamp = now\<rparr> (pkt_mem mc l k)"
    "cstate (conns mc' x) = CONN_PENDING" "my_timestamp (conns mc' x) = now" by metis
  define p where "p = packet_of d (pkt_mem mc' l k)"
  have "ip_ok (req\<lparr>private_data_length := plen\<rparr>)" using ip by (simp add: ip_ok_def)
  from packet_connect[OF this buf _ C(4)] pl have
    pc: "pk_connect p = \<lparr>source_conn_index = my_index (conns mc x), pl_dest_conn_index = -1, pl_version = MUDM_VERSION,
       using_IO_port = my_using_IO_port mc, rec_FIFO_Id = local_rec_FIFO_Id (conns mc' x), source_BlockID = myBlockID mc,
       myBridgeTorusAddress = mybridgingCNnode mc, sourceUCI = myUCI mc, pl_timestamp = now\<rparr>"
    unfolding p_def C(7) by simp
  have sw: "torus_source_node (pk_sw p) = myTorusAddress mc" using C(6) by (simp add: p_def)
  from connect_request_accepts[OF repp fsp, of nowp cb p] obtain mc3 where
    R: "connect_request nowp cb p mcp =
        map_option (\<lambda>(r, mc4). (Inr r, upd_conn y reset_seqnum mc4)) (cb y (pk_sw p) (pk_payload p) mc3)"
    "cstate (conns mc3 y) = CONN_PENDING" "destination (conns mc3 y) = torus_source_node (pk_sw p)"
    "dest_conn_index (conns mc3 y) = source_conn_index (pk_connect p)"
    "remote_timestamp (conns mc3 y) = pl_timestamp (pk_connect p)"
    "remote_BlockID (conns mc3 y) = source_BlockID (pk_connect p)" "io_port (conns mc3 y) = using_IO_port (pk_connect p)"
    "cdirection (conns mc3 y) = set_direction_request (myTorusAddress mcp) (torus_source_node (pk_sw p))" by metis
  show ?thesis
    by (rule exI[of _ mc'], rule exI[of _ d], rule exI[of _ mc3])
      (use C(1-5,8,9) R pc sw in \<open>simp add: p_def[symmetric]\<close>)
qed

theorem mudm_connect_reaches_peer_witness:
  "\<exists>mc' d mc3. mudm_connect demo_hws 77 78 9 (demo_req 0) None 0 (demo_ctx 4 LFree) = Some (RetOK, Some 0, mc') \<and>
     connect_request 80 (\<lambda>_ _ _ mc. Some (0, mc)) (packet_of d (pkt_mem mc' 0 0)) (demo_ctx 9 LFree) =
       Some (Inr 0, upd_conn 0 reset_seqnum mc3) \<and>
     destination (conns mc3 0) = 4 \<and> remote_timestamp (conns mc3 0) = my_timestamp (conns mc' 0)"
proof -
  have c: "mmagic (demo_ctx m a) = MUDM_MAGIC" "port_ok (my_using_IO_port (demo_ctx m a))"
    "injfifo_ctls (demo_ctx m a) = demo_injs" "packetcontrols (demo_ctx m a) = (\<lambda>_. demo_pkts)"
    "length (pkt_mem (demo_ctx m a) 0 0) = 512" "myTorusAddress (demo_ctx m a) = m" for m a
    by (simp_all add: demo_ctx_def port_ok_def)
  have l: "0 = connect_link (demo_ctx 4 LFree) 9"
    by (simp add: connect_link_def c set_direction_request_def MUDM_NODE_LOOPBACK_def MUDM_CN2IO_NODE_def)
  note T = mudm_connect_reaches_peer[where now = 77 and now' = 78 and pd = None and nowp = 80 and cb = "\<lambda>_ _ _ mc. Some (0, mc)"
      and x = 0 and y = 0 and fs = "[]" and fsp = "[]" and plen = 0 and k = 0 and n = 4
      and ls = "(\<lambda>_. [])(LFree := [0])" and lsp = "(\<lambda>_. [])(LFree := [0])", OF c(1) _ c(2) demo_ctx_rep _
      demo_hws_live _ l _ c(5) demo_req_ip[of 0] demo_ctx_rep[of 9]]
  have "ctl_inv 4 (injfifo_ctls (demo_ctx 4 LFree) 0)" "pkt_free_list (packetcontrols (demo_ctx 4 LFree) 0) = Some 0"
    by (simp_all add: c demo_injs_ctl demo_pkts_free)
  with T have "\<exists>mc' d mc3. mudm_connect demo_hws 77 78 9 (demo_req 0) None 0 (demo_ctx 4 LFree) = Some (RetOK, Some 0, mc') \<and>
      connect_request 80 (\<lambda>_ _ _ mc. Some (0, mc)) (packet_of d (pkt_mem mc' 0 0)) (demo_ctx 9 LFree) =
       Some (Inr 0, upd_conn 0 reset_seqnum mc3) \<and>
     destination (conns mc3 0) = 4 \<and> remote_timestamp (conns mc3 0) = my_timestamp (conns mc' 0)"
    by (simp add: Let_def c) blast
  then show ?thesis .
qed

section \<open>Replying\<close>



section \<open>Disconnecting\<close>

text \<open>
  C25: a disconnect frees both ends.  \<^verbatim>\<open>mudm_disconnect\<close> on a connection in use injects one packet
  of the disconnect type and frees the block (its value is \<^verbatim>\<open>-ENOSYS\<close>, not the 0 its interface
  promises); the handler on the other node, if its block carries the time stamp the first node
  learned in the handshake, calls the user and frees that block too.
\<close>

theorem mudm_disconnect_reaches_peer:
  assumes rep: "conn_rep mc ls" and x: "x \<in> set (ls c)" "free_ok mc c x"
    and st: "cstate (conns mc x) \<noteq> CONN_FREE" "cstate (conns mc x) \<noteq> CONN_DISCONNECTING" and hs: "hws_live hs"
    and l: "l = injfifo_of (conns mc x)" and inj: "ctl_inv n (injfifo_ctls mc l)"
    and repp: "conn_rep mcp lsp" and y: "y \<in> set (lsp cp)" "free_ok mcp cp y"
    and stp: "cstate (conns mcp y) \<noteq> CONN_FREE" "cstate (conns mcp y) \<noteq> CONN_DISCONNECTING"
    and names: "unat (dest_conn_index (conns mc x)) = y"
      "ucast (remote_timestamp (conns mc x)) = lowbit_timestamp (conns mcp y)"
  shows "\<exists>mc' d mc3. mudm_disconnect hs x mc = Some (RetErr ENOSYS, mc') \<and> cstate (conns mc' x) = CONN_FREE \<and>
    conn_rep mc' (ls(c := remove1 x (ls c), LFree := x # ls LFree)) \<and>
    ctl_log (injfifo_ctls mc' l) = ctl_log (injfifo_ctls mc l) @ [MemFifoDesc d] \<and>
    ptype (SoftwareBytes (muh d)) = MUDM_DISCONNECTED \<and>
    disconnect_request cb (packet_of d m) mcp =
      map_option (\<lambda>(r, mc4). (Inr r, mc4)) (cb y (SoftwareBytes (muh d)) [] mc3) \<and>
    cstate (conns mc3 y) = CONN_FREE \<and> conn_rep mc3 (lsp(cp := remove1 y (lsp cp), LFree := y # lsp LFree))"
proof -
  from mudm_disconnect_total[OF rep x st hs l inj] obtain mc' d where
    D: "mudm_disconnect hs x mc = Some (RetErr ENOSYS, mc')" "conn_rep mc' (ls(c := remove1 x (ls c), LFree := x # ls LFree))"
    "cstate (conns mc' x) = CONN_FREE" "ctl_log (injfifo_ctls mc' l) = ctl_log (injfifo_ctls mc l) @ [MemFifoDesc d]"
    "Message_Length d = 0" "ptype (SoftwareBytes (muh d)) = MUDM_DISCONNECTED"
    "sequence_number (SoftwareBytes (muh d)) = dest_conn_index (conns mc x)"
    "payload_length (SoftwareBytes (muh d)) = ucast (remote_timestamp (conns mc x))" by blast
  have "unat (sequence_number (pk_sw (packet_of d m))) = y" "payload_length (pk_sw (packet_of d m)) = lowbit_timestamp (conns mcp y)"
    using D(7,8) names by simp_all
  from disconnect_request_accepts[OF repp y stp this, of cb] obtain mc3 where
    "disconnect_request cb (packet_of d m) mcp =
       map_option (\<lambda>(r, mc2). (Inr r, mc2)) (cb y (pk_sw (packet_of d m)) (pk_payload (packet_of d m)) mc3)"
    "conn_rep mc3 (lsp(cp := remove1 y (lsp cp), LFree := y # lsp LFree))" "cstate (conns mc3 y) = CONN_FREE" by blast
  with D show ?thesis by (intro exI[of _ mc'] exI[of _ d] exI[of _ mc3]) simp
qed

theorem mudm_disconnect_reaches_peer_witness:
  "\<exists>mc' d mc3. mudm_disconnect demo_hws 0 (demo_peer 4 (LActive 0)) = Some (RetErr ENOSYS, mc') \<and>
     disconnect_request (\<lambda>_ _ _ mc. Some (0, mc)) (packet_of d []) (demo_peer 9 (LActive 0)) = Some (Inr 0, mc3) \<and>
     cstate (conns mc' 0) = CONN_FREE \<and> cstate (conns mc3 0) = CONN_FREE"
proof -
  have c: "free_ok (demo_peer m (LActive 0)) (LActive 0) 0" "cstate (conns (demo_peer m (LActive 0)) 0) \<noteq> CONN_FREE"
    "cstate (conns (demo_peer m (LActive 0)) 0) \<noteq> CONN_DISCONNECTING" "0 = injfifo_of (conns (demo_peer m (LActive 0)) 0)"
    "unat (dest_conn_index (conns (demo_peer m (LActive 0)) 0)) = 0"
    "ucast (remote_timestamp (conns (demo_peer m (LActive 0)) 0)) = lowbit_timestamp (conns (demo_peer k (LActive 0)) 0)"
    "ctl_inv 4 (injfifo_ctls (demo_peer m (LActive 0)) 0)" for m k
    using demo_injs_ctl
    by (simp_all add: demo_peer_def demo_ctx_def demo_conn_def conn_magic_ok_def upd_conn_def free_ok_def)
  note mudm_disconnect_reaches_peer[where ls = "(\<lambda>_. [])(LActive 0 := [0])" and lsp = "(\<lambda>_. [])(LActive 0 := [0])",
      OF demo_peer_rep[of 4] _ c(1-3) demo_hws_live c(4,7) demo_peer_rep[of 9] _ c(1-3) c(5,6),
      of "\<lambda>_ _ _ mc. Some (0, mc)" "[]"]
  then show ?thesis by auto
qed

section \<open>Private data\<close>

lemma take_write_at: "off + length bs \<le> length m \<Longrightarrow> take (off + length bs) (write_at off bs m) = take off m @ bs"
  by (simp add: write_at_def)

lemma drop_write_at: "off \<le> length m \<Longrightarrow> drop off (write_at off bs m) = bs @ drop (off + length bs) m"
  by (simp add: write_at_def)

lemma connect_message_private:
  assumes "ip_ok ic" "length msg = 512" "length bs = unat (private_data_length ic)" "private_data_length ic \<le> 256"
  shows "read_at 54 (length bs) (take 288 (connect_message ic (Some bs) pl msg)) =
    (if length bs \<le> 202 then bs else take (length bs) (take 202 bs @ payload_bytes pl))"
proof -
  let ?m1 = "write_at 0 (connect_bytes ic) msg"
  let ?m2 = "write_at 54 bs ?m1"
  have c: "length (connect_bytes ic) = 54" using length_connect_bytes[OF assms(1)] .
  have n: "length bs \<le> 256" using assms(3,4) by (simp add: word_le_nat_alt)
  have l1: "length ?m1 = 512" using assms(2) c by simp
  have l2: "length ?m2 = 512" using l1 n by simp
  have "connect_message ic (Some bs) pl msg = write_at 256 (payload_bytes pl) ?m2"
    using assms(3) by (simp add: connect_message_def connect_body_def connect_payload_length_def Let_def)
  then have t: "take 288 (connect_message ic (Some bs) pl msg) = take 256 ?m2 @ payload_bytes pl"
    using take_write_at[of 256 "payload_bytes pl" ?m2] l2 by simp
  have "drop 54 ?m2 = bs @ drop (54 + length bs) ?m1"
    by (rule drop_write_at) (simp add: l1)
  then have d: "drop 54 (take 256 ?m2) = take 202 (bs @ drop (54 + length bs) ?m1)"
    by (simp add: drop_take)
  show ?thesis
  proof (cases "length bs \<le> 202")
    case True
    then show ?thesis using l2 l1 by (simp add: t read_at_def d)
  next
    case False
    then show ?thesis using l2 by (simp add: t read_at_def d)
  qed
qed

text \<open>
  How much private data a connect request carries.  \<^verbatim>\<open>mudm_connect\<close> accepts up to 256
  bytes, as its interface says, but what the peer reads behind the connect message is the caller's
  data only up to byte 202: the connection payload, written at byte 256 of the message, replaces
  the rest, and the packet ends behind it.
\<close>

theorem private_data_truncated:
  assumes mm: "mmagic mc = MUDM_MAGIC" and pl: "plen \<le> 256" and po: "port_ok (my_using_IO_port mc)"
    and rep: "conn_rep mc ls" and fs: "ls LFree = x # fs" and hs: "hws_live hs"
    and inj: "ctl_inv n (injfifo_ctls mc l)" and l: "l = connect_link mc dest"
    and pool: "pkt_free_list (packetcontrols mc l) = Some k" and buf: "length (pkt_mem mc l k) = 512"
    and ip: "ip_ok req" and pd: "length bs = unat plen"
  shows "\<exists>mc' d. mudm_connect hs now now' dest req (Some bs) plen mc = Some (RetOK, Some x, mc') \<and>
    ctl_log (injfifo_ctls mc' l) = ctl_log (injfifo_ctls mc l) @ [MemFifoDesc d] \<and>
    (let p = packet_of d (pkt_mem mc' l k) in
      read_at 54 (length bs) (pk_payload p) =
        (if length bs \<le> 202 then bs else take (length bs) (take 202 bs @ payload_bytes (pk_connect p))))"
proof -
  from mudm_connect_total[OF mm pl po rep fs hs inj l pool, of now now' req "Some bs"] obtain mc' d where
    C: "mudm_connect hs now now' dest req (Some bs) plen mc = Some (RetOK, Some x, mc')"
    "ctl_log (injfifo_ctls mc' l) = ctl_log (injfifo_ctls mc l) @ [MemFifoDesc d]" "Message_Length d = 288"
    "pkt_mem mc' l k = connect_message (req\<lparr>private_data_length := plen\<rparr>) (Some bs)
      \<lparr>source_conn_index = my_index (conns mc x), pl_dest_conn_index = -1, pl_version = MUDM_VERSION,
       using_IO_port = my_using_IO_port mc, rec_FIFO_Id = local_rec_FIFO_Id (conns mc' x), source_BlockID = myBlockID mc,
       myBridgeTorusAddress = mybridgingCNnode mc, sourceUCI = myUCI mc, pl_timestamp = now\<rparr> (pkt_mem mc l k)" by metis
  have ok: "ip_ok (req\<lparr>private_data_length := plen\<rparr>)" using ip by (simp add: ip_ok_def)
  define p where "p = packet_of d (pkt_mem mc' l k)"
  have c: "pk_connect p = \<lparr>source_conn_index = my_index (conns mc x), pl_dest_conn_index = -1, pl_version = MUDM_VERSION,
       using_IO_port = my_using_IO_port mc, rec_FIFO_Id = local_rec_FIFO_Id (conns mc' x), source_BlockID = myBlockID mc,
       myBridgeTorusAddress = mybridgingCNnode mc, sourceUCI = myUCI mc, pl_timestamp = now\<rparr>"
    unfolding p_def C(4) by (rule packet_connect[OF ok buf _ C(3)]) (use pl in simp)
  have "read_at 54 (length bs) (pk_payload p) =
        (if length bs \<le> 202 then bs else take (length bs) (take 202 bs @ payload_bytes (pk_connect p)))"
    unfolding c unfolding p_def packet_of_simps C(3) C(4)
    using connect_message_private[OF ok buf, of bs] pl pd by simp
  with C(1,2) show ?thesis unfolding Let_def p_def by blast
qed

theorem private_data_truncated_witness:
  "\<exists>mc' d. mudm_connect demo_hws 77 78 9 (demo_req 0) (Some (replicate 203 7)) 203 (demo_ctx 4 LFree) = Some (RetOK, Some 0, mc') \<and>
     (let p = packet_of d (pkt_mem mc' 0 0) in
      read_at 54 203 (pk_payload p) = replicate 202 7 @ take 1 (payload_bytes (pk_connect p)))"
proof -
  let ?bs = "replicate 203 7 :: u8 list"
  have c: "mmagic (demo_ctx m a) = MUDM_MAGIC" "port_ok (my_using_IO_port (demo_ctx m a))"
    "injfifo_ctls (demo_ctx m a) = demo_injs" "packetcontrols (demo_ctx m a) = (\<lambda>_. demo_pkts)"
    "length (pkt_mem (demo_ctx m a) 0 0) = 512" "myTorusAddress (demo_ctx m a) = m" for m a
    by (simp_all add: demo_ctx_def port_ok_def)
  have l: "0 = connect_link (demo_ctx 4 LFree) 9"
    by (simp add: connect_link_def c set_direction_request_def MUDM_NODE_LOOPBACK_def MUDM_CN2IO_NODE_def)
  have i: "ctl_inv 4 (injfifo_ctls (demo_ctx 4 LFree) 0)" "pkt_free_list (packetcontrols (demo_ctx 4 LFree) 0) = Some 0"
    "length ?bs = unat (203 :: u16)" "(203 :: u16) \<le> 256" "((\<lambda>_. [])(LFree := [0])) LFree = [0::nat]"
    by (simp_all add: c demo_injs_ctl demo_pkts_free)
  from private_data_truncated[OF c(1) i(4) c(2) demo_ctx_rep i(5) demo_hws_live i(1) l i(2) c(5) demo_req_ip i(3), of 77 78]
  have "\<exists>mc' d. mudm_connect demo_hws 77 78 9 (demo_req 0) (Some ?bs) 203 (demo_ctx 4 LFree) = Some (RetOK, Some 0, mc') \<and>
    (let p = packet_of d (pkt_mem mc' 0 0) in
      read_at 54 (length ?bs) (pk_payload p) =
        (if length ?bs \<le> 202 then ?bs else take (length ?bs) (take 202 ?bs @ payload_bytes (pk_connect p))))"
    by blast
  then show ?thesis by (simp add: Let_def)
qed

section \<open>When no packet is left\<close>

text \<open>
  A connect request that finds no packet.  The block taken from the free list is freed again
  before it was ever put on a pending list; a block that never was on one (as after
  initialisation) has no pending list to look at, and \<^verbatim>\<open>connection_free\<close> follows a null pointer.
\<close>

theorem mudm_connect_no_packet_null:
  assumes "mmagic mc = MUDM_MAGIC" "plen \<le> 256" and rep: "conn_rep mc ls" and fs: "ls LFree = x # fs"
    and "pkt_free_list (packetcontrols mc (connect_link mc dest)) = None"
    and "pendlist_of (conns mc x) = None"
  shows "mudm_connect hs now now' dest req pd plen mc = None"
proof -
  obtain p mc1 where g: "conn_list_getfree now mc = (p, mc1)" by (rule prod.exhaust)
  note G = conn_list_getfree_Cons[OF rep fs g]
  note M = my_context_more[OF G(5)]
  define c1 where "c1 = connect_fields mc1 dest (conns mc1 x)"
  have c1: "pools_of c1 = connect_link mc dest" "cmagic c1 = CONN_MAGIC" "pendlist_of c1 = None"
    "activelist_of c1 = Some (pools_of c1)"
    using assms(6) by (simp_all add: c1_def connect_fields_link connect_link_def M G(4))
      (simp_all add: connect_fields_def Let_def)
  define mc2 where "mc2 = upd_conn x (connect_fields mc1 dest) mc1"
  have c2: "conns mc2 x = c1" "packetcontrols mc2 = packetcontrols mc"
    by (simp_all add: mc2_def c1_def upd_conn_def M)
  have ls: "conn_rep mc2 (ls(LFree := fs))" using G(2) by (simp add: mc2_def)
  then have r: "links_rep (clinks mc2) (clist_head mc2) (ls(LFree := fs))" by (simp add: conn_rep_def)
  have na: "conn_activelist mc2 l \<noteq> Some x" for l
    using chain_head[OF links_repD(1)[OF r, of "LActive l"]] G(3)[unfolded conn_floats_def, rule_format, of "LActive l"]
    by (auto split: list.splits)
  have "prv (clinks mc2) x = None" "nxt (clinks mc2) x = None" using G(6,7) by (simp_all add: mc2_def upd_conn_def)
  then have fr: "connection_free x (upd_conn x (connect_fields mc1 dest) mc1) = None"
    unfolding mc2_def[symmetric]
    using c1 c2 na by (simp add: connection_free_def conn_magic_ok_def Let_def link_unlink_def free_heads_def)
  have pl: "pools_of (connect_fields mc1 dest c) = connect_link mc dest" for c
    by (simp add: connect_fields_link connect_link_def M)
  have al: "alloc_pkt_message (packetcontrols mc1 (connect_link mc dest)) = (None, packetcontrols mc1 (connect_link mc dest))"
    using assms(5) by (simp add: alloc_pkt_message_def M)
  show ?thesis
    using assms(1,2) G(1) fr
    by (simp add: mudm_connect_def g Let_def pl al not_less[symmetric])
qed

theorem mudm_connect_no_packet_null_witness:
  "mudm_connect demo_hws 77 78 9 (demo_req 0) None 0 ((upd_conn 0 (\<lambda>c. c\<lparr>pendlist_of := None\<rparr>) (demo_ctx 4 LFree))
     \<lparr>packetcontrols := (\<lambda>_. demo_pkts\<lparr>pkt_free_list := None\<rparr>)\<rparr>) = None"
proof (rule mudm_connect_no_packet_null)
  have "conn_rep (upd_conn 0 (\<lambda>c. c\<lparr>pendlist_of := None\<rparr>) (demo_ctx 4 LFree)) ((\<lambda>_. [])(LFree := [0]))"
    using demo_ctx_rep by simp
  then show "conn_rep ((upd_conn 0 (\<lambda>c. c\<lparr>pendlist_of := None\<rparr>) (demo_ctx 4 LFree))
     \<lparr>packetcontrols := (\<lambda>_. demo_pkts\<lparr>pkt_free_list := None\<rparr>)\<rparr>) ((\<lambda>_. [])(LFree := [0]))"
    by (simp add: conn_rep_def)
qed (simp add: demo_ctx_def upd_conn_def, simp, simp, simp, simp add: upd_conn_def)

end
