(* ===== verification/Mudm_Sgl.thy ===== *)
theory Mudm_Sgl
  imports Mudm_Context
begin

text \<open>
  Scatter-gather transfers of \<^verbatim>\<open>bgmudm/mudm.c\<close>: the walk along a local and a remote list that
  \<^verbatim>\<open>mudm_rdma_write\<close> and \<^verbatim>\<open>mudm_rdma_read\<close> share, \<^verbatim>\<open>mudm_rdma_write\<close> itself, and the refinement
  of the copy it stands for.  A list is the memory from the pointer on, a function of the index;
  its 36-bit address and 28-bit length are words of that width.
\<close>

section \<open>The lists and the walk\<close>

record mudm_sgl =
  physicalAddr :: "36 word"
  memlength :: "28 word"

type_synonym sgl_mem = "nat \<Rightarrow> mudm_sgl"

text \<open>One side of the walk: the pointer into the list, and the rest of the entry it points to.\<close>

record sgl_pos =
  sgl_idx :: nat
  cur_pa :: u64
  cur_memlength :: u64

definition sgl_load :: "sgl_mem \<Rightarrow> nat \<Rightarrow> sgl_pos" where
  "sgl_load m i = \<lparr>sgl_idx = i, cur_pa = ucast (physicalAddr (m i)), cur_memlength = ucast (memlength (m i))\<rparr>"

definition sgl_next :: "sgl_mem \<Rightarrow> sgl_pos \<Rightarrow> sgl_pos" where
  "sgl_next m p = sgl_load m (Suc (sgl_idx p))"

definition sgl_skip :: "u64 \<Rightarrow> sgl_pos \<Rightarrow> sgl_pos" where
  "sgl_skip n p = p\<lparr>cur_pa := cur_pa p + n, cur_memlength := cur_memlength p - n\<rparr>"

text \<open>The length of the next transfer, and the three cases of moving on.\<close>

definition sgl_len :: "sgl_pos \<Rightarrow> sgl_pos \<Rightarrow> u64" where
  "sgl_len l r = (if cur_memlength l < cur_memlength r then cur_memlength l else cur_memlength r)"

definition sgl_advance :: "sgl_mem \<Rightarrow> sgl_mem \<Rightarrow> sgl_pos \<Rightarrow> sgl_pos \<Rightarrow> sgl_pos \<times> sgl_pos" where
  "sgl_advance lm rm l r =
     (if cur_memlength l = cur_memlength r then (sgl_next lm l, sgl_next rm r)
      else if cur_memlength l < cur_memlength r then (sgl_next lm l, sgl_skip (cur_memlength l) r)
      else (sgl_skip (cur_memlength r) l, sgl_next rm r))"

section \<open>Writing\<close>

text \<open>The loop: whether it left through \<^verbatim>\<open>BADRDMA\<close>, and \<^verbatim>\<open>totalbytes\<close>, which has 32 bits.\<close>

partial_function (option) rdma_write_loop ::
  "hws \<Rightarrow> mudm_connection \<Rightarrow> u64 \<Rightarrow> u64 \<Rightarrow> sgl_mem \<Rightarrow> sgl_mem \<Rightarrow> sgl_pos \<Rightarrow> sgl_pos \<Rightarrow> u32 \<Rightarrow> injs
   \<Rightarrow> (bool \<times> u32 \<times> injs) option" where
  "rdma_write_loop hs cc rdma_object bytes_xfer lm rm l r totalbytes is =
     (if cur_pa l = 0 \<or> cur_pa r = 0 then Some (False, totalbytes, is)
      else
        (let n = sgl_len l r; t = totalbytes + ucast n in
         if bytes_xfer < ucast t then Some (True, t, is)
         else case direct_put hs (cur_pa l) (cur_pa r) n rdma_object cc is of
                None \<Rightarrow> None
              | Some (desc_count, is1) \<Rightarrow>
                  if bytes_xfer \<le> ucast t then Some (False, t, is1)
                  else rdma_write_loop hs cc rdma_object bytes_xfer lm rm
                         (fst (sgl_advance lm rm l r)) (snd (sgl_advance lm rm l r)) t is1))"

text \<open>
  Offsets in \<^verbatim>\<open>struct mu_element\<close>: the counter, at which an object points, is followed by the
  error.  The word put there on an error is \<^verbatim>\<open>mcontext->rdma_EINVAL_source\<close>.
\<close>

definition put_einval :: "hws \<Rightarrow> u64 \<Rightarrow> mudm_connection \<Rightarrow> my_context \<Rightarrow> injs \<Rightarrow> (u64 \<times> injs) option" where
  "put_einval hs rdma_object cc mc is =
     direct_put hs (rdma_EINVAL_source_pa (notice_sources mc)) (rdma_object + 8) 8 rdma_object cc is"

definition mudm_rdma_write ::
  "hws \<Rightarrow> nat \<Rightarrow> u64 \<Rightarrow> u64 \<Rightarrow> sgl_mem option \<Rightarrow> sgl_mem option \<Rightarrow> my_context \<Rightarrow> (ret \<times> my_context) option" where
  "mudm_rdma_write hs x rdma_object bytes_xfer local_sgl remote_sgl mc =
     (case (local_sgl, remote_sgl) of
        (Some lm, Some rm) \<Rightarrow>
          (if bytes_xfer = 0 then Some (RetErr EINVAL, mc)
           else if \<not> conn_magic_ok (conns mc x) then Some (RetErr EFAULT, mc)
           else case rdma_write_loop hs (conns mc x) rdma_object bytes_xfer lm rm (sgl_load lm 0) (sgl_load rm 0) 0
                      (injfifo_ctls mc) of
                  None \<Rightarrow> None
                | Some (bad, totalbytes, is) \<Rightarrow>
                    if \<not> bad \<and> ucast totalbytes = bytes_xfer then Some (RetOK, mc\<lparr>injfifo_ctls := is\<rparr>)
                    else map_option (\<lambda>(_, is1). (RetErr EINVAL, mc\<lparr>injfifo_ctls := is1\<rparr>))
                           (put_einval hs rdma_object (conns mc x) mc is))
      | _ \<Rightarrow> Some (RetErr EINVAL, mc))"

section \<open>What a list stands for\<close>

text \<open>The bytes of a list in order, by their addresses, and the bytes a direct put copies.\<close>

definition addr_span :: "u64 \<Rightarrow> u64 \<Rightarrow> nat list" where
  "addr_span a n = [unat a..<unat a + unat n]"

definition sgl_addrs :: "mudm_sgl list \<Rightarrow> nat list" where
  "sgl_addrs xs = concat (map (\<lambda>s. addr_span (ucast (physicalAddr s)) (ucast (memlength s))) xs)"

definition put_pairs :: "directput_desc \<Rightarrow> (nat \<times> nat) list" where
  "put_pairs d = zip (addr_span (Pa_Payload d) (Message_Length d)) (addr_span (put_offset (muh d)) (Message_Length d))"

text \<open>A list in memory: its entries are not null, and it ends with a null address if it has to.\<close>

definition sgl_at :: "sgl_mem \<Rightarrow> mudm_sgl list \<Rightarrow> bool" where
  "sgl_at m xs \<longleftrightarrow> (\<forall>i<length xs. m i = xs ! i \<and> physicalAddr (xs ! i) \<noteq> 0)"

definition sgl_ends :: "sgl_mem \<Rightarrow> mudm_sgl list \<Rightarrow> bool" where
  "sgl_ends m xs \<longleftrightarrow> physicalAddr (m (length xs)) = 0"

definition pos_rest :: "mudm_sgl list \<Rightarrow> sgl_pos \<Rightarrow> nat list" where
  "pos_rest xs p = (if sgl_idx p < length xs
     then addr_span (cur_pa p) (cur_memlength p) @ sgl_addrs (drop (Suc (sgl_idx p)) xs) else [])"

definition pos_ok :: "mudm_sgl list \<Rightarrow> sgl_pos \<Rightarrow> bool" where
  "pos_ok xs p \<longleftrightarrow> (if sgl_idx p < length xs then cur_pa p \<noteq> 0 \<and> unat (cur_pa p) + unat (cur_memlength p) < 2 ^ 37
                else sgl_idx p = length xs \<and> cur_pa p = 0)"

lemma length_addr_span [simp]: "length (addr_span a n) = unat n"
  by (simp add: addr_span_def)

lemma sgl_addrs_Cons: "sgl_addrs (x # xs) = addr_span (ucast (physicalAddr x)) (ucast (memlength x)) @ sgl_addrs xs"
  by (simp add: sgl_addrs_def)

lemma unat_ucast_36: "unat (ucast (a :: 36 word) :: u64) = unat a \<and> unat a < 2 ^ 36"
proof -
  have "unat a < 2 ^ LENGTH(36)" by (rule unsigned_less)
  then have "unat a < 2 ^ 36" by simp
  then show ?thesis by (simp add: unsigned_ucast_eq take_bit_nat_eq_self)
qed

lemma unat_ucast_28: "unat (ucast (a :: 28 word) :: u64) = unat a \<and> unat a < 2 ^ 28"
proof -
  have "unat a < 2 ^ LENGTH(28)" by (rule unsigned_less)
  then have "unat a < 2 ^ 28" by simp
  then show ?thesis by (simp add: unsigned_ucast_eq take_bit_nat_eq_self)
qed

lemma sgl_load_rest:
  assumes "sgl_at m xs" "i \<le> length xs"
  shows "pos_rest xs (sgl_load m i) = sgl_addrs (drop i xs)"
proof (cases "i < length xs")
  case True
  then have "drop i xs = xs ! i # drop (Suc i) xs" "m i = xs ! i"
    using assms by (simp_all add: Cons_nth_drop_Suc sgl_at_def)
  then show ?thesis using True by (simp add: pos_rest_def sgl_load_def sgl_addrs_Cons)
next
  case False
  then show ?thesis by (simp add: pos_rest_def sgl_load_def sgl_addrs_def)
qed

lemma sgl_load_ok:
  assumes "sgl_at m xs" "i \<le> length xs" "i < length xs \<or> sgl_ends m xs"
  shows "pos_ok xs (sgl_load m i)"
proof (cases "i < length xs")
  case True
  then have m: "m i = xs ! i" "physicalAddr (xs ! i) \<noteq> 0" using assms(1) by (simp_all add: sgl_at_def)
  have "unat (ucast (physicalAddr (m i)) :: u64) \<noteq> 0"
    using unat_ucast_36[of "physicalAddr (m i)"] m by (simp add: unat_eq_0)
  then have "(ucast (physicalAddr (m i)) :: u64) \<noteq> 0" by (metis unsigned_0)
  then show ?thesis
    using True unat_ucast_36[of "physicalAddr (m i)"] unat_ucast_28[of "memlength (m i)"]
    by (simp add: pos_ok_def sgl_load_def)
next
  case False
  with assms show ?thesis by (simp add: pos_ok_def sgl_load_def sgl_ends_def)
qed

lemma sgl_next_rest:
  assumes "sgl_at m xs" "sgl_idx p < length xs"
  shows "pos_rest xs p = addr_span (cur_pa p) (cur_memlength p) @ pos_rest xs (sgl_next m p)"
  using sgl_load_rest[OF assms(1), of "Suc (sgl_idx p)"] assms(2) by (simp add: pos_rest_def sgl_next_def)

lemma sgl_next_ok:
  assumes "sgl_at m xs" "sgl_idx p < length xs" "pos_rest xs (sgl_next m p) \<noteq> [] \<or> sgl_ends m xs"
  shows "pos_ok xs (sgl_next m p)"
proof -
  have "Suc (sgl_idx p) < length xs" if "pos_rest xs (sgl_next m p) \<noteq> []"
    using that by (auto simp: pos_rest_def sgl_next_def sgl_load_def split: if_splits)
  with assms show ?thesis unfolding sgl_next_def by (intro sgl_load_ok) auto
qed

lemma sgl_skip_split:
  assumes "pos_ok xs p" "sgl_idx p < length xs" "n < cur_memlength p"
  shows "pos_ok xs (sgl_skip n p)"
    and "pos_rest xs p = addr_span (cur_pa p) n @ pos_rest xs (sgl_skip n p)"
proof -
  have b: "cur_pa p \<noteq> 0" "unat (cur_pa p) + unat (cur_memlength p) < 2 ^ 37"
    using assms(1,2) by (simp_all add: pos_ok_def)
  have n: "unat n < unat (cur_memlength p)" using assms(3) by (simp add: word_less_nat_alt)
  have a: "unat (cur_pa p + n) = unat (cur_pa p) + unat n"
    using b n by (subst unat_add_lem[THEN iffD1]) simp_all
  have s: "unat (cur_memlength p - n) = unat (cur_memlength p) - unat n"
    using n by (intro unat_sub) (simp add: word_le_nat_alt)
  have "unat (cur_pa p) \<noteq> 0" using b(1) by (simp add: unat_eq_0)
  then have "cur_pa p + n \<noteq> 0" using a by (metis add_is_0 unsigned_0)
  then show "pos_ok xs (sgl_skip n p)" using assms(2) a s b n by (simp add: pos_ok_def sgl_skip_def)
  have "addr_span (cur_pa p) (cur_memlength p) = addr_span (cur_pa p) n @ addr_span (cur_pa p + n) (cur_memlength p - n)"
    using n upt_add_eq_append[of "unat (cur_pa p)" "unat (cur_pa p) + unat n" "unat (cur_memlength p) - unat n"]
    by (simp add: addr_span_def a s add.assoc)
  then show "pos_rest xs p = addr_span (cur_pa p) n @ pos_rest xs (sgl_skip n p)"
    using assms(2) by (simp add: pos_rest_def sgl_skip_def)
qed

lemma sgl_len_unat: "unat (sgl_len l r) = min (unat (cur_memlength l)) (unat (cur_memlength r))"
  by (auto simp: sgl_len_def word_less_nat_alt)

lemma sgl_advance_split:
  assumes at: "sgl_at lm ls" "sgl_at rm rs" and ok: "pos_ok ls l" "pos_ok rs r"
    and i: "sgl_idx l < length ls" "sgl_idx r < length rs"
  obtains l' r' where "sgl_advance lm rm l r = (l', r')"
    "pos_rest ls l = addr_span (cur_pa l) (sgl_len l r) @ pos_rest ls l'"
    "pos_rest rs r = addr_span (cur_pa r) (sgl_len l r) @ pos_rest rs r'"
    "length ls + length rs - (sgl_idx l' + sgl_idx r') < length ls + length rs - (sgl_idx l + sgl_idx r)"
    "pos_rest ls l' \<noteq> [] \<or> sgl_ends lm ls \<Longrightarrow> pos_rest rs r' \<noteq> [] \<or> sgl_ends rm rs \<Longrightarrow> pos_ok ls l' \<and> pos_ok rs r'"
proof -
  have idx: "sgl_idx (sgl_next lm l) = Suc (sgl_idx l)" "sgl_idx (sgl_next rm r) = Suc (sgl_idx r)"
    "sgl_idx (sgl_skip n l) = sgl_idx l" "sgl_idx (sgl_skip n r) = sgl_idx r" for n
    by (simp_all add: sgl_next_def sgl_load_def sgl_skip_def)
  note N = sgl_next_rest[OF at(1) i(1)] sgl_next_rest[OF at(2) i(2)]
    sgl_next_ok[OF at(1) i(1)] sgl_next_ok[OF at(2) i(2)]
  consider (eq) "cur_memlength l = cur_memlength r" | (lt) "cur_memlength l < cur_memlength r"
    | (gt) "cur_memlength r < cur_memlength l" by (metis linorder_neqE)
  then show ?thesis
  proof cases
    case eq
    then show ?thesis using N i idx by (intro that[of "sgl_next lm l" "sgl_next rm r"]) (auto simp: sgl_advance_def sgl_len_def)
  next
    case lt
    note S = sgl_skip_split[OF ok(2) i(2) lt]
    from lt show ?thesis using N(1,3) S i idx
      by (intro that[of "sgl_next lm l" "sgl_skip (cur_memlength l) r"]) (auto simp: sgl_advance_def sgl_len_def)
  next
    case gt
    note S = sgl_skip_split[OF ok(1) i(1) gt]
    from gt show ?thesis using N(2,4) S i idx
      by (intro that[of "sgl_skip (cur_memlength r) l" "sgl_next rm r"]) (auto simp: sgl_advance_def sgl_len_def)
  qed
qed

lemma patch_directput_pairs:
  assumes "patch_directput n src dst off d0 = Some d" "unat dst < 2 ^ 37"
  shows "put_pairs d = zip (addr_span src n) (addr_span dst n)" "NetworkHeader d = NetworkHeader d0"
    "take_bit 36 off = off \<Longrightarrow> counter_address (muh d) = off"
proof -
  have o: "off AND 7 = 0" using assms(1) by (auto simp: patch_directput_def set_counter_directput_def split: if_splits)
  have t: "take_bit 37 dst = dst"
    using assms(2) by (simp add: word_unat_eq_iff unsigned_take_bit_eq take_bit_nat_eq_self)
  show "put_pairs d = zip (addr_span src n) (addr_span dst n)" "NetworkHeader d = NetworkHeader d0"
    using assms(1) o put_offset_split[of dst] t
    by (auto simp: patch_directput_def set_counter_directput_def set_dma_directput_def put_pairs_def put_offset_def)
  show "counter_address (muh d) = off" if "take_bit 36 off = off"
    using assms(1) o counter_offset_split[OF o that]
    by (auto simp: patch_directput_def set_counter_directput_def set_dma_directput_def counter_address_def)
qed

section \<open>The walk copies what the lists say\<close>

text \<open>The puts of one walk: they carry the connection's route and decrement the counter.\<close>

definition puts_ok :: "mudm_connection \<Rightarrow> u64 \<Rightarrow> directput_desc list \<Rightarrow> bool" where
  "puts_ok cc rdma_object ds \<longleftrightarrow> (\<forall>d \<in> set ds. NetworkHeader d = NetworkHeader (mu_iDirectPutDescriptor cc) \<and>
     (take_bit 36 rdma_object = rdma_object \<longrightarrow> counter_address (muh d) = rdma_object))"

lemma word_sum_u32:
  assumes "unat (t :: u32) + unat (n :: u64) < 2 ^ 32"
  shows "unat (t + ucast n) = unat t + unat n" "unat (ucast (t + ucast n) :: u64) = unat t + unat n"
proof -
  have n: "unat (ucast n :: u32) = unat n"
    using assms by (simp add: unsigned_ucast_eq take_bit_nat_eq_self)
  show s: "unat (t + ucast n) = unat t + unat n"
    using assms n by (subst unat_add_lem[THEN iffD1]) simp_all
  show "unat (ucast (t + ucast n) :: u64) = unat t + unat n"
    using s assms by (simp add: unsigned_ucast_eq take_bit_nat_eq_self)
qed

lemma rdma_write_loop_rep:
  assumes hs: "hws_live hs" and obj: "rdma_object AND 7 = 0" and at: "sgl_at lm ls" "sgl_at rm rs"
    and small: "unat bytes < 2 ^ 32"
  shows "pos_ok ls l \<Longrightarrow> pos_ok rs r \<Longrightarrow> k = length ls + length rs - (sgl_idx l + sgl_idx r) \<Longrightarrow>
    links_room n (k + j) is \<Longrightarrow>
    unat tot + min (length (pos_rest ls l)) (length (pos_rest rs r)) \<le> unat bytes \<Longrightarrow>
    unat tot < unat bytes \<Longrightarrow>
    unat tot + min (length (pos_rest ls l)) (length (pos_rest rs r)) < unat bytes \<longrightarrow> sgl_ends lm ls \<and> sgl_ends rm rs \<Longrightarrow>
    \<exists>tot' is' ds. rdma_write_loop hs cc rdma_object bytes lm rm l r tot is = Some (False, tot', is') \<and>
      unat tot' = unat tot + min (length (pos_rest ls l)) (length (pos_rest rs r)) \<and>
      ctl_log (is' (injfifo_of cc)) = ctl_log (is (injfifo_of cc)) @ map DirectPutDesc ds \<and>
      concat (map put_pairs ds) = zip (pos_rest ls l) (pos_rest rs r) \<and> puts_ok cc rdma_object ds \<and> links_room n j is'"
proof (induction k arbitrary: l r tot "is" rule: less_induct)
  case (less k)
  let ?A = "pos_rest ls l" and ?B = "pos_rest rs r"
  show ?case
  proof (cases "sgl_idx l < length ls \<and> sgl_idx r < length rs")
    case False
    then have "?A = [] \<or> ?B = []" "cur_pa l = 0 \<or> cur_pa r = 0"
      using less.prems(1,2) by (auto simp: pos_rest_def pos_ok_def)
    moreover have "links_room n j is" using less.prems(4) by (rule links_room_mono) simp
    ultimately show ?thesis
      by (intro exI[of _ tot] exI[of _ "is"] exI[of _ "[]"]) (subst rdma_write_loop.simps, auto simp: puts_ok_def)
  next
    case True
    then have i: "sgl_idx l < length ls" "sgl_idx r < length rs" by auto
    then have pa: "cur_pa l \<noteq> 0" "cur_pa r \<noteq> 0" and rb: "unat (cur_pa r) + unat (cur_memlength r) < 2 ^ 37"
      using less.prems(1,2) by (simp_all add: pos_ok_def)
    obtain l' r' where A: "sgl_advance lm rm l r = (l', r')"
      "?A = addr_span (cur_pa l) (sgl_len l r) @ pos_rest ls l'" "?B = addr_span (cur_pa r) (sgl_len l r) @ pos_rest rs r'"
      "length ls + length rs - (sgl_idx l' + sgl_idx r') < length ls + length rs - (sgl_idx l + sgl_idx r)"
      "pos_rest ls l' \<noteq> [] \<or> sgl_ends lm ls \<Longrightarrow> pos_rest rs r' \<noteq> [] \<or> sgl_ends rm rs \<Longrightarrow> pos_ok ls l' \<and> pos_ok rs r'"
      using sgl_advance_split[OF at less.prems(1,2) i] by metis
    let ?n = "sgl_len l r"
    let ?t = "tot + ucast ?n" and ?m = "min (length (pos_rest ls l')) (length (pos_rest rs r'))"
    have m: "min (length ?A) (length ?B) = unat ?n + ?m" using A(2,3) by simp
    have b: "unat tot + unat ?n + ?m \<le> unat bytes" using less.prems(5) m by simp
    have t: "unat ?t = unat tot + unat ?n" "unat (ucast ?t :: u64) = unat tot + unat ?n"
      by (rule word_sum_u32, use b small in linarith)+
    have bad: "\<not> bytes < ucast ?t" using t b by (simp add: word_less_nat_alt)
    have "Suc (k - 1 + j) = k + j" using less.prems(3) i by linarith
    then have room: "links_room n (Suc (k - 1 + j)) is" using less.prems(4) by simp
    note ctl = links_room_ctl[OF room, of "injfifo_of cc"]
    from direct_put_total[of hs "n (injfifo_of cc)" "is" cc rdma_object ?n "cur_pa l" "cur_pa r", OF hs ctl obj]
    obtain d ct where
      D: "patch_directput ?n (cur_pa l) (cur_pa r) rdma_object (mu_iDirectPutDescriptor cc) = Some d"
      "direct_put hs (cur_pa l) (cur_pa r) ?n rdma_object cc is =
        Some (of_nat (Suc (length (ctl_log (is (injfifo_of cc))))), is(injfifo_of cc := ct))"
      "ctl_log ct = ctl_log (is (injfifo_of cc)) @ [DirectPutDesc d]" "inj_inv (n (injfifo_of cc)) (injfifo ct)" by blast
    define is1 where "is1 = is(injfifo_of cc := ct)"
    have room1: "links_room n (k - 1 + j) is1" unfolding is1_def by (rule links_room_upd[OF room D(4,3)])
    have lg: "ctl_log (is1 (injfifo_of cc)) = ctl_log (is (injfifo_of cc)) @ [DirectPutDesc d]"
      by (simp add: is1_def D(3))
    note D2 = D(2)[folded is1_def]
    have "unat (cur_pa r) < 2 ^ 37" using rb by simp
    note P = patch_directput_pairs[OF D(1) this]
    have po: "puts_ok cc rdma_object [d]" using P(2,3) by (simp add: puts_ok_def)
    show ?thesis
    proof (cases "bytes \<le> ucast ?t")
      case True
      then have "?m = 0" using b t by (simp add: word_le_nat_alt)
      moreover have "rdma_write_loop hs cc rdma_object bytes lm rm l r tot is = Some (False, ?t, is1)"
        using pa bad D2 True by (subst rdma_write_loop.simps) (simp add: Let_def)
      moreover have "links_room n j is1" using room1 by (rule links_room_mono) simp
      ultimately show ?thesis using m t lg P(1) A(2,3) po
        by (intro exI[of _ ?t] exI[of _ is1] exI[of _ "[d]"]) (auto simp: min_def split: if_splits)
    next
      case False
      then have lt: "unat ?t < unat bytes" using t by (simp add: word_le_nat_alt)
      have "?m \<noteq> 0 \<or> sgl_ends lm ls \<and> sgl_ends rm rs"
        using less.prems(7) m t lt by auto
      then have ok': "pos_ok ls l'" "pos_ok rs r'" using A(5) by auto
      define k' where "k' = length ls + length rs - (sgl_idx l' + sgl_idx r')"
      have k': "k' < k" using A(4) less.prems(3) by (simp add: k'_def)
      have "links_room n (k' + j) is1" using room1 by (rule links_room_mono) (use k' in simp)
      from less.IH[OF k' ok' k'_def this, of ?t] b t lt less.prems(7) m obtain tot' is' ds where
        R: "rdma_write_loop hs cc rdma_object bytes lm rm l' r' ?t is1 = Some (False, tot', is')"
        "unat tot' = unat ?t + ?m"
        "ctl_log (is' (injfifo_of cc)) = ctl_log (is1 (injfifo_of cc)) @ map DirectPutDesc ds"
        "concat (map put_pairs ds) = zip (pos_rest ls l') (pos_rest rs r')" "puts_ok cc rdma_object ds" "links_room n j is'"
        by auto
      have "rdma_write_loop hs cc rdma_object bytes lm rm l r tot is = Some (False, tot', is')"
        using pa bad D2 False R(1) A(1) by (subst rdma_write_loop.simps) (simp add: Let_def)
      then show ?thesis using R(2-6) m t lg P(1) A(2,3) po
        by (intro exI[of _ tot'] exI[of _ is'] exI[of _ "d # ds"]) (simp add: puts_ok_def)
    qed
  qed
qed


text \<open>For the examples: a list in memory, and two lists of twelve bytes cut differently.\<close>

definition sgl_mem_of :: "mudm_sgl list \<Rightarrow> sgl_mem" where
  "sgl_mem_of xs i = (if i < length xs then xs ! i else \<lparr>physicalAddr = 0, memlength = 0\<rparr>)"

abbreviation demo_local :: "mudm_sgl list" where
  "demo_local \<equiv> [\<lparr>physicalAddr = 0x1000, memlength = 8\<rparr>, \<lparr>physicalAddr = 0x2000, memlength = 4\<rparr>]"

abbreviation demo_remote :: "mudm_sgl list" where
  "demo_remote \<equiv> [\<lparr>physicalAddr = 0x3000, memlength = 4\<rparr>, \<lparr>physicalAddr = 0x4000, memlength = 8\<rparr>]"

lemma demo_sgl_at: "sgl_at (sgl_mem_of demo_local) demo_local" "sgl_at (sgl_mem_of demo_remote) demo_remote"
  by (auto simp: sgl_at_def sgl_mem_of_def less_Suc_eq)

lemma sgl_mem_of_ends: "sgl_ends (sgl_mem_of xs) xs"
  by (simp add: sgl_ends_def sgl_mem_of_def)

lemma demo_sgl_size: "length (sgl_addrs demo_local) = 12" "length (sgl_addrs demo_remote) = 12"
  by (simp_all add: sgl_addrs_def)

lemma demo_ctx_conn: "conn_magic_ok (conns (demo_ctx me c) 0)" "injfifo_ctls (demo_ctx me c) = demo_injs"
  "injfifo_of (conns (demo_ctx me c) i) = 0"
  by (simp_all add: demo_ctx_def demo_conn_def conn_magic_ok_def)


text \<open>
  An RDMA write of lists that are too short.  When a list ends before the number of bytes to
  transfer, \<^verbatim>\<open>mudm_rdma_write\<close> returns \<^verbatim>\<open>-EINVAL\<close>; the bytes the lists pair have been put all the
  same, and one more put carries the error word to the error field of the requester's RDMA object.
\<close>

theorem mudm_rdma_write_short:
  assumes hs: "hws_live hs" and ma: "conn_magic_ok (conns mc x)" and at: "sgl_at lm ls" "sgl_at rm rs"
    and ends: "sgl_ends lm ls" "sgl_ends rm rs"
    and size: "min (length (sgl_addrs ls)) (length (sgl_addrs rs)) < unat bytes" "unat bytes < 2 ^ 32"
    and obj: "rdma_object AND 7 = 0" "take_bit 36 rdma_object = rdma_object"
    and room: "links_room n (length ls + length rs + 1) (injfifo_ctls mc)" and l: "l = injfifo_of (conns mc x)"
  shows "\<exists>mc' ds d. mudm_rdma_write hs x rdma_object bytes (Some lm) (Some rm) mc = Some (RetErr EINVAL, mc') \<and>
    ctl_log (injfifo_ctls mc' l) = ctl_log (injfifo_ctls mc l) @ map DirectPutDesc (ds @ [d]) \<and>
    concat (map put_pairs ds) = zip (sgl_addrs ls) (sgl_addrs rs) \<and>
    put_pairs d = zip (addr_span (rdma_EINVAL_source_pa (notice_sources mc)) 8) (addr_span (rdma_object + 8) 8) \<and>
    counter_address (muh d) = rdma_object"
proof -
  have L: "pos_ok ls (sgl_load lm 0)" "pos_ok rs (sgl_load rm 0)" "pos_rest ls (sgl_load lm 0) = sgl_addrs ls"
    "pos_rest rs (sgl_load rm 0) = sgl_addrs rs" "sgl_idx (sgl_load lm 0) = 0" "sgl_idx (sgl_load rm 0) = 0"
    using sgl_load_ok[OF at(1), of 0] sgl_load_ok[OF at(2), of 0] sgl_load_rest[OF at(1), of 0] sgl_load_rest[OF at(2), of 0] ends
    by (simp_all add: sgl_load_def)
  have b: "bytes \<noteq> 0" using size(1) by auto
  obtain tot' is' ds where
    W: "rdma_write_loop hs (conns mc x) rdma_object bytes lm rm (sgl_load lm 0) (sgl_load rm 0) 0 (injfifo_ctls mc) = Some (False, tot', is')"
    "unat tot' = min (length (sgl_addrs ls)) (length (sgl_addrs rs))"
    "ctl_log (is' l) = ctl_log (injfifo_ctls mc l) @ map DirectPutDesc ds"
    "concat (map put_pairs ds) = zip (sgl_addrs ls) (sgl_addrs rs)" "links_room n 1 is'"
    using rdma_write_loop_rep[OF hs obj(1) at size(2) L(1,2) _ room, of 0 "conns mc x"] L size(1) ends l by auto
  have "(ucast tot' :: u64) \<noteq> bytes"
    using W(2) size by (simp add: word_unat_eq_iff unsigned_ucast_eq take_bit_nat_eq_self)
  note bad = this
  have ctl: "ctl_inv (n l) (is' (injfifo_of (conns mc x)))" using links_room_ctl[OF W(5), of l] l by simp
  from direct_put_total[of hs "n l" is' "conns mc x" rdma_object 8 "rdma_EINVAL_source_pa (notice_sources mc)" "rdma_object + 8",
      OF hs ctl obj(1)] obtain d ct where
    D: "patch_directput 8 (rdma_EINVAL_source_pa (notice_sources mc)) (rdma_object + 8) rdma_object
          (mu_iDirectPutDescriptor (conns mc x)) = Some d"
      "direct_put hs (rdma_EINVAL_source_pa (notice_sources mc)) (rdma_object + 8) 8 rdma_object (conns mc x) is' =
        Some (of_nat (Suc (length (ctl_log (is' l)))), is'(l := ct))"
      "ctl_log ct = ctl_log (is' l) @ [DirectPutDesc d]" using l by blast
  have "unat rdma_object < 2 ^ 36"
    using obj(2) by (metis take_bit_nat_less_exp unsigned_take_bit_eq)
  then have "unat (rdma_object + 8) < 2 ^ 37" by (subst unat_add_lem[THEN iffD1]) simp_all
  note P = patch_directput_pairs[OF D(1) this]
  let ?mc = "mc\<lparr>injfifo_ctls := is'(l := ct)\<rparr>"
  have "mudm_rdma_write hs x rdma_object bytes (Some lm) (Some rm) mc = Some (RetErr EINVAL, ?mc)"
    using W(1) ma b bad D(2) by (simp add: mudm_rdma_write_def put_einval_def)
  with W(3,4) D(3) P(1) P(3)[OF obj(2)] show ?thesis
    by (intro exI[of _ ?mc] exI[of _ ds] exI[of _ d]) simp
qed

theorem mudm_rdma_write_short_witness:
  "\<exists>mc' ds d. mudm_rdma_write demo_hws 0 0x8000 16 (Some (sgl_mem_of demo_local)) (Some (sgl_mem_of demo_remote))
      (demo_ctx 4 (LActive 0)) = Some (RetErr EINVAL, mc') \<and>
    concat (map put_pairs ds) = zip (sgl_addrs demo_local) (sgl_addrs demo_remote) \<and>
    put_pairs d = zip (addr_span 8 8) (addr_span 0x8008 8)"
proof -
  have a: "min (length (sgl_addrs demo_local)) (length (sgl_addrs demo_remote)) < unat (16 :: u64)"
    "unat (16 :: u64) < 2 ^ 32" "(0x8000 :: u64) AND 7 = 0" "take_bit 36 (0x8000 :: u64) = 0x8000"
    unfolding demo_sgl_size by simp_all
  have r: "links_room (\<lambda>_. 4) (length demo_local + length demo_remote + 1) (injfifo_ctls (demo_ctx 4 (LActive 0)))"
    unfolding demo_ctx_conn by (rule demo_injs_room) simp
  have e: "rdma_EINVAL_source_pa (notice_sources (demo_ctx 4 (LActive 0))) = 8" "(0x8000 :: u64) + 8 = 0x8008"
    by (simp_all add: demo_ctx_def)
  from mudm_rdma_write_short[OF demo_hws_live demo_ctx_conn(1) demo_sgl_at sgl_mem_of_ends sgl_mem_of_ends a r refl]
  show ?thesis unfolding e by metis
qed

end
