(* ===== verification/Mudm_Send.thy ===== *)
theory Mudm_Send
  imports Mudm_Connect Mudm_Sgl
begin

text \<open>
  Sending through a connection, \<^verbatim>\<open>bgmudm/mudm.c\<close>: a packet from the caller's memory, and a packet
  that describes remote memory (\<^verbatim>\<open>mudm_send_message_remote\<close>), with the RDMA object whose counter
  tells when the peer is done.
\<close>

section \<open>Packets\<close>

text \<open>\<^verbatim>\<open>MUSPI_CheckDescComplete\<close> on the FIFO of link \<open>l\<close>; it takes one observation.\<close>

definition check_complete :: "hws \<Rightarrow> nat \<Rightarrow> u64 \<Rightarrow> my_context \<Rightarrow> bool \<times> my_context" where
  "check_complete hs l desc_count mc =
     (let ctl = injfifo_ctls mc l;
          (complete, f) = MUSPI_CheckDescComplete (hw_descCount (hs l (clock ctl))) desc_count (injfifo ctl)
      in (complete, mc\<lparr>injfifo_ctls := (injfifo_ctls mc)(l := \<lparr>injfifo = f, clock = clock ctl + 1\<rparr>)\<rparr>))"

text \<open>
  The loop behind the injection: it ends when the packet is out, when the injection was canceled,
  or when a descriptor to wait with was found.  A request id of 0 never looks for one.
\<close>

definition send_pkt_alloc :: "u64 \<Rightarrow> pkt_controls \<Rightarrow> ptr \<times> pkt_controls" where
  "send_pkt_alloc requestID pc = (if requestID \<noteq> 0 then alloc_pkt_message pc else (None, pc))"

partial_function (option) send_pkt_wait ::
  "hws \<Rightarrow> u64 \<Rightarrow> nat \<Rightarrow> u64 \<Rightarrow> u64 \<Rightarrow> my_context \<Rightarrow> (ret \<times> my_context) option" where
  "send_pkt_wait hs now x requestID desc_count mc =
     (let l = injfifo_of (conns mc x); pl = pools_of (conns mc x);
          (complete, mc1) = check_complete hs l desc_count mc
      in if complete then Some (RetOK, mc1)
         else if desc_count = -1 then Some (RetErr ECANCELED, mc1)
         else case send_pkt_alloc requestID (smallpa_obj_ctls mc1 pl) of
                (Some spo, pc) \<Rightarrow>
                  Some (RetErr EINPROGRESS, mc1\<lparr>smallpa_obj_ctls := (smallpa_obj_ctls mc1)(pl :=
                     snd (release_pkt_to_poll_ccontext now spo desc_count x (set_pkt_req_id spo requestID pc)))\<rparr>)
              | (None, pc) \<Rightarrow> send_pkt_wait hs now x requestID desc_count mc1)"

text \<open>\<^verbatim>\<open>conn_memfifo\<close> on the connection with index \<open>x\<close>.\<close>

definition ctx_memfifo ::
  "hws \<Rightarrow> nat \<Rightarrow> u16 \<Rightarrow> u64 \<Rightarrow> u64 \<Rightarrow> my_context \<Rightarrow> (u64 \<times> my_context) option" where
  "ctx_memfifo hs x ty paddr len mc =
     map_option (\<lambda>(desc_count, c, is). (desc_count, (upd_conn x (\<lambda>_. c) mc)\<lparr>injfifo_ctls := is\<rparr>))
       (conn_memfifo hs ty paddr len (conns mc x) (injfifo_ctls mc))"

definition mudm_send_pkt ::
  "hws \<Rightarrow> u64 \<Rightarrow> nat \<Rightarrow> u64 \<Rightarrow> u16 \<Rightarrow> u64 \<Rightarrow> u16 \<Rightarrow> my_context \<Rightarrow> (ret \<times> my_context) option" where
  "mudm_send_pkt hs now x requestID ty payload_paddr plen mc =
     (if TORUS_MAX_PAYLOAD_SIZE < plen then Some (RetErr EINVAL, mc)
      else if \<not> conn_magic_ok (conns mc x) then Some (RetErr EFAULT, mc)
      else case ctx_memfifo hs x ty payload_paddr (ucast plen) mc of
             None \<Rightarrow> None
           | Some (desc_count, mc1) \<Rightarrow> send_pkt_wait hs now x requestID desc_count mc1)"

definition mudm_send_packet ::
  "hws \<Rightarrow> u64 \<Rightarrow> nat \<Rightarrow> u64 \<Rightarrow> u16 \<Rightarrow> u64 \<Rightarrow> u16 \<Rightarrow> my_context \<Rightarrow> (ret \<times> my_context) option" where
  "mudm_send_packet hs now x requestID ty payload_paddr plen mc =
     (if payload_paddr \<noteq> 0 then mudm_send_pkt hs now x requestID ty payload_paddr plen mc
      else Some (RetErr EINVAL, mc))"

section \<open>Descriptions of remote memory\<close>

definition MUDM_RDMA_READ :: u16 where "MUDM_RDMA_READ = 0x4444"
definition MUDM_RDMA_WRITE :: u16 where "MUDM_RDMA_WRITE = 0x5555"
definition MUDM_RDMA_READ_IMM :: u16 where "MUDM_RDMA_READ_IMM = 0x444D"
definition MUDM_PKT_DATA_REMOTE :: u16 where "MUDM_PKT_DATA_REMOTE = 0x88b1"

record ionet_send_remote_payload =
  RequestID :: u64
  remote_vaddr :: u64
  rkey :: u32
  sgl_num :: u32
  data_length :: u32
  immediate_data :: u32
  rem_flags :: u32
  rem_reserved :: u32
  rdma_object :: u64
  SGE :: "mudm_sgl list"

text \<open>An entry is one big-endian word: 36 bits of address above 28 bits of length.\<close>

definition sgl_word :: "mudm_sgl \<Rightarrow> u64" where
  "sgl_word s = push_bit 28 (ucast (physicalAddr s)) OR ucast (memlength s)"

definition sgl_of_word :: "u64 \<Rightarrow> mudm_sgl" where
  "sgl_of_word w = \<lparr>physicalAddr = ucast (drop_bit 28 w), memlength = ucast w\<rparr>"

definition remote_bytes :: "ionet_send_remote_payload \<Rightarrow> u8 list" where
  "remote_bytes p = be_bytes 8 (RequestID p) @ be_bytes 8 (remote_vaddr p) @ be_bytes 4 (rkey p) @ be_bytes 4 (sgl_num p) @
     be_bytes 4 (data_length p) @ be_bytes 4 (immediate_data p) @ be_bytes 4 (rem_flags p) @ be_bytes 4 (rem_reserved p) @
     be_bytes 8 (rdma_object p) @ concat (map (be_bytes 8 \<circ> sgl_word) (SGE p))"

text \<open>What the receiver of the structure finds in a payload.\<close>

definition remote_of_bytes :: "u8 list \<Rightarrow> ionet_send_remote_payload" where
  "remote_of_bytes bs = \<lparr>RequestID = be_word (read_at 0 8 bs), remote_vaddr = be_word (read_at 8 8 bs),
     rkey = be_word (read_at 16 4 bs), sgl_num = be_word (read_at 20 4 bs), data_length = be_word (read_at 24 4 bs),
     immediate_data = be_word (read_at 28 4 bs), rem_flags = be_word (read_at 32 4 bs), rem_reserved = be_word (read_at 36 4 bs),
     rdma_object = be_word (read_at 40 8 bs),
     SGE = map (\<lambda>i. sgl_of_word (be_word (read_at (48 + 8 * i) 8 bs))) [0..<unat (be_word (read_at 20 4 bs) :: u32)]\<rparr>"

definition remote_length :: "u32 \<Rightarrow> u64" where
  "remote_length n = 512 - ucast (MUDM_MAX_REMOTE_SGE - n) * 8"

text \<open>The counter of the object that waits: the data to arrive, or the word that completes it.\<close>

definition remote_counter :: "u16 \<Rightarrow> ionet_send_remote_payload \<Rightarrow> u64" where
  "remote_counter ty p = (if ty = MUDM_RDMA_WRITE then ucast (data_length p) else 8)"

definition mudm_send_message_remote ::
  "hws \<Rightarrow> u64 \<Rightarrow> nat \<Rightarrow> u16 \<Rightarrow> ionet_send_remote_payload \<Rightarrow> my_context \<Rightarrow> (ret \<times> my_context) option" where
  "mudm_send_message_remote hs now x ty payload mc =
     (let l = injfifo_of (conns mc x); pl = pools_of (conns mc x); ctl = injfifo_ctls mc l;
          mc0 = mc\<lparr>injfifo_ctls := (injfifo_ctls mc)(l := ctl\<lparr>clock := clock ctl + 1\<rparr>)\<rparr>
      in if sgl_num payload = 0 then Some (RetErr EFAULT, mc)
         else if MUDM_MAX_REMOTE_SGE < sgl_num payload then Some (RetErr E2BIG, mc)
         else if hw_state (hs l (clock ctl)) = 0 then Some (RetErr ECANCELED, mc0)
         else case alloc_pkt_message (packetcontrols mc0 pl) of
                (None, pc) \<Rightarrow> Some (RetErr EBUSY, mc0)
              | (Some pktd, pc) \<Rightarrow>
                 (let len = remote_length (sgl_num payload);
                      put_msg = (\<lambda>m mc. mc\<lparr>pkt_mem := (pkt_mem mc)(pl := (pkt_mem mc pl)(pktd := m (pkt_mem mc pl pktd)))\<rparr>);
                      mc1 = put_msg (write_at 0 (take (unat len) (remote_bytes payload)))
                              (mc0\<lparr>packetcontrols := (packetcontrols mc0)(pl := pc)\<rparr>)
                  in if ty \<in> {MUDM_RDMA_WRITE, MUDM_RDMA_READ, MUDM_PKT_DATA_REMOTE, MUDM_RDMA_READ_IMM} then
                       (case allocate_rdma_object (rdma_obj_ctls mc1 pl) of
                          (None, rc) \<Rightarrow>
                            Some (RetErr EBUSY, upd_packets pl (release_pkt_to_free pktd 0)
                              (mc1\<lparr>rdma_obj_ctls := (rdma_obj_ctls mc1)(pl := rc)\<rparr>))
                        | (Some obj, rc) \<Rightarrow>
                           (let rc1 = release_rdma_obj_to_poll obj
                                  (set_rdma_obj obj (remote_counter ty payload) (RequestID payload) 0 x rc);
                                mc2 = (put_msg (write_at 40 (be_bytes 8 (rdma_object_pa (ro_nodes rc obj)))) mc1)
                                  \<lparr>rdma_obj_ctls := (rdma_obj_ctls mc1)(pl := rc1)\<rparr>
                            in map_option (\<lambda>(desc_count, mc3). (RetErr EINPROGRESS, conn_pkt_sent hs now x pktd desc_count mc3))
                                 (ctx_memfifo hs x ty (message_pa (pkt_nodes pc pktd)) len mc2)))
                     else Some (RetErr EINVAL, upd_packets pl (release_pkt_to_free pktd 0) mc1)))"

section \<open>Sending a packet ends\<close>

lemma check_complete_frame:
  assumes "check_complete hs l cnt mc = (b, mc1)"
  obtains f where "mc1 = mc\<lparr>injfifo_ctls := (injfifo_ctls mc)(l := \<lparr>injfifo = f, clock = clock (injfifo_ctls mc l) + 1\<rparr>)\<rparr>"
    "inj_log f = inj_log (injfifo (injfifo_ctls mc l))"
    "cnt \<le> hw_descCount (hs l (clock (injfifo_ctls mc l))) \<Longrightarrow> b"
  using assms by (auto simp: check_complete_def MUSPI_CheckDescComplete_def Let_def split: prod.splits if_splits)

text \<open>The pool behind a request that waits.\<close>

definition posted_request :: "u64 \<Rightarrow> nat \<Rightarrow> u64 \<Rightarrow> u64 \<Rightarrow> nat \<Rightarrow> pkt_controls \<Rightarrow> pkt_controls" where
  "posted_request now x requestID cnt k pc = snd (release_pkt_to_poll_ccontext now k cnt x (set_pkt_req_id k requestID
     (snd (alloc_pkt_message pc))))"

lemma send_pkt_wait_step:
  assumes "cnt \<noteq> -1" and l: "l = injfifo_of (conns mc x)" and pl: "pl = pools_of (conns mc x)"
  obtains is1 where "\<forall>m. ctl_log (is1 m) = ctl_log (injfifo_ctls mc m)" "clock (is1 l) = Suc (clock (injfifo_ctls mc l))"
    "send_pkt_wait hs now x requestID cnt mc = Some (RetOK, mc\<lparr>injfifo_ctls := is1\<rparr>)"
  | is1 k where "\<forall>m. ctl_log (is1 m) = ctl_log (injfifo_ctls mc m)" "requestID \<noteq> 0"
    "pkt_free_list (smallpa_obj_ctls mc pl) = Some k"
    "send_pkt_wait hs now x requestID cnt mc = Some (RetErr EINPROGRESS, mc\<lparr>injfifo_ctls := is1,
       smallpa_obj_ctls := (smallpa_obj_ctls mc)(pl := posted_request now x requestID cnt k (smallpa_obj_ctls mc pl))\<rparr>)"
  | is1 where "\<forall>m. ctl_log (is1 m) = ctl_log (injfifo_ctls mc m)" "clock (is1 l) = Suc (clock (injfifo_ctls mc l))"
    "requestID = 0 \<or> pkt_free_list (smallpa_obj_ctls mc pl) = None" "\<not> cnt \<le> hw_descCount (hs l (clock (injfifo_ctls mc l)))"
    "send_pkt_wait hs now x requestID cnt mc = send_pkt_wait hs now x requestID cnt (mc\<lparr>injfifo_ctls := is1\<rparr>)"
proof -
  obtain b mc1 where c: "check_complete hs l cnt mc = (b, mc1)" by (rule prod.exhaust)
  from check_complete_frame[OF c] obtain f where
    f: "mc1 = mc\<lparr>injfifo_ctls := (injfifo_ctls mc)(l := \<lparr>injfifo = f, clock = clock (injfifo_ctls mc l) + 1\<rparr>)\<rparr>"
    "inj_log f = inj_log (injfifo (injfifo_ctls mc l))" "cnt \<le> hw_descCount (hs l (clock (injfifo_ctls mc l))) \<Longrightarrow> b"
    by metis
  define is1 where "is1 = (injfifo_ctls mc)(l := \<lparr>injfifo = f, clock = clock (injfifo_ctls mc l) + 1\<rparr>)"
  have mc1: "mc1 = mc\<lparr>injfifo_ctls := is1\<rparr>" by (simp add: f(1) is1_def)
  have lg: "\<forall>m. ctl_log (is1 m) = ctl_log (injfifo_ctls mc m)" and ck: "clock (is1 l) = Suc (clock (injfifo_ctls mc l))"
    using f(2) by (simp_all add: ctl_log_def is1_def)
  note e = send_pkt_wait.simps[of hs now x requestID cnt mc, folded l pl, unfolded Let_def c prod.case]
  consider "b" | k where "\<not> b" "requestID \<noteq> 0" "pkt_free_list (smallpa_obj_ctls mc pl) = Some k"
    | "\<not> b" "requestID = 0 \<or> pkt_free_list (smallpa_obj_ctls mc pl) = None" by auto
  then show ?thesis
  proof cases
    case 1
    then show ?thesis using that(1)[OF lg ck] e mc1 by simp
  next
    case 2
    then have "send_pkt_alloc requestID (smallpa_obj_ctls mc pl) = (Some k, snd (alloc_pkt_message (smallpa_obj_ctls mc pl)))"
      by (simp add: send_pkt_alloc_def alloc_pkt_message_def)
    with 2 show ?thesis using that(2)[OF lg 2(2,3)] e mc1 assms(1) by (simp add: posted_request_def)
  next
    case 3
    then have "send_pkt_alloc requestID (smallpa_obj_ctls mc pl) = (None, smallpa_obj_ctls mc pl)"
      by (auto simp: send_pkt_alloc_def alloc_pkt_message_def)
    with 3 show ?thesis using that(3)[OF lg ck 3(2)] e mc1 assms(1) f(3) by auto
  qed
qed

lemma send_pkt_wait_ends:
  assumes "cnt \<noteq> -1"
  shows "l = injfifo_of (conns mc x) \<Longrightarrow> pl = pools_of (conns mc x) \<Longrightarrow>
    requestID \<noteq> 0 \<and> pkt_free_list (smallpa_obj_ctls mc pl) \<noteq> None \<or>
      cnt \<le> hw_descCount (hs l (clock (injfifo_ctls mc l) + j)) \<Longrightarrow>
    \<exists>is'. (\<forall>m. ctl_log (is' m) = ctl_log (injfifo_ctls mc m)) \<and>
      (send_pkt_wait hs now x requestID cnt mc = Some (RetOK, mc\<lparr>injfifo_ctls := is'\<rparr>) \<or>
       (\<exists>k. requestID \<noteq> 0 \<and> pkt_free_list (smallpa_obj_ctls mc pl) = Some k \<and>
         send_pkt_wait hs now x requestID cnt mc = Some (RetErr EINPROGRESS, mc\<lparr>injfifo_ctls := is',
           smallpa_obj_ctls := (smallpa_obj_ctls mc)(pl := posted_request now x requestID cnt k (smallpa_obj_ctls mc pl))\<rparr>)))"
proof (induction j arbitrary: mc)
  case 0
  show ?case
  proof (rule send_pkt_wait_step[OF assms 0(1,2), of hs now requestID])
    assume "requestID = 0 \<or> pkt_free_list (smallpa_obj_ctls mc pl) = None"
      "\<not> cnt \<le> hw_descCount (hs l (clock (injfifo_ctls mc l)))"
    with 0(3) show ?thesis by auto
  qed blast+
next
  case (Suc j)
  show ?case
  proof (rule send_pkt_wait_step[OF assms Suc.prems(1,2), of hs now requestID])
    fix is1 assume s: "\<forall>m. ctl_log (is1 m) = ctl_log (injfifo_ctls mc m)" "clock (is1 l) = Suc (clock (injfifo_ctls mc l))"
      "requestID = 0 \<or> pkt_free_list (smallpa_obj_ctls mc pl) = None"
      "send_pkt_wait hs now x requestID cnt mc = send_pkt_wait hs now x requestID cnt (mc\<lparr>injfifo_ctls := is1\<rparr>)"
    from Suc.IH[of "mc\<lparr>injfifo_ctls := is1\<rparr>"] Suc.prems s show ?thesis by auto
  qed blast+
qed

lemma ctx_memfifo_total:
  assumes hs: "hws_live hs" and l: "l = injfifo_of (conns mc x)" and inj: "ctl_inv n (injfifo_ctls mc l)"
  shows "\<exists>ct. ctx_memfifo hs x ty paddr len mc = Some (of_nat (Suc (length (ctl_log (injfifo_ctls mc l)))),
      (upd_conn x (\<lambda>c. c\<lparr>memfifo_sent := memfifo_sent c + 1\<rparr>) mc)\<lparr>injfifo_ctls := (injfifo_ctls mc)(l := ct)\<rparr>) \<and>
    ctl_log ct = ctl_log (injfifo_ctls mc l) @
      [MemFifoDesc (patch_memfifo ty paddr len (memfifo_sent (conns mc x)) (mu_iMemoryFifoDescriptor (conns mc x)))] \<and>
    inj_inv n (injfifo ct) \<and> of_nat (Suc (length (ctl_log (injfifo_ctls mc l)))) \<noteq> (-1 :: u64)"
proof -
  let ?d = "patch_memfifo ty paddr len (memfifo_sent (conns mc x)) (mu_iMemoryFifoDescriptor (conns mc x))"
  have "hw_live (hs l)" using hs by (simp add: hws_live_def)
  from inject_desc_total[OF this inj, of "MemFifoDesc ?d"] obtain ct where
    I: "inject_desc (hs l) (Some (MemFifoDesc ?d)) (injfifo_ctls mc l) = Some (of_nat (Suc (length (ctl_log (injfifo_ctls mc l)))), ct)"
    "ctl_log ct = ctl_log (injfifo_ctls mc l) @ [MemFifoDesc ?d]" "inj_inv n (injfifo ct)" by blast
  note ne = ctl_count_ne[OF inj]
  show ?thesis
    by (rule exI[of _ ct]) (use I ne l in \<open>simp add: ctx_memfifo_def conn_memfifo_def InjFifoInjectMemFifo_def InjFifoInject_def
      bump_count_def upd_conn_def del: of_nat_Suc\<close>)
qed

lemma patch_memfifo_simps [simp]:
  "Pa_Payload (patch_memfifo ty pa len s d) = pa" "Message_Length (patch_memfifo ty pa len s d) = len"
  "ptype (SoftwareBytes (muh (patch_memfifo ty pa len s d))) = ty"
  "payload_length (SoftwareBytes (muh (patch_memfifo ty pa len s d))) = ucast len"
  "sequence_number (SoftwareBytes (muh (patch_memfifo ty pa len s d))) = ucast s"
  by (simp_all add: patch_memfifo_def)

lemma posted_request_simps:
  "pkt_reqid_list (posted_request now x r cnt k pc) = Some k"
  "req_id (pkt_nodes (posted_request now x r cnt k pc) k) = r"
  "desc_cnt (pkt_nodes (posted_request now x r cnt k pc) k) = cnt"
  by (simp_all add: posted_request_def release_pkt_to_poll_ccontext_def release_pkt_to_poll_def set_pkt_req_id_def
    alloc_pkt_message_def Let_def)

lemma mudm_send_pkt_total:
  assumes "plen \<le> 512" and ma: "conn_magic_ok (conns mc x)" and hs: "hws_live hs"
    and l: "l = injfifo_of (conns mc x)" "pl = pools_of (conns mc x)" and inj: "ctl_inv n (injfifo_ctls mc l)"
    and wait: "requestID \<noteq> 0 \<and> pkt_free_list (smallpa_obj_ctls mc pl) \<noteq> None \<or>
      (\<forall>i. \<exists>j. of_nat (Suc (length (ctl_log (injfifo_ctls mc l)))) \<le> hw_descCount (hs l (i + j)))"
  shows "\<exists>r mc' d. mudm_send_pkt hs now x requestID ty payload_paddr plen mc = Some (r, mc') \<and>
    ctl_log (injfifo_ctls mc' l) = ctl_log (injfifo_ctls mc l) @ [MemFifoDesc d] \<and>
    Pa_Payload d = payload_paddr \<and> Message_Length d = ucast plen \<and> ptype (SoftwareBytes (muh d)) = ty \<and>
    sequence_number (SoftwareBytes (muh d)) = ucast (memfifo_sent (conns mc x)) \<and>
    memfifo_sent (conns mc' x) = memfifo_sent (conns mc x) + 1 \<and>
    (r = RetOK \<and> smallpa_obj_ctls mc' = smallpa_obj_ctls mc \<or>
     r = RetErr EINPROGRESS \<and> (\<exists>k. pkt_reqid_list (smallpa_obj_ctls mc' pl) = Some k \<and>
       req_id (pkt_nodes (smallpa_obj_ctls mc' pl) k) = requestID \<and>
       desc_cnt (pkt_nodes (smallpa_obj_ctls mc' pl) k) = of_nat (Suc (length (ctl_log (injfifo_ctls mc l))))))"
proof -
  let ?cnt = "of_nat (Suc (length (ctl_log (injfifo_ctls mc l)))) :: u64"
  define d where "d = patch_memfifo ty payload_paddr (ucast plen) (memfifo_sent (conns mc x)) (mu_iMemoryFifoDescriptor (conns mc x))"
  from ctx_memfifo_total[OF hs l(1) inj, of ty payload_paddr "ucast plen", folded d_def] obtain ct where
    M: "ctx_memfifo hs x ty payload_paddr (ucast plen) mc = Some (?cnt,
      (upd_conn x (\<lambda>c. c\<lparr>memfifo_sent := memfifo_sent c + 1\<rparr>) mc)\<lparr>injfifo_ctls := (injfifo_ctls mc)(l := ct)\<rparr>)"
    "ctl_log ct = ctl_log (injfifo_ctls mc l) @ [MemFifoDesc d]" "?cnt \<noteq> -1" by blast
  define mc1 where "mc1 = (upd_conn x (\<lambda>c. c\<lparr>memfifo_sent := memfifo_sent c + 1\<rparr>) mc)\<lparr>injfifo_ctls := (injfifo_ctls mc)(l := ct)\<rparr>"
  have m1: "l = injfifo_of (conns mc1 x)" "pl = pools_of (conns mc1 x)" "smallpa_obj_ctls mc1 = smallpa_obj_ctls mc"
    "memfifo_sent (conns mc1 x) = memfifo_sent (conns mc x) + 1" "ctl_log (injfifo_ctls mc1 l) = ctl_log (injfifo_ctls mc l) @ [MemFifoDesc d]"
    using l M(2) by (simp_all add: mc1_def upd_conn_def)
  obtain j where "requestID \<noteq> 0 \<and> pkt_free_list (smallpa_obj_ctls mc1 pl) \<noteq> None \<or>
      ?cnt \<le> hw_descCount (hs l (clock (injfifo_ctls mc1 l) + j))" using wait m1(3) by metis
  from send_pkt_wait_ends[where j = j and hs = hs and now = now, OF M(3) m1(1,2) this] obtain is' where
    is': "\<forall>m. ctl_log (is' m) = ctl_log (injfifo_ctls mc1 m)" and
    r: "send_pkt_wait hs now x requestID ?cnt mc1 = Some (RetOK, mc1\<lparr>injfifo_ctls := is'\<rparr>) \<or>
       (\<exists>k. requestID \<noteq> 0 \<and> pkt_free_list (smallpa_obj_ctls mc1 pl) = Some k \<and>
         send_pkt_wait hs now x requestID ?cnt mc1 = Some (RetErr EINPROGRESS, mc1\<lparr>injfifo_ctls := is',
           smallpa_obj_ctls := (smallpa_obj_ctls mc1)(pl := posted_request now x requestID ?cnt k (smallpa_obj_ctls mc1 pl))\<rparr>))"
    by blast
  have p: "\<not> TORUS_MAX_PAYLOAD_SIZE < plen" using assms(1) by (simp add: TORUS_MAX_PAYLOAD_SIZE_def)
  have e: "mudm_send_pkt hs now x requestID ty payload_paddr plen mc = send_pkt_wait hs now x requestID ?cnt mc1"
    using p ma M(1) by (simp add: mudm_send_pkt_def mc1_def)
  have fields: "Pa_Payload d = payload_paddr" "Message_Length d = ucast plen" "ptype (SoftwareBytes (muh d)) = ty"
    "sequence_number (SoftwareBytes (muh d)) = ucast (memfifo_sent (conns mc x))" by (simp_all add: d_def)
  from r show ?thesis
  proof (elim disjE exE conjE)
    assume w: "send_pkt_wait hs now x requestID ?cnt mc1 = Some (RetOK, mc1\<lparr>injfifo_ctls := is'\<rparr>)"
    show ?thesis
      by (rule exI[of _ RetOK], rule exI[of _ "mc1\<lparr>injfifo_ctls := is'\<rparr>"], rule exI[of _ d]) (use e w fields m1 is' in simp)
  next
    fix k
    define pc where "pc = posted_request now x requestID ?cnt k (smallpa_obj_ctls mc1 pl)"
    let ?mc' = "mc1\<lparr>injfifo_ctls := is', smallpa_obj_ctls := (smallpa_obj_ctls mc1)(pl := pc)\<rparr>"
    assume w: "send_pkt_wait hs now x requestID ?cnt mc1 = Some (RetErr EINPROGRESS, mc1\<lparr>injfifo_ctls := is',
           smallpa_obj_ctls := (smallpa_obj_ctls mc1)(pl := posted_request now x requestID ?cnt k (smallpa_obj_ctls mc1 pl))\<rparr>)"
    show ?thesis
      by (rule exI[of _ "RetErr EINPROGRESS"], rule exI[of _ ?mc'], rule exI[of _ d])
        (use e w[folded pc_def] fields m1 is' posted_request_simps[of now x requestID ?cnt k "smallpa_obj_ctls mc1 pl", folded pc_def]
         in simp)
  qed
qed

text \<open>
  C22: sending a packet ends and sends exactly that packet.  If either a descriptor to wait with is
  free and the request has an id, or the message unit keeps completing descriptors, \<^verbatim>\<open>mudm_send_pkt\<close>
  returns.  One descriptor was injected, with the caller's address, length and type and the next
  sequence number of the connection; the result is 0, or \<^verbatim>\<open>-EINPROGRESS\<close> with the request at the
  head of the poll list, waiting for exactly this descriptor.
\<close>

theorem mudm_send_pkt_sends:
  assumes "plen \<le> 512" and ma: "conn_magic_ok (conns mc x)" and hs: "hws_live hs"
    and l: "l = injfifo_of (conns mc x)" "pl = pools_of (conns mc x)" and inj: "ctl_inv n (injfifo_ctls mc l)"
    and wait: "requestID \<noteq> 0 \<and> pkt_free_list (smallpa_obj_ctls mc pl) \<noteq> None \<or>
      (\<forall>i. \<exists>j. of_nat (Suc (length (ctl_log (injfifo_ctls mc l)))) \<le> hw_descCount (hs l (i + j)))"
  shows "\<exists>r mc' d. mudm_send_pkt hs now x requestID ty payload_paddr plen mc = Some (r, mc') \<and>
    ctl_log (injfifo_ctls mc' l) = ctl_log (injfifo_ctls mc l) @ [MemFifoDesc d] \<and>
    Pa_Payload d = payload_paddr \<and> Message_Length d = ucast plen \<and> ptype (SoftwareBytes (muh d)) = ty \<and>
    sequence_number (SoftwareBytes (muh d)) = ucast (memfifo_sent (conns mc x)) \<and>
    memfifo_sent (conns mc' x) = memfifo_sent (conns mc x) + 1 \<and>
    (r = RetOK \<and> smallpa_obj_ctls mc' = smallpa_obj_ctls mc \<or>
     r = RetErr EINPROGRESS \<and> (\<exists>k. pkt_reqid_list (smallpa_obj_ctls mc' pl) = Some k \<and>
       req_id (pkt_nodes (smallpa_obj_ctls mc' pl) k) = requestID \<and>
       desc_cnt (pkt_nodes (smallpa_obj_ctls mc' pl) k) = of_nat (Suc (length (ctl_log (injfifo_ctls mc l))))))"
  by (rule mudm_send_pkt_total[OF assms])

theorem mudm_send_pkt_sends_witness:
  "\<exists>r mc' d. mudm_send_pkt demo_hws 5 0 77 0x1bc1 0x9000 64 (demo_ctx 4 (LActive 0)) = Some (r, mc') \<and>
     ctl_log (injfifo_ctls mc' 0) = [MemFifoDesc d] \<and> Pa_Payload d = 0x9000 \<and> ptype (SoftwareBytes (muh d)) = 0x1bc1"
proof -
  have c: "ctl_inv 4 (injfifo_ctls (demo_ctx 4 (LActive 0)) 0)" "0 = injfifo_of (conns (demo_ctx 4 (LActive 0)) 0)"
    "0 = pools_of (conns (demo_ctx 4 (LActive 0)) 0)" "(64 :: u16) \<le> 512"
    "ctl_log (injfifo_ctls (demo_ctx 4 (LActive 0)) 0) = []"
    using demo_injs_ctl by (simp_all add: demo_ctx_def demo_conn_def demo_injs_def ctl_log_def demo_fifo_def)
  have w: "(77 :: u64) \<noteq> 0 \<and> pkt_free_list (smallpa_obj_ctls (demo_ctx 4 (LActive 0)) 0) \<noteq> None \<or>
      (\<forall>i. \<exists>j. of_nat (Suc (length (ctl_log (injfifo_ctls (demo_ctx 4 (LActive 0)) 0)))) \<le> hw_descCount (demo_hws 0 (i + j)))"
    using demo_pkts_free by (simp add: demo_ctx_def)
  from mudm_send_pkt_sends[OF c(4) demo_ctx_conn(1) demo_hws_live c(2,3,1) w, of 5 "0x1bc1" "0x9000"] show ?thesis
    unfolding c(5) append_Nil by metis
qed

section \<open>The peer reads what was described\<close>

lemma sgl_word_roundtrip: "sgl_of_word (sgl_word s) = s"
proof -
  have "\<not> bit (memlength s) (28 + n)" for n using bit_imp_le_length[of "memlength s" "28 + n"] by auto
  then have "ucast (drop_bit 28 (sgl_word s)) = physicalAddr s"
    by (intro bit_word_eqI) (auto simp: sgl_word_def bit_simps)
  moreover have "ucast (sgl_word s) = memlength s"
    by (rule bit_word_eqI) (auto simp: sgl_word_def bit_simps)
  ultimately show ?thesis by (simp add: sgl_of_word_def)
qed

lemma length_concat_words [simp]: "length (concat (map (be_bytes 8 \<circ> f) xs)) = 8 * length xs"
  by (induction xs) (simp_all del: be_bytes.simps)

lemma read_at_concat_words:
  "i < length xs \<Longrightarrow> read_at (8 * i) 8 (concat (map (be_bytes 8 \<circ> f) xs)) = be_bytes 8 (f (xs ! i))"
proof (induction xs arbitrary: i)
  case (Cons x xs)
  then show ?case by (cases i) (simp_all add: read_at_def del: be_bytes.simps)
qed simp

lemma take_concat_words:
  "take (8 * n) (concat (map (be_bytes 8 \<circ> f) xs)) = concat (map (be_bytes 8 \<circ> f) (take n xs))"
proof (induction xs arbitrary: n)
  case (Cons x xs)
  then show ?case by (cases n) (simp_all del: be_bytes.simps)
qed simp

definition remote_prefix :: "ionet_send_remote_payload \<Rightarrow> u8 list" where
  "remote_prefix p = be_bytes 8 (RequestID p) @ be_bytes 8 (remote_vaddr p) @ be_bytes 4 (rkey p) @ be_bytes 4 (sgl_num p) @
     be_bytes 4 (data_length p) @ be_bytes 4 (immediate_data p) @ be_bytes 4 (rem_flags p) @ be_bytes 4 (rem_reserved p)"

lemma remote_bytes_split:
  "remote_bytes p = remote_prefix p @ be_bytes 8 (rdma_object p) @ concat (map (be_bytes 8 \<circ> sgl_word) (SGE p))"
  "length (remote_prefix p) = 40"
  by (simp_all add: remote_bytes_def remote_prefix_def del: be_bytes.simps)

lemma remote_roundtrip:
  assumes "length (SGE p) = unat (sgl_num p)"
  shows "remote_of_bytes (remote_bytes p) = p"
proof -
  let ?S = "concat (map (be_bytes 8 \<circ> sgl_word) (SGE p))"
  have sg: "be_word (read_at 20 4 (remote_bytes p)) = sgl_num p"
    by (simp add: remote_bytes_def read_at_def del: be_bytes.simps)
  have "read_at (48 + 8 * i) 8 (remote_bytes p) = read_at (8 * i) 8 ?S" for i
    by (simp add: remote_bytes_split read_at_def add.commute[of _ 8] del: be_bytes.simps)
  then have m: "map (\<lambda>i. sgl_of_word (be_word (read_at (48 + 8 * i) 8 (remote_bytes p)))) [0..<length (SGE p)] =
      map (\<lambda>i. SGE p ! i) [0..<length (SGE p)]"
    using read_at_concat_words[of _ "SGE p" sgl_word] by (intro map_cong) (simp_all add: sgl_word_roundtrip del: be_bytes.simps)
  have "SGE (remote_of_bytes (remote_bytes p)) = SGE p"
    using m unfolding map_nth by (simp add: remote_of_bytes_def sg assms)
  moreover have "RequestID (remote_of_bytes (remote_bytes p)) = RequestID p"
    "remote_vaddr (remote_of_bytes (remote_bytes p)) = remote_vaddr p" "rkey (remote_of_bytes (remote_bytes p)) = rkey p"
    "sgl_num (remote_of_bytes (remote_bytes p)) = sgl_num p" "data_length (remote_of_bytes (remote_bytes p)) = data_length p"
    "immediate_data (remote_of_bytes (remote_bytes p)) = immediate_data p"
    "rem_flags (remote_of_bytes (remote_bytes p)) = rem_flags p" "rem_reserved (remote_of_bytes (remote_bytes p)) = rem_reserved p"
    "rdma_object (remote_of_bytes (remote_bytes p)) = rdma_object p"
    by (simp_all add: remote_of_bytes_def remote_bytes_def read_at_def del: be_bytes.simps)
  ultimately show ?thesis by simp
qed

lemma remote_message:
  assumes "length msg = 512" "n \<le> 58" "n \<le> length (SGE p)"
  shows "take (48 + 8 * n) (write_at 40 (be_bytes 8 ob) (write_at 0 (take (48 + 8 * n) (remote_bytes p)) msg)) =
    remote_bytes (p\<lparr>rdma_object := ob, SGE := take n (SGE p)\<rparr>)"
proof -
  let ?A = "remote_prefix p" and ?S = "concat (map (be_bytes 8 \<circ> sgl_word) (take n (SGE p)))"
  have A: "length ?A = 40" by (rule remote_bytes_split)
  have S: "length ?S = 8 * n" using assms(3) by (simp del: be_bytes.simps)
  have t: "take (48 + 8 * n) (remote_bytes p) = ?A @ be_bytes 8 (rdma_object p) @ ?S"
    using A by (simp add: remote_bytes_split take_concat_words del: be_bytes.simps)
  have w: "write_at 0 (take (48 + 8 * n) (remote_bytes p)) msg = ?A @ be_bytes 8 (rdma_object p) @ ?S @ drop (48 + 8 * n) msg"
    unfolding t using A S by (simp add: write_at_def del: be_bytes.simps)
  have "write_at 40 (be_bytes 8 ob) (?A @ be_bytes 8 (rdma_object p) @ ?S @ drop (48 + 8 * n) msg) =
      ?A @ be_bytes 8 ob @ ?S @ drop (48 + 8 * n) msg"
    using A by (simp add: write_at_def del: be_bytes.simps)
  moreover have "remote_prefix (p\<lparr>rdma_object := ob, SGE := take n (SGE p)\<rparr>) = ?A" by (simp add: remote_prefix_def)
  ultimately show ?thesis unfolding w using A S by (simp add: remote_bytes_split del: be_bytes.simps)
qed

lemma conn_pkt_sent_pools [simp]:
  "rdma_obj_ctls (conn_pkt_sent hs now x k cnt mc) = rdma_obj_ctls mc"
  "smallpa_obj_ctls (conn_pkt_sent hs now x k cnt mc) = smallpa_obj_ctls mc"
  by (simp_all add: conn_pkt_sent_def upd_packets_def Let_def split: prod.splits)

lemma remote_length_unat:
  assumes "n \<le> 58"
  shows "unat (remote_length n) = 48 + 8 * unat n"
proof -
  have n: "unat n \<le> 58" using assms by (simp add: word_le_nat_alt)
  have d: "unat (58 - n) = 58 - unat n" using assms by (subst unat_sub) simp_all
  have u: "unat (ucast (58 - n) :: u64) = 58 - unat n"
    using d by (simp add: unsigned_ucast_eq take_bit_nat_eq_self)
  have m: "unat (ucast (58 - n) * 8 :: u64) = (58 - unat n) * 8"
    using u by (subst unat_mult_lem[THEN iffD1]) simp_all
  show ?thesis unfolding remote_length_def MUDM_MAX_REMOTE_SGE_def
    using m n by (subst unat_sub) (simp_all add: word_le_nat_alt)
qed

text \<open>
  C21: a description of remote memory arrives as it was given.  \<^verbatim>\<open>mudm_send_message_remote\<close> injects
  one packet; the structure the peer reads in its payload is the caller's, with the entries beyond
  \<^verbatim>\<open>sgl_num\<close> left out and the address of an RDMA object of this node filled in, and that object is
  at the head of the list of polled counters with the caller's request id and the number of bytes
  to wait for.
\<close>

theorem mudm_send_message_remote_arrives:
  assumes n: "0 < sgl_num p" "sgl_num p \<le> 58" "unat (sgl_num p) \<le> length (SGE p)"
    and ty: "ty \<in> {MUDM_RDMA_WRITE, MUDM_RDMA_READ, MUDM_PKT_DATA_REMOTE, MUDM_RDMA_READ_IMM}"
    and hs: "hws_live hs" and l: "l = injfifo_of (conns mc x)" "pl = pools_of (conns mc x)"
    and inj: "ctl_inv m (injfifo_ctls mc l)"
    and pool: "pkt_free_list (packetcontrols mc pl) = Some k" "length (pkt_mem mc pl k) = 512"
    and obj: "rdma_free_list (rdma_obj_ctls mc pl) = Some ob"
  shows "\<exists>mc' d. mudm_send_message_remote hs now x ty p mc = Some (RetErr EINPROGRESS, mc') \<and>
    ctl_log (injfifo_ctls mc' l) = ctl_log (injfifo_ctls mc l) @ [MemFifoDesc d] \<and>
    ptype (SoftwareBytes (muh d)) = ty \<and> Pa_Payload d = message_pa (pkt_nodes (packetcontrols mc pl) k) \<and>
    remote_of_bytes (take (unat (Message_Length d)) (pkt_mem mc' pl k)) =
      p\<lparr>rdma_object := rdma_object_pa (ro_nodes (rdma_obj_ctls mc pl) ob), SGE := take (unat (sgl_num p)) (SGE p)\<rparr> \<and>
    counter_list (rdma_obj_ctls mc' pl) = Some ob \<and>
    mues (rdma_obj_ctls mc' pl) ob = \<lparr>mu_counter = remote_counter ty p, mu_error = 0\<rparr> \<and>
    local_request_id (ro_nodes (rdma_obj_ctls mc' pl) ob) = RequestID p"
proof -
  define len where "len = remote_length (sgl_num p)"
  have len: "unat len = 48 + 8 * unat (sgl_num p)" unfolding len_def by (rule remote_length_unat[OF n(2)])
  define oa where "oa = rdma_object_pa (ro_nodes (rdma_obj_ctls mc pl) ob)"
  define msg where "msg = write_at 40 (be_bytes 8 oa) (write_at 0 (take (unat len) (remote_bytes p)) (pkt_mem mc pl k))"
  obtain pc where a: "alloc_pkt_message (packetcontrols mc pl) = (Some k, pc)"
    and pa: "message_pa (pkt_nodes pc k) = message_pa (pkt_nodes (packetcontrols mc pl) k)"
    using pool(1) by (simp add: alloc_pkt_message_def)
  obtain rc where r: "allocate_rdma_object (rdma_obj_ctls mc pl) = (Some ob, rc)" and ra: "rdma_object_pa (ro_nodes rc ob) = oa"
    using obj by (simp add: allocate_rdma_object_def Let_def oa_def)
  define rc1 where "rc1 = release_rdma_obj_to_poll ob (set_rdma_obj ob (remote_counter ty p) (RequestID p) 0 x rc)"
  define mc2 where "mc2 = mc\<lparr>injfifo_ctls := (injfifo_ctls mc)(l := (injfifo_ctls mc l)\<lparr>clock := clock (injfifo_ctls mc l) + 1\<rparr>),
     packetcontrols := (packetcontrols mc)(pl := pc), pkt_mem := (pkt_mem mc)(pl := (pkt_mem mc pl)(k := msg)),
     rdma_obj_ctls := (rdma_obj_ctls mc)(pl := rc1)\<rparr>"
  have m2: "l = injfifo_of (conns mc2 x)" "ctl_inv m (injfifo_ctls mc2 l)" "ctl_log (injfifo_ctls mc2 l) = ctl_log (injfifo_ctls mc l)"
    "conns mc2 = conns mc" "pkt_mem mc2 pl k = msg" "rdma_obj_ctls mc2 pl = rc1"
    using l inj by (simp_all add: mc2_def ctl_inv_def ctl_log_def)
  from ctx_memfifo_total[OF hs m2(1,2), of ty "message_pa (pkt_nodes pc k)" len] obtain ct where
    C: "ctx_memfifo hs x ty (message_pa (pkt_nodes pc k)) len mc2 = Some (of_nat (Suc (length (ctl_log (injfifo_ctls mc2 l)))),
      (upd_conn x (\<lambda>c. c\<lparr>memfifo_sent := memfifo_sent c + 1\<rparr>) mc2)\<lparr>injfifo_ctls := (injfifo_ctls mc2)(l := ct)\<rparr>)"
    "ctl_log ct = ctl_log (injfifo_ctls mc2 l) @ [MemFifoDesc (patch_memfifo ty (message_pa (pkt_nodes pc k)) len
       (memfifo_sent (conns mc2 x)) (mu_iMemoryFifoDescriptor (conns mc2 x)))]" by blast
  define mc3 where "mc3 = (upd_conn x (\<lambda>c. c\<lparr>memfifo_sent := memfifo_sent c + 1\<rparr>) mc2)\<lparr>injfifo_ctls := (injfifo_ctls mc2)(l := ct)\<rparr>"
  define cnt :: u64 where "cnt = of_nat (Suc (length (ctl_log (injfifo_ctls mc2 l))))"
  have st: "hw_state (hs l (clock (injfifo_ctls mc l))) \<noteq> 0" using hs by (simp add: hws_live_def hw_live_def)
  have g: "sgl_num p \<noteq> 0" "\<not> MUDM_MAX_REMOTE_SGE < sgl_num p" using n(1,2) by (simp_all add: MUDM_MAX_REMOTE_SGE_def not_less)
  have e: "mudm_send_message_remote hs now x ty p mc = Some (RetErr EINPROGRESS, conn_pkt_sent hs now x k cnt mc3)"
    using g st ty a r ra C(1)[folded mc3_def cnt_def] l
    by (simp add: mudm_send_message_remote_def Let_def len_def[symmetric] rc1_def[symmetric] mc2_def msg_def)
  define d where "d = patch_memfifo ty (message_pa (pkt_nodes pc k)) len (memfifo_sent (conns mc2 x)) (mu_iMemoryFifoDescriptor (conns mc2 x))"
  have "take (unat len) msg = remote_bytes (p\<lparr>rdma_object := oa, SGE := take (unat (sgl_num p)) (SGE p)\<rparr>)"
    unfolding msg_def len by (rule remote_message) (use pool n in \<open>simp_all add: word_le_nat_alt\<close>)
  then have rd: "remote_of_bytes (take (unat len) msg) = p\<lparr>rdma_object := oa, SGE := take (unat (sgl_num p)) (SGE p)\<rparr>"
    using remote_roundtrip[of "p\<lparr>rdma_object := oa, SGE := take (unat (sgl_num p)) (SGE p)\<rparr>"] n(3) by simp
  note F = conn_pkt_sent_frame[where hs = hs and now = now and x = x and k = k and cnt = cnt and mc = mc3]
  have f3: "ctl_log (injfifo_ctls mc3 l) = ctl_log (injfifo_ctls mc l) @ [MemFifoDesc d]" "pkt_mem mc3 pl k = msg"
    "rdma_obj_ctls mc3 pl = rc1"
    using C(2) m2 by (simp_all add: mc3_def d_def upd_conn_def)
  have rc: "counter_list rc1 = Some ob" "mues rc1 ob = \<lparr>mu_counter = remote_counter ty p, mu_error = 0\<rparr>"
    "local_request_id (ro_nodes rc1 ob) = RequestID p"
    by (simp_all add: rc1_def release_rdma_obj_to_poll_def set_rdma_obj_def)
  have dd: "ptype (SoftwareBytes (muh d)) = ty" "Pa_Payload d = message_pa (pkt_nodes (packetcontrols mc pl) k)" "Message_Length d = len"
    by (simp_all add: d_def pa)
  show ?thesis unfolding oa_def[symmetric]
    by (rule exI[of _ "conn_pkt_sent hs now x k cnt mc3"], rule exI[of _ d])
      (use e F(4,6) f3 rc dd rd in simp)
qed

definition demo_remote_payload :: ionet_send_remote_payload where
  "demo_remote_payload = \<lparr>RequestID = 5, remote_vaddr = 6, rkey = 7, sgl_num = 2, data_length = 12, immediate_data = 8,
     rem_flags = 1, rem_reserved = 0, rdma_object = 0, SGE = demo_local\<rparr>"

theorem mudm_send_message_remote_arrives_witness:
  "\<exists>mc' (d :: memfifo_desc). mudm_send_message_remote demo_hws 5 0 MUDM_RDMA_WRITE demo_remote_payload (demo_ctx 4 (LActive 0)) =
       Some (RetErr EINPROGRESS, mc') \<and> ptype (SoftwareBytes (muh d)) = MUDM_RDMA_WRITE \<and>
     remote_of_bytes (take (unat (Message_Length d)) (pkt_mem mc' 0 0)) =
       demo_remote_payload\<lparr>rdma_object := rdma_object_pa (ro_nodes demo_rdma 0)\<rparr> \<and>
     mues (rdma_obj_ctls mc' 0) 0 = \<lparr>mu_counter = 12, mu_error = 0\<rparr>"
proof -
  let ?mc = "demo_ctx 4 (LActive 0)" and ?p = demo_remote_payload
  have c: "ctl_inv 4 (injfifo_ctls ?mc 0)" "0 = injfifo_of (conns ?mc 0)" "0 = pools_of (conns ?mc 0)"
    "0 < sgl_num ?p" "sgl_num ?p \<le> 58" "unat (sgl_num ?p) \<le> length (SGE ?p)"
    "MUDM_RDMA_WRITE \<in> {MUDM_RDMA_WRITE, MUDM_RDMA_READ, MUDM_PKT_DATA_REMOTE, MUDM_RDMA_READ_IMM}"
    "pkt_free_list (packetcontrols ?mc 0) = Some 0" "length (pkt_mem ?mc 0 0) = 512" "rdma_free_list (rdma_obj_ctls ?mc 0) = Some 0"
    using demo_injs_ctl demo_pkts_free demo_rdma_rep
    by (simp_all add: demo_ctx_def demo_conn_def demo_remote_payload_def rdma_rep_def)
  have e: "rdma_object_pa (ro_nodes (rdma_obj_ctls ?mc 0) 0) = rdma_object_pa (ro_nodes demo_rdma 0)"
    "take (unat (sgl_num ?p)) (SGE ?p) = SGE ?p" "remote_counter MUDM_RDMA_WRITE ?p = 12"
    by (simp_all add: demo_ctx_def demo_remote_payload_def remote_counter_def)
  have f: "?p\<lparr>rdma_object := ob, SGE := SGE ?p\<rparr> = ?p\<lparr>rdma_object := ob\<rparr>" for ob by simp
  from mudm_send_message_remote_arrives[OF c(4-7) demo_hws_live c(2,3,1) c(8-10), of 5] show ?thesis
    unfolding e f by blast
qed

end
