(* ===== verification/Mu_RecFifo.thy ===== *)
theory Mu_RecFifo
  imports Mudm_Context
begin

text \<open>
  Reception FIFOs: the operations of \<^verbatim>\<open>spi/include/mu/RecFifo.h\<close> and the poll loop
  \<^verbatim>\<open>mudm_fifo_poll\<close> of \<^verbatim>\<open>bgmudm/mudm.c\<close> over them.  The FIFO is a ring of bytes in memory; a
  packet is its bytes, header first, and the five bits \<^verbatim>\<open>Size\<close> of byte 8 give its length.  The
  handler of a packet is a parameter of the loop, \<open>None\<close> for one that does not return; a failed
  assertion is \<open>None\<close> as well.
\<close>

section \<open>State and operations\<close>

record recfifo =
  rfifo :: fifo
  ring :: "u64 \<Rightarrow> u8"

definition read_ring :: "recfifo \<Rightarrow> u64 \<Rightarrow> nat \<Rightarrow> u8 list" where
  "read_ring f a n = map (\<lambda>i. ring f (a + of_nat i)) [0..<n]"

definition packet_bytes :: "u8 \<Rightarrow> u32" where
  "packet_bytes byte8 = push_bit 5 (ucast (byte8 AND 0x1f) + 1)"

text \<open>The number of bytes, whether a wrap must be handled, and the FIFO with its new shadow tail.\<close>

definition MUSPI_getAvailableBytes :: "recfifo \<Rightarrow> (u32 \<times> bool \<times> recfifo) option" where
  "MUSPI_getAvailableBytes f =
     (let g = rfifo f; h = va_head g; t = hw_pa_tail g - pa_start g + va_start g
      in map_option (\<lambda>g1. let f1 = f\<lparr>rfifo := g1\<rparr> in
             if t = h then (0, False, f1)
             else if h < t then (ucast (t - h), False, f1)
             else if h < va_end g - 544 then (ucast (va_end g - h - 544), False, f1)
             else (ucast (va_end g - h), True, f1))
           (MUSPI_setTailVa t g))"

definition MUSPI_getNextPacketOptimized :: "recfifo \<Rightarrow> (u8 list \<times> u32 \<times> recfifo) option" where
  "MUSPI_getNextPacketOptimized f =
     (let g = rfifo f; h = va_head g; n = packet_bytes (ring f (h + 8))
      in if h < va_tail g \<or> h < va_end g - 544
         then Some (read_ring f h (unat n), n, f\<lparr>rfifo := g\<lparr>va_head := h + ucast n\<rparr>\<rparr>)
         else None)"

text \<open>The packet is copied to \<^verbatim>\<open>_wrapBuf\<close> when it reaches the end of the memory.\<close>

definition getNextPacketWrap :: "recfifo \<Rightarrow> u8 list \<times> u32 \<times> recfifo" where
  "getNextPacketWrap f =
     (let g = rfifo f; h = va_head g; n = packet_bytes (ring f (h + 8))
      in if h + ucast n < va_end g
         then (read_ring f h (unat n), n, f\<lparr>rfifo := g\<lparr>va_head := h + ucast n\<rparr>\<rparr>)
         else let end_bytes = va_end g - h; start_bytes = ucast n - end_bytes
              in (read_ring f h (unat end_bytes) @ read_ring f (va_start g) (unat start_bytes), n,
                  f\<lparr>rfifo := g\<lparr>va_head := va_start g + start_bytes\<rparr>\<rparr>))"

definition MUSPI_syncRecFifoHwHead :: "recfifo \<Rightarrow> recfifo option" where
  "MUSPI_syncRecFifoHwHead f =
     map_option (\<lambda>g. f\<lparr>rfifo := g\<rparr>) (MUSPI_setHwHead (va_head (rfifo f) - va_start (rfifo f)) (rfifo f))"

section \<open>The poll loop\<close>

text \<open>The packets of one batch, until \<^verbatim>\<open>cumulative_bytes\<close> reaches the number available.\<close>

partial_function (option) fifo_poll_packets ::
  "(u8 list \<Rightarrow> 's \<Rightarrow> 's option) \<Rightarrow> u32 \<Rightarrow> u32 \<Rightarrow> u64 \<Rightarrow> recfifo \<Rightarrow> 's \<Rightarrow> (u64 \<times> recfifo \<times> 's) option" where
  "fifo_poll_packets handle total_bytes cumulative_bytes packets_done f s =
     (if cumulative_bytes < total_bytes then
        (case MUSPI_getNextPacketOptimized f of
           None \<Rightarrow> None
         | Some (hdr, cur_bytes, f1) \<Rightarrow>
             (case handle hdr s of
                None \<Rightarrow> None
              | Some s1 \<Rightarrow> fifo_poll_packets handle total_bytes (cumulative_bytes + cur_bytes) (packets_done + 1) f1 s1))
      else Some (packets_done, f, s))"

text \<open>One round of the outer loop, with the FIFO as \<^verbatim>\<open>MUSPI_getAvailableBytes\<close> left it.\<close>

definition fifo_poll_round ::
  "(u8 list \<Rightarrow> 's \<Rightarrow> 's option) \<Rightarrow> u32 \<Rightarrow> bool \<Rightarrow> u64 \<Rightarrow> recfifo \<Rightarrow> 's \<Rightarrow> (u64 \<times> recfifo \<times> 's) option" where
  "fifo_poll_round handle total_bytes wrap packets_done f s =
     (case (if \<not> wrap then fifo_poll_packets handle total_bytes 0 packets_done f s
            else (let (hdr, _, f1) = getNextPacketWrap f
                  in map_option (\<lambda>s1. (packets_done + 1, f1, s1)) (handle hdr s))) of
        None \<Rightarrow> None
      | Some (n, f1, s1) \<Rightarrow> map_option (\<lambda>f2. (n, f2, s1)) (MUSPI_syncRecFifoHwHead f1))"

partial_function (option) fifo_poll_loop ::
  "(u8 list \<Rightarrow> 's \<Rightarrow> 's option) \<Rightarrow> u64 \<Rightarrow> recfifo \<Rightarrow> 's \<Rightarrow> (u64 \<times> recfifo \<times> 's) option" where
  "fifo_poll_loop handle packets_done f s =
     (case MUSPI_getAvailableBytes f of
        None \<Rightarrow> None
      | Some (total_bytes, wrap, f1) \<Rightarrow>
          if total_bytes = 0 then Some (packets_done, f1, s)
          else (case fifo_poll_round handle total_bytes wrap packets_done f1 s of
                  None \<Rightarrow> None
                | Some (n, f2, s1) \<Rightarrow> fifo_poll_loop handle n f2 s1))"

section \<open>The queue a ring holds\<close>

definition packet_ok :: "u8 list \<Rightarrow> bool" where
  "packet_ok p \<longleftrightarrow> 32 \<le> length p \<and> length p \<le> 544 \<and> unat (packet_bytes (p ! 8)) = length p"

definition ring_geometry :: "nat \<Rightarrow> fifo \<Rightarrow> bool" where
  "ring_geometry sz g \<longleftrightarrow> 544 < sz \<and> sz < 2 ^ 32 \<and> sz mod 32 = 0 \<and> unat (va_start g) mod 32 = 0 \<and>
     unat (va_start g) + sz + 544 < 2 ^ 64 \<and> va_end g = va_start g + of_nat sz \<and> size_1 g = of_nat (sz - 1)"

definition ring_addr :: "nat \<Rightarrow> recfifo \<Rightarrow> nat \<Rightarrow> u64" where
  "ring_addr sz f k = va_start (rfifo f) + of_nat (k mod sz)"

text \<open>The queue \<open>pkts\<close> starts at the offset \<open>ho\<close> of the shadow head and ends at the tail of the hardware.\<close>

definition rec_at :: "nat \<Rightarrow> nat \<Rightarrow> u8 list list \<Rightarrow> recfifo \<Rightarrow> bool" where
  "rec_at sz ho pkts f \<longleftrightarrow> ring_geometry sz (rfifo f) \<and> ho < sz \<and> ho mod 32 = 0 \<and>
     va_head (rfifo f) = ring_addr sz f ho \<and>
     hw_pa_tail (rfifo f) = pa_start (rfifo f) + of_nat ((ho + length (concat pkts)) mod sz) \<and>
     length (concat pkts) < sz \<and> (\<forall>p \<in> set pkts. packet_ok p) \<and>
     (\<forall>i < length (concat pkts). ring f (ring_addr sz f (ho + i)) = concat pkts ! i)"

lemma unat_ring_addr:
  assumes "ring_geometry sz (rfifo f)"
  shows "unat (ring_addr sz f k) = unat (va_start (rfifo f)) + k mod sz"
proof -
  have s: "0 < sz" "unat (va_start (rfifo f)) + sz < 2 ^ 64" using assms by (auto simp: ring_geometry_def)
  then have "unat (va_start (rfifo f)) + k mod sz < 2 ^ 64" by (meson add_strict_left_mono less_trans mod_less_divisor)
  moreover from this have "unat (of_nat (k mod sz) :: u64) = k mod sz" by (intro unat_of_nat_u64) simp
  ultimately show ?thesis unfolding ring_addr_def by (subst unat_add_lem[THEN iffD1]) simp_all
qed

lemma ring_addr_inj:
  "ring_geometry sz (rfifo f) \<Longrightarrow> ring_addr sz f j = ring_addr sz f k \<longleftrightarrow> j mod sz = k mod sz"
  using unat_ring_addr[of sz f j] unat_ring_addr[of sz f k] by (metis add_left_cancel ring_addr_def)

text \<open>Without a wrap the bytes are where plain pointer arithmetic finds them.\<close>

lemma ring_addr_plus: "k + i < sz \<Longrightarrow> ring_addr sz f k + of_nat i = ring_addr sz f (k + i)"
  by (simp add: ring_addr_def)

lemma read_ring_at:
  assumes "rec_at sz ho (p # ps) f" "n \<le> length p" "ho + n \<le> sz"
  shows "read_ring f (ring_addr sz f ho) n = take n p"
proof (rule nth_equalityI)
  show "length (read_ring f (ring_addr sz f ho) n) = length (take n p)" using assms(2) by (simp add: read_ring_def)
  fix i assume "i < length (read_ring f (ring_addr sz f ho) n)"
  then have i: "i < n" by (simp add: read_ring_def)
  then have "ring f (ring_addr sz f (ho + i)) = concat (p # ps) ! i"
    using assms(1,2) by (simp add: rec_at_def)
  then show "read_ring f (ring_addr sz f ho) n ! i = take n p ! i"
    using i assms(2,3) by (simp add: read_ring_def ring_addr_plus nth_append)
qed

lemma packet_ok_mod: "packet_ok p \<Longrightarrow> length p mod 32 = 0"
proof -
  have "unat (push_bit 5 w :: u32) mod 32 = 0" for w
    by (simp add: push_bit_eq_mult unat_word_ariths(2) mod_mod_cancel)
  then show "packet_ok p \<Longrightarrow> length p mod 32 = 0" by (metis packet_bytes_def packet_ok_def)
qed

lemma rec_at_header:
  assumes "rec_at sz ho (p # ps) f"
  shows "unat (packet_bytes (ring f (va_head (rfifo f) + 8))) = length p" "ho + 32 \<le> sz"
proof -
  have a: "ho < sz" "ho mod 32 = 0" "sz mod 32 = 0" and ok: "packet_ok p" and h: "va_head (rfifo f) = ring_addr sz f ho"
    and b: "ring f (ring_addr sz f (ho + 8)) = concat (p # ps) ! 8"
    using assms by (auto simp: rec_at_def ring_geometry_def packet_ok_def)
  show w: "ho + 32 \<le> sz" using a by presburger
  have "ring_addr sz f ho + 8 = ring_addr sz f (ho + 8)" using ring_addr_plus[of ho 8 sz f] w by simp
  moreover have "concat (p # ps) ! 8 = p ! 8" using ok by (simp add: packet_ok_def nth_append)
  ultimately show "unat (packet_bytes (ring f (va_head (rfifo f) + 8))) = length p"
    using h b ok by (simp add: packet_ok_def)
qed

lemma rec_at_advance:
  assumes "rec_at sz ho (p # ps) f"
  shows "rec_at sz ((ho + length p) mod sz) ps (f\<lparr>rfifo := (rfifo f)\<lparr>va_head := ring_addr sz f (ho + length p)\<rparr>\<rparr>)"
    (is "rec_at sz ?ho ps ?f")
proof -
  have g: "ring_geometry sz (rfifo f)" and ok: "packet_ok p" using assms by (auto simp: rec_at_def)
  then have s: "0 < sz" "sz mod 32 = 0" by (auto simp: ring_geometry_def)
  have a: "ring_addr sz ?f k = ring_addr sz f k" for k by (simp add: ring_addr_def)
  have m: "ring_addr sz f (k mod sz + i) = ring_addr sz f (k + i)" for k i by (simp add: ring_addr_def mod_add_left_eq)
  have "ho mod 32 = 0" using assms by (simp add: rec_at_def)
  then have "(ho + length p) mod 32 = 0" using packet_ok_mod[OF ok] by presburger
  moreover have "32 dvd sz" using s(2) by (simp add: dvd_eq_mod_eq_0)
  ultimately have "?ho mod 32 = 0" by (simp add: mod_mod_cancel)
  then have h: "?ho < sz \<and> ?ho mod 32 = 0" using s by simp
  have rd: "ring f (ring_addr sz f (?ho + i)) = concat ps ! i" if "i < length (concat ps)" for i
  proof -
    have "length p + i < length (concat (p # ps))" using that by simp
    then have "ring f (ring_addr sz f (ho + (length p + i))) = concat (p # ps) ! (length p + i)"
      using assms by (simp only: rec_at_def)
    then show ?thesis unfolding m by (simp add: nth_append add.assoc)
  qed
  have va: "ring_addr sz f ?ho = ring_addr sz f (ho + length p)" using m[of "ho + length p" 0] by simp
  have tl: "hw_pa_tail (rfifo f) = pa_start (rfifo f) + of_nat ((?ho + length (concat ps)) mod sz)"
    using assms by (simp add: rec_at_def mod_add_left_eq add.assoc)
  have "ring_geometry sz (rfifo ?f)" using g by (simp add: ring_geometry_def)
  moreover have "length (concat ps) < sz \<and> (\<forall>p \<in> set ps. packet_ok p)" using assms by (simp add: rec_at_def)
  ultimately show ?thesis unfolding rec_at_def a using h rd va tl by simp
qed

lemma ucast_of_unat: "unat (n :: u32) = k \<Longrightarrow> (ucast n :: u64) = of_nat k"
proof -
  have "unat n < 2 ^ LENGTH(32)" by (rule unsigned_less)
  then have "unat n < 2 ^ 64" by simp
  then show "unat n = k \<Longrightarrow> (ucast n :: u64) = of_nat k"
    using unat_of_nat_u64[of k] by (simp add: word_unat_eq_iff unsigned_ucast_eq take_bit_nat_eq_self)
qed

lemma get_next_optimized:
  assumes r: "rec_at sz ho (p # ps) f" and fit: "ho + length p < sz"
    and ok: "va_head (rfifo f) < va_tail (rfifo f) \<or> va_head (rfifo f) < va_end (rfifo f) - 544"
  shows "\<exists>n f1. MUSPI_getNextPacketOptimized f = Some (p, n, f1) \<and> unat n = length p \<and>
    f1 = f\<lparr>rfifo := (rfifo f)\<lparr>va_head := ring_addr sz f (ho + length p)\<rparr>\<rparr> \<and> rec_at sz (ho + length p) ps f1"
proof -
  let ?n = "packet_bytes (ring f (va_head (rfifo f) + 8))"
  have h: "va_head (rfifo f) = ring_addr sz f ho" using r by (simp add: rec_at_def)
  have n: "unat ?n = length p" by (rule rec_at_header[OF r])
  then have u: "(ucast ?n :: u64) = of_nat (length p)" by (rule ucast_of_unat)
  have "read_ring f (va_head (rfifo f)) (unat ?n) = p"
    using read_ring_at[OF r, of "length p"] fit n h by simp
  moreover have "va_head (rfifo f) + ucast ?n = ring_addr sz f (ho + length p)"
    using ring_addr_plus[OF fit, of f] h u by simp
  ultimately show ?thesis using rec_at_advance[OF r] fit n ok
    by (simp add: MUSPI_getNextPacketOptimized_def Let_def)
qed

section \<open>One batch\<close>

primrec handle_all :: "(u8 list \<Rightarrow> 's \<Rightarrow> 's option) \<Rightarrow> u8 list list \<Rightarrow> 's \<Rightarrow> 's option" where
  "handle_all h [] s = Some s"
| "handle_all h (p # ps) s = (case h p s of None \<Rightarrow> None | Some s1 \<Rightarrow> handle_all h ps s1)"

lemma handle_all_append:
  "handle_all h (ps @ qs) s = (case handle_all h ps s of None \<Rightarrow> None | Some s1 \<Rightarrow> handle_all h qs s1)"
  by (induction ps arbitrary: s) (auto split: option.splits)

text \<open>The rest of a batch of \<open>R\<close> bytes: everything up to the tail, or up to 544 bytes before the end.\<close>

definition to_tail :: "nat \<Rightarrow> nat \<Rightarrow> nat \<Rightarrow> u8 list list \<Rightarrow> recfifo \<Rightarrow> bool" where
  "to_tail sz ho R pkts f \<longleftrightarrow> R = length (concat pkts) \<and> ho + R < sz \<and> va_tail (rfifo f) = ring_addr sz f (ho + R)"

definition before_end :: "nat \<Rightarrow> nat \<Rightarrow> nat \<Rightarrow> u8 list list \<Rightarrow> bool" where
  "before_end sz ho R pkts \<longleftrightarrow> R = 0 \<or> ho + R + 544 \<le> sz \<and> R \<le> length (concat pkts)"

lemma ring_end_minus:
  assumes "rec_at sz ho pkts f" "k < sz"
  shows "ring_addr sz f k < va_end (rfifo f) - 544 \<longleftrightarrow> k + 544 < sz"
proof -
  have g: "ring_geometry sz (rfifo f)" using assms(1) by (simp add: rec_at_def)
  have s: "544 < sz" "unat (va_start (rfifo f)) + sz < 2 ^ 64" and e: "va_end (rfifo f) = va_start (rfifo f) + of_nat sz"
    using g by (auto simp: ring_geometry_def)
  have "unat (of_nat sz :: u64) = sz" using s by (intro unat_of_nat_u64) simp
  then have "unat (va_end (rfifo f)) = unat (va_start (rfifo f)) + sz"
    unfolding e using s by (subst unat_add_lem[THEN iffD1]) simp_all
  moreover from this have "unat (va_end (rfifo f) - 544) = unat (va_end (rfifo f)) - 544"
    using s by (subst unat_sub) (simp_all add: word_le_nat_alt)
  ultimately show ?thesis using unat_ring_addr[OF g, of k] assms(2) s
    by (simp add: word_less_nat_alt) linarith
qed

lemma fifo_poll_packets_rep:
  "rec_at sz ho pkts f \<Longrightarrow> R = unat tot - unat cum \<Longrightarrow> unat cum + length (concat pkts) < 2 ^ 32 \<Longrightarrow>
   to_tail sz ho R pkts f \<or> before_end sz ho R pkts \<Longrightarrow>
   \<exists>qs rs f' ho'. pkts = qs @ rs \<and> rec_at sz ho' rs f' \<and> (0 < R \<longrightarrow> qs \<noteq> []) \<and> (to_tail sz ho R pkts f \<longrightarrow> rs = []) \<and>
     fifo_poll_packets handle tot cum n f s =
       (case handle_all handle qs s of None \<Rightarrow> None | Some s1 \<Rightarrow> Some (n + of_nat (length qs), f', s1))"
proof (induction pkts arbitrary: ho f cum R n s)
  case Nil
  then have "R = 0" by (auto simp: to_tail_def before_end_def)
  then have "\<not> cum < tot" using Nil.prems(2) by (simp add: word_less_nat_alt)
  then show ?case using Nil.prems(1)
    by (intro exI[of _ "[]"] exI[of _ f] exI[of _ ho]) (subst fifo_poll_packets.simps, simp add: \<open>R = 0\<close>)
next
  case (Cons p ps)
  have ok: "packet_ok p" and ho: "ho < sz" and h: "va_head (rfifo f) = ring_addr sz f ho"
    and g: "ring_geometry sz (rfifo f)" using Cons.prems(1) by (auto simp: rec_at_def)
  have lp: "32 \<le> length p" "length p \<le> 544" using ok by (simp_all add: packet_ok_def)
  show ?case
  proof (cases "R = 0")
    case True
    then have nt: "\<not> to_tail sz ho R (p # ps) f" using lp by (cases p) (simp_all add: to_tail_def)
    have "\<not> cum < tot" using True Cons.prems(2) by (simp add: word_less_nat_alt)
    then show ?thesis using Cons.prems(1) True nt
      by (intro exI[of _ "[]"] exI[of _ "p # ps"] exI[of _ f] exI[of _ ho]) (subst fifo_poll_packets.simps, simp)
  next
    case False
    have fit: "ho + length p < sz" using Cons.prems(4) False lp by (auto simp: to_tail_def before_end_def)
    have "va_head (rfifo f) < va_tail (rfifo f) \<or> va_head (rfifo f) < va_end (rfifo f) - 544"
    proof (cases "to_tail sz ho R (p # ps) f")
      case True
      then show ?thesis using unat_ring_addr[OF g, of ho] unat_ring_addr[OF g, of "ho + R"] h False ho
        by (simp add: to_tail_def word_less_nat_alt)
    next
      case nt: False
      then show ?thesis using Cons.prems(4) False ring_end_minus[OF Cons.prems(1) ho] h by (auto simp: before_end_def)
    qed
    from get_next_optimized[OF Cons.prems(1) fit this] obtain b f1 where
      N: "MUSPI_getNextPacketOptimized f = Some (p, b, f1)" "unat b = length p" "rec_at sz (ho + length p) ps f1"
      "f1 = f\<lparr>rfifo := (rfifo f)\<lparr>va_head := ring_addr sz f (ho + length p)\<rparr>\<rparr>" by blast
    have c: "unat (cum + b) = unat cum + length p"
      using Cons.prems(3) N(2) by (subst unat_add_lem[THEN iffD1]) simp_all
    have tt: "to_tail sz (ho + length p) (R - length p) ps f1 \<longleftrightarrow> to_tail sz ho R (p # ps) f"
      if "to_tail sz ho R (p # ps) f \<or> length p \<le> R"
    proof -
      have "length p \<le> R" using that by (auto simp: to_tail_def)
      moreover have "ring_addr sz f1 k = ring_addr sz f k" "va_tail (rfifo f1) = va_tail (rfifo f)" for k
        by (simp_all add: N(4) ring_addr_def)
      ultimately show ?thesis by (auto simp: to_tail_def)
    qed
    have cond: "to_tail sz (ho + length p) (R - length p) ps f1 \<or> before_end sz (ho + length p) (R - length p) ps"
      using Cons.prems(4) tt by (auto simp: before_end_def)
    have R: "R - length p = unat tot - unat (cum + b)" using Cons.prems(2) c by simp
    have b: "unat (cum + b) + length (concat ps) < 2 ^ 32" using Cons.prems(3) c by simp
    have lt: "cum < tot" using False Cons.prems(2) by (simp add: word_less_nat_alt)
    have IH: "\<exists>qs rs f' ho'. ps = qs @ rs \<and> rec_at sz ho' rs f' \<and> (0 < R - length p \<longrightarrow> qs \<noteq> []) \<and>
        (to_tail sz (ho + length p) (R - length p) ps f1 \<longrightarrow> rs = []) \<and>
        fifo_poll_packets handle tot (cum + b) (n + 1) f1 s' =
          (case handle_all handle qs s' of None \<Rightarrow> None | Some s1 \<Rightarrow> Some (n + 1 + of_nat (length qs), f', s1))" for s'
      by (rule Cons.IH[OF N(3) R b cond])
    show ?thesis
    proof (cases "handle p s")
      case None
      from IH[of s] obtain qs rs f' ho' where "ps = qs @ rs" "rec_at sz ho' rs f'"
        "to_tail sz (ho + length p) (R - length p) ps f1 \<longrightarrow> rs = []" by blast
      with None show ?thesis using lt N(1) tt
        by (intro exI[of _ "p # qs"] exI[of _ rs] exI[of _ f'] exI[of _ ho']) (subst fifo_poll_packets.simps, auto)
    next
      case (Some s')
      from IH[of s'] obtain qs rs f' ho' where I: "ps = qs @ rs" "rec_at sz ho' rs f'"
        "to_tail sz (ho + length p) (R - length p) ps f1 \<longrightarrow> rs = []"
        "fifo_poll_packets handle tot (cum + b) (n + 1) f1 s' =
          (case handle_all handle qs s' of None \<Rightarrow> None | Some s1 \<Rightarrow> Some (n + 1 + of_nat (length qs), f', s1))" by blast
      have "fifo_poll_packets handle tot cum n f s = fifo_poll_packets handle tot (cum + b) (n + 1) f1 s'"
        using lt N(1) Some by (subst fifo_poll_packets.simps) simp
      with I Some tt show ?thesis
        by (intro exI[of _ "p # qs"] exI[of _ rs] exI[of _ f'] exI[of _ ho']) (auto simp: add.assoc split: option.splits)
    qed
  qed
qed

section \<open>One round\<close>

lemma packets_mod: "\<forall>p \<in> set pkts. packet_ok p \<Longrightarrow> length (concat pkts) mod 32 = 0"
proof (induction pkts)
  case (Cons p ps)
  then have "length p mod 32 = 0" "length (concat ps) mod 32 = 0" using packet_ok_mod by auto
  then have "(length p + length (concat ps)) mod 32 = 0" by presburger
  then show ?case by simp
qed simp

lemma packets_empty: "\<forall>p \<in> set pkts. packet_ok p \<Longrightarrow> length (concat pkts) = 0 \<longleftrightarrow> pkts = []"
  by (cases pkts) (auto simp: packet_ok_def)

lemma unat_ucast32: "unat (w :: u64) < 2 ^ 32 \<Longrightarrow> unat (ucast w :: u32) = unat w"
  by (simp add: unsigned_ucast_eq take_bit_nat_eq_self)

lemma unat_ring_end:
  assumes "ring_geometry sz (rfifo f)"
  shows "unat (va_end (rfifo f)) = unat (va_start (rfifo f)) + sz"
proof -
  have s: "unat (va_start (rfifo f)) + sz < 2 ^ 64" and e: "va_end (rfifo f) = va_start (rfifo f) + of_nat sz"
    using assms by (auto simp: ring_geometry_def)
  then have "unat (of_nat sz :: u64) = sz" by (intro unat_of_nat_u64) simp
  then show ?thesis unfolding e using s by (subst unat_add_lem[THEN iffD1]) simp_all
qed

lemma rec_at_tail_field: "rec_at sz ho pkts (f\<lparr>rfifo := (rfifo f)\<lparr>va_tail := t\<rparr>\<rparr>) = rec_at sz ho pkts f"
  "rec_at sz ho pkts (f\<lparr>rfifo := (rfifo f)\<lparr>hw_pa_head := t\<rparr>\<rparr>) = rec_at sz ho pkts f"
  by (simp_all add: rec_at_def ring_geometry_def ring_addr_def)

lemma get_available:
  assumes r: "rec_at sz ho pkts f"
  shows "\<exists>tot w f1. MUSPI_getAvailableBytes f = Some (tot, w, f1) \<and> rec_at sz ho pkts f1 \<and> (tot = 0 \<longleftrightarrow> pkts = []) \<and>
    (pkts \<noteq> [] \<longrightarrow> (if w then sz \<le> ho + 544
                   else to_tail sz ho (unat tot) pkts f1 \<or> before_end sz ho (unat tot) pkts))"
proof -
  let ?L = "length (concat pkts)" and ?h = "va_head (rfifo f)" and ?t = "ring_addr sz f (ho + length (concat pkts))"
  let ?f1 = "f\<lparr>rfifo := (rfifo f)\<lparr>va_tail := ?t\<rparr>\<rparr>"
  have g: "ring_geometry sz (rfifo f)" and ho: "ho < sz" "ho mod 32 = 0" and L: "?L < sz" and ok: "\<forall>p \<in> set pkts. packet_ok p"
    and h: "?h = ring_addr sz f ho" using r by (auto simp: rec_at_def)
  have G: "544 < sz" "sz < 2 ^ 32" "sz mod 32 = 0" "unat (va_start (rfifo f)) mod 32 = 0" using g by (auto simp: ring_geometry_def)
  note ut = unat_ring_addr[OF g, of "ho + ?L"] and uh = unat_ring_addr[OF g, of ho] and ue = unat_ring_end[OF g]
  have t: "hw_pa_tail (rfifo f) - pa_start (rfifo f) + va_start (rfifo f) = ?t"
    using r by (simp add: rec_at_def ring_addr_def)
  have "(ho + ?L) mod 32 = 0" using ho(2) packets_mod[OF ok] by presburger
  moreover have "32 dvd sz" using G(3) by (simp add: dvd_eq_mod_eq_0)
  ultimately have "(ho + ?L) mod sz mod 32 = 0" by (simp add: mod_mod_cancel)
  with G(4) have "unat ?t mod 32 = 0" unfolding ut dvd_eq_mod_eq_0[symmetric] by (intro dvd_add)
  then have "?t mod 32 = 0" by (simp add: word_unat_eq_iff unat_mod_distrib)
  then have st: "MUSPI_setTailVa ?t (rfifo f) = Some ((rfifo f)\<lparr>va_tail := ?t\<rparr>)" by (simp add: MUSPI_setTailVa_def)
  have r1: "rec_at sz ho pkts ?f1" using r by (simp add: rec_at_tail_field)
  have ra: "ring_addr sz ?f1 k = ring_addr sz f k" for k by (simp add: ring_addr_def)
  note av = MUSPI_getAvailableBytes_def[of f, unfolded Let_def t st option.map]
  consider (empty) "pkts = []" | (flat) "pkts \<noteq> []" "ho + ?L < sz" | (wrap) "pkts \<noteq> []" "sz \<le> ho + ?L"
    using not_le by blast
  then show ?thesis
  proof cases
    case empty
    then have "?t = ?h" using h by simp
    then show ?thesis using av empty r1 by (intro exI[of _ 0] exI[of _ False] exI[of _ ?f1]) simp
  next
    case flat
    have pos: "0 < ?L" using packets_empty[OF ok] flat(1) by (metis gr0I)
    have lt: "unat ?h < unat ?t" using uh ut h flat(2) ho(1) pos by simp
    have "unat (?t - ?h) = ?L" using lt uh ut h flat(2) ho(1) by (subst unat_sub) (simp_all add: word_le_nat_alt)
    then have u: "unat (ucast (?t - ?h) :: u32) = ?L" using L G(2) by (subst unat_ucast32) simp_all
    then have "(ucast (?t - ?h) :: u32) \<noteq> 0" using pos by (metis less_irrefl unsigned_0)
    moreover have "to_tail sz ho ?L pkts ?f1" using flat(2) by (simp add: to_tail_def ra)
    moreover have "?t \<noteq> ?h" "?h < ?t" using lt by (auto simp: word_less_nat_alt)
    ultimately show ?thesis using av flat(1) r1 u by (intro exI[of _ "ucast (?t - ?h)"] exI[of _ False] exI[of _ ?f1]) simp
  next
    case wrap
    have m: "(ho + ?L) mod sz = ho + ?L - sz" using wrap(2) ho(1) L by (simp add: mod_if)
    then have lt: "unat ?t < unat ?h" using uh ut h wrap(2) ho(1) L by simp
    then have ne: "?t \<noteq> ?h" "\<not> ?h < ?t" by (auto simp: word_less_nat_alt)
    have d: "unat (va_end (rfifo f) - ?h) = sz - ho"
      using uh ue h ho(1) by (subst unat_sub) (simp_all add: word_le_nat_alt)
    show ?thesis
    proof (cases "ho + 544 < sz")
      case True
      then have "unat (va_end (rfifo f) - ?h - 544) = sz - ho - 544" using d by (subst unat_sub) (simp_all add: word_le_nat_alt)
      then have u: "unat (ucast (va_end (rfifo f) - ?h - 544) :: u32) = sz - ho - 544" using G(2) by (subst unat_ucast32) simp_all
      then have "(ucast (va_end (rfifo f) - ?h - 544) :: u32) \<noteq> 0" using True by (metis unsigned_0 zero_less_diff less_irrefl add.commute less_diff_conv)
      moreover have "before_end sz ho (sz - ho - 544) pkts" using True wrap(2) by (simp add: before_end_def)
      moreover have "?h < va_end (rfifo f) - 544" using ring_end_minus[OF r ho(1)] True h by simp
      ultimately show ?thesis using av ne wrap(1) r1 u
        by (intro exI[of _ "ucast (va_end (rfifo f) - ?h - 544)"] exI[of _ False] exI[of _ ?f1]) simp
    next
      case False
      have "unat (ucast (va_end (rfifo f) - ?h) :: u32) = sz - ho" using d G(2) by (subst unat_ucast32) simp_all
      then have "(ucast (va_end (rfifo f) - ?h) :: u32) \<noteq> 0" using ho(1) by (metis unsigned_0 zero_less_diff less_irrefl)
      moreover have "\<not> ?h < va_end (rfifo f) - 544" using ring_end_minus[OF r ho(1)] False h by simp
      ultimately show ?thesis using av ne wrap(1) r1 False
        by (intro exI[of _ "ucast (va_end (rfifo f) - ?h)"] exI[of _ True] exI[of _ ?f1]) simp
    qed
  qed
qed

lemma get_next_wrap:
  assumes r: "rec_at sz ho (p # ps) f"
  shows "\<exists>n f1. getNextPacketWrap f = (p, n, f1) \<and> rec_at sz ((ho + length p) mod sz) ps f1"
proof -
  let ?h = "va_head (rfifo f)" and ?n = "packet_bytes (ring f (va_head (rfifo f) + 8))"
  have g: "ring_geometry sz (rfifo f)" and ho: "ho < sz" and h: "?h = ring_addr sz f ho" and lp: "length p \<le> 544"
    using r by (auto simp: rec_at_def packet_ok_def)
  have G: "544 < sz" "unat (va_start (rfifo f)) + sz + 544 < 2 ^ 64" using g by (auto simp: ring_geometry_def)
  have n: "unat ?n = length p" by (rule rec_at_header[OF r])
  then have u: "(ucast ?n :: u64) = of_nat (length p)" by (rule ucast_of_unat)
  have ul: "unat (of_nat (length p) :: u64) = length p" using lp by (intro unat_of_nat_u64) simp
  have uh: "unat ?h = unat (va_start (rfifo f)) + ho" using unat_ring_addr[OF g, of ho] h ho by simp
  note ue = unat_ring_end[OF g]
  have uhn: "unat (?h + ucast ?n) = unat (va_start (rfifo f)) + ho + length p"
    unfolding u using uh ul G ho lp by (subst unat_add_lem[THEN iffD1]) simp_all
  note adv = rec_at_advance[OF r]
  show ?thesis
  proof (cases "ho + length p < sz")
    case True
    have "read_ring f ?h (unat ?n) = p" using read_ring_at[OF r, of "length p"] True n h by simp
    moreover have "?h + ucast ?n = ring_addr sz f (ho + length p)" using ring_addr_plus[OF True, of f] h u by simp
    moreover have "?h + ucast ?n < va_end (rfifo f)" using uhn ue True by (simp add: word_less_nat_alt)
    ultimately show ?thesis using adv by (simp add: getNextPacketWrap_def Let_def)
  next
    case False
    let ?e = "va_end (rfifo f) - ?h"
    have e: "unat ?e = sz - ho" using uh ue ho by (subst unat_sub) (simp_all add: word_le_nat_alt)
    have s: "unat (ucast ?n - ?e) = length p - (sz - ho)"
      unfolding u using e ul False by (subst unat_sub) (simp_all add: word_le_nat_alt)
    have "(ho + length p) mod sz = ho + length p - sz" using False ho lp G(1) by (subst le_mod_geq) simp_all
    then have m: "(ho + length p) mod sz = length p - (sz - ho)" using False ho by linarith
    have a1: "read_ring f ?h (unat ?e) = take (sz - ho) p"
      using read_ring_at[OF r, of "sz - ho"] False ho h e by simp
    have a2: "read_ring f (va_start (rfifo f)) (unat (ucast ?n - ?e)) = drop (sz - ho) p"
    proof (rule nth_equalityI)
      fix i assume "i < length (read_ring f (va_start (rfifo f)) (unat (ucast ?n - ?e)))"
      then have i: "i < length p - (sz - ho)" using s by (simp add: read_ring_def)
      then have "sz - ho + i < length (concat (p # ps))" using False ho by simp
      then have "ring f (ring_addr sz f (ho + (sz - ho + i))) = concat (p # ps) ! (sz - ho + i)"
        using r by (simp only: rec_at_def)
      moreover have "ring_addr sz f (ho + (sz - ho + i)) = va_start (rfifo f) + of_nat i"
      proof -
        have "i < sz" "ho + (sz - ho + i) = sz + i" using i ho lp G(1) by linarith+
        then show ?thesis by (simp add: ring_addr_def)
      qed
      moreover have "sz - ho + i < length p" using i by linarith
      ultimately show "read_ring f (va_start (rfifo f)) (unat (ucast ?n - ?e)) ! i = drop (sz - ho) p ! i"
        using i s by (simp add: read_ring_def nth_append)
    qed (use s in \<open>simp add: read_ring_def\<close>)
    have "(ucast ?n - ?e) = of_nat (length p - (sz - ho))"
      using s unat_of_nat_u64[of "length p - (sz - ho)"] lp by (simp add: word_unat_eq_iff)
    then have "va_start (rfifo f) + (ucast ?n - ?e) = ring_addr sz f (ho + length p)" by (simp add: ring_addr_def m)
    moreover have "\<not> ?h + ucast ?n < va_end (rfifo f)" using uhn ue False by (simp add: word_less_nat_alt)
    ultimately show ?thesis using adv a1 a2 by (simp add: getNextPacketWrap_def Let_def)
  qed
qed

lemma sync_head:
  assumes r: "rec_at sz ho pkts f"
  shows "\<exists>f1. MUSPI_syncRecFifoHwHead f = Some f1 \<and> rec_at sz ho pkts f1 \<and>
    hw_pa_head (rfifo f1) = pa_start (rfifo f1) + of_nat ho"
proof -
  have g: "ring_geometry sz (rfifo f)" and ho: "ho < sz" and h: "va_head (rfifo f) = ring_addr sz f ho"
    using r by (auto simp: rec_at_def)
  then have G: "sz < 2 ^ 32" "size_1 (rfifo f) = of_nat (sz - 1)" by (auto simp: ring_geometry_def)
  have d: "va_head (rfifo f) - va_start (rfifo f) = of_nat ho" using h ho by (simp add: ring_addr_def)
  have "unat (of_nat ho :: u64) = ho" by (rule unat_of_nat_u64) (use G ho in simp)
  moreover have "unat (of_nat (sz - 1) :: u64) = sz - 1" by (rule unat_of_nat_u64) (use G ho in simp)
  ultimately have "of_nat ho \<le> size_1 (rfifo f)" unfolding G(2) word_le_nat_alt using ho by linarith
  then show ?thesis using r
    by (simp add: MUSPI_syncRecFifoHwHead_def MUSPI_setHwHead_def d rec_at_tail_field)
qed

lemma fifo_poll_round_rep:
  assumes r: "rec_at sz ho pkts f" and ne: "pkts \<noteq> []"
    and c: "if w then sz \<le> ho + 544 else to_tail sz ho (unat tot) pkts f \<or> before_end sz ho (unat tot) pkts"
    and t: "tot \<noteq> 0"
  shows "\<exists>qs rs f' ho'. pkts = qs @ rs \<and> qs \<noteq> [] \<and> rec_at sz ho' rs f' \<and> hw_pa_head (rfifo f') = pa_start (rfifo f') + of_nat ho' \<and>
    fifo_poll_round handle tot w n f s =
      (case handle_all handle qs s of None \<Rightarrow> None | Some s1 \<Rightarrow> Some (n + of_nat (length qs), f', s1))"
proof (cases w)
  case True
  obtain p ps where p: "pkts = p # ps" using ne by (cases pkts) auto
  obtain b f1 where W: "getNextPacketWrap f = (p, b, f1)" "rec_at sz ((ho + length p) mod sz) ps f1"
    using get_next_wrap[OF r[unfolded p]] by blast
  from sync_head[OF W(2)] obtain f2 where S: "MUSPI_syncRecFifoHwHead f1 = Some f2"
    "rec_at sz ((ho + length p) mod sz) ps f2" "hw_pa_head (rfifo f2) = pa_start (rfifo f2) + of_nat ((ho + length p) mod sz)" by blast
  have e: "fifo_poll_round handle tot w n f s =
      (case handle_all handle [p] s of None \<Rightarrow> None | Some s1 \<Rightarrow> Some (n + of_nat (length [p]), f2, s1))"
    using True W(1) S(1) by (simp add: fifo_poll_round_def split: option.splits)
  show ?thesis
    by (rule exI[of _ "[p]"], rule exI[of _ ps], rule exI[of _ f2], rule exI[of _ "(ho + length p) mod sz"])
      (use p S e in simp)
next
  case False
  have L: "length (concat pkts) < sz" "sz < 2 ^ 32" using r by (auto simp: rec_at_def ring_geometry_def)
  have c': "to_tail sz ho (unat tot) pkts f \<or> before_end sz ho (unat tot) pkts" using c False by simp
  have z: "unat tot = unat tot - unat (0 :: u32)" "unat (0 :: u32) + length (concat pkts) < 2 ^ 32" using L by simp_all
  from fifo_poll_packets_rep[OF r z c', of handle n s] obtain qs rs f1 ho' where
    P: "pkts = qs @ rs" "rec_at sz ho' rs f1" "0 < unat tot \<longrightarrow> qs \<noteq> []"
      "fifo_poll_packets handle tot 0 n f s =
       (case handle_all handle qs s of None \<Rightarrow> None | Some s1 \<Rightarrow> Some (n + of_nat (length qs), f1, s1))"
    by (elim exE conjE) (rule that, assumption+)
  from sync_head[OF P(2)] obtain f2 where S: "MUSPI_syncRecFifoHwHead f1 = Some f2" "rec_at sz ho' rs f2"
    "hw_pa_head (rfifo f2) = pa_start (rfifo f2) + of_nat ho'" by blast
  have "fifo_poll_round handle tot w n f s =
      (case handle_all handle qs s of None \<Rightarrow> None | Some s1 \<Rightarrow> Some (n + of_nat (length qs), f2, s1))"
    using False P(4) S(1) by (auto simp: fifo_poll_round_def split: option.splits)
  then show ?thesis using P(1-3) S t
    by (intro exI[of _ qs] exI[of _ rs] exI[of _ f2] exI[of _ ho']) (simp add: unat_gt_0)
qed

lemma fifo_poll_loop_drains:
  "rec_at sz ho pkts f \<Longrightarrow> \<exists>f' ho'. rec_at sz ho' [] f' \<and> fifo_poll_loop handle n f s =
    (case handle_all handle pkts s of None \<Rightarrow> None | Some s1 \<Rightarrow> Some (n + of_nat (length pkts), f', s1))"
proof (induction "length pkts" arbitrary: pkts ho f n s rule: less_induct)
  case less
  from get_available[OF less.prems] obtain tot w f1 where A: "MUSPI_getAvailableBytes f = Some (tot, w, f1)"
    "rec_at sz ho pkts f1" "tot = 0 \<longleftrightarrow> pkts = []"
    "pkts \<noteq> [] \<longrightarrow> (if w then sz \<le> ho + 544 else to_tail sz ho (unat tot) pkts f1 \<or> before_end sz ho (unat tot) pkts)" by blast
  show ?case
  proof (cases "pkts = []")
    case True
    then show ?thesis using A by (intro exI[of _ f1] exI[of _ ho]) (subst fifo_poll_loop.simps, simp)
  next
    case False
    from A(3,4) False have nz: "tot \<noteq> 0" and cd: "if w then sz \<le> ho + 544 else to_tail sz ho (unat tot) pkts f1 \<or> before_end sz ho (unat tot) pkts"
      by auto
    from fifo_poll_round_rep[OF A(2) False cd nz, of handle n s] obtain qs rs f2 ho' where
      R: "pkts = qs @ rs" "qs \<noteq> []" "rec_at sz ho' rs f2"
      "fifo_poll_round handle tot w n f1 s =
        (case handle_all handle qs s of None \<Rightarrow> None | Some s1 \<Rightarrow> Some (n + of_nat (length qs), f2, s1))" by blast
    have "length rs < length pkts" using R(1,2) by simp
    note IH = less.hyps[OF this R(3)]
    show ?thesis
    proof (cases "handle_all handle qs s")
      case None
      from IH[of n s] obtain f' k where "rec_at sz k [] f'" by blast
      then show ?thesis using A(1) nz R(4) None
        by (intro exI[of _ f'] exI[of _ k]) (subst fifo_poll_loop.simps, simp add: R(1) handle_all_append)
    next
      case (Some s1)
      from IH[of "n + of_nat (length qs)" s1] obtain f' k where
        I: "rec_at sz k [] f'" "fifo_poll_loop handle (n + of_nat (length qs)) f2 s1 =
          (case handle_all handle rs s1 of None \<Rightarrow> None | Some s2 \<Rightarrow> Some (n + of_nat (length qs) + of_nat (length rs), f', s2))" by blast
      have "fifo_poll_loop handle n f s = fifo_poll_loop handle (n + of_nat (length qs)) f2 s1"
        using A(1) nz R(4) Some by (subst fifo_poll_loop.simps) simp
      then show ?thesis using I Some
        by (intro exI[of _ f'] exI[of _ k]) (auto simp: R(1) handle_all_append add.assoc split: option.splits)
    qed
  qed
qed

section \<open>The ring shared with the message unit\<close>

text \<open>
  The message unit stores a packet at its tail, around the end of the memory, and moves the tail;
  it does so only when the packet leaves room up to the head it was last told.
\<close>

definition hw_offset :: "u64 \<Rightarrow> recfifo \<Rightarrow> nat" where
  "hw_offset a f = unat (a - pa_start (rfifo f))"

definition hw_used :: "nat \<Rightarrow> recfifo \<Rightarrow> nat" where
  "hw_used sz f = (hw_offset (hw_pa_tail (rfifo f)) f + sz - hw_offset (hw_pa_head (rfifo f)) f) mod sz"

definition hw_arrive :: "nat \<Rightarrow> u8 list \<Rightarrow> recfifo \<Rightarrow> recfifo" where
  "hw_arrive sz p f =
     (let t = hw_offset (hw_pa_tail (rfifo f)) f
      in f\<lparr>rfifo := (rfifo f)\<lparr>hw_pa_tail := pa_start (rfifo f) + of_nat ((t + length p) mod sz)\<rparr>,
           ring := (\<lambda>a. let k = unat (a - va_start (rfifo f)); i = (k + sz - t) mod sz
                        in if k < sz \<and> i < length p then p ! i else ring f a)\<rparr>)"

inductive rec_sys ::
  "nat \<Rightarrow> (u8 list \<Rightarrow> 's \<Rightarrow> 's option) \<Rightarrow> recfifo \<Rightarrow> 's \<Rightarrow> recfifo \<Rightarrow> 's \<Rightarrow> u8 list list \<Rightarrow> bool"
  for sz handle f0 s0 where
  rec_init: "rec_sys sz handle f0 s0 f0 s0 []"
| rec_arrive: "rec_sys sz handle f0 s0 f s ps \<Longrightarrow> packet_ok p \<Longrightarrow> hw_used sz f + length p < sz \<Longrightarrow>
    rec_sys sz handle f0 s0 (hw_arrive sz p f) s (ps @ [p])"
| rec_round: "rec_sys sz handle f0 s0 f s ps \<Longrightarrow> MUSPI_getAvailableBytes f = Some (tot, w, f1) \<Longrightarrow> tot \<noteq> 0 \<Longrightarrow>
    fifo_poll_round handle tot w n f1 s = Some (n', f2, s') \<Longrightarrow> rec_sys sz handle f0 s0 f2 s' ps"

lemma ring_distance:
  assumes "0 < n"
  shows "int ((a mod n + n - b mod n) mod n) = (int a - int b) mod int n"
proof -
  have "b mod n \<le> a mod n + n" using assms by (meson le_trans less_imp_le mod_less_divisor trans_le_add2 order_refl)
  then have "int (a mod n + n - b mod n) = int a mod int n + int n - int b mod int n" by (simp add: of_nat_diff zmod_int)
  then have "int ((a mod n + n - b mod n) mod n) = (int a mod int n + int n - int b mod int n) mod int n" by (simp add: zmod_int)
  also have "\<dots> = (int a - int b) mod int n"
    by (metis add.commute add_diff_eq mod_add_self1 mod_diff_eq)
  finally show ?thesis .
qed

lemma hw_arrive_rep:
  assumes r: "rec_at sz ho pkts f" and h: "hw_pa_head (rfifo f) = pa_start (rfifo f) + of_nat ho"
    and p: "packet_ok p" "hw_used sz f + length p < sz"
  shows "rec_at sz ho (pkts @ [p]) (hw_arrive sz p f)"
    "hw_pa_head (rfifo (hw_arrive sz p f)) = pa_start (rfifo (hw_arrive sz p f)) + of_nat ho"
proof -
  let ?L = "length (concat pkts)" and ?f = "hw_arrive sz p f"
  have g: "ring_geometry sz (rfifo f)" and ho: "ho < sz" and L: "?L < sz" using r by (auto simp: rec_at_def)
  have G: "0 < sz" "sz < 2 ^ 32" using g by (auto simp: ring_geometry_def)
  have u: "unat (of_nat k :: u64) = k" if "k < sz" for k using that G(2) by (intro unat_of_nat_u64) simp
  have t: "hw_offset (hw_pa_tail (rfifo f)) f = (ho + ?L) mod sz" using r u G(1) by (simp add: hw_offset_def rec_at_def)
  have o: "hw_offset (hw_pa_head (rfifo f)) f = ho mod sz" using h u ho by (simp add: hw_offset_def)
  have "int (hw_used sz f) = int ?L mod int sz"
    using ring_distance[OF G(1), of "ho + ?L" ho] by (simp add: hw_used_def t o)
  then have used: "hw_used sz f = ?L" using L by (simp add: zmod_int[symmetric])
  then have fit: "?L + length p < sz" using p(2) by simp
  have ra: "ring_addr sz ?f k = ring_addr sz f k" for k by (simp add: ring_addr_def hw_arrive_def Let_def)
  have off: "unat (ring_addr sz f k - va_start (rfifo f)) = k mod sz" for k using u G(1) by (simp add: ring_addr_def)
  have rd: "ring ?f (ring_addr sz f (ho + i)) = concat (pkts @ [p]) ! i" if i: "i < ?L + length p" for i
  proof -
    have d: "int (((ho + i) mod sz + sz - (ho + ?L) mod sz) mod sz) = (int i - int ?L) mod int sz"
      using ring_distance[OF G(1), of "ho + i" "ho + ?L"] by simp
    have v: "ring ?f (ring_addr sz f (ho + i)) =
        (if ((ho + i) mod sz + sz - (ho + ?L) mod sz) mod sz < length p
         then p ! (((ho + i) mod sz + sz - (ho + ?L) mod sz) mod sz) else ring f (ring_addr sz f (ho + i)))"
      using G(1) by (simp add: hw_arrive_def Let_def t off)
    show ?thesis
    proof (cases "i < ?L")
      case True
      have "(int i - int ?L) mod int sz = (int i - int ?L + int sz) mod int sz" by simp
      also have "\<dots> = int i - int ?L + int sz" using True L by (intro mod_pos_pos_trivial) simp_all
      finally have "((ho + i) mod sz + sz - (ho + ?L) mod sz) mod sz = i + sz - ?L" using d True L by linarith
      moreover have "\<not> i + sz - ?L < length p" using fit by linarith
      ultimately have "ring ?f (ring_addr sz f (ho + i)) = ring f (ring_addr sz f (ho + i))" using v by simp
      then show ?thesis using r True by (simp add: rec_at_def nth_append)
    next
      case False
      then have "(int i - int ?L) mod int sz = int i - int ?L" using i fit by (intro mod_pos_pos_trivial) simp_all
      then have "((ho + i) mod sz + sz - (ho + ?L) mod sz) mod sz = i - ?L" using d False by linarith
      moreover have "i - ?L < length p" using i False by linarith
      ultimately show ?thesis using v False by (simp add: nth_append)
    qed
  qed
  have tl: "hw_pa_tail (rfifo ?f) = pa_start (rfifo f) + of_nat ((ho + length (concat (pkts @ [p]))) mod sz)"
    by (simp add: hw_arrive_def Let_def t mod_add_left_eq add.assoc)
  have f: "va_head (rfifo ?f) = va_head (rfifo f)" "pa_start (rfifo ?f) = pa_start (rfifo f)"
    "ring_geometry sz (rfifo ?f) = ring_geometry sz (rfifo f)" "hw_pa_head (rfifo ?f) = hw_pa_head (rfifo f)"
    by (simp_all add: hw_arrive_def Let_def ring_geometry_def)
  show "rec_at sz ho (pkts @ [p]) ?f"
    unfolding rec_at_def ra f tl using r fit p(1) rd by (simp add: rec_at_def)
  show "hw_pa_head (rfifo ?f) = pa_start (rfifo ?f) + of_nat ho" using h f by simp
qed

lemma rec_sys_inv:
  assumes "rec_sys sz handle f0 s0 f s ps" "rec_at sz 0 [] f0" "hw_pa_head (rfifo f0) = pa_start (rfifo f0)"
  shows "\<exists>ds rs ho. ps = ds @ rs \<and> handle_all handle ds s0 = Some s \<and> rec_at sz ho rs f \<and>
    hw_pa_head (rfifo f) = pa_start (rfifo f) + of_nat ho"
  using assms(1)
proof (induction rule: rec_sys.induct)
  case rec_init
  show ?case by (rule exI[of _ "[]"], rule exI[of _ "[]"], rule exI[of _ 0]) (use assms in simp)
next
  case (rec_arrive f s ps p)
  then obtain ds rs ho where I: "ps = ds @ rs" "handle_all handle ds s0 = Some s" "rec_at sz ho rs f"
    "hw_pa_head (rfifo f) = pa_start (rfifo f) + of_nat ho" by blast
  from hw_arrive_rep[OF I(3,4) rec_arrive.hyps(2,3)] I(1,2) show ?case
    by (intro exI[of _ ds] exI[of _ "rs @ [p]"] exI[of _ ho]) simp
next
  case (rec_round f s ps tot w f1 n n' f2 s')
  then obtain ds rs ho where I: "ps = ds @ rs" "handle_all handle ds s0 = Some s" "rec_at sz ho rs f" by blast
  from get_available[OF I(3)] rec_round.hyps(2,3) have A: "rec_at sz ho rs f1" "rs \<noteq> []"
    "if w then sz \<le> ho + 544 else to_tail sz ho (unat tot) rs f1 \<or> before_end sz ho (unat tot) rs" by auto
  from fifo_poll_round_rep[OF A rec_round.hyps(3), of handle n s] obtain qs rs' f' ho' where
    R: "rs = qs @ rs'" "rec_at sz ho' rs' f'" "hw_pa_head (rfifo f') = pa_start (rfifo f') + of_nat ho'"
    "fifo_poll_round handle tot w n f1 s =
      (case handle_all handle qs s of None \<Rightarrow> None | Some s1 \<Rightarrow> Some (n + of_nat (length qs), f', s1))" by blast
  with rec_round.hyps(4) have "handle_all handle qs s = Some s'" "f' = f2" by (auto split: option.splits)
  with R I show ?case by (intro exI[of _ "ds @ qs"] exI[of _ rs'] exI[of _ ho']) (simp add: handle_all_append)
qed

section \<open>Properties\<close>

text \<open>
  C15: the reception ring is a queue.  In every interleaving of packets the message unit stores with
  rounds of the poll loop, starting from an empty ring, the packets that arrived are those handed to
  the handler, in order, each whole (also one that wraps around the end of the memory) and each
  once, followed by those still in the ring, which the memory from the shadow head on holds byte by
  byte.
\<close>

theorem rec_ring_fifo:
  assumes "rec_sys sz handle f0 s0 f s ps" "rec_at sz 0 [] f0" "hw_pa_head (rfifo f0) = pa_start (rfifo f0)"
  shows "\<exists>ds rs ho. ps = ds @ rs \<and> handle_all handle ds s0 = Some s \<and>
    map (\<lambda>i. ring f (ring_addr sz f (ho + i))) [0..<length (concat rs)] = concat rs \<and>
    va_head (rfifo f) = ring_addr sz f ho"
proof -
  from rec_sys_inv[OF assms] obtain ds rs ho where I: "ps = ds @ rs" "handle_all handle ds s0 = Some s" "rec_at sz ho rs f" by blast
  have "map (\<lambda>i. ring f (ring_addr sz f (ho + i))) [0..<length (concat rs)] = concat rs"
    using I(3) by (intro nth_equalityI) (simp_all add: rec_at_def)
  with I show ?thesis by (intro exI[of _ ds] exI[of _ rs] exI[of _ ho]) (simp add: rec_at_def)
qed

text \<open>For the examples: an empty ring of 1088 bytes, and a packet of a header alone.\<close>

definition demo_ring :: recfifo where
  "demo_ring = \<lparr>rfifo = \<lparr>pa_start = 0x8000, va_start = 0x1000, size_1 = 1087, va_head = 0x1000, va_tail = 0x1000,
     va_end = 0x1440, hw_pa_head = 0x8000, hw_pa_tail = 0x8000\<rparr>, ring = (\<lambda>_. 0)\<rparr>"

definition demo_packet :: "u8 list" where
  "demo_packet = replicate 32 0"

lemma demo_ring_at: "rec_at 1088 0 [] demo_ring"
  by (simp add: rec_at_def ring_geometry_def ring_addr_def demo_ring_def)

lemma demo_packet_ok: "packet_ok demo_packet"
  by (simp add: packet_ok_def demo_packet_def packet_bytes_def)

lemma demo_arrive: "hw_used 1088 demo_ring + length demo_packet < 1088"
  by (simp add: hw_used_def hw_offset_def demo_ring_def demo_packet_def)

theorem rec_ring_fifo_witness:
  "\<exists>ds rs. [demo_packet] = ds @ rs \<and> handle_all (\<lambda>p s. Some (s @ [p])) ds [] = Some [] \<and>
     rec_sys 1088 (\<lambda>p s. Some (s @ [p])) demo_ring [] (hw_arrive 1088 demo_packet demo_ring) [] [demo_packet]"
proof -
  have s: "rec_sys 1088 (\<lambda>p s. Some (s @ [p])) demo_ring [] (hw_arrive 1088 demo_packet demo_ring) [] ([] @ [demo_packet])"
    by (rule rec_arrive[OF rec_init demo_packet_ok demo_arrive])
  have h: "hw_pa_head (rfifo demo_ring) = pa_start (rfifo demo_ring)" by (simp add: demo_ring_def)
  from rec_ring_fifo[OF s demo_ring_at h] s show ?thesis by auto
qed

end
