(* ===== verification/Mudm_Recv.thy ===== *)
theory Mudm_Recv
  imports Mudm_Handshake Mudm_Send Mu_RecFifo
begin

text \<open>
  The receive path of \<^verbatim>\<open>bgmudm/mudm.c\<close>: a packet in the reception FIFO as the bytes the network
  delivers, its dispatch to a handler (\<^verbatim>\<open>mudm_recv_packet\<close>), the descriptors a peer sends to be
  injected here (\<^verbatim>\<open>multi_directput\<close>), and the rejection of a packet the user refuses.  As before
  the result \<open>None\<close> stands for a failed assertion, a \<^verbatim>\<open>NULL\<close> pointer followed or a loop that does
  not end.  The counter \<^verbatim>\<open>memfifoRecvCount\<close>, the flight recorder and the RAS messages are output
  only and left out.
\<close>

section \<open>Packets on the wire\<close>

text \<open>
  The layouts of \<^verbatim>\<open>MU_Pt2PtNetworkHeader.h\<close>, \<^verbatim>\<open>MU_MessageUnitHeader.h\<close> and \<^verbatim>\<open>MU_Descriptor.h\<close>,
  big-endian, bit fields from the high bits down.  Bytes 9 and 10 belong to the hardware.
\<close>

definition net_bytes :: "net_header \<Rightarrow> u8 list" where
  "net_bytes h = [Data_Packet_Type h, Byte1 h, Byte2 h, Byte3 h] @ be_bytes 4 (Destination h) @ [Byte8 h, 0, 0, Skip h]"

definition net_of_bytes :: "u8 list \<Rightarrow> net_header" where
  "net_of_bytes bs = \<lparr>Data_Packet_Type = bs ! 0, Byte1 = bs ! 1, Byte2 = bs ! 2, Byte3 = bs ! 3,
     Destination = be_word (read_at 4 4 bs), Byte8 = bs ! 8, Skip = bs ! 11\<rparr>"

definition sw_bytes :: "ionet_header \<Rightarrow> u8 list" where
  "sw_bytes h = be_bytes 2 (sequence_number h) @ be_bytes 4 (torus_source_node h) @ be_bytes 4 (torus_dest_node h) @
     be_bytes 2 (payload_length h) @ be_bytes 2 (ptype h) @ be_bytes 2 (source_qpn h) @ be_bytes 2 (dest_qpn h)"

definition sw_of_bytes :: "u8 list \<Rightarrow> ionet_header" where
  "sw_of_bytes bs = \<lparr>sequence_number = be_word (read_at 0 2 bs), torus_source_node = be_word (read_at 2 4 bs),
     torus_dest_node = be_word (read_at 6 4 bs), payload_length = be_word (read_at 10 2 bs),
     ptype = be_word (read_at 12 2 bs), source_qpn = be_word (read_at 14 2 bs), dest_qpn = be_word (read_at 16 2 bs)\<rparr>"

definition memfifo_bytes :: "memory_fifo \<Rightarrow> u8 list" where
  "memfifo_bytes m = be_bytes 2 (push_bit 6 (ucast (Rec_FIFO_Id m)) OR push_bit 5 (ucast (mf_Unused1 m)) OR
       ucast (mf_Put_Offset_MSB m) :: u16) @ sw_bytes (SoftwareBytes m)"

definition memfifo_of_bytes :: "u8 list \<Rightarrow> memory_fifo" where
  "memfifo_of_bytes bs = (let w = be_word (read_at 0 2 bs) :: u16
     in \<lparr>Rec_FIFO_Id = ucast (drop_bit 6 w), mf_Unused1 = ucast (drop_bit 5 w), mf_Put_Offset_MSB = ucast w,
         SoftwareBytes = sw_of_bytes (read_at 2 18 bs)\<rparr>)"

definition wire_bytes :: "mu_packet \<Rightarrow> u8 list" where
  "wire_bytes p = net_bytes (pk_net p) @ memfifo_bytes (pk_muh p) @ pk_payload p"

definition pkt_of_bytes :: "u8 list \<Rightarrow> mu_packet" where
  "pkt_of_bytes bs = \<lparr>pk_net = net_of_bytes bs, pk_muh = memfifo_of_bytes (read_at 12 20 bs), pk_payload = drop 32 bs\<rparr>"

definition dput_hdr_bytes :: "direct_put_hdr \<Rightarrow> u8 list" where
  "dput_hdr_bytes h = be_bytes 2 (push_bit 6 (ucast (Rec_Payload_Base_Address_Id h)) OR push_bit 5 (ucast (Pacing h)) OR
       ucast (Put_Offset_MSB h) :: u16) @ be_bytes 4 (Put_Offset_LSB h) @
     be_bytes 2 (ucast (Rec_Counter_Base_Address_Id h) :: u16) @ [0, 0, 0, 0] @ be_bytes 8 (Counter_Offset h)"

definition dput_hdr_of_bytes :: "u8 list \<Rightarrow> direct_put_hdr" where
  "dput_hdr_of_bytes bs = (let w = be_word (read_at 0 2 bs) :: u16
     in \<lparr>Rec_Payload_Base_Address_Id = ucast (drop_bit 6 w), Pacing = ucast (drop_bit 5 w), Put_Offset_MSB = ucast w,
         Put_Offset_LSB = be_word (read_at 2 4 bs), Rec_Counter_Base_Address_Id = ucast (be_word (read_at 6 2 bs) :: u16),
         Counter_Offset = be_word (read_at 12 8 bs)\<rparr>)"

text \<open>A descriptor of 64 bytes; its packet type tells which view of the header it was built with.\<close>

definition desc_bytes :: "('h \<Rightarrow> u8 list) \<Rightarrow> 'h descriptor \<Rightarrow> u8 list" where
  "desc_bytes view d = be_bytes 4 (Half_Word0 d) @ be_bytes 4 (Half_Word1 d) @ be_bytes 8 (Pa_Payload d) @
     be_bytes 8 (Message_Length d) @ be_bytes 8 (Torus_FIFO_Map d) @ net_bytes (NetworkHeader d) @ view (muh d)"

definition desc_fields :: "(u8 list \<Rightarrow> 'h) \<Rightarrow> u8 list \<Rightarrow> 'h descriptor" where
  "desc_fields view bs = \<lparr>Half_Word0 = be_word (read_at 0 4 bs), Half_Word1 = be_word (read_at 4 4 bs),
     Pa_Payload = be_word (read_at 8 8 bs), Message_Length = be_word (read_at 16 8 bs),
     Torus_FIFO_Map = be_word (read_at 24 8 bs), NetworkHeader = net_of_bytes (read_at 32 12 bs),
     muh = view (read_at 44 20 bs)\<rparr>"

definition inj_bytes :: "inj_desc \<Rightarrow> u8 list" where
  "inj_bytes d = (case d of MemFifoDesc m \<Rightarrow> desc_bytes memfifo_bytes m | DirectPutDesc m \<Rightarrow> desc_bytes dput_hdr_bytes m)"

definition desc_of_bytes :: "u8 list \<Rightarrow> inj_desc" where
  "desc_of_bytes bs =
     (if (bs ! 40) AND 0xC0 = MUHWI_PACKET_TYPE_PUT then DirectPutDesc (desc_fields dput_hdr_of_bytes bs)
      else MemFifoDesc (desc_fields memfifo_of_bytes bs))"

text \<open>The packet type in byte 8 of the network header agrees with the view.\<close>

fun typed_desc :: "inj_desc \<Rightarrow> bool" where
  "typed_desc (DirectPutDesc d) \<longleftrightarrow> Byte8 (NetworkHeader d) AND 0xC0 = MUHWI_PACKET_TYPE_PUT"
| "typed_desc (MemFifoDesc d) \<longleftrightarrow> Byte8 (NetworkHeader d) AND 0xC0 \<noteq> MUHWI_PACKET_TYPE_PUT"

lemma length_wire [simp]:
  "length (net_bytes h) = 12" "length (sw_bytes s) = 18" "length (memfifo_bytes m) = 20" "length (dput_hdr_bytes d) = 20"
  "length (wire_bytes p) = 32 + length (pk_payload p)" "length (inj_bytes i) = 64"
  by (simp_all add: net_bytes_def sw_bytes_def memfifo_bytes_def dput_hdr_bytes_def wire_bytes_def inj_bytes_def
    desc_bytes_def del: be_bytes.simps split: inj_desc.split)

lemma net_roundtrip: "net_of_bytes (net_bytes h @ xs) = h"
  by (cases h) (simp add: net_of_bytes_def net_bytes_def read_at_def nth_append del: be_bytes.simps)

lemma sw_roundtrip: "sw_of_bytes (sw_bytes h) = h"
  by (cases h) (simp add: sw_of_bytes_def sw_bytes_def read_at_def del: be_bytes.simps)

text \<open>The 16 bits in front of both views: ten bits (or a reserved bit and nine), one, and five.\<close>

lemma fields16:
  fixes a :: "'a::len word" and b :: "1 word" and c :: "5 word"
  assumes "LENGTH('a) \<le> 10"
  defines "w \<equiv> push_bit 6 (ucast a) OR push_bit 5 (ucast b) OR ucast c :: u16"
  shows "ucast (drop_bit 6 w) = a" "ucast (drop_bit 5 w) = b" "ucast w = c"
proof -
  have o: "\<not> bit b (Suc n)" "\<not> bit c (6 + n)" "\<not> bit c 5" for n
    using bit_imp_le_length[of b "Suc n"] bit_imp_le_length[of c "6 + n"] bit_imp_le_length[of c 5] by auto
  show "ucast (drop_bit 6 w) = a" "ucast (drop_bit 5 w) = b" "ucast w = c"
    unfolding w_def using assms(1) o by (auto intro!: bit_word_eqI simp: bit_simps)
qed

lemma memfifo_roundtrip: "memfifo_of_bytes (memfifo_bytes m) = m"
proof -
  define w :: u16 where "w = push_bit 6 (ucast (Rec_FIFO_Id m)) OR push_bit 5 (ucast (mf_Unused1 m)) OR ucast (mf_Put_Offset_MSB m)"
  have b: "memfifo_bytes m = be_bytes 2 w @ sw_bytes (SoftwareBytes m)" by (simp add: memfifo_bytes_def w_def)
  have f: "ucast (drop_bit 6 w) = Rec_FIFO_Id m" "ucast (drop_bit 5 w) = mf_Unused1 m" "ucast w = mf_Put_Offset_MSB m"
    unfolding w_def by (rule fields16; simp)+
  have r: "read_at 0 2 (memfifo_bytes m) = be_bytes 2 w" "read_at 2 18 (memfifo_bytes m) = sw_bytes (SoftwareBytes m)"
    unfolding b by (simp_all add: read_at_def del: be_bytes.simps)
  show ?thesis unfolding memfifo_of_bytes_def r by (simp add: f sw_roundtrip Let_def del: be_bytes.simps)
qed

lemma wire_roundtrip: "pkt_of_bytes (wire_bytes p) = p"
proof -
  have "read_at 12 20 (wire_bytes p) = memfifo_bytes (pk_muh p)" "drop 32 (wire_bytes p) = pk_payload p"
    by (simp_all add: wire_bytes_def read_at_def)
  then show ?thesis by (simp add: pkt_of_bytes_def memfifo_roundtrip) (simp add: wire_bytes_def net_roundtrip)
qed

lemma dput_hdr_roundtrip: "dput_hdr_of_bytes (dput_hdr_bytes h) = h"
proof -
  define w :: u16 where "w = push_bit 6 (ucast (Rec_Payload_Base_Address_Id h)) OR push_bit 5 (ucast (Pacing h)) OR ucast (Put_Offset_MSB h)"
  have b: "dput_hdr_bytes h = be_bytes 2 w @ be_bytes 4 (Put_Offset_LSB h) @
     be_bytes 2 (ucast (Rec_Counter_Base_Address_Id h) :: u16) @ [0, 0, 0, 0] @ be_bytes 8 (Counter_Offset h)"
    by (simp add: dput_hdr_bytes_def w_def)
  have f: "ucast (drop_bit 6 w) = Rec_Payload_Base_Address_Id h" "ucast (drop_bit 5 w) = Pacing h" "ucast w = Put_Offset_MSB h"
    unfolding w_def by (rule fields16; simp)+
  have c: "(ucast (ucast (Rec_Counter_Base_Address_Id h) :: u16) :: 10 word) = Rec_Counter_Base_Address_Id h"
    by (rule bit_word_eqI) (simp add: bit_simps)
  have r: "read_at 0 2 (dput_hdr_bytes h) = be_bytes 2 w" "read_at 2 4 (dput_hdr_bytes h) = be_bytes 4 (Put_Offset_LSB h)"
    "read_at 6 2 (dput_hdr_bytes h) = be_bytes 2 (ucast (Rec_Counter_Base_Address_Id h) :: u16)"
    "read_at 12 8 (dput_hdr_bytes h) = be_bytes 8 (Counter_Offset h)"
    unfolding b by (simp_all add: read_at_def del: be_bytes.simps)
  show ?thesis unfolding dput_hdr_of_bytes_def r by (simp add: f c Let_def del: be_bytes.simps)
qed

lemma desc_fields_roundtrip:
  assumes "view (hb (muh d)) = muh d" "length (hb (muh d)) = 20"
  shows "desc_fields view (desc_bytes hb d) = d" "desc_bytes hb d ! 40 = Byte8 (NetworkHeader d)"
proof -
  have "read_at 32 12 (desc_bytes hb d) = net_bytes (NetworkHeader d)" "read_at 44 20 (desc_bytes hb d) = hb (muh d)"
    "read_at 0 4 (desc_bytes hb d) = be_bytes 4 (Half_Word0 d)" "read_at 4 4 (desc_bytes hb d) = be_bytes 4 (Half_Word1 d)"
    "read_at 8 8 (desc_bytes hb d) = be_bytes 8 (Pa_Payload d)" "read_at 16 8 (desc_bytes hb d) = be_bytes 8 (Message_Length d)"
    "read_at 24 8 (desc_bytes hb d) = be_bytes 8 (Torus_FIFO_Map d)"
    using assms(2) by (simp_all add: desc_bytes_def read_at_def del: be_bytes.simps)
  moreover have "net_of_bytes (net_bytes h) = h" for h using net_roundtrip[of h "[]"] by simp
  ultimately show "desc_fields view (desc_bytes hb d) = d"
    using assms(1) by (simp add: desc_fields_def del: be_bytes.simps)
  show "desc_bytes hb d ! 40 = Byte8 (NetworkHeader d)"
    by (simp add: desc_bytes_def net_bytes_def nth_append del: be_bytes.simps)
qed

lemma inj_roundtrip: "typed_desc i \<Longrightarrow> desc_of_bytes (inj_bytes i) = i"
  using desc_fields_roundtrip[of memfifo_of_bytes memfifo_bytes, OF memfifo_roundtrip]
    desc_fields_roundtrip[of dput_hdr_of_bytes dput_hdr_bytes, OF dput_hdr_roundtrip]
  by (cases i) (simp_all add: desc_of_bytes_def inj_bytes_def)

section \<open>Constants\<close>

definition MUDM_DPUT :: u16 where "MUDM_DPUT = 0x5544"
definition MUDM_PKT_DATA_IMM :: u16 where "MUDM_PKT_DATA_IMM = 0x1bc1"
definition MUDM_CNK2CNK_FIFO :: u16 where "MUDM_CNK2CNK_FIFO = 0x1AA1"
definition MUDM_PKT_ERROR :: u16 where "MUDM_PKT_ERROR = 0xE000"
definition MUDM_PKT_ENOTCONN :: u16 where "MUDM_PKT_ENOTCONN = 0xE06B"
definition MUDM_PKT_EILSEQ :: u16 where "MUDM_PKT_EILSEQ = 0xE054"

lemmas recv_types = MUDM_DPUT_def MUDM_PKT_DATA_IMM_def MUDM_CNK2CNK_FIFO_def MUDM_PKT_ERROR_def MUDM_PKT_ENOTCONN_def
  MUDM_PKT_EILSEQ_def MUDM_PKT_DATA_REMOTE_def MUDM_CONN_REQUEST_def MUDM_CONN_REPLY_def MUDM_DISCONNECTED_def

section \<open>Descriptors from a peer\<close>

definition InjFifoInject_rget_emulation :: "hw \<Rightarrow> u8 list \<Rightarrow> mudm_injfifo \<Rightarrow> (u64 \<times> mudm_injfifo) option" where
  "InjFifoInject_rget_emulation h desc c = inject_desc h (Some (desc_of_bytes desc)) c"

text \<open>\<^verbatim>\<open>Size\<close> counts chunks of 32 bytes, of which a descriptor has two.\<close>

definition rget_descriptors :: "mu_packet \<Rightarrow> u8 list list" where
  "rget_descriptors p = map (\<lambda>i. read_at (64 * i) 64 (pk_payload p)) [0..<unat (drop_bit 1 (get_Size (pk_net p)))]"

fun rget_loop :: "hw \<Rightarrow> u8 list list \<Rightarrow> mudm_injfifo \<Rightarrow> mudm_injfifo option" where
  "rget_loop h [] c = Some c"
| "rget_loop h (desc # descs) c =
     (case InjFifoInject_rget_emulation h desc c of None \<Rightarrow> None | Some (desc_count, c1) \<Rightarrow> rget_loop h descs c1)"

definition multi_directput :: "hws \<Rightarrow> nat \<Rightarrow> mu_packet \<Rightarrow> my_context \<Rightarrow> my_context option" where
  "multi_directput hs l p mc =
     map_option (\<lambda>c. mc\<lparr>injfifo_ctls := (injfifo_ctls mc)(l := c)\<rparr>)
       (rget_loop (hs l) (rget_descriptors p) (injfifo_ctls mc l))"

section \<open>Rejecting\<close>

text \<open>\<^verbatim>\<open>-ENOTCONN\<close>, \<^verbatim>\<open>-EPROTO\<close> and \<^verbatim>\<open>-EILSEQ\<close> have a type of their own.\<close>

definition reject_type :: "int \<Rightarrow> u16" where
  "reject_type return_code =
     (if return_code = -107 then MUDM_PKT_ENOTCONN
      else if return_code = -71 \<or> return_code = -84 then MUDM_PKT_EILSEQ else MUDM_PKT_ERROR)"

definition reject_header :: "ionet_header \<Rightarrow> int \<Rightarrow> ionet_header" where
  "reject_header h return_code =
     \<lparr>sequence_number = sequence_number h, torus_source_node = torus_dest_node h, torus_dest_node = torus_source_node h,
      payload_length = ptype h, ptype = reject_type return_code, source_qpn = dest_qpn h, dest_qpn = source_qpn h\<rparr>"

definition reject_packet :: "hws \<Rightarrow> mu_packet \<Rightarrow> int \<Rightarrow> my_context \<Rightarrow> (ret \<times> my_context) option" where
  "reject_packet hs p return_code mc =
     (let sb = reject_header (pk_sw p) return_code;
          dir = set_direction_request (torus_source_node sb) (torus_dest_node sb)
      in if dir \<noteq> CN2IONODE then Some (RetErr ENOSYS, mc)
         else case InitPt2PtMemoryFIFODescriptor sb 0 0 (mybridgingCNnode mc) dir 0 (ucast (sys_rec_fifo_id mc 0)) of
                None \<Rightarrow> None
              | Some d \<Rightarrow> map_option (\<lambda>(desc_count, is). (RetOK, mc\<lparr>injfifo_ctls := is\<rparr>))
                  (on_link 0 (InjFifoInject (hs 0) (MemFifoDesc d)) (injfifo_ctls mc)))"

section \<open>Dispatch\<close>

text \<open>
  What the user and the broadcast component supply: the callback on a message (\<^verbatim>\<open>mcontext->recv\<close>,
  with the header and the payload behind it), the callback on a connection, and the handler of a
  collective packet.  The result of \<^verbatim>\<open>mudm_recv_packet\<close> is always 0; what its handlers return is
  dropped.
\<close>

record recv_env =
  env_recv :: "ionet_header \<Rightarrow> u8 list \<Rightarrow> my_context \<Rightarrow> (int \<times> my_context) option"
  env_recv_conn :: recv_conn
  env_recv_bcast :: "u8 list \<Rightarrow> my_context \<Rightarrow> my_context option"

definition mudm_recv_packet :: "hws \<Rightarrow> recv_env \<Rightarrow> u64 \<Rightarrow> mu_packet \<Rightarrow> my_context \<Rightarrow> my_context option" where
  "mudm_recv_packet hs e now p mc =
     (let h = pk_sw p; ty = ptype h in
      if ty = MUDM_DPUT then
        (if ucast (Rec_FIFO_Id (pk_muh p)) = sys_rec_fifo_id mc 0 then multi_directput hs 0 p mc
         else if 1 < NUM_IO_LINKS then multi_directput hs 1 p mc else Some mc)
      else if ty \<in> {MUDM_PKT_DATA_IMM, MUDM_PKT_DATA_REMOTE} then
        (case env_recv e h (pk_payload p) mc of
           None \<Rightarrow> None
         | Some (rc, mc1) \<Rightarrow> if rc < 0 then map_option snd (reject_packet hs p rc mc1) else Some mc1)
      else if ty = MUDM_CONN_REQUEST then map_option snd (connect_request now (env_recv_conn e) p mc)
      else if ty = MUDM_CONN_REPLY then map_option snd (connect_reply (env_recv_conn e) p mc)
      else if ty = MUDM_DISCONNECTED then map_option snd (disconnect_request (env_recv_conn e) p mc)
      else if ty = MUDM_CNK2CNK_FIFO then Some mc
      else if ty \<in> {MUDM_PKT_EILSEQ, MUDM_PKT_ERROR, MUDM_PKT_ENOTCONN} then Some mc
      else map_option snd (env_recv e h (pk_payload p) mc))"

text \<open>The handler of a packet in the poll loop; \<open>tb k\<close> is the time base when packet \<open>k\<close> is handled.\<close>

definition recv_any :: "hws \<Rightarrow> recv_env \<Rightarrow> (nat \<Rightarrow> u64) \<Rightarrow> u8 list \<Rightarrow> nat \<times> my_context \<Rightarrow> (nat \<times> my_context) option" where
  "recv_any hs e tb hdr s =
     map_option (Pair (Suc (fst s)))
       (if hdr ! 0 = 0x55 then mudm_recv_packet hs e (tb (fst s)) (pkt_of_bytes hdr) (snd s)
        else env_recv_bcast e hdr (snd s))"

definition mudm_fifo_poll ::
  "hws \<Rightarrow> recv_env \<Rightarrow> (nat \<Rightarrow> u64) \<Rightarrow> recfifo \<Rightarrow> nat \<times> my_context \<Rightarrow> (u64 \<times> recfifo \<times> nat \<times> my_context) option" where
  "mudm_fifo_poll hs e tb f s = fifo_poll_loop (recv_any hs e tb) 0 f s"

section \<open>What the peer's descriptors become\<close>

lemma rget_loop_total:
  assumes "hw_live h"
  shows "ctl_inv n c \<Longrightarrow> length (ctl_log c) + length ds < 2 ^ 63 \<Longrightarrow> \<forall>d \<in> set ds. typed_desc d \<Longrightarrow>
    \<exists>c'. rget_loop h (map inj_bytes ds) c = Some c' \<and> ctl_log c' = ctl_log c @ ds \<and> ctl_inv n c'"
proof (induction ds arbitrary: c)
  case Nil
  then show ?case by simp
next
  case (Cons d ds)
  from inject_desc_total[OF assms Cons.prems(1), of d] obtain c1 where
    I: "inject_desc h (Some d) c = Some (of_nat (Suc (length (ctl_log c))), c1)" "ctl_log c1 = ctl_log c @ [d]"
      "inj_inv n (injfifo c1)" by blast
  have "ctl_inv n c1" using I(2,3) Cons.prems(2) by (simp add: ctl_inv_def ctl_log_def)
  with Cons.IH[of c1] Cons.prems(2,3) I(2) obtain c' where
    "rget_loop h (map inj_bytes ds) c1 = Some c'" "ctl_log c' = ctl_log c1 @ ds" "ctl_inv n c'" by auto
  with I Cons.prems(3) show ?case by (auto simp: InjFifoInject_rget_emulation_def inj_roundtrip)
qed

lemma read_at_concat:
  assumes "\<forall>x \<in> set xs. length x = k" "i < length xs"
  shows "read_at (k * i) k (concat xs @ ys) = xs ! i"
  using assms
proof (induction xs arbitrary: i)
  case Nil
  then show ?case by simp
next
  case (Cons x xs)
  then show ?case by (cases i) (auto simp: read_at_def)
qed

text \<open>A packet whose payload starts with the descriptors \<open>ds\<close>, and whose \<^verbatim>\<open>Size\<close> says so.\<close>

definition carries_descs :: "inj_desc list \<Rightarrow> mu_packet \<Rightarrow> bool" where
  "carries_descs ds p \<longleftrightarrow> unat (get_Size (pk_net p)) = 2 * length ds \<and>
     (\<exists>pad. pk_payload p = concat (map inj_bytes ds) @ pad) \<and> (\<forall>d \<in> set ds. typed_desc d)"

lemma rget_descriptors_carried:
  assumes "carries_descs ds p"
  shows "rget_descriptors p = map inj_bytes ds"
proof -
  obtain pad where p: "pk_payload p = concat (map inj_bytes ds) @ pad" using assms by (auto simp: carries_descs_def)
  have "unat (drop_bit 1 (get_Size (pk_net p))) = drop_bit 1 (unat (get_Size (pk_net p)))" by (rule unat_drop_bit_eq)
  also have "\<dots> = length ds" using assms by (simp add: carries_descs_def drop_bit_eq_div)
  finally have n: "unat (drop_bit 1 (get_Size (pk_net p))) = length ds" .
  show ?thesis unfolding rget_descriptors_def n p
    by (intro nth_equalityI) (auto simp: read_at_concat)
qed

lemma multi_directput_total:
  assumes "carries_descs ds p" "hws_live hs" "ctl_inv n (injfifo_ctls mc l)"
    "length (ctl_log (injfifo_ctls mc l)) + length ds < 2 ^ 63"
  shows "\<exists>c'. multi_directput hs l p mc = Some (mc\<lparr>injfifo_ctls := (injfifo_ctls mc)(l := c')\<rparr>) \<and>
    ctl_log c' = ctl_log (injfifo_ctls mc l) @ ds \<and> ctl_inv n c'"
proof -
  have "hw_live (hs l)" "\<forall>d \<in> set ds. typed_desc d"
    using assms(1,2) by (auto simp: hws_live_def carries_descs_def)
  from rget_loop_total[OF this(1) assms(3,4) this(2)] show ?thesis
    unfolding multi_directput_def rget_descriptors_carried[OF assms(1)] by auto
qed

section \<open>The poll loop over received packets\<close>

definition pt2pt_packet :: "mu_packet \<Rightarrow> bool" where
  "pt2pt_packet p \<longleftrightarrow> Data_Packet_Type (pk_net p) = MUHWI_PT2PT_DATA_PACKET_TYPE \<and> length (pk_payload p) \<le> 512 \<and>
     length (pk_payload p) = 32 * unat (get_Size (pk_net p))"

lemma wire_type: "wire_bytes p ! 0 = Data_Packet_Type (pk_net p)" "wire_bytes p ! 8 = Byte8 (pk_net p)"
  by (simp_all add: wire_bytes_def net_bytes_def nth_append del: be_bytes.simps)

lemma pt2pt_packet_ok:
  assumes "pt2pt_packet p"
  shows "packet_ok (wire_bytes p)"
proof -
  let ?s = "get_Size (pk_net p)"
  have "(0x1f :: u8) = mask 5" by (simp add: mask_eq_exp_minus_1)
  then have "?s = take_bit 5 (Byte8 (pk_net p))" by (simp add: get_Size_def take_bit_eq_mask)
  then have "unat ?s < 2 ^ 5" by (simp add: unsigned_take_bit_eq take_bit_nat_less_exp[of 5, simplified])
  then have s: "unat ?s < 32" by simp
  have u: "unat (ucast ?s :: u32) = unat ?s" using s by (simp add: unsigned_ucast_eq take_bit_nat_eq_self)
  have "unat (ucast ?s + 1 :: u32) = unat ?s + 1"
    using s u by (subst unat_add_lem[THEN iffD1]) simp_all
  then have "unat (push_bit 5 (ucast ?s + 1 :: u32)) = 32 * (unat ?s + 1)"
    using s by (simp add: push_bit_eq_mult unat_word_ariths(2) mult.commute del: distrib_left_numeral distrib_right_numeral)
  then have "unat (packet_bytes (wire_bytes p ! 8)) = 32 * (unat ?s + 1)"
    by (simp add: packet_bytes_def wire_type(2) get_Size_def)
  then show ?thesis using assms by (simp add: packet_ok_def pt2pt_packet_def)
qed

text \<open>The packets handled one after the other, the specification of the poll.\<close>

primrec recv_all :: "hws \<Rightarrow> recv_env \<Rightarrow> (nat \<Rightarrow> u64) \<Rightarrow> mu_packet list \<Rightarrow> nat \<times> my_context \<Rightarrow> (nat \<times> my_context) option" where
  "recv_all hs e tb [] s = Some s"
| "recv_all hs e tb (p # ps) s =
     (case mudm_recv_packet hs e (tb (fst s)) p (snd s) of None \<Rightarrow> None | Some mc \<Rightarrow> recv_all hs e tb ps (Suc (fst s), mc))"

lemma recv_any_wire:
  "pt2pt_packet p \<Longrightarrow> recv_any hs e tb (wire_bytes p) s =
     map_option (Pair (Suc (fst s))) (mudm_recv_packet hs e (tb (fst s)) p (snd s))"
  by (simp add: recv_any_def wire_type pt2pt_packet_def MUHWI_PT2PT_DATA_PACKET_TYPE_def wire_roundtrip)

lemma handle_all_recv:
  "\<forall>p \<in> set ps. pt2pt_packet p \<Longrightarrow> handle_all (recv_any hs e tb) (map wire_bytes ps) s = recv_all hs e tb ps s"
proof (induction ps arbitrary: s)
  case (Cons p ps)
  then show ?case using Cons.IH by (simp add: recv_any_wire split: option.splits)
qed simp

section \<open>Properties\<close>

text \<open>For the examples: a packet without payload of the given type from an I/O node to node 4.\<close>

definition demo_wire :: "u16 \<Rightarrow> mu_packet" where
  "demo_wire ty = \<lparr>pk_net = pt2pt_header MUHWI_PACKET_TYPE_FIFO 4 IONODE2CN IO_PORT\<lparr>Byte8 := 0\<rparr>,
     pk_muh = zero_memory_fifo\<lparr>SoftwareBytes := zero_ionet_header
       \<lparr>torus_source_node := 0x80000009, torus_dest_node := 4, ptype := ty\<rparr>\<rparr>, pk_payload = []\<rparr>"

definition demo_env :: "int \<Rightarrow> recv_env" where
  "demo_env rc = \<lparr>env_recv = (\<lambda>_ _ mc. Some (rc, mc)), env_recv_conn = (\<lambda>_ _ _ mc. Some (0, mc)),
     env_recv_bcast = (\<lambda>_ mc. Some mc)\<rparr>"

lemma demo_wire_packet: "pt2pt_packet (demo_wire ty)" "ptype (pk_sw (demo_wire ty)) = ty"
  by (simp_all add: pt2pt_packet_def demo_wire_def pt2pt_header_def MUSPI_SetDataPacketType_def
    MUSPI_SetMessageUnitPacketType_def set_Size_def get_Size_def Let_def)

text \<open>
  C16: polling handles what is in the FIFO.  When the ring holds the bytes of the point-to-point
  packets \<open>ps\<close>, \<^verbatim>\<open>mudm_fifo_poll\<close> ends as soon as the handlers of these packets do, has called the
  handler of each once, in order of arrival, on the packet its sender wrote, leaves the ring empty and
  returns the number of packets.
\<close>

theorem mudm_fifo_poll_dispatches:
  assumes "rec_at sz ho (map wire_bytes ps) f" "\<forall>p \<in> set ps. pt2pt_packet p"
  shows "\<exists>f' ho'. rec_at sz ho' [] f' \<and> mudm_fifo_poll hs e tb f s =
    (case recv_all hs e tb ps s of None \<Rightarrow> None | Some s1 \<Rightarrow> Some (of_nat (length ps), f', s1))"
  using fifo_poll_loop_drains[OF assms(1), of "recv_any hs e tb" 0 s]
  unfolding mudm_fifo_poll_def handle_all_recv[OF assms(2)] length_map add_0 by blast

theorem mudm_fifo_poll_dispatches_witness:
  "\<exists>f'. mudm_fifo_poll demo_hws (demo_env 0) (\<lambda>_. 5)
     (hw_arrive 1088 (wire_bytes (demo_wire MUDM_CNK2CNK_FIFO)) demo_ring) (0, demo_ctx 4 LFree) = Some (1, f', 1, demo_ctx 4 LFree)"
proof -
  let ?p = "demo_wire MUDM_CNK2CNK_FIFO" and ?s = "(0 :: nat, demo_ctx 4 LFree)"
  have u: "hw_used 1088 demo_ring + length (wire_bytes ?p) < 1088" "hw_pa_head (rfifo demo_ring) = pa_start (rfifo demo_ring) + of_nat 0"
    by (simp_all add: hw_used_def hw_offset_def demo_ring_def demo_wire_def)
  from hw_arrive_rep(1)[OF demo_ring_at u(2) pt2pt_packet_ok[OF demo_wire_packet(1)] u(1)]
  have r: "rec_at 1088 0 (map wire_bytes [?p]) (hw_arrive 1088 (wire_bytes ?p) demo_ring)" by simp
  have "recv_all demo_hws (demo_env 0) (\<lambda>_. 5) [?p] ?s = Some (1, demo_ctx 4 LFree)"
    by (simp add: mudm_recv_packet_def demo_wire_packet recv_types)
  with mudm_fifo_poll_dispatches[OF r, of demo_hws "demo_env 0" "\<lambda>_. 5" ?s] demo_wire_packet(1) show ?thesis by auto
qed

text \<open>
  C17: the descriptors a peer sends are injected as it built them.  A packet of type \<^verbatim>\<open>MUDM_DPUT\<close>
  that carries \<open>ds\<close> makes the receiver inject exactly \<open>ds\<close>, in order, into the FIFO of the link on
  which the packet arrived, and nothing else changes.
\<close>

theorem recv_dput_injects:
  assumes "ptype (pk_sw p) = MUDM_DPUT" "carries_descs ds p" "hws_live hs"
    "l = (if ucast (Rec_FIFO_Id (pk_muh p)) = sys_rec_fifo_id mc 0 then 0 else 1)"
    "ctl_inv n (injfifo_ctls mc l)" "length (ctl_log (injfifo_ctls mc l)) + length ds < 2 ^ 63"
  shows "\<exists>c'. mudm_recv_packet hs e now p mc = Some (mc\<lparr>injfifo_ctls := (injfifo_ctls mc)(l := c')\<rparr>) \<and>
    ctl_log c' = ctl_log (injfifo_ctls mc l) @ ds"
  using multi_directput_total[OF assms(2,3,5,6)] assms(1,4)
  by (auto simp: mudm_recv_packet_def NUM_IO_LINKS_def)

text \<open>A packet with one descriptor, for the example.\<close>

definition demo_dput :: mu_packet where
  "demo_dput = (demo_wire MUDM_DPUT)\<lparr>pk_net := set_Size 2 (pk_net (demo_wire MUDM_DPUT)),
     pk_payload := inj_bytes (DirectPutDesc (mu_iDirectPutDescriptor demo_conn\<lparr>NetworkHeader := zero_net_header\<lparr>Byte8 := 0x40\<rparr>\<rparr>))\<rparr>"

theorem recv_dput_injects_witness:
  "\<exists>c' d. mudm_recv_packet demo_hws (demo_env 0) 5 demo_dput (demo_ctx 4 LFree) =
      Some ((demo_ctx 4 LFree)\<lparr>injfifo_ctls := demo_injs(1 := c')\<rparr>) \<and> ctl_log c' = [DirectPutDesc d]"
proof -
  let ?d = "DirectPutDesc (mu_iDirectPutDescriptor demo_conn\<lparr>NetworkHeader := zero_net_header\<lparr>Byte8 := 0x40\<rparr>\<rparr>)"
  let ?mc = "demo_ctx 4 LFree"
  have p: "ptype (pk_sw demo_dput) = MUDM_DPUT" "carries_descs [?d] demo_dput"
    using demo_wire_packet(2)[of MUDM_DPUT]
    by (simp_all add: demo_dput_def carries_descs_def get_Size_def set_Size_def MUHWI_PACKET_TYPE_PUT_def)
      (simp add: demo_wire_def)
  have l: "1 = (if ucast (Rec_FIFO_Id (pk_muh demo_dput)) = sys_rec_fifo_id ?mc 0 then 0 else (1 :: nat))"
    by (simp add: demo_dput_def demo_wire_def zero_memory_fifo_def demo_ctx_def)
  have i: "injfifo_ctls ?mc = demo_injs" "ctl_log (demo_injs 1) = []"
    by (simp_all add: demo_ctx_def demo_injs_def ctl_log_def demo_fifo_def)
  have c: "ctl_inv 4 (injfifo_ctls ?mc 1)" "length (ctl_log (injfifo_ctls ?mc 1)) + length [?d] < 2 ^ 63"
    unfolding i(1) using demo_injs_ctl[of 1] i(2) by simp_all
  from recv_dput_injects[OF p demo_hws_live l c, of "demo_env 0" 5] show ?thesis unfolding i by auto
qed



end
