(* ===== verification/Mudm_Read.thy ===== *)
theory Mudm_Read
  imports Mudm_Recv
begin

text \<open>
  \<^verbatim>\<open>mudm_rdma_read\<close> of \<^verbatim>\<open>bgmudm/mudm.c\<close>.  There is no remote get: the reader builds, in a packet of
  its own, the direct-put descriptors that the peer is to inject, up to eight at a time, and sends
  them to the peer as a packet of type \<^verbatim>\<open>MUDM_DPUT\<close>.  The packet buffer is memory of bytes
  (\<open>pkt_mem\<close>), reused for the next eight only when the hardware has taken the packet.
\<close>

section \<open>Sending a bundle\<close>

text \<open>
  The locals of the loop, and with them, in \<open>rr_msgs\<close>, what the buffer held when each packet was
  injected.
\<close>

record rread =
  rr_mc :: my_context
  putdesc_count :: nat
  rr_desc_count :: u64
  rr_msgs :: "u8 list list"

definition upd_rdma :: "nat \<Rightarrow> (rdma_obj_controls \<Rightarrow> rdma_obj_controls) \<Rightarrow> my_context \<Rightarrow> my_context" where
  "upd_rdma l f mc = mc\<lparr>rdma_obj_ctls := (rdma_obj_ctls mc)(l := f (rdma_obj_ctls mc l))\<rparr>"

text \<open>\<^verbatim>\<open>dput_memfifo\<close> on the connection with index \<open>x\<close>, and the wait for the hardware to take a packet.\<close>

definition ctx_dput :: "hws \<Rightarrow> nat \<Rightarrow> u16 \<Rightarrow> u64 \<Rightarrow> u64 \<Rightarrow> my_context \<Rightarrow> (u64 \<times> my_context) option" where
  "ctx_dput hs x ty paddr len mc =
     map_option (\<lambda>(desc_count, c, is). (desc_count, (upd_conn x (\<lambda>_. c) mc)\<lparr>injfifo_ctls := is\<rparr>))
       (dput_memfifo hs ty paddr len (conns mc x) (injfifo_ctls mc))"

partial_function (option) wait_complete :: "hws \<Rightarrow> nat \<Rightarrow> u64 \<Rightarrow> my_context \<Rightarrow> my_context option" where
  "wait_complete hs l desc_count mc =
     (let (complete, mc1) = check_complete hs l desc_count mc
      in if complete then Some mc1 else wait_complete hs l desc_count mc1)"

definition send_bundle :: "hws \<Rightarrow> nat \<Rightarrow> nat \<Rightarrow> nat \<Rightarrow> rread \<Rightarrow> rread option" where
  "send_bundle hs x pl pktd st =
     (let mc = rr_mc st; n = putdesc_count st in
      map_option (\<lambda>(desc_count, mc1). st\<lparr>rr_mc := mc1, rr_desc_count := desc_count,
          rr_msgs := rr_msgs st @ [take (64 * n) (pkt_mem mc pl pktd)]\<rparr>)
        (ctx_dput hs x MUDM_DPUT (message_pa (pkt_nodes (packetcontrols mc pl) pktd)) (64 * of_nat n) mc))"

definition flush_full :: "hws \<Rightarrow> nat \<Rightarrow> nat \<Rightarrow> nat \<Rightarrow> rread \<Rightarrow> rread option" where
  "flush_full hs x pl pktd st =
     (if putdesc_count st = 8
      then (case send_bundle hs x pl pktd st of
              None \<Rightarrow> None
            | Some st1 \<Rightarrow>
                map_option (\<lambda>mc. st1\<lparr>rr_mc := mc, putdesc_count := 0\<rparr>)
                  (wait_complete hs (injfifo_of (conns (rr_mc st1) x)) (rr_desc_count st1) (rr_mc st1)))
      else Some st)"

section \<open>The loop\<close>

text \<open>One descriptor into the packet: \<open>len\<close> bytes from remote \<open>rpa\<close> to local \<open>lpa\<close>, counted at \<open>pa\<close>.\<close>

definition read_put :: "hws \<Rightarrow> nat \<Rightarrow> nat \<Rightarrow> nat \<Rightarrow> u64 \<Rightarrow> u64 \<times> u64 \<times> u64 \<Rightarrow> rread \<Rightarrow> rread option" where
  "read_put hs x pl pktd pa put st =
     (case flush_full hs x pl pktd st of
        None \<Rightarrow> None
      | Some st1 \<Rightarrow>
         (let mc = rr_mc st1; (len, lpa, rpa) = put in
          map_option (\<lambda>d. st1\<lparr>rr_mc := mc\<lparr>pkt_mem := (pkt_mem mc)(pl := (pkt_mem mc pl)(pktd :=
                 write_at (64 * putdesc_count st1) (inj_bytes (DirectPutDesc (set_dma_directput len rpa lpa d)))
                   (pkt_mem mc pl pktd)))\<rparr>,
               putdesc_count := putdesc_count st1 + 1\<rparr>)
            (set_counter_directput pa (mu_iDirectPutDescriptor4rget (conns mc x)))))"

text \<open>The length of a put that would exceed what is left is cut.\<close>

definition read_len :: "u64 \<Rightarrow> u32 \<Rightarrow> u64 \<Rightarrow> u64" where
  "read_len bytes_xfer totalbytes n =
     (if bytes_xfer < ucast totalbytes then bytes_xfer - (ucast totalbytes - n) else n)"

partial_function (option) rdma_read_loop ::
  "hws \<Rightarrow> nat \<Rightarrow> nat \<Rightarrow> nat \<Rightarrow> u64 \<Rightarrow> u64 \<Rightarrow> sgl_mem \<Rightarrow> sgl_mem \<Rightarrow> sgl_pos \<Rightarrow> sgl_pos \<Rightarrow> u32 \<Rightarrow> rread \<Rightarrow> (u32 \<times> rread) option" where
  "rdma_read_loop hs x pl pktd pa bytes_xfer lm rm l r totalbytes st =
     (if cur_pa l = 0 \<or> cur_pa r = 0 then Some (totalbytes, st)
      else
        (let n = sgl_len l r; t = totalbytes + ucast n in
         case read_put hs x pl pktd pa (read_len bytes_xfer t n, cur_pa l, cur_pa r) st of
           None \<Rightarrow> None
         | Some st1 \<Rightarrow>
             if bytes_xfer \<le> ucast t then Some (t, st1)
             else rdma_read_loop hs x pl pktd pa bytes_xfer lm rm
                    (fst (sgl_advance lm rm l r)) (snd (sgl_advance lm rm l r)) t st1))"

section \<open>The operation\<close>

text \<open>The loop on the counter of the object; \<open>cnt i\<close> is what its read number \<open>i\<close> finds.\<close>

partial_function (option) wait_counter :: "(nat \<Rightarrow> u64) \<Rightarrow> u64 \<Rightarrow> nat \<Rightarrow> nat option" where
  "wait_counter cnt v i = (if cnt i = v then Some i else wait_counter cnt v (Suc i))"

text \<open>The other side is told of the error, if it asked to be.\<close>

definition read_notice :: "hws \<Rightarrow> nat \<Rightarrow> u64 \<Rightarrow> u64 \<Rightarrow> my_context \<Rightarrow> (u64 \<times> my_context) option" where
  "read_notice hs x remote_object desc_count mc =
     (if remote_object \<noteq> 0
      then map_option (\<lambda>(cnt, is). (cnt, mc\<lparr>injfifo_ctls := is\<rparr>)) (put_einval hs remote_object (conns mc x) mc (injfifo_ctls mc))
      else Some (desc_count, mc))"

definition send_rest :: "hws \<Rightarrow> nat \<Rightarrow> nat \<Rightarrow> nat \<Rightarrow> rread \<Rightarrow> rread option" where
  "send_rest hs x pl pktd st = (if 0 < putdesc_count st then send_bundle hs x pl pktd st else Some st)"

text \<open>The four ways out behind the loop.\<close>

definition read_finish ::
  "hws \<Rightarrow> (nat \<Rightarrow> u64) \<Rightarrow> u64 \<Rightarrow> nat \<Rightarrow> nat \<Rightarrow> nat \<Rightarrow> nat \<Rightarrow> u64 \<Rightarrow> u64 \<Rightarrow> u32 \<Rightarrow> rread \<Rightarrow> (ret \<times> rread) option" where
  "read_finish hs cnt now x pl pktd obj remote_object bytes_xfer totalbytes st =
     (if ucast totalbytes = bytes_xfer then
        map_option (\<lambda>st1. (RetErr EINPROGRESS,
            st1\<lparr>rr_mc := conn_pkt_sent hs now x pktd (rr_desc_count st1) (upd_rdma pl (release_rdma_obj_to_poll obj) (rr_mc st1))\<rparr>))
          (send_rest hs x pl pktd st)
      else if rr_desc_count st = -1 then
        map_option (\<lambda>(desc_count, mc). (RetErr EINVAL,
            st\<lparr>rr_mc := upd_rdma pl (free_rdma_obj obj) (upd_packets pl (release_pkt_to_free pktd desc_count) mc)\<rparr>))
          (read_notice hs x remote_object (rr_desc_count st) (rr_mc st))
      else if bytes_xfer < ucast totalbytes then
        (case send_rest hs x pl pktd st of
           None \<Rightarrow> None
         | Some st1 \<Rightarrow>
            (case wait_counter cnt 0 0 of
               None \<Rightarrow> None
             | Some _ \<Rightarrow>
                 map_option (\<lambda>(_, mc). (RetErr EINVAL, st1\<lparr>rr_mc := upd_rdma pl (free_rdma_obj obj) mc\<rparr>))
                   (read_notice hs x remote_object (rr_desc_count st1)
                      (upd_packets pl (release_pkt_to_free pktd (rr_desc_count st1)) (rr_mc st1)))))
      else
        (let mc0 = upd_rdma pl (\<lambda>rc. rc\<lparr>ro_nodes := (ro_nodes rc)(obj := (ro_nodes rc obj)\<lparr>local_request_id := 0\<rparr>)\<rparr>) (rr_mc st)
         in case wait_counter cnt (bytes_xfer - ucast totalbytes) 0 of
              None \<Rightarrow> None
            | Some _ \<Rightarrow>
                if remote_object \<noteq> 0
                then map_option (\<lambda>(desc_count, mc). (RetErr EINVAL,
                         st\<lparr>rr_mc := upd_rdma pl (free_rdma_obj obj) (upd_packets pl (release_pkt_to_free pktd desc_count) mc)\<rparr>))
                       (read_notice hs x remote_object (rr_desc_count st) mc0)
                else Some (RetErr EINVAL, st\<lparr>rr_mc := mc0\<rparr>)))"

definition mudm_rdma_read ::
  "hws \<Rightarrow> (nat \<Rightarrow> u64) \<Rightarrow> u64 \<Rightarrow> nat \<Rightarrow> u64 \<Rightarrow> u64 \<Rightarrow> u64 \<Rightarrow> sgl_mem \<Rightarrow> sgl_mem \<Rightarrow> my_context \<Rightarrow> (ret \<times> rread) option" where
  "mudm_rdma_read hs cnt now x requestID remote_object bytes_xfer lm rm mc =
     (let pl = pools_of (conns mc x); out = (\<lambda>mc. \<lparr>rr_mc = mc, putdesc_count = 0, rr_desc_count = -1, rr_msgs = []\<rparr>) in
      if \<not> conn_magic_ok (conns mc x) then Some (RetErr EFAULT, out mc)
      else case alloc_pkt_message (packetcontrols mc pl) of
        (None, _) \<Rightarrow> Some (RetErr EBUSY, out mc)
      | (Some pktd, pc) \<Rightarrow>
         (let mc1 = upd_packets pl (\<lambda>_. pc) mc in
          case allocate_rdma_object (rdma_obj_ctls mc1 pl) of
            (None, rc) \<Rightarrow> Some (RetErr EBUSY, out (upd_packets pl (release_pkt_to_free pktd 0) (upd_rdma pl (\<lambda>_. rc) mc1)))
          | (Some obj, rc) \<Rightarrow>
             (let mc2 = upd_rdma pl (\<lambda>_. set_rdma_obj obj bytes_xfer requestID remote_object x rc) mc1 in
              case rdma_read_loop hs x pl pktd (rdma_object_pa (ro_nodes rc obj)) bytes_xfer lm rm
                     (sgl_load lm 0) (sgl_load rm 0) 0 (out mc2) of
                None \<Rightarrow> None
              | Some (totalbytes, st) \<Rightarrow> read_finish hs cnt now x pl pktd obj remote_object bytes_xfer totalbytes st)))"

section \<open>The bundles sent\<close>

definition bundle_bytes :: "directput_desc list \<Rightarrow> u8 list" where
  "bundle_bytes ds = concat (map (\<lambda>d. inj_bytes (DirectPutDesc d)) ds)"

text \<open>The packet \<open>p\<close> that carries the bundle \<open>ds\<close> at \<open>pa\<close>, on the route of the connection \<open>c\<close>.\<close>

definition bundle_packet :: "mudm_connection \<Rightarrow> u64 \<Rightarrow> memfifo_desc \<Rightarrow> directput_desc list \<Rightarrow> bool" where
  "bundle_packet c pa p ds \<longleftrightarrow> ptype (SoftwareBytes (muh p)) = MUDM_DPUT \<and> Pa_Payload p = pa \<and>
     Message_Length p = 64 * of_nat (length ds) \<and> NetworkHeader p = NetworkHeader (mu_iMemoryFifoDescriptor c) \<and>
     Rec_FIFO_Id (muh p) = Rec_FIFO_Id (muh (mu_iMemoryFifoDescriptor c))"

text \<open>What the hardware is relied on: it gets to having processed \<open>N\<close> descriptors, at any time.\<close>

definition hw_completes :: "hws \<Rightarrow> nat \<Rightarrow> nat \<Rightarrow> bool" where
  "hw_completes hs l N \<longleftrightarrow> (\<forall>k. \<exists>j. N \<le> unat (hw_descCount (hs l (k + j))))"

text \<open>The context inside the loop: the bundles \<open>dss\<close> are sent, the descriptors \<open>cur\<close> in the buffer.\<close>

definition rread_ctx :: "my_context \<Rightarrow> nat \<Rightarrow> nat \<Rightarrow> nat \<Rightarrow> u64 \<Rightarrow> injs \<Rightarrow> u8 list \<Rightarrow> my_context" where
  "rread_ctx mc x pl k s js m = (upd_conn x (\<lambda>c. c\<lparr>rget_memfifo_sent := s\<rparr>) mc)
     \<lparr>injfifo_ctls := js, pkt_mem := (pkt_mem mc)(pl := (pkt_mem mc pl)(k := m))\<rparr>"

definition rread_at :: "my_context \<Rightarrow> nat \<Rightarrow> nat \<Rightarrow> nat \<Rightarrow> (nat \<Rightarrow> nat) \<Rightarrow> nat \<Rightarrow>
    directput_desc list list \<Rightarrow> directput_desc list \<Rightarrow> rread \<Rightarrow> bool" where
  "rread_at mc x pl k n room dss cur st \<longleftrightarrow>
     (\<exists>s js m ps. rr_mc st = rread_ctx mc x pl k s js m \<and> length m = 512 \<and> take (64 * length cur) m = bundle_bytes cur \<and>
        putdesc_count st = length cur \<and> length cur \<le> 8 \<and> rr_msgs st = map bundle_bytes dss \<and>
        (\<forall>ds \<in> set dss. 0 < length ds \<and> length ds \<le> 8) \<and> links_room n room js \<and>
        ctl_log (js (injfifo_of (conns mc x))) = ctl_log (injfifo_ctls mc (injfifo_of (conns mc x))) @ map MemFifoDesc ps \<and>
        list_all2 (bundle_packet (conns mc x) (message_pa (pkt_nodes (packetcontrols mc pl) k))) ps dss \<and>
        rr_desc_count st = (if dss = [] then -1 else of_nat (length (ctl_log (js (injfifo_of (conns mc x)))))))"

lemma rread_ctx_simps [simp]:
  "conns (rread_ctx mc x pl k s js m) x = (conns mc x)\<lparr>rget_memfifo_sent := s\<rparr>"
  "injfifo_ctls (rread_ctx mc x pl k s js m) = js" "pkt_mem (rread_ctx mc x pl k s js m) pl k = m"
  "packetcontrols (rread_ctx mc x pl k s js m) = packetcontrols mc"
  "rdma_obj_ctls (rread_ctx mc x pl k s js m) = rdma_obj_ctls mc"
  by (simp_all add: rread_ctx_def upd_conn_def)

lemma length_bundle_bytes: "length (bundle_bytes ds) = 64 * length ds"
  by (induction ds) (simp_all add: bundle_bytes_def)

lemma bundle_bytes_append: "bundle_bytes (ds @ [d]) = bundle_bytes ds @ inj_bytes (DirectPutDesc d)"
  by (simp add: bundle_bytes_def)

lemma ctx_dput_total:
  assumes hs: "hws_live hs" and l: "l = injfifo_of (conns mc x)" and inj: "ctl_inv n (injfifo_ctls mc l)"
  shows "\<exists>ct. ctx_dput hs x ty paddr len mc = Some (of_nat (Suc (length (ctl_log (injfifo_ctls mc l)))),
      (upd_conn x (\<lambda>c. c\<lparr>rget_memfifo_sent := rget_memfifo_sent c + 1\<rparr>) mc)\<lparr>injfifo_ctls := (injfifo_ctls mc)(l := ct)\<rparr>) \<and>
    ctl_log ct = ctl_log (injfifo_ctls mc l) @
      [MemFifoDesc (patch_memfifo ty paddr len (rget_memfifo_sent (conns mc x)) (mu_iMemoryFifoDescriptor (conns mc x)))] \<and>
    inj_inv n (injfifo ct)"
proof -
  let ?d = "patch_memfifo ty paddr len (rget_memfifo_sent (conns mc x)) (mu_iMemoryFifoDescriptor (conns mc x))"
  have "hw_live (hs l)" using hs by (simp add: hws_live_def)
  from inject_desc_total[OF this inj, of "MemFifoDesc ?d"] obtain ct where
    I: "inject_desc (hs l) (Some (MemFifoDesc ?d)) (injfifo_ctls mc l) = Some (of_nat (Suc (length (ctl_log (injfifo_ctls mc l)))), ct)"
    "ctl_log ct = ctl_log (injfifo_ctls mc l) @ [MemFifoDesc ?d]" "inj_inv n (injfifo ct)" by blast
  show ?thesis
    by (rule exI[of _ ct]) (use I l ctl_count_ne[OF inj] in \<open>simp add: ctx_dput_def dput_memfifo_def InjFifoInjectMemFifo_def InjFifoInject_def
      bump_count_def upd_conn_def del: of_nat_Suc\<close>)
qed

lemma send_bundle_rep:
  assumes hs: "hws_live hs" and at: "rread_at mc x pl k n (Suc r) dss cur st" and ne: "cur \<noteq> []"
  shows "\<exists>st'. send_bundle hs x pl k st = Some st' \<and> rread_at mc x pl k n r (dss @ [cur]) cur st'"
proof -
  let ?l = "injfifo_of (conns mc x)" and ?pa = "message_pa (pkt_nodes (packetcontrols mc pl) k)"
  obtain s js m ps where A: "rr_mc st = rread_ctx mc x pl k s js m" "length m = 512" "take (64 * length cur) m = bundle_bytes cur"
    "putdesc_count st = length cur" "length cur \<le> 8" "rr_msgs st = map bundle_bytes dss"
    "\<forall>ds \<in> set dss. 0 < length ds \<and> length ds \<le> 8" "links_room n (Suc r) js"
    "ctl_log (js ?l) = ctl_log (injfifo_ctls mc ?l) @ map MemFifoDesc ps" "list_all2 (bundle_packet (conns mc x) ?pa) ps dss"
    using at by (auto simp: rread_at_def)
  have inj: "ctl_inv (n ?l) (injfifo_ctls (rr_mc st) ?l)" using links_room_ctl[OF A(8)] A(1) by simp
  have l: "?l = injfifo_of (conns (rr_mc st) x)" using A(1) by simp
  define p where "p = patch_memfifo MUDM_DPUT ?pa (64 * of_nat (length cur)) s (mu_iMemoryFifoDescriptor (conns mc x))"
  from ctx_dput_total[OF hs l inj, of MUDM_DPUT ?pa "64 * of_nat (length cur)"] A(1) obtain ct where
    C: "ctx_dput hs x MUDM_DPUT ?pa (64 * of_nat (length cur)) (rr_mc st) = Some (of_nat (Suc (length (ctl_log (js ?l)))),
      (upd_conn x (\<lambda>c. c\<lparr>rget_memfifo_sent := rget_memfifo_sent c + 1\<rparr>) (rr_mc st))\<lparr>injfifo_ctls := js(?l := ct)\<rparr>)"
    "ctl_log ct = ctl_log (js ?l) @ [MemFifoDesc p]" "inj_inv (n ?l) (injfifo ct)" by (auto simp: p_def)
  have f: "(upd_conn x (\<lambda>c. c\<lparr>rget_memfifo_sent := rget_memfifo_sent c + 1\<rparr>) (rr_mc st))\<lparr>injfifo_ctls := js(?l := ct)\<rparr> =
      rread_ctx mc x pl k (s + 1) (js(?l := ct)) m"
    unfolding A(1) by (simp add: rread_ctx_def upd_conn_def)
  have bp: "bundle_packet (conns mc x) ?pa p cur"
    by (simp add: bundle_packet_def p_def) (simp add: patch_memfifo_def)
  have room: "links_room n r (js(?l := ct))" by (rule links_room_upd[OF A(8) C(3,2)])
  define st' where "st' = st\<lparr>rr_mc := rread_ctx mc x pl k (s + 1) (js(?l := ct)) m,
    rr_desc_count := of_nat (Suc (length (ctl_log (js ?l)))), rr_msgs := rr_msgs st @ [bundle_bytes cur]\<rparr>"
  have "send_bundle hs x pl k st = Some st'"
    using C(1) f A(1,3,4) by (simp add: send_bundle_def st'_def Let_def del: of_nat_Suc)
  moreover have "rread_at mc x pl k n r (dss @ [cur]) cur st'"
    unfolding rread_at_def
    by (intro exI[of _ "s + 1"] exI[of _ "js(?l := ct)"] exI[of _ m] exI[of _ "ps @ [p]"])
      (use A C(2) room bp ne in \<open>simp add: st'_def list_all2_appendI del: of_nat_Suc\<close>)
  ultimately show ?thesis by blast
qed

lemma check_complete_room:
  assumes "check_complete hs l cnt mc = (b, mc1)"
  obtains js where "mc1 = mc\<lparr>injfifo_ctls := js\<rparr>" "\<forall>m. ctl_log (js m) = ctl_log (injfifo_ctls mc m)"
    "links_room n r (injfifo_ctls mc) \<longrightarrow> links_room n r js" "clock (js l) = Suc (clock (injfifo_ctls mc l))"
    "unat cnt \<le> unat (hw_descCount (hs l (clock (injfifo_ctls mc l)))) \<longrightarrow> b"
proof -
  let ?ctl = "injfifo_ctls mc l"
  obtain f where f: "MUSPI_CheckDescComplete (hw_descCount (hs l (clock ?ctl))) cnt (injfifo ?ctl) = (b, f)"
    using assms by (auto simp: check_complete_def Let_def split: prod.splits)
  let ?js = "(injfifo_ctls mc)(l := \<lparr>injfifo = f, clock = clock ?ctl + 1\<rparr>)"
  have g: "inj_log f = inj_log (injfifo ?ctl)" "inj_inv k f = inj_inv k (injfifo ?ctl)"
    "unat cnt \<le> unat (hw_descCount (hs l (clock ?ctl))) \<longrightarrow> b" for k
    using f by (auto simp: MUSPI_CheckDescComplete_def inj_inv_def word_le_nat_alt split: if_splits)
  have c: "mc1 = mc\<lparr>injfifo_ctls := ?js\<rparr>" using assms f by (simp add: check_complete_def Let_def)
  show ?thesis by (rule that[OF c]) (use g in \<open>auto simp: ctl_log_def links_room_def\<close>)
qed

lemma wait_complete_ends:
  "unat cnt \<le> unat (hw_descCount (hs l (clock (injfifo_ctls mc l) + j))) \<Longrightarrow>
    \<exists>js. wait_complete hs l cnt mc = Some (mc\<lparr>injfifo_ctls := js\<rparr>) \<and>
      (\<forall>m. ctl_log (js m) = ctl_log (injfifo_ctls mc m)) \<and> (links_room n r (injfifo_ctls mc) \<longrightarrow> links_room n r js)"
proof (induction j arbitrary: mc)
  case 0
  obtain b mc1 where c: "check_complete hs l cnt mc = (b, mc1)" by (rule prod.exhaust)
  obtain js where "mc1 = mc\<lparr>injfifo_ctls := js\<rparr>" "\<forall>m. ctl_log (js m) = ctl_log (injfifo_ctls mc m)"
    "links_room n r (injfifo_ctls mc) \<longrightarrow> links_room n r js" b
    using check_complete_room[OF c, of n r] 0 by auto
  with c show ?case by (subst wait_complete.simps) auto
next
  case (Suc j)
  obtain b mc1 where c: "check_complete hs l cnt mc = (b, mc1)" by (rule prod.exhaust)
  obtain js where J: "mc1 = mc\<lparr>injfifo_ctls := js\<rparr>" "\<forall>m. ctl_log (js m) = ctl_log (injfifo_ctls mc m)"
    "links_room n r (injfifo_ctls mc) \<longrightarrow> links_room n r js" "clock (js l) = Suc (clock (injfifo_ctls mc l))"
    using check_complete_room[OF c, of n r] by metis
  show ?case
  proof (cases b)
    case True
    then show ?thesis using c J by (subst wait_complete.simps) auto
  next
    case False
    then have "wait_complete hs l cnt mc = wait_complete hs l cnt mc1" using c by (subst wait_complete.simps) simp
    moreover have "\<exists>is'. wait_complete hs l cnt mc1 = Some (mc1\<lparr>injfifo_ctls := is'\<rparr>) \<and>
        (\<forall>m. ctl_log (is' m) = ctl_log (injfifo_ctls mc1 m)) \<and> (links_room n r (injfifo_ctls mc1) \<longrightarrow> links_room n r is')"
      by (rule Suc.IH) (use Suc.prems J(1,4) in simp)
    ultimately show ?thesis using J by auto
  qed
qed

text \<open>The counts the loop waits for are those of descriptors it has injected.\<close>

lemma bundle_count:
  assumes "\<forall>ds \<in> set dss. 0 < length ds \<and> length ds \<le> 8"
  shows "length dss \<le> length (concat dss)"
  using assms
proof (induction dss)
  case (Cons a dss)
  then have "length dss \<le> length (concat dss)" "0 < length a" by auto
  then show ?case unfolding concat.simps length_append list.size by linarith
qed simp

lemma wait_bundle_rep:
  assumes at: "rread_at mc x pl k n r dss cur st" and ne: "dss \<noteq> []"
    and hw: "hw_completes hs (injfifo_of (conns mc x)) N"
    and N: "length (ctl_log (injfifo_ctls mc (injfifo_of (conns mc x)))) + length (concat dss) \<le> N" "N < 2 ^ 63"
  shows "\<exists>mc'. wait_complete hs (injfifo_of (conns (rr_mc st) x)) (rr_desc_count st) (rr_mc st) = Some mc' \<and>
    rread_at mc x pl k n r dss [] (st\<lparr>rr_mc := mc', putdesc_count := 0\<rparr>)"
proof -
  let ?l = "injfifo_of (conns mc x)" and ?pa = "message_pa (pkt_nodes (packetcontrols mc pl) k)"
  obtain s js m ps where A: "rr_mc st = rread_ctx mc x pl k s js m" "length m = 512" "rr_msgs st = map bundle_bytes dss"
    "\<forall>ds \<in> set dss. 0 < length ds \<and> length ds \<le> 8" "links_room n r js"
    "ctl_log (js ?l) = ctl_log (injfifo_ctls mc ?l) @ map MemFifoDesc ps" "list_all2 (bundle_packet (conns mc x) ?pa) ps dss"
    "rr_desc_count st = of_nat (length (ctl_log (js ?l)))"
    using at ne by (auto simp: rread_at_def)
  have "length (ctl_log (js ?l)) = length (ctl_log (injfifo_ctls mc ?l)) + length dss"
    using A(6) list_all2_lengthD[OF A(7)] by simp
  then have b: "length (ctl_log (js ?l)) \<le> N" using bundle_count[OF A(4)] N(1) by simp
  then have "unat (rr_desc_count st) = length (ctl_log (js ?l))"
    unfolding A(8) using N(2) by (intro unat_of_nat_u64) simp
  moreover obtain j where "N \<le> unat (hw_descCount (hs ?l (clock (js ?l) + j)))" using hw by (auto simp: hw_completes_def)
  ultimately have "unat (rr_desc_count st) \<le> unat (hw_descCount (hs ?l (clock (injfifo_ctls (rr_mc st) ?l) + j)))"
    using b A(1) by simp
  from wait_complete_ends[of "rr_desc_count st" hs ?l "rr_mc st" j n r, OF this] A(1,5) obtain ks where
    W: "wait_complete hs ?l (rr_desc_count st) (rr_mc st) = Some ((rr_mc st)\<lparr>injfifo_ctls := ks\<rparr>)"
      "\<forall>m. ctl_log (ks m) = ctl_log (js m)" "links_room n r ks" by auto
  have f: "(rr_mc st)\<lparr>injfifo_ctls := ks\<rparr> = rread_ctx mc x pl k s ks m" unfolding A(1) by (simp add: rread_ctx_def)
  have "rread_at mc x pl k n r dss [] (st\<lparr>rr_mc := rread_ctx mc x pl k s ks m, putdesc_count := 0\<rparr>)"
    unfolding rread_at_def
    by (intro exI[of _ s] exI[of _ ks] exI[of _ m] exI[of _ ps]) (use A W ne in \<open>simp add: bundle_bytes_def\<close>)
  with W(1) f A(1) show ?thesis by simp
qed

lemma flush_full_rep:
  assumes hs: "hws_live hs" and at: "rread_at mc x pl k n (Suc r) dss cur st"
    and hw: "hw_completes hs (injfifo_of (conns mc x)) N"
    and N: "length (ctl_log (injfifo_ctls mc (injfifo_of (conns mc x)))) + length (concat dss @ cur) \<le> N" "N < 2 ^ 63"
  shows "\<exists>st' dss' cur'. flush_full hs x pl k st = Some st' \<and> rread_at mc x pl k n r dss' cur' st' \<and>
    concat dss' @ cur' = concat dss @ cur \<and> length cur' < 8 \<and> (length cur < 8 \<longrightarrow> dss' = dss)"
proof -
  obtain c: "putdesc_count st = length cur" "length cur \<le> 8" using at by (auto simp: rread_at_def)
  show ?thesis
  proof (cases "length cur = 8")
    case True
    then have "cur \<noteq> []" by auto
    from send_bundle_rep[OF hs at this] obtain st1 where
      S: "send_bundle hs x pl k st = Some st1" "rread_at mc x pl k n r (dss @ [cur]) cur st1" by blast
    have N1: "length (ctl_log (injfifo_ctls mc (injfifo_of (conns mc x)))) + length (concat (dss @ [cur])) \<le> N" using N(1) by simp
    obtain mc' where
      W: "wait_complete hs (injfifo_of (conns (rr_mc st1) x)) (rr_desc_count st1) (rr_mc st1) = Some mc'"
      "rread_at mc x pl k n r (dss @ [cur]) [] (st1\<lparr>rr_mc := mc', putdesc_count := 0\<rparr>)"
      using wait_bundle_rep[OF S(2) _ hw N1 N(2)] by auto
    show ?thesis
      by (intro exI[of _ "st1\<lparr>rr_mc := mc', putdesc_count := 0\<rparr>"] exI[of _ "dss @ [cur]"] exI[of _ "[]"])
        (use True c S(1) W in \<open>simp add: flush_full_def\<close>)
  next
    case False
    have "links_room n r is1" if "links_room n (Suc r) is1" for is1 using that by (rule links_room_mono) simp
    then have "rread_at mc x pl k n r dss cur st" using at unfolding rread_at_def by blast
    then show ?thesis using False c
      by (intro exI[of _ st] exI[of _ dss] exI[of _ cur]) (simp add: flush_full_def)
  qed
qed

text \<open>The descriptor of one put.\<close>

definition rget_desc :: "mudm_connection \<Rightarrow> u64 \<Rightarrow> u64 \<times> u64 \<times> u64 \<Rightarrow> directput_desc option" where
  "rget_desc c pa put = (let (len, lpa, rpa) = put in patch_directput len rpa lpa pa (mu_iDirectPutDescriptor4rget c))"

lemma rget_desc_order:
  "rget_desc c pa (len, lpa, rpa) = map_option (set_dma_directput len rpa lpa) (set_counter_directput pa (mu_iDirectPutDescriptor4rget c))"
  by (simp add: rget_desc_def patch_directput_def set_counter_directput_def set_dma_directput_def)

lemma write_bundle:
  assumes "take (64 * length cur) m = bundle_bytes cur" "length m = 512" "length cur < 8"
  shows "take (64 * length (cur @ [d])) (write_at (64 * length cur) (inj_bytes (DirectPutDesc d)) m) = bundle_bytes (cur @ [d])"
    "length (write_at (64 * length cur) (inj_bytes (DirectPutDesc d)) m) = 512"
proof -
  have "take (64 * length (cur @ [d])) (write_at (64 * length cur) (inj_bytes (DirectPutDesc d)) m) =
      take (64 * length cur) m @ inj_bytes (DirectPutDesc d)"
    using assms(2,3) by (simp add: write_at_def)
  then show "take (64 * length (cur @ [d])) (write_at (64 * length cur) (inj_bytes (DirectPutDesc d)) m) = bundle_bytes (cur @ [d])"
    by (simp add: bundle_bytes_append assms(1))
  show "length (write_at (64 * length cur) (inj_bytes (DirectPutDesc d)) m) = 512" using assms(2,3) by simp
qed

lemma read_put_rep:
  assumes hs: "hws_live hs" and at: "rread_at mc x pl k n (Suc r) dss cur st"
    and hw: "hw_completes hs (injfifo_of (conns mc x)) N"
    and N: "length (ctl_log (injfifo_ctls mc (injfifo_of (conns mc x)))) + length (concat dss @ cur) \<le> N" "N < 2 ^ 63"
    and d: "rget_desc (conns mc x) pa put = Some d"
  shows "\<exists>st' dss' cur'. read_put hs x pl k pa put st = Some st' \<and> rread_at mc x pl k n r dss' cur' st' \<and>
    concat dss' @ cur' = concat dss @ cur @ [d] \<and> cur' \<noteq> [] \<and> (length cur < 8 \<longrightarrow> dss' = dss)"
proof -
  from flush_full_rep[OF hs at hw N] obtain st1 dss' cur' where
    F: "flush_full hs x pl k st = Some st1" "rread_at mc x pl k n r dss' cur' st1"
    "concat dss' @ cur' = concat dss @ cur" "length cur' < 8" "length cur < 8 \<longrightarrow> dss' = dss" by blast
  obtain len lpa rpa where put: "put = (len, lpa, rpa)" by (metis prod_cases3)
  obtain s js m ps where A: "rr_mc st1 = rread_ctx mc x pl k s js m" "length m = 512" "take (64 * length cur') m = bundle_bytes cur'"
    "putdesc_count st1 = length cur'"
    using F(2) by (auto simp: rread_at_def)
  let ?m = "write_at (64 * length cur') (inj_bytes (DirectPutDesc d)) m"
  let ?st = "st1\<lparr>rr_mc := rread_ctx mc x pl k s js ?m, putdesc_count := length (cur' @ [d])\<rparr>"
  obtain d0 where d0: "set_counter_directput pa (mu_iDirectPutDescriptor4rget (conns mc x)) = Some d0"
    "set_dma_directput len rpa lpa d0 = d"
    using d unfolding put rget_desc_order by auto
  have "(rread_ctx mc x pl k s js m)\<lparr>pkt_mem := (pkt_mem (rread_ctx mc x pl k s js m))(pl :=
      (pkt_mem (rread_ctx mc x pl k s js m) pl)(k := ?m))\<rparr> = rread_ctx mc x pl k s js ?m"
    by (simp add: rread_ctx_def upd_conn_def)
  then have "read_put hs x pl k pa put st = Some ?st"
    using F(1) A(1,4) d0 by (simp add: read_put_def put)
  moreover have "rread_at mc x pl k n r dss' (cur' @ [d]) ?st"
  proof -
    obtain s2 js2 m2 ps where B: "rr_mc st1 = rread_ctx mc x pl k s2 js2 m2" "rr_msgs st1 = map bundle_bytes dss'"
      "\<forall>ds \<in> set dss'. 0 < length ds \<and> length ds \<le> 8" "links_room n r js2"
      "ctl_log (js2 (injfifo_of (conns mc x))) = ctl_log (injfifo_ctls mc (injfifo_of (conns mc x))) @ map MemFifoDesc ps"
      "list_all2 (bundle_packet (conns mc x) (message_pa (pkt_nodes (packetcontrols mc pl) k))) ps dss'"
      "rr_desc_count st1 = (if dss' = [] then -1 else of_nat (length (ctl_log (js2 (injfifo_of (conns mc x))))))"
      using F(2) by (auto simp: rread_at_def)
    have "js2 = js" using A(1) B(1) by (metis rread_ctx_simps(2))
    with B write_bundle[OF A(3,2) F(4), of d] F(4) show ?thesis unfolding rread_at_def
      by (intro exI[of _ s] exI[of _ js] exI[of _ ?m] exI[of _ ps]) simp
  qed
  ultimately show ?thesis using F(3,5)
    by (intro exI[of _ ?st] exI[of _ dss'] exI[of _ "cur' @ [d]"]) simp
qed

primrec read_puts :: "hws \<Rightarrow> nat \<Rightarrow> nat \<Rightarrow> nat \<Rightarrow> u64 \<Rightarrow> (u64 \<times> u64 \<times> u64) list \<Rightarrow> rread \<Rightarrow> rread option" where
  "read_puts hs x pl k pa [] st = Some st"
| "read_puts hs x pl k pa (p # w) st =
     (case read_put hs x pl k pa p st of None \<Rightarrow> None | Some st1 \<Rightarrow> read_puts hs x pl k pa w st1)"

lemma read_puts_rep:
  assumes hs: "hws_live hs" and hw: "hw_completes hs (injfifo_of (conns mc x)) N" and "N < 2 ^ 63"
  shows "rread_at mc x pl k n (length w + r) dss cur st \<Longrightarrow> list_all2 (\<lambda>p d. rget_desc (conns mc x) pa p = Some d) w ds \<Longrightarrow>
    length (ctl_log (injfifo_ctls mc (injfifo_of (conns mc x)))) + length (concat dss @ cur @ ds) \<le> N \<Longrightarrow>
    \<exists>st' dss' cur'. read_puts hs x pl k pa w st = Some st' \<and> rread_at mc x pl k n r dss' cur' st' \<and>
      concat dss' @ cur' = concat dss @ cur @ ds \<and> (w \<noteq> [] \<longrightarrow> cur' \<noteq> []) \<and>
      (length cur + length w \<le> 8 \<longrightarrow> dss' = dss)"
proof (induction w arbitrary: ds dss cur st)
  case Nil
  then show ?case by (intro exI[of _ st] exI[of _ dss] exI[of _ cur]) simp
next
  case (Cons p w)
  then obtain d es where ds: "ds = d # es" "rget_desc (conns mc x) pa p = Some d"
    "list_all2 (\<lambda>p d. rget_desc (conns mc x) pa p = Some d) w es" by (auto simp: list_all2_Cons1)
  have at: "rread_at mc x pl k n (Suc (length w + r)) dss cur st" using Cons.prems(1) by simp
  have "length (ctl_log (injfifo_ctls mc (injfifo_of (conns mc x)))) + length (concat dss @ cur) \<le> N"
    using Cons.prems(3) by simp
  from read_put_rep[OF hs at hw this assms(3) ds(2)] obtain st1 dss1 cur1 where
    P: "read_put hs x pl k pa p st = Some st1" "rread_at mc x pl k n (length w + r) dss1 cur1 st1"
    "concat dss1 @ cur1 = concat dss @ cur @ [d]" "cur1 \<noteq> []" "length cur < 8 \<longrightarrow> dss1 = dss" by blast
  have e: "concat dss1 @ cur1 @ es = concat dss @ cur @ ds" using P(3) ds(1) by (metis append.assoc append_Cons append_Nil)
  from Cons.IH[OF P(2) ds(3)] e Cons.prems(3) obtain st' dss' cur' where
    R: "read_puts hs x pl k pa w st1 = Some st'" "rread_at mc x pl k n r dss' cur' st'"
    "concat dss' @ cur' = concat dss @ cur @ ds" "w \<noteq> [] \<longrightarrow> cur' \<noteq> []" "length cur1 + length w \<le> 8 \<longrightarrow> dss' = dss1"
    by auto
  have "dss' = dss" if "length cur + length (p # w) \<le> 8"
  proof -
    have "dss1 = dss" using P(5) that by simp
    moreover from this have "cur1 = cur @ [d]" using P(3) by simp
    ultimately show ?thesis using that R(5) by simp
  qed
  moreover have "cur' \<noteq> []" using P(2,4) R(1,2,4) by (cases "w = []") (auto simp: rread_at_def)
  ultimately show ?case using P(1) R by (intro exI[of _ st'] exI[of _ dss'] exI[of _ cur']) simp
qed

section \<open>The walk\<close>

text \<open>The puts of the loop, as lengths and addresses, and the bytes they cover.\<close>

partial_function (option) sgl_walk ::
  "u64 \<Rightarrow> sgl_mem \<Rightarrow> sgl_mem \<Rightarrow> sgl_pos \<Rightarrow> sgl_pos \<Rightarrow> u32 \<Rightarrow> ((u64 \<times> u64 \<times> u64) list \<times> u32) option" where
  "sgl_walk bytes lm rm l r tot =
     (if cur_pa l = 0 \<or> cur_pa r = 0 then Some ([], tot)
      else let n = sgl_len l r; t = tot + ucast n; p = (read_len bytes t n, cur_pa l, cur_pa r) in
        if bytes \<le> ucast t then Some ([p], t)
        else Option.bind (sgl_walk bytes lm rm (fst (sgl_advance lm rm l r)) (snd (sgl_advance lm rm l r)) t)
               (\<lambda>q. Some (p # fst q, snd q)))"

lemma read_loop_walk:
  "sgl_walk bytes lm rm l r tot = Some (w, tot') \<Longrightarrow>
     rdma_read_loop hs x pl k pa bytes lm rm l r tot st = map_option (Pair tot') (read_puts hs x pl k pa w st)"
proof (induction w arbitrary: l r tot st)
  case Nil
  note e = Nil.prems[unfolded sgl_walk.simps[of bytes lm rm l r tot] Let_def]
  have "cur_pa l = 0 \<or> cur_pa r = 0" using e by (cases "cur_pa l = 0 \<or> cur_pa r = 0") (auto split: if_splits bind_splits)
  moreover from this have "tot' = tot" using e by simp
  ultimately show ?case by (simp add: rdma_read_loop.simps[of hs x pl k pa bytes lm rm l r tot st])
next
  case (Cons p w)
  let ?n = "sgl_len l r"
  let ?t = "tot + ucast ?n"
  note e0 = Cons.prems[unfolded sgl_walk.simps[of bytes lm rm l r tot] Let_def]
  have nz: "\<not> (cur_pa l = 0 \<or> cur_pa r = 0)" using e0 by (cases "cur_pa l = 0 \<or> cur_pa r = 0") simp_all
  note e = e0[unfolded if_not_P[OF nz]]
  note s = rdma_read_loop.simps[of hs x pl k pa bytes lm rm l r tot st, unfolded if_not_P[OF nz] Let_def]
  show ?case
  proof (cases "bytes \<le> ucast ?t")
    case True
    then have "p = (read_len bytes ?t ?n, cur_pa l, cur_pa r)" "w = []" "tot' = ?t" using e by auto
    then show ?thesis using True by (simp add: s split: option.split)
  next
    case False
    then have "p = (read_len bytes ?t ?n, cur_pa l, cur_pa r)"
      "sgl_walk bytes lm rm (fst (sgl_advance lm rm l r)) (snd (sgl_advance lm rm l r)) ?t = Some (w, tot')"
      using e by (auto simp: Option.bind_eq_Some_conv)
    with Cons.IH[OF this(2)] False show ?thesis by (simp add: s split: option.split)
  qed
qed

definition walk_pairs :: "u64 \<times> u64 \<times> u64 \<Rightarrow> (nat \<times> nat) list" where
  "walk_pairs p = (let (n, lpa, rpa) = p in zip (addr_span rpa n) (addr_span lpa n))"

lemma sgl_walk_rep:
  assumes at: "sgl_at lm ls" "sgl_at rm rs" and small: "unat bytes < 2 ^ 32"
  shows "pos_ok ls l \<Longrightarrow> pos_ok rs r \<Longrightarrow> k = length ls + length rs - (sgl_idx l + sgl_idx r) \<Longrightarrow>
    unat tot + min (length (pos_rest ls l)) (length (pos_rest rs r)) \<le> unat bytes \<Longrightarrow> unat tot < unat bytes \<Longrightarrow>
    unat tot + min (length (pos_rest ls l)) (length (pos_rest rs r)) = unat bytes \<or> sgl_ends lm ls \<and> sgl_ends rm rs \<Longrightarrow>
    \<exists>w tot'. sgl_walk bytes lm rm l r tot = Some (w, tot') \<and>
      unat tot' = unat tot + min (length (pos_rest ls l)) (length (pos_rest rs r)) \<and>
      concat (map walk_pairs w) = zip (pos_rest rs r) (pos_rest ls l) \<and> length w \<le> k \<and>
      (\<forall>(n, lpa, rpa) \<in> set w. unat lpa + unat n < 2 ^ 37)"
proof (induction k arbitrary: l r tot rule: less_induct)
  case (less k)
  let ?A = "pos_rest ls l" and ?B = "pos_rest rs r"
  show ?case
  proof (cases "sgl_idx l < length ls \<and> sgl_idx r < length rs")
    case False
    then have "?A = [] \<or> ?B = []" "cur_pa l = 0 \<or> cur_pa r = 0"
      using less.prems(1,2) by (auto simp: pos_rest_def pos_ok_def)
    then show ?thesis by (intro exI[of _ "[]"] exI[of _ tot]) (subst sgl_walk.simps, auto)
  next
    case True
    then have i: "sgl_idx l < length ls" "sgl_idx r < length rs" by auto
    then have pa: "\<not> (cur_pa l = 0 \<or> cur_pa r = 0)" and lb: "unat (cur_pa l) + unat (cur_memlength l) < 2 ^ 37"
      using less.prems(1,2) by (simp_all add: pos_ok_def)
    obtain l' r' where A: "sgl_advance lm rm l r = (l', r')"
      "?A = addr_span (cur_pa l) (sgl_len l r) @ pos_rest ls l'" "?B = addr_span (cur_pa r) (sgl_len l r) @ pos_rest rs r'"
      "length ls + length rs - (sgl_idx l' + sgl_idx r') < length ls + length rs - (sgl_idx l + sgl_idx r)"
      "pos_rest ls l' \<noteq> [] \<or> sgl_ends lm ls \<Longrightarrow> pos_rest rs r' \<noteq> [] \<or> sgl_ends rm rs \<Longrightarrow> pos_ok ls l' \<and> pos_ok rs r'"
      using sgl_advance_split[OF at less.prems(1,2) i] by metis
    let ?n = "sgl_len l r"
    let ?t = "tot + ucast ?n" and ?m = "min (length (pos_rest ls l')) (length (pos_rest rs r'))"
    have m: "min (length ?A) (length ?B) = unat ?n + ?m" using A(2,3) by simp
    have b: "unat tot + unat ?n + ?m \<le> unat bytes" using less.prems(4) m by simp
    have t: "unat ?t = unat tot + unat ?n" "unat (ucast ?t :: u64) = unat tot + unat ?n"
      by (rule word_sum_u32, use b small in linarith)+
    have len: "read_len bytes ?t ?n = ?n" using t b by (simp add: read_len_def word_less_nat_alt)
    have z: "walk_pairs (?n, cur_pa l, cur_pa r) @ zip (pos_rest rs r') (pos_rest ls l') = zip ?B ?A"
      using A(2,3) by (simp add: walk_pairs_def)
    have ln: "unat (cur_pa l) + unat ?n < 2 ^ 37" using lb by (simp add: sgl_len_unat)
    have k0: "0 < k" using i less.prems(3) by simp
    note e = sgl_walk.simps[of bytes lm rm l r tot, unfolded if_not_P[OF pa] Let_def len A(1) fst_conv snd_conv]
    show ?thesis
    proof (cases "bytes \<le> ucast ?t")
      case True
      then have "?m = 0" using b t by (simp add: word_le_nat_alt)
      then have "zip (pos_rest rs r') (pos_rest ls l') = []" by (auto simp: min_def split: if_splits)
      with True z ln k0 m t \<open>?m = 0\<close> show ?thesis
        by (intro exI[of _ "[(?n, cur_pa l, cur_pa r)]"] exI[of _ ?t]) (simp add: e)
    next
      case False
      then have lt: "unat ?t < unat bytes" using t by (simp add: word_le_nat_alt)
      have "?m \<noteq> 0 \<or> sgl_ends lm ls \<and> sgl_ends rm rs" using less.prems(6) m t lt by auto
      then have ok': "pos_ok ls l'" "pos_ok rs r'" using A(5) by auto
      define k' where "k' = length ls + length rs - (sgl_idx l' + sgl_idx r')"
      have k': "k' < k" using A(4) less.prems(3) by (simp add: k'_def)
      from less.IH[OF k' ok' k'_def, of ?t] b t lt less.prems(6) m obtain w tot' where
        R: "sgl_walk bytes lm rm l' r' ?t = Some (w, tot')" "unat tot' = unat ?t + ?m"
        "concat (map walk_pairs w) = zip (pos_rest rs r') (pos_rest ls l')" "length w \<le> k'"
        "\<forall>(n, lpa, rpa) \<in> set w. unat lpa + unat n < 2 ^ 37" by auto
      show ?thesis
        by (intro exI[of _ "(?n, cur_pa l, cur_pa r) # w"] exI[of _ tot']) (use e False R k' z ln m t in simp)
    qed
  qed
qed

section \<open>The transfer\<close>

lemma rget_descs:
  assumes "pa AND 7 = 0"
  shows "\<exists>ds. list_all2 (\<lambda>p d. rget_desc c pa p = Some d) w ds"
proof (induction w)
  case (Cons p w)
  obtain d where "rget_desc c pa p = Some d"
    using assms by (cases p) (auto simp: rget_desc_def patch_directput_def set_counter_directput_def)
  with Cons show ?case by (auto simp: list_all2_Cons1)
qed simp

lemma rget_descs_pairs:
  assumes "list_all2 (\<lambda>p d. rget_desc c pa p = Some d) w ds" "\<forall>(n, lpa, rpa) \<in> set w. unat lpa + unat n < 2 ^ 37"
    "take_bit 36 pa = pa"
  shows "concat (map put_pairs ds) = concat (map walk_pairs w) \<and>
    (\<forall>d \<in> set ds. counter_address (muh d) = pa \<and> NetworkHeader d = NetworkHeader (mu_iDirectPutDescriptor4rget c))"
  using assms(1,2)
proof (induction rule: list_all2_induct)
  case (Cons p w d ds)
  obtain n lpa rpa where p: "p = (n, lpa, rpa)" by (metis prod_cases3)
  have "patch_directput n rpa lpa pa (mu_iDirectPutDescriptor4rget c) = Some d" "unat lpa < 2 ^ 37"
    using Cons.hyps(1) Cons.prems by (simp_all add: p rget_desc_def)
  note P = patch_directput_pairs[OF this]
  show ?case using Cons.IH Cons.prems P(1,2) P(3)[OF assms(3)] by (simp add: p walk_pairs_def)
qed simp

lemma rread_start:
  assumes "length (pkt_mem mc pl k) = 512" "links_room n room (injfifo_ctls mc)"
  shows "rread_at mc x pl k n room [] [] \<lparr>rr_mc = mc, putdesc_count = 0, rr_desc_count = -1, rr_msgs = []\<rparr>"
proof -
  have "mc = rread_ctx mc x pl k (rget_memfifo_sent (conns mc x)) (injfifo_ctls mc) (pkt_mem mc pl k)"
    by (simp add: rread_ctx_def upd_conn_def)
  with assms show ?thesis unfolding rread_at_def
    by (intro exI[of _ "rget_memfifo_sent (conns mc x)"] exI[of _ "injfifo_ctls mc"] exI[of _ "pkt_mem mc pl k"] exI[of _ "[]"])
      (simp add: bundle_bytes_def)
qed

text \<open>The loop over lists that hold the bytes, and the last bundle behind it.\<close>

lemma read_transfer:
  assumes hs: "hws_live hs" and at: "sgl_at lm ls" "sgl_at rm rs"
    and size: "min (length (sgl_addrs ls)) (length (sgl_addrs rs)) = unat bytes" "bytes \<noteq> 0" "unat bytes < 2 ^ 32"
    and pa: "pa AND 7 = 0" "take_bit 36 pa = pa" and buf: "length (pkt_mem mc pl k) = 512"
    and room: "links_room n (length ls + length rs + 1) (injfifo_ctls mc)"
    and hw: "hw_completes hs (injfifo_of (conns mc x))
      (length (ctl_log (injfifo_ctls mc (injfifo_of (conns mc x)))) + length ls + length rs)"
  shows "\<exists>tot st st1 dss cur. rdma_read_loop hs x pl k pa bytes lm rm (sgl_load lm 0) (sgl_load rm 0) 0
      \<lparr>rr_mc = mc, putdesc_count = 0, rr_desc_count = -1, rr_msgs = []\<rparr> = Some (tot, st) \<and>
    (ucast tot :: u64) = bytes \<and> send_rest hs x pl k st = Some st1 \<and> rread_at mc x pl k n 0 dss cur st1 \<and>
    concat (map put_pairs (concat dss)) = zip (sgl_addrs rs) (sgl_addrs ls) \<and> length (concat dss) \<le> length ls + length rs \<and>
    (\<forall>d \<in> set (concat dss). counter_address (muh d) = pa \<and> NetworkHeader d = NetworkHeader (mu_iDirectPutDescriptor4rget (conns mc x)))"
proof -
  let ?l = "injfifo_of (conns mc x)"
  let ?N = "length (ctl_log (injfifo_ctls mc ?l)) + length ls + length rs"
  have ne: "ls \<noteq> []" "rs \<noteq> []" using size(1,2) by (auto simp: sgl_addrs_def unat_eq_0)
  have L: "pos_ok ls (sgl_load lm 0)" "pos_ok rs (sgl_load rm 0)" "pos_rest ls (sgl_load lm 0) = sgl_addrs ls"
    "pos_rest rs (sgl_load rm 0) = sgl_addrs rs" "sgl_idx (sgl_load lm 0) = 0" "sgl_idx (sgl_load rm 0) = 0"
    using sgl_load_ok[OF at(1), of 0] sgl_load_ok[OF at(2), of 0] sgl_load_rest[OF at(1), of 0] sgl_load_rest[OF at(2), of 0] ne
    by (simp_all add: sgl_load_def)
  obtain w tot where W: "sgl_walk bytes lm rm (sgl_load lm 0) (sgl_load rm 0) 0 = Some (w, tot)" "unat tot = unat bytes"
    "concat (map walk_pairs w) = zip (sgl_addrs rs) (sgl_addrs ls)" "length w \<le> length ls + length rs"
    "\<forall>(n, lpa, rpa) \<in> set w. unat lpa + unat n < 2 ^ 37"
    using sgl_walk_rep[OF at size(3) L(1,2), of "length ls + length rs" 0] L size by (auto simp: unat_gt_0)
  have wne: "w \<noteq> []"
  proof
    assume "w = []"
    then have "min (length (sgl_addrs rs)) (length (sgl_addrs ls)) = 0" using W(3) by (metis concat.simps(1) length_zip list.map(1) list.size(3))
    then show False using size(1,2) by (simp add: min.commute unat_eq_0)
  qed
  have tot: "(ucast tot :: u64) = bytes"
    using W(2) size(3) by (simp add: word_unat_eq_iff unsigned_ucast_eq take_bit_nat_eq_self)
  obtain ds where ds: "list_all2 (\<lambda>p d. rget_desc (conns mc x) pa p = Some d) w ds" using rget_descs[OF pa(1)] by blast
  note DP = rget_descs_pairs[OF ds W(5) pa(2)]
  have "links_room n (length w + 1) (injfifo_ctls mc)" using room by (rule links_room_mono) (use W(4) in simp)
  note at0 = rread_start[OF buf this, of x]
  have N: "?N < 2 ^ 63" "?N + 1 < 2 ^ 63" using room by (auto simp: links_room_def dest!: spec[of _ ?l])
  have "length (ctl_log (injfifo_ctls mc ?l)) + length (concat [] @ [] @ ds) \<le> ?N"
    using list_all2_lengthD[OF ds] W(4) by simp
  from read_puts_rep[OF hs hw N(1) at0 ds this] wne obtain st dss cur where
    P: "read_puts hs x pl k pa w \<lparr>rr_mc = mc, putdesc_count = 0, rr_desc_count = -1, rr_msgs = []\<rparr> = Some st"
    "rread_at mc x pl k n (Suc 0) dss cur st" "concat dss @ cur = ds" "cur \<noteq> []" by auto
  from send_bundle_rep[OF hs P(2,4)] obtain st1 where
    S: "send_bundle hs x pl k st = Some st1" "rread_at mc x pl k n 0 (dss @ [cur]) cur st1" by blast
  have "0 < putdesc_count st" using P(2,4) by (auto simp: rread_at_def)
  then have sr: "send_rest hs x pl k st = Some st1" using S(1) by (simp add: send_rest_def)
  have c: "concat (dss @ [cur]) = ds" using P(3) by simp
  have "rdma_read_loop hs x pl k pa bytes lm rm (sgl_load lm 0) (sgl_load rm 0) 0
      \<lparr>rr_mc = mc, putdesc_count = 0, rr_desc_count = -1, rr_msgs = []\<rparr> = Some (tot, st)"
    using read_loop_walk[OF W(1)] P(1) by simp
  moreover have "concat (map put_pairs ds) = zip (sgl_addrs rs) (sgl_addrs ls)" using DP W(3) by simp
  moreover have "length ds \<le> length ls + length rs" using list_all2_lengthD[OF ds] W(4) by simp
  ultimately show ?thesis using tot sr S(2) DP c
    by (intro exI[of _ tot] exI[of _ st] exI[of _ st1] exI[of _ "dss @ [cur]"] exI[of _ cur]) metis
qed

lemma read_ctx_setup:
  assumes "pkt_free_list (packetcontrols mc pl) = Some k" "rdma_free_list (rdma_obj_ctls mc pl) = Some ob"
  obtains pc rc where "alloc_pkt_message (packetcontrols mc pl) = (Some k, pc)"
    "message_pa (pkt_nodes pc k) = message_pa (pkt_nodes (packetcontrols mc pl) k)"
    "allocate_rdma_object (rdma_obj_ctls mc pl) = (Some ob, rc)"
    "rdma_object_pa (ro_nodes rc ob) = rdma_object_pa (ro_nodes (rdma_obj_ctls mc pl) ob)"
  using assms by (auto simp: alloc_pkt_message_def allocate_rdma_object_def Let_def)

lemma mudm_rdma_read_total:
  assumes hs: "hws_live hs" and ma: "conn_magic_ok (conns mc x)" and at: "sgl_at lm ls" "sgl_at rm rs"
    and size: "min (length (sgl_addrs ls)) (length (sgl_addrs rs)) = unat bytes" "bytes \<noteq> 0" "unat bytes < 2 ^ 32"
    and l: "l = injfifo_of (conns mc x)" "pl = pools_of (conns mc x)"
    and pool: "pkt_free_list (packetcontrols mc pl) = Some k" "length (pkt_mem mc pl k) = 512"
    and obj: "rdma_free_list (rdma_obj_ctls mc pl) = Some ob" "pa = rdma_object_pa (ro_nodes (rdma_obj_ctls mc pl) ob)"
      "pa AND 7 = 0" "take_bit 36 pa = pa"
    and room: "links_room n (length ls + length rs + 1) (injfifo_ctls mc)"
    and hw: "hw_completes hs l (length (ctl_log (injfifo_ctls mc l)) + length ls + length rs)"
  shows "\<exists>st dss ps. mudm_rdma_read hs cnt now x rid rem bytes lm rm mc = Some (RetErr EINPROGRESS, st) \<and>
    ctl_log (injfifo_ctls (rr_mc st) l) = ctl_log (injfifo_ctls mc l) @ map MemFifoDesc ps \<and>
    list_all2 (bundle_packet (conns mc x) (message_pa (pkt_nodes (packetcontrols mc pl) k))) ps dss \<and>
    rr_msgs st = map bundle_bytes dss \<and> (\<forall>ds \<in> set dss. 0 < length ds \<and> length ds \<le> 8) \<and>
    concat (map put_pairs (concat dss)) = zip (sgl_addrs rs) (sgl_addrs ls) \<and> length (concat dss) \<le> length ls + length rs \<and>
    (\<forall>d \<in> set (concat dss). counter_address (muh d) = pa \<and>
       NetworkHeader d = NetworkHeader (mu_iDirectPutDescriptor4rget (conns mc x))) \<and>
    counter_list (rdma_obj_ctls (rr_mc st) pl) = Some ob \<and>
    mues (rdma_obj_ctls (rr_mc st) pl) ob = \<lparr>mu_counter = bytes, mu_error = 0\<rparr> \<and>
    local_request_id (ro_nodes (rdma_obj_ctls (rr_mc st) pl) ob) = rid"
proof -
  obtain pc rc where A: "alloc_pkt_message (packetcontrols mc pl) = (Some k, pc)"
    "message_pa (pkt_nodes pc k) = message_pa (pkt_nodes (packetcontrols mc pl) k)"
    "allocate_rdma_object (rdma_obj_ctls mc pl) = (Some ob, rc)" "rdma_object_pa (ro_nodes rc ob) = pa"
    using read_ctx_setup[OF pool(1) obj(1)] obj(2) by metis
  define mc2 where "mc2 = upd_rdma pl (\<lambda>_. set_rdma_obj ob bytes rid rem x rc) (upd_packets pl (\<lambda>_. pc) mc)"
  have m2: "conns mc2 = conns mc" "injfifo_ctls mc2 = injfifo_ctls mc" "pkt_mem mc2 = pkt_mem mc"
    "packetcontrols mc2 pl = pc" "rdma_obj_ctls mc2 pl = set_rdma_obj ob bytes rid rem x rc"
    by (simp_all add: mc2_def upd_rdma_def upd_packets_def)
  have h2: "length (pkt_mem mc2 pl k) = 512" "links_room n (length ls + length rs + 1) (injfifo_ctls mc2)"
    "hw_completes hs (injfifo_of (conns mc2 x))
      (length (ctl_log (injfifo_ctls mc2 (injfifo_of (conns mc2 x)))) + length ls + length rs)"
    using pool(2) room hw l(1) m2 by simp_all
  obtain tot st st1 dss cur where
    T: "rdma_read_loop hs x pl k pa bytes lm rm (sgl_load lm 0) (sgl_load rm 0) 0
        \<lparr>rr_mc = mc2, putdesc_count = 0, rr_desc_count = -1, rr_msgs = []\<rparr> = Some (tot, st)"
    "(ucast tot :: u64) = bytes" "send_rest hs x pl k st = Some st1" "rread_at mc2 x pl k n 0 dss cur st1"
    "concat (map put_pairs (concat dss)) = zip (sgl_addrs rs) (sgl_addrs ls)" "length (concat dss) \<le> length ls + length rs"
    "\<forall>d \<in> set (concat dss). counter_address (muh d) = pa \<and> NetworkHeader d = NetworkHeader (mu_iDirectPutDescriptor4rget (conns mc2 x))"
    using read_transfer[OF hs at size obj(3,4) h2] by metis
  define st2 where "st2 = st1\<lparr>rr_mc := conn_pkt_sent hs now x k (rr_desc_count st1)
    (upd_rdma pl (release_rdma_obj_to_poll ob) (rr_mc st1))\<rparr>"
  have e: "mudm_rdma_read hs cnt now x rid rem bytes lm rm mc = Some (RetErr EINPROGRESS, st2)"
    using ma A T(1-3) l(2) by (simp add: mudm_rdma_read_def read_finish_def Let_def st2_def mc2_def upd_packets_def)
  obtain s js m ps where B: "rr_mc st1 = rread_ctx mc2 x pl k s js m" "rr_msgs st1 = map bundle_bytes dss"
    "\<forall>ds \<in> set dss. 0 < length ds \<and> length ds \<le> 8" "ctl_log (js l) = ctl_log (injfifo_ctls mc l) @ map MemFifoDesc ps"
    "list_all2 (bundle_packet (conns mc x) (message_pa (pkt_nodes (packetcontrols mc pl) k))) ps dss"
    using T(4) m2 A(2) l(1) by (auto simp: rread_at_def)
  have r: "rdma_obj_ctls (rr_mc st2) pl = release_rdma_obj_to_poll ob (set_rdma_obj ob bytes rid rem x rc)"
    using m2(5) B(1) by (simp add: st2_def upd_rdma_def)
  have lg: "ctl_log (injfifo_ctls (rr_mc st2) l) = ctl_log (js l)"
    using B(1) by (simp add: st2_def conn_pkt_sent_frame upd_rdma_def)
  show ?thesis unfolding m2(1)[symmetric]
    by (rule exI[of _ st2], rule exI[of _ dss], rule exI[of _ ps])
      (use e lg B T(5-7) r m2(1) in \<open>simp add: st2_def release_rdma_obj_to_poll_def set_rdma_obj_def\<close>)
qed

section \<open>At the peer\<close>

text \<open>
  What the network is relied on: for the memory \<open>m\<close> of a packet of type \<^verbatim>\<open>MUDM_DPUT\<close> it delivers a
  packet with the bytes of \<open>m\<close> and their number of 32-byte chunks, on the FIFO of link \<open>lp\<close>.
\<close>

definition dput_arrival :: "my_context \<Rightarrow> nat \<Rightarrow> u8 list \<Rightarrow> mu_packet \<Rightarrow> bool" where
  "dput_arrival mc lp m p \<longleftrightarrow> ptype (pk_sw p) = MUDM_DPUT \<and> pk_payload p = m \<and>
     unat (get_Size (pk_net p)) = length m div 32 \<and>
     lp = (if ucast (Rec_FIFO_Id (pk_muh p)) = sys_rec_fifo_id mc 0 then 0 else 1)"

lemma bundle_carried:
  assumes "dput_arrival mc lp (bundle_bytes ds) p" "\<forall>d \<in> set ds. typed_desc (DirectPutDesc d)"
  shows "carries_descs (map DirectPutDesc ds) p"
proof -
  have "concat (map inj_bytes (map DirectPutDesc ds)) = bundle_bytes ds" by (simp add: bundle_bytes_def comp_def)
  moreover have "length (bundle_bytes ds) div 32 = 2 * length ds" by (simp add: length_bundle_bytes)
  ultimately show ?thesis using assms by (auto simp: dput_arrival_def carries_descs_def)
qed

lemma recv_bundles:
  assumes hs: "hws_live hs"
  shows "list_all2 (dput_arrival mc lp) (map bundle_bytes dss) arr \<Longrightarrow>
    \<forall>d \<in> set (concat dss). typed_desc (DirectPutDesc d) \<Longrightarrow> ctl_inv n (injfifo_ctls mc lp) \<Longrightarrow>
    length (ctl_log (injfifo_ctls mc lp)) + length (concat dss) < 2 ^ 63 \<Longrightarrow>
    \<exists>c. recv_all hs e tb arr (j, mc) = Some (j + length arr, mc\<lparr>injfifo_ctls := (injfifo_ctls mc)(lp := c)\<rparr>) \<and>
      ctl_log c = ctl_log (injfifo_ctls mc lp) @ map DirectPutDesc (concat dss)"
proof (induction dss arbitrary: arr mc j)
  case Nil
  then show ?case by (intro exI[of _ "injfifo_ctls mc lp"]) simp
next
  case (Cons ds dss)
  then obtain p ps where arr: "arr = p # ps" "dput_arrival mc lp (bundle_bytes ds) p"
    "list_all2 (dput_arrival mc lp) (map bundle_bytes dss) ps" by (auto simp: list_all2_Cons1)
  have "carries_descs (map DirectPutDesc ds) p" by (rule bundle_carried[OF arr(2)]) (use Cons.prems(2) in auto)
  from multi_directput_total[OF this hs Cons.prems(3)] Cons.prems(4) obtain c where
    M: "multi_directput hs lp p mc = Some (mc\<lparr>injfifo_ctls := (injfifo_ctls mc)(lp := c)\<rparr>)"
    "ctl_log c = ctl_log (injfifo_ctls mc lp) @ map DirectPutDesc ds" "ctl_inv n c" by auto
  define mc1 where "mc1 = mc\<lparr>injfifo_ctls := (injfifo_ctls mc)(lp := c)\<rparr>"
  have r: "mudm_recv_packet hs e (tb j) p mc = Some mc1"
    using M(1) arr(2) by (auto simp: mudm_recv_packet_def dput_arrival_def NUM_IO_LINKS_def mc1_def)
  have "dput_arrival mc1 lp = dput_arrival mc lp" by (intro ext) (simp add: dput_arrival_def mc1_def)
  then have "list_all2 (dput_arrival mc1 lp) (map bundle_bytes dss) ps" using arr(3) by simp
  moreover have "\<forall>d \<in> set (concat dss). typed_desc (DirectPutDesc d)" using Cons.prems(2) by auto
  moreover have "ctl_inv n (injfifo_ctls mc1 lp)" "length (ctl_log (injfifo_ctls mc1 lp)) + length (concat dss) < 2 ^ 63"
    using M(2,3) Cons.prems(4) by (simp_all add: mc1_def)
  ultimately obtain c' where
    R: "recv_all hs e tb ps (Suc j, mc1) = Some (Suc j + length ps, mc1\<lparr>injfifo_ctls := (injfifo_ctls mc1)(lp := c')\<rparr>)"
    "ctl_log c' = ctl_log (injfifo_ctls mc1 lp) @ map DirectPutDesc (concat dss)" using Cons.IH by meson
  have f: "(injfifo_ctls mc1)(lp := c') = (injfifo_ctls mc)(lp := c')" by (simp add: mc1_def fun_eq_iff)
  have "mc1\<lparr>injfifo_ctls := (injfifo_ctls mc1)(lp := c')\<rparr> = mc\<lparr>injfifo_ctls := (injfifo_ctls mc)(lp := c')\<rparr>"
    unfolding f by (simp add: mc1_def)
  with R(1) r have "recv_all hs e tb arr (j, mc) = Some (j + length arr, mc\<lparr>injfifo_ctls := (injfifo_ctls mc)(lp := c')\<rparr>)"
    unfolding arr(1) recv_all.simps fst_conv snd_conv r option.case by simp
  moreover have "ctl_log c' = ctl_log (injfifo_ctls mc lp) @ map DirectPutDesc (concat (ds # dss))"
    using R(2) M(2) by (simp add: mc1_def)
  ultimately show ?case by blast
qed

section \<open>Lists that are too short\<close>

text \<open>The loop when the lists end before the bytes to transfer do, in at most eight puts.\<close>

lemma read_short:
  assumes hs: "hws_live hs" and at: "sgl_at lm ls" "sgl_at rm rs" and ends: "sgl_ends lm ls" "sgl_ends rm rs"
    and size: "min (length (sgl_addrs ls)) (length (sgl_addrs rs)) < unat bytes" "unat bytes < 2 ^ 32"
    and few: "length ls + length rs \<le> 8" and pa: "pa AND 7 = 0" and buf: "length (pkt_mem mc pl k) = 512"
    and room: "links_room n (length ls + length rs + 1) (injfifo_ctls mc)"
    and hw: "hw_completes hs (injfifo_of (conns mc x))
      (length (ctl_log (injfifo_ctls mc (injfifo_of (conns mc x)))) + length ls + length rs)"
  shows "\<exists>tot st cur. rdma_read_loop hs x pl k pa bytes lm rm (sgl_load lm 0) (sgl_load rm 0) 0
      \<lparr>rr_mc = mc, putdesc_count = 0, rr_desc_count = -1, rr_msgs = []\<rparr> = Some (tot, st) \<and>
    (ucast tot :: u64) < bytes \<and> rread_at mc x pl k n 1 [] cur st"
proof -
  let ?l = "injfifo_of (conns mc x)"
  let ?N = "length (ctl_log (injfifo_ctls mc ?l)) + length ls + length rs"
  have L: "pos_ok ls (sgl_load lm 0)" "pos_ok rs (sgl_load rm 0)" "pos_rest ls (sgl_load lm 0) = sgl_addrs ls"
    "pos_rest rs (sgl_load rm 0) = sgl_addrs rs" "sgl_idx (sgl_load lm 0) = 0" "sgl_idx (sgl_load rm 0) = 0"
    using sgl_load_ok[OF at(1), of 0] sgl_load_ok[OF at(2), of 0] sgl_load_rest[OF at(1), of 0] sgl_load_rest[OF at(2), of 0] ends
    by (simp_all add: sgl_load_def)
  obtain w tot where W: "sgl_walk bytes lm rm (sgl_load lm 0) (sgl_load rm 0) 0 = Some (w, tot)"
    "unat tot = min (length (sgl_addrs ls)) (length (sgl_addrs rs))" "length w \<le> length ls + length rs"
    using sgl_walk_rep[OF at size(2) L(1,2), of "length ls + length rs" 0] L size(1) ends by auto
  have tot: "(ucast tot :: u64) < bytes"
    using W(2) size by (simp add: word_less_nat_alt unsigned_ucast_eq take_bit_nat_eq_self)
  obtain ds where ds: "list_all2 (\<lambda>p d. rget_desc (conns mc x) pa p = Some d) w ds" using rget_descs[OF pa] by blast
  have "links_room n (length w + 1) (injfifo_ctls mc)" using room by (rule links_room_mono) (use W(3) in simp)
  note at0 = rread_start[OF buf this, of x]
  have N: "?N < 2 ^ 63" using room by (auto simp: links_room_def dest!: spec[of _ ?l])
  have "length (ctl_log (injfifo_ctls mc ?l)) + length (concat [] @ [] @ ds) \<le> ?N"
    using list_all2_lengthD[OF ds] W(3) by simp
  from read_puts_rep[OF hs hw N at0 ds this] W(3) few obtain st dss cur where
    "read_puts hs x pl k pa w \<lparr>rr_mc = mc, putdesc_count = 0, rr_desc_count = -1, rr_msgs = []\<rparr> = Some st"
    "rread_at mc x pl k n 1 dss cur st" "dss = []" by auto
  with read_loop_walk[OF W(1)] tot show ?thesis
    by (intro exI[of _ tot] exI[of _ st] exI[of _ cur]) simp
qed

lemma put_einval_total:
  assumes hs: "hws_live hs" and ctl: "ctl_inv n (is (injfifo_of cc))" and obj: "ro AND 7 = 0" "take_bit 36 ro = ro"
  shows "\<exists>d ct cnt. put_einval hs ro cc mc is = Some (cnt, is(injfifo_of cc := ct)) \<and>
    ctl_log ct = ctl_log (is (injfifo_of cc)) @ [DirectPutDesc d] \<and>
    put_pairs d = zip (addr_span (rdma_EINVAL_source_pa (notice_sources mc)) 8) (addr_span (ro + 8) 8) \<and>
    counter_address (muh d) = ro"
proof -
  have "unat ro < 2 ^ 36" using obj(2) by (metis take_bit_nat_less_exp unsigned_take_bit_eq)
  then have b: "unat (ro + 8) < 2 ^ 37" by (subst unat_add_lem[THEN iffD1]) simp_all
  from direct_put_total[of hs n "is" cc ro 8 "rdma_EINVAL_source_pa (notice_sources mc)" "ro + 8", OF hs ctl obj(1)]
  obtain d ct where
    D: "patch_directput 8 (rdma_EINVAL_source_pa (notice_sources mc)) (ro + 8) ro (mu_iDirectPutDescriptor cc) = Some d"
      "direct_put hs (rdma_EINVAL_source_pa (notice_sources mc)) (ro + 8) 8 ro cc is =
        Some (of_nat (Suc (length (ctl_log (is (injfifo_of cc))))), is(injfifo_of cc := ct))"
      "ctl_log ct = ctl_log (is (injfifo_of cc)) @ [DirectPutDesc d]" by blast
  note P = patch_directput_pairs[OF D(1) b]
  from D(2,3) P(1) P(3)[OF obj(2)] show ?thesis unfolding put_einval_def by blast
qed

section \<open>Properties\<close>


lemma demo_conn_4rget: "mu_iDirectPutDescriptor4rget demo_conn = MUSPI_DescriptorZeroOut zero_direct_put_hdr"
  by (simp add: demo_conn_def)

text \<open>A hardware that has processed up to a thousand descriptors, for the examples.\<close>

definition busy_hws :: hws where
  "busy_hws = (\<lambda>_ _. \<lparr>hw_freeSpace = 3, hw_descCount = 1000, hw_state = 1\<rparr>)"

lemma busy_hws_live: "hws_live busy_hws" "N \<le> 1000 \<Longrightarrow> hw_completes busy_hws l N"
  by (simp_all add: hws_live_def hw_live_def busy_hws_def hw_completes_def)



text \<open>For the example: the reader's connection with a template for puts, and the delivery of a packet.\<close>

definition demo_reader :: my_context where
  "demo_reader = upd_conn 0 (\<lambda>c. c\<lparr>mu_iDirectPutDescriptor4rget := (MUSPI_DescriptorZeroOut zero_direct_put_hdr)
     \<lparr>NetworkHeader := zero_net_header\<lparr>Byte8 := 0x40\<rparr>\<rparr>\<rparr>) (demo_ctx 4 (LActive 0))"

definition demo_delivery :: "u8 list \<Rightarrow> mu_packet" where
  "demo_delivery m = (demo_wire MUDM_DPUT)\<lparr>pk_net := zero_net_header\<lparr>Byte8 := of_nat (length m div 32)\<rparr>, pk_payload := m\<rparr>"

lemma demo_delivery_arrives:
  assumes "length m \<le> 512"
  shows "dput_arrival (demo_ctx 9 LFree) 1 m (demo_delivery m)"
proof -
  let ?k = "length m div 32"
  have k: "?k < 32" using assms by simp
  have "(0x1f :: u8) = mask 5" by (simp add: mask_eq_exp_minus_1)
  then have "(of_nat ?k :: u8) AND 0x1f = take_bit 5 (of_nat ?k)" by (simp add: take_bit_eq_mask)
  then have "unat ((of_nat ?k :: u8) AND 0x1f) = take_bit 5 (unat (of_nat ?k :: u8))" by (simp only: unsigned_take_bit_eq)
  also have "\<dots> = ?k" using k by (simp add: unsigned_of_nat take_bit_nat_eq_self)
  finally have "unat ((of_nat ?k :: u8) AND 0x1f) = ?k" .
  then show ?thesis
    by (simp add: dput_arrival_def demo_delivery_def get_Size_def demo_wire_packet(2))
      (simp add: demo_wire_def zero_memory_fifo_def demo_ctx_def)
qed


text \<open>
  A read of lists that are too short.  When the lists end early and fit into one packet,
  \<^verbatim>\<open>mudm_rdma_read\<close> returns \<^verbatim>\<open>-EINVAL\<close>, has sent no descriptors to the peer, tells it of the error
  exactly if an object was named to tell it at, and gives both the packet and the RDMA object back.
\<close>

theorem mudm_rdma_read_short:
  assumes hs: "hws_live hs" and ma: "conn_magic_ok (conns mc x)" and at: "sgl_at lm ls" "sgl_at rm rs"
    and ends: "sgl_ends lm ls" "sgl_ends rm rs"
    and size: "min (length (sgl_addrs ls)) (length (sgl_addrs rs)) < unat bytes" "unat bytes < 2 ^ 32" "length ls + length rs \<le> 8"
    and l: "l = injfifo_of (conns mc x)" "pl = pools_of (conns mc x)"
    and pool: "pkt_free_list (packetcontrols mc pl) = Some k" "length (pkt_mem mc pl k) = 512"
    and obj: "rdma_free_list (rdma_obj_ctls mc pl) = Some ob" "rdma_object_pa (ro_nodes (rdma_obj_ctls mc pl) ob) AND 7 = 0"
    and rem: "rem AND 7 = 0" "take_bit 36 rem = rem"
    and room: "links_room n (length ls + length rs + 1) (injfifo_ctls mc)"
    and hw: "hw_completes hs l (length (ctl_log (injfifo_ctls mc l)) + length ls + length rs)"
  shows "\<exists>st. mudm_rdma_read hs cnt now x rid rem bytes lm rm mc = Some (RetErr EINVAL, st) \<and> rr_msgs st = [] \<and>
    pkt_free_list (packetcontrols (rr_mc st) pl) = Some k \<and> rdma_free_list (rdma_obj_ctls (rr_mc st) pl) = Some ob \<and>
    (if rem = 0 then ctl_log (injfifo_ctls (rr_mc st) l) = ctl_log (injfifo_ctls mc l)
     else \<exists>d. ctl_log (injfifo_ctls (rr_mc st) l) = ctl_log (injfifo_ctls mc l) @ [DirectPutDesc d] \<and>
       put_pairs d = zip (addr_span (rdma_EINVAL_source_pa (notice_sources mc)) 8) (addr_span (rem + 8) 8) \<and>
       counter_address (muh d) = rem)"
proof -
  obtain pc rc where A: "alloc_pkt_message (packetcontrols mc pl) = (Some k, pc)"
    "allocate_rdma_object (rdma_obj_ctls mc pl) = (Some ob, rc)"
    "rdma_object_pa (ro_nodes rc ob) = rdma_object_pa (ro_nodes (rdma_obj_ctls mc pl) ob)"
    using read_ctx_setup[OF pool(1) obj(1)] by metis
  define pa where "pa = rdma_object_pa (ro_nodes rc ob)"
  define mc2 where "mc2 = upd_rdma pl (\<lambda>_. set_rdma_obj ob bytes rid rem x rc) (upd_packets pl (\<lambda>_. pc) mc)"
  have m2: "conns mc2 = conns mc" "injfifo_ctls mc2 = injfifo_ctls mc" "pkt_mem mc2 = pkt_mem mc" "notice_sources mc2 = notice_sources mc"
    by (simp_all add: mc2_def upd_rdma_def upd_packets_def)
  have h2: "length (pkt_mem mc2 pl k) = 512" "links_room n (length ls + length rs + 1) (injfifo_ctls mc2)"
    "hw_completes hs (injfifo_of (conns mc2 x))
      (length (ctl_log (injfifo_ctls mc2 (injfifo_of (conns mc2 x)))) + length ls + length rs)" "pa AND 7 = 0"
    using pool(2) room hw l(1) m2 obj(2) A(3) by (simp_all add: pa_def)
  from read_short[OF hs at ends size h2(4,1-3)] obtain tot st cur where
    T: "rdma_read_loop hs x pl k pa bytes lm rm (sgl_load lm 0) (sgl_load rm 0) 0
        \<lparr>rr_mc = mc2, putdesc_count = 0, rr_desc_count = -1, rr_msgs = []\<rparr> = Some (tot, st)"
    "(ucast tot :: u64) < bytes" "rread_at mc2 x pl k n 1 [] cur st" by metis
  obtain s js m where B: "rr_mc st = rread_ctx mc2 x pl k s js m" "rr_msgs st = []" "rr_desc_count st = -1" "links_room n 1 js"
    "ctl_log (js l) = ctl_log (injfifo_ctls mc l)"
    using T(3) m2 l(1) by (auto simp: rread_at_def)
  have e: "mudm_rdma_read hs cnt now x rid rem bytes lm rm mc = map_option (\<lambda>(desc_count, mc). (RetErr EINVAL,
      st\<lparr>rr_mc := upd_rdma pl (free_rdma_obj ob) (upd_packets pl (release_pkt_to_free k desc_count) mc)\<rparr>))
      (read_notice hs x rem (-1) (rr_mc st))"
    using ma A T(1) less_imp_neq[OF T(2)] l(2) B(3)
    by (simp add: mudm_rdma_read_def read_finish_def Let_def mc2_def upd_packets_def pa_def)
  have f: "pkt_free_list (packetcontrols (upd_rdma pl (free_rdma_obj ob) (upd_packets pl (release_pkt_to_free k c) q)) pl) = Some k"
    "rdma_free_list (rdma_obj_ctls (upd_rdma pl (free_rdma_obj ob) (upd_packets pl (release_pkt_to_free k c) q)) pl) = Some ob"
    "injfifo_ctls (upd_rdma pl (free_rdma_obj ob) (upd_packets pl (release_pkt_to_free k c) q)) = injfifo_ctls q" for c q
    by (simp_all add: upd_rdma_def upd_packets_def free_rdma_obj_def release_pkt_to_free_def Let_def)
  show ?thesis
  proof (cases "rem = 0")
    case True
    define st' where "st' = st\<lparr>rr_mc := upd_rdma pl (free_rdma_obj ob) (upd_packets pl (release_pkt_to_free k (-1)) (rr_mc st))\<rparr>"
    have "mudm_rdma_read hs cnt now x rid rem bytes lm rm mc = Some (RetErr EINVAL, st')"
      unfolding e using True by (simp add: read_notice_def st'_def)
    then show ?thesis unfolding if_P[OF True] using f B by (intro exI[of _ st']) (simp add: st'_def)
  next
    case False
    have "ctl_inv (n l) (js (injfifo_of (conns (rr_mc st) x)))" using links_room_ctl[OF B(4), of l] B(1) m2(1) l(1) by simp
    from put_einval_total[of hs "n l" js "conns (rr_mc st) x" rem "rr_mc st", OF hs this rem] obtain d ct c where
      D: "put_einval hs rem (conns (rr_mc st) x) (rr_mc st) js = Some (c, js(l := ct))"
      "ctl_log ct = ctl_log (js l) @ [DirectPutDesc d]" "counter_address (muh d) = rem"
      "put_pairs d = zip (addr_span (rdma_EINVAL_source_pa (notice_sources (rr_mc st))) 8) (addr_span (rem + 8) 8)"
      using B(1) m2(1) l(1) by auto
    have q: "notice_sources (rr_mc st) = notice_sources mc" "injfifo_ctls (rr_mc st) = js"
      using B(1) m2(4) by (simp_all add: rread_ctx_def upd_conn_def)
    define st' where "st' = st\<lparr>rr_mc := upd_rdma pl (free_rdma_obj ob)
      (upd_packets pl (release_pkt_to_free k c) ((rr_mc st)\<lparr>injfifo_ctls := js(l := ct)\<rparr>))\<rparr>"
    have "mudm_rdma_read hs cnt now x rid rem bytes lm rm mc = Some (RetErr EINVAL, st')"
      unfolding e using False D(1) q(2) by (simp add: read_notice_def st'_def)
    then show ?thesis unfolding if_not_P[OF False] using f B(2,5) D(2-4) q(1) by (intro exI[of _ st'] conjI exI[of _ d]) (simp_all add: st'_def)
  qed
qed

theorem mudm_rdma_read_short_witness:
  "\<exists>st d. mudm_rdma_read busy_hws (\<lambda>_. 0) 5 0 7 0x9000 16 (sgl_mem_of demo_local) (sgl_mem_of demo_remote)
      (demo_ctx 4 (LActive 0)) = Some (RetErr EINVAL, st) \<and> rr_msgs st = [] \<and>
    ctl_log (injfifo_ctls (rr_mc st) 0) = [DirectPutDesc d] \<and> put_pairs d = zip (addr_span 8 8) (addr_span 0x9008 8)"
proof -
  let ?mc = "demo_ctx 4 (LActive 0)"
  have size: "min (length (sgl_addrs demo_local)) (length (sgl_addrs demo_remote)) < unat (16 :: u64)"
    "unat (16 :: u64) < 2 ^ 32" "length demo_local + length demo_remote \<le> 8"
    unfolding demo_sgl_size by simp_all
  have c: "0 = injfifo_of (conns ?mc 0)" "0 = pools_of (conns ?mc 0)" "pkt_free_list (packetcontrols ?mc 0) = Some 0"
    "length (pkt_mem ?mc 0 0) = 512" "rdma_free_list (rdma_obj_ctls ?mc 0) = Some 0"
    using demo_pkts_free demo_rdma_rep by (simp_all add: demo_ctx_def demo_conn_def rdma_rep_def)
  have pa: "rdma_object_pa (ro_nodes (rdma_obj_ctls ?mc 0) 0) AND 7 = 0" "(0x9000 :: u64) AND 7 = 0"
    "take_bit 36 (0x9000 :: u64) = 0x9000"
    by (simp_all add: demo_ctx_def demo_rdma_def set_rdma_obj_def release_rdma_obj_to_poll_def)
  have r: "links_room (\<lambda>_. 4) (length demo_local + length demo_remote + 1) (injfifo_ctls ?mc)"
    unfolding demo_ctx_conn by (rule demo_injs_room) simp
  have lg: "ctl_log (injfifo_ctls ?mc 0) = []" by (simp add: demo_ctx_conn demo_injs_def ctl_log_def demo_fifo_def)
  have h: "hw_completes busy_hws 0 (length (ctl_log (injfifo_ctls ?mc 0)) + length demo_local + length demo_remote)"
    by (rule busy_hws_live) (simp add: lg)
  have e: "rdma_EINVAL_source_pa (notice_sources ?mc) = 8" "(0x9000 :: u64) + 8 = 0x9008" by (simp_all add: demo_ctx_def)
  from mudm_rdma_read_short[OF busy_hws_live(1) demo_ctx_conn(1) demo_sgl_at sgl_mem_of_ends sgl_mem_of_ends size c pa r h,
      of "\<lambda>_. 0" 5 7] show ?thesis unfolding e lg by auto
qed

end
