(* ===== verification/Mu_Kernel.thy ===== *)
theory Mu_Kernel
  imports Mu_RecFifo
begin

text \<open>
  The kernel's side of the message unit, \<^verbatim>\<open>MU_impl.h\<close> and \<^verbatim>\<open>spi/include/kernel/MU.h\<close>: which FIFOs
  and base address table entries of a subgroup are in use, and the control registers that say what
  they are used for.  The registers are plain memory that only the kernel writes.  A FIFO is free
  when its start register is zero, a table entry when it has all its 37 bits set.  The result
  \<open>None\<close> is a failed \<^verbatim>\<open>MUSPI_assert\<close> or a \<^verbatim>\<open>NULL\<close> pointer followed.
\<close>

section \<open>Registers\<close>

definition NUM_FIFO_GROUPS :: nat where "NUM_FIFO_GROUPS = 17"
definition NUM_FIFO_SUBGROUPS :: nat where "NUM_FIFO_SUBGROUPS = 4"
definition NUM_INJ_FIFOS_PER_SUBGROUP :: nat where "NUM_INJ_FIFOS_PER_SUBGROUP = 8"
definition NUM_REC_FIFOS_PER_SUBGROUP :: nat where "NUM_REC_FIFOS_PER_SUBGROUP = 4"
definition NUM_DATA_COUNTERS_PER_SUBGROUP :: nat where "NUM_DATA_COUNTERS_PER_SUBGROUP = 8"

lemmas mu_numbers = NUM_FIFO_GROUPS_def NUM_FIFO_SUBGROUPS_def NUM_INJ_FIFOS_PER_SUBGROUP_def
  NUM_REC_FIFOS_PER_SUBGROUP_def NUM_DATA_COUNTERS_PER_SUBGROUP_def

text \<open>
  A register of a FIFO is addressed by group, subgroup and FIFO, one of a subgroup by the first two.
  The last ones belong to the reception engines and, per link, to the senders of the network
  device; \<open>dcrs_out x\<close> says that the registers of link \<open>x\<close> are held in reset.
\<close>

type_synonym fifo_key = "nat \<times> nat \<times> nat"

record mu_regs =
  imu_start :: "fifo_key \<Rightarrow> u64"
  rmu_start :: "fifo_key \<Rightarrow> u64"
  bat_entry :: "fifo_key \<Rightarrow> u64"
  imu_priority :: "nat \<times> nat \<Rightarrow> u64"
  imu_enable :: "nat \<times> nat \<Rightarrow> u64"
  imu_disable :: "nat \<times> nat \<Rightarrow> u64"
  imfifo_system :: "nat \<Rightarrow> u64"
  imfifo_rget :: "nat \<Rightarrow> u64"
  imfifo_int_en :: "nat \<Rightarrow> u64"
  rmfifo_system :: "nat \<Rightarrow> u64"
  rmfifo_en :: "nat \<Rightarrow> u64"
  rmfifo_int_en :: "nat \<Rightarrow> u64"
  rmfifo_avail :: "nat \<Rightarrow> u64"
  rputbase_system :: "nat \<Rightarrow> u64"
  gip_int_en :: "nat \<Rightarrow> u64"
  rme_enable :: u64
  dcrs_out :: "nat \<Rightarrow> bool"
  se_clr_dropped :: "nat \<Rightarrow> bool"
  se_drop_usr :: "nat \<Rightarrow> bool"
  se_drop_sys :: "nat \<Rightarrow> bool"
  fatal_err_enable :: "nat \<Rightarrow> u64"

definition gid_of :: "nat \<Rightarrow> nat" where "gid_of subgrpid = subgrpid div NUM_FIFO_SUBGROUPS"
definition sgid_of :: "nat \<Rightarrow> nat" where "sgid_of subgrpid = subgrpid mod NUM_FIFO_SUBGROUPS"

text \<open>\<^verbatim>\<open>_BN(b)\<close>: bit \<open>b\<close>, counted from the high end.\<close>

definition BN :: "nat \<Rightarrow> u64" where "BN b = push_bit (63 - b) 1"

definition inj_bit :: "nat \<Rightarrow> nat \<Rightarrow> u64" where
  "inj_bit sgid i = BN (32 + sgid * NUM_INJ_FIFOS_PER_SUBGROUP + i)"

definition rec_bit :: "nat \<Rightarrow> nat \<Rightarrow> u64" where
  "rec_bit sgid i = BN (48 + sgid * NUM_REC_FIFOS_PER_SUBGROUP + i)"

definition prio_bit :: "nat \<Rightarrow> nat \<Rightarrow> u64" where
  "prio_bit sgid i = push_bit (31 - (i + sgid * NUM_INJ_FIFOS_PER_SUBGROUP)) 1"

text \<open>The mask a loop over the FIFOs \<open>xs\<close> collects for those with an attribute.\<close>

definition attr_mask :: "(nat \<Rightarrow> u64) \<Rightarrow> ('a \<Rightarrow> bool) \<Rightarrow> (nat \<times> 'a) list \<Rightarrow> u64" where
  "attr_mask b P xs = fold (\<lambda>(i, a) m. if P a then m OR b i else m) xs 0"

section \<open>The structures of a subgroup\<close>

text \<open>A pointer to a register block: whether the privileged bit of the address is on, and the block.\<close>

record inj_subgroup =
  isg_id :: nat
  isg_status :: "(bool \<times> nat \<times> nat) option"
  isg_hwfifo :: "nat \<Rightarrow> (bool \<times> fifo_key) option"
  isg_fifos :: "nat \<Rightarrow> injfifo"

record rec_subgroup =
  rsg_id :: nat
  rsg_status :: "(bool \<times> nat \<times> nat) option"
  rsg_hwfifo :: "nat \<Rightarrow> (bool \<times> fifo_key) option"
  rsg_fifos :: "nat \<Rightarrow> recfifo"

record bat_subgroup =
  bsg_id :: nat
  bsg_hw :: "(bool \<times> nat \<times> nat) option"
  bsg_permissions :: u8
  sw_bat :: "nat \<Rightarrow> u64"

definition zero_fifo :: fifo where
  "zero_fifo = \<lparr>pa_start = 0, va_start = 0, size_1 = 0, va_head = 0, va_tail = 0, va_end = 0, hw_pa_head = 0, hw_pa_tail = 0\<rparr>"

text \<open>\<^verbatim>\<open>memset(sg_ptr, 0, ...)\<close>; the memory of the rings is not part of the structure.\<close>

definition zero_inj_subgroup :: "inj_subgroup \<Rightarrow> inj_subgroup" where
  "zero_inj_subgroup sg = \<lparr>isg_id = 0, isg_status = None, isg_hwfifo = (\<lambda>_. None),
     isg_fifos = (\<lambda>i. \<lparr>ififo = zero_fifo, descCount = 0, freeSpace = 0, numInjected = 0,
       slots = slots (isg_fifos sg i), inj_log = []\<rparr>)\<rparr>"

definition zero_rec_subgroup :: "rec_subgroup \<Rightarrow> rec_subgroup" where
  "zero_rec_subgroup sg = \<lparr>rsg_id = 0, rsg_status = None, rsg_hwfifo = (\<lambda>_. None),
     rsg_fifos = (\<lambda>i. \<lparr>rfifo = zero_fifo, ring = ring (rsg_fifos sg i)\<rparr>)\<rparr>"

section \<open>Queries\<close>

definition Kernel_QueryInjFifos :: "nat \<Rightarrow> mu_regs \<Rightarrow> nat list" where
  "Kernel_QueryInjFifos subgrpid r =
     filter (\<lambda>i. imu_start r (gid_of subgrpid, sgid_of subgrpid, i) = 0) [0..<NUM_INJ_FIFOS_PER_SUBGROUP]"

definition Kernel_QueryRecFifos :: "nat \<Rightarrow> mu_regs \<Rightarrow> nat list" where
  "Kernel_QueryRecFifos subgrpid r =
     filter (\<lambda>i. rmu_start r (gid_of subgrpid, sgid_of subgrpid, i) = 0) [0..<NUM_REC_FIFOS_PER_SUBGROUP]"

definition BAT_FREE :: u64 where "BAT_FREE = 0x1FFFFFFFFF"

definition Kernel_QueryBaseAddressTable :: "nat \<Rightarrow> mu_regs \<Rightarrow> nat list" where
  "Kernel_QueryBaseAddressTable subgrpid r =
     filter (\<lambda>i. bat_entry r (gid_of subgrpid, sgid_of subgrpid, i) = BAT_FREE) [0..<NUM_DATA_COUNTERS_PER_SUBGROUP]"

text \<open>The search for each requested identifier among the free ones.\<close>

fun ids_free :: "nat \<Rightarrow> nat list \<Rightarrow> nat list \<Rightarrow> ret option" where
  "ids_free bound free [] = Some RetOK"
| "ids_free bound free (i # rest) =
     (if bound \<le> i then None else if i \<notin> set free then Some (RetErr EAGAIN) else ids_free bound free rest)"

section \<open>Injection FIFOs\<close>

record inj_attrs =
  RemoteGet :: bool
  ia_System :: bool
  Priority :: bool

definition alloc_inj_regs :: "nat \<Rightarrow> nat \<Rightarrow> (nat \<times> inj_attrs) list \<Rightarrow> mu_regs \<Rightarrow> mu_regs" where
  "alloc_inj_regs gid sgid xs r =
     (let hi = attr_mask (prio_bit sgid) Priority xs; normal = attr_mask (prio_bit sgid) (\<lambda>a. \<not> Priority a) xs;
          rget = attr_mask (inj_bit sgid) RemoteGet xs; nonrget = attr_mask (inj_bit sgid) (\<lambda>a. \<not> RemoteGet a) xs;
          sys = attr_mask (inj_bit sgid) ia_System xs; user = attr_mask (inj_bit sgid) (\<lambda>a. \<not> ia_System a) xs;
          r1 = (if hi \<noteq> 0 \<or> normal \<noteq> 0
                then r\<lparr>imu_priority := (imu_priority r)((gid, sgid) := imu_priority r (gid, sgid) AND NOT normal OR hi)\<rparr> else r);
          r2 = (if rget \<noteq> 0 \<or> nonrget \<noteq> 0
                then r1\<lparr>imfifo_rget := (imfifo_rget r1)(gid := imfifo_rget r1 gid AND NOT nonrget OR rget)\<rparr> else r1);
          r3 = (if user \<noteq> 0 \<or> sys \<noteq> 0
                then r2\<lparr>imfifo_system := (imfifo_system r2)(gid := (imfifo_system r2 gid OR sys) AND NOT user)\<rparr> else r2)
      in r3\<lparr>imu_start := fold (\<lambda>(i, _) f. f((gid, sgid, i) := 0x40)) xs (imu_start r3)\<rparr>)"

definition alloc_inj_subgroup :: "nat \<Rightarrow> (nat \<times> inj_attrs) list \<Rightarrow> inj_subgroup \<Rightarrow> inj_subgroup" where
  "alloc_inj_subgroup subgrpid xs sg =
     (let gid = gid_of subgrpid; sgid = sgid_of subgrpid
      in (zero_inj_subgroup sg)\<lparr>isg_id := subgrpid, isg_status := Some (\<exists>(i, a) \<in> set xs. ia_System a, gid, sgid),
           isg_hwfifo := fold (\<lambda>(i, a) f. f(i := Some (ia_System a, gid, sgid, i))) xs (\<lambda>_. None)\<rparr>)"

definition Kernel_AllocateInjFifos ::
  "nat \<Rightarrow> (nat \<times> inj_attrs) list \<Rightarrow> inj_subgroup \<Rightarrow> mu_regs \<Rightarrow> (ret \<times> inj_subgroup \<times> mu_regs) option" where
  "Kernel_AllocateInjFifos subgrpid xs sg r =
     (if \<not> (subgrpid < NUM_FIFO_GROUPS * NUM_FIFO_SUBGROUPS \<and> length xs \<le> NUM_INJ_FIFOS_PER_SUBGROUP) then None
      else let free = Kernel_QueryInjFifos subgrpid r in
        if length free < length xs then Some (RetErr EAGAIN, sg, r)
        else case ids_free NUM_INJ_FIFOS_PER_SUBGROUP free (map fst xs) of
               None \<Rightarrow> None
             | Some (RetErr e) \<Rightarrow> Some (RetErr e, sg, r)
             | Some RetOK \<Rightarrow> Some (RetOK, alloc_inj_subgroup subgrpid xs sg,
                 alloc_inj_regs (gid_of subgrpid) (sgid_of subgrpid) xs r))"

definition Kernel_DeallocateInjFifos :: "nat list \<Rightarrow> inj_subgroup \<Rightarrow> mu_regs \<Rightarrow> mu_regs option" where
  "Kernel_DeallocateInjFifos ids sg r =
     (let gid = gid_of (isg_id sg); sgid = sgid_of (isg_id sg);
          prio = attr_mask (prio_bit sgid) (\<lambda>_. True) (map (\<lambda>i. (i, ())) ids);
          bits = attr_mask (inj_bit sgid) (\<lambda>_. True) (map (\<lambda>i. (i, ())) ids)
      in if \<not> (\<forall>i \<in> set ids. i < NUM_INJ_FIFOS_PER_SUBGROUP) then None
         else let r1 = r\<lparr>imu_start := fold (\<lambda>i f. f((gid, sgid, i) := 0)) ids (imu_start r)\<rparr> in
           map_option (\<lambda>r2. if bits = 0 then r2 else r2\<lparr>imfifo_rget := (imfifo_rget r2)(gid := imfifo_rget r2 gid AND NOT bits),
                imfifo_system := (imfifo_system r2)(gid := imfifo_system r2 gid OR bits)\<rparr>)
             (if prio = 0 then Some r1
              else map_option (\<lambda>(_, key). r1\<lparr>imu_priority := (imu_priority r1)(key := imu_priority r1 key AND NOT prio)\<rparr>)
                     (isg_status sg)))"

text \<open>
  \<open>hwfree\<close> is the free space the hardware reports once the registers are written.  The register
  block has its own copy of head and tail, kept in the shadow (\<open>hw_pa_head\<close>, \<open>hw_pa_tail\<close>).
\<close>

definition Kernel_InjFifoInit ::
  "u64 \<Rightarrow> nat \<Rightarrow> mem_region \<Rightarrow> u64 \<Rightarrow> u64 \<Rightarrow> inj_subgroup \<Rightarrow> mu_regs \<Rightarrow> (inj_subgroup \<times> mu_regs) option" where
  "Kernel_InjFifoInit hwfree fifoid mr startoffset size1 sg r =
     (let va = base_vaddr mr + startoffset; pa = base_paddr mr + startoffset; f = isg_fifos sg fifoid in
      if \<not> (fifoid < NUM_INJ_FIFOS_PER_SUBGROUP \<and> va AND 0xFFFFFFFFFFFFFFC0 = va \<and> 128 \<le> size1 + 1 \<and>
            (size1 + 1) AND 0x3F = 0 \<and> va < base_vaddr mr + region_length mr) then None
      else case isg_hwfifo sg fifoid of
             None \<Rightarrow> None
           | Some (_, key) \<Rightarrow> Some
              (sg\<lparr>isg_fifos := (isg_fifos sg)(fifoid := f\<lparr>freeSpace := hwfree,
                 ififo := \<lparr>pa_start = pa, va_start = va, size_1 = size1, va_head = va, va_tail = va,
                           va_end = va + size1 + 1, hw_pa_head = pa, hw_pa_tail = pa\<rparr>\<rparr>)\<rparr>,
               r\<lparr>imu_start := (imu_start r)(key := pa)\<rparr>))"

definition Kernel_InjFifoActivate :: "nat list \<Rightarrow> bool \<Rightarrow> inj_subgroup \<Rightarrow> mu_regs \<Rightarrow> mu_regs option" where
  "Kernel_InjFifoActivate ids activate sg r =
     (let bits = attr_mask (prio_bit (sgid_of (isg_id sg))) (\<lambda>_. True) (map (\<lambda>i. (i, ())) ids) in
      if \<not> (\<forall>i \<in> set ids. i < NUM_INJ_FIFOS_PER_SUBGROUP) then None
      else case isg_status sg of
             None \<Rightarrow> None
           | Some (_, key) \<Rightarrow> Some (if activate then r\<lparr>imu_enable := (imu_enable r)(key := bits)\<rparr>
                                    else r\<lparr>imu_disable := (imu_disable r)(key := bits)\<rparr>))"

definition interrupt_reg :: "u64 \<Rightarrow> u64 \<Rightarrow> nat \<Rightarrow> (nat \<Rightarrow> u64) \<Rightarrow> nat \<Rightarrow> u64" where
  "interrupt_reg enable disable gid reg =
     (if enable OR disable \<noteq> 0 then reg(gid := (reg gid OR enable) AND NOT disable) else reg)"

definition Kernel_ConfigureInjFifoInterrupts :: "(nat \<times> bool) list \<Rightarrow> inj_subgroup \<Rightarrow> mu_regs \<Rightarrow> mu_regs option" where
  "Kernel_ConfigureInjFifoInterrupts xs sg r =
     (let gid = gid_of (isg_id sg); b = inj_bit (sgid_of (isg_id sg)) in
      if \<not> (length xs \<le> NUM_INJ_FIFOS_PER_SUBGROUP \<and> (\<forall>(i, _) \<in> set xs. i < NUM_INJ_FIFOS_PER_SUBGROUP)) then None
      else Some (r\<lparr>imfifo_int_en := interrupt_reg (attr_mask b id xs) (attr_mask b Not xs) gid (imfifo_int_en r)\<rparr>))"

section \<open>Reception FIFOs\<close>

definition alloc_rec_regs :: "nat \<Rightarrow> nat \<Rightarrow> (nat \<times> bool) list \<Rightarrow> mu_regs \<Rightarrow> mu_regs" where
  "alloc_rec_regs gid sgid xs r =
     (let sys = attr_mask (rec_bit sgid) id xs; user = attr_mask (rec_bit sgid) Not xs;
          r1 = (if user \<noteq> 0 \<or> sys \<noteq> 0
                then r\<lparr>rmfifo_system := (rmfifo_system r)(gid := (rmfifo_system r gid OR sys) AND NOT user)\<rparr> else r)
      in r1\<lparr>rmu_start := fold (\<lambda>(i, _) f. f((gid, sgid, i) := 0x240)) xs (rmu_start r1)\<rparr>)"

text \<open>
  The attribute of a reception FIFO is whether it is a system one.  The loop that validates the
  identifiers reads \<^verbatim>\<open>fifoids[idx]\<close>, with \<open>idx = 0\<close> throughout, where it means \<^verbatim>\<open>fifoids[i]\<close>.
\<close>

definition Kernel_AllocateRecFifos ::
  "nat \<Rightarrow> (nat \<times> bool) list \<Rightarrow> rec_subgroup \<Rightarrow> mu_regs \<Rightarrow> (ret \<times> rec_subgroup \<times> mu_regs) option" where
  "Kernel_AllocateRecFifos subgrpid xs sg r =
     (let gid = gid_of subgrpid; sgid = sgid_of subgrpid in
      if \<not> (subgrpid < NUM_FIFO_GROUPS * NUM_FIFO_SUBGROUPS \<and> length xs \<le> NUM_REC_FIFOS_PER_SUBGROUP) then None
      else let free = Kernel_QueryRecFifos subgrpid r in
        if length free < length xs then Some (RetErr EAGAIN, sg, r)
        else case ids_free NUM_REC_FIFOS_PER_SUBGROUP free (map (\<lambda>_. fst (xs ! 0)) xs) of
               None \<Rightarrow> None
             | Some (RetErr e) \<Rightarrow> Some (RetErr e, sg, r)
             | Some RetOK \<Rightarrow> Some (RetOK,
                 (zero_rec_subgroup sg)\<lparr>rsg_id := subgrpid, rsg_status := Some (\<exists>(i, a) \<in> set xs. a, gid, sgid),
                   rsg_hwfifo := fold (\<lambda>(i, a) f. f(i := Some (a, gid, sgid, i))) xs (\<lambda>_. None)\<rparr>,
                 alloc_rec_regs gid sgid xs r))"

definition Kernel_DeallocateRecFifos :: "nat list \<Rightarrow> rec_subgroup \<Rightarrow> mu_regs \<Rightarrow> mu_regs option" where
  "Kernel_DeallocateRecFifos ids sg r =
     (let gid = gid_of (rsg_id sg); sgid = sgid_of (rsg_id sg);
          bits = attr_mask (rec_bit sgid) (\<lambda>_. True) (map (\<lambda>i. (i, ())) ids)
      in if \<not> (\<forall>i \<in> set ids. i < NUM_REC_FIFOS_PER_SUBGROUP) then None
         else let r1 = r\<lparr>rmu_start := fold (\<lambda>i f. f((gid, sgid, i) := 0)) ids (rmu_start r)\<rparr>
              in Some (if bits = 0 then r1 else r1\<lparr>rmfifo_system := (rmfifo_system r1)(gid := rmfifo_system r1 gid OR bits)\<rparr>))"

definition Kernel_RecFifoInit ::
  "nat \<Rightarrow> mem_region \<Rightarrow> u64 \<Rightarrow> u64 \<Rightarrow> rec_subgroup \<Rightarrow> mu_regs \<Rightarrow> (rec_subgroup \<times> mu_regs) option" where
  "Kernel_RecFifoInit fifoid mr startoffset size1 sg r =
     (let va = base_vaddr mr + startoffset; pa = base_paddr mr + startoffset; f = rsg_fifos sg fifoid in
      if \<not> (fifoid < NUM_REC_FIFOS_PER_SUBGROUP \<and> va AND 0xFFFFFFFFFFFFFFE0 = va \<and> 576 \<le> size1 + 1 \<and>
            (size1 + 1) AND 0x1F = 0) then None
      else case rsg_hwfifo sg fifoid of
             None \<Rightarrow> None
           | Some (_, key) \<Rightarrow> Some
              (sg\<lparr>rsg_fifos := (rsg_fifos sg)(fifoid := f\<lparr>
                 rfifo := \<lparr>pa_start = pa, va_start = va, size_1 = size1, va_head = va, va_tail = va,
                           va_end = va + size1 + 1, hw_pa_head = pa, hw_pa_tail = pa\<rparr>\<rparr>)\<rparr>,
               r\<lparr>rmu_start := (rmu_start r)(key := pa)\<rparr>))"

definition Kernel_RecFifoEnable :: "nat \<Rightarrow> u64 \<Rightarrow> mu_regs \<Rightarrow> mu_regs option" where
  "Kernel_RecFifoEnable groupid enableBits r =
     (if \<not> (groupid < NUM_FIFO_GROUPS \<and> enableBits \<noteq> 0) then None
      else Some (r\<lparr>rmfifo_en := (rmfifo_en r)(groupid := rmfifo_en r groupid OR enableBits)\<rparr>))"

definition Kernel_RecFifoDisable :: "nat \<Rightarrow> u64 \<Rightarrow> mu_regs \<Rightarrow> mu_regs option" where
  "Kernel_RecFifoDisable groupid disableBits r =
     (if \<not> (groupid < NUM_FIFO_GROUPS \<and> disableBits \<noteq> 0) then None
      else Some (r\<lparr>rmfifo_en := (rmfifo_en r)(groupid := rmfifo_en r groupid AND NOT disableBits)\<rparr>))"

text \<open>The flags of a FIFO are those for the crossing of a threshold and for the arrival of a packet.\<close>

definition Kernel_ConfigureRecFifoInterrupts :: "(nat \<times> bool \<times> bool) list \<Rightarrow> rec_subgroup \<Rightarrow> mu_regs \<Rightarrow> mu_regs option" where
  "Kernel_ConfigureRecFifoInterrupts xs sg r =
     (let gid = gid_of (rsg_id sg); b = rec_bit (sgid_of (rsg_id sg)) in
      if \<not> (length xs \<le> NUM_REC_FIFOS_PER_SUBGROUP \<and> (\<forall>(i, _) \<in> set xs. i < NUM_REC_FIFOS_PER_SUBGROUP)) then None
      else Some (r\<lparr>rmfifo_int_en := interrupt_reg (attr_mask b fst xs) (attr_mask b (\<lambda>a. \<not> fst a) xs) gid (rmfifo_int_en r),
                   rmfifo_avail := interrupt_reg (attr_mask b snd xs) (attr_mask b (\<lambda>a. \<not> snd a) xs) gid (rmfifo_avail r)\<rparr>))"

section \<open>Base address tables\<close>

text \<open>The two mode registers have a bit for each subgroup, the first for those of groups 0 to 15.\<close>

definition bat_mode :: "nat \<Rightarrow> nat \<times> u64" where
  "bat_mode subgrpid =
     (let k = (NUM_FIFO_GROUPS - 1) * NUM_FIFO_SUBGROUPS in if subgrpid < k then (0, BN subgrpid) else (1, BN (subgrpid - k)))"

definition bat_system_status :: "nat \<Rightarrow> mu_regs \<Rightarrow> bool" where
  "bat_system_status subgrpid r =
     (if subgrpid \<le> 63 then rputbase_system r 0 AND drop_bit subgrpid 0x8000000000000000 \<noteq> 0
      else rputbase_system r 1 AND drop_bit (subgrpid - 64) 0x8000000000000000 \<noteq> 0)"

definition set_bat_mode :: "nat \<Rightarrow> bool \<Rightarrow> mu_regs \<Rightarrow> mu_regs" where
  "set_bat_mode subgrpid system r =
     (let (k, b) = bat_mode subgrpid
      in r\<lparr>rputbase_system := (rputbase_system r)
             (k := if system then rputbase_system r k OR b else rputbase_system r k AND NOT b)\<rparr>)"

definition perm_bit :: "nat \<Rightarrow> u8" where "perm_bit i = ucast (drop_bit 56 (BN i))"

definition Kernel_AllocateBaseAddressTable ::
  "nat \<Rightarrow> nat list \<Rightarrow> bool \<Rightarrow> bat_subgroup \<Rightarrow> mu_regs \<Rightarrow> (ret \<times> bat_subgroup \<times> mu_regs) option" where
  "Kernel_AllocateBaseAddressTable subgrpid ids system sg r =
     (let gid = gid_of subgrpid; sgid = sgid_of subgrpid; free = Kernel_QueryBaseAddressTable subgrpid r;
          status = (if length free < NUM_DATA_COUNTERS_PER_SUBGROUP then bat_system_status subgrpid r else system)
      in if \<not> (subgrpid < NUM_FIFO_GROUPS * NUM_FIFO_SUBGROUPS \<and> length ids \<le> NUM_DATA_COUNTERS_PER_SUBGROUP \<and> ids \<noteq> []) then None
         else if length free < length ids then Some (RetErr EAGAIN, sg, r)
         else if system \<noteq> status then Some (RetErr EACCES, sg, r)
         else case ids_free NUM_DATA_COUNTERS_PER_SUBGROUP free ids of
                None \<Rightarrow> None
              | Some (RetErr e) \<Rightarrow> Some (RetErr e, sg, r)
              | Some RetOK \<Rightarrow> Some (RetOK,
                  sg\<lparr>bsg_id := subgrpid, bsg_hw := Some (system, gid, sgid),
                     bsg_permissions := fold (\<lambda>i p. p OR perm_bit i) ids 0,
                     sw_bat := fold (\<lambda>i f. f(i := 0)) ids (sw_bat sg)\<rparr>,
                  (set_bat_mode subgrpid system r)
                    \<lparr>bat_entry := fold (\<lambda>i f. f((gid, sgid, i) := 0)) ids (bat_entry r)\<rparr>))"

definition MUSPI_SetBaseAddress :: "nat \<Rightarrow> u64 \<Rightarrow> bat_subgroup \<Rightarrow> mu_regs \<Rightarrow> (bat_subgroup \<times> mu_regs) option" where
  "MUSPI_SetBaseAddress i base sg r =
     (if \<not> (i < NUM_DATA_COUNTERS_PER_SUBGROUP \<and> bsg_permissions sg AND perm_bit i \<noteq> 0) then None
      else case bsg_hw sg of
             None \<Rightarrow> None
           | Some (_, gid, sgid) \<Rightarrow>
               Some (sg\<lparr>sw_bat := (sw_bat sg)(i := base)\<rparr>, r\<lparr>bat_entry := (bat_entry r)((gid, sgid, i) := base)\<rparr>))"

text \<open>The mode goes back to its reset value, system, with the last entry of the subgroup.\<close>

definition Kernel_DeallocateBaseAddressTable :: "nat list \<Rightarrow> bat_subgroup \<Rightarrow> mu_regs \<Rightarrow> (bat_subgroup \<times> mu_regs) option" where
  "Kernel_DeallocateBaseAddressTable ids sg r =
     (if \<not> (length ids \<le> NUM_DATA_COUNTERS_PER_SUBGROUP \<and> ids \<noteq> [] \<and> (\<forall>i \<in> set ids. i < NUM_DATA_COUNTERS_PER_SUBGROUP)) then None
      else case bsg_hw sg of
             None \<Rightarrow> None
           | Some (_, gid, sgid) \<Rightarrow>
              (let r1 = r\<lparr>bat_entry := fold (\<lambda>i f. f((gid, sgid, i) := BAT_FREE)) ids (bat_entry r)\<rparr>
               in Some (sg\<lparr>bsg_permissions := fold (\<lambda>i p. p AND NOT (perm_bit i)) ids (bsg_permissions sg),
                           sw_bat := fold (\<lambda>i f. f(i := 0)) ids (sw_bat sg)\<rparr>,
                        if length (Kernel_QueryBaseAddressTable (bsg_id sg) r1) = NUM_DATA_COUNTERS_PER_SUBGROUP
                        then set_bat_mode (bsg_id sg) True r1 else r1)))"

section \<open>Interrupts of a subgroup\<close>

definition Kernel_Configure_MU_GEA :: "nat \<Rightarrow> bool \<Rightarrow> mu_regs \<Rightarrow> mu_regs" where
  "Kernel_Configure_MU_GEA subgrpid gea_flag r =
     (let gid = gid_of subgrpid;
          (k, gea_bit) = (if gid \<le> 7 then (0, BN (32 + subgrpid))
                          else if gid \<le> 15 then (1, BN (32 + (subgrpid - 32)))
                          else (2, BN (60 + (subgrpid - 32 - 32))))
      in r\<lparr>gip_int_en := (gip_int_en r)(k := if gea_flag then gip_int_en r k OR gea_bit else gip_int_en r k AND NOT gea_bit)\<rparr>)"

section \<open>Registers as sets of FIFOs\<close>

text \<open>What the registers say of injection FIFO \<open>j\<close> of subgroup \<open>t\<close>.\<close>

definition inj_used :: "mu_regs \<Rightarrow> nat \<Rightarrow> nat \<Rightarrow> bool" where
  "inj_used r t j \<longleftrightarrow> imu_start r (gid_of t, sgid_of t, j) \<noteq> 0"

definition inj_flag :: "(nat \<Rightarrow> u64) \<Rightarrow> nat \<Rightarrow> nat \<Rightarrow> bool" where
  "inj_flag reg t j \<longleftrightarrow> bit (reg (gid_of t)) (31 - (sgid_of t * NUM_INJ_FIFOS_PER_SUBGROUP + j))"

lemma bit_BN [bit_simps]: "bit (BN b) n \<longleftrightarrow> n = 63 - b"
  by (auto simp: BN_def bit_simps)

lemma bit_attr_mask [bit_simps]: "bit (attr_mask b P xs) n \<longleftrightarrow> (\<exists>(i, a) \<in> set xs. P a \<and> bit (b i) n)"
proof -
  have "bit (fold (\<lambda>(i, a) m. if P a then m OR b i else m) xs m) n \<longleftrightarrow>
      bit m n \<or> (\<exists>(i, a) \<in> set xs. P a \<and> bit (b i) n)" for m
    by (induction xs arbitrary: m) (auto simp: bit_simps split: if_splits)
  then show ?thesis by (simp add: attr_mask_def)
qed

lemma subgroup_key [simp]: "gid_of t = gid_of s \<and> sgid_of t = sgid_of s \<longleftrightarrow> t = s"
  unfolding gid_of_def sgid_of_def by (metis div_mult_mod_eq)

lemma subgroup_eq: "gid_of t = gid_of s \<Longrightarrow> sgid_of t = sgid_of s \<Longrightarrow> t = s"
  using subgroup_key by blast

lemma bit_inj_bit:
  assumes "j < NUM_INJ_FIFOS_PER_SUBGROUP" "i < NUM_INJ_FIFOS_PER_SUBGROUP"
  shows "bit (inj_bit (sgid_of s) i) (31 - (sgid_of t * NUM_INJ_FIFOS_PER_SUBGROUP + j)) \<longleftrightarrow> sgid_of t = sgid_of s \<and> i = j"
proof -
  have b: "sgid_of t < 4" "sgid_of s < 4" "j < 8" "i < 8" using assms by (simp_all add: sgid_of_def mu_numbers)
  then have "31 - (sgid_of t * 8 + j) = 63 - (32 + sgid_of s * 8 + i) \<longleftrightarrow> sgid_of t * 8 + j = sgid_of s * 8 + i" by linarith
  also have "\<dots> \<longleftrightarrow> sgid_of t = sgid_of s \<and> i = j"
    using b by (cases "sgid_of t" "sgid_of s" rule: linorder_cases) linarith+
  finally show ?thesis by (simp add: inj_bit_def bit_BN mu_numbers)
qed

lemma fold_start_upd:
  "fold (\<lambda>(i, _) f. f((g, s, i) := v)) xs h k =
     (if \<exists>i \<in> fst ` set xs. k = (g, s, i) then v else h k)"
  by (induction xs arbitrary: h) auto

lemma fold_start_clear:
  "fold (\<lambda>i f. f((g, s, i) := v)) ids h k = (if \<exists>i \<in> set ids. k = (g, s, i) then v else h k)"
  by (induction ids arbitrary: h) auto

lemma ids_free_cases:
  "\<forall>i \<in> set ids. i < bound \<Longrightarrow> ids_free bound free ids = Some (if set ids \<subseteq> set free then RetOK else RetErr EAGAIN)"
  by (induction ids) auto

text \<open>A loop over FIFOs with distinct identifiers sets the flag of each to its attribute.\<close>

lemma flag_update:
  assumes d: "distinct (map fst xs)" and b: "\<forall>i \<in> fst ` set xs. i < NUM_INJ_FIFOS_PER_SUBGROUP"
    and j: "j < NUM_INJ_FIFOS_PER_SUBGROUP"
    and w: "bit w (31 - (sgid_of t * NUM_INJ_FIFOS_PER_SUBGROUP + j)) \<longleftrightarrow>
        (if \<exists>(i, a) \<in> set xs. \<not> P a \<and> bit (inj_bit (sgid_of s) i) (31 - (sgid_of t * NUM_INJ_FIFOS_PER_SUBGROUP + j)) then False
         else bit v (31 - (sgid_of t * NUM_INJ_FIFOS_PER_SUBGROUP + j)) \<or>
           (\<exists>(i, a) \<in> set xs. P a \<and> bit (inj_bit (sgid_of s) i) (31 - (sgid_of t * NUM_INJ_FIFOS_PER_SUBGROUP + j))))"
  shows "bit w (31 - (sgid_of t * NUM_INJ_FIFOS_PER_SUBGROUP + j)) \<longleftrightarrow>
    (case map_of (if sgid_of t = sgid_of s then xs else []) j of Some a \<Rightarrow> P a
     | None \<Rightarrow> bit v (31 - (sgid_of t * NUM_INJ_FIFOS_PER_SUBGROUP + j)))"
proof -
  let ?n = "31 - (sgid_of t * NUM_INJ_FIFOS_PER_SUBGROUP + j)"
  have e: "(\<exists>(i, a) \<in> set xs. Q a \<and> bit (inj_bit (sgid_of s) i) ?n) \<longleftrightarrow> sgid_of t = sgid_of s \<and> (\<exists>a. (j, a) \<in> set xs \<and> Q a)" for Q
  proof -
    have "(\<exists>(i, a) \<in> set xs. Q a \<and> bit (inj_bit (sgid_of s) i) ?n) \<longleftrightarrow> (\<exists>(i, a) \<in> set xs. Q a \<and> sgid_of t = sgid_of s \<and> i = j)"
      by (rule bex_cong[OF refl]) (use bit_inj_bit[OF j] b in auto)
    then show ?thesis by auto
  qed
  show ?thesis
  proof (cases "map_of (if sgid_of t = sgid_of s then xs else []) j")
    case None
    then have "sgid_of t = sgid_of s \<Longrightarrow> (j, a) \<notin> set xs" for a by (simp add: map_of_eq_None_iff) (metis fst_conv image_eqI)
    with None show ?thesis using w[unfolded e] by auto
  next
    case (Some a)
    then have "sgid_of t = sgid_of s" "(j, c) \<in> set xs \<longleftrightarrow> c = a" for c
      using map_of_eq_Some_iff[OF d, of j, symmetric] by (auto split: if_splits)
    with Some show ?thesis using w[unfolded e] by auto
  qed
qed

lemma alloc_inj_regs_simps:
  "imu_start (alloc_inj_regs g s xs r) = fold (\<lambda>(i, _) f. f((g, s, i) := 0x40)) xs (imu_start r)"
  "imfifo_system (alloc_inj_regs g s xs r) = (imfifo_system r)
     (g := (imfifo_system r g OR attr_mask (inj_bit s) ia_System xs) AND NOT (attr_mask (inj_bit s) (\<lambda>a. \<not> ia_System a) xs))"
  "imfifo_rget (alloc_inj_regs g s xs r) = (imfifo_rget r)
     (g := imfifo_rget r g AND NOT (attr_mask (inj_bit s) (\<lambda>a. \<not> RemoteGet a) xs) OR attr_mask (inj_bit s) RemoteGet xs)"
  by (simp_all add: alloc_inj_regs_def Let_def)

lemma alloc_inj_flags:
  assumes d: "distinct (map fst xs)" and b: "\<forall>i \<in> fst ` set xs. i < NUM_INJ_FIFOS_PER_SUBGROUP"
    and j: "j < NUM_INJ_FIFOS_PER_SUBGROUP"
  shows "inj_flag (imfifo_system (alloc_inj_regs (gid_of s) (sgid_of s) xs r)) t j \<longleftrightarrow>
      (case map_of (if t = s then xs else []) j of Some a \<Rightarrow> ia_System a | None \<Rightarrow> inj_flag (imfifo_system r) t j)"
    and "inj_flag (imfifo_rget (alloc_inj_regs (gid_of s) (sgid_of s) xs r)) t j \<longleftrightarrow>
      (case map_of (if t = s then xs else []) j of Some a \<Rightarrow> RemoteGet a | None \<Rightarrow> inj_flag (imfifo_rget r) t j)"
proof -
  have n: "31 - (sgid_of t * NUM_INJ_FIFOS_PER_SUBGROUP + j) < 64" by simp
  have e: "gid_of t = gid_of s \<Longrightarrow> map_of (if t = s then xs else []) j = map_of (if sgid_of t = sgid_of s then xs else []) j"
    by (metis subgroup_key)
  note U = flag_update[OF d b j, where t = t and s = s]
  show "inj_flag (imfifo_system (alloc_inj_regs (gid_of s) (sgid_of s) xs r)) t j \<longleftrightarrow>
      (case map_of (if t = s then xs else []) j of Some a \<Rightarrow> ia_System a | None \<Rightarrow> inj_flag (imfifo_system r) t j)"
  proof (cases "gid_of t = gid_of s")
    case False
    then have "t \<noteq> s" by auto
    with False show ?thesis by (simp add: inj_flag_def alloc_inj_regs_simps)
  next
    case True
    note u = U[of "(imfifo_system r (gid_of s) OR attr_mask (inj_bit (sgid_of s)) ia_System xs) AND
        NOT (attr_mask (inj_bit (sgid_of s)) (\<lambda>a. \<not> ia_System a) xs)" ia_System "imfifo_system r (gid_of s)"]
    show ?thesis unfolding e[OF True] inj_flag_def alloc_inj_regs_simps True fun_upd_same
      by (rule u) (use n in \<open>auto simp: bit_simps\<close>)
  qed
  show "inj_flag (imfifo_rget (alloc_inj_regs (gid_of s) (sgid_of s) xs r)) t j \<longleftrightarrow>
      (case map_of (if t = s then xs else []) j of Some a \<Rightarrow> RemoteGet a | None \<Rightarrow> inj_flag (imfifo_rget r) t j)"
  proof (cases "gid_of t = gid_of s")
    case False
    then have "t \<noteq> s" by auto
    with False show ?thesis by (simp add: inj_flag_def alloc_inj_regs_simps)
  next
    case True
    have x: "\<not> ((\<exists>(i, a) \<in> set xs. RemoteGet a \<and> bit (inj_bit (sgid_of s) i) (31 - (sgid_of t * NUM_INJ_FIFOS_PER_SUBGROUP + j))) \<and>
        (\<exists>(i, a) \<in> set xs. \<not> RemoteGet a \<and> bit (inj_bit (sgid_of s) i) (31 - (sgid_of t * NUM_INJ_FIFOS_PER_SUBGROUP + j))))"
      using bit_inj_bit[OF j, of _ s t] b map_of_eq_Some_iff[OF d] by (auto simp: image_iff) (metis (no_types) option.inject fst_conv)+
    note u = U[of "imfifo_rget r (gid_of s) AND NOT (attr_mask (inj_bit (sgid_of s)) (\<lambda>a. \<not> RemoteGet a) xs) OR
        attr_mask (inj_bit (sgid_of s)) RemoteGet xs" RemoteGet "imfifo_rget r (gid_of s)"]
    show ?thesis unfolding e[OF True] inj_flag_def alloc_inj_regs_simps True fun_upd_same
      by (rule u) (use n x in \<open>auto simp: bit_simps\<close>)
  qed
qed

lemma alloc_inj_used:
  "inj_used (alloc_inj_regs (gid_of s) (sgid_of s) xs r) t j \<longleftrightarrow> inj_used r t j \<or> t = s \<and> j \<in> fst ` set xs"
  by (auto simp: inj_used_def alloc_inj_regs_simps fold_start_upd dest: subgroup_eq)

lemma query_inj: "set (Kernel_QueryInjFifos s r) = {j. j < NUM_INJ_FIFOS_PER_SUBGROUP \<and> \<not> inj_used r s j}"
  by (auto simp: Kernel_QueryInjFifos_def inj_used_def)

lemma inj_room:
  assumes "distinct (map fst xs)" "\<forall>i \<in> fst ` set xs. i < NUM_INJ_FIFOS_PER_SUBGROUP"
  shows "length xs \<le> NUM_INJ_FIFOS_PER_SUBGROUP"
    "\<forall>i \<in> fst ` set xs. \<not> inj_used r s i \<Longrightarrow> length xs \<le> length (Kernel_QueryInjFifos s r)"
proof -
  have l: "length xs = card (fst ` set xs)" using distinct_card[OF assms(1)] by simp
  show "length xs \<le> NUM_INJ_FIFOS_PER_SUBGROUP"
    unfolding l using card_mono[of "{..<NUM_INJ_FIFOS_PER_SUBGROUP}" "fst ` set xs"] assms(2) by auto
  assume "\<forall>i \<in> fst ` set xs. \<not> inj_used r s i"
  then have "fst ` set xs \<subseteq> set (Kernel_QueryInjFifos s r)" using assms(2) by (auto simp: query_inj)
  then have "card (fst ` set xs) \<le> card (set (Kernel_QueryInjFifos s r))" by (rule card_mono[OF finite_set])
  also have "\<dots> \<le> length (Kernel_QueryInjFifos s r)" by (rule card_length)
  finally show "length xs \<le> length (Kernel_QueryInjFifos s r)" using l by simp
qed

lemma inj_dealloc:
  assumes "\<forall>i \<in> set ids. i < NUM_INJ_FIFOS_PER_SUBGROUP" "isg_id sg = s" "isg_status sg \<noteq> None"
  shows "\<exists>r'. Kernel_DeallocateInjFifos ids sg r = Some r' \<and> (\<forall>t j. inj_used r' t j \<longleftrightarrow> inj_used r t j \<and> \<not> (t = s \<and> j \<in> set ids))"
proof -
  let ?r1 = "r\<lparr>imu_start := fold (\<lambda>i f. f((gid_of s, sgid_of s, i) := 0)) ids (imu_start r)\<rparr>"
  have "\<exists>r'. Kernel_DeallocateInjFifos ids sg r = Some r' \<and> imu_start r' = imu_start ?r1"
    using assms by (auto simp: Kernel_DeallocateInjFifos_def Let_def)
  moreover have "inj_used ?r1 t j \<longleftrightarrow> inj_used r t j \<and> \<not> (t = s \<and> j \<in> set ids)" for t j
    by (auto simp: inj_used_def fold_start_clear dest: subgroup_eq)
  ultimately show ?thesis by (auto simp: inj_used_def)
qed

section \<open>Properties\<close>

text \<open>
  C32: an injection FIFO belongs to at most one user.  \<^verbatim>\<open>Kernel_AllocateInjFifos\<close> succeeds exactly if
  none of the FIFOs asked for is in use, and else changes nothing; when it succeeds, those FIFOs and
  no others, of any subgroup, become used, each with the system and remote get flags asked for and
  all other flags as they were; and \<^verbatim>\<open>Kernel_DeallocateInjFifos\<close> of the same FIFOs gets back to the
  FIFOs that were in use before.
\<close>

theorem kernel_inj_exclusive:
  assumes s: "s < 68" and d: "distinct (map fst xs)" and b: "\<forall>i \<in> fst ` set xs. i < 8"
  shows "if \<exists>i \<in> fst ` set xs. inj_used r s i then Kernel_AllocateInjFifos s xs sg r = Some (RetErr EAGAIN, sg, r)
    else \<exists>sg' r' r''. Kernel_AllocateInjFifos s xs sg r = Some (RetOK, sg', r') \<and>
      (\<forall>t j. inj_used r' t j \<longleftrightarrow> inj_used r t j \<or> t = s \<and> j \<in> fst ` set xs) \<and>
      (\<forall>t. \<forall>j < 8. inj_flag (imfifo_system r') t j =
         (case map_of (if t = s then xs else []) j of Some a \<Rightarrow> ia_System a | None \<Rightarrow> inj_flag (imfifo_system r) t j)) \<and>
      (\<forall>t. \<forall>j < 8. inj_flag (imfifo_rget r') t j =
         (case map_of (if t = s then xs else []) j of Some a \<Rightarrow> RemoteGet a | None \<Rightarrow> inj_flag (imfifo_rget r) t j)) \<and>
      Kernel_DeallocateInjFifos (map fst xs) sg' r' = Some r'' \<and> (\<forall>t j. inj_used r'' t j = inj_used r t j)"
proof -
  have b': "\<forall>i \<in> fst ` set xs. i < NUM_INJ_FIFOS_PER_SUBGROUP" using b by (simp add: mu_numbers)
  note room = inj_room[OF d b']
  have g: "s < NUM_FIFO_GROUPS * NUM_FIFO_SUBGROUPS \<and> length xs \<le> NUM_INJ_FIFOS_PER_SUBGROUP"
    using s room(1) by (simp add: mu_numbers)
  have f: "ids_free NUM_INJ_FIFOS_PER_SUBGROUP (Kernel_QueryInjFifos s r) (map fst xs) =
      Some (if \<exists>i \<in> fst ` set xs. inj_used r s i then RetErr EAGAIN else RetOK)"
    using b' by (subst ids_free_cases) (auto simp: query_inj)
  show ?thesis
  proof (cases "\<exists>i \<in> fst ` set xs. inj_used r s i")
    case True
    with f g show ?thesis by (simp add: Kernel_AllocateInjFifos_def Let_def)
  next
    case False
    let ?sg = "alloc_inj_subgroup s xs sg" and ?r = "alloc_inj_regs (gid_of s) (sgid_of s) xs r"
    have a: "Kernel_AllocateInjFifos s xs sg r = Some (RetOK, ?sg, ?r)"
      using f g False room(2)[of r s] by (simp add: Kernel_AllocateInjFifos_def Let_def)
    obtain r'' where "Kernel_DeallocateInjFifos (map fst xs) ?sg ?r = Some r''"
      "\<forall>t j. inj_used r'' t j \<longleftrightarrow> inj_used ?r t j \<and> \<not> (t = s \<and> j \<in> fst ` set xs)"
      using inj_dealloc[of "map fst xs" ?sg s ?r] b' by (auto simp: alloc_inj_subgroup_def Let_def)
    moreover have "\<forall>t j. inj_used r'' t j = inj_used r t j" using calculation(2) False by (auto simp: alloc_inj_used)
    ultimately show ?thesis
      unfolding if_not_P[OF False] using a alloc_inj_flags[OF d b', of _ s r]
      by (intro exI[of _ ?sg] exI[of _ ?r] exI[of _ r''] conjI) (simp_all add: mu_numbers alloc_inj_used)
  qed
qed

text \<open>For the examples: registers after power-on, and an empty structure.\<close>

definition demo_regs :: mu_regs where
  "demo_regs = \<lparr>imu_start = (\<lambda>_. 0), rmu_start = (\<lambda>_. 0), bat_entry = (\<lambda>_. BAT_FREE), imu_priority = (\<lambda>_. 0),
     imu_enable = (\<lambda>_. 0), imu_disable = (\<lambda>_. 0), imfifo_system = (\<lambda>_. 0xFFFFFFFF), imfifo_rget = (\<lambda>_. 0),
     imfifo_int_en = (\<lambda>_. 0), rmfifo_system = (\<lambda>_. 0xFFFF), rmfifo_en = (\<lambda>_. 0), rmfifo_int_en = (\<lambda>_. 0),
     rmfifo_avail = (\<lambda>_. 0), rputbase_system = (\<lambda>_. -1), gip_int_en = (\<lambda>_. 0), rme_enable = 0xFFFF,
     dcrs_out = (\<lambda>_. False), se_clr_dropped = (\<lambda>_. False), se_drop_usr = (\<lambda>_. False), se_drop_sys = (\<lambda>_. False),
     fatal_err_enable = (\<lambda>_. 1)\<rparr>"

definition demo_inj_subgroup :: inj_subgroup where
  "demo_inj_subgroup = \<lparr>isg_id = 0, isg_status = None, isg_hwfifo = (\<lambda>_. None), isg_fifos = (\<lambda>_. demo_fifo)\<rparr>"

definition demo_rec_subgroup :: rec_subgroup where
  "demo_rec_subgroup = \<lparr>rsg_id = 0, rsg_status = None, rsg_hwfifo = (\<lambda>_. None), rsg_fifos = (\<lambda>_. demo_ring)\<rparr>"

theorem kernel_inj_exclusive_witness:
  "\<exists>sg' r'. Kernel_AllocateInjFifos 66 [(0, \<lparr>RemoteGet = False, ia_System = True, Priority = False\<rparr>),
       (3, \<lparr>RemoteGet = True, ia_System = False, Priority = False\<rparr>)] demo_inj_subgroup demo_regs = Some (RetOK, sg', r') \<and>
     inj_used r' 66 3 \<and> \<not> inj_used r' 67 3 \<and> \<not> inj_flag (imfifo_system r') 66 3 \<and> inj_flag (imfifo_rget r') 66 3"
proof -
  let ?xs = "[(0 :: nat, \<lparr>RemoteGet = False, ia_System = True, Priority = False\<rparr>),
       (3, \<lparr>RemoteGet = True, ia_System = False, Priority = False\<rparr>)]"
  have u: "\<not> inj_used demo_regs t j" for t j by (simp add: inj_used_def demo_regs_def)
  have "distinct (map fst ?xs)" "\<forall>i \<in> fst ` set ?xs. i < 8" "(66 :: nat) < 68" by simp_all
  from kernel_inj_exclusive[OF this(3,1,2), of demo_regs demo_inj_subgroup] u obtain sg' r' where
    A: "Kernel_AllocateInjFifos 66 ?xs demo_inj_subgroup demo_regs = Some (RetOK, sg', r')"
    "\<forall>t j. inj_used r' t j \<longleftrightarrow> t = 66 \<and> j \<in> fst ` set ?xs"
    "\<forall>t. \<forall>j < 8. inj_flag (imfifo_system r') t j = (case map_of (if t = 66 then ?xs else []) j of Some a \<Rightarrow> ia_System a
        | None \<Rightarrow> inj_flag (imfifo_system demo_regs) t j)"
    "\<forall>t. \<forall>j < 8. inj_flag (imfifo_rget r') t j = (case map_of (if t = 66 then ?xs else []) j of Some a \<Rightarrow> RemoteGet a
        | None \<Rightarrow> inj_flag (imfifo_rget demo_regs) t j)" by auto
  from A(3)[rule_format, of 3 66] A(4)[rule_format, of 3 66]
  have "\<not> inj_flag (imfifo_system r') 66 3" "inj_flag (imfifo_rget r') 66 3" by simp_all
  with A(1,2) show ?thesis by (intro exI[of _ sg'] exI[of _ r']) simp
qed

text \<open>
  A reception FIFO in use can be allocated again.  \<^verbatim>\<open>Kernel_AllocateRecFifos\<close> validates only the
  first identifier, as often as there are identifiers: with a free first FIFO, and another free one
  that makes the number suffice, it hands out a second FIFO that is in use, and overwrites the
  start register of its owner.
\<close>

theorem kernel_rec_second_unchecked:
  assumes "s < 68" "i < 4" "k < 4" "i \<noteq> k" "i \<noteq> j" "rmu_start r (gid_of s, sgid_of s, i) = 0" "rmu_start r (gid_of s, sgid_of s, k) = 0"
    and "rmu_start r (gid_of s, sgid_of s, j) \<noteq> 0"
  shows "\<exists>sg' r'. Kernel_AllocateRecFifos s [(i, a), (j, c)] sg r = Some (RetOK, sg', r') \<and>
    j \<notin> set (Kernel_QueryRecFifos s r) \<and> rmu_start r' (gid_of s, sgid_of s, j) = 0x240 \<and>
    rsg_hwfifo sg' j = Some (c, gid_of s, sgid_of s, j)"
proof -
  have m: "{i, k} \<subseteq> set (Kernel_QueryRecFifos s r)" "j \<notin> set (Kernel_QueryRecFifos s r)"
    using assms by (auto simp: Kernel_QueryRecFifos_def mu_numbers)
  have "card {i, k} \<le> length (Kernel_QueryRecFifos s r)"
    using card_mono[OF finite_set m(1)] card_length[of "Kernel_QueryRecFifos s r"] by linarith
  with assms(4) have l: "2 \<le> length (Kernel_QueryRecFifos s r)" by simp
  have "Kernel_AllocateRecFifos s [(i, a), (j, c)] sg r = Some (RetOK,
      (zero_rec_subgroup sg)\<lparr>rsg_id := s, rsg_status := Some (\<exists>(i, a) \<in> set [(i, a), (j, c)]. a, gid_of s, sgid_of s),
         rsg_hwfifo := (\<lambda>_. None)(i := Some (a, gid_of s, sgid_of s, i), j := Some (c, gid_of s, sgid_of s, j))\<rparr>,
      alloc_rec_regs (gid_of s) (sgid_of s) [(i, a), (j, c)] r)"
    using l m(1) assms(1,2) by (simp add: Kernel_AllocateRecFifos_def Let_def mu_numbers)
  then show ?thesis using m(2) by (simp add: alloc_rec_regs_def Let_def)
qed

theorem kernel_rec_second_unchecked_witness:
  "\<exists>sg' r'. Kernel_AllocateRecFifos 66 [(0, True), (1, True)] demo_rec_subgroup
      (demo_regs\<lparr>rmu_start := (\<lambda>_. 0)((16, 2, 1) := 0x8000)\<rparr>) = Some (RetOK, sg', r') \<and> rmu_start r' (16, 2, 1) = 0x240"
proof -
  have g: "gid_of 66 = 16" "sgid_of 66 = 2" by (simp_all add: gid_of_def sgid_of_def mu_numbers)
  show ?thesis
    using kernel_rec_second_unchecked[of 66 0 2 1 "demo_regs\<lparr>rmu_start := (\<lambda>_. 0)((16, 2, 1) := 0x8000)\<rparr>" True True demo_rec_subgroup]
    unfolding g by auto
qed

end
