(* ===== verification/Mu_Reset.thy ===== *)
theory Mu_Reset
  imports Mu_Kernel
begin

text \<open>
  The reset of one subgroup and one link, \<^verbatim>\<open>spi/include/mu/Reset.h\<close>: a sequence of steps, one or
  more per call of \<^verbatim>\<open>MUSPI_Reset\<close>, which returns \<^verbatim>\<open>EAGAIN\<close> until the last one.  Modelled are the
  registers of \<open>mu_regs\<close>; the user address ranges, the interrupt registers that are only cleared,
  and the pulse on the reset lines of stuck reception engines are not.  The steps for collectives
  are skipped when \<open>skip_collectives\<close> is set, as it is in both uses the data mover makes of this
  file; what they do otherwise is the parameter \<open>coll\<close>.
\<close>

section \<open>State\<close>

record muspi_reset =
  sequence :: nat
  nd_linkmask :: u64
  nd_holdreset :: bool
  skip_collectives :: bool
  clear_user :: bool
  clear_system :: bool
  clear_allsubgroups :: bool
  clear_subgroup :: nat
  lastSequenceID :: nat

definition ND_RESE_DCR_num :: nat where "ND_RESE_DCR_num = 11"

definition MUSPI_InitReset :: muspi_reset where
  "MUSPI_InitReset = \<lparr>sequence = 1, nd_linkmask = push_bit ND_RESE_DCR_num 1 - 1, nd_holdreset = False,
     skip_collectives = False, clear_user = True, clear_system = False, clear_allsubgroups = True, clear_subgroup = 0,
     lastSequenceID = 0xff\<rparr>"

definition MUSPI_InitResetHold :: "nat \<Rightarrow> nat \<Rightarrow> muspi_reset" where
  "MUSPI_InitResetHold subgroup link = MUSPI_InitReset\<lparr>nd_linkmask := push_bit link 1, skip_collectives := True,
     clear_system := True, clear_allsubgroups := False, clear_subgroup := subgroup, lastSequenceID := 7\<rparr>"

definition MUSPI_InitResetRelease :: "nat \<Rightarrow> nat \<Rightarrow> muspi_reset" where
  "MUSPI_InitResetRelease subgroup link = MUSPI_InitReset\<lparr>nd_linkmask := push_bit link 1, skip_collectives := True,
     clear_system := True, clear_allsubgroups := False, clear_subgroup := subgroup, nd_holdreset := True, sequence := 8\<rparr>"

section \<open>Steps\<close>

text \<open>The state of reception engine \<open>8 * x + y\<close>, in word \<open>x\<close> of the two state registers.\<close>

definition rme_state :: "nat \<Rightarrow> u64 \<Rightarrow> u64" where
  "rme_state y w = drop_bit (63 - (24 + 4 + 5 * y)) w AND 0x1f"

definition rme_waits :: "muspi_reset \<Rightarrow> nat \<Rightarrow> u64 \<Rightarrow> bool" where
  "rme_waits rs rMEID state \<longleftrightarrow>
     \<not> (\<not> clear_system rs \<and> (rMEID = 13 \<or> rMEID = 15)) \<and> \<not> (\<not> clear_user rs \<and> rMEID \<noteq> 13 \<and> rMEID \<noteq> 15) \<and>
     state \<noteq> 0 \<and> (state < 0x10 \<or> 0x12 < state)"

text \<open>The loop reads the two state registers until no engine is busy; \<open>rme i\<close> is the \<open>i\<close>-th reading.\<close>

partial_function (option) rme_wait_loop :: "(nat \<Rightarrow> u64 \<times> u64) \<Rightarrow> muspi_reset \<Rightarrow> nat \<Rightarrow> nat option" where
  "rme_wait_loop rme rs i =
     (if (\<forall>y \<in> {0..<8}. \<not> rme_waits rs y (rme_state y (fst (rme i))) \<and> \<not> rme_waits rs (8 + y) (rme_state y (snd (rme i))))
      then Some (Suc i) else rme_wait_loop rme rs (Suc i))"

definition MUSPI_ResetCleanupStuckRmes ::
  "(nat \<Rightarrow> u64 \<times> u64) \<Rightarrow> muspi_reset \<Rightarrow> nat \<times> mu_regs \<Rightarrow> (nat \<times> mu_regs) option" where
  "MUSPI_ResetCleanupStuckRmes rme rs st =
     (let (i, r) = st;
          e0 = (if clear_user rs then 0xffff AND 0x0005 else 0xffff);
          e1 = (if clear_system rs then e0 AND NOT 0x0005 else e0)
      in map_option (\<lambda>j. (j, r\<lparr>rme_enable := e1\<rparr>)) (rme_wait_loop rme rs i))"

definition reset_groups :: "muspi_reset \<Rightarrow> nat list" where
  "reset_groups rs = filter (\<lambda>g. clear_allsubgroups rs \<or> g = clear_subgroup rs div NUM_FIFO_SUBGROUPS) [0..<NUM_FIFO_GROUPS]"

text \<open>Disabling the FIFOs of one group.\<close>

definition disable_group :: "muspi_reset \<Rightarrow> nat \<Rightarrow> mu_regs \<Rightarrow> mu_regs" where
  "disable_group rs g r =
     (let sg = clear_subgroup rs mod NUM_FIFO_SUBGROUPS;
          v0 = (0xffffffff :: u64); v1 = (if clear_user rs then v0 else v0 AND imfifo_system r g);
          v2 = (if \<not> clear_system rs then v1 AND NOT (imfifo_system r g)
                else if \<not> clear_allsubgroups rs then v1 AND push_bit (63 - (32 + 7 + 8 * sg)) 0xff else v1);
          w0 = (0xffff :: u64); w1 = (if clear_user rs then w0 else w0 AND NOT (rmfifo_system r g));
          w2 = (if \<not> clear_system rs then w1 AND rmfifo_system r g
                else if \<not> clear_allsubgroups rs then w1 AND NOT (push_bit (63 - (48 + 3 + 4 * sg)) 0xf) else w1)
      in r\<lparr>imu_disable := (imu_disable r)((g, 0) := v2), rmfifo_en := (rmfifo_en r)(g := w2 AND rmfifo_en r g)\<rparr>)"

definition MUSPI_ResetDisableUserReception :: "muspi_reset \<Rightarrow> mu_regs \<Rightarrow> mu_regs" where
  "MUSPI_ResetDisableUserReception rs r = fold (disable_group rs) (reset_groups rs) r"

definition MUSPI_ResetEnableUserRmes :: "muspi_reset \<Rightarrow> mu_regs \<Rightarrow> mu_regs" where
  "MUSPI_ResetEnableUserRmes rs r = r\<lparr>rme_enable := 0xffff\<rparr>"

definition muspi_link :: "muspi_reset \<Rightarrow> nat \<Rightarrow> bool" where
  "muspi_link rs x \<longleftrightarrow> x < ND_RESE_DCR_num \<and> nd_linkmask rs AND push_bit x 1 \<noteq> 0"

text \<open>Both loops over the links of the network device treat each link on its own.\<close>

definition drop_senders :: "bool \<Rightarrow> muspi_reset \<Rightarrow> mu_regs \<Rightarrow> mu_regs" where
  "drop_senders v rs r =
     (let on = (\<lambda>x. \<not> dcrs_out r x \<and> muspi_link rs x)
      in r\<lparr>se_clr_dropped := (\<lambda>x. if on x then v else se_clr_dropped r x),
           se_drop_usr := (\<lambda>x. if on x \<and> clear_user rs then v else se_drop_usr r x),
           se_drop_sys := (\<lambda>x. if on x \<and> clear_system rs then v else se_drop_sys r x)\<rparr>)"

definition MUSPI_ResetDisableNDSenders :: "muspi_reset \<Rightarrow> mu_regs \<Rightarrow> mu_regs" where
  "MUSPI_ResetDisableNDSenders rs r = drop_senders True rs r"

definition MUSPI_ResetPermitNDSenders :: "muspi_reset \<Rightarrow> mu_regs \<Rightarrow> mu_regs" where
  "MUSPI_ResetPermitNDSenders rs r = drop_senders False rs r"

definition reset_fifo :: "muspi_reset \<Rightarrow> u64 \<Rightarrow> u64 \<Rightarrow> bool" where
  "reset_fifo rs system m \<longleftrightarrow> clear_system rs \<and> system AND m \<noteq> 0 \<or> clear_user rs \<and> system AND m = 0"

definition MUSPI_ResetInitInjFifoSubgroupMU :: "muspi_reset \<Rightarrow> nat \<Rightarrow> nat \<Rightarrow> mu_regs \<Rightarrow> mu_regs" where
  "MUSPI_ResetInitInjFifoSubgroupMU rs g sg r = fold (\<lambda>i r.
     let m = inj_bit sg i in
     if reset_fifo rs (imfifo_system r g) m
     then r\<lparr>imu_start := (imu_start r)((g, sg, i) := 0),
            imu_priority := (imu_priority r)((g, sg) := imu_priority r (g, sg) AND NOT m),
            imfifo_int_en := (imfifo_int_en r)(g := imfifo_int_en r g AND NOT m),
            imfifo_rget := (imfifo_rget r)(g := imfifo_rget r g AND NOT m)\<rparr>
     else r) [0..<NUM_INJ_FIFOS_PER_SUBGROUP] r"

definition MUSPI_ResetInitRecFifoSubgroupMU :: "muspi_reset \<Rightarrow> nat \<Rightarrow> nat \<Rightarrow> mu_regs \<Rightarrow> mu_regs" where
  "MUSPI_ResetInitRecFifoSubgroupMU rs g sg r = fold (\<lambda>i r.
     let m = rec_bit sg i in
     if reset_fifo rs (rmfifo_system r g) m
     then r\<lparr>rmu_start := (rmu_start r)((g, sg, i) := 0),
            rmfifo_int_en := (rmfifo_int_en r)(g := rmfifo_int_en r g AND NOT m),
            rmfifo_avail := (rmfifo_avail r)(g := rmfifo_avail r g AND NOT m)\<rparr>
     else r) [0..<NUM_REC_FIFOS_PER_SUBGROUP] r"

text \<open>The entries of a table in user mode are made free.\<close>

definition reset_bat :: "nat \<Rightarrow> nat \<Rightarrow> mu_regs \<Rightarrow> mu_regs" where
  "reset_bat g sg r =
     (if rputbase_system r (g div 16) AND drop_bit (g mod 16 * NUM_FIFO_SUBGROUPS + sg) 0x8000000000000000 = 0
      then r\<lparr>bat_entry := fold (\<lambda>i f. f((g, sg, i) := BAT_FREE)) [0..<NUM_DATA_COUNTERS_PER_SUBGROUP] (bat_entry r)\<rparr>
      else r)"

definition reset_subgroup :: "muspi_reset \<Rightarrow> nat \<Rightarrow> nat \<Rightarrow> mu_regs \<Rightarrow> mu_regs" where
  "reset_subgroup rs g sg r =
     (if \<not> clear_allsubgroups rs \<and> sg \<noteq> clear_subgroup rs mod NUM_FIFO_SUBGROUPS then r
      else reset_bat g sg (MUSPI_ResetInitRecFifoSubgroupMU rs g sg (MUSPI_ResetInitInjFifoSubgroupMU rs g sg r)))"

definition reset_group :: "muspi_reset \<Rightarrow> nat \<Rightarrow> mu_regs \<Rightarrow> mu_regs" where
  "reset_group rs g r =
     (let r1 = fold (reset_subgroup rs g) [0..<NUM_FIFO_SUBGROUPS] r
      in if clear_user rs
         then r1\<lparr>imfifo_system := (imfifo_system r1)(g := push_bit 32 1 - 1), rmfifo_system := (rmfifo_system r1)(g := push_bit 16 1 - 1)\<rparr>
         else r1)"

definition MUSPI_ResetRestoreMU :: "muspi_reset \<Rightarrow> mu_regs \<Rightarrow> mu_regs" where
  "MUSPI_ResetRestoreMU rs r =
     (let r1 = fold (reset_group rs) (reset_groups rs) r
      in if clear_user rs then r1\<lparr>rputbase_system := (rputbase_system r1)(0 := -1, 1 := -1)\<rparr> else r1)"

text \<open>With \<open>nd_holdreset\<close> the fatal interrupts of the links are masked.\<close>

definition MUSPI_ResetRestoreND :: "muspi_reset \<Rightarrow> mu_regs \<Rightarrow> mu_regs" where
  "MUSPI_ResetRestoreND rs r =
     (if nd_holdreset rs then r\<lparr>fatal_err_enable := (\<lambda>x. if muspi_link rs x then 0 else fatal_err_enable r x)\<rparr> else r)"

section \<open>The sequence\<close>

text \<open>
  What is done at each number; every step returns 0.  The state is the number of readings of the
  engine states and the registers.
\<close>

definition reset_steps ::
  "(nat \<Rightarrow> u64 \<times> u64) \<Rightarrow> (nat \<Rightarrow> mu_regs \<Rightarrow> mu_regs) \<Rightarrow> muspi_reset \<Rightarrow> nat \<times> mu_regs \<Rightarrow> (nat \<times> mu_regs) option" where
  "reset_steps rme coll rs st =
     (let k = sequence rs; c = (\<lambda>(i, r). Some (i, if skip_collectives rs then r else coll k r)) in
      if k = 2 then map_option (\<lambda>(i, r). (i, MUSPI_ResetEnableUserRmes rs (MUSPI_ResetDisableUserReception rs r)))
                      (MUSPI_ResetCleanupStuckRmes rme rs st)
      else if k = 3 then Some (fst st, MUSPI_ResetDisableNDSenders rs (snd st))
      else if k = 4 \<or> k = 5 \<or> k = 6 \<or> k = 7 then c st
      else if k = 8 then Some (fst st, MUSPI_ResetRestoreND rs (MUSPI_ResetRestoreMU rs (MUSPI_ResetPermitNDSenders rs (snd st))))
      else Some st)"

text \<open>The result is whether the caller is to try again.\<close>

definition MUSPI_Reset ::
  "(nat \<Rightarrow> u64 \<times> u64) \<Rightarrow> (nat \<Rightarrow> mu_regs \<Rightarrow> mu_regs) \<Rightarrow> muspi_reset \<times> nat \<times> mu_regs \<Rightarrow> (ret \<times> muspi_reset \<times> nat \<times> mu_regs) option" where
  "MUSPI_Reset rme coll s =
     (let (rs, st) = s in
      map_option (\<lambda>st1. if sequence rs = 10 \<or> sequence rs = lastSequenceID rs then (RetOK, rs, st1)
                        else (RetErr EAGAIN, rs\<lparr>sequence := sequence rs + 1\<rparr>, st1))
        (reset_steps rme coll rs st))"

text \<open>\<^verbatim>\<open>do rc = MUSPI_Reset(&mureset); while (rc == EAGAIN)\<close>, with the number of calls.\<close>

partial_function (option) reset_loop ::
  "(nat \<Rightarrow> u64 \<times> u64) \<Rightarrow> (nat \<Rightarrow> mu_regs \<Rightarrow> mu_regs) \<Rightarrow> nat \<Rightarrow> muspi_reset \<times> nat \<times> mu_regs \<Rightarrow> (nat \<times> nat \<times> mu_regs) option" where
  "reset_loop rme coll n s =
     (case MUSPI_Reset rme coll s of
        None \<Rightarrow> None
      | Some (rc, rs, st) \<Rightarrow> if rc = RetErr EAGAIN then reset_loop rme coll (Suc n) (rs, st) else Some (Suc n, st))"

section \<open>The loops end\<close>

text \<open>What is relied on of the hardware: the engines go idle at some time after any.\<close>

definition rmes_idle :: "(nat \<Rightarrow> u64 \<times> u64) \<Rightarrow> bool" where
  "rmes_idle rme \<longleftrightarrow> (\<forall>i. \<exists>j. rme (i + j) = (0, 0))"

lemma rme_wait_loop_total:
  assumes "rmes_idle rme"
  shows "\<exists>j. rme_wait_loop rme rs i = Some j"
proof -
  obtain d where "rme (i + d) = (0, 0)" using assms by (auto simp: rmes_idle_def)
  then show ?thesis
  proof (induction d arbitrary: i)
    case 0
    then show ?case by (subst rme_wait_loop.simps) (simp add: rme_state_def rme_waits_def)
  next
    case (Suc d)
    from Suc.IH[of "Suc i"] Suc.prems show ?case by (subst rme_wait_loop.simps) simp
  qed
qed

lemma reset_loop_again:
  "MUSPI_Reset rme coll s = Some (RetErr EAGAIN, s') \<Longrightarrow> reset_loop rme coll n s = reset_loop rme coll (Suc n) s'"
  by (cases s') (subst reset_loop.simps, simp)

lemma reset_loop_done:
  "MUSPI_Reset rme coll s = Some (RetOK, rs', st) \<Longrightarrow> reset_loop rme coll n s = Some (Suc n, st)"
  by (subst reset_loop.simps) simp

text \<open>The registers behind the two loops, for a subgroup and a link.\<close>

definition hold_regs :: "nat \<Rightarrow> nat \<Rightarrow> mu_regs \<Rightarrow> mu_regs" where
  "hold_regs s l r = (let rs = MUSPI_InitResetHold s l in
     MUSPI_ResetDisableNDSenders rs (MUSPI_ResetEnableUserRmes rs (MUSPI_ResetDisableUserReception rs (r\<lparr>rme_enable := 0\<rparr>))))"

definition release_regs :: "nat \<Rightarrow> nat \<Rightarrow> mu_regs \<Rightarrow> mu_regs" where
  "release_regs s l r = (let rs = MUSPI_InitResetRelease s l in
     MUSPI_ResetRestoreND rs (MUSPI_ResetRestoreMU rs (MUSPI_ResetPermitNDSenders rs r)))"

lemma rme_enable_both: "(0x5 :: u64) AND NOT 5 = 0" "(5 :: u64) AND - 6 = 0" by simp_all

lemma reset_step_flags:
  "MUSPI_ResetDisableUserReception (rs\<lparr>sequence := k\<rparr>) = MUSPI_ResetDisableUserReception rs"
  "MUSPI_ResetEnableUserRmes (rs\<lparr>sequence := k\<rparr>) = MUSPI_ResetEnableUserRmes rs"
  "MUSPI_ResetDisableNDSenders (rs\<lparr>sequence := k\<rparr>) = MUSPI_ResetDisableNDSenders rs"
proof -
  have "reset_groups (rs\<lparr>sequence := k\<rparr>) = reset_groups rs" by (simp add: reset_groups_def)
  moreover have "disable_group (rs\<lparr>sequence := k\<rparr>) = disable_group rs" by (intro ext) (simp add: disable_group_def Let_def)
  ultimately show "MUSPI_ResetDisableUserReception (rs\<lparr>sequence := k\<rparr>) = MUSPI_ResetDisableUserReception rs"
    by (intro ext) (simp add: MUSPI_ResetDisableUserReception_def)
  show "MUSPI_ResetEnableUserRmes (rs\<lparr>sequence := k\<rparr>) = MUSPI_ResetEnableUserRmes rs"
    by (intro ext) (simp add: MUSPI_ResetEnableUserRmes_def)
  have "muspi_link (rs\<lparr>sequence := k\<rparr>) = muspi_link rs" by (intro ext) (simp add: muspi_link_def)
  then show "MUSPI_ResetDisableNDSenders (rs\<lparr>sequence := k\<rparr>) = MUSPI_ResetDisableNDSenders rs"
    by (intro ext) (simp add: MUSPI_ResetDisableNDSenders_def drop_senders_def)
qed

lemma hold_loop:
  assumes "rmes_idle rme"
  shows "\<exists>j. reset_loop rme coll n (MUSPI_InitResetHold s l, i, r) = Some (n + 7, j, hold_regs s l r)"
proof -
  let ?rs = "MUSPI_InitResetHold s l"
  have f: "sequence ?rs = 1" "lastSequenceID ?rs = 7" "skip_collectives ?rs" "clear_user ?rs" "clear_system ?rs"
    by (simp_all add: MUSPI_InitResetHold_def MUSPI_InitReset_def)
  obtain j where j: "rme_wait_loop rme (?rs\<lparr>sequence := 2\<rparr>) i = Some j" using rme_wait_loop_total[OF assms] by blast
  let ?r2 = "MUSPI_ResetEnableUserRmes ?rs (MUSPI_ResetDisableUserReception ?rs (r\<lparr>rme_enable := 0\<rparr>))"
  have 1: "MUSPI_Reset rme coll (?rs, i, r) = Some (RetErr EAGAIN, ?rs\<lparr>sequence := 2\<rparr>, i, r)"
    using f by (simp add: MUSPI_Reset_def reset_steps_def Let_def numeral_2_eq_2)
  have 2: "MUSPI_Reset rme coll (?rs\<lparr>sequence := 2\<rparr>, i, r) = Some (RetErr EAGAIN, ?rs\<lparr>sequence := 3\<rparr>, j, ?r2)"
    using f j by (simp add: MUSPI_Reset_def reset_steps_def MUSPI_ResetCleanupStuckRmes_def Let_def reset_step_flags rme_enable_both)
  have 3: "MUSPI_Reset rme coll (?rs\<lparr>sequence := 3\<rparr>, j, ?r2) = Some (RetErr EAGAIN, ?rs\<lparr>sequence := 4\<rparr>, j, hold_regs s l r)"
    using f by (simp add: MUSPI_Reset_def reset_steps_def Let_def reset_step_flags hold_regs_def)
  have c: "MUSPI_Reset rme coll (?rs\<lparr>sequence := k\<rparr>, j, q) = Some (RetErr EAGAIN, ?rs\<lparr>sequence := Suc k\<rparr>, j, q)"
    if "k \<in> {4, 5, 6}" for k q
    using f that by (auto simp: MUSPI_Reset_def reset_steps_def Let_def)
  have 7: "MUSPI_Reset rme coll (?rs\<lparr>sequence := 7\<rparr>, j, q) = Some (RetOK, ?rs\<lparr>sequence := 7\<rparr>, j, q)" for q
    using f by (simp add: MUSPI_Reset_def reset_steps_def Let_def)
  note c' = c[of 4, simplified] c[of 5, simplified] c[of 6, simplified]
  show ?thesis
    using reset_loop_again[OF 1] reset_loop_again[OF 2] reset_loop_again[OF 3] reset_loop_again[OF c'(1)]
      reset_loop_again[OF c'(2)] reset_loop_again[OF c'(3)] reset_loop_done[OF 7] by (simp add: add.commute)
qed

lemma release_loop:
  "reset_loop rme coll n (MUSPI_InitResetRelease s l, i, r) = Some (n + 3, i, release_regs s l r)"
proof -
  let ?rs = "MUSPI_InitResetRelease s l"
  have f: "sequence ?rs = 8" "lastSequenceID ?rs = 0xff" by (simp_all add: MUSPI_InitResetRelease_def MUSPI_InitReset_def)
  have 8: "MUSPI_Reset rme coll (?rs, i, r) = Some (RetErr EAGAIN, ?rs\<lparr>sequence := 9\<rparr>, i, release_regs s l r)"
    using f by (simp add: MUSPI_Reset_def reset_steps_def Let_def release_regs_def)
  have 9: "MUSPI_Reset rme coll (?rs\<lparr>sequence := 9\<rparr>, i, q) = Some (RetErr EAGAIN, ?rs\<lparr>sequence := 10\<rparr>, i, q)" for q
    using f by (simp add: MUSPI_Reset_def reset_steps_def Let_def)
  have 10: "MUSPI_Reset rme coll (?rs\<lparr>sequence := 10\<rparr>, i, q) = Some (RetOK, ?rs\<lparr>sequence := 10\<rparr>, i, q)" for q
    using f by (simp add: MUSPI_Reset_def reset_steps_def Let_def)
  show ?thesis
    using reset_loop_again[OF 8] reset_loop_again[OF 9] reset_loop_done[OF 10] by (simp add: add.commute)
qed

section \<open>What the reset does\<close>

definition rec_used :: "mu_regs \<Rightarrow> nat \<Rightarrow> nat \<Rightarrow> bool" where
  "rec_used r t j \<longleftrightarrow> rmu_start r (gid_of t, sgid_of t, j) \<noteq> 0"

lemma reset_groups_one:
  "\<not> clear_allsubgroups rs \<Longrightarrow> clear_subgroup rs = s \<Longrightarrow> s < 68 \<Longrightarrow> reset_groups rs = [gid_of s]"
proof -
  assume a: "\<not> clear_allsubgroups rs" "clear_subgroup rs = s" "s < 68"
  have "filter (\<lambda>g. g = k) [0..<n] = (if k < n then [k] else [])" for k n :: nat by (induction n) auto
  moreover have "s div 4 < 17" using a(3) by linarith
  ultimately show "reset_groups rs = [gid_of s]" using a by (simp add: reset_groups_def gid_of_def mu_numbers)
qed

lemma fold_upt_one: "(\<And>k r. k \<noteq> m \<Longrightarrow> f k r = r) \<Longrightarrow> m < n \<Longrightarrow> fold f [0..<n] r = f m r"
proof (induction n)
  case (Suc n)
  have "fold f [0..<n] r = r" if "m = n"
    unfolding that[symmetric]
  proof -
    have "\<forall>k \<in> set ks. k \<noteq> m \<Longrightarrow> fold f ks r = r" for ks by (induction ks) (auto simp: Suc.prems(1))
    then show "fold f [0..<m] r = r" by simp
  qed
  with Suc show ?case by (cases "m = n") simp_all
qed simp

text \<open>With both user and system FIFOs to be cleared, every FIFO of the subgroup is.\<close>

lemma reset_inj_all:
  assumes "clear_user rs" "clear_system rs"
  shows "imu_start (MUSPI_ResetInitInjFifoSubgroupMU rs g sg r) =
      (\<lambda>k. if \<exists>i < NUM_INJ_FIFOS_PER_SUBGROUP. k = (g, sg, i) then 0 else imu_start r k)"
    "rmu_start (MUSPI_ResetInitInjFifoSubgroupMU rs g sg r) = rmu_start r"
    "bat_entry (MUSPI_ResetInitInjFifoSubgroupMU rs g sg r) = bat_entry r"
    "rputbase_system (MUSPI_ResetInitInjFifoSubgroupMU rs g sg r) = rputbase_system r"
proof -
  have t: "reset_fifo rs w m" for w m using assms by (simp add: reset_fifo_def)
  let ?f = "\<lambda>i r. let m = inj_bit sg i in if reset_fifo rs (imfifo_system r g) m
     then r\<lparr>imu_start := (imu_start r)((g, sg, i) := 0),
            imu_priority := (imu_priority r)((g, sg) := imu_priority r (g, sg) AND NOT m),
            imfifo_int_en := (imfifo_int_en r)(g := imfifo_int_en r g AND NOT m),
            imfifo_rget := (imfifo_rget r)(g := imfifo_rget r g AND NOT m)\<rparr> else r"
  have "imu_start (fold ?f ids r) = (\<lambda>k. if \<exists>i \<in> set ids. k = (g, sg, i) then 0 else imu_start r k) \<and>
      rmu_start (fold ?f ids r) = rmu_start r \<and> bat_entry (fold ?f ids r) = bat_entry r \<and>
      rputbase_system (fold ?f ids r) = rputbase_system r" for ids
    by (induction ids arbitrary: r) (auto simp: t Let_def)
  from this[of "[0..<NUM_INJ_FIFOS_PER_SUBGROUP]"] show
    "imu_start (MUSPI_ResetInitInjFifoSubgroupMU rs g sg r) =
      (\<lambda>k. if \<exists>i < NUM_INJ_FIFOS_PER_SUBGROUP. k = (g, sg, i) then 0 else imu_start r k)"
    "rmu_start (MUSPI_ResetInitInjFifoSubgroupMU rs g sg r) = rmu_start r"
    "bat_entry (MUSPI_ResetInitInjFifoSubgroupMU rs g sg r) = bat_entry r"
    "rputbase_system (MUSPI_ResetInitInjFifoSubgroupMU rs g sg r) = rputbase_system r"
    unfolding MUSPI_ResetInitInjFifoSubgroupMU_def by (auto simp: fun_eq_iff)
qed

lemma reset_rec_all:
  assumes "clear_user rs" "clear_system rs"
  shows "rmu_start (MUSPI_ResetInitRecFifoSubgroupMU rs g sg r) =
      (\<lambda>k. if \<exists>i < NUM_REC_FIFOS_PER_SUBGROUP. k = (g, sg, i) then 0 else rmu_start r k)"
    "imu_start (MUSPI_ResetInitRecFifoSubgroupMU rs g sg r) = imu_start r"
    "bat_entry (MUSPI_ResetInitRecFifoSubgroupMU rs g sg r) = bat_entry r"
    "rputbase_system (MUSPI_ResetInitRecFifoSubgroupMU rs g sg r) = rputbase_system r"
proof -
  have t: "reset_fifo rs w m" for w m using assms by (simp add: reset_fifo_def)
  let ?f = "\<lambda>i r. let m = rec_bit sg i in if reset_fifo rs (rmfifo_system r g) m
     then r\<lparr>rmu_start := (rmu_start r)((g, sg, i) := 0),
            rmfifo_int_en := (rmfifo_int_en r)(g := rmfifo_int_en r g AND NOT m),
            rmfifo_avail := (rmfifo_avail r)(g := rmfifo_avail r g AND NOT m)\<rparr> else r"
  have "rmu_start (fold ?f ids r) = (\<lambda>k. if \<exists>i \<in> set ids. k = (g, sg, i) then 0 else rmu_start r k) \<and>
      imu_start (fold ?f ids r) = imu_start r \<and> bat_entry (fold ?f ids r) = bat_entry r \<and>
      rputbase_system (fold ?f ids r) = rputbase_system r" for ids
    by (induction ids arbitrary: r) (auto simp: t Let_def)
  from this[of "[0..<NUM_REC_FIFOS_PER_SUBGROUP]"] show
    "rmu_start (MUSPI_ResetInitRecFifoSubgroupMU rs g sg r) =
      (\<lambda>k. if \<exists>i < NUM_REC_FIFOS_PER_SUBGROUP. k = (g, sg, i) then 0 else rmu_start r k)"
    "imu_start (MUSPI_ResetInitRecFifoSubgroupMU rs g sg r) = imu_start r"
    "bat_entry (MUSPI_ResetInitRecFifoSubgroupMU rs g sg r) = bat_entry r"
    "rputbase_system (MUSPI_ResetInitRecFifoSubgroupMU rs g sg r) = rputbase_system r"
    unfolding MUSPI_ResetInitRecFifoSubgroupMU_def by (auto simp: fun_eq_iff)
qed

lemma restore_mu:
  assumes rs: "clear_user rs" "clear_system rs" "\<not> clear_allsubgroups rs" "clear_subgroup rs = s" and s: "s < 68"
  shows "inj_used (MUSPI_ResetRestoreMU rs r) t j \<longleftrightarrow> inj_used r t j \<and> \<not> (t = s \<and> j < NUM_INJ_FIFOS_PER_SUBGROUP)"
    and "rec_used (MUSPI_ResetRestoreMU rs r) t j \<longleftrightarrow> rec_used r t j \<and> \<not> (t = s \<and> j < NUM_REC_FIFOS_PER_SUBGROUP)"
    and "bat_system_status s r \<Longrightarrow> bat_entry (MUSPI_ResetRestoreMU rs r) = bat_entry r"
    and "se_drop_usr (MUSPI_ResetRestoreMU rs r) = se_drop_usr r" "se_drop_sys (MUSPI_ResetRestoreMU rs r) = se_drop_sys r"
    and "rmfifo_en (MUSPI_ResetRestoreMU rs r) = rmfifo_en r"
proof -
  let ?g = "gid_of s" and ?k = "sgid_of s"
  let ?r1 = "MUSPI_ResetInitRecFifoSubgroupMU rs ?g ?k (MUSPI_ResetInitInjFifoSubgroupMU rs ?g ?k r)"
  have k: "?k < NUM_FIFO_SUBGROUPS" by (simp add: sgid_of_def mu_numbers)
  have "fold (reset_subgroup rs ?g) [0..<NUM_FIFO_SUBGROUPS] r = reset_subgroup rs ?g ?k r"
    by (rule fold_upt_one[OF _ k]) (simp add: reset_subgroup_def rs sgid_of_def)
  also have "\<dots> = reset_bat ?g ?k ?r1" using rs by (simp add: reset_subgroup_def sgid_of_def)
  finally have e: "fold (reset_subgroup rs ?g) [0..<NUM_FIFO_SUBGROUPS] r = reset_bat ?g ?k ?r1" .
  have R: "MUSPI_ResetRestoreMU rs r = (let q = reset_bat ?g ?k ?r1 in
      q\<lparr>imfifo_system := (imfifo_system q)(?g := push_bit 32 1 - 1), rmfifo_system := (rmfifo_system q)(?g := push_bit 16 1 - 1),
        rputbase_system := (rputbase_system q)(0 := -1, 1 := -1)\<rparr>)"
    unfolding MUSPI_ResetRestoreMU_def reset_groups_one[OF rs(3,4) s] reset_group_def using rs(1) e by (simp add: Let_def)
  note A = reset_inj_all[OF rs(1,2)] reset_rec_all[OF rs(1,2)]
  have u: "inj_used (MUSPI_ResetRestoreMU rs r) t j = inj_used ?r1 t j" "rec_used (MUSPI_ResetRestoreMU rs r) t j = rec_used ?r1 t j" for t j
    unfolding R inj_used_def rec_used_def by (simp_all add: reset_bat_def Let_def)
  show "inj_used (MUSPI_ResetRestoreMU rs r) t j \<longleftrightarrow> inj_used r t j \<and> \<not> (t = s \<and> j < NUM_INJ_FIFOS_PER_SUBGROUP)"
    unfolding u by (auto simp: inj_used_def A dest: subgroup_eq)
  show "rec_used (MUSPI_ResetRestoreMU rs r) t j \<longleftrightarrow> rec_used r t j \<and> \<not> (t = s \<and> j < NUM_REC_FIFOS_PER_SUBGROUP)"
    unfolding u by (auto simp: rec_used_def A dest: subgroup_eq)
  show "bat_entry (MUSPI_ResetRestoreMU rs r) = bat_entry r" if b: "bat_system_status s r"
  proof -
    have "?g mod 16 * 4 + ?k = (if s \<le> 63 then s else s - 64) \<and> ?g div 16 = (if s \<le> 63 then 0 else 1)"
    proof (cases "s \<le> 63")
      case True
      then have "s div 4 < 16" by linarith
      then show ?thesis using True by (simp add: gid_of_def sgid_of_def mu_numbers)
    next
      case False
      then have "s div 4 = 16" using s by linarith
      then show ?thesis using False minus_mult_div_eq_mod[of s 4] by (simp add: gid_of_def sgid_of_def mu_numbers)
    qed
    then have "rputbase_system ?r1 (?g div 16) AND drop_bit (?g mod 16 * NUM_FIFO_SUBGROUPS + ?k) 0x8000000000000000 \<noteq> 0"
      using b by (auto simp: bat_system_status_def A NUM_FIFO_SUBGROUPS_def split: if_splits)
    then show ?thesis unfolding R by (simp add: reset_bat_def Let_def A)
  qed
  have nd: "se_drop_usr ?r1 = se_drop_usr r \<and> se_drop_sys ?r1 = se_drop_sys r \<and> rmfifo_en ?r1 = rmfifo_en r"
  proof -
    have "se_drop_usr (fold f ids q) = se_drop_usr q \<and> se_drop_sys (fold f ids q) = se_drop_sys q \<and> rmfifo_en (fold f ids q) = rmfifo_en q"
      if "\<And>i q. se_drop_usr (f i q) = se_drop_usr q \<and> se_drop_sys (f i q) = se_drop_sys q \<and> rmfifo_en (f i q) = rmfifo_en q"
      for f :: "nat \<Rightarrow> mu_regs \<Rightarrow> mu_regs" and ids q
      by (induction ids arbitrary: q) (simp_all add: that)
    then show ?thesis
      unfolding MUSPI_ResetInitRecFifoSubgroupMU_def MUSPI_ResetInitInjFifoSubgroupMU_def by (simp add: Let_def)
  qed
  show "se_drop_usr (MUSPI_ResetRestoreMU rs r) = se_drop_usr r" "se_drop_sys (MUSPI_ResetRestoreMU rs r) = se_drop_sys r"
    "rmfifo_en (MUSPI_ResetRestoreMU rs r) = rmfifo_en r"
    unfolding R using nd by (simp_all add: reset_bat_def Let_def)
qed

lemma hold_regs_simps:
  assumes "s < 68"
  shows "imu_start (hold_regs s l r) = imu_start r" "rmu_start (hold_regs s l r) = rmu_start r"
    "bat_entry (hold_regs s l r) = bat_entry r" "rputbase_system (hold_regs s l r) = rputbase_system r"
    "dcrs_out (hold_regs s l r) = dcrs_out r" "rme_enable (hold_regs s l r) = 0xffff"
    "se_drop_usr (hold_regs s l r) = (\<lambda>x. if muspi_link (MUSPI_InitResetHold s l) x \<and> \<not> dcrs_out r x then True else se_drop_usr r x)"
    "se_drop_sys (hold_regs s l r) = (\<lambda>x. if muspi_link (MUSPI_InitResetHold s l) x \<and> \<not> dcrs_out r x then True else se_drop_sys r x)"
    "rmfifo_en (hold_regs s l r) = (rmfifo_en r)
       (gid_of s := (0xffff AND NOT (push_bit (63 - (48 + 3 + 4 * sgid_of s)) 0xf)) AND rmfifo_en r (gid_of s))"
proof -
  have f: "clear_user (MUSPI_InitResetHold s l)" "clear_system (MUSPI_InitResetHold s l)"
    "\<not> clear_allsubgroups (MUSPI_InitResetHold s l)" "clear_subgroup (MUSPI_InitResetHold s l) = s"
    by (simp_all add: MUSPI_InitResetHold_def MUSPI_InitReset_def)
  show "imu_start (hold_regs s l r) = imu_start r" "rmu_start (hold_regs s l r) = rmu_start r"
    "bat_entry (hold_regs s l r) = bat_entry r" "rputbase_system (hold_regs s l r) = rputbase_system r"
    "dcrs_out (hold_regs s l r) = dcrs_out r" "rme_enable (hold_regs s l r) = 0xffff"
    "se_drop_usr (hold_regs s l r) = (\<lambda>x. if muspi_link (MUSPI_InitResetHold s l) x \<and> \<not> dcrs_out r x then True else se_drop_usr r x)"
    "se_drop_sys (hold_regs s l r) = (\<lambda>x. if muspi_link (MUSPI_InitResetHold s l) x \<and> \<not> dcrs_out r x then True else se_drop_sys r x)"
    "rmfifo_en (hold_regs s l r) = (rmfifo_en r)
       (gid_of s := (0xffff AND NOT (push_bit (63 - (48 + 3 + 4 * sgid_of s)) 0xf)) AND rmfifo_en r (gid_of s))"
    using f by (auto simp: hold_regs_def Let_def MUSPI_ResetDisableNDSenders_def drop_senders_def MUSPI_ResetEnableUserRmes_def
      MUSPI_ResetDisableUserReception_def reset_groups_one[OF f(3,4) assms] disable_group_def sgid_of_def)
qed

lemma muspi_link_one:
  assumes "l < 11"
  shows "muspi_link (MUSPI_InitResetHold s l) x \<longleftrightarrow> x = l" "muspi_link (MUSPI_InitResetRelease s l) x \<longleftrightarrow> x = l"
proof -
  have "push_bit l (1 :: u64) AND push_bit x 1 \<noteq> 0 \<longleftrightarrow> x = l" if "x < 11"
  proof
    assume "push_bit l (1 :: u64) AND push_bit x 1 \<noteq> 0"
    then obtain n where "bit (push_bit l (1 :: u64) AND push_bit x 1) n" by (metis bit_word_eqI bit_0_eq bot_apply bot_bool_def)
    then show "x = l" by (auto simp: bit_simps)
  next
    assume "x = l"
    then have "bit (push_bit l (1 :: u64) AND push_bit x 1) l" using assms by (simp add: bit_simps)
    then show "push_bit l (1 :: u64) AND push_bit x 1 \<noteq> 0" by force
  qed
  then show "muspi_link (MUSPI_InitResetHold s l) x \<longleftrightarrow> x = l" "muspi_link (MUSPI_InitResetRelease s l) x \<longleftrightarrow> x = l"
    using assms by (auto simp: muspi_link_def MUSPI_InitResetHold_def MUSPI_InitResetRelease_def ND_RESE_DCR_num_def)
qed

lemma release_regs_simps:
  assumes s: "s < 68" and l: "l < 11"
  shows "inj_used (release_regs s l r) t j \<longleftrightarrow> inj_used r t j \<and> \<not> (t = s \<and> j < 8)"
    and "rec_used (release_regs s l r) t j \<longleftrightarrow> rec_used r t j \<and> \<not> (t = s \<and> j < 4)"
    and "bat_system_status s r \<Longrightarrow> bat_entry (release_regs s l r) = bat_entry r"
    and "se_drop_usr (release_regs s l r) = (\<lambda>x. if x = l \<and> \<not> dcrs_out r x then False else se_drop_usr r x)"
    and "se_drop_sys (release_regs s l r) = (\<lambda>x. if x = l \<and> \<not> dcrs_out r x then False else se_drop_sys r x)"
    and "rmfifo_en (release_regs s l r) = rmfifo_en r"
proof -
  let ?rs = "MUSPI_InitResetRelease s l" and ?r1 = "MUSPI_ResetPermitNDSenders (MUSPI_InitResetRelease s l) r"
  have f: "clear_user ?rs" "clear_system ?rs" "\<not> clear_allsubgroups ?rs" "clear_subgroup ?rs = s"
    by (simp_all add: MUSPI_InitResetRelease_def MUSPI_InitReset_def)
  note M = restore_mu[OF f s, of ?r1]
  have nd: "imu_start (release_regs s l r) = imu_start (MUSPI_ResetRestoreMU ?rs ?r1)"
    "rmu_start (release_regs s l r) = rmu_start (MUSPI_ResetRestoreMU ?rs ?r1)"
    "bat_entry (release_regs s l r) = bat_entry (MUSPI_ResetRestoreMU ?rs ?r1)"
    "se_drop_usr (release_regs s l r) = se_drop_usr (MUSPI_ResetRestoreMU ?rs ?r1)"
    "se_drop_sys (release_regs s l r) = se_drop_sys (MUSPI_ResetRestoreMU ?rs ?r1)"
    "rmfifo_en (release_regs s l r) = rmfifo_en (MUSPI_ResetRestoreMU ?rs ?r1)"
    by (simp_all add: release_regs_def Let_def MUSPI_ResetRestoreND_def)
  have p: "imu_start ?r1 = imu_start r" "rmu_start ?r1 = rmu_start r" "bat_entry ?r1 = bat_entry r"
    "bat_system_status s ?r1 = bat_system_status s r" "rmfifo_en ?r1 = rmfifo_en r"
    by (simp_all add: MUSPI_ResetPermitNDSenders_def drop_senders_def bat_system_status_def)
  show "inj_used (release_regs s l r) t j \<longleftrightarrow> inj_used r t j \<and> \<not> (t = s \<and> j < 8)"
    using M(1)[of t j] nd(1) p(1) by (simp add: inj_used_def NUM_INJ_FIFOS_PER_SUBGROUP_def)
  show "rec_used (release_regs s l r) t j \<longleftrightarrow> rec_used r t j \<and> \<not> (t = s \<and> j < 4)"
    using M(2)[of t j] nd(2) p(2) by (simp add: rec_used_def NUM_REC_FIFOS_PER_SUBGROUP_def)
  show "bat_system_status s r \<Longrightarrow> bat_entry (release_regs s l r) = bat_entry r" using M(3) nd(3) p(3,4) by simp
  show "se_drop_usr (release_regs s l r) = (\<lambda>x. if x = l \<and> \<not> dcrs_out r x then False else se_drop_usr r x)"
    "se_drop_sys (release_regs s l r) = (\<lambda>x. if x = l \<and> \<not> dcrs_out r x then False else se_drop_sys r x)"
    using M(4,5) nd(4,5) f(1,2) by (auto simp: MUSPI_ResetPermitNDSenders_def drop_senders_def muspi_link_one[OF l])
  show "rmfifo_en (release_regs s l r) = rmfifo_en r" using M(6) nd(6) p(5) by simp
qed

text \<open>
  C33: holding a subgroup and its link in reset and releasing them ends, and frees just that subgroup.
  When the reception engines go idle at some time after any, the two loops around \<^verbatim>\<open>MUSPI_Reset\<close> end
  after seven and after three calls.  In between the senders of a link that is not itself in reset
  drop user and system packets; behind them they do not, no injection or reception FIFO of the
  subgroup is in use, the FIFOs of all other subgroups are used as before, and a base address table
  in system mode keeps its entries.
\<close>

theorem muspi_reset_hold_release:
  assumes "rmes_idle rme" "s < 68" "l < 11"
  shows "\<exists>j r1 r2. reset_loop rme coll 0 (MUSPI_InitResetHold s l, i, r) = Some (7, j, r1) \<and>
    reset_loop rme coll 0 (MUSPI_InitResetRelease s l, j, r1) = Some (3, j, r2) \<and>
    (\<not> dcrs_out r l \<longrightarrow> se_drop_usr r1 l \<and> se_drop_sys r1 l \<and> \<not> se_drop_usr r2 l \<and> \<not> se_drop_sys r2 l) \<and>
    (\<forall>x. x \<noteq> l \<longrightarrow> se_drop_usr r2 x = se_drop_usr r x \<and> se_drop_sys r2 x = se_drop_sys r x) \<and>
    (\<forall>t k. inj_used r2 t k \<longleftrightarrow> inj_used r t k \<and> \<not> (t = s \<and> k < 8)) \<and>
    (\<forall>t k. rec_used r2 t k \<longleftrightarrow> rec_used r t k \<and> \<not> (t = s \<and> k < 4)) \<and>
    (bat_system_status s r \<longrightarrow> bat_entry r2 = bat_entry r)"
proof -
  obtain j where H: "reset_loop rme coll 0 (MUSPI_InitResetHold s l, i, r) = Some (7, j, hold_regs s l r)"
    using hold_loop[OF assms(1), of coll 0 s l i r] by auto
  note h = hold_regs_simps[OF assms(2)] and R = release_regs_simps[OF assms(2,3), of "hold_regs s l r"]
  have u: "inj_used (hold_regs s l r) = inj_used r" "rec_used (hold_regs s l r) = rec_used r"
    "bat_system_status s (hold_regs s l r) = bat_system_status s r"
    by (auto simp: inj_used_def rec_used_def h bat_system_status_def fun_eq_iff)
  show ?thesis
    by (intro exI[of _ j] exI[of _ "hold_regs s l r"] exI[of _ "release_regs s l (hold_regs s l r)"])
       (use H release_loop[of rme coll 0 s l j "hold_regs s l r"] R h(3,5,7,8) u in \<open>simp add: muspi_link_one[OF assms(3)]\<close>)
qed

theorem muspi_reset_hold_release_witness:
  "\<exists>j r1 r2. reset_loop (\<lambda>i. if i < 3 then (push_bit 30 1, 0) else (0, 0)) (\<lambda>_ r. r) 0
      (MUSPI_InitResetHold 66 10, 0, demo_regs\<lparr>imu_start := (\<lambda>_. 0x40)\<rparr>) = Some (7, j, r1) \<and>
    reset_loop (\<lambda>i. if i < 3 then (push_bit 30 1, 0) else (0, 0)) (\<lambda>_ r. r) 0 (MUSPI_InitResetRelease 66 10, j, r1) = Some (3, j, r2) \<and>
    \<not> inj_used r2 66 0 \<and> inj_used r2 67 0"
proof -
  let ?rme = "\<lambda>i :: nat. if i < 3 then (push_bit 30 1 :: u64, 0 :: u64) else (0, 0)"
  have i: "rmes_idle ?rme" unfolding rmes_idle_def by (intro allI exI[of _ 3]) simp
  have u: "inj_used (demo_regs\<lparr>imu_start := (\<lambda>_. 0x40)\<rparr>) t k" for t k by (simp add: inj_used_def)
  from muspi_reset_hold_release[OF i, of 66 10 "\<lambda>_ r. r" 0 "demo_regs\<lparr>imu_start := (\<lambda>_. 0x40)\<rparr>"]
  show ?thesis by (auto simp: u)
qed

end
