(* ===== verification/Mudm_Fifos.thy ===== *)
theory Mudm_Fifos
  imports Mu_Reset
begin

text \<open>
  The FIFOs and base address tables the data mover owns, \<^verbatim>\<open>struct MU_subgroup_memory\<close> of
  \<^verbatim>\<open>bgmudm/common.h\<close>, and their activation and release in \<^verbatim>\<open>bgmudm/mudm_init.c\<close>.  One FIFO of each
  kind is used per subgroup, number 0.  The interrupt status registers, which are only cleared, and
  RAS messages are left out.
\<close>

section \<open>State\<close>

record mu_subgroup =
  ms_inj :: inj_subgroup
  ms_rec :: rec_subgroup
  ms_bat :: bat_subgroup
  batids :: "nat list"
  batvalues :: "u64 list"
  rfifoids :: nat
  ififoid :: nat
  subgroupID :: nat
  clearInterrupts_mask :: u64
  injRegion :: mem_region
  recRegion :: mem_region

definition SYS_GROUPID :: nat where "SYS_GROUPID = 16"

text \<open>The bit of a reception FIFO in the registers of its group.\<close>

definition rec_fifo_bits :: "nat \<Rightarrow> nat \<Rightarrow> u64" where
  "rec_fifo_bits subgrpid fifo = push_bit (15 - (subgrpid mod NUM_FIFO_SUBGROUPS * NUM_REC_FIFOS_PER_SUBGROUP) - fifo) 1"

section \<open>Activation\<close>

text \<open>
  The priority in the attributes is never set: \<open>prio\<close> is what the stack holds.  \<open>hwfree\<close> is the free
  space the hardware reports for the new FIFO.
\<close>

definition activate_injfifos :: "bool \<Rightarrow> u64 \<Rightarrow> mu_subgroup \<Rightarrow> mu_regs \<Rightarrow> (ret \<times> mu_subgroup \<times> mu_regs) option" where
  "activate_injfifos prio hwfree musm0 r =
     (let musm = musm0\<lparr>ififoid := 0\<rparr>; mr = injRegion musm in
      case Kernel_AllocateInjFifos (subgroupID musm) [(0, \<lparr>RemoteGet = False, ia_System = True, Priority = prio\<rparr>)] (ms_inj musm) r of
        None \<Rightarrow> None
      | Some (RetErr _, sg, r1) \<Rightarrow> Some (RetErr EFAULT, musm\<lparr>ms_inj := sg\<rparr>, r1)
      | Some (RetOK, sg, r1) \<Rightarrow>
         (case Kernel_InjFifoInit hwfree 0 mr 0 (region_length mr - 1) sg r1 of
            None \<Rightarrow> None
          | Some (sg1, r2) \<Rightarrow>
              map_option (\<lambda>r3. (RetOK, musm\<lparr>ms_inj := sg1\<rparr>, r3)) (Kernel_InjFifoActivate [0] True sg1 r2)))"

definition activate_recfifos :: "mu_subgroup \<Rightarrow> mu_regs \<Rightarrow> (ret \<times> mu_subgroup \<times> mu_regs) option" where
  "activate_recfifos musm0 r =
     (let musm = musm0\<lparr>rfifoids := 0\<rparr>; mr = recRegion musm; bits = rec_fifo_bits (subgroupID musm) 0 in
      case Kernel_AllocateRecFifos (subgroupID musm) [(0, True)] (ms_rec musm) r of
        None \<Rightarrow> None
      | Some (RetErr _, sg, r1) \<Rightarrow> Some (RetErr EFAULT, musm\<lparr>ms_rec := sg\<rparr>, r1)
      | Some (RetOK, sg, r1) \<Rightarrow>
         (case Kernel_RecFifoInit 0 mr 0 (region_length mr - 1) sg r1 of
            None \<Rightarrow> None
          | Some (sg1, r2) \<Rightarrow>
             (case Kernel_ConfigureRecFifoInterrupts [(0, False, True)] sg1 r2 of
                None \<Rightarrow> None
              | Some r3 \<Rightarrow>
                  map_option (\<lambda>r4. (RetOK, musm\<lparr>ms_rec := sg1, clearInterrupts_mask := bits\<rparr>, r4))
                    (Kernel_RecFifoEnable SYS_GROUPID bits r3))))"

fun set_bases :: "nat \<Rightarrow> u64 list \<Rightarrow> bat_subgroup \<times> mu_regs \<Rightarrow> (bat_subgroup \<times> mu_regs) option" where
  "set_bases i [] s = Some s"
| "set_bases i (v # vs) (sg, r) =
     (case MUSPI_SetBaseAddress i v sg r of None \<Rightarrow> None | Some s \<Rightarrow> set_bases (Suc i) vs s)"

text \<open>The result of the allocation is ignored: a table allocated before keeps its structure.\<close>

definition activate_base_address_table :: "mu_subgroup \<Rightarrow> mu_regs \<Rightarrow> (mu_subgroup \<times> mu_regs) option" where
  "activate_base_address_table musm r =
     (case Kernel_AllocateBaseAddressTable (subgroupID musm) (batids musm) True (ms_bat musm) r of
        None \<Rightarrow> None
      | Some (_, sg, r1) \<Rightarrow>
          map_option (\<lambda>(sg1, r2). (musm\<lparr>ms_bat := sg1\<rparr>, r2)) (set_bases 0 (batvalues musm) (sg, r1)))"

section \<open>Release\<close>

text \<open>The clean-up functions of the subgroup's regions, up to the call of \<^verbatim>\<open>free_mem\<close>.\<close>

definition free_MU_inj_region :: "mu_subgroup \<Rightarrow> mu_regs \<Rightarrow> mu_regs option" where
  "free_MU_inj_region musm r =
     (case Kernel_InjFifoActivate [ififoid musm] False (ms_inj musm) r of
        None \<Rightarrow> None | Some r1 \<Rightarrow> Kernel_DeallocateInjFifos [ififoid musm] (ms_inj musm) r1)"

definition deactivate_base_address_table :: "mu_subgroup \<Rightarrow> mu_regs \<Rightarrow> (mu_subgroup \<times> mu_regs) option" where
  "deactivate_base_address_table musm r =
     map_option (\<lambda>(sg, r1). (musm\<lparr>ms_bat := sg\<rparr>, r1)) (Kernel_DeallocateBaseAddressTable (batids musm) (ms_bat musm) r)"

definition deactivate_recfifo :: "mu_subgroup \<Rightarrow> mu_regs \<Rightarrow> mu_regs option" where
  "deactivate_recfifo musm r =
     (case Kernel_RecFifoDisable SYS_GROUPID (rec_fifo_bits (subgroupID musm) (rfifoids musm)) r of
        None \<Rightarrow> None | Some r1 \<Rightarrow> Kernel_DeallocateRecFifos [rfifoids musm] (ms_rec musm) r1)"

section \<open>What activation gives\<close>

text \<open>A region that holds \<open>n\<close> descriptors, and one that can serve as the memory of a reception FIFO.\<close>

definition inj_region_ok :: "nat \<Rightarrow> mem_region \<Rightarrow> bool" where
  "inj_region_ok n mr \<longleftrightarrow> 1 < n \<and> unat (base_vaddr mr) mod 64 = 0 \<and>
     unat (region_length mr) = 64 * n \<and> unat (base_vaddr mr) + 64 * n < 2 ^ 64 \<and> base_paddr mr \<noteq> 0"

definition rec_region_ok :: "nat \<Rightarrow> mem_region \<Rightarrow> bool" where
  "rec_region_ok sz mr \<longleftrightarrow> 576 \<le> sz \<and> sz < 2 ^ 32 \<and> sz mod 32 = 0 \<and> unat (base_vaddr mr) mod 32 = 0 \<and>
     unat (region_length mr) = sz \<and> unat (base_vaddr mr) + sz + 544 < 2 ^ 64 \<and> base_paddr mr \<noteq> 0"

lemma aligned_mask:
  assumes "unat (w :: u64) mod 2 ^ k = 0"
  shows "w AND mask k = 0" "w AND NOT (mask k) = w"
proof -
  have "unat (take_bit k w) = take_bit k (unat w)" by (rule unsigned_take_bit_eq)
  then have "unat (take_bit k w) = 0" using assms by (simp only: take_bit_eq_mod[of k "unat w"])
  then have "take_bit k w = 0" by (simp only: unat_eq_0)
  then show z: "w AND mask k = 0" by (simp only: take_bit_eq_mask)
  have "w = w AND mask k OR w AND NOT (mask k)" by (rule bit_word_eqI) (auto simp: bit_simps)
  then show "w AND NOT (mask k) = w" using z by simp
qed

lemma aligned_masks:
  "unat w mod 64 = 0 \<Longrightarrow> w AND 0xFFFFFFFFFFFFFFC0 = (w :: u64)" "unat w mod 64 = 0 \<Longrightarrow> w AND 0x3F = 0"
  "unat w mod 32 = 0 \<Longrightarrow> w AND 0xFFFFFFFFFFFFFFE0 = w" "unat w mod 32 = 0 \<Longrightarrow> w AND 0x1F = 0"
proof -
  have e: "NOT (mask 6) = (0xFFFFFFFFFFFFFFC0 :: u64)" "mask 6 = (0x3F :: u64)"
    "NOT (mask 5) = (0xFFFFFFFFFFFFFFE0 :: u64)" "mask 5 = (0x1F :: u64)" by (simp_all add: mask_eq_exp_minus_1)
  show "unat w mod 64 = 0 \<Longrightarrow> w AND 0xFFFFFFFFFFFFFFC0 = w" "unat w mod 64 = 0 \<Longrightarrow> w AND 0x3F = 0"
    "unat w mod 32 = 0 \<Longrightarrow> w AND 0xFFFFFFFFFFFFFFE0 = w" "unat w mod 32 = 0 \<Longrightarrow> w AND 0x1F = 0"
    using aligned_mask(2)[of w 6, unfolded e(1)] aligned_mask(1)[of w 6, unfolded e(2)]
      aligned_mask(2)[of w 5, unfolded e(3)] aligned_mask(1)[of w 5, unfolded e(4)] by simp_all
qed

lemma length_word: "unat w = k \<Longrightarrow> (w :: u64) = of_nat k"
  by (erule subst) simp

lemma inj_region_simps:
  assumes "inj_region_ok n mr"
  shows "1 < n" "base_vaddr mr AND 0xFFFFFFFFFFFFFFC0 = base_vaddr mr" "128 \<le> region_length mr"
    "region_length mr AND 0x3F = 0" "base_vaddr mr < base_vaddr mr + region_length mr"
    "region_length mr = of_nat (64 * n)" "region_length mr - 1 = of_nat (64 * n - 1)"
    "unat (base_vaddr mr) mod 32 = 0" "unat (base_vaddr mr) + 64 * n < 2 ^ 64" "base_paddr mr \<noteq> 0"
proof -
  have a: "1 < n" "unat (base_vaddr mr) mod 64 = 0" "unat (region_length mr) = 64 * n"
    "unat (base_vaddr mr) + 64 * n < 2 ^ 64" "base_paddr mr \<noteq> 0"
    using assms by (auto simp: inj_region_ok_def)
  show "1 < n" "unat (base_vaddr mr) + 64 * n < 2 ^ 64" "base_paddr mr \<noteq> 0" using a by simp_all
  show "base_vaddr mr AND 0xFFFFFFFFFFFFFFC0 = base_vaddr mr" "region_length mr AND 0x3F = 0"
    using a(2,3) by (simp_all add: aligned_masks)
  show "128 \<le> region_length mr" using a(1,3) by (simp add: word_le_nat_alt)
  show l: "region_length mr = of_nat (64 * n)" by (rule length_word[OF a(3)])
  show "region_length mr - 1 = of_nat (64 * n - 1)" unfolding l using a(1) by (simp add: of_nat_diff)
  show "unat (base_vaddr mr) mod 32 = 0" using a(2) by presburger
  have "unat (base_vaddr mr + region_length mr) = unat (base_vaddr mr) + 64 * n"
    using a(3,4) by (subst unat_add_lem[THEN iffD1]) simp_all
  then show "base_vaddr mr < base_vaddr mr + region_length mr" using a(1) by (simp add: word_less_nat_alt)
qed

lemma rec_region_simps:
  assumes "rec_region_ok sz mr"
  shows "576 \<le> sz" "sz < 2 ^ 32" "sz mod 32 = 0" "base_vaddr mr AND 0xFFFFFFFFFFFFFFE0 = base_vaddr mr" "576 \<le> region_length mr"
    "region_length mr AND 0x1F = 0" "region_length mr = of_nat sz" "region_length mr - 1 = of_nat (sz - 1)"
    "unat (base_vaddr mr) mod 32 = 0" "unat (base_vaddr mr) + sz + 544 < 2 ^ 64" "base_paddr mr \<noteq> 0"
proof -
  have a: "576 \<le> sz" "sz < 2 ^ 32" "sz mod 32 = 0" "unat (base_vaddr mr) mod 32 = 0" "unat (region_length mr) = sz"
    "unat (base_vaddr mr) + sz + 544 < 2 ^ 64" "base_paddr mr \<noteq> 0"
    using assms by (auto simp: rec_region_ok_def)
  show "576 \<le> sz" "sz < 2 ^ 32" "sz mod 32 = 0" "unat (base_vaddr mr) mod 32 = 0"
    "unat (base_vaddr mr) + sz + 544 < 2 ^ 64" "base_paddr mr \<noteq> 0" using a by simp_all
  show "base_vaddr mr AND 0xFFFFFFFFFFFFFFE0 = base_vaddr mr" "region_length mr AND 0x1F = 0"
    using a(3,4,5) by (simp_all add: aligned_masks)
  show "576 \<le> region_length mr" using a(1,5) by (simp add: word_le_nat_alt)
  show l: "region_length mr = of_nat sz" by (rule length_word[OF a(5)])
  show "region_length mr - 1 = of_nat (sz - 1)" unfolding l using a(1) by (simp add: of_nat_diff)
qed

lemma alloc_inj_regs_other [simp]:
  "rmu_start (alloc_inj_regs g s xs r) = rmu_start r" "bat_entry (alloc_inj_regs g s xs r) = bat_entry r"
  by (simp_all add: alloc_inj_regs_def Let_def)

text \<open>The subgroup after the activation of its injection FIFO, and the registers that hold a FIFO.\<close>

lemma activate_injfifos_fresh:
  assumes g: "inj_region_ok n (injRegion m)" and s: "subgroupID m < 68"
  shows "if inj_used r (subgroupID m) 0
     then activate_injfifos p h m r = Some (RetErr EFAULT, m\<lparr>ififoid := 0\<rparr>, r)
     else \<exists>m' r'. activate_injfifos p h m r = Some (RetOK, m', r') \<and> m' = m\<lparr>ififoid := 0, ms_inj := ms_inj m'\<rparr> \<and>
       inj_inv n (isg_fifos (ms_inj m') 0) \<and> inj_log (isg_fifos (ms_inj m') 0) = [] \<and>
       descCount (isg_fifos (ms_inj m') 0) = 0 \<and> freeSpace (isg_fifos (ms_inj m') 0) = h \<and>
       (\<forall>t j. inj_used r' t j \<longleftrightarrow> inj_used r t j \<or> t = subgroupID m \<and> j = 0) \<and>
       rmu_start r' = rmu_start r \<and> bat_entry r' = bat_entry r"
proof (cases "inj_used r (subgroupID m) 0")
  case True
  then have "0 \<notin> set (Kernel_QueryInjFifos (subgroupID m) r)" by (simp add: query_inj)
  then show ?thesis using True s
    by (auto simp: activate_injfifos_def Let_def Kernel_AllocateInjFifos_def mu_numbers)
next
  case False
  then have q: "0 \<in> set (Kernel_QueryInjFifos (subgroupID m) r)" by (simp add: query_inj mu_numbers)
  then have q': "Kernel_QueryInjFifos (subgroupID m) r \<noteq> []" by auto
  note g = inj_region_simps[OF g]
  have u: "inj_used (r1\<lparr>imu_start := (imu_start r1)((gid_of s, sgid_of s, j) := base_paddr (injRegion m)), imu_enable := e\<rparr>) t k \<longleftrightarrow>
      inj_used r1 t k \<or> t = s \<and> k = j" for r1 s e t k j
    using g by (auto simp: inj_used_def dest: subgroup_eq)
  show ?thesis using False q q' s g
    by (simp add: activate_injfifos_def Let_def Kernel_AllocateInjFifos_def mu_numbers Kernel_InjFifoInit_def
        Kernel_InjFifoActivate_def alloc_inj_subgroup_def zero_inj_subgroup_def inj_inv_def fifo_geometry_def slot_addr_def
        u alloc_inj_used)
qed

lemma activate_recfifos_fresh:
  assumes g: "rec_region_ok sz (recRegion m)" and s: "subgroupID m < 68"
  shows "if rec_used r (subgroupID m) 0
     then activate_recfifos m r = Some (RetErr EFAULT, m\<lparr>rfifoids := 0\<rparr>, r)
     else \<exists>m' r'. activate_recfifos m r = Some (RetOK, m', r') \<and>
       m' = m\<lparr>rfifoids := 0, ms_rec := ms_rec m', clearInterrupts_mask := clearInterrupts_mask m'\<rparr> \<and>
       rec_at sz 0 [] (rsg_fifos (ms_rec m') 0) \<and>
       (\<forall>t j. rec_used r' t j \<longleftrightarrow> rec_used r t j \<or> t = subgroupID m \<and> j = 0) \<and>
       imu_start r' = imu_start r \<and> bat_entry r' = bat_entry r"
proof (cases "rec_used r (subgroupID m) 0")
  case True
  then have "0 \<notin> set (Kernel_QueryRecFifos (subgroupID m) r)" by (simp add: Kernel_QueryRecFifos_def rec_used_def)
  then show ?thesis using True s
    by (auto simp: activate_recfifos_def Let_def Kernel_AllocateRecFifos_def mu_numbers)
next
  case False
  then have q: "0 \<in> set (Kernel_QueryRecFifos (subgroupID m) r)" by (simp add: Kernel_QueryRecFifos_def rec_used_def mu_numbers)
  then have q': "Kernel_QueryRecFifos (subgroupID m) r \<noteq> []" by auto
  note g = rec_region_simps[OF g]
  have b: "rec_fifo_bits (subgroupID m) 0 \<noteq> 0"
    by (auto simp: rec_fifo_bits_def mu_numbers push_bit_eq_0_iff)
  show ?thesis using False q q' s g b
    by (auto simp: activate_recfifos_def Let_def Kernel_AllocateRecFifos_def mu_numbers Kernel_RecFifoInit_def
        Kernel_ConfigureRecFifoInterrupts_def Kernel_RecFifoEnable_def SYS_GROUPID_def
        zero_rec_subgroup_def rec_at_def ring_geometry_def ring_addr_def alloc_rec_regs_def rec_used_def dest: subgroup_eq)
qed

section \<open>The base address table\<close>

text \<open>The table of a subgroup as the data mover sets it up: in system mode, with all entries its own.\<close>

definition bat_ready :: "mu_subgroup \<Rightarrow> bool" where
  "bat_ready m \<longleftrightarrow> bsg_hw (ms_bat m) = Some (True, gid_of (subgroupID m), sgid_of (subgroupID m)) \<and>
     bsg_permissions (ms_bat m) = 0xFF \<and> bsg_id (ms_bat m) = subgroupID m"

definition bat_cfg :: "mu_subgroup \<Rightarrow> bool" where
  "bat_cfg m \<longleftrightarrow> batids m = [0..<8] \<and> length (batvalues m) = 8 \<and> subgroupID m < 68"

lemma perm_bits: "i < 8 \<Longrightarrow> perm_bit i \<noteq> 0" "fold (\<lambda>i p. p OR perm_bit i) [0..<8] 0 = 0xFF"
proof -
  have "i < 8 \<Longrightarrow> i \<in> {0, 1, 2, 3, 4, 5, 6, 7}" by auto
  then show "i < 8 \<Longrightarrow> perm_bit i \<noteq> 0" by (auto simp: perm_bit_def BN_def)
  show "fold (\<lambda>i p. p OR perm_bit i) [0..<8] 0 = 0xFF" by (simp add: perm_bit_def BN_def upt_conv_Cons)
qed

lemma set_bases_total:
  assumes "bsg_permissions sg = 0xFF" "bsg_hw sg = Some (True, g, s)"
  shows "i + length vs \<le> 8 \<Longrightarrow> \<exists>f. set_bases i vs (sg, r) = Some (sg\<lparr>sw_bat := f\<rparr>, r\<lparr>bat_entry :=
      (\<lambda>(g', s', k). if g' = g \<and> s' = s \<and> i \<le> k \<and> k < i + length vs then vs ! (k - i) else bat_entry r (g', s', k))\<rparr>)"
  using assms
proof (induction vs arbitrary: i sg r)
  case Nil
  have "(\<lambda>(g', s', k). if g' = g \<and> s' = s \<and> i \<le> k \<and> k < i + length ([] :: u64 list) then [] ! (k - i) else bat_entry r (g', s', k)) =
      bat_entry r" by (auto simp: fun_eq_iff)
  then show ?case by (intro exI[of _ "sw_bat sg"]) simp
next
  case (Cons v vs)
  let ?sg = "sg\<lparr>sw_bat := (sw_bat sg)(i := v)\<rparr>" and ?r = "r\<lparr>bat_entry := (bat_entry r)((g, s, i) := v)\<rparr>"
  have "(0xFF :: u8) = -1" by simp
  then have "0xFF AND perm_bit i = perm_bit i" by (simp only: and.left_neutral)
  then have 1: "MUSPI_SetBaseAddress i v sg r = Some (?sg, ?r)"
    using Cons.prems perm_bits(1)[of i] by (simp add: MUSPI_SetBaseAddress_def mu_numbers)
  from Cons.IH[of "Suc i" ?sg ?r] Cons.prems obtain f where 2: "set_bases (Suc i) vs (?sg, ?r) = Some (?sg\<lparr>sw_bat := f\<rparr>, ?r\<lparr>bat_entry :=
      (\<lambda>(g', s', k). if g' = g \<and> s' = s \<and> Suc i \<le> k \<and> k < Suc i + length vs then vs ! (k - Suc i) else bat_entry ?r (g', s', k))\<rparr>)" by auto
  have "(\<lambda>(g', s', k). if g' = g \<and> s' = s \<and> Suc i \<le> k \<and> k < Suc i + length vs then vs ! (k - Suc i) else bat_entry ?r (g', s', k)) =
      (\<lambda>(g', s', k). if g' = g \<and> s' = s \<and> i \<le> k \<and> k < i + length (v # vs) then (v # vs) ! (k - i) else bat_entry r (g', s', k))"
    by (auto simp: fun_eq_iff nth_Cons' not_le Suc_le_eq)
  with 1 2 show ?case by (intro exI[of _ f]) simp
qed

text \<open>
  Activation of a table that is ready, whose entries the reset keeps, or of one whose entries are
  all free.
\<close>

lemma activate_bat_total:
  assumes c: "bat_cfg m" and b: "bat_ready m \<or> (\<forall>i < 8. bat_entry r (gid_of (subgroupID m), sgid_of (subgroupID m), i) = BAT_FREE)"
  shows "\<exists>sg r'. activate_base_address_table m r = Some (m\<lparr>ms_bat := sg\<rparr>, r') \<and> bat_ready (m\<lparr>ms_bat := sg\<rparr>) \<and>
    (\<forall>i < 8. bat_entry r' (gid_of (subgroupID m), sgid_of (subgroupID m), i) = batvalues m ! i) \<and>
    imu_start r' = imu_start r \<and> rmu_start r' = rmu_start r"
proof -
  let ?s = "subgroupID m"
  have c: "batids m = [0..<8]" "length (batvalues m) = 8" "?s < 68" using c by (auto simp: bat_cfg_def)
  let ?free = "Kernel_QueryBaseAddressTable ?s r"
  obtain rc sg1 r1 where A: "Kernel_AllocateBaseAddressTable ?s (batids m) True (ms_bat m) r = Some (rc, sg1, r1)"
    "bat_ready (m\<lparr>ms_bat := sg1\<rparr>)" "imu_start r1 = imu_start r" "rmu_start r1 = rmu_start r"
  proof (cases "\<forall>i < 8. bat_entry r (gid_of ?s, sgid_of ?s, i) = BAT_FREE")
    case True
    then have f: "?free = [0..<8]" by (simp add: Kernel_QueryBaseAddressTable_def mu_numbers)
    have i: "ids_free 8 [0..<8] [0..<8] = Some RetOK" by (subst ids_free_cases) simp_all
    show ?thesis
      using that[of RetOK] c f i
      by (simp add: Kernel_AllocateBaseAddressTable_def Let_def mu_numbers bat_ready_def perm_bits(2) set_bat_mode_def bat_mode_def
          split: prod.splits)
  next
    case False
    then have "length ?free < 8"
      using length_filter_less[of _ "[0..<8]"] unfolding Kernel_QueryBaseAddressTable_def mu_numbers by fastforce
    then have "Kernel_AllocateBaseAddressTable ?s (batids m) True (ms_bat m) r = Some (RetErr EAGAIN, ms_bat m, r)"
      using c(1,3) by (simp add: Kernel_AllocateBaseAddressTable_def Let_def mu_numbers)
    moreover have "bat_ready m" using b False by blast
    ultimately show ?thesis using that[of "RetErr EAGAIN" "ms_bat m" r] by simp
  qed
  then have h: "bsg_permissions sg1 = 0xFF" "bsg_hw sg1 = Some (True, gid_of ?s, sgid_of ?s)" by (auto simp: bat_ready_def)
  have le: "0 + length (batvalues m) \<le> 8" using c by simp
  from set_bases_total[OF h le, of r1] obtain f where B: "set_bases 0 (batvalues m) (sg1, r1) =
      Some (sg1\<lparr>sw_bat := f\<rparr>, r1\<lparr>bat_entry := (\<lambda>(g', s', k). if g' = gid_of ?s \<and> s' = sgid_of ?s \<and> 0 \<le> k \<and>
        k < 0 + length (batvalues m) then batvalues m ! (k - 0) else bat_entry r1 (g', s', k))\<rparr>)" by blast
  show ?thesis using A B c(2)
    by (intro exI[of _ "sg1\<lparr>sw_bat := f\<rparr>"]) (simp add: activate_base_address_table_def bat_ready_def)
qed

end
