(* ===== verification/Mudm_Reset.thy ===== *)
theory Mudm_Reset
  imports Mudm_Fifos Mudm_Handshake "HOL-Library.Monad_Syntax"
begin

text \<open>
  The reset of the IO links of a job and the termination of the data mover:
  \<^verbatim>\<open>mudm_resetIOlink\<close>, \<^verbatim>\<open>quiet_IOlinks\<close> and \<^verbatim>\<open>mudm_terminate\<close> of \<^verbatim>\<open>bgmudm/mudm_cleanup.c\<close>.
  These compose the connection lists, the three pools of a link, the reset of the hardware and
  the activation of the FIFOs.  The flight recorder, the log of uninjected descriptors, time
  measurement and \<^verbatim>\<open>wakeup()\<close> are left out.
\<close>

section \<open>State\<close>

text \<open>
  \<open>md_rme\<close> counts the readings of the engine states, \<open>md_active\<close> is \<^verbatim>\<open>injfifo_ctls[i].state\<close>, and
  \<open>md_calls\<close> and \<open>md_freed\<close> record the calls of the status callback and of the clean-up functions.
\<close>

record mudm_state =
  md_mc :: my_context
  md_sub :: "nat \<Rightarrow> mu_subgroup"
  md_submem :: "nat \<Rightarrow> mem_region"
  md_regs :: mu_regs
  md_rme :: nat
  md_active :: "nat \<Rightarrow> bool"
  md_running :: bool
  md_cleanup :: cleanup
  md_calls :: status_list
  md_freed :: "(cleanup_fn \<times> mem_region \<times> ptr) list"

text \<open>
  What is not code of the module: the user's callbacks, the readings of the engine states, the
  collective steps of the reset (skipped here), the free space of a new FIFO, the contents of the
  unset priority attribute, and the result of a clean-up function.
\<close>

record reset_env =
  env_pkt :: status_cb
  env_rdma :: rdma_status_cb
  env_conn :: recv_conn
  env_rme :: "nat \<Rightarrow> u64 \<times> u64"
  env_coll :: "nat \<Rightarrow> mu_regs \<Rightarrow> mu_regs"
  env_free :: "nat \<Rightarrow> u64"
  env_prio :: bool
  env_run :: "cleanup_fn \<times> mem_region \<times> ptr \<Rightarrow> u64"

section \<open>Operations\<close>

text \<open>The three flushes that occur together; their results are only logged.\<close>

definition flush_link :: "reset_env \<Rightarrow> nat \<Rightarrow> mudm_state \<Rightarrow> mudm_state option" where
  "flush_link e i md =
     do { (c1, p) \<leftarrow> flush_pkt_reqid (env_pkt e) (packetcontrols (md_mc md) i);
          (c2, s) \<leftarrow> flush_pkt_reqid (env_pkt e) (smallpa_obj_ctls (md_mc md) i);
          (c3, r) \<leftarrow> flush_rdma_counter_reqid (env_rdma e) (rdma_obj_ctls (md_mc md) i);
          Some (md\<lparr>md_calls := md_calls md @ c1 @ c2 @ c3,
                  md_mc := (md_mc md)\<lparr>packetcontrols := (packetcontrols (md_mc md))(i := p),
                    smallpa_obj_ctls := (smallpa_obj_ctls (md_mc md))(i := s),
                    rdma_obj_ctls := (rdma_obj_ctls (md_mc md))(i := r)\<rparr>\<rparr>) }"

definition run_reset :: "reset_env \<Rightarrow> muspi_reset \<Rightarrow> mudm_state \<Rightarrow> mudm_state option" where
  "run_reset e rs md =
     map_option (\<lambda>(_, j, r). md\<lparr>md_rme := j, md_regs := r\<rparr>) (reset_loop (env_rme e) (env_coll e) 0 (rs, md_rme md, md_regs md))"

text \<open>The body of the second and the third loop of \<^verbatim>\<open>mudm_resetIOlink\<close>, for a link of the job.\<close>

definition disable_link :: "nat \<Rightarrow> mudm_state \<Rightarrow> mudm_state option" where
  "disable_link i md =
     do { mc1 \<leftarrow> disable_active_connection_list i (md_mc md);
          (_, mc2) \<leftarrow> disable_pending_connection_list i mc1;
          Some (md\<lparr>md_mc := mc2\<rparr>) }"

definition flush_connections :: "reset_env \<Rightarrow> nat \<Rightarrow> mudm_state \<Rightarrow> mudm_state option" where
  "flush_connections e i md = map_option (\<lambda>mc. md\<lparr>md_mc := mc\<rparr>) (flush_iolink_connection_list (env_conn e) i (md_mc md))"

definition reset_link_down :: "reset_env \<Rightarrow> nat \<Rightarrow> mudm_state \<Rightarrow> mudm_state option" where
  "reset_link_down e i md =
     (let s = subgroupID (md_sub md i); l = unat (link4reset (md_mc md) i) in
      do { md1 \<leftarrow> disable_link i md;
           md2 \<leftarrow> flush_link e i md1;
           md3 \<leftarrow> run_reset e (MUSPI_InitResetHold s l) md2;
           md4 \<leftarrow> flush_link e i md3;
           md5 \<leftarrow> run_reset e (MUSPI_InitResetRelease s l) md4;
           md6 \<leftarrow> flush_link e i md5;
           flush_connections e i md6 })"

text \<open>
  The control of a link points to FIFO 0 of its subgroup.  The results of the activations are
  ignored: the link is marked active in any case.
\<close>

definition reset_link_up :: "reset_env \<Rightarrow> nat \<Rightarrow> mudm_state \<Rightarrow> mudm_state option" where
  "reset_link_up e i md =
     (let mc = md_mc md; musm = md_sub md i;
          musm0 = musm\<lparr>ms_inj := (ms_inj musm)\<lparr>isg_fifos := (isg_fifos (ms_inj musm))(0 := injfifo (injfifo_ctls mc i))\<rparr>\<rparr>
      in do { (musm1, r1) \<leftarrow> activate_base_address_table musm0 (md_regs md);
              (_, musm2, r2) \<leftarrow> activate_injfifos (env_prio e) (env_free e i) musm1 r1;
              (_, musm3, r3) \<leftarrow> activate_recfifos musm2 r2;
              Some (md\<lparr>md_sub := (md_sub md)(i := musm3), md_regs := r3, md_active := (md_active md)(i := True),
                md_mc := mc\<lparr>injfifo_ctls := (injfifo_ctls mc)(i := (injfifo_ctls mc i)\<lparr>injfifo := isg_fifos (ms_inj musm3) 0\<rparr>),
                  link_BlockID := (link_BlockID mc)(i := 0)\<rparr>\<rparr>) })"

text \<open>A loop over links; the condition is read in each round.\<close>

fun each_link :: "(mudm_state \<Rightarrow> nat \<Rightarrow> bool) \<Rightarrow> (nat \<Rightarrow> mudm_state \<Rightarrow> mudm_state option) \<Rightarrow> nat list \<Rightarrow> mudm_state \<Rightarrow> mudm_state option" where
  "each_link c f [] md = Some md"
| "each_link c f (i # is) md = do { md1 \<leftarrow> (if c md i then f i md else Some md); each_link c f is md1 }"

definition block_link :: "u32 \<Rightarrow> mudm_state \<Rightarrow> nat \<Rightarrow> bool" where
  "block_link BlockID md i \<longleftrightarrow> link_BlockID (md_mc md) i = BlockID"

definition mudm_resetIOlink :: "reset_env \<Rightarrow> u32 \<Rightarrow> mudm_state \<Rightarrow> (ret \<times> mudm_state) option" where
  "mudm_resetIOlink e BlockID md =
     (if mmagic (md_mc md) \<noteq> MUDM_MAGIC then Some (RetErr EFAULT, md)
      else do { md1 \<leftarrow> each_link (block_link BlockID) (\<lambda>i md. Some (md\<lparr>md_active := (md_active md)(i := False)\<rparr>)) [0..<NUM_IO_LINKS] md;
                md2 \<leftarrow> each_link (block_link BlockID) (reset_link_down e) [0..<NUM_IO_LINKS] md1;
                md3 \<leftarrow> each_link (block_link BlockID) (reset_link_up e) [0..<NUM_IO_LINKS] md2;
                Some (RetOK, md3\<lparr>md_mc := (md_mc md3)\<lparr>StuckState := False\<rparr>\<rparr>) })"

definition quiet_link :: "reset_env \<Rightarrow> nat \<Rightarrow> mudm_state \<Rightarrow> mudm_state option" where
  "quiet_link e i md = do { md1 \<leftarrow> disable_link i md; md2 \<leftarrow> flush_link e i md1; flush_connections e i md2 }"

definition quiet_IOlinks :: "reset_env \<Rightarrow> mudm_state \<Rightarrow> mudm_state option" where
  "quiet_IOlinks e md =
     each_link (\<lambda>_ _. True) (quiet_link e) [0..<NUM_IO_LINKS]
       (md\<lparr>md_active := (\<lambda>i. if i < NUM_IO_LINKS then False else md_active md i)\<rparr>)"

text \<open>
  What the clean-up functions of \<^verbatim>\<open>mudm_init.c\<close> do before they give the region to the user's
  \<^verbatim>\<open>free\<close>: those for FIFO regions have the subgroup as argument, the one for the memory of a
  subgroup finds it at the base of the region.
\<close>

definition cleanup_effect :: "cleanup_fn \<times> mem_region \<times> ptr \<Rightarrow> mudm_state \<Rightarrow> mudm_state option" where
  "cleanup_effect c md =
     (case c of
        (CF_free_MU_inj_region, _, Some i) \<Rightarrow> map_option (\<lambda>r. md\<lparr>md_regs := r\<rparr>) (free_MU_inj_region (md_sub md i) (md_regs md))
      | (CF_free_recfifo, _, Some i) \<Rightarrow> map_option (\<lambda>r. md\<lparr>md_regs := r\<rparr>) (deactivate_recfifo (md_sub md i) (md_regs md))
      | (CF_free_MU_subgroup_mem, m, _) \<Rightarrow>
          (case find (\<lambda>i. base_vaddr (md_submem md i) = base_vaddr m) [0..<NUM_IO_LINKS] of
             None \<Rightarrow> None
           | Some i \<Rightarrow> map_option (\<lambda>(musm, r). md\<lparr>md_sub := (md_sub md)(i := musm), md_regs := r\<rparr>)
               (deactivate_base_address_table (md_sub md i) (md_regs md)))
      | (CF_free_MU_inj_region, _, None) \<Rightarrow> None
      | (CF_free_recfifo, _, None) \<Rightarrow> None
      | _ \<Rightarrow> Some md)"

fun cleanup_effects :: "(cleanup_fn \<times> mem_region \<times> ptr) list \<Rightarrow> mudm_state \<Rightarrow> mudm_state option" where
  "cleanup_effects [] md = Some md"
| "cleanup_effects (c # cs) md = do { md1 \<leftarrow> cleanup_effect c md; cleanup_effects cs md1 }"

definition run_cleanup :: "reset_env \<Rightarrow> mudm_state \<Rightarrow> mudm_state option" where
  "run_cleanup e md =
     (let (cs, cl) = process_cleanup_table (env_run e) (md_cleanup md)
      in cleanup_effects cs (md\<lparr>md_freed := md_freed md @ cs, md_cleanup := cl\<rparr>))"

definition mudm_terminate :: "reset_env \<Rightarrow> mudm_state \<Rightarrow> (ret \<times> mudm_state) option" where
  "mudm_terminate e md =
     (if mmagic (md_mc md) \<noteq> MUDM_MAGIC then Some (RetErr EFAULT, md)
      else do { md1 \<leftarrow> quiet_IOlinks e (md\<lparr>md_running := False\<rparr>);
                md2 \<leftarrow> run_cleanup e md1;
                Some (RetOK, md2\<lparr>md_mc := (md_mc md2)\<lparr>mmagic := 0\<rparr>\<rparr>) })"

section \<open>Flushing when nothing new is posted\<close>

text \<open>A callback that posts nothing while requests are cancelled.\<close>

definition quiet_pkt :: "status_cb \<Rightarrow> bool" where
  "quiet_pkt cb \<longleftrightarrow> cb_ok cb \<and> (\<forall>l pc. pkt_reqid_list pc = None \<longrightarrow> pkt_reqid_list (cb l pc) = None)"

definition quiet_rdma :: "rdma_status_cb \<Rightarrow> bool" where
  "quiet_rdma cb \<longleftrightarrow> rcb_ok cb \<and> (\<forall>l rc. counter_list rc = None \<longrightarrow> counter_list (cb l rc) = None)"

lemma flush_pkt_loop_quiet:
  assumes "quiet_pkt cb" "pkt_reqid_list (snd s) = None" "flush_pkt_loop cb p l s = Some r"
  shows "pkt_reqid_list (snd (snd r)) = None"
proof -
  have "quiet_pkt cb \<longrightarrow> pkt_reqid_list (snd s) = None \<longrightarrow> pkt_reqid_list (snd (snd r)) = None"
    using _ assms(3)
  proof (rule flush_pkt_loop.raw_induct)
    fix loop :: "status_cb \<Rightarrow> ptr \<Rightarrow> ptr \<Rightarrow> status_list \<times> pkt_controls \<Rightarrow> (ptr \<times> status_list \<times> pkt_controls) option" and cb p l s r
    assume IH: "\<And>cb p l s r. loop cb p l s = Some r \<Longrightarrow>
        quiet_pkt cb \<longrightarrow> pkt_reqid_list (snd s) = None \<longrightarrow> pkt_reqid_list (snd (snd r)) = None"
      and e: "(case p of None \<Rightarrow> Some (l, s) | Some x \<Rightarrow> let s1 = flush_pkt_entry cb x s
          in loop cb (nxt (pkt_links (snd s1)) x) (Some x) s1) = Some r"
    show "quiet_pkt cb \<longrightarrow> pkt_reqid_list (snd s) = None \<longrightarrow> pkt_reqid_list (snd (snd r)) = None"
    proof (intro impI)
      assume n: "quiet_pkt cb" "pkt_reqid_list (snd s) = None"
      then have "pkt_reqid_list (snd (flush_pkt_entry cb x s)) = None" for x
        by (cases s) (simp add: quiet_pkt_def flush_pkt_entry_def Let_def set_pkt_req_id_def)
      then show "pkt_reqid_list (snd (snd r)) = None"
        using e n IH by (cases p) (auto simp: Let_def)
    qed
  qed
  with assms(1,2) show ?thesis by simp
qed

lemma flush_pkt_quiet:
  assumes q: "quiet_pkt cb" and rep: "pkt_rep pc fs bs"
  shows "\<exists>pc' fs'. flush_pkt_reqid cb pc = Some (concat (map (flush_ref (pkt_nodes pc)) bs), pc') \<and>
    pkt_rep pc' (bs @ fs') [] \<and> set fs' = set fs"
proof -
  from flush_pkt_reqid_total[OF rep, of cb] q obtain pc' fs' bs' where
    F: "flush_pkt_reqid cb pc = Some (concat (map (flush_ref (pkt_nodes pc)) bs), pc')" "pkt_rep pc' (bs @ fs') bs'"
    "set fs' \<union> set bs' = set fs" by (auto simp: quiet_pkt_def)
  have "pkt_reqid_list pc' = None"
  proof (cases "pkt_reqid_list pc")
    case None
    with F(1) show ?thesis by (auto simp: flush_pkt_reqid_def)
  next
    case (Some x)
    with F(1) flush_pkt_loop_quiet[OF q, of "([], pc\<lparr>pkt_reqid_list := None\<rparr>)" "Some x" None] show ?thesis
      by (auto simp: flush_pkt_reqid_def)
  qed
  then have "bs' = []" using F(2) chain_head by (auto simp: pkt_rep_def split: list.splits)
  with F show ?thesis by auto
qed

lemma flush_rdma_loop_quiet:
  assumes "quiet_rdma cb" "counter_list (snd s) = None" "flush_rdma_loop cb p l s = Some r"
  shows "counter_list (snd (snd r)) = None"
proof -
  have "quiet_rdma cb \<longrightarrow> counter_list (snd s) = None \<longrightarrow> counter_list (snd (snd r)) = None"
    using _ assms(3)
  proof (rule flush_rdma_loop.raw_induct)
    fix loop :: "rdma_status_cb \<Rightarrow> ptr \<Rightarrow> ptr \<Rightarrow> status_list \<times> rdma_obj_controls \<Rightarrow> (ptr \<times> status_list \<times> rdma_obj_controls) option" and cb p l s r
    assume IH: "\<And>cb p l s r. loop cb p l s = Some r \<Longrightarrow>
        quiet_rdma cb \<longrightarrow> counter_list (snd s) = None \<longrightarrow> counter_list (snd (snd r)) = None"
      and e: "(case p of None \<Rightarrow> Some (l, s) | Some x \<Rightarrow> let s1 = flush_rdma_entry cb x s
          in loop cb (nxt (ro_links (snd s1)) x) (Some x) s1) = Some r"
    show "quiet_rdma cb \<longrightarrow> counter_list (snd s) = None \<longrightarrow> counter_list (snd (snd r)) = None"
    proof (intro impI)
      assume n: "quiet_rdma cb" "counter_list (snd s) = None"
      then have "counter_list (snd (flush_rdma_entry cb x s)) = None" for x
        by (cases s) (simp add: quiet_rdma_def flush_rdma_entry_def Let_def)
      then show "counter_list (snd (snd r)) = None"
        using e n IH by (cases p) (auto simp: Let_def)
    qed
  qed
  with assms(1,2) show ?thesis by simp
qed

lemma flush_rdma_quiet:
  assumes q: "quiet_rdma cb" and rep: "rdma_rep rc fs bs"
  shows "\<exists>rc' fs'. flush_rdma_counter_reqid cb rc = Some (concat (map (rdma_flush_ref rc) bs), rc') \<and>
    rdma_rep rc' (bs @ fs') [] \<and> set fs' = set fs"
proof -
  from flush_rdma_counter_reqid_total[OF rep, of cb] q obtain rc' fs' bs' where
    F: "flush_rdma_counter_reqid cb rc = Some (concat (map (rdma_flush_ref rc) bs), rc')" "rdma_rep rc' (bs @ fs') bs'"
    "set fs' \<union> set bs' = set fs" by (auto simp: quiet_rdma_def)
  have "counter_list rc' = None"
  proof (cases "counter_list rc")
    case None
    with F(1) show ?thesis by (auto simp: flush_rdma_counter_reqid_def)
  next
    case (Some x)
    with F(1) flush_rdma_loop_quiet[OF q, of "([], rc\<lparr>counter_list := None\<rparr>)" "Some x" None] show ?thesis
      by (auto simp: flush_rdma_counter_reqid_def)
  qed
  then have "bs' = []" using F(2) chain_head by (auto simp: rdma_rep_def split: list.splits)
  with F show ?thesis by auto
qed

section \<open>Telling the connections of a link\<close>

text \<open>What is relied on of the user's \<^verbatim>\<open>recv_conn\<close>: it leaves the context alone.\<close>

definition quiet_conn :: "recv_conn \<Rightarrow> bool" where
  "quiet_conn rc \<longleftrightarrow> (\<forall>x h bs mc. \<exists>r. rc x h bs mc = Some (r, mc))"

definition swapped_conn :: "mudm_connection \<Rightarrow> mudm_connection" where
  "swapped_conn c = c\<lparr>mu_iMemoryFifoDescriptor := (mu_iMemoryFifoDescriptor c)\<lparr>muh := (muh (mu_iMemoryFifoDescriptor c))
     \<lparr>SoftwareBytes := disconnect_swap c (SoftwareBytes (muh (mu_iMemoryFifoDescriptor c)))\<rparr>\<rparr>\<rparr>"

definition told_conn :: "mudm_connection \<Rightarrow> mudm_connection" where
  "told_conn c = (swapped_conn (c\<lparr>cstate := CONN_FREE\<rparr>))\<lparr>activelist_of := None\<rparr>"

lemma disconnect_indicate_quiet:
  assumes "quiet_conn rc"
  shows "\<exists>r. disconnect_indicate rc x False mc = Some (r, upd_conn x swapped_conn mc)"
proof -
  have "swapped_conn = (\<lambda>c. c\<lparr>mu_iMemoryFifoDescriptor := (mu_iMemoryFifoDescriptor c)\<lparr>muh := (muh (mu_iMemoryFifoDescriptor c))
     \<lparr>SoftwareBytes := disconnect_swap c (SoftwareBytes (muh (mu_iMemoryFifoDescriptor c)))\<rparr>\<rparr>\<rparr>)"
    by (rule ext) (simp add: swapped_conn_def)
  then have e: "disconnect_indicate rc x False mc =
      (case rc x (SoftwareBytes (muh (mu_iMemoryFifoDescriptor (swapped_conn (conns mc x))))) [] (upd_conn x swapped_conn mc) of
         None \<Rightarrow> None | Some (r, mc2) \<Rightarrow> Some (r, mc2))"
    unfolding disconnect_indicate_def Let_def by (simp split: option.splits)
  obtain r where "rc x (SoftwareBytes (muh (mu_iMemoryFifoDescriptor (swapped_conn (conns mc x))))) [] (upd_conn x swapped_conn mc) =
      Some (r, upd_conn x swapped_conn mc)" using assms unfolding quiet_conn_def by blast
  then show ?thesis by (simp add: e)
qed

lemma upd_conn_twice: "upd_conn x f (upd_conn x g ct) = upd_conn x (\<lambda>c. f (g c)) ct"
  by (simp add: upd_conn_def)

lemma flush_iolink_loop_fold:
  assumes "quiet_conn rc"
  shows "chain (nxt (clinks mc)) p xs None \<Longrightarrow> flush_iolink_loop rc p l mc =
    Some (if xs = [] then l else Some (last xs), fold (\<lambda>x. upd_conn x told_conn) xs mc)"
proof (induction xs arbitrary: p l mc)
  case Nil
  then show ?case by (subst flush_iolink_loop.simps) simp
next
  case (Cons x xs)
  from Cons.prems have x: "p = Some x" "chain (nxt (clinks mc)) (nxt (clinks mc) x) xs None" by auto
  obtain r where "disconnect_indicate rc x False (upd_conn x (\<lambda>c. c\<lparr>cstate := CONN_FREE\<rparr>) mc) =
      Some (r, upd_conn x (\<lambda>c. swapped_conn (c\<lparr>cstate := CONN_FREE\<rparr>)) mc)"
    using disconnect_indicate_quiet[OF assms, of x "upd_conn x (\<lambda>c. c\<lparr>cstate := CONN_FREE\<rparr>) mc"] by (auto simp: upd_conn_twice)
  moreover have "upd_conn x (\<lambda>c. c\<lparr>activelist_of := None\<rparr>) (upd_conn x (\<lambda>c. swapped_conn (c\<lparr>cstate := CONN_FREE\<rparr>)) mc) =
      upd_conn x told_conn mc" by (simp add: upd_conn_twice told_conn_def[abs_def])
  ultimately show ?case using Cons.IH[of "upd_conn x told_conn mc" "nxt (clinks mc) x" "Some x"] x
    by (subst flush_iolink_loop.simps) simp
qed

lemma conn_rep_heads:
  "clinks mc' = clinks mc \<Longrightarrow> conn_freelist mc' = conn_freelist mc \<Longrightarrow> conn_pendlist mc' = conn_pendlist mc \<Longrightarrow>
   conn_activelist mc' = conn_activelist mc \<Longrightarrow> conn_abortlist mc' = conn_abortlist mc \<Longrightarrow> conn_rep mc' ls = conn_rep mc ls"
proof -
  assume e: "clinks mc' = clinks mc" "conn_freelist mc' = conn_freelist mc" "conn_pendlist mc' = conn_pendlist mc"
    "conn_activelist mc' = conn_activelist mc" "conn_abortlist mc' = conn_abortlist mc"
  have "clist_head mc' = clist_head mc" by (rule ext, rename_tac c, case_tac c) (simp_all add: e)
  then show ?thesis by (simp add: conn_rep_def e)
qed

lemma flush_iolink_rep:
  assumes q: "quiet_conn rc" and rep: "conn_rep mc ls"
  shows "\<exists>mc'. flush_iolink_connection_list rc l mc = Some mc' \<and>
    conn_rep mc' (ls(LFree := ls (LActive l) @ ls LFree, LActive l := [])) \<and>
    conns mc' = (\<lambda>x. if x \<in> set (ls (LActive l)) then told_conn (conns mc x) else conns mc x) \<and>
    conn_table.more mc' = conn_table.more mc"
proof -
  let ?A = "ls (LActive l)"
  have r: "links_rep (clinks mc) (clist_head mc) ls" using rep by (simp add: conn_rep_def)
  note R = links_repD[OF r]
  have c: "chain (nxt (clinks mc)) (conn_activelist mc l) ?A None" and d: "distinct ?A" using R(1,2)[of "LActive l"] by auto
  show ?thesis
  proof (cases ?A)
    case Nil
    have "ls(LFree := ls (LActive l) @ ls LFree, LActive l := []) = ls" using Nil by auto
    with Nil c rep show ?thesis by (simp add: flush_iolink_connection_list_def)
  next
    case (Cons x xs)
    let ?mc1 = "fold (\<lambda>x. upd_conn x told_conn) ?A mc"
    let ?L = "link_splice (Some (last ?A)) (conn_freelist mc) (clinks mc)"
    let ?mc' = "?mc1\<lparr>clinks := ?L, conn_freelist := Some x, conn_activelist := (conn_activelist mc)(l := None)\<rparr>"
    have p: "conn_activelist mc l = Some x" and ne: "?A \<noteq> []" using c Cons by auto
    have e: "flush_iolink_connection_list rc l mc = Some ?mc'"
      using flush_iolink_loop_fold[OF q c, of "Some x"] p ne by (simp add: flush_iolink_connection_list_def)
    have la: "last ?A \<notin> set (ls k)" if "k \<noteq> LActive l" for k
      using that R(4)[of "last ?A" "LActive l" k] ne by auto
    have nx: "nxt ?L = (nxt (clinks mc))(last ?A := conn_freelist mc)" "prv ?L = prv (clinks mc)"
      by (simp_all add: link_splice_def)
    have "clist_head ?mc' = (clist_head mc)(LFree := Some x, LActive l := None)"
      by (rule ext, rename_tac k, case_tac k) simp_all
    moreover have "links_rep ?L ((clist_head mc)(LFree := Some x, LActive l := None)) (ls(LFree := ?A @ ls LFree, LActive l := []))"
      unfolding links_rep_def
    proof (intro conjI allI impI)
      fix k
      have s: "chain (nxt ?L) (Some x) (?A @ ls LFree) None"
        using chain_splice[of "nxt (clinks mc)" "Some x" ?A "conn_freelist mc" "ls LFree"] c d ne p R(1)[of LFree] la[of LFree] nx(1)
        by simp
      show "chain (nxt ?L) (((clist_head mc)(LFree := Some x, LActive l := None)) k) ((ls(LFree := ?A @ ls LFree, LActive l := [])) k) None"
        using s R(1)[of k] la[of k] nx(1) by (cases "k = LFree"; cases "k = LActive l") (simp_all del: chain_append)
      show "distinct ((ls(LFree := ?A @ ls LFree, LActive l := [])) k)" using R(2) R(4) by (auto dest: R(4))
      show "k \<noteq> LFree \<Longrightarrow> backlinks (prv ?L) None ((ls(LFree := ?A @ ls LFree, LActive l := [])) k)" using R(3) nx(2) by simp
    qed (auto dest: R(4))
    ultimately show ?thesis using e fold_upd_conn_at[OF d, of "\<lambda>_. told_conn" mc] by (auto simp: conn_rep_def)
  qed
qed

section \<open>One link\<close>

lemma my_context_pools:
  assumes "conn_table.more mc' = conn_table.more mc"
  shows "smallpa_obj_ctls mc' = smallpa_obj_ctls mc" "rdma_obj_ctls mc' = rdma_obj_ctls mc"
    "link_BlockID mc' = link_BlockID mc" "link4reset mc' = link4reset mc" "StuckState mc' = StuckState mc"
  using assms by (cases mc; cases mc'; simp)+

text \<open>
  The three pools of a link: the free and the posted objects of the packets, of the small packets
  and of the RDMA objects.  \<open>emptied\<close> is such a triple when everything posted has become free.
\<close>

type_synonym pool_lists = "(nat list \<times> nat list) \<times> (nat list \<times> nat list) \<times> (nat list \<times> nat list)"

definition link_pools :: "my_context \<Rightarrow> nat \<Rightarrow> pool_lists \<Rightarrow> bool" where
  "link_pools mc i P \<longleftrightarrow> (case P of ((pf, pb), (sf, sb), (rf, rb)) \<Rightarrow>
     pkt_rep (packetcontrols mc i) pf pb \<and> pkt_rep (smallpa_obj_ctls mc i) sf sb \<and> rdma_rep (rdma_obj_ctls mc i) rf rb)"

definition cancelled :: "my_context \<Rightarrow> nat \<Rightarrow> pool_lists \<Rightarrow> status_list" where
  "cancelled mc i P = (case P of ((_, pb), (_, sb), (_, rb)) \<Rightarrow>
     concat (map (flush_ref (pkt_nodes (packetcontrols mc i))) pb) @
     concat (map (flush_ref (pkt_nodes (smallpa_obj_ctls mc i))) sb) @ concat (map (rdma_flush_ref (rdma_obj_ctls mc i)) rb))"

definition emptied :: "pool_lists \<Rightarrow> pool_lists \<Rightarrow> bool" where
  "emptied P Q \<longleftrightarrow> (case P of ((pf, pb), (sf, sb), (rf, rb)) \<Rightarrow> (case Q of ((pf', pb'), (sf', sb'), (rf', rb')) \<Rightarrow>
     pb' = [] \<and> sb' = [] \<and> rb' = [] \<and> set pf' = set pb \<union> set pf \<and> set sf' = set sb \<union> set sf \<and> set rf' = set rb \<union> set rf))"

definition pools_flushed :: "pool_lists \<Rightarrow> my_context \<Rightarrow> nat \<Rightarrow> bool" where
  "pools_flushed P mc k \<longleftrightarrow> (\<exists>Q. link_pools mc k Q \<and> emptied P Q)"

definition same_pools :: "my_context \<Rightarrow> my_context \<Rightarrow> nat \<Rightarrow> bool" where
  "same_pools mc mc' k \<longleftrightarrow> packetcontrols mc' k = packetcontrols mc k \<and> smallpa_obj_ctls mc' k = smallpa_obj_ctls mc k \<and>
     rdma_obj_ctls mc' k = rdma_obj_ctls mc k"

definition quiet_env :: "reset_env \<Rightarrow> bool" where
  "quiet_env e \<longleftrightarrow> quiet_pkt (env_pkt e) \<and> quiet_rdma (env_rdma e) \<and> quiet_conn (env_conn e)"

lemma flush_link_quiet:
  assumes q: "quiet_env e" and P: "link_pools (md_mc md) i P"
  shows "\<exists>mc' Q. flush_link e i md = Some (md\<lparr>md_calls := md_calls md @ cancelled (md_mc md) i P, md_mc := mc'\<rparr>) \<and>
    link_pools mc' i Q \<and> emptied P Q \<and> (\<forall>k. k \<noteq> i \<longrightarrow> same_pools (md_mc md) mc' k) \<and>
    mc' = (md_mc md)\<lparr>packetcontrols := packetcontrols mc', smallpa_obj_ctls := smallpa_obj_ctls mc', rdma_obj_ctls := rdma_obj_ctls mc'\<rparr>"
proof -
  obtain pf pb sf sb rf rb where P': "P = ((pf, pb), (sf, sb), (rf, rb))" by (metis prod.exhaust)
  have r: "pkt_rep (packetcontrols (md_mc md) i) pf pb" "pkt_rep (smallpa_obj_ctls (md_mc md) i) sf sb"
    "rdma_rep (rdma_obj_ctls (md_mc md) i) rf rb" using P by (auto simp: link_pools_def P')
  have q': "quiet_pkt (env_pkt e)" "quiet_rdma (env_rdma e)" using q by (auto simp: quiet_env_def)
  from flush_pkt_quiet[OF q'(1) r(1)] obtain p pf' where 1: "flush_pkt_reqid (env_pkt e) (packetcontrols (md_mc md) i) =
      Some (concat (map (flush_ref (pkt_nodes (packetcontrols (md_mc md) i))) pb), p)" "pkt_rep p (pb @ pf') []" "set pf' = set pf" by blast
  from flush_pkt_quiet[OF q'(1) r(2)] obtain s sf' where 2: "flush_pkt_reqid (env_pkt e) (smallpa_obj_ctls (md_mc md) i) =
      Some (concat (map (flush_ref (pkt_nodes (smallpa_obj_ctls (md_mc md) i))) sb), s)" "pkt_rep s (sb @ sf') []" "set sf' = set sf" by blast
  from flush_rdma_quiet[OF q'(2) r(3)] obtain c rf' where 3: "flush_rdma_counter_reqid (env_rdma e) (rdma_obj_ctls (md_mc md) i) =
      Some (concat (map (rdma_flush_ref (rdma_obj_ctls (md_mc md) i)) rb), c)" "rdma_rep c (rb @ rf') []" "set rf' = set rf" by blast
  let ?mc = "(md_mc md)\<lparr>packetcontrols := (packetcontrols (md_mc md))(i := p), smallpa_obj_ctls := (smallpa_obj_ctls (md_mc md))(i := s),
      rdma_obj_ctls := (rdma_obj_ctls (md_mc md))(i := c)\<rparr>"
  have "flush_link e i md = Some (md\<lparr>md_calls := md_calls md @ cancelled (md_mc md) i P, md_mc := ?mc\<rparr>)"
    by (simp add: flush_link_def 1(1) 2(1) 3(1) cancelled_def P')
  moreover have "link_pools ?mc i ((pb @ pf', []), (sb @ sf', []), (rb @ rf', []))" using 1(2) 2(2) 3(2) by (simp add: link_pools_def)
  moreover have "emptied P ((pb @ pf', []), (sb @ sf', []), (rb @ rf', []))" using 1(3) 2(3) 3(3) by (simp add: emptied_def P')
  ultimately show ?thesis
    by (intro exI[of _ ?mc] exI[of _ "((pb @ pf', []), (sb @ sf', []), (rb @ rf', []))"]) (simp add: same_pools_def)
qed

lemma flush_link_idle:
  assumes "link_pools (md_mc md) i Q" "emptied P Q"
  shows "flush_link e i md = Some md"
proof -
  obtain pf sf rf where "Q = ((pf, []), (sf, []), (rf, []))" using assms(2)
    by (cases P; cases Q) (auto simp: emptied_def split: prod.splits)
  then have "pkt_reqid_list (packetcontrols (md_mc md) i) = None" "pkt_reqid_list (smallpa_obj_ctls (md_mc md) i) = None"
    "counter_list (rdma_obj_ctls (md_mc md) i) = None" using assms(1) by (auto simp: link_pools_def pkt_rep_def rdma_rep_def)
  then show ?thesis by (simp add: flush_link_def flush_pkt_reqid_def flush_rdma_counter_reqid_def)
qed

definition link_lists :: "nat \<Rightarrow> (clist \<Rightarrow> nat list) \<Rightarrow> clist \<Rightarrow> nat list" where
  "link_lists i ls = ls(LAbort i := ls (LPend i), LPend i := [], LFree := ls (LActive i) @ ls LFree, LActive i := [])"

definition same_links :: "my_context \<Rightarrow> my_context \<Rightarrow> bool" where
  "same_links mc mc' \<longleftrightarrow> mmagic mc' = mmagic mc \<and> injfifo_ctls mc' = injfifo_ctls mc \<and> link_BlockID mc' = link_BlockID mc \<and>
     link4reset mc' = link4reset mc"

definition link_closed :: "my_context \<Rightarrow> my_context \<Rightarrow> nat set \<Rightarrow> nat set \<Rightarrow> bool" where
  "link_closed mc mc' as ps \<longleftrightarrow> (\<forall>x. if x \<in> as then cstate (conns mc' x) = CONN_FREE
     else if x \<in> ps then conns mc' x = (conns mc x)\<lparr>cstate := CONN_ABORTED\<rparr> else conns mc' x = conns mc x)"

lemma disable_link_total:
  assumes "conn_rep (md_mc md) ls" "ls (LAbort i) = []"
  shows "\<exists>mc'. disable_link i md = Some (md\<lparr>md_mc := mc'\<rparr>) \<and> conn_rep mc' (ls(LAbort i := ls (LPend i), LPend i := [])) \<and>
    conn_table.more mc' = conn_table.more (md_mc md) \<and>
    conns mc' = (\<lambda>x. if x \<in> set (ls (LPend i)) then (conns (md_mc md) x)\<lparr>cstate := CONN_ABORTED\<rparr>
      else if x \<in> set (ls (LActive i)) then (conns (md_mc md) x)\<lparr>cstate := CONN_DISCONNECTING, activelist_of := None\<rparr>
      else conns (md_mc md) x)"
proof -
  from disable_active_rep[OF assms(1), of i] obtain m1 where 1: "disable_active_connection_list i (md_mc md) = Some m1" "conn_rep m1 ls"
    "conns m1 = (\<lambda>x. if x \<in> set (ls (LActive i)) then (conns (md_mc md) x)\<lparr>cstate := CONN_DISCONNECTING, activelist_of := None\<rparr> else conns (md_mc md) x)"
    "conn_table.more m1 = conn_table.more (md_mc md)" by blast
  from disable_pending_rep[OF 1(2) assms(2)] obtain m2 where 2: "disable_pending_connection_list i m1 = Some (length (ls (LPend i)), m2)"
    "conn_rep m2 (ls(LAbort i := ls (LPend i), LPend i := []))"
    "conns m2 = (\<lambda>x. if x \<in> set (ls (LPend i)) then (conns m1 x)\<lparr>cstate := CONN_ABORTED\<rparr> else conns m1 x)"
    "conn_table.more m2 = conn_table.more m1" by blast
  have dj: "x \<in> set (ls (LPend i)) \<Longrightarrow> x \<notin> set (ls (LActive i))" for x
    using links_repD(4)[of "clinks (md_mc md)" "clist_head (md_mc md)" ls x "LPend i" "LActive i"] assms(1) by (auto simp: conn_rep_def)
  show ?thesis using 1 2 dj by (intro exI[of _ m2]) (auto simp: disable_link_def)
qed

lemma flush_connections_total:
  assumes "quiet_conn (env_conn e)" "conn_rep (md_mc md) ls"
  shows "\<exists>mc'. flush_connections e i md = Some (md\<lparr>md_mc := mc'\<rparr>) \<and>
    conn_rep mc' (ls(LFree := ls (LActive i) @ ls LFree, LActive i := [])) \<and> conn_table.more mc' = conn_table.more (md_mc md) \<and>
    conns mc' = (\<lambda>x. if x \<in> set (ls (LActive i)) then told_conn (conns (md_mc md) x) else conns (md_mc md) x)"
  using flush_iolink_rep[OF assms, of i] by (auto simp: flush_connections_def)

text \<open>What both the reset and the termination do to a link but for the hardware.\<close>

lemma link_quiet_total:
  assumes q: "quiet_env e" and P: "link_pools (md_mc md) i P" and L: "conn_rep (md_mc md) ls" "ls (LAbort i) = []"
  obtains mc1 mc2 mc3 Q where "disable_link i md = Some (md\<lparr>md_mc := mc1\<rparr>)"
    "flush_link e i (md\<lparr>md_mc := mc1\<rparr>) = Some (md\<lparr>md_calls := md_calls md @ cancelled (md_mc md) i P, md_mc := mc2\<rparr>)"
    "\<And>md'. md_mc md' = mc2 \<Longrightarrow> flush_link e i md' = Some md'"
    "\<And>md'. md_mc md' = mc2 \<Longrightarrow> flush_connections e i md' = Some (md'\<lparr>md_mc := mc3\<rparr>)"
    "link_pools mc3 i Q" "emptied P Q" "conn_rep mc3 (link_lists i ls)" "\<forall>k. k \<noteq> i \<longrightarrow> same_pools (md_mc md) mc3 k"
    "same_links (md_mc md) mc3" "link_closed (md_mc md) mc3 (set (ls (LActive i))) (set (ls (LPend i)))"
    "link4reset mc2 = link4reset (md_mc md)"
proof -
  from disable_link_total[OF L] obtain mc1 where 1: "disable_link i md = Some (md\<lparr>md_mc := mc1\<rparr>)"
    "conn_rep mc1 (ls(LAbort i := ls (LPend i), LPend i := []))" "conn_table.more mc1 = conn_table.more (md_mc md)"
    "conns mc1 = (\<lambda>x. if x \<in> set (ls (LPend i)) then (conns (md_mc md) x)\<lparr>cstate := CONN_ABORTED\<rparr>
      else if x \<in> set (ls (LActive i)) then (conns (md_mc md) x)\<lparr>cstate := CONN_DISCONNECTING, activelist_of := None\<rparr>
      else conns (md_mc md) x)" by blast
  note m1 = my_context_more[OF 1(3)] my_context_pools[OF 1(3)]
  have P1: "link_pools (md_mc (md\<lparr>md_mc := mc1\<rparr>)) i P" "cancelled mc1 i P = cancelled (md_mc md) i P"
    using P m1 by (auto simp: link_pools_def cancelled_def)
  from flush_link_quiet[OF q P1(1)] obtain mc2 Q where 2:
    "flush_link e i (md\<lparr>md_mc := mc1\<rparr>) = Some (md\<lparr>md_calls := md_calls md @ cancelled (md_mc md) i P, md_mc := mc2\<rparr>)"
    "link_pools mc2 i Q" "emptied P Q" "\<forall>k. k \<noteq> i \<longrightarrow> same_pools mc1 mc2 k"
    "mc2 = mc1\<lparr>packetcontrols := packetcontrols mc2, smallpa_obj_ctls := smallpa_obj_ctls mc2, rdma_obj_ctls := rdma_obj_ctls mc2\<rparr>"
    using P1(2) by auto
  have m2: "clinks mc2 = clinks mc1" "conn_freelist mc2 = conn_freelist mc1" "conn_pendlist mc2 = conn_pendlist mc1"
    "conn_activelist mc2 = conn_activelist mc1" "conn_abortlist mc2 = conn_abortlist mc1" "conns mc2 = conns mc1"
    "mmagic mc2 = mmagic mc1" "injfifo_ctls mc2 = injfifo_ctls mc1" "link_BlockID mc2 = link_BlockID mc1"
    "link4reset mc2 = link4reset mc1" by (subst 2(5), simp)+
  have r2: "conn_rep mc2 (ls(LAbort i := ls (LPend i), LPend i := []))" using conn_rep_heads[OF m2(1-5)] 1(2) by simp
  from q have qc: "quiet_conn (env_conn e)" by (simp add: quiet_env_def)
  from flush_iolink_rep[OF qc r2, of i] obtain mc3 where 3: "flush_iolink_connection_list (env_conn e) i mc2 = Some mc3"
    "conn_rep mc3 (link_lists i ls)" "conn_table.more mc3 = conn_table.more mc2"
    "conns mc3 = (\<lambda>x. if x \<in> set (ls (LActive i)) then told_conn (conns mc2 x) else conns mc2 x)"
    by (auto simp: link_lists_def)
  note m3 = my_context_more[OF 3(3)] my_context_pools[OF 3(3)]
  have dj: "x \<in> set (ls (LPend i)) \<Longrightarrow> x \<notin> set (ls (LActive i))" for x
    using links_repD(4)[of "clinks (md_mc md)" "clist_head (md_mc md)" ls x "LPend i" "LActive i"] L(1) by (auto simp: conn_rep_def)
  have "cstate (told_conn c) = CONN_FREE" for c by (simp add: told_conn_def swapped_conn_def)
  then have "link_closed (md_mc md) mc3 (set (ls (LActive i))) (set (ls (LPend i)))"
    using 3(4) 1(4) m2(6) dj by (auto simp: link_closed_def)
  moreover have "flush_connections e i md' = Some (md'\<lparr>md_mc := mc3\<rparr>)" if "md_mc md' = mc2" for md'
    using that 3(1) by (simp add: flush_connections_def)
  moreover have "flush_link e i md' = Some md'" if "md_mc md' = mc2" for md' by (rule flush_link_idle) (use that 2 in auto)
  ultimately show ?thesis
    using that[of mc1 mc2 mc3 Q] 1(1) 2 3(2) m1 m2 m3 by (simp add: link_pools_def same_pools_def same_links_def)
qed

lemma reset_link_down_total:
  assumes q: "quiet_env e" and hw: "rmes_idle (env_rme e)" and P: "link_pools (md_mc md) i P"
    and L: "conn_rep (md_mc md) ls" "ls (LAbort i) = []"
  defines "s \<equiv> subgroupID (md_sub md i)" and "l \<equiv> unat (link4reset (md_mc md) i)"
  shows "\<exists>mc' j Q. reset_link_down e i md = Some (md\<lparr>md_calls := md_calls md @ cancelled (md_mc md) i P, md_mc := mc',
        md_rme := j, md_regs := release_regs s l (hold_regs s l (md_regs md))\<rparr>) \<and>
      link_pools mc' i Q \<and> emptied P Q \<and> conn_rep mc' (link_lists i ls) \<and> (\<forall>k. k \<noteq> i \<longrightarrow> same_pools (md_mc md) mc' k) \<and>
      same_links (md_mc md) mc' \<and> link_closed (md_mc md) mc' (set (ls (LActive i))) (set (ls (LPend i)))"
proof -
  from link_quiet_total[OF q P L] obtain mc1 mc2 mc3 Q where 1: "disable_link i md = Some (md\<lparr>md_mc := mc1\<rparr>)"
    "flush_link e i (md\<lparr>md_mc := mc1\<rparr>) = Some (md\<lparr>md_calls := md_calls md @ cancelled (md_mc md) i P, md_mc := mc2\<rparr>)"
    "\<And>md'. md_mc md' = mc2 \<Longrightarrow> flush_link e i md' = Some md'"
    "\<And>md'. md_mc md' = mc2 \<Longrightarrow> flush_connections e i md' = Some (md'\<lparr>md_mc := mc3\<rparr>)"
    and 2: "link_pools mc3 i Q" "emptied P Q" "conn_rep mc3 (link_lists i ls)" "\<forall>k. k \<noteq> i \<longrightarrow> same_pools (md_mc md) mc3 k"
    "same_links (md_mc md) mc3" "link_closed (md_mc md) mc3 (set (ls (LActive i))) (set (ls (LPend i)))" by metis
  obtain j where j: "reset_loop (env_rme e) (env_coll e) 0 (MUSPI_InitResetHold s l, md_rme md, md_regs md) =
      Some (7, j, hold_regs s l (md_regs md))" using hold_loop[OF hw, of "env_coll e" 0 s l "md_rme md" "md_regs md"] by auto
  have k: "reset_loop (env_rme e) (env_coll e) 0 (MUSPI_InitResetRelease s l, j, hold_regs s l (md_regs md)) =
      Some (3, j, release_regs s l (hold_regs s l (md_regs md)))"
    using release_loop[of "env_rme e" "env_coll e" 0 s l j] by simp
  show ?thesis
    by (rule exI[of _ mc3], rule exI[of _ j], rule exI[of _ Q])
       (simp add: reset_link_down_def run_reset_def 1 2 j k flip: s_def l_def)
qed

text \<open>A link whose FIFOs and table can be activated, and one whose FIFOs are fresh.\<close>

definition link_ready :: "nat \<Rightarrow> nat \<Rightarrow> mu_subgroup \<Rightarrow> bool" where
  "link_ready n sz m \<longleftrightarrow> bat_cfg m \<and> bat_ready m \<and> inj_region_ok n (injRegion m) \<and> rec_region_ok sz (recRegion m)"

definition link_fresh :: "nat \<Rightarrow> nat \<Rightarrow> nat \<Rightarrow> mudm_state \<Rightarrow> bool" where
  "link_fresh n sz i md \<longleftrightarrow> md_active md i \<and> link_BlockID (md_mc md) i = 0 \<and>
     ctl_inv n (injfifo_ctls (md_mc md) i) \<and> ctl_log (injfifo_ctls (md_mc md) i) = [] \<and>
     rec_at sz 0 [] (rsg_fifos (ms_rec (md_sub md i)) 0)"

lemma reset_link_up_total:
  assumes k: "link_ready n sz (md_sub md i)" and f: "\<not> inj_used (md_regs md) (subgroupID (md_sub md i)) 0"
    "\<not> rec_used (md_regs md) (subgroupID (md_sub md i)) 0"
  shows "\<exists>m' r' c. reset_link_up e i md = Some (md\<lparr>md_sub := (md_sub md)(i := m'), md_regs := r', md_active := (md_active md)(i := True),
        md_mc := (md_mc md)\<lparr>injfifo_ctls := (injfifo_ctls (md_mc md))(i := c), link_BlockID := (link_BlockID (md_mc md))(i := 0)\<rparr>\<rparr>) \<and>
      ctl_inv n c \<and> ctl_log c = [] \<and> rec_at sz 0 [] (rsg_fifos (ms_rec m') 0) \<and> link_ready n sz m' \<and>
      subgroupID m' = subgroupID (md_sub md i) \<and>
      (\<forall>t j. inj_used r' t j \<longleftrightarrow> inj_used (md_regs md) t j \<or> t = subgroupID (md_sub md i) \<and> j = 0) \<and>
      (\<forall>t j. rec_used r' t j \<longleftrightarrow> rec_used (md_regs md) t j \<or> t = subgroupID (md_sub md i) \<and> j = 0)"
proof -
  let ?m = "md_sub md i" and ?mc = "md_mc md" let ?s = "subgroupID ?m"
  let ?m0 = "?m\<lparr>ms_inj := (ms_inj ?m)\<lparr>isg_fifos := (isg_fifos (ms_inj ?m))(0 := injfifo (injfifo_ctls ?mc i))\<rparr>\<rparr>"
  have k': "bat_cfg ?m0" "bat_ready ?m0" "inj_region_ok n (injRegion ?m)" "rec_region_ok sz (recRegion ?m)" "?s < 68"
    using k by (auto simp: link_ready_def bat_cfg_def bat_ready_def)
  from activate_bat_total[OF k'(1), of "md_regs md"] k'(2) obtain sg r1 where
    1: "activate_base_address_table ?m0 (md_regs md) = Some (?m0\<lparr>ms_bat := sg\<rparr>, r1)" "bat_ready (?m0\<lparr>ms_bat := sg\<rparr>)"
    "imu_start r1 = imu_start (md_regs md)" "rmu_start r1 = rmu_start (md_regs md)" by blast
  let ?m1 = "?m0\<lparr>ms_bat := sg\<rparr>"
  have u1: "inj_used r1 t j = inj_used (md_regs md) t j" "rec_used r1 t j = rec_used (md_regs md) t j" for t j
    using 1(3,4) by (simp_all add: inj_used_def rec_used_def)
  have "inj_region_ok n (injRegion ?m1)" "subgroupID ?m1 < 68" using k' by simp_all
  from activate_injfifos_fresh[OF this, of r1 "env_prio e" "env_free e i"] f(1) u1(1) obtain m2 r2 where
    2: "activate_injfifos (env_prio e) (env_free e i) ?m1 r1 = Some (RetOK, m2, r2)" "m2 = ?m1\<lparr>ififoid := 0, ms_inj := ms_inj m2\<rparr>"
    "inj_inv n (isg_fifos (ms_inj m2) 0)" "inj_log (isg_fifos (ms_inj m2) 0) = []"
    "\<forall>t j. inj_used r2 t j \<longleftrightarrow> inj_used r1 t j \<or> t = ?s \<and> j = 0" "rmu_start r2 = rmu_start r1"
    by (auto split: if_splits)
  have r2: "rec_used r2 t j = rec_used (md_regs md) t j" for t j using u1(2) 2(6) by (simp add: rec_used_def)
  have m2: "subgroupID m2 = ?s" "recRegion m2 = recRegion ?m" by (subst 2(2), simp)+
  have "rec_region_ok sz (recRegion m2)" "subgroupID m2 < 68" using k'(4,5) m2 by simp_all
  from activate_recfifos_fresh[OF this, of r2] f(2) r2 m2(1) obtain m3 r3 where
    3: "activate_recfifos m2 r2 = Some (RetOK, m3, r3)"
    "m3 = m2\<lparr>rfifoids := 0, ms_rec := ms_rec m3, clearInterrupts_mask := clearInterrupts_mask m3\<rparr>"
    "rec_at sz 0 [] (rsg_fifos (ms_rec m3) 0)" "\<forall>t j. rec_used r3 t j \<longleftrightarrow> rec_used r2 t j \<or> t = ?s \<and> j = 0"
    "imu_start r3 = imu_start r2" by (auto split: if_splits)
  have m3: "ms_inj m3 = ms_inj m2" "subgroupID m3 = ?s" by (subst 3(2), simp add: m2)+
  have "bat_ready m2 \<longleftrightarrow> bat_ready ?m1" "bat_cfg m2 \<longleftrightarrow> bat_cfg ?m" "injRegion m2 = injRegion ?m"
    unfolding bat_ready_def bat_cfg_def by (subst 2(2), simp)+
  moreover have "bat_ready m3 \<longleftrightarrow> bat_ready m2" "bat_cfg m3 \<longleftrightarrow> bat_cfg m2" "injRegion m3 = injRegion m2" "recRegion m3 = recRegion m2"
    unfolding bat_ready_def bat_cfg_def by (subst 3(2), simp)+
  ultimately have "link_ready n sz m3" using k k' 1(2) m2(2) by (simp add: link_ready_def)
  moreover have "inj_used r3 t j \<longleftrightarrow> inj_used (md_regs md) t j \<or> t = ?s \<and> j = 0" for t j
    using 2(5) 3(5) u1(1) by (simp add: inj_used_def)
  moreover have "reset_link_up e i md = Some (md\<lparr>md_sub := (md_sub md)(i := m3), md_regs := r3, md_active := (md_active md)(i := True),
        md_mc := ?mc\<lparr>injfifo_ctls := (injfifo_ctls ?mc)(i := (injfifo_ctls ?mc i)\<lparr>injfifo := isg_fifos (ms_inj m3) 0\<rparr>),
          link_BlockID := (link_BlockID ?mc)(i := 0)\<rparr>\<rparr>)"
    by (simp add: reset_link_up_def Let_def 1(1) 2(1) 3(1))
  ultimately show ?thesis using 2(3,4) 3(3,4) m3 r2
    by (intro exI[of _ m3] exI[of _ r3] exI[of _ "(injfifo_ctls ?mc i)\<lparr>injfifo := isg_fifos (ms_inj m3) 0\<rparr>"])
       (simp add: ctl_inv_def ctl_log_def)
qed

section \<open>All links of a job\<close>

lemma link_closed_trans:
  "link_closed mc m1 a1 p1 \<Longrightarrow> link_closed m1 m2 a2 p2 \<Longrightarrow> (a1 \<union> p1) \<inter> (a2 \<union> p2) = {} \<Longrightarrow>
   link_closed mc m2 (a1 \<union> a2) (p1 \<union> p2)"
  unfolding link_closed_def by (auto split: if_splits) (metis (full_types) Int_iff Un_iff empty_iff)+

lemma same_links_trans: "same_links a b \<Longrightarrow> same_links b c \<Longrightarrow> same_links a c"
  by (simp add: same_links_def)

definition job_links :: "u32 \<Rightarrow> mudm_state \<Rightarrow> nat list \<Rightarrow> nat list" where
  "job_links B md is = filter (block_link B md) is"

lemma link_lists_other [simp]:
  "k \<noteq> i \<Longrightarrow> link_lists i ls (LActive k) = ls (LActive k)" "k \<noteq> i \<Longrightarrow> link_lists i ls (LPend k) = ls (LPend k)"
  "k \<noteq> i \<Longrightarrow> link_lists i ls (LAbort k) = ls (LAbort k)"
  by (simp_all add: link_lists_def)

lemma link_down_used:
  assumes "s < 68" "l < 11"
  shows "inj_used (release_regs s l (hold_regs s l r)) t j \<longleftrightarrow> inj_used r t j \<and> \<not> (t = s \<and> j < 8)"
    and "rec_used (release_regs s l (hold_regs s l r)) t j \<longleftrightarrow> rec_used r t j \<and> \<not> (t = s \<and> j < 4)"
proof -
  have "inj_used (hold_regs s l r) t j = inj_used r t j" "rec_used (hold_regs s l r) t j = rec_used r t j"
    by (simp_all add: inj_used_def rec_used_def hold_regs_simps[OF assms(1)])
  then show "inj_used (release_regs s l (hold_regs s l r)) t j \<longleftrightarrow> inj_used r t j \<and> \<not> (t = s \<and> j < 8)"
    "rec_used (release_regs s l (hold_regs s l r)) t j \<longleftrightarrow> rec_used r t j \<and> \<not> (t = s \<and> j < 4)"
    using release_regs_simps(1,2)[OF assms, of "hold_regs s l r" t j] by simp_all
qed

text \<open>
  What closing the links \<open>R\<close> does; \<open>P\<close> and \<open>ls\<close> are the pools and connection lists before.  A reset also
  takes all FIFOs of their subgroups out of use.
\<close>

definition close_effect :: "(nat \<Rightarrow> pool_lists) \<Rightarrow> (clist \<Rightarrow> nat list) \<Rightarrow> nat list \<Rightarrow> mudm_state \<Rightarrow> mudm_state \<Rightarrow> bool" where
  "close_effect P ls R md md' \<longleftrightarrow> md_sub md' = md_sub md \<and> md_active md' = md_active md \<and> md_freed md' = md_freed md \<and>
     md_cleanup md' = md_cleanup md \<and> md_submem md' = md_submem md \<and>
     md_calls md' = md_calls md @ concat (map (\<lambda>i. cancelled (md_mc md) i (P i)) R) \<and>
     (\<forall>k \<in> set R. pools_flushed (P k) (md_mc md') k) \<and>
     (\<forall>k. k \<notin> set R \<longrightarrow> same_pools (md_mc md) (md_mc md') k) \<and>
     same_links (md_mc md) (md_mc md') \<and> conn_rep (md_mc md') (fold link_lists R ls) \<and>
     link_closed (md_mc md) (md_mc md') (\<Union>i \<in> set R. set (ls (LActive i))) (\<Union>i \<in> set R. set (ls (LPend i)))"

definition down_effect :: "(nat \<Rightarrow> pool_lists) \<Rightarrow> (clist \<Rightarrow> nat list) \<Rightarrow> nat list \<Rightarrow> mudm_state \<Rightarrow> mudm_state \<Rightarrow> bool" where
  "down_effect P ls R md md' \<longleftrightarrow> close_effect P ls R md md' \<and>
     (\<forall>t j. inj_used (md_regs md') t j \<longleftrightarrow> inj_used (md_regs md) t j \<and> \<not> (\<exists>i \<in> set R. t = subgroupID (md_sub md i) \<and> j < 8)) \<and>
     (\<forall>t j. rec_used (md_regs md') t j \<longleftrightarrow> rec_used (md_regs md) t j \<and> \<not> (\<exists>i \<in> set R. t = subgroupID (md_sub md i) \<and> j < 4))"

lemma same_pools_trans: "same_pools a b k \<Longrightarrow> same_pools b c k \<Longrightarrow> same_pools a c k"
  by (simp add: same_pools_def)

lemma same_pools_cong: "same_pools mc mc' k \<Longrightarrow> link_pools mc' k P = link_pools mc k P"
  "same_pools mc mc' k \<Longrightarrow> cancelled mc' k P = cancelled mc k P"
  "same_pools mc mc' k \<Longrightarrow> pools_flushed P mc' k = pools_flushed P mc k"
  by (auto simp: link_pools_def cancelled_def same_pools_def pools_flushed_def)

lemma close_effect_step:
  assumes 1: "close_effect P ls [i] md md1" and 2: "close_effect P (link_lists i ls) R md1 md'" and i: "i \<notin> set R"
    and L: "conn_rep (md_mc md) ls"
  shows "close_effect P ls (i # R) md md'"
proof -
  have nr: "k \<in> set R \<Longrightarrow> k \<noteq> i" for k using i by auto
  have c: "map (\<lambda>k. cancelled (md_mc md1) k (P k)) R = map (\<lambda>k. cancelled (md_mc md) k (P k)) R"
    using 1 nr by (auto simp: close_effect_def intro!: same_pools_cong)
  have ul: "(\<Union>k \<in> set R. set (link_lists i ls (LActive k))) = (\<Union>k \<in> set R. set (ls (LActive k)))"
    "(\<Union>k \<in> set R. set (link_lists i ls (LPend k))) = (\<Union>k \<in> set R. set (ls (LPend k)))" using nr by auto
  have u: "x \<in> set (ls c) \<Longrightarrow> x \<in> set (ls d) \<Longrightarrow> c = d" for x c d
    using L links_repD(4)[of "clinks (md_mc md)" "clist_head (md_mc md)" ls] by (simp add: conn_rep_def)
  have "(set (ls (LActive i)) \<union> set (ls (LPend i))) \<inter>
      ((\<Union>k \<in> set R. set (ls (LActive k))) \<union> (\<Union>k \<in> set R. set (ls (LPend k)))) = {}"
    using i by (auto dest: u)
  then have "link_closed (md_mc md) (md_mc md') (\<Union>k \<in> set (i # R). set (ls (LActive k))) (\<Union>k \<in> set (i # R). set (ls (LPend k)))"
    using link_closed_trans[of "md_mc md" "md_mc md1" "set (ls (LActive i))" "set (ls (LPend i))" "md_mc md'"
        "\<Union>k \<in> set R. set (ls (LActive k))" "\<Union>k \<in> set R. set (ls (LPend k))"] 1 2 by (simp add: close_effect_def ul)
  moreover have "pools_flushed (P k) (md_mc md') k" if "k \<in> set (i # R)" for k
  proof (cases "k = i")
    case True
    then have "same_pools (md_mc md1) (md_mc md') i" using 2 i by (simp add: close_effect_def)
    with 1 True show ?thesis by (simp add: close_effect_def same_pools_cong)
  qed (use 2 that in \<open>simp add: close_effect_def\<close>)
  moreover have "same_pools (md_mc md) (md_mc md') k" if "k \<notin> set (i # R)" for k
    using 1 2 that by (auto simp: close_effect_def intro: same_pools_trans[of _ "md_mc md1"])
  moreover have "same_links (md_mc md) (md_mc md')"
    using 1 2 same_links_trans[of "md_mc md" "md_mc md1" "md_mc md'"] by (simp add: close_effect_def)
  ultimately show ?thesis
    unfolding close_effect_def using 1 2 c by (simp add: close_effect_def)
qed

lemma down_effect_step:
  assumes 1: "down_effect P ls [i] md md1" and 2: "down_effect P (link_lists i ls) R md1 md'" and i: "i \<notin> set R"
    and L: "conn_rep (md_mc md) ls"
  shows "down_effect P ls (i # R) md md'"
proof -
  have c: "close_effect P ls [i] md md1" "close_effect P (link_lists i ls) R md1 md'" using 1 2 by (simp_all add: down_effect_def)
  have "inj_used (md_regs md') t j \<longleftrightarrow> inj_used (md_regs md) t j \<and> \<not> (\<exists>k \<in> set (i # R). t = subgroupID (md_sub md k) \<and> j < 8)"
    "rec_used (md_regs md') t j \<longleftrightarrow> rec_used (md_regs md) t j \<and> \<not> (\<exists>k \<in> set (i # R). t = subgroupID (md_sub md k) \<and> j < 4)" for t j
    using 1 2 by (auto simp: down_effect_def close_effect_def)
  with close_effect_step[OF c i L] show ?thesis by (simp add: down_effect_def)
qed

lemma links_down:
  assumes q: "quiet_env e" and hw: "rmes_idle (env_rme e)"
  shows "distinct is \<Longrightarrow> \<forall>i \<in> set is. link_pools (md_mc md) i (P i) \<and> ls (LAbort i) = [] \<and> subgroupID (md_sub md i) < 68 \<and>
      unat (link4reset (md_mc md) i) < 11 \<Longrightarrow> conn_rep (md_mc md) ls \<Longrightarrow>
    \<exists>md'. each_link (block_link B) (reset_link_down e) is md = Some md' \<and> down_effect P ls (job_links B md is) md md'"
proof (induction "is" arbitrary: md ls)
  case Nil
  then show ?case by (simp add: job_links_def same_pools_def same_links_def link_closed_def down_effect_def close_effect_def)
next
  case (Cons i "is")
  show ?case
  proof (cases "block_link B md i")
    case False
    with Cons.IH[of md ls] Cons.prems show ?thesis by (simp add: job_links_def)
  next
    case True
    let ?R = "job_links B md is" let ?s = "subgroupID (md_sub md i)" let ?l = "unat (link4reset (md_mc md) i)"
    have R: "job_links B md (i # is) = i # ?R" "i \<notin> set ?R" using True Cons.prems by (auto simp: job_links_def)
    from Cons.prems(2) have pi: "link_pools (md_mc md) i (P i)" "ls (LAbort i) = []" "?s < 68" "?l < 11" by auto
    from reset_link_down_total[OF q hw pi(1) Cons.prems(3) pi(2)] obtain mc' j Q where
      1: "reset_link_down e i md = Some (md\<lparr>md_calls := md_calls md @ cancelled (md_mc md) i (P i), md_mc := mc', md_rme := j,
          md_regs := release_regs ?s ?l (hold_regs ?s ?l (md_regs md))\<rparr>)" (is "_ = Some ?md1")
      "link_pools mc' i Q" "emptied (P i) Q" "conn_rep mc' (link_lists i ls)" "\<forall>k. k \<noteq> i \<longrightarrow> same_pools (md_mc md) mc' k"
      "same_links (md_mc md) mc'" "link_closed (md_mc md) mc' (set (ls (LActive i))) (set (ls (LPend i)))" by blast
    have "pools_flushed (P i) mc' i" using 1(2,3) unfolding pools_flushed_def by blast
    then have e1: "down_effect P ls [i] md ?md1" using 1(4-) link_down_used[OF pi(3,4), of "md_regs md"] by (auto simp: down_effect_def close_effect_def)
    have ni: "k \<in> set is \<Longrightarrow> k \<noteq> i" for k using Cons.prems(1) by auto
    have R1: "job_links B ?md1 is = ?R" using 1(6) by (simp add: job_links_def block_link_def same_links_def cong: filter_cong)
    have "link_pools mc' k (P k)" if "k \<in> set is" for k
    proof -
      have "same_pools (md_mc md) mc' k" using 1(5) ni[OF that] by simp
      then show ?thesis using Cons.prems(2) that by (simp add: same_pools_cong)
    qed
    then have hy: "\<forall>k \<in> set is. link_pools (md_mc ?md1) k (P k) \<and> link_lists i ls (LAbort k) = [] \<and> subgroupID (md_sub ?md1 k) < 68 \<and>
        unat (link4reset (md_mc ?md1) k) < 11"
      using Cons.prems(2) ni 1(6) by (simp add: same_links_def)
    have d: "distinct is" "conn_rep (md_mc ?md1) (link_lists i ls)" using Cons.prems(1) 1(4) by auto
    from Cons.IH[OF d(1) hy d(2)] obtain md' where "each_link (block_link B) (reset_link_down e) is ?md1 = Some md'"
      "down_effect P (link_lists i ls) ?R ?md1 md'" unfolding R1 by blast
    with down_effect_step[OF e1 _ R(2) Cons.prems(3)] True 1(1) show ?thesis by (simp add: R(1))
  qed
qed

definition same_fifos :: "mudm_state \<Rightarrow> mudm_state \<Rightarrow> nat \<Rightarrow> bool" where
  "same_fifos md md' i \<longleftrightarrow> md_sub md' i = md_sub md i \<and> md_active md' i = md_active md i \<and>
     injfifo_ctls (md_mc md') i = injfifo_ctls (md_mc md) i \<and> link_BlockID (md_mc md') i = link_BlockID (md_mc md) i"

definition up_effect :: "nat \<Rightarrow> nat \<Rightarrow> nat list \<Rightarrow> mudm_state \<Rightarrow> mudm_state \<Rightarrow> bool" where
  "up_effect n sz R md md' \<longleftrightarrow> md_calls md' = md_calls md \<and>
     md_mc md' = (md_mc md)\<lparr>injfifo_ctls := injfifo_ctls (md_mc md'), link_BlockID := link_BlockID (md_mc md')\<rparr> \<and>
     (\<forall>i \<in> set R. link_fresh n sz i md' \<and> link_ready n sz (md_sub md' i)) \<and>
     (\<forall>i. subgroupID (md_sub md' i) = subgroupID (md_sub md i)) \<and> (\<forall>i. i \<notin> set R \<longrightarrow> same_fifos md md' i) \<and>
     (\<forall>t j. inj_used (md_regs md') t j \<longleftrightarrow> inj_used (md_regs md) t j \<or> (\<exists>i \<in> set R. t = subgroupID (md_sub md i) \<and> j = 0)) \<and>
     (\<forall>t j. rec_used (md_regs md') t j \<longleftrightarrow> rec_used (md_regs md) t j \<or> (\<exists>i \<in> set R. t = subgroupID (md_sub md i) \<and> j = 0))"

lemma up_effect_step:
  assumes 1: "up_effect n sz [i] md md1" and 2: "up_effect n sz R md1 md'" and i: "i \<notin> set R"
  shows "up_effect n sz (i # R) md md'"
proof -
  have s: "same_fifos md1 md' i" using 2 i by (simp add: up_effect_def)
  have "link_fresh n sz i md1" "link_ready n sz (md_sub md1 i)" using 1 by (simp_all add: up_effect_def)
  then have "link_fresh n sz i md'" "link_ready n sz (md_sub md' i)" using s by (simp_all add: link_fresh_def same_fifos_def)
  then have f: "\<forall>k \<in> set (i # R). link_fresh n sz k md' \<and> link_ready n sz (md_sub md' k)" using 2 by (simp add: up_effect_def)
  have m: "md_mc md1 = (md_mc md)\<lparr>injfifo_ctls := injfifo_ctls (md_mc md1), link_BlockID := link_BlockID (md_mc md1)\<rparr>"
    "md_mc md' = (md_mc md1)\<lparr>injfifo_ctls := injfifo_ctls (md_mc md'), link_BlockID := link_BlockID (md_mc md')\<rparr>"
    using 1 2 by (simp_all add: up_effect_def)
  have "md_mc md' = ((md_mc md)\<lparr>injfifo_ctls := injfifo_ctls (md_mc md1), link_BlockID := link_BlockID (md_mc md1)\<rparr>)
      \<lparr>injfifo_ctls := injfifo_ctls (md_mc md'), link_BlockID := link_BlockID (md_mc md')\<rparr>" by (subst (1) m(2), subst (1) m(1), rule refl)
  then have mc: "md_mc md' = (md_mc md)\<lparr>injfifo_ctls := injfifo_ctls (md_mc md'), link_BlockID := link_BlockID (md_mc md')\<rparr>" by simp
  have g: "\<forall>k. k \<notin> set (i # R) \<longrightarrow> same_fifos md md' k" using 1 2 by (simp add: up_effect_def same_fifos_def)
  have "\<forall>t j. inj_used (md_regs md') t j \<longleftrightarrow> inj_used (md_regs md) t j \<or> (\<exists>k \<in> set (i # R). t = subgroupID (md_sub md k) \<and> j = 0)"
    "\<forall>t j. rec_used (md_regs md') t j \<longleftrightarrow> rec_used (md_regs md) t j \<or> (\<exists>k \<in> set (i # R). t = subgroupID (md_sub md k) \<and> j = 0)"
    using 1 2 by (auto simp: up_effect_def)
  then show ?thesis unfolding up_effect_def[of n sz "i # R" md md'] using f g mc 1 2 by (simp add: up_effect_def)
qed

lemma links_up:
  "distinct is \<Longrightarrow> inj_on (\<lambda>i. subgroupID (md_sub md i)) (set is) \<Longrightarrow> \<forall>i \<in> set (job_links B md is). link_ready n sz (md_sub md i) \<and>
      \<not> inj_used (md_regs md) (subgroupID (md_sub md i)) 0 \<and> \<not> rec_used (md_regs md) (subgroupID (md_sub md i)) 0 \<Longrightarrow>
    \<exists>md'. each_link (block_link B) (reset_link_up e) is md = Some md' \<and> up_effect n sz (job_links B md is) md md'"
proof (induction "is" arbitrary: md)
  case Nil
  then show ?case by (simp add: job_links_def up_effect_def same_fifos_def)
next
  case (Cons i "is")
  show ?case
  proof (cases "block_link B md i")
    case False
    with Cons.IH[of md] Cons.prems show ?thesis by (simp add: job_links_def)
  next
    case True
    let ?R = "job_links B md is" let ?s = "subgroupID (md_sub md i)"
    have R: "job_links B md (i # is) = i # ?R" "i \<notin> set ?R" using True Cons.prems by (auto simp: job_links_def)
    have "link_ready n sz (md_sub md i)" "\<not> inj_used (md_regs md) ?s 0" "\<not> rec_used (md_regs md) ?s 0" using Cons.prems(3) R(1) by auto
    from reset_link_up_total[OF this] obtain m' r' c where
      1: "reset_link_up e i md = Some (md\<lparr>md_sub := (md_sub md)(i := m'), md_regs := r', md_active := (md_active md)(i := True),
        md_mc := (md_mc md)\<lparr>injfifo_ctls := (injfifo_ctls (md_mc md))(i := c), link_BlockID := (link_BlockID (md_mc md))(i := 0)\<rparr>\<rparr>)"
        (is "_ = Some ?md1")
      "ctl_inv n c" "ctl_log c = []" "rec_at sz 0 [] (rsg_fifos (ms_rec m') 0)" "link_ready n sz m'" "subgroupID m' = ?s"
      "\<forall>t j. inj_used r' t j \<longleftrightarrow> inj_used (md_regs md) t j \<or> t = ?s \<and> j = 0"
      "\<forall>t j. rec_used r' t j \<longleftrightarrow> rec_used (md_regs md) t j \<or> t = ?s \<and> j = 0" by blast
    have e1: "up_effect n sz [i] md ?md1" using 1(2-) by (auto simp: up_effect_def link_fresh_def same_fifos_def)
    have ni: "k \<in> set is \<Longrightarrow> k \<noteq> i" for k using Cons.prems(1) by auto
    have R1: "job_links B ?md1 is = ?R" using ni by (auto simp: job_links_def block_link_def cong: filter_cong)
    have sub: "subgroupID (md_sub ?md1 k) = subgroupID (md_sub md k)" for k using 1(6) by simp
    have d: "distinct is" "inj_on (\<lambda>k. subgroupID (md_sub ?md1 k)) (set is)"
      using Cons.prems(1,2) by (simp_all only: sub) simp_all
    have ns: "subgroupID (md_sub md k) \<noteq> ?s" if "k \<in> set is" for k
      using Cons.prems(2) that ni[OF that] by (auto simp: inj_on_def)
    have "set ?R \<subseteq> set is" by (auto simp: job_links_def)
    then have hy: "\<forall>k \<in> set (job_links B ?md1 is). link_ready n sz (md_sub ?md1 k) \<and>
        \<not> inj_used (md_regs ?md1) (subgroupID (md_sub ?md1 k)) 0 \<and> \<not> rec_used (md_regs ?md1) (subgroupID (md_sub ?md1 k)) 0"
      unfolding R1 sub using Cons.prems(3) R 1(7,8) ns ni by auto
    from Cons.IH[OF d hy] obtain md' where "each_link (block_link B) (reset_link_up e) is ?md1 = Some md'"
      "up_effect n sz ?R ?md1 md'" unfolding R1 by blast
    with up_effect_step[OF e1 _ R(2)] True 1(1) show ?thesis by (simp add: R(1))
  qed
qed

lemma links_inactive:
  "each_link (block_link B) (\<lambda>i md. Some (md\<lparr>md_active := (md_active md)(i := False)\<rparr>)) is md =
     Some (md\<lparr>md_active := (\<lambda>i. if i \<in> set (job_links B md is) then False else md_active md i)\<rparr>)"
proof (induction "is" arbitrary: md)
  case Nil
  then show ?case by (simp add: job_links_def)
next
  case (Cons i "is")
  show ?case
  proof (cases "block_link B md i")
    case True
    let ?md1 = "md\<lparr>md_active := (md_active md)(i := False)\<rparr>"
    have e: "job_links B ?md1 is = job_links B md is" by (simp add: job_links_def block_link_def cong: filter_cong)
    have "each_link (block_link B) (\<lambda>i md. Some (md\<lparr>md_active := (md_active md)(i := False)\<rparr>)) (i # is) md =
        Some (?md1\<lparr>md_active := (\<lambda>k. if k \<in> set (job_links B md is) then False else md_active ?md1 k)\<rparr>)"
      using True Cons.IH[of ?md1] by (simp only: each_link.simps e if_True bind.bind_lunit)
    also have "(\<lambda>k. if k \<in> set (job_links B md is) then False else md_active ?md1 k) =
        (\<lambda>k. if k \<in> set (job_links B md (i # is)) then False else md_active md k)"
      using True by (auto simp: job_links_def)
    finally show ?thesis by simp
  next
    case False
    with Cons.IH[of md] show ?thesis by (simp add: job_links_def)
  qed
qed

section \<open>Termination\<close>

lemma quiet_links_total:
  assumes q: "quiet_env e"
  shows "distinct is \<Longrightarrow> \<forall>i \<in> set is. link_pools (md_mc md) i (P i) \<and> ls (LAbort i) = [] \<Longrightarrow> conn_rep (md_mc md) ls \<Longrightarrow>
    \<exists>md'. each_link (\<lambda>_ _. True) (quiet_link e) is md = Some md' \<and> close_effect P ls is md md' \<and> md_regs md' = md_regs md"
proof (induction "is" arbitrary: md ls)
  case Nil
  then show ?case by (simp add: same_pools_def same_links_def link_closed_def close_effect_def)
next
  case (Cons i "is")
  from Cons.prems(2) have pi: "link_pools (md_mc md) i (P i)" "ls (LAbort i) = []" by auto
  from link_quiet_total[OF q pi(1) Cons.prems(3) pi(2)] obtain mc1 mc2 mc3 Q where "disable_link i md = Some (md\<lparr>md_mc := mc1\<rparr>)"
    "flush_link e i (md\<lparr>md_mc := mc1\<rparr>) = Some (md\<lparr>md_calls := md_calls md @ cancelled (md_mc md) i (P i), md_mc := mc2\<rparr>)"
    "\<And>md'. md_mc md' = mc2 \<Longrightarrow> flush_connections e i md' = Some (md'\<lparr>md_mc := mc3\<rparr>)"
    and 2: "link_pools mc3 i Q" "emptied (P i) Q" "conn_rep mc3 (link_lists i ls)" "\<forall>k. k \<noteq> i \<longrightarrow> same_pools (md_mc md) mc3 k"
    "same_links (md_mc md) mc3" "link_closed (md_mc md) mc3 (set (ls (LActive i))) (set (ls (LPend i)))" by metis
  then have 1: "quiet_link e i md = Some (md\<lparr>md_calls := md_calls md @ cancelled (md_mc md) i (P i), md_mc := mc3\<rparr>)"
    (is "_ = Some ?md1") by (simp add: quiet_link_def)
  have "pools_flushed (P i) mc3 i" using 2(1,2) unfolding pools_flushed_def by blast
  then have e1: "close_effect P ls [i] md ?md1" using 2(3-) by (auto simp: close_effect_def)
  have "link_pools mc3 k (P k)" if "k \<in> set is" for k
  proof -
    have "same_pools (md_mc md) mc3 k" using 2(4) that Cons.prems(1) by auto
    then show ?thesis using Cons.prems(2) that by (simp add: same_pools_cong)
  qed
  moreover have ni: "k \<in> set is \<Longrightarrow> k \<noteq> i" for k using Cons.prems(1) by auto
  ultimately have hy: "\<forall>k \<in> set is. link_pools (md_mc ?md1) k (P k) \<and> link_lists i ls (LAbort k) = []" using Cons.prems(2) by simp
  have d: "distinct is" "conn_rep (md_mc ?md1) (link_lists i ls)" "i \<notin> set is" using Cons.prems(1) 2(3) by auto
  from Cons.IH[OF d(1) hy d(2)] obtain md' where "each_link (\<lambda>_ _. True) (quiet_link e) is ?md1 = Some md'"
    "close_effect P (link_lists i ls) is ?md1 md'" "md_regs md' = md_regs ?md1" by blast
  with close_effect_step[OF e1 _ d(3) Cons.prems(3)] 1 show ?case by simp
qed

text \<open>A subgroup whose FIFOs and table were activated, and a clean-up call for one.\<close>

definition link_held :: "mu_subgroup \<Rightarrow> bool" where
  "link_held m \<longleftrightarrow> isg_status (ms_inj m) \<noteq> None \<and> isg_id (ms_inj m) = subgroupID m \<and> ififoid m < 8 \<and>
     rsg_id (ms_rec m) = subgroupID m \<and> rfifoids m < 4 \<and> bsg_hw (ms_bat m) \<noteq> None \<and> batids m = [0..<8]"

fun cleanup_known :: "(nat \<Rightarrow> mem_region) \<Rightarrow> cleanup_fn \<times> mem_region \<times> ptr \<Rightarrow> bool" where
  "cleanup_known sm (CF_free_MU_inj_region, _, a) \<longleftrightarrow> (\<exists>i < 2. a = Some i)"
| "cleanup_known sm (CF_free_recfifo, _, a) \<longleftrightarrow> (\<exists>i < 2. a = Some i)"
| "cleanup_known sm (CF_free_MU_subgroup_mem, m, _) \<longleftrightarrow> (\<exists>i < 2. base_vaddr (sm i) = base_vaddr m)"
| "cleanup_known sm _ \<longleftrightarrow> True"

definition inj_freed :: "mudm_state \<Rightarrow> (cleanup_fn \<times> mem_region \<times> ptr) list \<Rightarrow> nat \<Rightarrow> nat \<Rightarrow> bool" where
  "inj_freed md cs t j \<longleftrightarrow> (\<exists>i m. (CF_free_MU_inj_region, m, Some i) \<in> set cs \<and> t = subgroupID (md_sub md i) \<and> j = ififoid (md_sub md i))"

definition rec_freed :: "mudm_state \<Rightarrow> (cleanup_fn \<times> mem_region \<times> ptr) list \<Rightarrow> nat \<Rightarrow> nat \<Rightarrow> bool" where
  "rec_freed md cs t j \<longleftrightarrow> (\<exists>i m. (CF_free_recfifo, m, Some i) \<in> set cs \<and> t = subgroupID (md_sub md i) \<and> j = rfifoids (md_sub md i))"

definition same_but_bat :: "mu_subgroup \<Rightarrow> mu_subgroup \<Rightarrow> bool" where
  "same_but_bat m m' \<longleftrightarrow> m' = m\<lparr>ms_bat := ms_bat m'\<rparr> \<and> bsg_hw (ms_bat m') = bsg_hw (ms_bat m)"

definition cleanup_done :: "(cleanup_fn \<times> mem_region \<times> ptr) list \<Rightarrow> mudm_state \<Rightarrow> mudm_state \<Rightarrow> bool" where
  "cleanup_done cs md md' \<longleftrightarrow> md' = md\<lparr>md_sub := md_sub md', md_regs := md_regs md'\<rparr> \<and>
     (\<forall>i. same_but_bat (md_sub md i) (md_sub md' i)) \<and>
     (\<forall>t j. inj_used (md_regs md') t j \<longleftrightarrow> inj_used (md_regs md) t j \<and> \<not> inj_freed md cs t j) \<and>
     (\<forall>t j. rec_used (md_regs md') t j \<longleftrightarrow> rec_used (md_regs md) t j \<and> \<not> rec_freed md cs t j)"

lemma free_MU_inj_region_total:
  assumes "link_held m"
  shows "\<exists>r'. free_MU_inj_region m r = Some r' \<and> rmu_start r' = rmu_start r \<and>
    (\<forall>t j. inj_used r' t j \<longleftrightarrow> inj_used r t j \<and> \<not> (t = subgroupID m \<and> j = ififoid m))"
proof -
  obtain b k where m: "isg_status (ms_inj m) = Some (b, k)" "isg_id (ms_inj m) = subgroupID m" "ififoid m < 8"
    using assms by (auto simp: link_held_def)
  obtain r1 where 1: "Kernel_InjFifoActivate [ififoid m] False (ms_inj m) r = Some r1" "imu_start r1 = imu_start r" "rmu_start r1 = rmu_start r"
    using m by (auto simp: Kernel_InjFifoActivate_def mu_numbers)
  have "\<forall>i \<in> set [ififoid m]. i < NUM_INJ_FIFOS_PER_SUBGROUP" "isg_status (ms_inj m) \<noteq> None" using m by (simp_all add: mu_numbers)
  from inj_dealloc[OF this(1) m(2) this(2), of r1] obtain r2 where 2: "Kernel_DeallocateInjFifos [ififoid m] (ms_inj m) r1 = Some r2"
    "\<forall>t j. inj_used r2 t j \<longleftrightarrow> inj_used r1 t j \<and> \<not> (t = subgroupID m \<and> j \<in> set [ififoid m])" by blast
  moreover have "rmu_start r2 = rmu_start r1" using 2(1) by (auto simp: Kernel_DeallocateInjFifos_def Let_def split: if_splits)
  ultimately show ?thesis using 1 by (auto simp: free_MU_inj_region_def inj_used_def)
qed

lemma deactivate_recfifo_total:
  assumes "link_held m"
  shows "\<exists>r'. deactivate_recfifo m r = Some r' \<and> imu_start r' = imu_start r \<and>
    (\<forall>t j. rec_used r' t j \<longleftrightarrow> rec_used r t j \<and> \<not> (t = subgroupID m \<and> j = rfifoids m))"
proof -
  have m: "rsg_id (ms_rec m) = subgroupID m" "rfifoids m < 4" using assms by (auto simp: link_held_def)
  have "rec_fifo_bits (subgroupID m) (rfifoids m) \<noteq> 0" by (auto simp: rec_fifo_bits_def mu_numbers push_bit_eq_0_iff)
  then obtain r1 where 1: "Kernel_RecFifoDisable SYS_GROUPID (rec_fifo_bits (subgroupID m) (rfifoids m)) r = Some r1"
    "imu_start r1 = imu_start r" "rmu_start r1 = rmu_start r" by (simp add: Kernel_RecFifoDisable_def SYS_GROUPID_def mu_numbers)
  then show ?thesis using m
    by (auto simp: deactivate_recfifo_def Kernel_DeallocateRecFifos_def Let_def mu_numbers rec_used_def dest: subgroup_eq)
qed

lemma deactivate_bat_total:
  assumes "link_held m"
  shows "\<exists>m' r'. deactivate_base_address_table m r = Some (m', r') \<and> same_but_bat m m' \<and>
    imu_start r' = imu_start r \<and> rmu_start r' = rmu_start r"
  using assms
  by (auto simp: link_held_def deactivate_base_address_table_def Kernel_DeallocateBaseAddressTable_def Let_def mu_numbers
      set_bat_mode_def same_but_bat_def split: prod.splits)

lemma cleanup_done_refl: "(\<And>t j. \<not> inj_freed md cs t j) \<Longrightarrow> (\<And>t j. \<not> rec_freed md cs t j) \<Longrightarrow> cleanup_done cs md md"
  by (auto simp: cleanup_done_def same_but_bat_def)

lemma cleanup_effect_total:
  assumes h: "\<forall>i < 2. link_held (md_sub md i)" and k: "cleanup_known (md_submem md) c"
  shows "\<exists>md'. cleanup_effect c md = Some md' \<and> cleanup_done [c] md md'"
proof -
  obtain fn m a where c: "c = (fn, m, a)" by (metis prod.exhaust)
  consider (inj) i where "fn = CF_free_MU_inj_region" "a = Some i" "i < 2" | (rec) i where "fn = CF_free_recfifo" "a = Some i" "i < 2"
    | (mem) i where "fn = CF_free_MU_subgroup_mem" "i < 2" "base_vaddr (md_submem md i) = base_vaddr m"
    | (other) "fn \<in> {CF_null, CF_free_mem, CF_free_rdma_obj_region}"
    using k unfolding c by (cases fn) auto
  then show ?thesis
  proof cases
    case inj
    from free_MU_inj_region_total[of "md_sub md i" "md_regs md"] h inj(3) obtain r' where
      "free_MU_inj_region (md_sub md i) (md_regs md) = Some r'" "rmu_start r' = rmu_start (md_regs md)"
      "\<forall>t j. inj_used r' t j \<longleftrightarrow> inj_used (md_regs md) t j \<and> \<not> (t = subgroupID (md_sub md i) \<and> j = ififoid (md_sub md i))" by blast
    with inj show ?thesis
      by (auto simp: c cleanup_effect_def cleanup_done_def inj_freed_def rec_freed_def rec_used_def same_but_bat_def)
  next
    case rec
    from deactivate_recfifo_total[of "md_sub md i" "md_regs md"] h rec(3) obtain r' where
      "deactivate_recfifo (md_sub md i) (md_regs md) = Some r'" "imu_start r' = imu_start (md_regs md)"
      "\<forall>t j. rec_used r' t j \<longleftrightarrow> rec_used (md_regs md) t j \<and> \<not> (t = subgroupID (md_sub md i) \<and> j = rfifoids (md_sub md i))" by blast
    with rec show ?thesis
      by (auto simp: c cleanup_effect_def cleanup_done_def inj_freed_def rec_freed_def inj_used_def same_but_bat_def)
  next
    case mem
    have "find (\<lambda>i. base_vaddr (md_submem md i) = base_vaddr m) [0..<NUM_IO_LINKS] \<noteq> None"
      using mem(2,3) by (auto simp: find_None_iff NUM_IO_LINKS_def)
    then obtain k where f: "find (\<lambda>i. base_vaddr (md_submem md i) = base_vaddr m) [0..<NUM_IO_LINKS] = Some k" by blast
    then have "k < 2" by (auto simp: find_Some_iff NUM_IO_LINKS_def)
    with deactivate_bat_total[of "md_sub md k" "md_regs md"] h obtain m' r' where
      "deactivate_base_address_table (md_sub md k) (md_regs md) = Some (m', r')"
      "same_but_bat (md_sub md k) m'" "imu_start r' = imu_start (md_regs md)" "rmu_start r' = rmu_start (md_regs md)" by blast
    with mem f show ?thesis
      by (auto simp: c cleanup_effect_def cleanup_done_def inj_freed_def rec_freed_def inj_used_def rec_used_def same_but_bat_def)
  next
    case other
    then have "cleanup_effect c md = Some md" by (auto simp: c cleanup_effect_def)
    moreover have "cleanup_done [c] md md" using other by (intro cleanup_done_refl) (auto simp: c inj_freed_def rec_freed_def)
    ultimately show ?thesis by blast
  qed
qed

lemma cleanup_effects_total:
  "\<forall>i < 2. link_held (md_sub md i) \<Longrightarrow> \<forall>c \<in> set cs. cleanup_known (md_submem md) c \<Longrightarrow>
   \<exists>md'. cleanup_effects cs md = Some md' \<and> cleanup_done cs md md'"
proof (induction cs arbitrary: md)
  case Nil
  show ?case by (auto intro!: cleanup_done_refl simp: inj_freed_def rec_freed_def)
next
  case (Cons c cs)
  from cleanup_effect_total[OF Cons.prems(1), of c] Cons.prems(2) obtain md1 where
    1: "cleanup_effect c md = Some md1" "cleanup_done [c] md md1" by auto
  have sub: "same_but_bat (md_sub md i) (md_sub md1 i)" for i using 1(2) by (simp add: cleanup_done_def)
  have e1: "md1 = md\<lparr>md_sub := md_sub md1, md_regs := md_regs md1\<rparr>" using 1(2) by (simp add: cleanup_done_def)
  then have m: "md_submem md1 = md_submem md" by (metis (no_types) mudm_state.simps(3) mudm_state.surjective mudm_state.update_convs(2,4))
  have fld: "subgroupID (md_sub md1 i) = subgroupID (md_sub md i)" "ififoid (md_sub md1 i) = ififoid (md_sub md i)"
    "rfifoids (md_sub md1 i) = rfifoids (md_sub md i)" "link_held (md_sub md1 i) = link_held (md_sub md i)" for i
  proof -
    obtain b where "md_sub md1 i = (md_sub md i)\<lparr>ms_bat := b\<rparr>" "bsg_hw b = bsg_hw (ms_bat (md_sub md i))"
      using sub[of i] unfolding same_but_bat_def by (metis)
    then show "subgroupID (md_sub md1 i) = subgroupID (md_sub md i)" "ififoid (md_sub md1 i) = ififoid (md_sub md i)"
      "rfifoids (md_sub md1 i) = rfifoids (md_sub md i)" "link_held (md_sub md1 i) = link_held (md_sub md i)"
      by (simp_all add: link_held_def)
  qed
  from Cons.IH[of md1] Cons.prems m fld(4) obtain md2 where
    2: "cleanup_effects cs md1 = Some md2" "cleanup_done cs md1 md2" by auto
  have "inj_freed md1 cs = inj_freed md cs" "rec_freed md1 cs = rec_freed md cs"
    by (intro ext, simp add: inj_freed_def rec_freed_def fld)+
  moreover have "inj_freed md (c # cs) t j \<longleftrightarrow> inj_freed md [c] t j \<or> inj_freed md cs t j"
    "rec_freed md (c # cs) t j \<longleftrightarrow> rec_freed md [c] t j \<or> rec_freed md cs t j" for t j
    by (auto simp: inj_freed_def rec_freed_def)
  moreover have "same_but_bat (md_sub md i) (md_sub md2 i)" for i
  proof -
    have "md_sub md1 i = (md_sub md i)\<lparr>ms_bat := ms_bat (md_sub md1 i)\<rparr>" "md_sub md2 i = (md_sub md1 i)\<lparr>ms_bat := ms_bat (md_sub md2 i)\<rparr>"
      "bsg_hw (ms_bat (md_sub md2 i)) = bsg_hw (ms_bat (md_sub md i))"
      using sub[of i] 2(2) by (simp_all add: cleanup_done_def same_but_bat_def)
    then show ?thesis unfolding same_but_bat_def by (metis mu_subgroup.update_convs(3) mu_subgroup.surjective mu_subgroup.simps(3))
  qed
  moreover have "md2 = md\<lparr>md_sub := md_sub md2, md_regs := md_regs md2\<rparr>"
  proof -
    have "md2 = md1\<lparr>md_sub := md_sub md2, md_regs := md_regs md2\<rparr>" using 2(2) by (simp add: cleanup_done_def)
    then have "md2 = md\<lparr>md_sub := md_sub md1, md_regs := md_regs md1\<rparr>\<lparr>md_sub := md_sub md2, md_regs := md_regs md2\<rparr>" using e1 by metis
    then show ?thesis by simp
  qed
  ultimately show ?case using 1 2 by (simp add: cleanup_done_def)
qed

text \<open>Termination as a whole.\<close>

lemma mudm_terminate_total:
  assumes m: "mmagic (md_mc md) = MUDM_MAGIC" and q: "quiet_env e"
    and p: "\<forall>i < 2. link_pools (md_mc md) i (P i) \<and> ls (LAbort i) = [] \<and> link_held (md_sub md i)"
    and c: "conn_rep (md_mc md) ls" and k: "\<forall>en \<in> set (clean_table (md_cleanup md)). cleanup_known (md_submem md) (cleanup_call en)"
    and cs: "cs = rev (map cleanup_call (clean_table (md_cleanup md)))"
  shows "\<exists>md'. mudm_terminate e md = Some (RetOK, md') \<and> md_freed md' = md_freed md @ cs \<and>
    md_calls md' = md_calls md @ cancelled (md_mc md) 0 (P 0) @ cancelled (md_mc md) 1 (P 1) \<and>
    (\<forall>i < 2. pools_flushed (P i) (md_mc md') i \<and> \<not> md_active md' i \<and>
       (\<forall>x \<in> set (ls (LActive i)). cstate (conns (md_mc md') x) = CONN_FREE)) \<and>
    (\<forall>t j. (inj_used (md_regs md') t j \<longleftrightarrow> inj_used (md_regs md) t j \<and> \<not> inj_freed md cs t j) \<and>
       (rec_used (md_regs md') t j \<longleftrightarrow> rec_used (md_regs md) t j \<and> \<not> rec_freed md cs t j)) \<and>
    mudm_terminate e md' = Some (RetErr EFAULT, md') \<and> (\<forall>B. mudm_resetIOlink e B md' = Some (RetErr EFAULT, md'))"
proof -
  have u: "[0..<NUM_IO_LINKS] = [0, 1]" by (simp add: NUM_IO_LINKS_def upt_conv_Cons numeral_2_eq_2)
  let ?md1 = "md\<lparr>md_running := False, md_active := (\<lambda>i. if i < NUM_IO_LINKS then False else md_active md i)\<rparr>"
  have "\<forall>i \<in> set [0, 1]. link_pools (md_mc ?md1) i (P i) \<and> ls (LAbort i) = []" using p by simp
  moreover have "distinct [0, 1 :: nat]" "conn_rep (md_mc ?md1) ls" using c by simp_all
  ultimately obtain md2 where 2: "each_link (\<lambda>_ _. True) (quiet_link e) [0, 1] ?md1 = Some md2" "close_effect P ls [0, 1] ?md1 md2"
    "md_regs md2 = md_regs md" using quiet_links_total[OF q, of "[0, 1]" ?md1 P ls] by auto
  have e2: "md_sub md2 = md_sub md" "md_cleanup md2 = md_cleanup md" "md_submem md2 = md_submem md" "md_freed md2 = md_freed md"
    "md_calls md2 = md_calls md @ cancelled (md_mc md) 0 (P 0) @ cancelled (md_mc md) 1 (P 1)"
    "md_active md2 = md_active ?md1" using 2(2) by (simp_all add: close_effect_def)
  obtain cl where cl: "process_cleanup_table (env_run e) (md_cleanup md2) = (cs, cl)"
  proof -
    have "fst (process_cleanup_table (env_run e) (md_cleanup md)) = cs"
      using cleanup_loop_calls[of "length (clean_table (md_cleanup md))" "clean_table (md_cleanup md)" "env_run e"]
      by (simp add: process_cleanup_table_def cs case_prod_unfold)
    then show ?thesis using that[of "snd (process_cleanup_table (env_run e) (md_cleanup md))"] e2(2) by (simp add: prod_eq_iff)
  qed
  let ?md3 = "md2\<lparr>md_freed := md_freed md2 @ cs, md_cleanup := cl\<rparr>"
  have "\<forall>i < 2. link_held (md_sub ?md3 i)" "\<forall>c \<in> set cs. cleanup_known (md_submem ?md3) c" using p k e2 by (auto simp: cs)
  from cleanup_effects_total[OF this] obtain md4 where 4: "cleanup_effects cs ?md3 = Some md4" "cleanup_done cs ?md3 md4" by blast
  let ?md' = "md4\<lparr>md_mc := (md_mc md4)\<lparr>mmagic := 0\<rparr>\<rparr>"
  have e4: "md_mc md4 = md_mc md2" "md_freed md4 = md_freed md @ cs" "md_calls md4 = md_calls md2" "md_active md4 = md_active ?md1"
  proof -
    have "md4 = ?md3\<lparr>md_sub := md_sub md4, md_regs := md_regs md4\<rparr>" using 4(2) by (simp add: cleanup_done_def)
    then obtain s r where "md4 = ?md3\<lparr>md_sub := s, md_regs := r\<rparr>" by blast
    then show "md_mc md4 = md_mc md2" "md_freed md4 = md_freed md @ cs" "md_calls md4 = md_calls md2" "md_active md4 = md_active ?md1"
      by (simp_all add: e2)
  qed
  have "quiet_IOlinks e (md\<lparr>md_running := False\<rparr>) = Some md2"
    unfolding quiet_IOlinks_def u by (simp only: 2(1)[symmetric]) simp
  then have "mudm_terminate e md = Some (RetOK, ?md')"
    using m cl 4(1) by (simp add: mudm_terminate_def run_cleanup_def)
  moreover have "mmagic (md_mc ?md') \<noteq> MUDM_MAGIC" by (simp add: MUDM_MAGIC_def)
  then have "mudm_terminate e ?md' = Some (RetErr EFAULT, ?md')" "mudm_resetIOlink e B ?md' = Some (RetErr EFAULT, ?md')" for B
    by (simp_all add: mudm_terminate_def mudm_resetIOlink_def)
  moreover have "pools_flushed (P i) (md_mc ?md') i \<and> \<not> md_active ?md' i \<and>
      (\<forall>x \<in> set (ls (LActive i)). cstate (conns (md_mc ?md') x) = CONN_FREE)" if "i < 2" for i
  proof -
    have i: "i \<in> set [0, 1]" using that by auto
    then have "pools_flushed (P i) (md_mc md2) i" "\<forall>x \<in> set (ls (LActive i)). cstate (conns (md_mc md2) x) = CONN_FREE"
      using 2(2) unfolding close_effect_def link_closed_def by (blast, fastforce)
    then show ?thesis using that e4 by (simp add: pools_flushed_def link_pools_def NUM_IO_LINKS_def)
  qed
  moreover have "inj_freed ?md3 cs = inj_freed md cs" "rec_freed ?md3 cs = rec_freed md cs"
    by (simp_all add: inj_freed_def rec_freed_def e2 fun_eq_iff)
  then have "(inj_used (md_regs ?md') t j \<longleftrightarrow> inj_used (md_regs md) t j \<and> \<not> inj_freed md cs t j) \<and>
      (rec_used (md_regs ?md') t j \<longleftrightarrow> rec_used (md_regs md) t j \<and> \<not> rec_freed md cs t j)" for t j
    using 4(2) 2(3) by (simp add: cleanup_done_def)
  ultimately show ?thesis using e4 e2(5) by (intro exI[of _ ?md']) simp
qed

section \<open>An example\<close>

text \<open>
  Two links, of which the first belongs to block 7, with one posted packet, small packet and RDMA
  object each and an active connection on the first; and callbacks that do nothing.
\<close>

definition demo_musm :: "nat \<Rightarrow> mu_subgroup" where
  "demo_musm s = \<lparr>ms_inj = demo_inj_subgroup\<lparr>isg_id := s, isg_status := Some (True, gid_of s, sgid_of s)\<rparr>,
     ms_rec = demo_rec_subgroup\<lparr>rsg_id := s\<rparr>,
     ms_bat = \<lparr>bsg_id = s, bsg_hw = Some (True, gid_of s, sgid_of s), bsg_permissions = 0xFF, sw_bat = (\<lambda>_. 0)\<rparr>,
     batids = [0..<8], batvalues = replicate 8 0, rfifoids = 0, ififoid = 0, subgroupID = s, clearInterrupts_mask = 0,
     injRegion = \<lparr>region_length = 256, base_vaddr = 0x1000, base_paddr = 0x9000\<rparr>,
     recRegion = \<lparr>region_length = 1024, base_vaddr = 0x2000, base_paddr = 0xa000\<rparr>\<rparr>"

definition demo_md :: mudm_state where
  "demo_md = \<lparr>md_mc = (demo_ctx 5 (LActive 0))\<lparr>link_BlockID := (\<lambda>_. 0)(0 := 7)\<rparr>, md_sub = (\<lambda>i. demo_musm (66 + i)),
     md_submem = (\<lambda>i. \<lparr>region_length = 4096, base_vaddr = of_nat (0x4000 + 4096 * i), base_paddr = 1\<rparr>),
     md_regs = demo_regs\<lparr>imu_start := (\<lambda>_. 0x9000)\<rparr>, md_rme = 0, md_active = (\<lambda>_. True), md_running = True,
     md_cleanup = \<lparr>clean_table =
       [\<lparr>ce_memregion = \<lparr>region_length = 4096, base_vaddr = 0x5000, base_paddr = 1\<rparr>, ce_status = 0, ce_argslist = None,
           ce_cleanup_fn = CF_free_MU_subgroup_mem\<rparr>,
        \<lparr>ce_memregion = \<lparr>region_length = 256, base_vaddr = 0x1000, base_paddr = 0x9000\<rparr>, ce_status = 0, ce_argslist = Some 1,
           ce_cleanup_fn = CF_free_MU_inj_region\<rparr>], alloc_calls = 2\<rparr>,
     md_calls = [], md_freed = []\<rparr>"

definition demo_env :: reset_env where
  "demo_env = \<lparr>env_pkt = (\<lambda>_ pc. pc), env_rdma = (\<lambda>_ rc. rc), env_conn = (\<lambda>x h bs mc. Some (0, mc)), env_rme = (\<lambda>_. (0, 0)),
     env_coll = (\<lambda>_ r. r), env_free = (\<lambda>_. 4), env_prio = False, env_run = (\<lambda>_. 0)\<rparr>"

abbreviation demo_pools :: pool_lists where
  "demo_pools \<equiv> (([0], [Suc 0]), ([0], [Suc 0]), ([0], [Suc 0]))"

lemma demo_env_quiet: "quiet_env demo_env" "rmes_idle (env_rme demo_env)"
  by (simp_all add: quiet_env_def demo_env_def quiet_pkt_def quiet_rdma_def quiet_conn_def cb_ok_id rcb_ok_id rmes_idle_def)

lemma demo_md_simps:
  "mmagic (md_mc demo_md) = MUDM_MAGIC" "link_pools (md_mc demo_md) i demo_pools"
  "link_ready 4 1024 (md_sub demo_md i) \<longleftrightarrow> i < 2" "subgroupID (md_sub demo_md i) = 66 + i" "link4reset (md_mc demo_md) i = 0"
  "conn_rep (md_mc demo_md) ((\<lambda>_. [])(LActive 0 := [0]))" "link_BlockID (md_mc demo_md) i = (if i = 0 then 7 else 0)"
  "cancelled (md_mc demo_md) i demo_pools = [(77, flush_error_val), (77, flush_error_val), (77, flush_error_val)]"
proof -
  show "mmagic (md_mc demo_md) = MUDM_MAGIC" "subgroupID (md_sub demo_md i) = 66 + i" "link4reset (md_mc demo_md) i = 0"
    "link_BlockID (md_mc demo_md) i = (if i = 0 then 7 else 0)" by (simp_all add: demo_md_def demo_ctx_def demo_musm_def)
  show "link_pools (md_mc demo_md) i demo_pools" using demo_pkts_rep demo_rdma_rep by (simp add: demo_md_def demo_ctx_def link_pools_def)
  show "link_ready 4 1024 (md_sub demo_md i) \<longleftrightarrow> i < 2"
    by (auto simp: link_ready_def demo_md_def demo_musm_def bat_cfg_def bat_ready_def inj_region_ok_def rec_region_ok_def)
  show "conn_rep (md_mc demo_md) ((\<lambda>_. [])(LActive 0 := [0]))"
    using demo_ctx_rep[of 5 "LActive 0"] conn_rep_heads[of "md_mc demo_md" "demo_ctx 5 (LActive 0)"] by (simp add: demo_md_def)
  have "flush_ref (pkt_nodes demo_pkts) (Suc 0) = [(77, flush_error_val)]"
    by (simp add: flush_ref_def demo_pkts_def set_pkt_req_id_def)
  moreover have "rdma_flush_ref demo_rdma (Suc 0) = [(77, flush_error_val)]"
    by (simp add: rdma_flush_ref_def demo_rdma_node flush_error_val_def)
  ultimately show "cancelled (md_mc demo_md) i demo_pools = [(77, flush_error_val), (77, flush_error_val), (77, flush_error_val)]"
    by (simp add: cancelled_def demo_md_def demo_ctx_def)
qed

section \<open>Properties\<close>

text \<open>
  C4: resetting the links of a job cancels each of their outstanding requests once and leaves them ready.
  Under callbacks that post nothing and leave the context alone, hardware engines that go idle, and
  empty abort lists, \<^verbatim>\<open>mudm_resetIOlink\<close> ends and returns 0; the status callback is told
  \<^verbatim>\<open>-ECANCELED\<close> once for each request posted in the three pools of each link whose block is
  the given one, in this order, and for no other; every packet and RDMA object of those links is
  free again; their active connections are free, their pending ones aborted and on the abort list,
  and no other connection is changed; each of them is active, without a block, with an empty
  injection FIFO and an empty reception FIFO; and the pools and FIFOs of the other links are as before.
\<close>

theorem mudm_resetIOlink_cancels:
  assumes m: "mmagic (md_mc md) = MUDM_MAGIC" and q: "quiet_env e" and hw: "rmes_idle (env_rme e)"
    and p: "\<forall>i < 2. link_pools (md_mc md) i (P i) \<and> ls (LAbort i) = [] \<and> link_ready n sz (md_sub md i) \<and>
      unat (link4reset (md_mc md) i) < 11"
    and s: "subgroupID (md_sub md 0) \<noteq> subgroupID (md_sub md 1)" and c: "conn_rep (md_mc md) ls"
    and R: "R = filter (\<lambda>i. link_BlockID (md_mc md) i = B) [0, 1]"
  shows "\<exists>md'. mudm_resetIOlink e B md = Some (RetOK, md') \<and>
    md_calls md' = md_calls md @ concat (map (\<lambda>i. cancelled (md_mc md) i (P i)) R) \<and>
    (\<forall>i \<in> set R. pools_flushed (P i) (md_mc md') i \<and> link_fresh n sz i md') \<and>
    conn_rep (md_mc md') (fold link_lists R ls) \<and>
    link_closed (md_mc md) (md_mc md') (\<Union>i \<in> set R. set (ls (LActive i))) (\<Union>i \<in> set R. set (ls (LPend i))) \<and>
    (\<forall>i. i \<notin> set R \<longrightarrow> same_pools (md_mc md) (md_mc md') i \<and> same_fifos md md' i) \<and> \<not> StuckState (md_mc md')"
proof -
  have u: "[0..<NUM_IO_LINKS] = [0, 1]" by (simp add: NUM_IO_LINKS_def upt_conv_Cons numeral_2_eq_2)
  let ?md1 = "md\<lparr>md_active := (\<lambda>i. if i \<in> set (job_links B md [0, 1]) then False else md_active md i)\<rparr>"
  have R': "job_links B md [0, 1] = R" "job_links B ?md1 [0, 1] = R" by (simp_all add: R job_links_def block_link_def)
  have sR: "set R \<subseteq> {0, 1}" using R by auto
  have "\<forall>i \<in> set [0, 1]. link_pools (md_mc ?md1) i (P i) \<and> ls (LAbort i) = [] \<and> subgroupID (md_sub ?md1 i) < 68 \<and>
      unat (link4reset (md_mc ?md1) i) < 11" using p by (simp add: link_ready_def bat_cfg_def)
  moreover have dd: "distinct [0, 1 :: nat]" "conn_rep (md_mc ?md1) ls" using c by simp_all
  ultimately obtain md2 where
    2: "each_link (block_link B) (reset_link_down e) [0, 1] ?md1 = Some md2" "down_effect P ls R ?md1 md2"
    using links_down[OF q hw, of "[0, 1]" ?md1 P ls B] unfolding R'(2) by blast
  have d: "md_sub md2 = md_sub md" "same_links (md_mc md) (md_mc md2)" "md_active md2 = md_active ?md1" using 2(2) by (simp_all add: down_effect_def close_effect_def)
  then have R2: "job_links B md2 [0, 1] = R" by (simp add: R job_links_def block_link_def same_links_def)
  have "\<forall>i \<in> set (job_links B md2 [0, 1]). link_ready n sz (md_sub md2 i) \<and>
      \<not> inj_used (md_regs md2) (subgroupID (md_sub md2 i)) 0 \<and> \<not> rec_used (md_regs md2) (subgroupID (md_sub md2 i)) 0"
    unfolding R2 using p 2(2) sR by (auto simp: down_effect_def close_effect_def)
  moreover have "inj_on (\<lambda>i. subgroupID (md_sub md2 i)) (set [0, 1])" using s d(1) by simp
  ultimately obtain md3 where
    3: "each_link (block_link B) (reset_link_up e) [0, 1] md2 = Some md3" "up_effect n sz R md2 md3"
    using links_up[of "[0, 1]" md2 B n sz e] dd(1) unfolding R2 by blast
  let ?md' = "md3\<lparr>md_mc := (md_mc md3)\<lparr>StuckState := False\<rparr>\<rparr>"
  have mc3: "md_mc md3 = (md_mc md2)\<lparr>injfifo_ctls := injfifo_ctls (md_mc md3), link_BlockID := link_BlockID (md_mc md3)\<rparr>"
    using 3(2) by (simp add: up_effect_def)
  have e3: "clinks (md_mc md3) = clinks (md_mc md2)" "conn_freelist (md_mc md3) = conn_freelist (md_mc md2)"
    "conn_pendlist (md_mc md3) = conn_pendlist (md_mc md2)" "conn_activelist (md_mc md3) = conn_activelist (md_mc md2)"
    "conn_abortlist (md_mc md3) = conn_abortlist (md_mc md2)" "conns (md_mc md3) = conns (md_mc md2)"
    "packetcontrols (md_mc md3) = packetcontrols (md_mc md2)" "smallpa_obj_ctls (md_mc md3) = smallpa_obj_ctls (md_mc md2)"
    "rdma_obj_ctls (md_mc md3) = rdma_obj_ctls (md_mc md2)" by (subst mc3, simp)+
  have "mudm_resetIOlink e B md = Some (RetOK, ?md')"
    unfolding mudm_resetIOlink_def u links_inactive bind.bind_lunit 2(1) 3(1) using m by simp
  moreover have "md_calls ?md' = md_calls md @ concat (map (\<lambda>i. cancelled (md_mc md) i (P i)) R)"
    using 2(2) 3(2) by (simp add: down_effect_def close_effect_def up_effect_def)
  moreover have "pools_flushed (P i) (md_mc ?md') i \<and> link_fresh n sz i ?md'" if "i \<in> set R" for i
    using 2(2) 3(2) that e3 by (simp add: down_effect_def close_effect_def up_effect_def pools_flushed_def link_pools_def link_fresh_def)
  moreover have "conn_rep (md_mc ?md') (fold link_lists R ls)"
    using 2(2) conn_rep_heads[of "md_mc ?md'" "md_mc md2"] e3 by (simp add: down_effect_def close_effect_def)
  moreover have "link_closed (md_mc md) (md_mc ?md') (\<Union>i \<in> set R. set (ls (LActive i))) (\<Union>i \<in> set R. set (ls (LPend i)))"
    using 2(2) e3 by (simp add: down_effect_def close_effect_def link_closed_def)
  moreover have "same_pools (md_mc md) (md_mc ?md') i \<and> same_fifos md ?md' i" if "i \<notin> set R" for i
    using 2(2) 3(2) that e3 d R' by (simp add: down_effect_def close_effect_def up_effect_def same_pools_def same_fifos_def same_links_def)
  ultimately show ?thesis by (intro exI[of _ ?md']) simp
qed

theorem mudm_resetIOlink_cancels_witness:
  "\<exists>md'. mudm_resetIOlink demo_env 7 demo_md = Some (RetOK, md') \<and>
    md_calls md' = [(77, flush_error_val), (77, flush_error_val), (77, flush_error_val)] \<and> link_fresh 4 1024 0 md' \<and>
    cstate (conns (md_mc md') 0) = CONN_FREE \<and> same_fifos demo_md md' 1"
proof -
  have p: "\<forall>i < 2. link_pools (md_mc demo_md) i demo_pools \<and> ((\<lambda>_. [])(LActive 0 := [0 :: nat])) (LAbort i) = [] \<and>
      link_ready 4 1024 (md_sub demo_md i) \<and> unat (link4reset (md_mc demo_md) i) < 11" by (simp add: demo_md_simps)
  have R: "[0] = filter (\<lambda>i. link_BlockID (md_mc demo_md) i = 7) [0, 1]" by (simp add: demo_md_simps)
  from mudm_resetIOlink_cancels[OF demo_md_simps(1) demo_env_quiet p _ demo_md_simps(6) R]
  obtain md' where 1: "mudm_resetIOlink demo_env 7 demo_md = Some (RetOK, md')"
    "md_calls md' = md_calls demo_md @ concat (map (\<lambda>i. cancelled (md_mc demo_md) i demo_pools) [0])"
    "link_fresh 4 1024 0 md'" "link_closed (md_mc demo_md) (md_mc md') {0} {}" "same_fifos demo_md md' 1"
    by (auto simp: demo_md_simps(4))
  moreover have "md_calls demo_md = []" by (simp add: demo_md_def)
  ultimately show ?thesis by (auto simp: demo_md_simps(8) link_closed_def)
qed



end
