(* ===== verification/Mudm_Init.thy ===== *)
theory Mudm_Init
  imports Mudm_Reset
begin

text \<open>
  The start of the data mover, \<^verbatim>\<open>mudm_init\<close> of \<^verbatim>\<open>bgmudm/mudm_init.c\<close>, with what it reads from the
  personality (\<^verbatim>\<open>bgmudm/mudm_personality.c\<close>).  It builds the three pools, the two subgroups with
  their FIFOs and base address tables, and the connection lists, and enters every region in the
  clean-up table.  The flight recorder, the template for collectives that \<^verbatim>\<open>bcast_init\<close> fills and the
  descriptor template of \<^verbatim>\<open>mudm_msg.c\<close> are left out.
\<close>

section \<open>The personality\<close>

record personality =
  UCI :: u64
  NodeConfig :: u64
  FreqMHz :: u32
  BlockID :: u32
  NetFlags2 :: u64
  Acoord :: u8
  Bcoord :: u8
  Ccoord :: u8
  Dcoord :: u8
  Ecoord :: u8
  cnBridge_A :: u8
  cnBridge_B :: u8
  cnBridge_C :: u8
  cnBridge_D :: u8
  cnBridge_E :: u8

definition ND_CN_BRIDGE_PORT_6 :: u64 where "ND_CN_BRIDGE_PORT_6 = BN 29"
definition ND_CN_BRIDGE_PORT_7 :: u64 where "ND_CN_BRIDGE_PORT_7 = BN 30"
definition ND_CN_BRIDGE_PORT_10 :: u64 where "ND_CN_BRIDGE_PORT_10 = BN 31"
definition PERS_ENABLE_IsIoNode :: u64 where "PERS_ENABLE_IsIoNode = BN 1"

definition microsec2cycles :: "personality \<Rightarrow> u64 \<Rightarrow> u64" where
  "microsec2cycles p microseconds = microseconds * ucast (FreqMHz p)"

definition getUCI :: "personality \<Rightarrow> u64" where "getUCI p = UCI p"

definition get_BlockID :: "personality \<Rightarrow> u32" where "get_BlockID p = BlockID p"

definition getCNportOnIOnode :: "personality option \<Rightarrow> u8" where
  "getCNportOnIOnode pers =
     (case pers of None \<Rightarrow> IO_PORT
      | Some p \<Rightarrow>
         (let port = IO_PORT;
              port = (if NetFlags2 p AND ND_CN_BRIDGE_PORT_6 \<noteq> 0 then TORUS_PORT_6 else port);
              port = (if NetFlags2 p AND ND_CN_BRIDGE_PORT_7 \<noteq> 0 then TORUS_PORT_7 else port)
          in (if NetFlags2 p AND ND_CN_BRIDGE_PORT_10 \<noteq> 0 then IO_PORT else port)))"

text \<open>Five coordinates of six bits each; \<^verbatim>\<open>temp\<close> has 32 bits.\<close>

definition pack_coords :: "u8 list \<Rightarrow> u32" where
  "pack_coords cs = fold (\<lambda>c temp. push_bit 6 temp OR ucast c) cs 0"

definition get_my_torus_addr :: "personality \<Rightarrow> u32" where
  "get_my_torus_addr p =
     (let temp = pack_coords [Acoord p, Bcoord p, Ccoord p, Dcoord p, Ecoord p]
      in (if NodeConfig p AND PERS_ENABLE_IsIoNode \<noteq> 0 then temp OR 0x80000000 else temp))"

definition get_my_bridging_torus_addr :: "personality \<Rightarrow> u32" where
  "get_my_bridging_torus_addr p = pack_coords [cnBridge_A p, cnBridge_B p, cnBridge_C p, cnBridge_D p, cnBridge_E p]"

section \<open>Requests and results\<close>

text \<open>
  \<open>has_callbacks\<close> says that none of the other four callbacks is \<^verbatim>\<open>NULL\<close>.  The flight recorders of
  \<^verbatim>\<open>struct mudm_cfg_info\<close> are left out; \<^verbatim>\<open>max_payload\<close> is never written.
\<close>

record mudm_init_info =
  callers_version :: u32
  req_inbound_connections :: u32
  allocate :: "allocate_cb option"
  has_callbacks :: bool
  pers_of :: personality

record mudm_cfg_info =
  mudm_version :: u32
  mudm_errno :: "errno option"
  cfg_connections :: u32
  num_io_links :: u32
  wakeupActive :: u32

text \<open>
  What the code takes from its surroundings: the sizes of its structures and the place of the two
  words in the context that are put to report an error or success, what the memory behind the arrays of
  descriptors holds, and what an uninitialised region on the stack holds.
\<close>

record boot_env =
  sizeof_context :: u64
  sizeof_subgroup :: u64
  sizeof_pkt_controls :: u64
  sizeof_pkt_descriptor :: u64
  sizeof_rdma_controls :: u64
  sizeof_rdma_object :: u64
  sizeof_connection :: u64
  offset_EINVAL :: u64
  offset_GOOD :: u64
  stray_links :: links
  stray_descs :: "nat \<Rightarrow> pkt_descriptor"
  stack_region :: mem_region

definition init_subgroup_id :: "nat \<Rightarrow> nat" where "init_subgroup_id i = (if i = 0 then 66 else 67)"

definition init_sys_rec_fifo_id :: "nat \<Rightarrow> u32" where "init_sys_rec_fifo_id i = (if i = 0 then 264 else 268)"

definition MCONTEXT_INDEX :: nat where "MCONTEXT_INDEX = NUM_DATA_COUNTERS_PER_SUBGROUP - 1"
definition RDMA_COUNTER_INDEX :: nat where "RDMA_COUNTER_INDEX = MCONTEXT_INDEX - 1"
definition MCONTEXT_INDEX_VA :: nat where "MCONTEXT_INDEX_VA = MCONTEXT_INDEX - 2"
definition TORUS_PACKET_SIZE :: u32 where "TORUS_PACKET_SIZE = 544"

section \<open>Zeroed memory\<close>

definition no_links :: links where "no_links = \<lparr>nxt = (\<lambda>_. None), prv = (\<lambda>_. None)\<rparr>"

definition zero_region :: mem_region where "zero_region = \<lparr>region_length = 0, base_vaddr = 0, base_paddr = 0\<rparr>"

definition zero_pkt_controls :: pkt_controls where
  "zero_pkt_controls = \<lparr>num_pkts = 0, packet_size = 0, packetlist = 0, pkt_links = no_links,
     pkt_nodes = (\<lambda>_. zero_pkt_descriptor), pkt_free_list = None, pkt_reqid_list = None\<rparr>"

definition zero_rdma_controls :: rdma_obj_controls where
  "zero_rdma_controls = \<lparr>num_obj = 0, rdma_freed_count = 0, rdma_allocated_count = 0, base_pa = 0, base_va = 0,
     compare_area_size = 0, ro_links = no_links,
     ro_nodes = (\<lambda>_. \<lparr>remote_rdma_obj_pa = 0, rdma_object_pa = 0, local_request_id = 0, local_connect = 0\<rparr>),
     mues = (\<lambda>_. \<lparr>mu_counter = 0, mu_error = 0\<rparr>), rdma_free_list = None, counter_list = None, rdma_bcast_controls_offset = 0\<rparr>"

definition zero_injfifo :: injfifo where
  "zero_injfifo = \<lparr>ififo = zero_fifo, descCount = 0, freeSpace = 0, numInjected = 0, slots = (\<lambda>_. None), inj_log = []\<rparr>"

definition zero_subgroup :: mu_subgroup where
  "zero_subgroup = \<lparr>ms_inj = \<lparr>isg_id = 0, isg_status = None, isg_hwfifo = (\<lambda>_. None), isg_fifos = (\<lambda>_. zero_injfifo)\<rparr>,
     ms_rec = \<lparr>rsg_id = 0, rsg_status = None, rsg_hwfifo = (\<lambda>_. None), rsg_fifos = (\<lambda>_. \<lparr>rfifo = zero_fifo, ring = (\<lambda>_. 0)\<rparr>)\<rparr>,
     ms_bat = \<lparr>bsg_id = 0, bsg_hw = None, bsg_permissions = 0, sw_bat = (\<lambda>_. 0)\<rparr>, batids = replicate 8 0,
     batvalues = replicate 8 0, rfifoids = 0, ififoid = 0, subgroupID = 0, clearInterrupts_mask = 0,
     injRegion = zero_region, recRegion = zero_region\<rparr>"

definition zero_connection :: mudm_connection where
  "zero_connection = \<lparr>mu_iMemoryFifoDescriptor = MUSPI_DescriptorZeroOut zero_memory_fifo,
     mu_iDirectPutDescriptor = MUSPI_DescriptorZeroOut zero_direct_put_hdr,
     mu_iDirectPutDescriptor4rget = MUSPI_DescriptorZeroOut zero_direct_put_hdr,
     cmagic = 0, cstate = CONN_FREE, my_index = 0, remote_rec_FIFO_Id = 0, local_rec_FIFO_Id = 0,
     remote_BlockID = 0, destination = 0, reverse_destination = 0, remote_bridgingCNnode = 0,
     dest_conn_index = 0, io_port = 0, reverse_io_port = 0, cdirection = IONODE2CN, reverse_direction = IONODE2CN,
     lowbit_timestamp = 0, injfifo_of = 0, pools_of = 0, activelist_of = None, pendlist_of = None,
     abortlist_of = None, remote_timestamp = 0, my_timestamp = 0, memfifo_sent = 0, rget_memfifo_sent = 0\<rparr>"

definition zero_context :: my_context where
  "zero_context = \<lparr>conns = (\<lambda>_. zero_connection), clinks = no_links, conn_freelist = None,
     conn_pendlist = (\<lambda>_. None), conn_activelist = (\<lambda>_. None), conn_abortlist = (\<lambda>_. None),
     mmagic = 0, max_connections = 0, injfifo_ctls = (\<lambda>_. \<lparr>injfifo = zero_injfifo, clock = 0\<rparr>),
     packetcontrols = (\<lambda>_. zero_pkt_controls), smallpa_obj_ctls = (\<lambda>_. zero_pkt_controls),
     rdma_obj_ctls = (\<lambda>_. zero_rdma_controls), pkt_mem = (\<lambda>_ _. replicate 512 0), smallpa_mem = (\<lambda>_ _. replicate 64 0),
     notice_sources = \<lparr>rdma_EINVAL_source_pa = 0, rdma_GOOD_source_pa = 0\<rparr>, my_using_IO_port = 0, myTorusAddress = 0,
     mybridgingCNnode = 0, myUCI = 0, myBlockID = 0, sys_rec_fifo_id = (\<lambda>_. 0), link_BlockID = (\<lambda>_. 0),
     link4reset = (\<lambda>_. 0), StuckState = False\<rparr>"

section \<open>Phases\<close>

text \<open>
  The body between the entry of the context in the clean-up table and \<^verbatim>\<open>conn_list_init\<close> is a sequence
  of phases; a loop over the links is one phase per link.  A phase ends with \<open>False\<close> where the code goes
  to \<^verbatim>\<open>ALLOC_ERROR\<close>.
\<close>

type_synonym phase = "mudm_state \<Rightarrow> (bool \<times> mudm_state) option"

fun run_phases :: "phase list \<Rightarrow> mudm_state \<Rightarrow> (bool \<times> mudm_state) option" where
  "run_phases [] md = Some (True, md)"
| "run_phases (f # fs) md =
     (case f md of None \<Rightarrow> None | Some (ok, md1) \<Rightarrow> if ok then run_phases fs md1 else Some (False, md1))"

text \<open>
  \<^verbatim>\<open>rdma_init\<close> on the zeroed controls of the two links; also gives the start of each compare area,
  which the base address tables need.
\<close>

definition init_rdma :: "boot_env \<Rightarrow> allocate_cb \<Rightarrow> u32 \<Rightarrow> cleanup \<Rightarrow> (u64 list \<times> rdma_obj_controls list \<times> cleanup) option" where
  "init_rdma b alloc mx cl =
     map_option (\<lambda>(out, cl1). (map fst out, map (snd \<circ> snd) out, cl1))
       (rdma_init alloc (sizeof_rdma_controls b) (sizeof_rdma_object b) mx (replicate NUM_IO_LINKS zero_rdma_controls) cl)"

definition bat_values :: "u64 \<Rightarrow> u64 \<Rightarrow> u64 \<Rightarrow> u64 list" where
  "bat_values ctx_pa ctx_va counters =
     (replicate NUM_DATA_COUNTERS_PER_SUBGROUP 0)[MCONTEXT_INDEX := ctx_pa, RDMA_COUNTER_INDEX := counters, MCONTEXT_INDEX_VA := ctx_va]"

definition init_subgroup :: "boot_env \<Rightarrow> allocate_cb \<Rightarrow> mem_region \<Rightarrow> u64 list \<Rightarrow> nat \<Rightarrow> phase" where
  "init_subgroup b alloc ctx starts i md =
     (case alloc_object alloc (sizeof_subgroup b) None CF_free_MU_subgroup_mem (md_cleanup md) of
        (Inl _, cl) \<Rightarrow> Some (False, md\<lparr>md_cleanup := cl\<rparr>)
      | (Inr r, cl) \<Rightarrow>
         (let musm = zero_subgroup\<lparr>subgroupID := init_subgroup_id i, batids := [0..<NUM_DATA_COUNTERS_PER_SUBGROUP],
                batvalues := bat_values (base_paddr ctx) (base_vaddr ctx) (starts ! i)\<rparr>
          in map_option (\<lambda>(musm1, regs). (True, md\<lparr>md_cleanup := cl, md_submem := (md_submem md)(i := r),
                md_sub := (md_sub md)(i := musm1), md_regs := regs\<rparr>))
              (activate_base_address_table musm (md_regs md))))"

text \<open>
  The result of \<^verbatim>\<open>alloc_pkt_list_object\<close> is not looked at.  If the allocation of the controls
  themselves fails the code goes on with whatever the region holds: \<open>None\<close>.  If one of
  the other two fails the controls stay, with no descriptors on their lists.
\<close>

definition init_pool :: "boot_env \<Rightarrow> allocate_cb \<Rightarrow> u32 \<Rightarrow> u64 \<Rightarrow> cleanup \<Rightarrow> (pkt_controls \<times> cleanup) option" where
  "init_pool b alloc mx packetsize cl =
     (case alloc_pkt_list_object alloc (sizeof_pkt_controls b) (sizeof_pkt_descriptor b) mx packetsize (stray_links b) (stray_descs b) cl of
        (Inr pc, cl1) \<Rightarrow> Some (pc, cl1)
      | (Inl _, cl1) \<Rightarrow>
         (case alloc_object alloc (sizeof_pkt_controls b) None CF_free_mem cl of
            (Inl _, _) \<Rightarrow> None
          | (Inr _, cl2) \<Rightarrow>
              Some (zero_pkt_controls\<lparr>num_pkts := unat mx, packet_size := packetsize,
                  packetlist := (case fst (alloc_object alloc (ucast mx * packetsize) None CF_free_mem cl2) of
                                   Inl _ \<Rightarrow> 0 | Inr r \<Rightarrow> base_vaddr r)\<rparr>, cl1)))"

definition init_packets :: "boot_env \<Rightarrow> allocate_cb \<Rightarrow> u32 \<Rightarrow> nat \<Rightarrow> phase" where
  "init_packets b alloc mx i md =
     map_option (\<lambda>(pc, cl). (True, md\<lparr>md_cleanup := cl, md_mc := (md_mc md)\<lparr>packetcontrols := (packetcontrols (md_mc md))(i := pc)\<rparr>\<rparr>))
       (init_pool b alloc mx 512 (md_cleanup md))"

definition init_smallpa :: "boot_env \<Rightarrow> allocate_cb \<Rightarrow> u32 \<Rightarrow> nat \<Rightarrow> phase" where
  "init_smallpa b alloc mx i md =
     map_option (\<lambda>(pc, cl). (True, md\<lparr>md_cleanup := cl, md_mc := (md_mc md)\<lparr>smallpa_obj_ctls := (smallpa_obj_ctls (md_mc md))(i := pc)\<rparr>\<rparr>))
       (init_pool b alloc mx 64 (md_cleanup md))"

text \<open>\<^verbatim>\<open>temp\<close> is a signed 32-bit variable: the product may wrap around and become negative.\<close>

definition inj_region_size :: "u32 \<Rightarrow> u32" where
  "inj_region_size mx = (let temp = 64 * mx * 4 in (if sint temp < 512 * 64 then 512 * 64 else temp))"

definition rec_region_size :: "u32 \<Rightarrow> u32" where
  "rec_region_size mx = (if mx \<le> 16 then TORUS_PACKET_SIZE * 64 else TORUS_PACKET_SIZE * mx * 4)"

text \<open>The results of the activations are ignored.\<close>

definition init_inj :: "reset_env \<Rightarrow> allocate_cb \<Rightarrow> u32 \<Rightarrow> nat \<Rightarrow> phase" where
  "init_inj e alloc mx i md =
     (case alloc_object alloc (scast (inj_region_size mx)) (Some i) CF_free_MU_inj_region (md_cleanup md) of
        (Inl _, cl) \<Rightarrow> Some (False, md\<lparr>md_cleanup := cl\<rparr>)
      | (Inr r, cl) \<Rightarrow>
         map_option (\<lambda>(_, musm, regs). (True, md\<lparr>md_cleanup := cl, md_sub := (md_sub md)(i := musm), md_regs := regs\<rparr>))
           (activate_injfifos (env_prio e) (env_free e i) ((md_sub md i)\<lparr>injRegion := r\<rparr>) (md_regs md)))"

definition init_rec :: "allocate_cb \<Rightarrow> u32 \<Rightarrow> nat \<Rightarrow> phase" where
  "init_rec alloc mx i md =
     (case alloc_object alloc (scast (rec_region_size mx)) (Some i) CF_free_recfifo (md_cleanup md) of
        (Inl _, cl) \<Rightarrow> Some (False, md\<lparr>md_cleanup := cl\<rparr>)
      | (Inr r, cl) \<Rightarrow>
         map_option (\<lambda>(_, musm, regs). (True, md\<lparr>md_cleanup := cl, md_sub := (md_sub md)(i := musm), md_regs := regs\<rparr>))
           (activate_recfifos ((md_sub md i)\<lparr>recRegion := r\<rparr>) (md_regs md)))"

section \<open>The operation\<close>

text \<open>The zeroed context with the fields set before the first allocation that may fail.\<close>

definition init_context :: "boot_env \<Rightarrow> mudm_init_info \<Rightarrow> u32 \<Rightarrow> mem_region \<Rightarrow> my_context" where
  "init_context b ii mx ctx = zero_context\<lparr>mmagic := MUDM_MAGIC, max_connections := ucast mx,
     notice_sources := \<lparr>rdma_EINVAL_source_pa = base_paddr ctx + offset_EINVAL b, rdma_GOOD_source_pa = base_paddr ctx + offset_GOOD b\<rparr>,
     my_using_IO_port := getCNportOnIOnode (Some (pers_of ii)), myTorusAddress := get_my_torus_addr (pers_of ii),
     mybridgingCNnode := get_my_bridging_torus_addr (pers_of ii), myUCI := getUCI (pers_of ii),
     myBlockID := get_BlockID (pers_of ii)\<rparr>"

definition init_phases :: "boot_env \<Rightarrow> reset_env \<Rightarrow> allocate_cb \<Rightarrow> u32 \<Rightarrow> mem_region \<Rightarrow> u64 list \<Rightarrow> phase list" where
  "init_phases b e alloc mx ctx starts =
     map (init_subgroup b alloc ctx starts) [0..<NUM_IO_LINKS] @
     map (init_packets b alloc mx) [0..<NUM_IO_LINKS] @ map (init_smallpa b alloc mx) [0..<NUM_IO_LINKS] @
     map (init_inj e alloc mx) [0..<NUM_IO_LINKS] @ map (init_rec alloc mx) [0..<NUM_IO_LINKS]"

text \<open>
  The last loop: the control of each link takes FIFO 0 of its subgroup and becomes active.
\<close>

definition init_link :: "nat \<Rightarrow> mudm_state \<Rightarrow> mudm_state" where
  "init_link i md = md\<lparr>md_active := (md_active md)(i := True), md_mc := (md_mc md)
     \<lparr>sys_rec_fifo_id := (sys_rec_fifo_id (md_mc md))(i := init_sys_rec_fifo_id i),
      injfifo_ctls := (injfifo_ctls (md_mc md))(i := (injfifo_ctls (md_mc md) i)\<lparr>injfifo := isg_fifos (ms_inj (md_sub md i)) 0\<rparr>)\<rparr>\<rparr>"

text \<open>
  From \<^verbatim>\<open>rdma_init\<close> to the end.  At \<^verbatim>\<open>ALLOC_ERROR\<close> the regions are given back; a failure of
  \<^verbatim>\<open>conn_list_init\<close> returns without that.
\<close>

definition init_rest :: "boot_env \<Rightarrow> reset_env \<Rightarrow> allocate_cb \<Rightarrow> u32 \<Rightarrow> mem_region \<Rightarrow> mudm_state \<Rightarrow> (ret \<times> mudm_state) option" where
  "init_rest b e alloc mx ctx md =
     do { (starts, rcs, cl) \<leftarrow> init_rdma b alloc mx (md_cleanup md);
          (ok, md1) \<leftarrow> run_phases (init_phases b e alloc mx ctx starts)
            (md\<lparr>md_cleanup := cl, md_mc := (md_mc md)\<lparr>rdma_obj_ctls := (\<lambda>i. if i < NUM_IO_LINKS then rcs ! i else zero_rdma_controls)\<rparr>\<rparr>);
          (if \<not> ok then map_option (Pair (RetErr ENOMEM)) (run_cleanup e md1)
           else do { (r, cl1, mc) \<leftarrow> conn_list_init alloc (sizeof_connection b) (unat mx) (md_cleanup md1) (md_mc md1);
                     let md2 = md1\<lparr>md_cleanup := cl1, md_mc := mc\<rparr>;
                     Some (case r of RetErr er \<Rightarrow> (RetErr er, md2)
                           | RetOK \<Rightarrow> (RetOK, (fold init_link [0..<NUM_IO_LINKS] md2)\<lparr>md_running := True\<rparr>)) }) }"

text \<open>
  When the context cannot be entered in the clean-up table the code goes to \<^verbatim>\<open>ALLOC_ERROR\<close> before
  it has stored the user's \<^verbatim>\<open>free\<close> in the context, and calls a \<^verbatim>\<open>NULL\<close> pointer: \<open>None\<close>.
\<close>

definition mudm_init ::
  "boot_env \<Rightarrow> reset_env \<Rightarrow> mudm_init_info \<Rightarrow> mudm_cfg_info \<Rightarrow> mudm_state \<Rightarrow> (ret \<times> mudm_cfg_info \<times> mudm_state) option" where
  "mudm_init b e ii cfg0 md0 =
     (let cfg = cfg0\<lparr>mudm_version := ucast MUDM_VERSION, mudm_errno := None, num_io_links := of_nat NUM_IO_LINKS\<rparr> in
      if mudm_version cfg \<noteq> callers_version ii then Some (RetErr EBADRQC, cfg\<lparr>mudm_errno := Some EBADRQC\<rparr>, md0)
      else let mx = (if req_inbound_connections ii < 4 then 4 else req_inbound_connections ii);
               cfg = cfg\<lparr>cfg_connections := mx\<rparr> in
        case (allocate ii, has_callbacks ii) of
          (None, _) \<Rightarrow> Some (RetErr EINVAL, cfg\<lparr>mudm_errno := Some EINVAL\<rparr>, md0)
        | (_, False) \<Rightarrow> Some (RetErr EINVAL, cfg\<lparr>mudm_errno := Some EINVAL\<rparr>, md0)
        | (Some alloc, True) \<Rightarrow>
           (let cl0 = md_cleanup md0; cl1 = cl0\<lparr>alloc_calls := Suc (alloc_calls cl0)\<rparr> in
            case alloc (alloc_calls cl0) (sizeof_context b) of
              None \<Rightarrow> Some (RetErr ENOMEM, cfg, md0\<lparr>md_cleanup := cl1, md_freed := md_freed md0 @ [(CF_free_mem, stack_region b, None)]\<rparr>)
            | Some ctx \<Rightarrow>
               (let md = md0\<lparr>md_mc := init_context b ii mx ctx, md_sub := (\<lambda>_. zero_subgroup), md_submem := (\<lambda>_. zero_region),
                      md_active := (\<lambda>_. False), md_running := False\<rparr>;
                    (st, cl2) = add_object ctx None CF_free_mem cl1
                in case st of
                     RetErr _ \<Rightarrow> None
                   | RetOK \<Rightarrow> map_option (\<lambda>(r, md1). (r, cfg\<lparr>wakeupActive := 0\<rparr>, md1))
                       (init_rest b e alloc mx ctx (md\<lparr>md_cleanup := cl2\<rparr>)))))"

section \<open>Allocations that succeed\<close>

text \<open>
  What the theorems rely on of the user's \<^verbatim>\<open>allocate\<close>: for fewer than \<open>2 ^ 40\<close> bytes it gives a region of the wanted
  length, on a cache line, that does not reach the end of the address space.
\<close>

definition region_good :: "u64 \<Rightarrow> mem_region \<Rightarrow> bool" where
  "region_good len r \<longleftrightarrow> region_length r = len \<and> unat (base_vaddr r) mod 64 = 0 \<and>
     unat (base_vaddr r) + unat len + 544 < 2 ^ 64 \<and> base_paddr r \<noteq> 0"

definition alloc_good :: "allocate_cb \<Rightarrow> bool" where
  "alloc_good alloc \<longleftrightarrow> (\<forall>k len. unat len < 2 ^ 40 \<longrightarrow> (\<exists>r. alloc k len = Some r \<and> region_good len r))"

definition sizes_ok :: "boot_env \<Rightarrow> bool" where
  "sizes_ok b \<longleftrightarrow> (\<forall>s \<in> {sizeof_context b, sizeof_subgroup b, sizeof_pkt_controls b, sizeof_pkt_descriptor b,
     sizeof_rdma_controls b, sizeof_rdma_object b, sizeof_connection b}. unat s < 2 ^ 16)"

definition entry :: "mem_region \<Rightarrow> ptr \<Rightarrow> cleanup_fn \<Rightarrow> cleanup_entry" where
  "entry r args fn = \<lparr>ce_memregion = r, ce_status = 0, ce_argslist = args, ce_cleanup_fn = fn\<rparr>"

text \<open>The table grows by \<open>k\<close> entries that only free memory.\<close>

definition plain_grow :: "nat \<Rightarrow> cleanup \<Rightarrow> cleanup \<Rightarrow> bool" where
  "plain_grow k cl cl' \<longleftrightarrow> (\<exists>rs. length rs = k \<and> clean_table cl' = clean_table cl @ map (\<lambda>r. entry r None CF_free_mem) rs)"

lemma plain_grow_trans: "plain_grow j cl cl1 \<Longrightarrow> plain_grow k cl1 cl2 \<Longrightarrow> plain_grow (j + k) cl cl2"
  unfolding plain_grow_def by (metis append.assoc length_append map_append)

lemma plain_grow_0: "plain_grow 0 cl cl" by (simp add: plain_grow_def)

lemma plain_grow_length: "plain_grow k cl cl' \<Longrightarrow> length (clean_table cl') = length (clean_table cl) + k"
  by (auto simp: plain_grow_def)

lemma alloc_good_object:
  assumes "alloc_good alloc" "unat len < 2 ^ 40" "length (clean_table cl) < 25"
  shows "\<exists>r cl'. alloc_object alloc len args fn cl = (Inr r, cl') \<and> clean_table cl' = clean_table cl @ [entry r args fn] \<and> region_good len r"
proof -
  obtain r where "alloc (alloc_calls cl) len = Some r" "region_good len r" using assms(1,2) unfolding alloc_good_def by blast
  with assms(3) show ?thesis by (simp add: alloc_object_def MAX_CLEANUP_ENTRIES_def entry_def)
qed

lemma alloc_good_plain:
  assumes "alloc_good alloc" "unat len < 2 ^ 40" "length (clean_table cl) < 25"
  shows "\<exists>r cl'. alloc_object alloc len None CF_free_mem cl = (Inr r, cl') \<and> plain_grow 1 cl cl' \<and> region_good len r"
proof -
  from alloc_good_object[OF assms, of None CF_free_mem] obtain r cl' where
    "alloc_object alloc len None CF_free_mem cl = (Inr r, cl')" "clean_table cl' = clean_table cl @ map (\<lambda>r. entry r None CF_free_mem) [r]"
    "region_good len r" by auto
  moreover from this(2) have "plain_grow 1 cl cl'" unfolding plain_grow_def by (intro exI[of _ "[r]"]) simp
  ultimately show ?thesis by blast
qed

lemma unat_mult_bound:
  fixes a b :: u64
  assumes "unat a \<le> x" "unat b \<le> y" "x * y < 2 ^ 64"
  shows "unat (a * b) \<le> x * y" "unat (a * b) = unat a * unat b"
proof -
  have "unat a * unat b \<le> x * y" using assms(1,2) by (rule mult_le_mono)
  with assms(3) have "unat a * unat b < 2 ^ 64" by linarith
  then show "unat (a * b) = unat a * unat b" by (simp add: unat_word_ariths(2))
  with \<open>unat a * unat b \<le> x * y\<close> show "unat (a * b) \<le> x * y" by simp
qed

lemma unat_ucast_u64: "unat (ucast (x :: u32) :: u64) = unat x"
proof -
  have "unat x < 2 ^ 32" using unsigned_less[of x, where ?'a = nat] by simp
  then show ?thesis by (simp add: unsigned_ucast_eq take_bit_nat_eq_self)
qed

section \<open>The pools\<close>

lemma init_pool_total:
  assumes "alloc_good alloc" "sizes_ok b" "unat mx < 2 ^ 16" "sz \<in> {64, 512}" "length (clean_table cl) + 3 \<le> 25"
  shows "\<exists>pc cl'. init_pool b alloc mx sz cl = Some (pc, cl') \<and> pkt_rep pc [0..<Suc (unat mx)] [] \<and> plain_grow 3 cl cl'"
proof -
  have s: "unat (sizeof_pkt_controls b) < 2 ^ 40" "unat (sizeof_pkt_descriptor b) \<le> 2 ^ 16"
    using assms(2) by (auto simp: sizes_ok_def)
  have u: "unat (ucast mx :: u64) = unat mx" by (rule unat_ucast_u64)
  then have m: "unat (ucast mx :: u64) \<le> 2 ^ 16" using assms(3) by simp
  have z: "unat sz \<le> 2 ^ 16" using assms(4) by auto
  have l: "unat (ucast mx * sz) < 2 ^ 40" "unat (ucast mx * sizeof_pkt_descriptor b) < 2 ^ 40"
    using unat_mult_bound(1)[OF m z] unat_mult_bound(1)[OF m s(2)] by simp_all
  have c: "length (clean_table cl) < 25" using assms(5) by simp
  obtain r1 cl1 where 1: "alloc_object alloc (sizeof_pkt_controls b) None CF_free_mem cl = (Inr r1, cl1)" "plain_grow 1 cl cl1"
    using alloc_good_plain[OF assms(1) s(1) c] by blast
  have c1: "length (clean_table cl1) < 25" using plain_grow_length[OF 1(2)] assms(5) by simp
  obtain r2 cl2 where 2: "alloc_object alloc (ucast mx * sz) None CF_free_mem cl1 = (Inr r2, cl2)" "plain_grow 1 cl1 cl2"
    using alloc_good_plain[OF assms(1) l(1) c1] by blast
  have c2: "length (clean_table cl2) < 25" using plain_grow_length[OF 1(2)] plain_grow_length[OF 2(2)] assms(5) by simp
  obtain r3 cl3 where 3: "alloc_object alloc (ucast mx * sizeof_pkt_descriptor b) None CF_free_mem cl2 = (Inr r3, cl3)" "plain_grow 1 cl2 cl3"
    using alloc_good_plain[OF assms(1) l(2) c2] by blast
  have "plain_grow 3 cl cl3" using plain_grow_trans[OF plain_grow_trans[OF 1(2) 2(2)] 3(2)] by (simp add: numeral_3_eq_3)
  with 1(1) 2(1) 3(1) show ?thesis
    using pkt_list_setup_free[of "unat mx" sz r2 "stray_links b" "stray_descs b"]
    by (simp add: init_pool_def alloc_pkt_list_object_def del: upt_Suc)
qed

lemma compute_size_small:
  assumes "unat mx < 2 ^ 16"
  shows "\<exists>rss num. compute_rdma_section_size mx 2 = Some (rss, num) \<and> unat rss \<le> 2 ^ 21 \<and> 127 \<le> unat num \<and> unat num \<le> 2 ^ 17"
proof -
  let ?w = "ucast (2 * mx) :: u64"
  let ?n = "if ?w < 128 then 128 else ?w"
  have "unat (2 * mx) = 2 * unat mx" using assms by (simp add: unat_word_ariths(2))
  then have n0: "unat ?w = 2 * unat mx" by (simp only: unat_ucast_u64)
  then have n: "128 \<le> unat ?n" "unat ?n \<le> 2 ^ 17" using assms by (auto simp: word_less_nat_alt)
  have m: "unat (?n * 16) \<le> 2 ^ 17 * 16" using unat_mult_bound(1)[OF n(2), of 16 16] by simp
  then have "?n * 16 \<le> 2 ^ 21" by (simp add: word_le_nat_alt)
  then obtain j where j: "11 \<le> j" "j \<le> 21" "section_loop (?n * 16) (2 ^ 11) = Some (2 ^ j)"
    using section_loop_total[of "?n * 16" 21 11] by auto
  have "(2 :: nat) ^ j \<le> 2 ^ 21" using j(2) by (rule power_increasing) simp
  moreover have "unat (2 ^ j :: u64) = 2 ^ j"
    using j(2) power_strict_increasing[of j 64 "2 :: nat"] unat_of_nat_u64[of "2 ^ j"] by simp
  ultimately have r: "unat (2 ^ j :: u64) \<le> 2 ^ 21" by simp
  have "unat (?n - 1) = unat ?n - 1" using n(1) by (subst unat_sub) (simp_all add: word_le_nat_alt)
  with n have k: "127 \<le> unat (?n - 1)" "unat (?n - 1) \<le> 2 ^ 17" by simp_all
  have s: "section_loop (?n * 16) 2048 = Some (2 ^ j)" using j(3) by simp
  have "compute_rdma_section_size mx 2 =
      map_option (\<lambda>sz. (sz, if sz = ?n * 16 then ?n - 1 else ?n)) (section_loop (?n * 16) 2048)"
    by (simp only: compute_rdma_section_size_def Let_def) simp
  then have "compute_rdma_section_size mx 2 = Some (2 ^ j, if 2 ^ j = ?n * 16 then ?n - 1 else ?n)"
    unfolding s option.map .
  moreover have "127 \<le> unat (if 2 ^ j = ?n * 16 then ?n - 1 else ?n)" "unat (if 2 ^ j = ?n * 16 then ?n - 1 else ?n) \<le> 2 ^ 17"
    using k n by (cases "2 ^ j = ?n * 16"; simp only: if_True if_False)+
  ultimately show ?thesis using r by blast
qed

lemma rdma_init_link_free:
  assumes "1 < unat num"
  shows "\<exists>off' pa msk rc'. rdma_init_link rss r num off rc = (num - 1, off', pa, msk, rc') \<and> rdma_rep rc' [0..<num_obj rc'] []"
proof -
  have "unat (num - 1) = unat num - 1" using assms by (subst unat_sub) (simp_all add: word_le_nat_alt)
  with assms have p: "0 < unat (num - 1)" by simp
  let ?rc = "snd (snd (snd (snd (rdma_init_link rss r num off rc))))"
  have "fst (rdma_init_link rss r num off rc) = num - 1" by (simp add: rdma_init_link_def Let_def)
  moreover have g: "rdma_rep (rdma_obj_init rc1) [0..<k] []" if "num_obj rc1 = k" "0 < k" for rc1 k
    using rdma_obj_init_free(1)[of rc1] that by simp
  have "rdma_rep ?rc [0..<num_obj ?rc] []"
    unfolding rdma_init_link_def Let_def snd_conv by (subst rdma_obj_init_free(5)) (use p in \<open>auto intro!: g\<close>)
  ultimately show ?thesis by (cases "rdma_init_link rss r num off rc") auto
qed

lemma init_rdma_total:
  assumes "alloc_good alloc" "sizes_ok b" "unat mx < 2 ^ 16" "length (clean_table cl) + 2 \<le> 25"
  shows "\<exists>starts rcs cl'. init_rdma b alloc mx cl = Some (starts, rcs, cl') \<and> plain_grow 2 cl cl' \<and>
    (\<forall>j < 2. rdma_rep (rcs ! j) [0..<num_obj (rcs ! j)] [])"
proof -
  have s: "unat (sizeof_rdma_controls b) \<le> 2 ^ 16" "unat (sizeof_rdma_object b) \<le> 2 ^ 16"
    using assms(2) by (auto simp: sizes_ok_def)
  obtain rss num where c: "compute_rdma_section_size mx 2 = Some (rss, num)" "unat rss \<le> 2 ^ 21" "127 \<le> unat num" "unat num \<le> 2 ^ 17"
    using compute_size_small[OF assms(3)] by blast
  have l: "unat (rss * 2 + sizeof_rdma_controls b + k * sizeof_rdma_object b) < 2 ^ 40" if "unat k \<le> 2 ^ 17" for k
  proof -
    have "unat (rss * 2) \<le> 2 ^ 22" using unat_mult_bound(1)[OF c(2), of 2 2] by simp
    moreover have "unat (k * sizeof_rdma_object b) \<le> 2 ^ 33" using unat_mult_bound(1)[OF that s(2)] by simp
    ultimately show ?thesis using s(1) by (simp add: unat_word_ariths(1))
  qed
  have e: "replicate NUM_IO_LINKS zero_rdma_controls = [zero_rdma_controls, zero_rdma_controls]" by (simp add: NUM_IO_LINKS_def numeral_2_eq_2)
  have n1: "unat (num - 1) = unat num - 1" using c(3) by (subst unat_sub) (simp_all add: word_le_nat_alt)
  have t: "length (clean_table cl) < 25" using assms(4) by simp
  obtain r0 cl1 where 0: "alloc_object alloc (rss * 2 + sizeof_rdma_controls b + num * sizeof_rdma_object b) None CF_free_mem cl = (Inr r0, cl1)"
    "plain_grow 1 cl cl1" using alloc_good_plain[OF assms(1) l[OF c(4)] t] by blast
  have t1: "length (clean_table cl1) < 25" "unat (num - 1) \<le> 2 ^ 17" using plain_grow_length[OF 0(2)] assms(4) c(4) n1 by simp_all
  obtain r1 cl2 where 1: "alloc_object alloc (rss * 2 + sizeof_rdma_controls b + (num - 1) * sizeof_rdma_object b) None CF_free_mem cl1 = (Inr r1, cl2)"
    "plain_grow 1 cl1 cl2" using alloc_good_plain[OF assms(1) l[OF t1(2)] t1(1)] by blast
  obtain o0 p0 m0 rc0 where k0: "rdma_init_link rss r0 num 0 zero_rdma_controls = (num - 1, o0, p0, m0, rc0)" "rdma_rep rc0 [0..<num_obj rc0] []"
    using rdma_init_link_free[of num rss r0 0 zero_rdma_controls] c(3) by fastforce
  obtain o1 p1 m1 rc1 where k1: "rdma_init_link rss r1 (num - 1) o0 zero_rdma_controls = (num - 1 - 1, o1, p1, m1, rc1)" "rdma_rep rc1 [0..<num_obj rc1] []"
  proof -
    have "1 < unat (num - 1)" using c(3) n1 by linarith
    from rdma_init_link_free[OF this, of rss r1 o0 zero_rdma_controls] that show thesis by blast
  qed
  have "init_rdma b alloc mx cl = Some ([p0, p1], [rc0, rc1], cl2)"
    using c(1)[unfolded numeral_2_eq_2] 0(1) 1(1) k0(1) k1(1) by (simp add: init_rdma_def rdma_init_def e)
  moreover have "plain_grow 2 cl cl2" using plain_grow_trans[OF 0(2) 1(2)] by (simp add: numeral_2_eq_2)
  moreover have "\<forall>j < 2. rdma_rep ([rc0, rc1] ! j) [0..<num_obj ([rc0, rc1] ! j)] []" using k0(2) k1(2) by (auto simp: less_2_cases_iff)
  ultimately show ?thesis by blast
qed

section \<open>The subgroups\<close>

lemma run_phases_ok: "f md = Some (True, md1) \<Longrightarrow> run_phases (f # fs) md = run_phases fs md1"
  by simp

lemma run_phases_append:
  "run_phases xs md = Some (True, md1) \<Longrightarrow> run_phases (xs @ ys) md = run_phases ys md1"
  by (induction xs arbitrary: md) (auto split: option.splits if_splits)

lemma set_bases_frame:
  "set_bases i vs (sg, r) = Some (sg', r') \<Longrightarrow> bsg_hw sg' = bsg_hw sg \<and>
   (\<forall>p g s. bsg_hw sg = Some (p, g, s) \<longrightarrow> (\<forall>g' s' k. (g', s') \<noteq> (g, s) \<longrightarrow> bat_entry r' (g', s', k) = bat_entry r (g', s', k)))"
proof (induction vs arbitrary: i sg r)
  case (Cons v vs)
  from Cons.prems obtain sg1 r1 where 1: "MUSPI_SetBaseAddress i v sg r = Some (sg1, r1)" "set_bases (Suc i) vs (sg1, r1) = Some (sg', r')"
    by (auto split: option.splits)
  then have "bsg_hw sg1 = bsg_hw sg" "\<And>p g s g' s' k. bsg_hw sg = Some (p, g, s) \<Longrightarrow> (g', s') \<noteq> (g, s) \<Longrightarrow> bat_entry r1 (g', s', k) = bat_entry r (g', s', k)"
    by (auto simp: MUSPI_SetBaseAddress_def split: if_splits option.splits)
  with Cons.IH[OF 1(2)] show ?case by (metis)
qed simp

lemma fold_clear_entries:
  "(g', s') \<noteq> (g, s) \<Longrightarrow> fold (\<lambda>i f. f((g, s, i) := v)) ids f (g', s', k) = f (g', s', k)"
  by (induction ids arbitrary: f) auto

lemma alloc_bat_entries:
  "Kernel_AllocateBaseAddressTable s ids u sg r = Some (rc, sg', r') \<Longrightarrow> (g', s') \<noteq> (gid_of s, sgid_of s) \<Longrightarrow>
   bat_entry r' (g', s', k) = bat_entry r (g', s', k)"
  by (auto simp: Kernel_AllocateBaseAddressTable_def Let_def set_bat_mode_def fold_clear_entries
      split: if_splits option.splits prod.splits ret.splits)

lemma activate_bat_frame:
  assumes "activate_base_address_table m r = Some (m', r')" "bsg_hw (ms_bat m') = Some (p, gid_of (subgroupID m), sgid_of (subgroupID m))"
    "(g', s') \<noteq> (gid_of (subgroupID m), sgid_of (subgroupID m))"
  shows "bat_entry r' (g', s', k) = bat_entry r (g', s', k)"
proof -
  from assms(1) obtain rc sg r1 sg1 where 1: "Kernel_AllocateBaseAddressTable (subgroupID m) (batids m) True (ms_bat m) r = Some (rc, sg, r1)"
    "set_bases 0 (batvalues m) (sg, r1) = Some (sg1, r')" "m' = m\<lparr>ms_bat := sg1\<rparr>"
    by (auto simp: activate_base_address_table_def split: option.splits)
  with set_bases_frame[OF 1(2)] assms(2,3) alloc_bat_entries[OF 1(1) assms(3)] show ?thesis by simp
qed

definition sub_set :: "nat \<Rightarrow> mu_subgroup \<Rightarrow> bool" where
  "sub_set i m \<longleftrightarrow> bat_cfg m \<and> bat_ready m \<and> subgroupID m = init_subgroup_id i"

definition bats_free :: "mu_regs \<Rightarrow> nat \<Rightarrow> bool" where
  "bats_free r i \<longleftrightarrow> (\<forall>k < 8. bat_entry r (gid_of (init_subgroup_id i), sgid_of (init_subgroup_id i), k) = BAT_FREE)"

lemma init_subgroup_total:
  assumes "alloc_good alloc" "sizes_ok b" "length (clean_table (md_cleanup md)) < 25" "bats_free (md_regs md) i"
  shows "\<exists>r cl m regs. init_subgroup b alloc ctx starts i md = Some (True, md\<lparr>md_cleanup := cl, md_submem := (md_submem md)(i := r),
        md_sub := (md_sub md)(i := m), md_regs := regs\<rparr>) \<and>
      clean_table cl = clean_table (md_cleanup md) @ [entry r None CF_free_MU_subgroup_mem] \<and> sub_set i m \<and>
      imu_start regs = imu_start (md_regs md) \<and> rmu_start regs = rmu_start (md_regs md) \<and>
      (\<forall>j. init_subgroup_id j \<noteq> init_subgroup_id i \<longrightarrow> bats_free regs j = bats_free (md_regs md) j)"
proof -
  have "unat (sizeof_subgroup b) < 2 ^ 40" using assms(2) by (auto simp: sizes_ok_def)
  from alloc_good_object[OF assms(1) this assms(3), of None CF_free_MU_subgroup_mem] obtain r cl where
    a: "alloc_object alloc (sizeof_subgroup b) None CF_free_MU_subgroup_mem (md_cleanup md) = (Inr r, cl)"
      "clean_table cl = clean_table (md_cleanup md) @ [entry r None CF_free_MU_subgroup_mem]" by blast
  let ?m = "zero_subgroup\<lparr>subgroupID := init_subgroup_id i, batids := [0..<NUM_DATA_COUNTERS_PER_SUBGROUP],
      batvalues := bat_values (base_paddr ctx) (base_vaddr ctx) (starts ! i)\<rparr>"
  have c: "bat_cfg ?m" by (simp add: bat_cfg_def init_subgroup_id_def bat_values_def mu_numbers)
  have id: "subgroupID ?m = init_subgroup_id i" by simp
  have "\<forall>k < 8. bat_entry (md_regs md) (gid_of (subgroupID ?m), sgid_of (subgroupID ?m), k) = BAT_FREE"
    using assms(4) by (simp add: bats_free_def)
  from activate_bat_total[OF c disjI2[OF this]] obtain sg regs where
    2: "activate_base_address_table ?m (md_regs md) = Some (?m\<lparr>ms_bat := sg\<rparr>, regs)" "bat_ready (?m\<lparr>ms_bat := sg\<rparr>)"
      "imu_start regs = imu_start (md_regs md)" "rmu_start regs = rmu_start (md_regs md)" by blast
  have "bats_free regs j = bats_free (md_regs md) j" if "init_subgroup_id j \<noteq> init_subgroup_id i" for j
  proof -
    have "(gid_of (init_subgroup_id j), sgid_of (init_subgroup_id j)) \<noteq> (gid_of (init_subgroup_id i), sgid_of (init_subgroup_id i))"
      using that by (auto simp: init_subgroup_id_def gid_of_def sgid_of_def mu_numbers split: if_splits)
    moreover have "bsg_hw (ms_bat (?m\<lparr>ms_bat := sg\<rparr>)) = Some (True, gid_of (init_subgroup_id i), sgid_of (init_subgroup_id i))"
      using 2(2) by (simp add: bat_ready_def)
    ultimately have "bat_entry regs (gid_of (init_subgroup_id j), sgid_of (init_subgroup_id j), k) =
        bat_entry (md_regs md) (gid_of (init_subgroup_id j), sgid_of (init_subgroup_id j), k)" for k
      using activate_bat_frame[OF 2(1), of True] unfolding id by blast
    then show ?thesis by (simp only: bats_free_def)
  qed
  moreover have "sub_set i (?m\<lparr>ms_bat := sg\<rparr>)" using c 2(2) by (simp add: sub_set_def bat_cfg_def)
  ultimately show ?thesis using a 2 by (simp add: init_subgroup_def) blast
qed

lemma init_subgroups_total:
  assumes "alloc_good alloc" "sizes_ok b" "length (clean_table (md_cleanup md)) + 2 \<le> 25" "\<forall>i < 2. bats_free (md_regs md) i"
  shows "\<exists>cl sm sub regs. run_phases (map (init_subgroup b alloc ctx starts) [0..<NUM_IO_LINKS]) md =
      Some (True, md\<lparr>md_cleanup := cl, md_submem := sm, md_sub := sub, md_regs := regs\<rparr>) \<and>
    clean_table cl = clean_table (md_cleanup md) @ map (\<lambda>i. entry (sm i) None CF_free_MU_subgroup_mem) [0, 1] \<and>
    (\<forall>i < 2. sub_set i (sub i)) \<and> imu_start regs = imu_start (md_regs md) \<and> rmu_start regs = rmu_start (md_regs md)"
proof -
  have u: "[0..<NUM_IO_LINKS] = [0, 1]" by (simp add: NUM_IO_LINKS_def upt_conv_Cons numeral_2_eq_2)
  have l: "length (clean_table (md_cleanup md)) < 25" "bats_free (md_regs md) 0" using assms(3,4) by simp_all
  obtain r0 cl0 m0 regs0 where 0: "init_subgroup b alloc ctx starts 0 md = Some (True, md\<lparr>md_cleanup := cl0, md_submem := (md_submem md)(0 := r0),
        md_sub := (md_sub md)(0 := m0), md_regs := regs0\<rparr>)"
      "clean_table cl0 = clean_table (md_cleanup md) @ [entry r0 None CF_free_MU_subgroup_mem]" "sub_set 0 m0"
      "imu_start regs0 = imu_start (md_regs md)" "rmu_start regs0 = rmu_start (md_regs md)" "bats_free regs0 1 = bats_free (md_regs md) 1"
    using init_subgroup_total[OF assms(1,2) l, of ctx starts] by (auto simp: init_subgroup_id_def)
  let ?md = "md\<lparr>md_cleanup := cl0, md_submem := (md_submem md)(0 := r0), md_sub := (md_sub md)(0 := m0), md_regs := regs0\<rparr>"
  have l1: "length (clean_table (md_cleanup ?md)) < 25" "bats_free (md_regs ?md) 1" using assms(3,4) 0(2,6) by simp_all
  obtain r1 cl1 m1 regs1 where 1: "init_subgroup b alloc ctx starts 1 ?md = Some (True, ?md\<lparr>md_cleanup := cl1, md_submem := (md_submem ?md)(1 := r1),
        md_sub := (md_sub ?md)(1 := m1), md_regs := regs1\<rparr>)"
      "clean_table cl1 = clean_table (md_cleanup ?md) @ [entry r1 None CF_free_MU_subgroup_mem]" "sub_set 1 m1"
      "imu_start regs1 = imu_start (md_regs ?md)" "rmu_start regs1 = rmu_start (md_regs ?md)"
    using init_subgroup_total[OF assms(1,2) l1, of ctx starts] by blast
  let ?sm = "(md_submem md)(0 := r0, 1 := r1)" and ?sub = "(md_sub md)(0 := m0, 1 := m1)"
  have "run_phases (map (init_subgroup b alloc ctx starts) [0..<NUM_IO_LINKS]) md =
      Some (True, md\<lparr>md_cleanup := cl1, md_submem := ?sm, md_sub := ?sub, md_regs := regs1\<rparr>)"
    unfolding u using 0(1) 1(1) by simp
  moreover have "\<forall>i < 2. sub_set i (?sub i)" using 0(3) 1(3) by (auto simp: less_2_cases_iff)
  ultimately show ?thesis using 0 1 by (intro exI[of _ cl1] exI[of _ ?sm] exI[of _ ?sub] exI[of _ regs1]) simp
qed

section \<open>The packets\<close>

lemma init_pools_total:
  assumes "alloc_good alloc" "sizes_ok b" "unat mx < 2 ^ 16" "length (clean_table (md_cleanup md)) + 12 \<le> 25"
  shows "\<exists>cl p s. run_phases (map (init_packets b alloc mx) [0..<NUM_IO_LINKS] @ map (init_smallpa b alloc mx) [0..<NUM_IO_LINKS]) md =
      Some (True, md\<lparr>md_cleanup := cl, md_mc := (md_mc md)\<lparr>packetcontrols := p, smallpa_obj_ctls := s\<rparr>\<rparr>) \<and>
    plain_grow 12 (md_cleanup md) cl \<and>
    (\<forall>i < 2. pkt_rep (p i) [0..<Suc (unat mx)] [] \<and> pkt_rep (s i) [0..<Suc (unat mx)] [])"
proof -
  have u: "[0..<NUM_IO_LINKS] = [0, 1]" by (simp add: NUM_IO_LINKS_def upt_conv_Cons numeral_2_eq_2)
  have step: "\<exists>pc cl'. init_pool b alloc mx sz cl = Some (pc, cl') \<and> pkt_rep pc [0..<Suc (unat mx)] [] \<and>
      plain_grow (k + 3) (md_cleanup md) cl'"
    if "plain_grow k (md_cleanup md) cl" "k \<le> 9" "sz \<in> {64, 512}" for k cl sz
  proof -
    have "length (clean_table cl) + 3 \<le> 25" using plain_grow_length[OF that(1)] that(2) assms(4) by simp
    from init_pool_total[OF assms(1-3) that(3) this] plain_grow_trans[OF that(1)] show ?thesis by blast
  qed
  obtain p0 c0 where 0: "init_pool b alloc mx 512 (md_cleanup md) = Some (p0, c0)" "pkt_rep p0 [0..<Suc (unat mx)] []" "plain_grow 3 (md_cleanup md) c0"
    using step[OF plain_grow_0, of 512] by (auto simp del: upt_Suc)
  obtain p1 c1 where 1: "init_pool b alloc mx 512 c0 = Some (p1, c1)" "pkt_rep p1 [0..<Suc (unat mx)] []" "plain_grow 6 (md_cleanup md) c1"
    using step[OF 0(3), of 512] by (auto simp del: upt_Suc)
  obtain s0 c2 where 2: "init_pool b alloc mx 64 c1 = Some (s0, c2)" "pkt_rep s0 [0..<Suc (unat mx)] []" "plain_grow 9 (md_cleanup md) c2"
    using step[OF 1(3), of 64] by (auto simp del: upt_Suc)
  obtain s1 c3 where 3: "init_pool b alloc mx 64 c2 = Some (s1, c3)" "pkt_rep s1 [0..<Suc (unat mx)] []" "plain_grow 12 (md_cleanup md) c3"
    using step[OF 2(3), of 64] by (auto simp del: upt_Suc)
  let ?p = "(packetcontrols (md_mc md))(0 := p0, 1 := p1)" and ?s = "(smallpa_obj_ctls (md_mc md))(0 := s0, 1 := s1)"
  have "run_phases (map (init_packets b alloc mx) [0..<NUM_IO_LINKS] @ map (init_smallpa b alloc mx) [0..<NUM_IO_LINKS]) md =
      Some (True, md\<lparr>md_cleanup := c3, md_mc := (md_mc md)\<lparr>packetcontrols := ?p, smallpa_obj_ctls := ?s\<rparr>\<rparr>)"
    unfolding u using 0(1) 1(1) 2(1) 3(1) by (simp add: init_packets_def init_smallpa_def)
  moreover have "\<forall>i < 2. pkt_rep (?p i) [0..<Suc (unat mx)] [] \<and> pkt_rep (?s i) [0..<Suc (unat mx)] []"
    using 0(2) 1(2) 2(2) 3(2) by (auto simp: less_2_cases_iff simp del: upt_Suc)
  ultimately show ?thesis using 3(3) by blast
qed

section \<open>The FIFOs\<close>

definition inj_slots :: "u32 \<Rightarrow> nat" where "inj_slots mx = (if unat mx < 128 then 512 else 4 * unat mx)"

definition rec_bytes :: "u32 \<Rightarrow> nat" where "rec_bytes mx = (if unat mx \<le> 16 then 34816 else 2176 * unat mx)"

lemma sint_small:
  assumes "unat (x :: u32) < 2 ^ 31"
  shows "sint x = int (unat x)"
proof -
  have "uint x < 2 ^ 31" using assms of_nat_less_iff[of "unat x" "2 ^ 31", where ?'a = int] by simp
  moreover have "0 \<le> uint x" by simp
  ultimately have "signed_take_bit 31 (uint x) = uint x" by (intro signed_take_bit_int_eq_self) linarith+
  with sint_uint[of x] show ?thesis by simp
qed

lemma scast_small:
  assumes "unat (x :: u32) < 2 ^ 31"
  shows "unat (scast x :: u64) = unat x"
proof -
  have "unat x < 2 ^ 64" using assms by simp
  then show ?thesis unfolding scast_eq sint_small[OF assms] of_int_of_nat_eq by (rule unat_of_nat_u64)
qed

lemma inj_region_length:
  assumes "unat mx < 2 ^ 16"
  shows "unat (scast (inj_region_size mx) :: u64) = 64 * inj_slots mx"
proof -
  have p: "unat (64 * mx * 4) = 256 * unat mx" using assms by (simp add: unat_word_ariths(2))
  note s = sint_small scast_small
  have "uint mx < 128 \<longleftrightarrow> unat mx < 128" using of_nat_less_iff[of "unat mx" 128, where ?'a = int] by simp
  then show ?thesis using p s[of "64 * mx * 4"] assms
    by (auto simp: inj_region_size_def Let_def inj_slots_def)
qed

lemma rec_region_length:
  assumes "unat mx < 2 ^ 16"
  shows "unat (scast (rec_region_size mx) :: u64) = rec_bytes mx"
proof -
  have p: "unat (TORUS_PACKET_SIZE * mx * 4) = 2176 * unat mx" using assms by (simp add: unat_word_ariths(2) TORUS_PACKET_SIZE_def)
  show ?thesis using p scast_small[of "TORUS_PACKET_SIZE * mx * 4"] scast_small[of "TORUS_PACKET_SIZE * 64"] assms
    by (auto simp: rec_region_size_def rec_bytes_def TORUS_PACKET_SIZE_def word_le_nat_alt)
qed

definition inj_set :: "nat \<Rightarrow> nat \<Rightarrow> mu_subgroup \<Rightarrow> bool" where
  "inj_set n i m \<longleftrightarrow> sub_set i m \<and> inj_region_ok n (injRegion m) \<and> ififoid m = 0 \<and> isg_status (ms_inj m) \<noteq> None \<and>
     isg_id (ms_inj m) = subgroupID m \<and> inj_inv n (isg_fifos (ms_inj m) 0) \<and> inj_log (isg_fifos (ms_inj m) 0) = []"

definition rec_set :: "nat \<Rightarrow> mu_subgroup \<Rightarrow> bool" where
  "rec_set sz m \<longleftrightarrow> rec_region_ok sz (recRegion m) \<and> rfifoids m = 0 \<and> rsg_id (ms_rec m) = subgroupID m \<and>
     rec_at sz 0 [] (rsg_fifos (ms_rec m) 0)"

lemma activate_injfifos_held:
  "activate_injfifos p h m r = Some (RetOK, m', r') \<Longrightarrow> isg_status (ms_inj m') \<noteq> None \<and> isg_id (ms_inj m') = subgroupID m"
  by (auto simp: activate_injfifos_def Let_def Kernel_AllocateInjFifos_def Kernel_InjFifoInit_def Kernel_InjFifoActivate_def
      alloc_inj_subgroup_def split: if_splits option.splits prod.splits ret.splits)

lemma activate_recfifos_held:
  "activate_recfifos m r = Some (RetOK, m', r') \<Longrightarrow> rsg_id (ms_rec m') = subgroupID m"
  by (auto simp: activate_recfifos_def Let_def Kernel_AllocateRecFifos_def Kernel_RecFifoInit_def
      split: if_splits option.splits prod.splits ret.splits)

lemma init_inj_total:
  assumes "alloc_good alloc" "unat mx < 2 ^ 16" "length (clean_table (md_cleanup md)) < 25" "sub_set i (md_sub md i)"
    "\<not> inj_used (md_regs md) (init_subgroup_id i) 0"
  shows "\<exists>cl m regs. init_inj e alloc mx i md = Some (True, md\<lparr>md_cleanup := cl, md_sub := (md_sub md)(i := m), md_regs := regs\<rparr>) \<and>
    clean_table cl = clean_table (md_cleanup md) @ [entry (injRegion m) (Some i) CF_free_MU_inj_region] \<and> inj_set (inj_slots mx) i m \<and>
    (\<forall>t j. inj_used regs t j \<longleftrightarrow> inj_used (md_regs md) t j \<or> t = init_subgroup_id i \<and> j = 0) \<and> rmu_start regs = rmu_start (md_regs md)"
proof -
  note len = inj_region_length[OF assms(2)]
  have "unat (scast (inj_region_size mx) :: u64) < 2 ^ 40" unfolding len using assms(2) by (simp add: inj_slots_def)
  from alloc_good_object[OF assms(1) this assms(3), of "Some i" CF_free_MU_inj_region] obtain r cl where
    a: "alloc_object alloc (scast (inj_region_size mx)) (Some i) CF_free_MU_inj_region (md_cleanup md) = (Inr r, cl)"
      "clean_table cl = clean_table (md_cleanup md) @ [entry r (Some i) CF_free_MU_inj_region]"
      "region_good (scast (inj_region_size mx)) r" by blast
  let ?m = "(md_sub md i)\<lparr>injRegion := r\<rparr>"
  have g: "inj_region_ok (inj_slots mx) (injRegion ?m)" using a(3) len by (auto simp: inj_region_ok_def region_good_def inj_slots_def)
  have id: "subgroupID ?m = init_subgroup_id i" "subgroupID ?m < 68" using assms(4) by (auto simp: sub_set_def bat_cfg_def)
  from activate_injfifos_fresh[OF g id(2), of "md_regs md" "env_prio e" "env_free e i"] assms(5) id(1) obtain m' r' where
    b: "activate_injfifos (env_prio e) (env_free e i) ?m (md_regs md) = Some (RetOK, m', r')" "m' = ?m\<lparr>ififoid := 0, ms_inj := ms_inj m'\<rparr>"
      "inj_inv (inj_slots mx) (isg_fifos (ms_inj m') 0)" "inj_log (isg_fifos (ms_inj m') 0) = []"
      "\<forall>t j. inj_used r' t j \<longleftrightarrow> inj_used (md_regs md) t j \<or> t = subgroupID ?m \<and> j = 0" "rmu_start r' = rmu_start (md_regs md)" by auto
  obtain sg where m': "m' = ?m\<lparr>ififoid := 0, ms_inj := sg\<rparr>" using b(2) by blast
  have "inj_set (inj_slots mx) i m'" using b(3,4) g assms(4) activate_injfifos_held[OF b(1)]
    by (simp add: m' inj_set_def sub_set_def bat_cfg_def bat_ready_def)
  moreover have "injRegion m' = r" by (simp add: m')
  ultimately show ?thesis using a(1,2) b(1,5,6) id(1)
    by (intro exI[of _ cl] exI[of _ m'] exI[of _ r']) (simp add: init_inj_def)
qed

lemma init_rec_total:
  assumes "alloc_good alloc" "unat mx < 2 ^ 16" "length (clean_table (md_cleanup md)) < 25" "inj_set n i (md_sub md i)"
    "\<not> rec_used (md_regs md) (init_subgroup_id i) 0"
  shows "\<exists>cl m regs. init_rec alloc mx i md = Some (True, md\<lparr>md_cleanup := cl, md_sub := (md_sub md)(i := m), md_regs := regs\<rparr>) \<and>
    clean_table cl = clean_table (md_cleanup md) @ [entry (recRegion m) (Some i) CF_free_recfifo] \<and> inj_set n i m \<and> rec_set (rec_bytes mx) m \<and>
    injRegion m = injRegion (md_sub md i) \<and>
    (\<forall>t j. rec_used regs t j \<longleftrightarrow> rec_used (md_regs md) t j \<or> t = init_subgroup_id i \<and> j = 0) \<and> imu_start regs = imu_start (md_regs md)"
proof -
  note len = rec_region_length[OF assms(2)]
  have "unat (scast (rec_region_size mx) :: u64) < 2 ^ 40" unfolding len using assms(2) by (simp add: rec_bytes_def)
  from alloc_good_object[OF assms(1) this assms(3), of "Some i" CF_free_recfifo] obtain r cl where
    a: "alloc_object alloc (scast (rec_region_size mx)) (Some i) CF_free_recfifo (md_cleanup md) = (Inr r, cl)"
      "clean_table cl = clean_table (md_cleanup md) @ [entry r (Some i) CF_free_recfifo]"
      "region_good (scast (rec_region_size mx)) r" by blast
  let ?m = "(md_sub md i)\<lparr>recRegion := r\<rparr>"
  have "rec_bytes mx mod 32 = 0" "576 \<le> rec_bytes mx" "rec_bytes mx < 2 ^ 32" using assms(2) by (auto simp: rec_bytes_def mod_mult_left_eq)
  moreover have "unat (base_vaddr r) mod 64 = 0" using a(3) by (simp add: region_good_def)
  then have "unat (base_vaddr r) mod 32 = 0" by presburger
  ultimately have g: "rec_region_ok (rec_bytes mx) (recRegion ?m)" using a(3) len by (simp add: rec_region_ok_def region_good_def)
  have id: "subgroupID ?m = init_subgroup_id i" "subgroupID ?m < 68" using assms(4) by (auto simp: inj_set_def sub_set_def bat_cfg_def)
  from activate_recfifos_fresh[OF g id(2), of "md_regs md"] assms(5) id(1) obtain m' r' where
    b: "activate_recfifos ?m (md_regs md) = Some (RetOK, m', r')"
      "m' = ?m\<lparr>rfifoids := 0, ms_rec := ms_rec m', clearInterrupts_mask := clearInterrupts_mask m'\<rparr>"
      "rec_at (rec_bytes mx) 0 [] (rsg_fifos (ms_rec m') 0)"
      "\<forall>t j. rec_used r' t j \<longleftrightarrow> rec_used (md_regs md) t j \<or> t = subgroupID ?m \<and> j = 0" "imu_start r' = imu_start (md_regs md)" by auto
  obtain sg c where m': "m' = ?m\<lparr>rfifoids := 0, ms_rec := sg, clearInterrupts_mask := c\<rparr>" using b(2) by blast
  have "rec_set (rec_bytes mx) m'" using b(3) g activate_recfifos_held[OF b(1)] by (simp add: m' rec_set_def)
  moreover have "inj_set n i m'" using assms(4) by (simp add: m' inj_set_def sub_set_def bat_cfg_def bat_ready_def)
  moreover have "recRegion m' = r" "injRegion m' = injRegion (md_sub md i)" by (simp_all add: m')
  ultimately show ?thesis using a(1,2) b(1,4,5) id(1)
    by (intro exI[of _ cl] exI[of _ m'] exI[of _ r']) (simp add: init_rec_def)
qed

lemma init_fifos_total:
  assumes "alloc_good alloc" "unat mx < 2 ^ 16" "length (clean_table (md_cleanup md)) + 4 \<le> 25" "\<forall>i < 2. sub_set i (md_sub md i)"
    "\<forall>i < 2. \<not> inj_used (md_regs md) (init_subgroup_id i) 0 \<and> \<not> rec_used (md_regs md) (init_subgroup_id i) 0"
  shows "\<exists>cl sub regs. run_phases (map (init_inj e alloc mx) [0..<NUM_IO_LINKS] @ map (init_rec alloc mx) [0..<NUM_IO_LINKS]) md =
      Some (True, md\<lparr>md_cleanup := cl, md_sub := sub, md_regs := regs\<rparr>) \<and>
    clean_table cl = clean_table (md_cleanup md) @ map (\<lambda>i. entry (injRegion (sub i)) (Some i) CF_free_MU_inj_region) [0, 1] @
      map (\<lambda>i. entry (recRegion (sub i)) (Some i) CF_free_recfifo) [0, 1] \<and>
    (\<forall>i < 2. inj_set (inj_slots mx) i (sub i) \<and> rec_set (rec_bytes mx) (sub i)) \<and>
    (\<forall>t j. inj_used regs t j \<longleftrightarrow> inj_used (md_regs md) t j \<or> t \<in> {66, 67} \<and> j = 0) \<and>
    (\<forall>t j. rec_used regs t j \<longleftrightarrow> rec_used (md_regs md) t j \<or> t \<in> {66, 67} \<and> j = 0)"
proof -
  have u: "[0..<NUM_IO_LINKS] = [0, 1]" by (simp add: NUM_IO_LINKS_def upt_conv_Cons numeral_2_eq_2)
  have id: "init_subgroup_id 0 = 66" "init_subgroup_id 1 = 67" by (simp_all add: init_subgroup_id_def)
  let ?n = "inj_slots mx" and ?z = "rec_bytes mx"
  have h: "length (clean_table (md_cleanup md)) < 25" "sub_set 0 (md_sub md 0)" "sub_set 1 (md_sub md 1)" using assms(3,4) by simp_all
  have f: "\<not> inj_used (md_regs md) 66 0" "\<not> inj_used (md_regs md) 67 0" "\<not> rec_used (md_regs md) 66 0" "\<not> rec_used (md_regs md) 67 0"
    using assms(5) id by (metis one_less_numeral_iff semiring_norm(76) zero_less_numeral)+
  obtain c0 m0 r0 where 0: "init_inj e alloc mx 0 md = Some (True, md\<lparr>md_cleanup := c0, md_sub := (md_sub md)(0 := m0), md_regs := r0\<rparr>)"
    "clean_table c0 = clean_table (md_cleanup md) @ [entry (injRegion m0) (Some 0) CF_free_MU_inj_region]" "inj_set ?n 0 m0"
    "\<forall>t j. inj_used r0 t j \<longleftrightarrow> inj_used (md_regs md) t j \<or> t = 66 \<and> j = 0" "rmu_start r0 = rmu_start (md_regs md)"
    using init_inj_total[OF assms(1,2) h(1,2), of e] f(1) id(1) by auto
  let ?md0 = "md\<lparr>md_cleanup := c0, md_sub := (md_sub md)(0 := m0), md_regs := r0\<rparr>"
  have h0: "length (clean_table (md_cleanup ?md0)) < 25" "sub_set 1 (md_sub ?md0 1)" "\<not> inj_used (md_regs ?md0) (init_subgroup_id 1) 0"
    using 0(2,4) h f assms(3) id(2) by simp_all
  obtain c1 m1 r1 where 1: "init_inj e alloc mx 1 ?md0 = Some (True, ?md0\<lparr>md_cleanup := c1, md_sub := (md_sub ?md0)(1 := m1), md_regs := r1\<rparr>)"
    "clean_table c1 = clean_table c0 @ [entry (injRegion m1) (Some 1) CF_free_MU_inj_region]" "inj_set ?n 1 m1"
    "\<forall>t j. inj_used r1 t j \<longleftrightarrow> inj_used r0 t j \<or> t = 67 \<and> j = 0" "rmu_start r1 = rmu_start r0"
    using init_inj_total[OF assms(1,2) h0, of e] id(2) by auto
  let ?md1 = "?md0\<lparr>md_cleanup := c1, md_sub := (md_sub ?md0)(1 := m1), md_regs := r1\<rparr>"
  have ru: "rec_used r1 t j = rec_used (md_regs md) t j" for t j using 0(5) 1(5) by (simp add: rec_used_def)
  have h1: "length (clean_table (md_cleanup ?md1)) < 25" "inj_set ?n 0 (md_sub ?md1 0)" "\<not> rec_used (md_regs ?md1) (init_subgroup_id 0) 0"
    using 0(2,3) 1(2) ru f(3) id(1) assms(3) by simp_all
  obtain c2 m2 r2 where 2: "init_rec alloc mx 0 ?md1 = Some (True, ?md1\<lparr>md_cleanup := c2, md_sub := (md_sub ?md1)(0 := m2), md_regs := r2\<rparr>)"
    "clean_table c2 = clean_table c1 @ [entry (recRegion m2) (Some 0) CF_free_recfifo]" "inj_set ?n 0 m2" "rec_set ?z m2"
    "injRegion m2 = injRegion m0" "\<forall>t j. rec_used r2 t j \<longleftrightarrow> rec_used r1 t j \<or> t = 66 \<and> j = 0" "imu_start r2 = imu_start r1"
    using init_rec_total[OF assms(1,2) h1] id(1) by auto
  let ?md2 = "?md1\<lparr>md_cleanup := c2, md_sub := (md_sub ?md1)(0 := m2), md_regs := r2\<rparr>"
  have h2: "length (clean_table (md_cleanup ?md2)) < 25" "inj_set ?n 1 (md_sub ?md2 1)" "\<not> rec_used (md_regs ?md2) (init_subgroup_id 1) 0"
    using 0(2) 1(2,3) 2(2,6) ru f(4) id(2) assms(3) by simp_all
  obtain c3 m3 r3 where 3: "init_rec alloc mx 1 ?md2 = Some (True, ?md2\<lparr>md_cleanup := c3, md_sub := (md_sub ?md2)(1 := m3), md_regs := r3\<rparr>)"
    "clean_table c3 = clean_table c2 @ [entry (recRegion m3) (Some 1) CF_free_recfifo]" "inj_set ?n 1 m3" "rec_set ?z m3"
    "injRegion m3 = injRegion m1" "\<forall>t j. rec_used r3 t j \<longleftrightarrow> rec_used r2 t j \<or> t = 67 \<and> j = 0" "imu_start r3 = imu_start r2"
    using init_rec_total[OF assms(1,2) h2] id(2) by auto
  let ?sub = "(md_sub md)(0 := m2, 1 := m3)"
  have "run_phases (map (init_inj e alloc mx) [0..<NUM_IO_LINKS] @ map (init_rec alloc mx) [0..<NUM_IO_LINKS]) md =
      Some (True, md\<lparr>md_cleanup := c3, md_sub := ?sub, md_regs := r3\<rparr>)"
    unfolding u using 0(1) 1(1) 2(1) 3(1) by (simp add: fun_upd_twist)
  moreover have "\<forall>i < 2. inj_set ?n i (?sub i) \<and> rec_set ?z (?sub i)" using 2(3,4) 3(3,4) by (auto simp: less_2_cases_iff)
  moreover have "inj_used r3 t j \<longleftrightarrow> inj_used r1 t j" for t j using 2(7) 3(7) by (simp add: inj_used_def)
  ultimately show ?thesis using 0(2,4) 1(2,4) 2(2,5,6) 3(2,5,6) ru
    by (intro exI[of _ c3] exI[of _ ?sub] exI[of _ r3]) auto
qed

end
