(* ===== verification/Mudm_Ready.thy ===== *)
theory Mudm_Ready
  imports Mudm_Init
begin

text \<open>
  What \<^verbatim>\<open>mudm_init\<close> leaves: the state on which the theorems about the pools, the connection lists, the
  FIFOs, the reset and the termination start; and its composition with \<^verbatim>\<open>mudm_terminate\<close>.
\<close>

section \<open>The connections\<close>

lemma conn_list_init_more:
  assumes "conn_list_init alloc sz n cl ct = Some (RetOK, cl', ct')"
  shows "conn_table.more ct' = conn_table.more ct"
proof -
  have "conn_table.more (fold conn_list_entry xs t) = conn_table.more t" for xs and t :: "'a conn_table_scheme"
    by (induction xs arbitrary: t) (simp_all add: conn_list_entry_def)
  with assms show ?thesis by (auto simp: conn_list_init_def Let_def split: prod.splits sum.splits if_splits)
qed

lemma my_context_extends:
  assumes "conn_table.more mc' = conn_table.more (mc :: my_context)"
  shows "mmagic mc' = mmagic mc" "injfifo_ctls mc' = injfifo_ctls mc" "packetcontrols mc' = packetcontrols mc"
    "smallpa_obj_ctls mc' = smallpa_obj_ctls mc" "rdma_obj_ctls mc' = rdma_obj_ctls mc" "link_BlockID mc' = link_BlockID mc"
    "link4reset mc' = link4reset mc" "StuckState mc' = StuckState mc" "notice_sources mc' = notice_sources mc"
  using assms by (cases mc; cases mc'; simp)+

lemma conn_list_init_total:
  assumes "alloc_good alloc" "unat sz < 2 ^ 16" "0 < n" "n < 2 ^ 16" "length (clean_table cl) < 25"
  shows "\<exists>cl' mc'. conn_list_init alloc sz n cl mc = Some (RetOK, cl', mc') \<and> plain_grow 1 cl cl'"
proof -
  have n: "unat (of_nat n :: u64) \<le> 2 ^ 16" using assms(4) unat_of_nat_u64[of n] by simp
  have z: "unat sz \<le> 2 ^ 16" using assms(2) by simp
  have "unat (of_nat n * sz) < 2 ^ 40" using unat_mult_bound(1)[OF n z] by simp
  from alloc_good_plain[OF assms(1) this assms(5)] obtain r cl' where
    "alloc_object alloc (of_nat n * sz) None CF_free_mem cl = (Inr r, cl')" "plain_grow 1 cl cl'" by blast
  then show ?thesis using assms(3) by (auto simp: conn_list_init_def Let_def)
qed

section \<open>Everything together\<close>

text \<open>The clean-up table the initialisation leaves: 22 of the 25 entries.\<close>

definition boot_table :: "mudm_state \<Rightarrow> bool" where
  "boot_table md \<longleftrightarrow> (\<exists>ctx rs ps. length rs = 2 \<and> length ps = 12 \<and> (\<exists>c.
     clean_table (md_cleanup md) = map (\<lambda>r. entry r None CF_free_mem) (ctx # rs) @
       map (\<lambda>i. entry (md_submem md i) None CF_free_MU_subgroup_mem) [0, 1] @ map (\<lambda>r. entry r None CF_free_mem) ps @
       map (\<lambda>i. entry (injRegion (md_sub md i)) (Some i) CF_free_MU_inj_region) [0, 1] @
       map (\<lambda>i. entry (recRegion (md_sub md i)) (Some i) CF_free_recfifo) [0, 1] @ [entry c None CF_free_mem]))"

text \<open>
  The state a started data mover is in: the link and pool invariants the other theories assume, with everything free.
\<close>

definition all_free :: "u32 \<Rightarrow> my_context \<Rightarrow> nat \<Rightarrow> pool_lists" where
  "all_free mx mc i = (([0..<Suc (unat mx)], []), ([0..<Suc (unat mx)], []), ([0..<num_obj (rdma_obj_ctls mc i)], []))"

definition link_up :: "u32 \<Rightarrow> mudm_state \<Rightarrow> nat \<Rightarrow> bool" where
  "link_up mx md i \<longleftrightarrow> link_pools (md_mc md) i (all_free mx (md_mc md) i) \<and>
     link_ready (inj_slots mx) (rec_bytes mx) (md_sub md i) \<and> link_held (md_sub md i) \<and>
     link_fresh (inj_slots mx) (rec_bytes mx) i md \<and> subgroupID (md_sub md i) = init_subgroup_id i \<and>
     ififoid (md_sub md i) = 0 \<and> rfifoids (md_sub md i) = 0"

definition mudm_up :: "u32 \<Rightarrow> mudm_state \<Rightarrow> bool" where
  "mudm_up mx md \<longleftrightarrow> mmagic (md_mc md) = MUDM_MAGIC \<and> md_running md \<and>
     conn_rep (md_mc md) ((\<lambda>_. [])(LFree := [0..<unat mx])) \<and> (\<forall>i < 2. link_up mx md i) \<and> boot_table md"

definition mu_idle :: "mu_regs \<Rightarrow> bool" where
  "mu_idle r \<longleftrightarrow> (\<forall>i < 2. bats_free r i \<and> \<not> inj_used r (init_subgroup_id i) 0 \<and> \<not> rec_used r (init_subgroup_id i) 0)"

definition fifos_taken :: "mu_regs \<Rightarrow> mu_regs \<Rightarrow> bool" where
  "fifos_taken r r' \<longleftrightarrow> (\<forall>t j. (inj_used r' t j \<longleftrightarrow> inj_used r t j \<or> t \<in> {66, 67} \<and> j = 0) \<and>
     (rec_used r' t j \<longleftrightarrow> rec_used r t j \<or> t \<in> {66, 67} \<and> j = 0))"

lemma init_phases_total:
  assumes a: "alloc_good alloc" "sizes_ok b" "unat mx < 2 ^ 16" and t: "length (clean_table (md_cleanup md)) = 3" and r: "mu_idle (md_regs md)"
  shows "\<exists>cl sm sub regs p s ps. run_phases (init_phases b e alloc mx ctx starts) md =
      Some (True, md\<lparr>md_cleanup := cl, md_submem := sm, md_sub := sub, md_regs := regs,
        md_mc := (md_mc md)\<lparr>packetcontrols := p, smallpa_obj_ctls := s\<rparr>\<rparr>) \<and>
    clean_table cl = clean_table (md_cleanup md) @ map (\<lambda>i. entry (sm i) None CF_free_MU_subgroup_mem) [0, 1] @
      map (\<lambda>r. entry r None CF_free_mem) ps @ map (\<lambda>i. entry (injRegion (sub i)) (Some i) CF_free_MU_inj_region) [0, 1] @
      map (\<lambda>i. entry (recRegion (sub i)) (Some i) CF_free_recfifo) [0, 1] \<and> length ps = 12 \<and>
    (\<forall>i < 2. inj_set (inj_slots mx) i (sub i) \<and> rec_set (rec_bytes mx) (sub i)) \<and>
    (\<forall>i < 2. pkt_rep (p i) [0..<Suc (unat mx)] [] \<and> pkt_rep (s i) [0..<Suc (unat mx)] []) \<and> fifos_taken (md_regs md) regs"
proof -
  have t1: "length (clean_table (md_cleanup md)) + 2 \<le> 25" "\<forall>i < 2. bats_free (md_regs md) i" using t r by (simp_all add: mu_idle_def)
  from init_subgroups_total[OF a(1,2) t1, of ctx starts] obtain c1 sm sub1 r1 where
    1: "run_phases (map (init_subgroup b alloc ctx starts) [0..<NUM_IO_LINKS]) md =
      Some (True, md\<lparr>md_cleanup := c1, md_submem := sm, md_sub := sub1, md_regs := r1\<rparr>)" (is "_ = Some (True, ?md1)")
    "clean_table c1 = clean_table (md_cleanup md) @ map (\<lambda>i. entry (sm i) None CF_free_MU_subgroup_mem) [0, 1]"
    "\<forall>i < 2. sub_set i (sub1 i)" "imu_start r1 = imu_start (md_regs md)" "rmu_start r1 = rmu_start (md_regs md)" by blast
  have t2: "length (clean_table (md_cleanup ?md1)) + 12 \<le> 25" using 1(2) t by simp
  from init_pools_total[OF a t2] obtain c2 p s where
    2: "run_phases (map (init_packets b alloc mx) [0..<NUM_IO_LINKS] @ map (init_smallpa b alloc mx) [0..<NUM_IO_LINKS]) ?md1 =
      Some (True, ?md1\<lparr>md_cleanup := c2, md_mc := (md_mc ?md1)\<lparr>packetcontrols := p, smallpa_obj_ctls := s\<rparr>\<rparr>)" (is "_ = Some (True, ?md2)")
    "plain_grow 12 (md_cleanup ?md1) c2"
    "\<forall>i < 2. pkt_rep (p i) [0..<Suc (unat mx)] [] \<and> pkt_rep (s i) [0..<Suc (unat mx)] []" by blast
  from 2(2) obtain ps where ps: "length ps = 12" "clean_table c2 = clean_table c1 @ map (\<lambda>r. entry r None CF_free_mem) ps"
    by (auto simp: plain_grow_def)
  have u: "inj_used r1 t j = inj_used (md_regs md) t j" "rec_used r1 t j = rec_used (md_regs md) t j" for t j
    using 1(4,5) by (simp_all add: inj_used_def rec_used_def)
  have e2: "md_cleanup ?md2 = c2" "md_sub ?md2 = sub1" "md_regs ?md2 = r1" by simp_all
  have t3: "length (clean_table (md_cleanup ?md2)) + 4 \<le> 25" unfolding e2 ps(2) 1(2) using ps(1) t by simp
  have t4: "\<forall>i < 2. sub_set i (md_sub ?md2 i)" unfolding e2 by (rule 1(3))
  have "\<forall>i < 2. \<not> inj_used r1 (init_subgroup_id i) 0 \<and> \<not> rec_used r1 (init_subgroup_id i) 0"
    using r by (simp add: mu_idle_def u)
  then have t5: "\<forall>i < 2. \<not> inj_used (md_regs ?md2) (init_subgroup_id i) 0 \<and> \<not> rec_used (md_regs ?md2) (init_subgroup_id i) 0"
    by (simp only: e2)
  from init_fifos_total[OF a(1,3) t3 t4 t5, of e] obtain c3 sub r3 where
    3: "run_phases (map (init_inj e alloc mx) [0..<NUM_IO_LINKS] @ map (init_rec alloc mx) [0..<NUM_IO_LINKS]) ?md2 =
      Some (True, ?md2\<lparr>md_cleanup := c3, md_sub := sub, md_regs := r3\<rparr>)"
    "clean_table c3 = clean_table (md_cleanup ?md2) @ map (\<lambda>i. entry (injRegion (sub i)) (Some i) CF_free_MU_inj_region) [0, 1] @
      map (\<lambda>i. entry (recRegion (sub i)) (Some i) CF_free_recfifo) [0, 1]"
    "\<forall>i < 2. inj_set (inj_slots mx) i (sub i) \<and> rec_set (rec_bytes mx) (sub i)"
    "\<forall>t j. inj_used r3 t j \<longleftrightarrow> inj_used (md_regs ?md2) t j \<or> t \<in> {66, 67} \<and> j = 0"
    "\<forall>t j. rec_used r3 t j \<longleftrightarrow> rec_used (md_regs ?md2) t j \<or> t \<in> {66, 67} \<and> j = 0" by (elim exE conjE) (rule that)
  have "init_phases b e alloc mx ctx starts = map (init_subgroup b alloc ctx starts) [0..<NUM_IO_LINKS] @
      (map (init_packets b alloc mx) [0..<NUM_IO_LINKS] @ map (init_smallpa b alloc mx) [0..<NUM_IO_LINKS]) @
      (map (init_inj e alloc mx) [0..<NUM_IO_LINKS] @ map (init_rec alloc mx) [0..<NUM_IO_LINKS])" by (simp add: init_phases_def)
  then have "run_phases (init_phases b e alloc mx ctx starts) md = Some (True, ?md2\<lparr>md_cleanup := c3, md_sub := sub, md_regs := r3\<rparr>)"
    by (simp only: run_phases_append[OF 1(1)] run_phases_append[OF 2(1)] 3(1))
  moreover have "fifos_taken (md_regs md) r3"
  proof -
    have "inj_used r3 t j \<longleftrightarrow> inj_used (md_regs md) t j \<or> t \<in> {66, 67} \<and> j = 0"
      "rec_used r3 t j \<longleftrightarrow> rec_used (md_regs md) t j \<or> t \<in> {66, 67} \<and> j = 0" for t j
      using 3(4,5) by (simp_all only: e2 u)
    then show ?thesis by (simp only: fifos_taken_def simp_thms)
  qed
  moreover have "?md2\<lparr>md_cleanup := c3, md_sub := sub, md_regs := r3\<rparr> = md\<lparr>md_cleanup := c3, md_submem := sm, md_sub := sub, md_regs := r3,
      md_mc := (md_mc md)\<lparr>packetcontrols := p, smallpa_obj_ctls := s\<rparr>\<rparr>" by simp
  moreover have "clean_table c3 = clean_table (md_cleanup md) @ map (\<lambda>i. entry (sm i) None CF_free_MU_subgroup_mem) [0, 1] @
      map (\<lambda>r. entry r None CF_free_mem) ps @ map (\<lambda>i. entry (injRegion (sub i)) (Some i) CF_free_MU_inj_region) [0, 1] @
      map (\<lambda>i. entry (recRegion (sub i)) (Some i) CF_free_recfifo) [0, 1]" unfolding 3(2) e2 ps(2) 1(2) by (simp only: append_assoc)
  ultimately show ?thesis using ps(1) 2(3) 3(3)
    by (intro exI[of _ c3] exI[of _ sm] exI[of _ sub] exI[of _ r3] exI[of _ p] exI[of _ s] exI[of _ ps]) (intro conjI; simp only:)
qed

text \<open>The last loop.\<close>

lemma init_links:
  "fold init_link [0..<NUM_IO_LINKS] md = md\<lparr>md_active := (md_active md)(0 := True, 1 := True), md_mc := (md_mc md)
     \<lparr>sys_rec_fifo_id := (sys_rec_fifo_id (md_mc md))(0 := 264, 1 := 268),
      injfifo_ctls := (injfifo_ctls (md_mc md))
        (0 := (injfifo_ctls (md_mc md) 0)\<lparr>injfifo := isg_fifos (ms_inj (md_sub md 0)) 0\<rparr>,
         1 := (injfifo_ctls (md_mc md) 1)\<lparr>injfifo := isg_fifos (ms_inj (md_sub md 1)) 0\<rparr>)\<rparr>\<rparr>"
proof -
  have "[0..<NUM_IO_LINKS] = [0, 1]" by (simp add: NUM_IO_LINKS_def upt_conv_Cons numeral_2_eq_2)
  then show ?thesis by (simp add: init_link_def init_sys_rec_fifo_id_def)
qed

lemma subgroup_up:
  assumes "inj_set n i m" "rec_set sz m"
  shows "link_ready n sz m" "link_held m" "subgroupID m = init_subgroup_id i" "inj_inv n (isg_fifos (ms_inj m) 0)"
    "inj_log (isg_fifos (ms_inj m) 0) = []" "rec_at sz 0 [] (rsg_fifos (ms_rec m) 0)" "ififoid m = 0" "rfifoids m = 0"
  using assms by (auto simp: inj_set_def rec_set_def sub_set_def link_ready_def link_held_def bat_ready_def bat_cfg_def)

lemma init_rest_total:
  assumes a: "alloc_good alloc" "sizes_ok b" "unat mx < 2 ^ 16" "0 < unat mx"
    and t: "clean_table (md_cleanup md) = [entry ctx None CF_free_mem]" and r: "mu_idle (md_regs md)"
    and z: "mmagic (md_mc md) = MUDM_MAGIC" "link_BlockID (md_mc md) = (\<lambda>_. 0)"
  shows "\<exists>md'. init_rest b e alloc mx ctx md = Some (RetOK, md') \<and> mudm_up mx md' \<and> fifos_taken (md_regs md) (md_regs md') \<and>
    md_calls md' = md_calls md \<and> md_freed md' = md_freed md"
proof -
  have "length (clean_table (md_cleanup md)) + 2 \<le> 25" using t by simp
  from init_rdma_total[OF a(1-3) this] obtain starts rcs c0 where
    0: "init_rdma b alloc mx (md_cleanup md) = Some (starts, rcs, c0)" "plain_grow 2 (md_cleanup md) c0"
      "\<forall>j < 2. rdma_rep (rcs ! j) [0..<num_obj (rcs ! j)] []" by blast
  from 0(2) t obtain rs where rs: "length rs = 2" "clean_table c0 = entry ctx None CF_free_mem # map (\<lambda>r. entry r None CF_free_mem) rs"
    by (auto simp: plain_grow_def)
  let ?mc0 = "(md_mc md)\<lparr>rdma_obj_ctls := (\<lambda>i. if i < NUM_IO_LINKS then rcs ! i else zero_rdma_controls)\<rparr>"
  let ?md0 = "md\<lparr>md_cleanup := c0, md_mc := ?mc0\<rparr>"
  have l0: "length (clean_table (md_cleanup ?md0)) = 3" "mu_idle (md_regs ?md0)" using rs r by simp_all
  from init_phases_total[OF a(1-3) l0, of e ctx starts] obtain c1 sm sub regs p s ps where
    1: "run_phases (init_phases b e alloc mx ctx starts) ?md0 = Some (True, ?md0\<lparr>md_cleanup := c1, md_submem := sm, md_sub := sub,
        md_regs := regs, md_mc := (md_mc ?md0)\<lparr>packetcontrols := p, smallpa_obj_ctls := s\<rparr>\<rparr>)"
      "clean_table c1 = clean_table (md_cleanup ?md0) @ map (\<lambda>i. entry (sm i) None CF_free_MU_subgroup_mem) [0, 1] @
        map (\<lambda>r. entry r None CF_free_mem) ps @ map (\<lambda>i. entry (injRegion (sub i)) (Some i) CF_free_MU_inj_region) [0, 1] @
        map (\<lambda>i. entry (recRegion (sub i)) (Some i) CF_free_recfifo) [0, 1]" "length ps = 12"
      "\<forall>i < 2. inj_set (inj_slots mx) i (sub i) \<and> rec_set (rec_bytes mx) (sub i)"
      "\<forall>i < 2. pkt_rep (p i) [0..<Suc (unat mx)] [] \<and> pkt_rep (s i) [0..<Suc (unat mx)] []" "fifos_taken (md_regs ?md0) regs"
    by (elim exE conjE) (rule that)
  let ?mc1 = "?mc0\<lparr>packetcontrols := p, smallpa_obj_ctls := s\<rparr>"
  let ?md1 = "md\<lparr>md_cleanup := c1, md_submem := sm, md_sub := sub, md_regs := regs, md_mc := ?mc1\<rparr>"
  have run1: "run_phases (init_phases b e alloc mx ctx starts) ?md0 = Some (True, ?md1)" using 1(1) by simp
  have "length (clean_table c1) < 25" "unat (sizeof_connection b) < 2 ^ 16" using 1(2,3) rs a(2) by (simp_all add: sizes_ok_def)
  from conn_list_init_total[OF a(1) this(2) a(4,3) this(1), of ?mc1] obtain c2 mc2 where
    2: "conn_list_init alloc (sizeof_connection b) (unat mx) c1 ?mc1 = Some (RetOK, c2, mc2)" "plain_grow 1 c1 c2" by blast
  from 2(2) obtain c where c: "clean_table c2 = clean_table c1 @ [entry c None CF_free_mem]"
    by (auto simp: plain_grow_def length_Suc_conv)
  note mo = my_context_extends[OF conn_list_init_more[OF 2(1)]] and rep = conn_list_init_rep(1)[OF 2(1)]
  let ?md2 = "?md1\<lparr>md_cleanup := c2, md_mc := mc2\<rparr>"
  let ?md' = "(fold init_link [0..<NUM_IO_LINKS] ?md2)\<lparr>md_running := True\<rparr>"
  have R: "init_rest b e alloc mx ctx md = Some (RetOK, ?md')" by (simp add: init_rest_def 0(1) run1 2(1))
  have "conn_rep (md_mc ?md') ((\<lambda>_. [])(LFree := [0..<unat mx]))"
    using rep conn_rep_heads[of "md_mc ?md'" mc2] by (simp add: init_links)
  moreover have "link_up mx ?md' i" if i: "i < 2" for i
  proof -
    have d: "i = 0 \<or> i = 1" using i by auto
    have s: "inj_set (inj_slots mx) i (sub i)" "rec_set (rec_bytes mx) (sub i)" using 1(4) i by simp_all
    have n: "i < NUM_IO_LINKS" using i by (simp add: NUM_IO_LINKS_def)
    have "link_pools (md_mc ?md') i (all_free mx (md_mc ?md') i)" using 1(5) 0(3) i
      by (simp add: link_pools_def all_free_def init_links mo n del: upt_Suc)
    moreover have "link_fresh (inj_slots mx) (rec_bytes mx) i ?md'" using d subgroup_up(4-6)[OF s] z(2)
      by (auto simp: link_fresh_def init_links mo ctl_inv_def ctl_log_def)
    moreover have "md_sub ?md' = sub" by (simp add: init_links)
    ultimately show ?thesis using subgroup_up(1-3,7,8)[OF s] by (simp add: link_up_def)
  qed
  moreover have "boot_table ?md'" using 1(2,3) rs c unfolding boot_table_def
    by (intro exI[of _ ctx] exI[of _ rs] exI[of _ ps] conjI exI[of _ c]) (simp_all add: init_links)
  ultimately have "mudm_up mx ?md'" using z(1) by (simp add: mudm_up_def init_links mo)
  moreover have "fifos_taken (md_regs md) (md_regs ?md')" using 1(6) by (simp add: init_links)
  ultimately show ?thesis using R by (intro exI[of _ ?md']) (simp add: init_links)
qed

section \<open>From start to end\<close>

text \<open>A request the initialisation grants, on a message unit whose two subgroups are idle.\<close>

definition init_ok :: "boot_env \<Rightarrow> mudm_init_info \<Rightarrow> mudm_state \<Rightarrow> bool" where
  "init_ok b ii md0 \<longleftrightarrow> callers_version ii = 4 \<and> has_callbacks ii \<and> (\<exists>alloc. allocate ii = Some alloc \<and> alloc_good alloc) \<and>
     sizes_ok b \<and> unat (req_inbound_connections ii) < 2 ^ 16 \<and> clean_table (md_cleanup md0) = [] \<and> mu_idle (md_regs md0)"

definition granted :: "mudm_init_info \<Rightarrow> u32" where
  "granted ii = (if req_inbound_connections ii < 4 then 4 else req_inbound_connections ii)"

lemma mudm_init_total:
  assumes "init_ok b ii md0"
  shows "\<exists>cfg md. mudm_init b e ii cfg0 md0 = Some (RetOK, cfg, md) \<and> cfg_connections cfg = granted ii \<and>
    mudm_up (granted ii) md \<and> fifos_taken (md_regs md0) (md_regs md) \<and> md_calls md = md_calls md0 \<and> md_freed md = md_freed md0"
proof -
  obtain alloc where h: "callers_version ii = 4" "has_callbacks ii" "allocate ii = Some alloc" "alloc_good alloc" "sizes_ok b"
    "unat (req_inbound_connections ii) < 2 ^ 16" "clean_table (md_cleanup md0) = []" "mu_idle (md_regs md0)"
    using assms by (auto simp: init_ok_def)
  have mx: "unat (granted ii) < 2 ^ 16" "0 < unat (granted ii)" using h(6) by (auto simp: granted_def word_less_nat_alt)
  have "unat (sizeof_context b) < 2 ^ 40" using h(5) by (auto simp: sizes_ok_def)
  then obtain ctx where c: "alloc (alloc_calls (md_cleanup md0)) (sizeof_context b) = Some ctx" using h(4) by (auto simp: alloc_good_def)
  let ?cl = "(md_cleanup md0)\<lparr>alloc_calls := Suc (alloc_calls (md_cleanup md0)), clean_table := [entry ctx None CF_free_mem]\<rparr>"
  let ?md = "md0\<lparr>md_mc := init_context b ii (granted ii) ctx, md_sub := (\<lambda>_. zero_subgroup), md_submem := (\<lambda>_. zero_region),
    md_active := (\<lambda>_. False), md_running := False, md_cleanup := ?cl\<rparr>"
  have ao: "add_object ctx None CF_free_mem ((md_cleanup md0)\<lparr>alloc_calls := Suc (alloc_calls (md_cleanup md0))\<rparr>) = (RetOK, ?cl)"
    using h(7) by (simp add: add_object_def MAX_CLEANUP_ENTRIES_def entry_def)
  have "clean_table (md_cleanup ?md) = [entry ctx None CF_free_mem]" "mu_idle (md_regs ?md)" "mmagic (md_mc ?md) = MUDM_MAGIC"
    "link_BlockID (md_mc ?md) = (\<lambda>_. 0)" using h(8) by (simp_all add: init_context_def zero_context_def)
  from init_rest_total[OF h(4,5) mx this, of e] obtain md' where
    r: "init_rest b e alloc (granted ii) ctx ?md = Some (RetOK, md')" "mudm_up (granted ii) md'" "fifos_taken (md_regs md0) (md_regs md')"
      "md_calls md' = md_calls md0" "md_freed md' = md_freed md0" by auto
  have "mudm_init b e ii cfg0 md0 = Some (RetOK, cfg0\<lparr>mudm_version := 4, mudm_errno := None, num_io_links := of_nat NUM_IO_LINKS,
      cfg_connections := granted ii, wakeupActive := 0\<rparr>, md')"
    using h(1-3) c ao r(1) by (simp add: mudm_init_def MUDM_VERSION_def Let_def granted_def[symmetric])
  with r(2-) show ?thesis by (intro exI[of _ "cfg0\<lparr>mudm_version := 4, mudm_errno := None, num_io_links := of_nat NUM_IO_LINKS,
      cfg_connections := granted ii, wakeupActive := 0\<rparr>"] exI[of _ md']) simp
qed

lemma cleanup_call_entry: "fn \<noteq> CF_null \<Longrightarrow> cleanup_call (entry r a fn) = (fn, r, a)"
  by (simp add: cleanup_call_def entry_def)

lemma boot_table_calls:
  assumes "boot_table md"
  shows "length (clean_table (md_cleanup md)) = 22"
    and "\<forall>en \<in> set (clean_table (md_cleanup md)). cleanup_known (md_submem md) (cleanup_call en)"
    and "(CF_free_MU_inj_region, m, Some i) \<in> cleanup_call ` set (clean_table (md_cleanup md)) \<longleftrightarrow> i < 2 \<and> m = injRegion (md_sub md i)"
    and "(CF_free_recfifo, m, Some i) \<in> cleanup_call ` set (clean_table (md_cleanup md)) \<longleftrightarrow> i < 2 \<and> m = recRegion (md_sub md i)"
proof -
  obtain ctx rs ps c where t: "length rs = 2" "length ps = 12"
    "clean_table (md_cleanup md) = map (\<lambda>r. entry r None CF_free_mem) (ctx # rs) @
       map (\<lambda>i. entry (md_submem md i) None CF_free_MU_subgroup_mem) [0, 1] @ map (\<lambda>r. entry r None CF_free_mem) ps @
       map (\<lambda>i. entry (injRegion (md_sub md i)) (Some i) CF_free_MU_inj_region) [0, 1] @
       map (\<lambda>i. entry (recRegion (md_sub md i)) (Some i) CF_free_recfifo) [0, 1] @ [entry c None CF_free_mem]"
    using assms unfolding boot_table_def by (elim exE conjE) (rule that)
  show "length (clean_table (md_cleanup md)) = 22" unfolding t(3) by (simp add: t(1,2))
  show "\<forall>en \<in> set (clean_table (md_cleanup md)). cleanup_known (md_submem md) (cleanup_call en)"
    unfolding t(3) by (auto simp: cleanup_call_entry intro: exI[of _ 0] exI[of _ "Suc 0"])
  show "(CF_free_MU_inj_region, m, Some i) \<in> cleanup_call ` set (clean_table (md_cleanup md)) \<longleftrightarrow> i < 2 \<and> m = injRegion (md_sub md i)"
    "(CF_free_recfifo, m, Some i) \<in> cleanup_call ` set (clean_table (md_cleanup md)) \<longleftrightarrow> i < 2 \<and> m = recRegion (md_sub md i)"
    unfolding t(3) by (auto simp: cleanup_call_entry image_iff less_2_cases_iff)
qed

lemma boot_freed:
  assumes "mudm_up mx md" and cs: "cs = rev (map cleanup_call (clean_table (md_cleanup md)))"
  shows "inj_freed md cs t j \<longleftrightarrow> t \<in> {66, 67} \<and> j = 0" "rec_freed md cs t j \<longleftrightarrow> t \<in> {66, 67} \<and> j = 0"
proof -
  have b: "boot_table md" and l: "\<And>i. i < 2 \<Longrightarrow> subgroupID (md_sub md i) = init_subgroup_id i \<and> ififoid (md_sub md i) = 0 \<and> rfifoids (md_sub md i) = 0"
    using assms(1) by (auto simp: mudm_up_def link_up_def)
  have s: "set cs = cleanup_call ` set (clean_table (md_cleanup md))" by (simp add: cs)
  have two: "(\<exists>i < 2. t = init_subgroup_id i) \<longleftrightarrow> t \<in> {66, 67}"
    by (auto simp: init_subgroup_id_def less_2_cases_iff)
  have "inj_freed md cs t j \<longleftrightarrow> (\<exists>i < 2. t = subgroupID (md_sub md i) \<and> j = ififoid (md_sub md i))"
    unfolding inj_freed_def s boot_table_calls(3)[OF b] by blast
  also have "\<dots> \<longleftrightarrow> (\<exists>i < 2. t = init_subgroup_id i) \<and> j = 0" using l by auto
  finally show "inj_freed md cs t j \<longleftrightarrow> t \<in> {66, 67} \<and> j = 0" unfolding two .
  have "rec_freed md cs t j \<longleftrightarrow> (\<exists>i < 2. t = subgroupID (md_sub md i) \<and> j = rfifoids (md_sub md i))"
    unfolding rec_freed_def s boot_table_calls(4)[OF b] by blast
  also have "\<dots> \<longleftrightarrow> (\<exists>i < 2. t = init_subgroup_id i) \<and> j = 0" using l by auto
  finally show "rec_freed md cs t j \<longleftrightarrow> t \<in> {66, 67} \<and> j = 0" unfolding two .
qed

lemma mudm_up_terminate:
  assumes u: "mudm_up mx md" and q: "quiet_env e" and r: "mu_idle r" "fifos_taken r (md_regs md)"
  shows "\<exists>md'. mudm_terminate e md = Some (RetOK, md') \<and>
    md_freed md' = md_freed md @ rev (map cleanup_call (clean_table (md_cleanup md))) \<and> md_calls md' = md_calls md \<and>
    (\<forall>t j. (inj_used (md_regs md') t j \<longleftrightarrow> inj_used r t j) \<and> (rec_used (md_regs md') t j \<longleftrightarrow> rec_used r t j))"
proof -
  let ?cs = "rev (map cleanup_call (clean_table (md_cleanup md)))" and ?P = "all_free mx (md_mc md)"
  have m: "mmagic (md_mc md) = MUDM_MAGIC" and c: "conn_rep (md_mc md) ((\<lambda>_. [])(LFree := [0..<unat mx]))" and b: "boot_table md"
    using u by (simp_all add: mudm_up_def)
  have p: "\<forall>i < 2. link_pools (md_mc md) i (?P i) \<and> ((\<lambda>_. [])(LFree := [0..<unat mx])) (LAbort i) = [] \<and> link_held (md_sub md i)"
    using u by (simp add: mudm_up_def link_up_def)
  from mudm_terminate_total[OF m q p c boot_table_calls(2)[OF b] refl] obtain md' where
    1: "mudm_terminate e md = Some (RetOK, md')" "md_freed md' = md_freed md @ ?cs"
      "md_calls md' = md_calls md @ cancelled (md_mc md) 0 (?P 0) @ cancelled (md_mc md) 1 (?P 1)"
      "\<forall>t j. (inj_used (md_regs md') t j \<longleftrightarrow> inj_used (md_regs md) t j \<and> \<not> inj_freed md ?cs t j) \<and>
        (rec_used (md_regs md') t j \<longleftrightarrow> rec_used (md_regs md) t j \<and> \<not> rec_freed md ?cs t j)"
    by (elim exE conjE) (rule that)
  have "cancelled (md_mc md) i (?P i) = []" for i by (simp add: cancelled_def all_free_def)
  moreover have "\<not> inj_used r t 0 \<and> \<not> rec_used r t 0" if "t \<in> {66, 67}" for t
  proof -
    from that obtain i where "i < (2 :: nat)" "t = init_subgroup_id i" unfolding init_subgroup_id_def
      by (metis insertE one_less_numeral_iff semiring_norm(76) singletonD zero_less_numeral zero_neq_one)
    then show ?thesis using r(1) by (simp add: mu_idle_def)
  qed
  moreover note boot_freed[OF u refl]
  ultimately show ?thesis using 1 r(2) unfolding fifos_taken_def by (intro exI[of _ md']) (simp, blast)
qed

section \<open>A second start\<close>

lemma rdma_init_links_length:
  "rdma_init_links alloc sc so rss rcs num off cl = Some (out, cl') \<Longrightarrow> length (clean_table cl') = length (clean_table cl) + length rcs"
proof (induction rcs arbitrary: num off cl out)
  case (Cons rc rcs)
  then show ?case
    by (force split: prod.splits sum.splits dest: alloc_object_Inr)
qed simp

text \<open>\<^verbatim>\<open>num_cleanup_entries\<close> is never set back: with 22 entries there is room for three more.\<close>

lemma init_rest_full:
  assumes "length (clean_table (md_cleanup md)) = 23"
  shows "init_rest b e alloc mx ctx md \<noteq> Some (RetOK, md')"
proof (cases "init_rdma b alloc mx (md_cleanup md)")
  case None
  then show ?thesis by (simp add: init_rest_def)
next
  case (Some out)
  obtain starts rcs cl where o: "out = (starts, rcs, cl)" by (metis prod.exhaust)
  have "length (clean_table cl) = 25"
    using Some assms unfolding o
    by (auto simp: init_rdma_def rdma_init_def NUM_IO_LINKS_def dest!: rdma_init_links_length split: option.splits)
  then obtain md2 where "run_phases (init_phases b e alloc mx ctx starts) (md\<lparr>md_cleanup := cl, md_mc := (md_mc md)
      \<lparr>rdma_obj_ctls := (\<lambda>i. if i < NUM_IO_LINKS then rcs ! i else zero_rdma_controls)\<rparr>\<rparr>) = Some (False, md2)"
    by (auto simp: init_phases_def NUM_IO_LINKS_def numeral_2_eq_2 upt_conv_Cons init_subgroup_def alloc_object_def MAX_CLEANUP_ENTRIES_def)
  with Some show ?thesis by (simp add: init_rest_def o)
qed

lemma quiet_link_cleanup: "quiet_link e i md = Some md' \<Longrightarrow> md_cleanup md' = md_cleanup md"
  by (auto simp: quiet_link_def disable_link_def flush_link_def flush_connections_def Option.bind_eq_Some_conv split: prod.splits)

lemma each_link_cleanup:
  assumes "\<And>i md md'. f i md = Some md' \<Longrightarrow> md_cleanup md' = md_cleanup md"
  shows "each_link c f is md = Some md' \<Longrightarrow> md_cleanup md' = md_cleanup md"
  by (induction "is" arbitrary: md) (auto simp: Option.bind_eq_Some_conv dest: assms split: if_splits)

lemma cleanup_effect_cleanup: "cleanup_effect c md = Some md' \<Longrightarrow> md_cleanup md' = md_cleanup md"
  by (auto simp: cleanup_effect_def split: prod.splits cleanup_fn.splits option.splits)

lemma cleanup_effects_cleanup: "cleanup_effects cs md = Some md' \<Longrightarrow> md_cleanup md' = md_cleanup md"
  by (induction cs arbitrary: md) (auto simp: Option.bind_eq_Some_conv dest: cleanup_effect_cleanup)

lemma mudm_terminate_table:
  assumes "mudm_terminate e md = Some (r, md')"
  shows "length (clean_table (md_cleanup md')) = length (clean_table (md_cleanup md))"
proof (cases "mmagic (md_mc md) = MUDM_MAGIC")
  case False
  then show ?thesis using assms by (simp add: mudm_terminate_def)
next
  case True
  with assms obtain md1 md2 where 1: "quiet_IOlinks e (md\<lparr>md_running := False\<rparr>) = Some md1" "run_cleanup e md1 = Some md2"
    "md' = md2\<lparr>md_mc := (md_mc md2)\<lparr>mmagic := 0\<rparr>\<rparr>" by (auto simp: mudm_terminate_def Option.bind_eq_Some_conv)
  have "md_cleanup md1 = md_cleanup md" using each_link_cleanup[OF quiet_link_cleanup 1(1)[unfolded quiet_IOlinks_def]] by simp
  moreover have "length (clean_table (md_cleanup md2)) = length (clean_table (md_cleanup md1))"
    using 1(2) cleanup_loop_length[of "env_run e" "length (clean_table (md_cleanup md1))" "clean_table (md_cleanup md1)"]
    by (auto simp: run_cleanup_def process_cleanup_table_def case_prod_unfold Let_def dest!: cleanup_effects_cleanup)
  ultimately show ?thesis using 1(3) by simp
qed

section \<open>Properties\<close>

text \<open>For the examples: structures of a few hundred bytes, and an \<^verbatim>\<open>allocate\<close> that gives each call memory of its own.\<close>

definition demo_boot :: boot_env where
  "demo_boot = \<lparr>sizeof_context = 4096, sizeof_subgroup = 1024, sizeof_pkt_controls = 64, sizeof_pkt_descriptor = 128,
     sizeof_rdma_controls = 128, sizeof_rdma_object = 64, sizeof_connection = 640, offset_EINVAL = 8, offset_GOOD = 16,
     stray_links = no_links, stray_descs = (\<lambda>_. zero_pkt_descriptor), stack_region = zero_region\<rparr>"

definition own_alloc :: allocate_cb where
  "own_alloc = (\<lambda>k len. Some \<lparr>region_length = len, base_vaddr = of_nat (4096 + k mod 1024 * 2 ^ 41), base_paddr = 8192\<rparr>)"

definition demo_init :: mudm_init_info where
  "demo_init = \<lparr>callers_version = 4, req_inbound_connections = 2, allocate = Some own_alloc, has_callbacks = True,
     pers_of = \<lparr>UCI = 1, NodeConfig = 0, FreqMHz = 1600, BlockID = 5, NetFlags2 = ND_CN_BRIDGE_PORT_6, Acoord = 1, Bcoord = 2,
       Ccoord = 3, Dcoord = 0, Ecoord = 1, cnBridge_A = 0, cnBridge_B = 0, cnBridge_C = 0, cnBridge_D = 0, cnBridge_E = 0\<rparr>\<rparr>"

definition demo_cfg :: mudm_cfg_info where
  "demo_cfg = \<lparr>mudm_version = 0, mudm_errno = None, cfg_connections = 0, num_io_links = 0, wakeupActive = 0\<rparr>"

definition demo_off :: mudm_state where
  "demo_off = demo_md\<lparr>md_cleanup := demo_cleanup, md_regs := demo_regs\<rparr>"

lemma own_alloc_good: "alloc_good own_alloc"
proof -
  have u: "unat (of_nat (4096 + k mod 1024 * 2 ^ 41) :: u64) = 4096 + k mod 1024 * 2 ^ 41" for k :: nat
  proof -
    have "k mod 1024 \<le> 1023" by simp
    then have "k mod 1024 * 2 ^ 41 \<le> 1023 * 2 ^ 41" by (rule mult_le_mono1)
    then show ?thesis by (intro unat_of_nat_u64) simp
  qed
  have "region_good len \<lparr>region_length = len, base_vaddr = of_nat (4096 + k mod 1024 * 2 ^ 41), base_paddr = 8192\<rparr>"
    if "unat len < 2 ^ 40" for k len
  proof -
    have "4096 + k mod 1024 * 2 ^ 41 = 64 * (64 + k mod 1024 * 2 ^ 35)" by simp
    then have "(4096 + k mod 1024 * 2 ^ 41) mod 64 = (0 :: nat)" by (simp only: mod_mult_self1_is_0)
    moreover have "k mod 1024 \<le> 1023" by simp
    then have "k mod 1024 * 2 ^ 41 \<le> 1023 * 2 ^ 41" by (rule mult_le_mono1)
    then have "4096 + k mod 1024 * 2 ^ 41 + unat len + 544 < 2 ^ 64" using that by simp
    ultimately show ?thesis unfolding region_good_def mem_region.simps u by simp
  qed
  then show ?thesis by (simp add: alloc_good_def own_alloc_def)
qed

lemma demo_init_ok: "init_ok demo_boot demo_init demo_off"
  using own_alloc_good
  by (simp add: init_ok_def demo_init_def sizes_ok_def demo_boot_def demo_off_def mu_idle_def bats_free_def inj_used_def rec_used_def demo_regs_def)

text \<open>
  C5: a start that is granted leaves the data mover in the state the other theorems start from.  With an
  \<^verbatim>\<open>allocate\<close> that gives good memory, on a message unit whose subgroups 66 and 67 are idle, and with an empty clean-up table,
  \<^verbatim>\<open>mudm_init\<close> ends and returns 0; it grants the connections asked for, but at least four; the context has its magic
  number; every connection block is on the free list and on no other; on both links all packets, small
  packets and RDMA objects are free; the injection and the reception FIFO are empty, well formed and
  active, of subgroup 66 and 67, with a base address table that a later reset can activate again;
  the clean-up table has the 22 regions in an order in which they can be released; of the FIFOs of the message unit
  exactly number 0 of the two subgroups has come into use; and no callback was called.
\<close>

theorem mudm_init_establishes:
  assumes "init_ok b ii md0"
  shows "\<exists>cfg md. mudm_init b e ii cfg0 md0 = Some (RetOK, cfg, md) \<and>
    cfg_connections cfg = (if req_inbound_connections ii < 4 then 4 else req_inbound_connections ii) \<and>
    mudm_up (cfg_connections cfg) md \<and> fifos_taken (md_regs md0) (md_regs md) \<and> md_calls md = md_calls md0 \<and> md_freed md = md_freed md0"
proof -
  obtain cfg md where "mudm_init b e ii cfg0 md0 = Some (RetOK, cfg, md)" "cfg_connections cfg = granted ii" "mudm_up (granted ii) md"
    "fifos_taken (md_regs md0) (md_regs md)" "md_calls md = md_calls md0" "md_freed md = md_freed md0"
    using mudm_init_total[OF assms, of e cfg0] by (elim exE conjE) (rule that)
  then show ?thesis by (intro exI[of _ cfg] exI[of _ md]) (simp add: granted_def)
qed

theorem mudm_init_establishes_witness:
  "\<exists>cfg md. mudm_init demo_boot demo_env demo_init demo_cfg demo_off = Some (RetOK, cfg, md) \<and> cfg_connections cfg = 4 \<and>
    mudm_up 4 md \<and> inj_used (md_regs md) 66 0 \<and> \<not> inj_used (md_regs md) 66 1"
proof -
  obtain cfg md where 1: "mudm_init demo_boot demo_env demo_init demo_cfg demo_off = Some (RetOK, cfg, md)"
    "cfg_connections cfg = (if req_inbound_connections demo_init < 4 then 4 else req_inbound_connections demo_init)"
    "mudm_up (cfg_connections cfg) md" "fifos_taken (md_regs demo_off) (md_regs md)"
    using mudm_init_establishes[OF demo_init_ok, of demo_env demo_cfg] by (elim exE conjE) (rule that)
  have "cfg_connections cfg = 4" using 1(2) by (simp add: demo_init_def)
  moreover have "\<not> inj_used (md_regs demo_off) 66 1" by (simp add: demo_off_def inj_used_def demo_regs_def)
  then have "inj_used (md_regs md) 66 0" "\<not> inj_used (md_regs md) 66 1" using 1(4) by (simp_all add: fifos_taken_def)
  ultimately show ?thesis using 1(1,3) by (intro exI[of _ cfg] exI[of _ md]) simp
qed

text \<open>
  C27: starting and terminating the data mover gives back what it took.  After a start that was granted, and with
  callbacks that post nothing, \<^verbatim>\<open>mudm_terminate\<close> ends and returns 0, tells the status callback
  nothing, hands each of the 22 regions to its clean-up function once in the reverse of the order of allocation,
  and exactly those FIFOs of the message unit are in use that were before the start.
\<close>

theorem mudm_init_terminate:
  assumes "init_ok b ii md0" "mudm_init b e ii cfg0 md0 = Some (RetOK, cfg, md)" "quiet_env e'"
  shows "\<exists>md'. mudm_terminate e' md = Some (RetOK, md') \<and> md_calls md' = md_calls md0 \<and>
    md_freed md' = md_freed md0 @ rev (map cleanup_call (clean_table (md_cleanup md))) \<and> length (clean_table (md_cleanup md)) = 22 \<and>
    (\<forall>t j. (inj_used (md_regs md') t j \<longleftrightarrow> inj_used (md_regs md0) t j) \<and> (rec_used (md_regs md') t j \<longleftrightarrow> rec_used (md_regs md0) t j))"
proof -
  have u: "mudm_up (granted ii) md" "fifos_taken (md_regs md0) (md_regs md)" "md_calls md = md_calls md0" "md_freed md = md_freed md0"
    using mudm_init_total[OF assms(1), of e cfg0] assms(2) by auto
  have "mu_idle (md_regs md0)" "boot_table md" using assms(1) u(1) by (simp_all add: init_ok_def mudm_up_def)
  with mudm_up_terminate[OF u(1) assms(3) this(1) u(2)] boot_table_calls(1) u(3,4) show ?thesis by fastforce
qed

theorem mudm_init_terminate_witness:
  "\<exists>cfg md md'. mudm_init demo_boot demo_env demo_init demo_cfg demo_off = Some (RetOK, cfg, md) \<and>
    mudm_terminate demo_env md = Some (RetOK, md') \<and> length (md_freed md') = 22 \<and> \<not> inj_used (md_regs md') 66 0"
proof -
  obtain cfg md where 1: "mudm_init demo_boot demo_env demo_init demo_cfg demo_off = Some (RetOK, cfg, md)"
    using mudm_init_total[OF demo_init_ok, of demo_env demo_cfg] by (elim exE conjE) (rule that)
  have "md_freed demo_off = []" "\<not> inj_used (md_regs demo_off) 66 0" by (simp_all add: demo_off_def demo_md_def inj_used_def demo_regs_def)
  with mudm_init_terminate[OF demo_init_ok 1 demo_env_quiet(1)] 1 show ?thesis by fastforce
qed

text \<open>
  C28: the data mover starts once.  Termination leaves the number of entries of the clean-up table at 22,
  and there is room for 25: after a start and a termination no request is granted any more, whatever the callbacks
  and the request: the second start has entered three regions when it needs a fourth.
\<close>

theorem mudm_init_once:
  assumes "init_ok b ii md0" "mudm_init b e ii cfg0 md0 = Some (RetOK, cfg, md)" "mudm_terminate e1 md = Some (r, md1)"
  shows "mudm_init b2 e2 ii2 cfg2 md1 \<noteq> Some (RetOK, cfg3, md3)"
proof -
  have "boot_table md" using mudm_init_total[OF assms(1), of e cfg0] assms(2) by (auto simp: mudm_up_def)
  then have t: "length (clean_table (md_cleanup md1)) = 22" using boot_table_calls(1) mudm_terminate_table[OF assms(3)] by simp
  show ?thesis using t init_rest_full
    by (auto simp: mudm_init_def Let_def add_object_def MAX_CLEANUP_ENTRIES_def split: option.splits bool.splits if_splits)
qed

theorem mudm_init_once_witness:
  "\<exists>cfg md md1. mudm_init demo_boot demo_env demo_init demo_cfg demo_off = Some (RetOK, cfg, md) \<and>
    mudm_terminate demo_env md = Some (RetOK, md1) \<and>
    (\<forall>cfg3 md3. mudm_init demo_boot demo_env demo_init demo_cfg md1 \<noteq> Some (RetOK, cfg3, md3))"
proof -
  obtain cfg md where 1: "mudm_init demo_boot demo_env demo_init demo_cfg demo_off = Some (RetOK, cfg, md)" "mudm_up (granted demo_init) md"
    "fifos_taken (md_regs demo_off) (md_regs md)" using mudm_init_total[OF demo_init_ok, of demo_env demo_cfg] by (elim exE conjE) (rule that)
  have "mu_idle (md_regs demo_off)" using demo_init_ok by (simp add: init_ok_def)
  from mudm_up_terminate[OF 1(2) demo_env_quiet(1) this 1(3)] obtain md1 where 2: "mudm_terminate demo_env md = Some (RetOK, md1)" by blast
  from mudm_init_once[OF demo_init_ok 1(1) 2] 1(1) 2 show ?thesis by blast
qed

end
