(* ===== verification/Vrnic_Sgl.thy ===== *)
theory Vrnic_Sgl
  imports Mudm_Send
begin

text \<open>
  Memory regions of the verbs driver, \<^verbatim>\<open>bgvrnic/bgvrnic.h\<close> and \<^verbatim>\<open>bgvrnic/bgvrnic_verbs.c\<close>: a region
  registered by a user is a list of pieces of physical memory, and a user's scatter-gather list is
  translated to the physical one the data mover works on.  The refinement: the translated list
  names exactly the bytes the user named, in order.
\<close>

section \<open>Translation\<close>

text \<open>An entry of a user's list, and a region.  The array \<^verbatim>\<open>sge\<close> of \<^verbatim>\<open>sge_num\<close> entries is a list.\<close>

record ib_sge =
  sge_addr :: u64
  sge_length :: u32
  sge_lkey :: u32

record bgvrnic_mr =
  mr_start :: u64
  mr_length :: u64
  mr_sge :: "mudm_sgl list"

type_synonym mr_pool = "u32 \<rightharpoonup> bgvrnic_mr"

text \<open>An \<^verbatim>\<open>int\<close> is kept as its 32 bits; the negated error numbers the driver returns or tests.\<close>

fun errno_nr :: "errno \<Rightarrow> u32" where
  "errno_nr EPERM1 = 1" | "errno_nr E2BIG = 7" | "errno_nr EAGAIN = 11" | "errno_nr ENOMEM = 12" | "errno_nr EACCES = 13"
| "errno_nr EFAULT = 14" | "errno_nr EBUSY = 16" | "errno_nr EINVAL = 22" | "errno_nr ENOSYS = 38" | "errno_nr EXFULL = 54"
| "errno_nr EBADRQC = 56" | "errno_nr EPROTO = 71" | "errno_nr EILSEQ = 84" | "errno_nr EOPNOTSUPP = 95"
| "errno_nr ECONNRESET = 104" | "errno_nr ENOTCONN = 107" | "errno_nr EINPROGRESS = 115" | "errno_nr ECANCELED = 125"

definition ret_int :: "ret \<Rightarrow> u32" where
  "ret_int r = (case r of RetOK \<Rightarrow> 0 | RetErr e \<Rightarrow> - errno_nr e)"

definition MUDM_MAX_SGE :: nat where "MUDM_MAX_SGE = 58"

definition bgvrnic_get_mr :: "mr_pool \<Rightarrow> u32 \<Rightarrow> bgvrnic_mr option" where
  "bgvrnic_get_mr pool lkey = pool lkey"

text \<open>
  The first physical entry of the user's memory: the rest of the list from \<^verbatim>\<open>sge[mi]\<close> on, and the
  offset in its first entry.
\<close>

fun xlate_find :: "mudm_sgl list \<Rightarrow> u64 \<Rightarrow> u64 \<times> mudm_sgl list" where
  "xlate_find [] mr_offset = (mr_offset, [])"
| "xlate_find (s # ss) mr_offset =
     (if mr_offset \<noteq> 0 \<and> ucast (memlength s) \<le> mr_offset then xlate_find ss (mr_offset - ucast (memlength s))
      else (mr_offset, s # ss))"

text \<open>
  The entries written so far are \<open>out\<close>, so that \<^verbatim>\<open>pi\<close> is its length.  \<open>xlate_rest\<close> is the loop over
  the entries behind the first.
\<close>

fun xlate_rest :: "nat \<Rightarrow> mudm_sgl list \<Rightarrow> u32 \<Rightarrow> mudm_sgl list \<Rightarrow> mudm_sgl list" where
  "xlate_rest num [] bytes_to_map out = out"
| "xlate_rest num (s # ss) bytes_to_map out =
     (if bytes_to_map \<noteq> 0 \<and> length out < num then
        if bytes_to_map < ucast (memlength s) then out @ [s\<lparr>memlength := ucast bytes_to_map\<rparr>]
        else xlate_rest num ss (bytes_to_map - ucast (memlength s)) (out @ [s])
      else out)"

definition xlate_first :: "mudm_sgl \<Rightarrow> u64 \<Rightarrow> mudm_sgl" where
  "xlate_first s mr_offset = \<lparr>physicalAddr = ucast (ucast (physicalAddr s) + mr_offset),
     memlength = ucast (ucast (memlength s) - mr_offset :: u64)\<rparr>"

definition xlate_sge :: "nat \<Rightarrow> bgvrnic_mr \<Rightarrow> ib_sge \<Rightarrow> mudm_sgl list \<Rightarrow> mudm_sgl list option" where
  "xlate_sge num mr u out =
     (case xlate_find (mr_sge mr) (sge_addr u - mr_start mr) of
        (mr_offset, []) \<Rightarrow> None
      | (mr_offset, s # ss) \<Rightarrow>
         (let e = xlate_first s mr_offset
          in Some (if sge_length u < ucast (memlength e) then out @ [e\<lparr>memlength := ucast (sge_length u)\<rparr>]
                   else xlate_rest num ss (sge_length u - ucast (memlength e)) (out @ [e]))))"

fun xlate_loop ::
  "mr_pool \<Rightarrow> nat \<Rightarrow> ib_sge list \<Rightarrow> mudm_sgl list \<Rightarrow> u32 \<Rightarrow> (u32 \<times> mudm_sgl list \<times> nat) option" where
  "xlate_loop pool num [] out total_length = Some (total_length, out, length out)"
| "xlate_loop pool num (u # us) out total_length =
     (case bgvrnic_get_mr pool (sge_lkey u) of
        None \<Rightarrow> Some (- errno_nr ENOMEM, out, num)
      | Some mr \<Rightarrow>
         (case xlate_sge num mr u out of
            None \<Rightarrow> None
          | Some out1 \<Rightarrow>
              if num \<le> length out1 then Some (- errno_nr E2BIG, out1, num)
              else xlate_loop pool num us out1 (total_length + sge_length u)))"

text \<open>The result, the array \<open>psge\<close> written from its start, and \<^verbatim>\<open>*num_psge\<close>.\<close>

definition bgvrnic_xlate_sgl ::
  "mr_pool \<Rightarrow> ib_sge list \<Rightarrow> mudm_sgl list \<Rightarrow> nat \<Rightarrow> (u32 \<times> mudm_sgl list \<times> nat) option" where
  "bgvrnic_xlate_sgl pool usge psge num_psge =
     map_option (\<lambda>(rc, out, n). (rc, out @ drop (length out) psge, n)) (xlate_loop pool num_psge usge [] 0)"

section \<open>What a translated list stands for\<close>

text \<open>The physical addresses of a region, byte by byte, and of a user's entry in it.\<close>

definition mr_addrs :: "bgvrnic_mr \<Rightarrow> nat list" where
  "mr_addrs mr = sgl_addrs (mr_sge mr)"

definition sgl_fits :: "mudm_sgl list \<Rightarrow> bool" where
  "sgl_fits ss \<longleftrightarrow> (\<forall>s\<in>set ss. unat (physicalAddr s) + unat (memlength s) \<le> 2 ^ 36)"

definition user_addrs :: "mr_pool \<Rightarrow> ib_sge \<Rightarrow> nat list" where
  "user_addrs pool u = (case pool (sge_lkey u) of None \<Rightarrow> []
     | Some mr \<Rightarrow> take (unat (sge_length u)) (drop (unat (sge_addr u - mr_start mr)) (mr_addrs mr)))"

text \<open>The entry lies in its region.\<close>

definition sge_within :: "mr_pool \<Rightarrow> ib_sge \<Rightarrow> bool" where
  "sge_within pool u \<longleftrightarrow> (\<exists>mr. pool (sge_lkey u) = Some mr \<and> sgl_fits (mr_sge mr) \<and>
     unat (sge_addr u - mr_start mr) < length (mr_addrs mr) \<and>
     unat (sge_addr u - mr_start mr) + unat (sge_length u) \<le> length (mr_addrs mr))"

definition sge_pieces :: "mr_pool \<Rightarrow> ib_sge \<Rightarrow> nat" where
  "sge_pieces pool u = (case pool (sge_lkey u) of None \<Rightarrow> 0 | Some mr \<Rightarrow> length (mr_sge mr))"

lemma length_user_addrs: "sge_within pool u \<Longrightarrow> length (user_addrs pool u) = unat (sge_length u)"
  by (auto simp: sge_within_def user_addrs_def)

lemma sgl_addrs_append [simp]: "sgl_addrs (xs @ ys) = sgl_addrs xs @ sgl_addrs ys"
  by (simp add: sgl_addrs_def)

lemma sgl_addrs_Nil [simp]: "sgl_addrs [] = []"
  by (simp add: sgl_addrs_def)

lemma addr_span_take: "unat k \<le> unat n \<Longrightarrow> take (unat k) (addr_span a n) = addr_span a k"
  by (simp add: addr_span_def)

lemma addr_span_drop: "drop k (addr_span a n) = [unat a + k..<unat a + unat n]"
  by (simp add: addr_span_def)

lemma memlength_u32: "unat (ucast (m :: 28 word) :: u32) = unat m"
proof -
  have "unat m < 2 ^ 28" using unat_ucast_28[of m] by simp
  then show ?thesis by (simp add: unsigned_ucast_eq take_bit_nat_eq_self)
qed

text \<open>The search: what is left of the region, from the offset on.\<close>

lemma xlate_find_rest:
  assumes "xlate_find ss k = (k', ss')" "unat k < length (sgl_addrs ss)"
  shows "unat k' < length (sgl_addrs ss')" "drop (unat k') (sgl_addrs ss') = drop (unat k) (sgl_addrs ss)"
    "length ss' \<le> length ss" "set ss' \<subseteq> set ss" "\<exists>s ts. ss' = s # ts \<and> (k' = 0 \<or> unat k' < unat (memlength s))"
  using assms
proof (induction ss k rule: xlate_find.induct)
  case (1 k)
  { case 1 then show ?case by simp next case 2 then show ?case by simp next case 3 then show ?case by simp
    next case 4 then show ?case by simp next case 5 then show ?case by simp }
next
  case (2 s ss k)
  let ?n = "ucast (memlength s) :: u64"
  have n: "unat ?n = unat (memlength s)" using unat_ucast_28 by blast
  have step: "unat (k - ?n) = unat k - unat (memlength s)" if "?n \<le> k"
    using that n by (simp add: unat_sub)
  show "unat k' < length (sgl_addrs ss')" "drop (unat k') (sgl_addrs ss') = drop (unat k) (sgl_addrs (s # ss))"
    "length ss' \<le> length (s # ss)" "set ss' \<subseteq> set (s # ss)" "\<exists>t ts. ss' = t # ts \<and> (k' = 0 \<or> unat k' < unat (memlength t))"
    if "xlate_find (s # ss) k = (k', ss')" "unat k < length (sgl_addrs (s # ss))"
  proof -
    have *: "unat k' < length (sgl_addrs ss') \<and> drop (unat k') (sgl_addrs ss') = drop (unat k) (sgl_addrs (s # ss)) \<and>
      length ss' \<le> length (s # ss) \<and> set ss' \<subseteq> set (s # ss) \<and> (\<exists>t ts. ss' = t # ts \<and> (k' = 0 \<or> unat k' < unat (memlength t)))"
    proof (cases "k \<noteq> 0 \<and> ?n \<le> k")
      case True
      then have le: "unat (memlength s) \<le> unat k" using n by (simp add: word_le_nat_alt)
      have f: "xlate_find ss (k - ?n) = (k', ss')" using that(1) True by simp
      have l: "unat (k - ?n) < length (sgl_addrs ss)"
        using that(2) step True le n by (simp add: sgl_addrs_Cons)
      note IH = 2(1-5)[OF True f l]
      show ?thesis using IH step True le n by (auto simp: sgl_addrs_Cons)
    next
      case False
      then have "k' = k" "ss' = s # ss" using that(1) by auto
      with False that(2) n show ?thesis by (auto simp: word_le_nat_alt)
    qed
    from * show "unat k' < length (sgl_addrs ss')" "drop (unat k') (sgl_addrs ss') = drop (unat k) (sgl_addrs (s # ss))"
    "length ss' \<le> length (s # ss)" "set ss' \<subseteq> set (s # ss)" "\<exists>t ts. ss' = t # ts \<and> (k' = 0 \<or> unat k' < unat (memlength t))" by blast+
  qed
qed

text \<open>The loop over the rest of the region: it appends, and unless the array is full it appends the bytes wanted.\<close>

lemma xlate_rest_addrs:
  assumes "unat b \<le> length (sgl_addrs ss)"
  shows "\<exists>ts. xlate_rest num ss b out = out @ ts \<and> length ts \<le> length ss \<and>
    (length out + length ts < num \<longrightarrow> sgl_addrs ts = take (unat b) (sgl_addrs ss)) \<and>
    (length out \<le> num \<longrightarrow> length out + length ts \<le> num)"
  using assms
proof (induction num ss b out rule: xlate_rest.induct)
  case (1 num b out)
  then show ?case by simp
next
  case (2 num s ss b out)
  have n: "unat (ucast (memlength s) :: u32) = unat (memlength s)" "unat (ucast (memlength s) :: u64) = unat (memlength s)"
    using memlength_u32 unat_ucast_28 by blast+
  show ?case
  proof (cases "b \<noteq> 0 \<and> length out < num")
    case False
    then show ?thesis by auto
  next
    case go: True
    show ?thesis
    proof (cases "b < ucast (memlength s)")
      case True
      then have lt: "unat b < unat (memlength s)" using n by (simp add: word_less_nat_alt)
      moreover have "unat (memlength s) < 2 ^ 28" using unat_ucast_28 by blast
      ultimately have "unat (ucast b :: 28 word) = unat b" by (simp add: unsigned_ucast_eq take_bit_nat_eq_self)
      then have "unat (ucast (ucast b :: 28 word) :: u64) = unat b" using unat_ucast_28[of "ucast b"] by simp
      with lt n(2) have "addr_span a (ucast (ucast b :: 28 word)) = take (unat b) (addr_span a (ucast (memlength s)))" for a
        by (simp add: addr_span_def)
      with go True lt n(2) show ?thesis
        by (intro exI[of _ "[s\<lparr>memlength := ucast b\<rparr>]"]) (simp add: sgl_addrs_Cons)
    next
      case False
      then have le: "unat (memlength s) \<le> unat b" using n by (simp add: word_le_nat_alt not_less)
      then have d: "unat (b - ucast (memlength s)) = unat b - unat (memlength s)"
        using n by (simp add: unat_sub word_le_nat_alt)
      have p: "unat (b - ucast (memlength s)) \<le> length (sgl_addrs ss)"
        using 2(2) d n(2) by (simp add: sgl_addrs_Cons)
      from 2(1)[OF go False p] obtain ts where
        "xlate_rest num ss (b - ucast (memlength s)) (out @ [s]) = (out @ [s]) @ ts" "length ts \<le> length ss"
        "length (out @ [s]) + length ts < num \<longrightarrow> sgl_addrs ts = take (unat (b - ucast (memlength s))) (sgl_addrs ss)"
        "length (out @ [s]) \<le> num \<longrightarrow> length (out @ [s]) + length ts \<le> num" by blast
      with go False d le n(2) show ?thesis
        by (intro exI[of _ "s # ts"]) (simp add: sgl_addrs_Cons)
    qed
  qed
qed

text \<open>The first entry: the rest of a piece from the offset on.\<close>

lemma xlate_first_span:
  assumes "k = 0 \<or> unat k < unat (memlength s)" "unat (physicalAddr s) + unat (memlength s) \<le> 2 ^ 36"
  shows "unat (memlength (xlate_first s k)) = unat (memlength s) - unat k"
    "unat (memlength s) \<noteq> 0 \<Longrightarrow> addr_span (ucast (physicalAddr (xlate_first s k))) n =
       addr_span (ucast (physicalAddr s) + k) n"
    "unat (memlength s) \<noteq> 0 \<Longrightarrow> unat (ucast (physicalAddr s) + k :: u64) = unat (physicalAddr s) + unat k"
proof -
  have m: "unat (ucast (memlength s) :: u64) = unat (memlength s)" "unat (memlength s) < 2 ^ 28" using unat_ucast_28 by blast+
  have p: "unat (ucast (physicalAddr s) :: u64) = unat (physicalAddr s)" "unat (physicalAddr s) < 2 ^ 36" using unat_ucast_36 by blast+
  have "unat (ucast (memlength s) - k) = unat (memlength s) - unat k"
    using assms(1) m by (auto simp: unat_sub word_le_nat_alt)
  with m(2) show "unat (memlength (xlate_first s k)) = unat (memlength s) - unat k"
    by (simp add: xlate_first_def unsigned_ucast_eq take_bit_nat_eq_self)
  assume nz: "unat (memlength s) \<noteq> 0"
  have k: "unat k < 2 ^ 28" using assms(1) m(2) by auto
  show s: "unat (ucast (physicalAddr s) + k :: u64) = unat (physicalAddr s) + unat k"
    using p k by (subst unat_add_lem[THEN iffD1]) simp_all
  have "unat (physicalAddr s) + unat k < 2 ^ 36" using assms nz by auto
  then have "unat (ucast (ucast (ucast (physicalAddr s) + k :: u64) :: 36 word) :: u64) = unat (ucast (physicalAddr s) + k :: u64)"
    using s unat_ucast_36[of "ucast (ucast (physicalAddr s) + k :: u64)"] by (simp add: unsigned_ucast_eq take_bit_nat_eq_self)
  then show "addr_span (ucast (physicalAddr (xlate_first s k))) n = addr_span (ucast (physicalAddr s) + k) n"
    by (simp add: xlate_first_def addr_span_def)
qed

lemma xlate_first_addrs:
  assumes "k = 0 \<or> unat k < unat (memlength s)" "unat (physicalAddr s) + unat (memlength s) \<le> 2 ^ 36"
  shows "addr_span (ucast (physicalAddr (xlate_first s k))) (ucast (memlength (xlate_first s k))) =
    drop (unat k) (addr_span (ucast (physicalAddr s)) (ucast (memlength s)))"
proof (cases "unat (memlength s) = 0")
  case True
  then have "unat (memlength (xlate_first s k)) = 0" "unat (ucast (memlength s) :: u64) = 0"
    using xlate_first_span(1)[OF assms] unat_ucast_28[of "memlength s"] by simp_all
  then show ?thesis using unat_ucast_28[of "memlength (xlate_first s k)"] by (simp add: addr_span_def)
next
  case False
  have "unat (ucast (memlength (xlate_first s k)) :: u64) = unat (memlength s) - unat k"
    using xlate_first_span(1)[OF assms] unat_ucast_28 by simp
  moreover have "unat k \<le> unat (memlength s)" using assms(1) by auto
  ultimately show ?thesis unfolding xlate_first_span(2)[OF assms False]
    using xlate_first_span(3)[OF assms False] unat_ucast_36[of "physicalAddr s"] unat_ucast_28[of "memlength s"]
    by (simp add: addr_span_def)
qed

text \<open>One entry of the user's list.\<close>

lemma xlate_sge_addrs:
  assumes "pool (sge_lkey u) = Some mr" "sge_within pool u"
  shows "\<exists>ts. xlate_sge num mr u out = Some (out @ ts) \<and> length ts \<le> sge_pieces pool u \<and>
    (length out + length ts < num \<longrightarrow> sgl_addrs ts = user_addrs pool u) \<and> (length out < num \<longrightarrow> length out + length ts \<le> num)"
proof -
  let ?b = "sge_length u" and ?off = "sge_addr u - mr_start mr"
  obtain k ss where f: "xlate_find (mr_sge mr) ?off = (k, ss)" by (rule prod.exhaust)
  have w: "sgl_fits (mr_sge mr)" "unat ?off < length (sgl_addrs (mr_sge mr))" "unat ?off + unat ?b \<le> length (sgl_addrs (mr_sge mr))"
    using assms by (auto simp: sge_within_def mr_addrs_def)
  note F = xlate_find_rest[OF f w(2)]
  obtain s ts0 where ss: "ss = s # ts0" "k = 0 \<or> unat k < unat (memlength s)" using F(5) by auto
  have fit: "unat (physicalAddr s) + unat (memlength s) \<le> 2 ^ 36" using F(4) ss(1) w(1) by (simp add: sgl_fits_def)
  define e where "e = xlate_first s k"
  note E = xlate_first_addrs[OF ss(2) fit, folded e_def] xlate_first_span(1)[OF ss(2) fit, folded e_def]
  have kl: "unat k \<le> unat (memlength s)" using ss(2) by auto
  have ml: "unat (ucast (memlength s) :: u64) = unat (memlength s)" "unat (ucast (memlength e) :: u32) = unat (memlength e)"
    "unat (ucast (memlength e) :: u64) = unat (memlength e)"
    using unat_ucast_28 memlength_u32 by blast+
  have from_off: "drop (unat ?off) (sgl_addrs (mr_sge mr)) =
      addr_span (ucast (physicalAddr e)) (ucast (memlength e)) @ sgl_addrs ts0"
    using F(2) E(1) kl ml(1) by (simp add: ss(1) sgl_addrs_Cons)
  have len: "unat ?b \<le> unat (memlength e) + length (sgl_addrs ts0)"
    using arg_cong[OF from_off, of length] w(2,3) ml(3) by simp
  have ua: "user_addrs pool u = take (unat ?b) (addr_span (ucast (physicalAddr e)) (ucast (memlength e)) @ sgl_addrs ts0)"
    using assms(1) by (simp add: user_addrs_def mr_addrs_def from_off)
  have np: "length ts0 < sge_pieces pool u" using F(3) assms(1) by (simp add: sge_pieces_def ss(1))
  show ?thesis
  proof (cases "?b < ucast (memlength e)")
    case True
    then have lt: "unat ?b < unat (memlength e)" using ml by (simp add: word_less_nat_alt)
    then have "unat (ucast ?b :: 28 word) = unat ?b"
      using unat_ucast_28[of "memlength e"] by (simp add: unsigned_ucast_eq take_bit_nat_eq_self)
    then have b: "unat (ucast (ucast ?b :: 28 word) :: u64) = unat ?b" using unat_ucast_28[of "ucast ?b"] by simp
    show ?thesis
      by (rule exI[of _ "[e\<lparr>memlength := ucast ?b\<rparr>]"])
        (use True f ss(1) np lt b ml(3) in \<open>simp add: xlate_sge_def e_def[symmetric] ua sgl_addrs_Cons addr_span_def\<close>)
  next
    case False
    then have le: "unat (memlength e) \<le> unat ?b" using ml by (simp add: word_le_nat_alt not_less)
    then have d: "unat (?b - ucast (memlength e)) = unat ?b - unat (memlength e)"
      using ml(2) by (simp add: unat_sub word_le_nat_alt)
    then have "unat (?b - ucast (memlength e)) \<le> length (sgl_addrs ts0)" using len by simp
    from xlate_rest_addrs[OF this, of num "out @ [e]"] obtain ts where
      T: "xlate_rest num ts0 (?b - ucast (memlength e)) (out @ [e]) = (out @ [e]) @ ts" "length ts \<le> length ts0"
      "length (out @ [e]) + length ts < num \<longrightarrow> sgl_addrs ts = take (unat (?b - ucast (memlength e))) (sgl_addrs ts0)"
      "length (out @ [e]) \<le> num \<longrightarrow> length (out @ [e]) + length ts \<le> num" by blast
    show ?thesis
      by (rule exI[of _ "e # ts"])
        (use False f ss(1) np T d le ml(3) in \<open>simp add: xlate_sge_def e_def[symmetric] ua sgl_addrs_Cons\<close>)
  qed
qed

lemma xlate_loop_addrs:
  assumes "\<forall>u\<in>set us. sge_within pool u" "length out < num"
  shows "\<exists>ts. length out + length ts \<le> num \<and>
    (xlate_loop pool num us out t = Some (t + sum_list (map sge_length us), out @ ts, length out + length ts) \<and>
       length out + length ts < num \<and> sgl_addrs ts = concat (map (user_addrs pool) us) \<or>
     xlate_loop pool num us out t = Some (- errno_nr E2BIG, out @ ts, num) \<and>
       num \<le> length out + sum_list (map (sge_pieces pool) us))"
  using assms
proof (induction us arbitrary: out t)
  case Nil
  then show ?case by (intro exI[of _ "[]"]) simp
next
  case (Cons u us)
  from Cons.prems(1) obtain mr where mr: "pool (sge_lkey u) = Some mr" by (auto simp: sge_within_def)
  have u: "sge_within pool u" using Cons.prems(1) by simp
  from xlate_sge_addrs[OF mr u, of num out] Cons.prems(2) obtain ts where
    T: "xlate_sge num mr u out = Some (out @ ts)" "length ts \<le> sge_pieces pool u"
    "length out + length ts < num \<longrightarrow> sgl_addrs ts = user_addrs pool u" "length out + length ts \<le> num" by auto
  show ?case
  proof (cases "length out + length ts < num")
    case False
    with T mr show ?thesis by (intro exI[of _ ts]) (simp add: bgvrnic_get_mr_def)
  next
    case True
    from Cons.IH[of "out @ ts" "t + sge_length u"] Cons.prems(1) True obtain ts' where
      I: "length (out @ ts) + length ts' \<le> num"
      "xlate_loop pool num us (out @ ts) (t + sge_length u) =
          Some (t + sge_length u + sum_list (map sge_length us), (out @ ts) @ ts', length (out @ ts) + length ts') \<and>
         length (out @ ts) + length ts' < num \<and> sgl_addrs ts' = concat (map (user_addrs pool) us) \<or>
       xlate_loop pool num us (out @ ts) (t + sge_length u) = Some (- errno_nr E2BIG, (out @ ts) @ ts', num) \<and>
         num \<le> length (out @ ts) + sum_list (map (sge_pieces pool) us)" by auto
    have "xlate_loop pool num (u # us) out t = xlate_loop pool num us (out @ ts) (t + sge_length u)"
      using T(1) mr True by (simp add: bgvrnic_get_mr_def)
    with I T(2,3) True show ?thesis by (intro exI[of _ "ts @ ts'"]) (auto simp: add.assoc)
  qed
qed

lemma xlate_total:
  assumes "\<forall>u\<in>set us. sge_within pool u" "0 < num"
  shows "\<exists>ts. length ts \<le> num \<and>
    (bgvrnic_xlate_sgl pool us psge num = Some (sum_list (map sge_length us), ts @ drop (length ts) psge, length ts) \<and>
       length ts < num \<and> sgl_addrs ts = concat (map (user_addrs pool) us) \<or>
     bgvrnic_xlate_sgl pool us psge num = Some (- errno_nr E2BIG, ts @ drop (length ts) psge, num) \<and>
       num \<le> sum_list (map (sge_pieces pool) us))"
  using xlate_loop_addrs[OF assms(1), of "[]" num 0] assms(2) by (auto simp: bgvrnic_xlate_sgl_def)

section \<open>Registration\<close>

text \<open>
  What the kernel pinned for the user (\<^verbatim>\<open>ib_umem_get\<close>): chunks of pairs of a bus address and a length,
  the offset of the user's first byte, and the page size, a power of two.
\<close>

record ib_umem =
  um_chunks :: "(u64 \<times> u32) list list"
  um_offset :: u32
  um_page_shift :: nat

definition um_page_size :: "ib_umem \<Rightarrow> u32" where "um_page_size um = 2 ^ um_page_shift um"

definition MUDM_MAX_SGL_LENGTH :: u64 where "MUDM_MAX_SGL_LENGTH = 0x10000000"

text \<open>The pages in the order the three loops visit them, each with the length \<^verbatim>\<open>p_len\<close> starts with.\<close>

definition umem_pages :: "ib_umem \<Rightarrow> (u64 \<times> u32) list" where
  "umem_pages um = concat (map (\<lambda>(a, l). map (\<lambda>k. (a + ucast (um_page_size um * of_nat k), l))
     [0..<unat (drop_bit (um_page_shift um) l)]) (concat (um_chunks um)))"

definition umem_page_step :: "u32 \<Rightarrow> u64 \<times> u32 \<Rightarrow> mudm_sgl list \<times> u32 \<Rightarrow> mudm_sgl list \<times> u32" where
  "umem_page_step offset page st =
     (let (sge, bytes_to_map) = st; (a, l) = page;
          address = (if sge = [] then a + ucast offset else a);
          p_len = min (if sge = [] then l - offset else l) bytes_to_map
      in if sge = [] \<or> ucast (physicalAddr (last sge)) + ucast (memlength (last sge)) \<noteq> address \<or>
            MUDM_MAX_SGL_LENGTH \<le> ucast (ucast (memlength (last sge)) + p_len :: u32)
         then (sge @ [\<lparr>physicalAddr = ucast address, memlength = ucast p_len\<rparr>], bytes_to_map - p_len)
         else (butlast sge @ [(last sge)\<lparr>memlength := memlength (last sge) + ucast p_len\<rparr>], bytes_to_map - p_len))"

definition umem_sgl :: "ib_umem \<Rightarrow> u64 \<Rightarrow> mudm_sgl list" where
  "umem_sgl um len = fst (fold (umem_page_step (um_offset um)) (umem_pages um) ([], ucast len))"

text \<open>
  A number for a new object: the kernel's \<^verbatim>\<open>idr_get_new_above\<close> gives one, asks for memory
  (\<^verbatim>\<open>-EAGAIN\<close>; \<^verbatim>\<open>idr_pre_get\<close> then succeeds or not), or fails.  The readings of successive attempts are
  a function of \<^verbatim>\<open>prev_id\<close>, which every attempt increments.
\<close>

datatype idr_result = IdrId u32 | IdrAgain bool | IdrErr u32

partial_function (option) bgvrnic_alloc_id :: "(nat \<Rightarrow> idr_result) \<Rightarrow> nat \<Rightarrow> (u32 \<times> u32 \<times> nat) option" where
  "bgvrnic_alloc_id idr prev_id =
     (case idr prev_id of
        IdrId n \<Rightarrow> Some (0, n, prev_id + 1)
      | IdrErr rc \<Rightarrow> Some (rc, 0, prev_id + 1)
      | IdrAgain pre_get \<Rightarrow>
          if pre_get then bgvrnic_alloc_id idr (prev_id + 1) else Some (- errno_nr EAGAIN, 0, prev_id + 1))"

text \<open>
  The regions and what they are allocated from: \<open>reg_kmalloc\<close> says which of the three allocations
  succeed.  A failure gives the error and takes back what was done before.
\<close>

record reg_env =
  reg_umem :: "u64 \<Rightarrow> u64 \<Rightarrow> ib_umem + u32"
  reg_idr :: "nat \<Rightarrow> idr_result"
  reg_kmalloc :: "bool \<times> bool \<times> bool"

record mr_state =
  mr_map :: mr_pool
  mr_prev_id :: nat
  mr_pinned :: nat

definition bgvrnic_free_lkey :: "u32 \<Rightarrow> mr_state \<Rightarrow> mr_state" where
  "bgvrnic_free_lkey lkey st = st\<lparr>mr_map := (mr_map st)(lkey := None)\<rparr>"

definition umem_count :: "ib_umem \<Rightarrow> nat" where
  "umem_count um = length (umem_pages um)"

definition bgvrnic_reg_user_mr :: "reg_env \<Rightarrow> u64 \<Rightarrow> u64 \<Rightarrow> mr_state \<Rightarrow> ((u32 + u32) \<times> mr_state) option" where
  "bgvrnic_reg_user_mr env start len st =
     (let (km_mr, km_sge, km_new) = reg_kmalloc env in
      if len = 0 then Some (Inl (- errno_nr EINVAL), st)
      else case reg_umem env start len of
        Inr rc \<Rightarrow> Some (Inl rc, st)
      | Inl um \<Rightarrow>
          if \<not> km_mr then Some (Inl (- errno_nr ENOMEM), st)
          else case bgvrnic_alloc_id (reg_idr env) (mr_prev_id st) of
            None \<Rightarrow> None
          | Some (rc, lkey, prev_id) \<Rightarrow>
             (let st1 = st\<lparr>mr_prev_id := prev_id\<rparr>; sge = umem_sgl um len in
              if rc \<noteq> 0 then Some (Inl (- errno_nr EINVAL), st1)
              else if \<not> km_sge then Some (Inl (- errno_nr ENOMEM), bgvrnic_free_lkey lkey st1)
              else if length sge < umem_count um \<and> \<not> km_new then Some (Inl (- errno_nr ENOMEM), bgvrnic_free_lkey lkey st1)
              else Some (Inr lkey, st1\<lparr>mr_map := (mr_map st1)(lkey \<mapsto> \<lparr>mr_start = start, mr_length = len, mr_sge = sge\<rparr>),
                     mr_pinned := mr_pinned st1 + 1\<rparr>)))"

definition bgvrnic_dereg_mr :: "u32 \<Rightarrow> mr_state \<Rightarrow> mr_state" where
  "bgvrnic_dereg_mr lkey st = bgvrnic_free_lkey lkey (st\<lparr>mr_pinned := mr_pinned st - 1\<rparr>)"

text \<open>Memory pinned as documented: every entry is one page, the pages hold the user's memory and lie below \<open>2 ^ 36\<close>.\<close>

definition page_span :: "nat \<Rightarrow> u64 \<times> u32 \<Rightarrow> nat list" where
  "page_span off p = [unat (fst p) + off..<unat (fst p) + unat (snd p)]"

definition umem_addrs :: "ib_umem \<Rightarrow> nat list" where
  "umem_addrs um = concat (map (page_span 0) (concat (um_chunks um)))"

definition umem_ok :: "ib_umem \<Rightarrow> u64 \<Rightarrow> bool" where
  "umem_ok um len \<longleftrightarrow> um_page_shift um < 28 \<and> um_offset um < um_page_size um \<and> len < 2 ^ 32 \<and>
     (\<forall>(a, l)\<in>set (concat (um_chunks um)). l = um_page_size um \<and> unat a + unat l \<le> 2 ^ 36) \<and>
     unat (um_offset um) + unat len \<le> length (umem_addrs um)"

lemma concat_map_single: "(\<And>x. x \<in> set xs \<Longrightarrow> f x = [x]) \<Longrightarrow> concat (map f xs) = xs"
  by (induction xs) auto

lemma umem_pages_ok: "umem_ok um len \<Longrightarrow> umem_pages um = concat (um_chunks um)"
proof -
  assume ok: "umem_ok um len"
  have s: "um_page_shift um < 32" using ok by (simp add: umem_ok_def)
  have d: "unat (drop_bit (um_page_shift um) (um_page_size um)) = 1"
  proof -
    have "drop_bit (um_page_shift um) (um_page_size um) = (1 :: u32)"
      unfolding um_page_size_def using s by (intro bit_word_eqI) (auto simp: bit_simps)
    then show ?thesis by simp
  qed
  have "(case p of (a, l) \<Rightarrow> map (\<lambda>k. (a + ucast (um_page_size um * of_nat k), l)) [0..<unat (drop_bit (um_page_shift um) l)]) = [p]"
    if "p \<in> set (concat (um_chunks um))" for p
    using ok that d by (auto simp: umem_ok_def split: prod.splits)
  then show ?thesis unfolding umem_pages_def by (intro concat_map_single) blast
qed

text \<open>A visit behind the first page appends the page's bytes, as many as are left to map.\<close>

lemma umem_page_step_next:
  assumes st: "sge \<noteq> []" "sgl_fits sge" and p: "unat a + unat l \<le> 2 ^ 36" "l < 2 ^ 28" and u: "l \<noteq> 0"
  shows "\<exists>sge'. umem_page_step off (a, l) (sge, b) = (sge', b - min l b) \<and> sge' \<noteq> [] \<and> sgl_fits sge' \<and>
    sgl_addrs sge' = sgl_addrs sge @ take (unat b) (page_span 0 (a, l))"
proof -
  let ?n = "min l b" and ?s = "last sge"
  have n: "unat ?n = min (unat l) (unat b)" by (simp add: min_def word_le_nat_alt)
  have l28: "unat l < 2 ^ 28" using p(2) by (simp add: word_less_nat_alt)
  then have n28: "unat (ucast ?n :: 28 word) = unat ?n" using n by (simp add: unsigned_ucast_eq take_bit_nat_eq_self)
  have "0 < unat l" using u by (simp add: unat_gt_0)
  then have "unat a < 2 ^ 36" using p(1) by linarith
  then have a36: "unat (ucast a :: 36 word) = unat a" by (simp add: unsigned_ucast_eq take_bit_nat_eq_self)
  have span: "take (unat b) (page_span 0 (a, l)) = [unat a..<unat a + unat ?n]"
    unfolding n page_span_def by (simp add: min_def)
  have fit: "unat (physicalAddr ?s) + unat (memlength ?s) \<le> 2 ^ 36" using st by (simp add: sgl_fits_def)
  have sg: "sge = butlast sge @ [?s]" using st(1) by simp
  show ?thesis
  proof (cases "ucast (physicalAddr ?s) + ucast (memlength ?s) \<noteq> a \<or>
      MUDM_MAX_SGL_LENGTH \<le> ucast (ucast (memlength ?s) + ?n :: u32)")
    case True
    have "addr_span (ucast (ucast a :: 36 word)) (ucast (ucast ?n :: 28 word)) = [unat a..<unat a + unat ?n]"
      using a36 n28 unat_ucast_36[of "ucast a"] unat_ucast_28[of "ucast ?n"] by (simp add: addr_span_def)
    with True st p n a36 n28 show ?thesis
      by (intro exI[of _ "sge @ [\<lparr>physicalAddr = ucast a, memlength = ucast ?n\<rparr>]"])
        (auto simp: umem_page_step_def span sgl_addrs_Cons sgl_fits_def Let_def)
  next
    case False
    have ml: "unat (ucast (memlength ?s) :: u32) = unat (memlength ?s)" "unat (memlength ?s) < 2 ^ 28"
      using memlength_u32 unat_ucast_28 by blast+
    have sum: "unat (ucast (memlength ?s) + ?n :: u32) = unat (memlength ?s) + unat ?n"
      using ml n l28 by (subst unat_add_lem[THEN iffD1]) simp_all
    have lt: "unat (memlength ?s) + unat ?n < 2 ^ 28"
    proof -
      have "\<not> MUDM_MAX_SGL_LENGTH \<le> ucast (ucast (memlength ?s) + ?n :: u32)" using False by blast
      then have "unat (ucast (ucast (memlength ?s) + ?n :: u32) :: u64) < unat MUDM_MAX_SGL_LENGTH"
        by (simp add: word_le_nat_alt)
      moreover have "unat (memlength ?s) + unat ?n < 2 ^ 64" using ml n l28 by simp
      ultimately show ?thesis using sum by (simp add: MUDM_MAX_SGL_LENGTH_def unsigned_ucast_eq take_bit_nat_eq_self)
    qed
    have m': "unat (memlength ?s + ucast ?n :: 28 word) = unat (memlength ?s) + unat ?n"
      using lt n28 by (subst unat_add_lem[THEN iffD1]) simp_all
    have pa: "unat (ucast (physicalAddr ?s) :: u64) = unat (physicalAddr ?s)" "unat (ucast (memlength ?s) :: u64) = unat (memlength ?s)"
      "unat (physicalAddr ?s) < 2 ^ 36" using unat_ucast_36 unat_ucast_28 by blast+
    have "ucast (physicalAddr ?s) + ucast (memlength ?s) = a" using False by simp
    then have a: "unat a = unat (physicalAddr ?s) + unat (memlength ?s)"
      using pa ml(2) by (subst \<open>_ = a\<close>[symmetric], subst unat_add_lem[THEN iffD1]) simp_all
    let ?s' = "?s\<lparr>memlength := memlength ?s + ucast ?n\<rparr>"
    have "addr_span (ucast (physicalAddr ?s)) (ucast (memlength ?s + ucast ?n :: 28 word)) =
        addr_span (ucast (physicalAddr ?s)) (ucast (memlength ?s)) @ [unat a..<unat a + unat ?n]"
      using pa m' a unat_ucast_28[of "memlength ?s + ucast ?n"]
        upt_add_eq_append[of "unat (physicalAddr ?s)" "unat (physicalAddr ?s) + unat (memlength ?s)" "unat ?n"]
      by (simp add: addr_span_def add.assoc)
    moreover have "sgl_addrs sge = sgl_addrs (butlast sge) @ addr_span (ucast (physicalAddr ?s)) (ucast (memlength ?s))"
      by (subst sg) (simp add: sgl_addrs_Cons)
    moreover have "sgl_fits (butlast sge @ [?s'])"
      using st(2) m' a p(1) n by (auto simp: sgl_fits_def dest: in_set_butlastD)
    ultimately show ?thesis using False st(1)
      by (intro exI[of _ "butlast sge @ [?s']"]) (simp add: umem_page_step_def span sgl_addrs_Cons Let_def)
  qed
qed

lemma umem_fold_next:
  assumes "sge \<noteq> []" "sgl_fits sge" "\<forall>(a, l)\<in>set ps. l \<noteq> 0 \<and> l < 2 ^ 28 \<and> unat a + unat l \<le> 2 ^ 36"
  shows "sgl_fits (fst (fold (umem_page_step off) ps (sge, b))) \<and>
    sgl_addrs (fst (fold (umem_page_step off) ps (sge, b))) = sgl_addrs sge @ take (unat b) (concat (map (page_span 0) ps))"
  using assms
proof (induction ps arbitrary: sge b)
  case Nil
  then show ?case by simp
next
  case (Cons p ps)
  obtain a l where p: "p = (a, l)" by (rule prod.exhaust)
  have pl: "l \<noteq> 0" "l < 2 ^ 28" "unat a + unat l \<le> 2 ^ 36" using Cons.prems(3) p by auto
  from umem_page_step_next[OF Cons.prems(1,2) pl(3,2,1), of off b] obtain sge' where
    s: "umem_page_step off (a, l) (sge, b) = (sge', b - min l b)" "sge' \<noteq> []" "sgl_fits sge'"
    "sgl_addrs sge' = sgl_addrs sge @ take (unat b) (page_span 0 (a, l))" by blast
  have b: "unat (b - min l b) = unat b - unat l" by (simp add: min_def unat_sub word_le_nat_alt)
  have len: "length (page_span 0 (a, l)) = unat l" by (simp add: page_span_def)
  from Cons.IH[OF s(2,3), of "b - min l b"] Cons.prems(3) show ?case
    by (simp add: p s(1,4) b len)
qed

lemma reg_sgl_addrs:
  assumes ok: "umem_ok um len" and len: "len \<noteq> 0"
  shows "sgl_fits (umem_sgl um len)" "sgl_addrs (umem_sgl um len) = take (unat len) (drop (unat (um_offset um)) (umem_addrs um))"
proof -
  let ?off = "um_offset um" and ?b = "ucast len :: u32" and ?P = "um_page_size um"
  have b: "unat ?b = unat len" using ok by (simp add: umem_ok_def unsigned_ucast_eq take_bit_nat_eq_self word_less_nat_alt)
  have P: "unat ?P = 2 ^ um_page_shift um" "2 ^ um_page_shift um < (2 :: nat) ^ 28"
  proof -
    have "um_page_shift um < 28" using ok by (simp add: umem_ok_def)
    then show lt: "2 ^ um_page_shift um < (2 :: nat) ^ 28" by (rule power_strict_increasing) simp
    then have "unat (of_nat (2 ^ um_page_shift um) :: u32) = 2 ^ um_page_shift um" 
      by (simp add: unat_of_nat take_bit_nat_eq_self del: of_nat_power)
    then show "unat ?P = 2 ^ um_page_shift um" by (simp add: um_page_size_def)
  qed
  have ps: "\<forall>(a, l)\<in>set (concat (um_chunks um)). l = ?P \<and> unat a + unat l \<le> 2 ^ 36"
    "unat ?off < unat ?P" "unat ?off + unat len \<le> length (umem_addrs um)"
    using ok unfolding umem_ok_def word_less_nat_alt by simp_all
  have "0 < unat len" using len by (simp add: unat_gt_0)
  then have "umem_addrs um \<noteq> []" using ps(3) by auto
  then have "concat (um_chunks um) \<noteq> []" unfolding umem_addrs_def by (rule contrapos_nn) (simp only: list.map concat.simps)
  then obtain a l qs where c: "concat (um_chunks um) = (a, l) # qs" by (metis list.exhaust prod.exhaust)
  then have l: "l = ?P" "unat a + unat l \<le> 2 ^ 36" using ps(1) by auto
  have qs: "\<forall>(a, l)\<in>set qs. l \<noteq> 0 \<and> l < 2 ^ 28 \<and> unat a + unat l \<le> 2 ^ 36"
    using ps(1) c P by (auto simp: word_less_nat_alt split: prod.splits)
  define n where "n = min (l - ?off) ?b"
  have lo: "unat (l - ?off) = unat l - unat ?off" using ps(2) l(1) by (simp add: unat_sub word_le_nat_alt)
  have n: "unat n = min (unat l - unat ?off) (unat len)" using lo b by (simp add: n_def min_def word_le_nat_alt)
  have ao: "unat (a + ucast ?off :: u64) = unat a + unat ?off"
    using l ps(2) by (subst unat_add_lem[THEN iffD1]) (simp_all add: unsigned_ucast_eq take_bit_nat_eq_self)
  have a36: "unat (ucast (a + ucast ?off :: u64) :: 36 word) = unat a + unat ?off"
    using ao l ps(2) by (simp add: unsigned_ucast_eq take_bit_nat_eq_self)
  have ao2: "unat a + unat ?off + (unat ?P - unat ?off) = unat a + unat ?P" using ps(2) by simp
  have n28: "unat (ucast n :: 28 word) = unat n" using n l(1) P by (simp add: unsigned_ucast_eq take_bit_nat_eq_self)
  let ?s = "\<lparr>physicalAddr = ucast (a + ucast ?off), memlength = ucast n\<rparr>"
  have one: "umem_page_step ?off (a, l) ([], ?b) = ([?s], ?b - n)" by (simp add: umem_page_step_def n_def Let_def)
  have s: "sgl_fits [?s]" "sgl_addrs [?s] = take (unat len) (page_span (unat ?off) (a, l))"
    using a36 n28 n l ao2 unat_ucast_36[of "ucast (a + ucast ?off)"] unat_ucast_28[of "ucast n"]
    by (auto simp: sgl_fits_def sgl_addrs_Cons addr_span_def page_span_def min_def)
  have r: "unat (?b - n) = unat len - (unat l - unat ?off)"
    using n b by (simp add: unat_sub word_le_nat_alt min_def)
  note F = umem_fold_next[OF _ s(1) qs, of ?off "?b - n"]
  have e: "umem_sgl um len = fst (fold (umem_page_step ?off) qs ([?s], ?b - n))"
    unfolding umem_sgl_def umem_pages_ok[OF ok] c by (simp add: one)
  show "sgl_fits (umem_sgl um len)" using F by (simp add: e)
  have d: "drop (unat ?off) (umem_addrs um) = page_span (unat ?off) (a, l) @ concat (map (page_span 0) qs)"
    using ps(2) l(1) by (simp add: umem_addrs_def c page_span_def)
  have "length (page_span (unat ?off) (a, l)) = unat l - unat ?off" by (simp add: page_span_def)
  then show "sgl_addrs (umem_sgl um len) = take (unat len) (drop (unat ?off) (umem_addrs um))"
    using F by (simp add: e s(2) r d)
qed

lemma reg_sgl_length:
  assumes "umem_ok um len" "len \<noteq> 0"
  shows "length (sgl_addrs (umem_sgl um len)) = unat len"
proof -
  have "unat (um_offset um) + unat len \<le> length (umem_addrs um)" using assms(1) by (simp add: umem_ok_def)
  then show ?thesis using reg_sgl_addrs(2)[OF assms] by simp
qed

text \<open>The numbers are given when one attempt succeeds and every earlier one found more memory.\<close>

lemma alloc_id_total:
  assumes "\<forall>j<k. idr (p + j) = IdrAgain True" "idr (p + k) = IdrId n"
  shows "bgvrnic_alloc_id idr p = Some (0, n, p + k + 1)"
  using assms
proof (induction k arbitrary: p)
  case 0
  then show ?case by (simp add: bgvrnic_alloc_id.simps)
next
  case (Suc k)
  have "bgvrnic_alloc_id idr (p + 1) = Some (0, n, p + 1 + k + 1)"
    using Suc.prems by (intro Suc.IH) (auto dest: spec[of _ "Suc _"])
  moreover have "idr p = IdrAgain True" using Suc.prems(1) by (metis add_0_right zero_less_Suc)
  ultimately show ?case by (simp add: bgvrnic_alloc_id.simps[of idr p])
qed

lemma user_addrs_region:
  assumes "unat k < unat len" "unat k + unat n \<le> unat len"
    and "sgl_fits ss" "length (sgl_addrs ss) = unat len"
    and "pool key = Some \<lparr>mr_start = start, mr_length = len, mr_sge = ss\<rparr>"
  shows "sge_within pool \<lparr>sge_addr = start + k, sge_length = n, sge_lkey = key\<rparr>"
    "user_addrs pool \<lparr>sge_addr = start + k, sge_length = n, sge_lkey = key\<rparr> = take (unat n) (drop (unat k) (sgl_addrs ss))"
  using assms by (simp_all add: sge_within_def user_addrs_def mr_addrs_def)

lemma reg_user_mr_total:
  assumes "len \<noteq> 0" "reg_umem env start len = Inl um" "reg_kmalloc env = (True, True, True)"
    and "\<forall>j<k. reg_idr env (mr_prev_id st + j) = IdrAgain True" "reg_idr env (mr_prev_id st + k) = IdrId key"
  shows "bgvrnic_reg_user_mr env start len st = Some (Inr key, st\<lparr>mr_prev_id := mr_prev_id st + k + 1,
     mr_map := (mr_map st)(key \<mapsto> \<lparr>mr_start = start, mr_length = len, mr_sge = umem_sgl um len\<rparr>),
     mr_pinned := mr_pinned st + 1\<rparr>)"
  using assms(1-3) alloc_id_total[OF assms(4,5)] by (simp add: bgvrnic_reg_user_mr_def)

section \<open>Properties\<close>

text \<open>
  C13: a translated list names the user's bytes.  If every entry lies in a registered region, the
  translation gives the sum of the lengths and a list whose bytes are the physical addresses of the
  user's bytes, in order, or \<^verbatim>\<open>-E2BIG\<close>; this only happens when the regions together have at least as
  many pieces as the list has room for.
\<close>

theorem xlate_sgl_refines:
  assumes "\<forall>u\<in>set usge. sge_within pool u" "length psge = MUDM_MAX_SGE"
  shows "\<exists>psge' n. length psge' = MUDM_MAX_SGE \<and>
    (bgvrnic_xlate_sgl pool usge psge MUDM_MAX_SGE = Some (sum_list (map sge_length usge), psge', n) \<and>
       n < MUDM_MAX_SGE \<and> sgl_addrs (take n psge') = concat (map (user_addrs pool) usge) \<or>
     bgvrnic_xlate_sgl pool usge psge MUDM_MAX_SGE = Some (- errno_nr E2BIG, psge', MUDM_MAX_SGE) \<and>
       MUDM_MAX_SGE \<le> sum_list (map (sge_pieces pool) usge))"
proof -
  have pos: "0 < MUDM_MAX_SGE" by (simp add: MUDM_MAX_SGE_def)
  from xlate_total[OF assms(1) pos, of psge] obtain ts where T: "length ts \<le> MUDM_MAX_SGE"
    "bgvrnic_xlate_sgl pool usge psge MUDM_MAX_SGE = Some (sum_list (map sge_length usge), ts @ drop (length ts) psge, length ts) \<and>
       length ts < MUDM_MAX_SGE \<and> sgl_addrs ts = concat (map (user_addrs pool) usge) \<or>
     bgvrnic_xlate_sgl pool usge psge MUDM_MAX_SGE = Some (- errno_nr E2BIG, ts @ drop (length ts) psge, MUDM_MAX_SGE) \<and>
       MUDM_MAX_SGE \<le> sum_list (map (sge_pieces pool) usge)" by blast
  have l: "length (ts @ drop (length ts) psge) = MUDM_MAX_SGE" using T(1) assms(2) by simp
  from T(2) show ?thesis
  proof (elim disjE conjE)
    assume "bgvrnic_xlate_sgl pool usge psge MUDM_MAX_SGE = Some (sum_list (map sge_length usge), ts @ drop (length ts) psge, length ts)"
      "length ts < MUDM_MAX_SGE" "sgl_addrs ts = concat (map (user_addrs pool) usge)"
    with l show ?thesis
      by (intro exI[of _ "ts @ drop (length ts) psge"] exI[of _ "length ts"]) simp
  next
    assume "bgvrnic_xlate_sgl pool usge psge MUDM_MAX_SGE = Some (- errno_nr E2BIG, ts @ drop (length ts) psge, MUDM_MAX_SGE)"
      "MUDM_MAX_SGE \<le> sum_list (map (sge_pieces pool) usge)"
    with l show ?thesis
      by (intro exI[of _ "ts @ drop (length ts) psge"] exI[of _ MUDM_MAX_SGE]) simp
  qed
qed

definition demo_mr :: bgvrnic_mr where
  "demo_mr = \<lparr>mr_start = 0x1000, mr_length = 10,
     mr_sge = [\<lparr>physicalAddr = 0x500, memlength = 4\<rparr>, \<lparr>physicalAddr = 0x900, memlength = 6\<rparr>]\<rparr>"

definition demo_usge :: ib_sge where
  "demo_usge = \<lparr>sge_addr = 0x1002, sge_length = 5, sge_lkey = 3\<rparr>"

lemma demo_mr_fits: "sgl_fits (mr_sge demo_mr)"
  by (simp add: sgl_fits_def demo_mr_def)

lemma demo_mr_addrs: "mr_addrs demo_mr = [0x500..<0x504] @ [0x900..<0x906]"
  by (simp add: mr_addrs_def demo_mr_def sgl_addrs_def addr_span_def del: upt_rec_numeral)

lemma demo_usge_within: "sge_within [3 \<mapsto> demo_mr] demo_usge"
  using demo_mr_fits by (simp add: sge_within_def demo_mr_addrs del: upt_rec_numeral) (simp add: demo_usge_def demo_mr_def)

theorem xlate_sgl_refines_witness:
  "\<exists>psge' n. bgvrnic_xlate_sgl [3 \<mapsto> demo_mr] [demo_usge] (replicate 58 undefined) MUDM_MAX_SGE = Some (5, psge', n) \<and>
     sgl_addrs (take n psge') = [0x502, 0x503, 0x900, 0x901, 0x902]"
proof -
  have w: "\<forall>u\<in>set [demo_usge]. sge_within [3 \<mapsto> demo_mr] u" using demo_usge_within by simp
  have l: "length (replicate 58 (undefined :: mudm_sgl)) = MUDM_MAX_SGE" by (simp add: MUDM_MAX_SGE_def)
  have s: "sum_list (map sge_length [demo_usge]) = 5" "\<not> MUDM_MAX_SGE \<le> sum_list (map (sge_pieces [3 \<mapsto> demo_mr]) [demo_usge])"
    by (simp_all add: demo_usge_def demo_mr_def sge_pieces_def MUDM_MAX_SGE_def)
  have a: "concat (map (user_addrs [3 \<mapsto> demo_mr]) [demo_usge]) = [0x502, 0x503, 0x900, 0x901, 0x902]"
    by (simp add: user_addrs_def demo_mr_addrs) (simp add: demo_usge_def demo_mr_def)
  from xlate_sgl_refines[OF w l] show ?thesis unfolding s(1) a using s(2) by blast
qed


definition demo_umem :: ib_umem where
  "demo_umem = \<lparr>um_chunks = [[(0x1000, 16), (0x1010, 16)], [(0x4000, 16)]], um_offset = 4, um_page_shift = 4\<rparr>"

definition demo_reg_env :: reg_env where
  "demo_reg_env = \<lparr>reg_umem = (\<lambda>_ _. Inl demo_umem), reg_idr = (\<lambda>n. if n = 0 then IdrAgain True else IdrId (of_nat n)),
     reg_kmalloc = (True, True, True)\<rparr>"


end
