(* ===== verification/Vrnic_Cq.thy ===== *)
theory Vrnic_Cq
  imports Vrnic_Sgl
begin

text \<open>
  Work requests, work queue entries and completion queues of the verbs driver (\<^verbatim>\<open>bgvrnic/bgvrnic.h\<close>,
  the completion queues of \<^verbatim>\<open>bgvrnic/bgvrnic_verbs.c\<close>), and the state of the device.  Work queue
  entries are addressed: the address is the request id the data mover reports back.
\<close>

section \<open>Requests and completions\<close>

text \<open>The enumerations of the verbs interface; the array \<^verbatim>\<open>sg_list\<close> of \<^verbatim>\<open>num_sge\<close> entries is a list.\<close>

datatype ib_wr_opcode = IB_WR_RDMA_WRITE | IB_WR_RDMA_WRITE_WITH_IMM | IB_WR_SEND | IB_WR_SEND_WITH_IMM
  | IB_WR_RDMA_READ | IB_WR_ATOMIC_CMP_AND_SWP | IB_WR_ATOMIC_FETCH_AND_ADD | IB_WR_LSO | IB_WR_SEND_WITH_INV
  | IB_WR_RDMA_READ_WITH_INV | IB_WR_LOCAL_INV | IB_WR_FAST_REG_MR

datatype ib_wc_opcode = IB_WC_SEND | IB_WC_RDMA_WRITE | IB_WC_RDMA_READ | IB_WC_RECV

definition IB_WC_SUCCESS :: u32 where "IB_WC_SUCCESS = 0"
definition IB_WC_LOC_LEN_ERR :: u32 where "IB_WC_LOC_LEN_ERR = 1"
definition IB_WC_REM_ABORT_ERR :: u32 where "IB_WC_REM_ABORT_ERR = 16"
definition IB_WC_GENERAL_ERR :: u32 where "IB_WC_GENERAL_ERR = 21"
definition IB_SEND_SIGNALED :: u32 where "IB_SEND_SIGNALED = 2"
definition IB_SEND_SOLICITED :: u32 where "IB_SEND_SOLICITED = 4"
definition IB_CQ_SOLICITED :: u32 where "IB_CQ_SOLICITED = 1"
definition IB_CQ_NEXT_COMP :: u32 where "IB_CQ_NEXT_COMP = 2"
definition IB_CQ_SOLICITED_MASK :: u32 where "IB_CQ_SOLICITED_MASK = IB_CQ_SOLICITED OR IB_CQ_NEXT_COMP"

record ib_send_wr =
  sw_wr_id :: u64
  sw_sg_list :: "ib_sge list"
  sw_opcode :: ib_wr_opcode
  sw_flags :: u32
  sw_imm_data :: u32
  sw_remote_addr :: u64
  sw_rkey :: u32

record ib_recv_wr =
  rw_wr_id :: u64
  rw_sg_list :: "ib_sge list"

record ib_wc =
  wc_wr_id :: u64
  wc_status :: u32
  wc_opcode :: ib_wc_opcode
  wc_vendor_err :: u32
  wc_byte_len :: u32
  wc_src_qp :: u32
  wc_imm :: "u32 option"

text \<open>A queue of completions: the list \<^verbatim>\<open>entries\<close>, and the events asked for.\<close>

record bgvrnic_cq =
  cq_flags :: u32
  cq_entries :: "ib_wc list"

datatype vrnic_wr = SendWr ib_send_wr | RecvWr ib_recv_wr

fun send_wc_opcode :: "ib_wr_opcode \<Rightarrow> ib_wc_opcode option" where
  "send_wc_opcode IB_WR_RDMA_WRITE = Some IB_WC_RDMA_WRITE"
| "send_wc_opcode IB_WR_RDMA_WRITE_WITH_IMM = Some IB_WC_RDMA_WRITE"
| "send_wc_opcode IB_WR_SEND = Some IB_WC_SEND"
| "send_wc_opcode IB_WR_SEND_WITH_IMM = Some IB_WC_SEND"
| "send_wc_opcode IB_WR_SEND_WITH_INV = Some IB_WC_SEND"
| "send_wc_opcode IB_WR_RDMA_READ = Some IB_WC_RDMA_READ"
| "send_wc_opcode IB_WR_RDMA_READ_WITH_INV = Some IB_WC_RDMA_READ"
| "send_wc_opcode _ = None"

definition wr_wc :: "vrnic_wr \<Rightarrow> (ib_wc_opcode \<times> u64) option" where
  "wr_wc wr = (case wr of SendWr w \<Rightarrow> map_option (\<lambda>oc. (oc, sw_wr_id w)) (send_wc_opcode (sw_opcode w))
     | RecvWr w \<Rightarrow> Some (IB_WC_RECV, rw_wr_id w))"

definition wc_status_of :: "u32 \<Rightarrow> u32 \<times> u32" where
  "wc_status_of status =
     (if status = 0 then (IB_WC_SUCCESS, 0) else if sint status < 0 then (IB_WC_GENERAL_ERR, status) else (status, 0))"

definition make_wc :: "u32 \<Rightarrow> vrnic_wr \<Rightarrow> u32 \<Rightarrow> u32 \<Rightarrow> u32 \<Rightarrow> ib_wc option" where
  "make_wc qp_num wr len status imm_data = map_option (\<lambda>(opcode, wr_id).
     \<lparr>wc_wr_id = wr_id, wc_status = fst (wc_status_of status), wc_opcode = opcode, wc_vendor_err = snd (wc_status_of status),
      wc_byte_len = len, wc_src_qp = qp_num, wc_imm = (if imm_data \<noteq> 0 then Some imm_data else None)\<rparr>) (wr_wc wr)"

text \<open>
  The new entry, given whether \<^verbatim>\<open>kmalloc\<close> succeeds: the result, the queue, and whether the
  completion handler is called.  \<^verbatim>\<open>imm_data_valid\<close> is passed by the callers and not used.
\<close>

definition bgvrnic_add_cqe ::
  "bool \<Rightarrow> u32 \<Rightarrow> vrnic_wr \<Rightarrow> u32 \<Rightarrow> u32 \<Rightarrow> u32 \<Rightarrow> bgvrnic_cq \<Rightarrow> (u32 \<times> bgvrnic_cq \<times> bool) option" where
  "bgvrnic_add_cqe kmalloc qp_num wr len status imm_data cq =
     (if \<not> kmalloc then Some (- errno_nr ENOMEM, cq, False)
      else map_option (\<lambda>wc. (0, cq\<lparr>cq_entries := cq_entries cq @ [wc], cq_flags := 0\<rparr>,
             case wr of SendWr _ \<Rightarrow> wc_status wc \<noteq> IB_WC_SUCCESS \<or> cq_flags cq AND IB_CQ_NEXT_COMP \<noteq> 0 | RecvWr _ \<Rightarrow> True))
           (make_wc qp_num wr len status imm_data))"

definition bgvrnic_remove_cqe :: "bgvrnic_cq \<Rightarrow> ib_wc option \<times> bgvrnic_cq" where
  "bgvrnic_remove_cqe cq = (case cq_entries cq of [] \<Rightarrow> (None, cq) | wc # wcs \<Rightarrow> (Some wc, cq\<lparr>cq_entries := wcs\<rparr>))"

text \<open>The completions found, at most \<^verbatim>\<open>numCQEs\<close>; the result is their number.\<close>

fun poll_cq_loop :: "nat \<Rightarrow> bgvrnic_cq \<Rightarrow> ib_wc list \<times> bgvrnic_cq" where
  "poll_cq_loop 0 cq = ([], cq)"
| "poll_cq_loop (Suc n) cq =
     (case bgvrnic_remove_cqe cq of
        (None, cq1) \<Rightarrow> ([], cq1)
      | (Some wc, cq1) \<Rightarrow> (let (wcs, cq2) = poll_cq_loop n cq1 in (wc # wcs, cq2)))"

definition bgvrnic_poll_cq :: "u32 \<Rightarrow> bgvrnic_cq \<Rightarrow> u32 \<times> ib_wc list \<times> bgvrnic_cq" where
  "bgvrnic_poll_cq numCQEs cq = (let (wcs, cq1) = poll_cq_loop (unat numCQEs) cq in (of_nat (length wcs), wcs, cq1))"

definition bgvrnic_req_notify_cq :: "u32 \<Rightarrow> bgvrnic_cq \<Rightarrow> u32 \<times> bgvrnic_cq" where
  "bgvrnic_req_notify_cq flags cq =
     (if flags \<in> {IB_CQ_SOLICITED, IB_CQ_NEXT_COMP, IB_CQ_SOLICITED_MASK} then (0, cq\<lparr>cq_flags := cq_flags cq OR flags\<rparr>)
      else (- errno_nr EINVAL, cq))"

lemma poll_cq_take: "poll_cq_loop n cq = (take n (cq_entries cq), cq\<lparr>cq_entries := drop n (cq_entries cq)\<rparr>)"
proof (induction n arbitrary: cq)
  case 0
  then show ?case by simp
next
  case (Suc n)
  then show ?case by (cases "cq_entries cq") (simp_all add: bgvrnic_remove_cqe_def)
qed

section \<open>Work queue entries and the device\<close>

datatype wqe_state = WQES_INIT | WQES_WAIT | WQES_RUN | WQES_DONE | WQES_INVALID

datatype wqe_type = WQET_SEND | WQET_RECV | WQET_RDMA

text \<open>The union \<^verbatim>\<open>wr\<close> has no member for an entry of an RDMA operation.\<close>

record bgvrnic_wqe =
  wqe_qp :: nat
  wqe_st :: wqe_state
  wqe_length :: u32
  wqe_status :: u32
  wqe_ty :: wqe_type
  wqe_wr :: "vrnic_wr option"
  imm_data_valid :: bool
  imm_data :: u32

text \<open>
  A queue pair; the lists \<^verbatim>\<open>sq\<close> and \<^verbatim>\<open>rq\<close> hold the addresses of their entries.  \<^verbatim>\<open>mu_context\<close> is the
  index of the connection, \<^verbatim>\<open>scq\<close> and \<^verbatim>\<open>rcq\<close> say which completion queue is meant, \<^verbatim>\<open>cm_id\<close> which
  identifier of the connection manager is attached.
\<close>

datatype ib_qp_state = IB_QPS_RESET | IB_QPS_INIT | IB_QPS_RTR | IB_QPS_RTS | IB_QPS_SQD | IB_QPS_SQE | IB_QPS_ERR

record bgvrnic_qp =
  qp_num :: u32
  qp_state :: ib_qp_state
  rq_psn :: u32
  sq_sig_all :: bool
  max_recv_sge :: u32
  mu_conn :: "nat option"
  dest_qp_num :: u32
  cm_id :: "nat option"
  references :: int
  scq :: nat
  rcq :: nat
  sq :: "u64 list"
  rq :: "u64 list"

text \<open>
  What the driver tells the outside: completion handlers, and events for an identifier of the connection
  manager.  A request and a reply carry the local and the remote address, the private data and the
  endpoint, a reply and a disconnect a status.
\<close>

record sockaddr_in =
  sin_addr :: u32
  sin_port :: u16

datatype cm_event = CM_CONNECT_REQUEST sockaddr_in sockaddr_in "u8 list option" u64
  | CM_CONNECT_REPLY u32 sockaddr_in sockaddr_in "u8 list option" u64
  | CM_ESTABLISHED sockaddr_in sockaddr_in "u8 list option"
  | CM_DISCONNECT u32 | CM_CLOSE

datatype vrnic_event = CompEvent nat | CmEvent nat cm_event

record vrnic =
  v_qps :: "nat \<Rightarrow> bgvrnic_qp"
  v_qpns :: "u32 \<rightharpoonup> nat"
  v_wqes :: "u64 \<rightharpoonup> bgvrnic_wqe"
  v_cqs :: "nat \<Rightarrow> bgvrnic_cq"
  v_mrs :: mr_pool
  v_mc :: my_context
  v_mem :: "nat \<Rightarrow> u8"
  v_mallocs :: nat
  v_calls :: nat
  v_events :: "vrnic_event list"

text \<open>
  What the driver reads: the addresses \<^verbatim>\<open>kmalloc\<close> gives, in order, 0 when there is no memory; the
  time and the counters at each call into the data mover; the hardware; what the connection manager
  answers to each event; the uninitialised structures on the stack, and the memory behind the
  entries of a received description.
\<close>

record vrnic_env =
  ve_kmalloc :: "nat \<Rightarrow> u64"
  ve_now :: "nat \<Rightarrow> u64"
  ve_hws :: hws
  ve_cnt :: "nat \<Rightarrow> nat \<Rightarrow> u64"
  ve_cm :: "nat \<Rightarrow> u32"
  ve_payload :: ionet_send_remote_payload
  ve_stack :: sgl_mem
  ve_behind :: sgl_mem

definition upd_qp :: "nat \<Rightarrow> (bgvrnic_qp \<Rightarrow> bgvrnic_qp) \<Rightarrow> vrnic \<Rightarrow> vrnic" where
  "upd_qp q f v = v\<lparr>v_qps := (v_qps v)(q := f (v_qps v q))\<rparr>"

definition upd_wqe :: "u64 \<Rightarrow> (bgvrnic_wqe \<Rightarrow> bgvrnic_wqe) \<Rightarrow> vrnic \<Rightarrow> vrnic" where
  "upd_wqe w f v = v\<lparr>v_wqes := (v_wqes v)(w := map_option f (v_wqes v w))\<rparr>"

definition vrnic_kmalloc :: "vrnic_env \<Rightarrow> vrnic \<Rightarrow> u64 \<times> vrnic" where
  "vrnic_kmalloc env v = (ve_kmalloc env (v_mallocs v), v\<lparr>v_mallocs := v_mallocs v + 1\<rparr>)"

text \<open>
  A new entry: the structure and then its copy of the scatter-gather list; without memory for the
  list the structure is freed again.
\<close>

definition new_wqe :: "wqe_type \<Rightarrow> vrnic_wr option \<Rightarrow> nat \<Rightarrow> bgvrnic_wqe" where
  "new_wqe ty wr q = \<lparr>wqe_qp = q, wqe_st = WQES_INIT, wqe_length = (if ty = WQET_RECV then -1 else 0), wqe_status = 0,
     wqe_ty = ty, wqe_wr = wr, imm_data_valid = False, imm_data = 0\<rparr>"

definition bgvrnic_alloc_wqe :: "vrnic_env \<Rightarrow> wqe_type \<Rightarrow> vrnic_wr option \<Rightarrow> nat \<Rightarrow> vrnic \<Rightarrow> u64 \<times> vrnic" where
  "bgvrnic_alloc_wqe env ty wr q v =
     (let (w, v1) = vrnic_kmalloc env v in
      if w = 0 then (0, v1)
      else if ty = WQET_RDMA then (w, v1\<lparr>v_wqes := (v_wqes v1)(w \<mapsto> new_wqe ty wr q)\<rparr>)
      else let (sg_list, v2) = vrnic_kmalloc env v1 in
           if sg_list = 0 then (0, v2) else (w, v2\<lparr>v_wqes := (v_wqes v2)(w \<mapsto> new_wqe ty wr q)\<rparr>))"

definition bgvrnic_free_wqe :: "u64 \<Rightarrow> vrnic \<Rightarrow> vrnic" where
  "bgvrnic_free_wqe w v = v\<lparr>v_wqes := (v_wqes v)(w := None)\<rparr>"

text \<open>\<^verbatim>\<open>bgvrnic_add_cqe\<close> for an entry, on one of the completion queues of the device.\<close>

definition add_cqe_for :: "vrnic_env \<Rightarrow> nat \<Rightarrow> nat \<Rightarrow> bgvrnic_wqe \<Rightarrow> vrnic \<Rightarrow> (u32 \<times> vrnic) option" where
  "add_cqe_for env c q wqe v =
     (case wqe_wr wqe of None \<Rightarrow> None
      | Some wr \<Rightarrow>
         (let (p, v1) = vrnic_kmalloc env v in
          map_option (\<lambda>(rc, cq, event). (rc, v1\<lparr>v_cqs := (v_cqs v1)(c := cq),
              v_events := v_events v1 @ (if event then [CompEvent c] else [])\<rparr>))
            (bgvrnic_add_cqe (p \<noteq> 0) (qp_num (v_qps v q)) wr (wqe_length wqe) (wqe_status wqe) (imm_data wqe) (v_cqs v1 c))))"

end
