(* ===== verification/Vrnic_Send.thy ===== *)
theory Vrnic_Send
  imports Vrnic_Cq Mudm_Recv
begin

text \<open>
  The send side of the verbs driver, \<^verbatim>\<open>bgvrnic/bgvrnic_verbs.c\<close>: posting send requests, handing them
  to the data mover and completing them in order.
\<close>

section \<open>Handing an entry to the data mover\<close>

text \<open>
  The description of the user's memory.  \<^verbatim>\<open>data_length\<close> is unsigned: the test for a negative result
  of the translation behind it never holds, and the entry is sent in any case.
\<close>

definition send_payload :: "vrnic_env \<Rightarrow> u64 \<Rightarrow> bgvrnic_wqe \<Rightarrow> ib_send_wr \<Rightarrow> vrnic \<Rightarrow> ionet_send_remote_payload option" where
  "send_payload env w wqe wr v =
     map_option (\<lambda>(len, psge, n).
        (ve_payload env)\<lparr>RequestID := w, sgl_num := of_nat n, data_length := len, SGE := psge,
           immediate_data := (if imm_data_valid wqe then imm_data wqe else immediate_data (ve_payload env)),
           rem_flags := (if imm_data_valid wqe then 1 else 0) OR (if sw_flags wr AND IB_SEND_SOLICITED \<noteq> 0 then 2 else 0)\<rparr>)
       (bgvrnic_xlate_sgl (v_mrs v) (sw_sg_list wr) (SGE (ve_payload env)) MUDM_MAX_SGE)"

definition MUDM_MAX_PAYLOAD_SIZE :: u32 where "MUDM_MAX_PAYLOAD_SIZE = 512"

text \<open>The call for each operation; an operation the driver does not know leaves the status as it is.\<close>

definition rdma_payload :: "ib_send_wr \<Rightarrow> ionet_send_remote_payload \<Rightarrow> ionet_send_remote_payload" where
  "rdma_payload wr p = p\<lparr>remote_vaddr := sw_remote_addr wr, rkey := sw_rkey wr\<rparr>"

definition send_call ::
  "vrnic_env \<Rightarrow> nat \<Rightarrow> u64 \<Rightarrow> bgvrnic_wqe \<Rightarrow> ib_send_wr \<Rightarrow> ionet_send_remote_payload \<Rightarrow> vrnic \<Rightarrow> (u32 \<times> vrnic) option" where
  "send_call env x w wqe wr p v =
     (let hs = ve_hws env; now = ve_now env (v_calls v);
          remote = (\<lambda>ty p. mudm_send_message_remote hs now x ty p (v_mc v));
          done = map_option (\<lambda>(r, mc). (ret_int r, v\<lparr>v_mc := mc, v_calls := v_calls v + 1\<rparr>))
      in case sw_opcode wr of
           IB_WR_SEND \<Rightarrow>
             if sgl_num p = 1 \<and> data_length p \<le> MUDM_MAX_PAYLOAD_SIZE
             then done (mudm_send_pkt hs now x w MUDM_PKT_DATA_IMM (ucast (physicalAddr (SGE p ! 0)))
                          (ucast (memlength (SGE p ! 0))) (v_mc v))
             else done (remote MUDM_PKT_DATA_REMOTE p)
         | IB_WR_SEND_WITH_IMM \<Rightarrow> done (remote MUDM_PKT_DATA_REMOTE p)
         | IB_WR_RDMA_READ \<Rightarrow> done (remote MUDM_RDMA_WRITE (rdma_payload wr p))
         | IB_WR_RDMA_WRITE \<Rightarrow> done (remote MUDM_RDMA_READ (rdma_payload wr p))
         | IB_WR_RDMA_WRITE_WITH_IMM \<Rightarrow> done (remote MUDM_RDMA_READ (rdma_payload wr p))
         | _ \<Rightarrow> Some (wqe_status wqe, v))"

section \<open>The walk over the send queue\<close>

definition wqe_signaled :: "bgvrnic_qp \<Rightarrow> ib_send_wr \<Rightarrow> bool" where
  "wqe_signaled qp wr \<longleftrightarrow> sq_sig_all qp \<or> sw_flags wr AND IB_SEND_SIGNALED \<noteq> 0"

text \<open>Completing an entry: a completion if one is wanted, and the entry leaves the queue and is freed.\<close>

definition complete_send :: "vrnic_env \<Rightarrow> nat \<Rightarrow> u64 \<Rightarrow> bgvrnic_wqe \<Rightarrow> ib_send_wr \<Rightarrow> u32 \<Rightarrow> vrnic \<Rightarrow> (u32 \<times> vrnic) option" where
  "complete_send env q w wqe wr rc v =
     map_option (\<lambda>(rc1, v1). (rc1, bgvrnic_free_wqe w (upd_qp q (\<lambda>qp. qp\<lparr>sq := remove1 w (sq qp)\<rparr>) v1)))
       (if wqe_signaled (v_qps v q) wr then add_cqe_for env (scq (v_qps v q)) q wqe v else Some (rc, v))"

text \<open>Sending one entry: how far it got, \<open>None\<close> for the status \<^verbatim>\<open>BUG\<close> is called on.\<close>

definition send_state :: "u32 \<Rightarrow> wqe_state option" where
  "send_state status =
     (if status = 0 \<or> status = - errno_nr ECANCELED then Some WQES_DONE
      else if status = - errno_nr EINPROGRESS then Some WQES_RUN
      else if status = - errno_nr EBUSY then Some WQES_WAIT
      else None)"

definition send_wqe :: "vrnic_env \<Rightarrow> nat \<Rightarrow> u64 \<Rightarrow> bgvrnic_wqe \<Rightarrow> ib_send_wr \<Rightarrow> vrnic \<Rightarrow> (bgvrnic_wqe \<times> vrnic) option" where
  "send_wqe env q w wqe wr v =
     (case (mu_conn (v_qps v q), send_payload env w wqe wr v) of
        (Some x, Some p) \<Rightarrow>
          (case send_call env x w wqe wr p v of
             None \<Rightarrow> None
           | Some (status, v1) \<Rightarrow>
               map_option (\<lambda>s. (wqe\<lparr>wqe_length := data_length p, wqe_st := s,
                     wqe_status := (if status = - errno_nr ECANCELED then IB_WC_REM_ABORT_ERR else status)\<rparr>, v1))
                 (send_state status))
      | _ \<Rightarrow> None)"

fun send_walk :: "vrnic_env \<Rightarrow> nat \<Rightarrow> u64 list \<Rightarrow> u32 \<Rightarrow> u32 \<Rightarrow> vrnic \<Rightarrow> (u32 \<times> u32 \<times> vrnic) option" where
  "send_walk env q [] rc remaining v = Some (rc, remaining, v)"
| "send_walk env q (w # ws) rc remaining v =
     (case v_wqes v w of None \<Rightarrow> None
      | Some wqe \<Rightarrow>
         (case wqe_wr wqe of
            Some (SendWr wr) \<Rightarrow>
              (case wqe_st wqe of
                 WQES_RUN \<Rightarrow> Some (rc, remaining + 1, v)
               | WQES_DONE \<Rightarrow>
                  (case complete_send env q w wqe wr rc v of None \<Rightarrow> None
                   | Some (rc1, v1) \<Rightarrow> send_walk env q ws rc1 remaining v1)
               | WQES_INVALID \<Rightarrow> None
               | _ \<Rightarrow>
                  (case send_wqe env q w wqe wr v of None \<Rightarrow> None
                   | Some (wqe1, v1) \<Rightarrow>
                      (let v2 = upd_wqe w (\<lambda>_. wqe1) v1 in
                       if wqe_st wqe1 = WQES_DONE then
                         (case complete_send env q w wqe1 wr rc v2 of None \<Rightarrow> None
                          | Some (rc1, v3) \<Rightarrow> send_walk env q ws rc1 remaining v3)
                       else send_walk env q ws rc (remaining + 1) v2)))
          | _ \<Rightarrow> None))"

definition bgvrnic_process_send_wqes :: "vrnic_env \<Rightarrow> nat \<Rightarrow> vrnic \<Rightarrow> (u32 \<times> vrnic) option" where
  "bgvrnic_process_send_wqes env q v =
     map_option (\<lambda>(rc, remaining, v1). (if sint rc < 0 then rc else remaining, v1)) (send_walk env q (sq (v_qps v q)) 0 0 v)"

section \<open>Posting\<close>

fun send_imm :: "ib_wr_opcode \<Rightarrow> bool option" where
  "send_imm IB_WR_SEND = Some False"
| "send_imm IB_WR_RDMA_WRITE = Some False"
| "send_imm IB_WR_SEND_WITH_IMM = Some True"
| "send_imm IB_WR_RDMA_WRITE_WITH_IMM = Some True"
| "send_imm IB_WR_RDMA_READ = Some False"
| "send_imm _ = None"

text \<open>
  The loop over the requests: the result, the requests from the bad one on, whether the queue is
  processed behind the loop (\<^verbatim>\<open>break\<close>) or not (\<^verbatim>\<open>goto out\<close>), and the state.  The entry of a read
  with several pieces is not freed.
\<close>

fun post_send_loop :: "vrnic_env \<Rightarrow> nat \<Rightarrow> ib_send_wr list \<Rightarrow> vrnic \<Rightarrow> u32 \<times> ib_send_wr list \<times> bool \<times> vrnic" where
  "post_send_loop env q [] v = (0, [], True, v)"
| "post_send_loop env q (wr # wrs) v =
     (if max_recv_sge (v_qps v q) < of_nat (length (sw_sg_list wr)) then (- errno_nr EINVAL, wr # wrs, True, v)
      else
       (let (w, v1) = bgvrnic_alloc_wqe env WQET_SEND (Some (SendWr wr)) q v in
        if w = 0 then (- errno_nr ENOMEM, wr # wrs, True, v1)
        else case send_imm (sw_opcode wr) of
               None \<Rightarrow> (- errno_nr EOPNOTSUPP, wr # wrs, False, bgvrnic_free_wqe w v1)
             | Some imm \<Rightarrow>
                 if sw_opcode wr = IB_WR_RDMA_READ \<and> 1 < length (sw_sg_list wr) then (- errno_nr EINVAL, wr # wrs, False, v1)
                 else (let v2 = (if imm then upd_wqe w (\<lambda>e. e\<lparr>imm_data_valid := True, imm_data := sw_imm_data wr\<rparr>) v1 else v1)
                       in post_send_loop env q wrs (upd_qp q (\<lambda>qp. qp\<lparr>sq := sq qp @ [w]\<rparr>) v2))))"

definition bgvrnic_post_send :: "vrnic_env \<Rightarrow> nat \<Rightarrow> ib_send_wr list \<Rightarrow> vrnic \<Rightarrow> (u32 \<times> ib_send_wr list \<times> vrnic) option" where
  "bgvrnic_post_send env q wrs v =
     (if qp_state (v_qps v q) \<noteq> IB_QPS_RTS then Some (- errno_nr EINVAL, [], v)
      else case post_send_loop env q wrs v of
        (rc, bad_wr, process, v1) \<Rightarrow>
          if process then map_option (\<lambda>(_, v2). (rc, bad_wr, v2)) (bgvrnic_process_send_wqes env q v1)
          else Some (rc, bad_wr, v1))"

end
