(* ===== verification/Vrnic_Recv.thy ===== *)
theory Vrnic_Recv
  imports Vrnic_Send Mudm_Read
begin

text \<open>
  The receive side of the verbs driver: posting buffers and completing them
  (\<^verbatim>\<open>bgvrnic/bgvrnic_verbs.c\<close>), the callback on status reports of the data mover, and the callback on
  messages (\<^verbatim>\<open>bgvrnic/bgvrnic_main.c\<close>), which scatters a payload into the buffer at the head of the
  queue or starts the remote read a description asks for.
\<close>

section \<open>The receive queue\<close>

definition complete_recv :: "vrnic_env \<Rightarrow> nat \<Rightarrow> u64 \<Rightarrow> bgvrnic_wqe \<Rightarrow> vrnic \<Rightarrow> (u32 \<times> vrnic) option" where
  "complete_recv env q w wqe v =
     map_option (\<lambda>(rc, v1). (rc, bgvrnic_free_wqe w (upd_qp q (\<lambda>qp. qp\<lparr>rq := remove1 w (rq qp)\<rparr>) v1)))
       (add_cqe_for env (rcq (v_qps v q)) q wqe v)"

fun recv_walk :: "vrnic_env \<Rightarrow> nat \<Rightarrow> u64 list \<Rightarrow> u32 \<Rightarrow> vrnic \<Rightarrow> (u32 \<times> vrnic) option" where
  "recv_walk env q [] rc v = Some (rc, v)"
| "recv_walk env q (w # ws) rc v =
     (case v_wqes v w of None \<Rightarrow> None
      | Some wqe \<Rightarrow>
         (case wqe_st wqe of
            WQES_DONE \<Rightarrow>
              (case complete_recv env q w wqe v of None \<Rightarrow> None | Some (rc1, v1) \<Rightarrow> recv_walk env q ws rc1 v1)
          | WQES_INIT \<Rightarrow> Some (rc, v)
          | WQES_RUN \<Rightarrow> Some (rc, v)
          | _ \<Rightarrow> None))"

definition bgvrnic_process_recv_wqes :: "vrnic_env \<Rightarrow> nat \<Rightarrow> vrnic \<Rightarrow> (u32 \<times> vrnic) option" where
  "bgvrnic_process_recv_wqes env q v = recv_walk env q (rq (v_qps v q)) 0 v"

fun post_recv_loop :: "vrnic_env \<Rightarrow> nat \<Rightarrow> ib_recv_wr list \<Rightarrow> vrnic \<Rightarrow> u32 \<times> ib_recv_wr list \<times> vrnic" where
  "post_recv_loop env q [] v = (0, [], v)"
| "post_recv_loop env q (wr # wrs) v =
     (if max_recv_sge (v_qps v q) < of_nat (length (rw_sg_list wr)) then (- errno_nr EINVAL, wr # wrs, v)
      else let (w, v1) = bgvrnic_alloc_wqe env WQET_RECV (Some (RecvWr wr)) q v in
           if w = 0 then (- errno_nr ENOMEM, wr # wrs, v1)
           else post_recv_loop env q wrs (upd_qp q (\<lambda>qp. qp\<lparr>rq := rq qp @ [w]\<rparr>) v1))"

text \<open>Shared receive queues (\<^verbatim>\<open>ib_qp->srq\<close>) do not exist: the driver cannot create one.\<close>

definition bgvrnic_post_recv :: "vrnic_env \<Rightarrow> nat \<Rightarrow> ib_recv_wr list \<Rightarrow> vrnic \<Rightarrow> u32 \<times> ib_recv_wr list \<times> vrnic" where
  "bgvrnic_post_recv env q wrs v =
     (if qp_state (v_qps v q) \<in> {IB_QPS_RESET, IB_QPS_ERR} then (- errno_nr EINVAL, [], v)
      else post_recv_loop env q wrs v)"

section \<open>Status reports\<close>

text \<open>The status of an entry is taken over when it is negative; a receive entry starts with 0.\<close>

definition wqe_done :: "u32 \<Rightarrow> bgvrnic_wqe \<Rightarrow> bgvrnic_wqe" where
  "wqe_done status e = e\<lparr>wqe_status := (if sint (wqe_status e) < 0 then status else wqe_status e), wqe_st := WQES_DONE\<rparr>"

definition status_one :: "vrnic_env \<Rightarrow> u64 \<Rightarrow> u32 \<Rightarrow> vrnic \<Rightarrow> vrnic option" where
  "status_one env w status v =
     (case v_wqes v w of None \<Rightarrow> None
      | Some wqe \<Rightarrow>
         (let v1 = upd_wqe w (wqe_done status) v in
          case wqe_ty wqe of
            WQET_SEND \<Rightarrow> map_option snd (bgvrnic_process_send_wqes env (wqe_qp wqe) v1)
          | WQET_RECV \<Rightarrow> map_option snd (bgvrnic_process_recv_wqes env (wqe_qp wqe) v1)
          | WQET_RDMA \<Rightarrow> Some (bgvrnic_free_wqe w v)))"

fun mu_status_cb :: "vrnic_env \<Rightarrow> (u64 \<times> u32) list \<Rightarrow> vrnic \<Rightarrow> (u32 list \<times> vrnic) option" where
  "mu_status_cb env [] v = Some ([], v)"
| "mu_status_cb env ((w, status) # rs) v =
     (case status_one env w status v of None \<Rightarrow> None
      | Some v1 \<Rightarrow> map_option (\<lambda>(errs, v2). (0 # errs, v2)) (mu_status_cb env rs v1))"

section \<open>Receiving\<close>

text \<open>The loop that scatters the payload; \<open>None\<close> when the list ends before the data.\<close>

definition mem_write :: "nat \<Rightarrow> u8 list \<Rightarrow> (nat \<Rightarrow> u8) \<Rightarrow> nat \<Rightarrow> u8" where
  "mem_write a bs m i = (if a \<le> i \<and> i < a + length bs then bs ! (i - a) else m i)"

fun copy_chunks :: "mudm_sgl list \<Rightarrow> u8 list \<Rightarrow> (nat \<Rightarrow> u8) \<Rightarrow> (nat \<Rightarrow> u8) option" where
  "copy_chunks [] data m = (if data = [] then Some m else None)"
| "copy_chunks (s # ss) data m =
     (if data = [] then Some m
      else let n = unat (memlength s); m1 = mem_write (unat (physicalAddr s)) (take n data) m
           in if n \<le> length data then copy_chunks ss (drop n data) m1 else Some m1)"

definition bgvrnic_recv_immed :: "vrnic_env \<Rightarrow> u64 \<Rightarrow> bgvrnic_wqe \<Rightarrow> ib_recv_wr \<Rightarrow> u8 list \<Rightarrow> u32 \<Rightarrow> vrnic \<Rightarrow> (u32 \<times> vrnic) option" where
  "bgvrnic_recv_immed env w wqe wr data len v =
     (case bgvrnic_xlate_sgl (v_mrs v) (rw_sg_list wr) (map (ve_stack env) [0..<MUDM_MAX_SGE]) MUDM_MAX_SGE of
        None \<Rightarrow> None
      | Some (rc, psge, n) \<Rightarrow>
          if sint rc < 0 then None
          else let over = rc < len; len1 = (if over then rc else len) in
               map_option (\<lambda>m. (if over then - errno_nr E2BIG else 0,
                   (upd_wqe w (\<lambda>e. e\<lparr>wqe_status := (if over then IB_WC_LOC_LEN_ERR else IB_WC_SUCCESS), wqe_length := len1,
                      wqe_st := WQES_DONE\<rparr>) v)\<lparr>v_mem := m\<rparr>))
                 (copy_chunks (take n psge) (take (unat len1) data) (v_mem v)))"

text \<open>The list in memory: an array on the stack, or the entries of a packet.\<close>

definition array_sgl :: "sgl_mem \<Rightarrow> mudm_sgl list \<Rightarrow> sgl_mem" where
  "array_sgl behind xs i = (if i < length xs then xs ! i else behind i)"

text \<open>The retry loops around the data mover's transfers.\<close>

partial_function (option) rdma_read_retry ::
  "vrnic_env \<Rightarrow> nat \<Rightarrow> u64 \<Rightarrow> u64 \<Rightarrow> u32 \<Rightarrow> sgl_mem \<Rightarrow> sgl_mem \<Rightarrow> vrnic \<Rightarrow> (ret \<times> vrnic) option" where
  "rdma_read_retry env x w obj len lm rm v =
     (case mudm_rdma_read (ve_hws env) (ve_cnt env (v_calls v)) (ve_now env (v_calls v)) x w obj (ucast len) lm rm (v_mc v) of
        None \<Rightarrow> None
      | Some (r, rr) \<Rightarrow>
         (let v1 = v\<lparr>v_mc := rr_mc rr, v_calls := v_calls v + 1\<rparr> in
          if r = RetErr EBUSY then rdma_read_retry env x w obj len lm rm v1 else Some (r, v1)))"

partial_function (option) rdma_write_retry ::
  "vrnic_env \<Rightarrow> nat \<Rightarrow> u64 \<Rightarrow> u32 \<Rightarrow> sgl_mem \<Rightarrow> sgl_mem \<Rightarrow> vrnic \<Rightarrow> (ret \<times> vrnic) option" where
  "rdma_write_retry env x obj len lm rm v =
     (case mudm_rdma_write (ve_hws env) x obj (ucast len) (Some lm) (Some rm) (v_mc v) of
        None \<Rightarrow> None
      | Some (r, mc) \<Rightarrow>
         (let v1 = v\<lparr>v_mc := mc, v_calls := v_calls v + 1\<rparr> in
          if r = RetErr EBUSY then rdma_write_retry env x obj len lm rm v1 else Some (r, v1)))"

text \<open>The state of the entry behind the read, and what the handler returns.\<close>

definition read_outcome :: "ret \<Rightarrow> (u32 \<times> (bgvrnic_wqe \<Rightarrow> bgvrnic_wqe)) option" where
  "read_outcome r =
     (if r = RetErr ECANCELED then Some (ret_int r, \<lambda>e. e\<lparr>wqe_status := IB_WC_REM_ABORT_ERR, wqe_st := WQES_DONE\<rparr>)
      else if r = RetOK then Some (0, \<lambda>e. e\<lparr>wqe_st := WQES_DONE\<rparr>)
      else if r = RetErr EINPROGRESS then Some (0, \<lambda>e. e\<lparr>wqe_st := WQES_RUN\<rparr>)
      else None)"

definition bgvrnic_recv_remote ::
  "vrnic_env \<Rightarrow> nat \<Rightarrow> u64 \<Rightarrow> bgvrnic_wqe \<Rightarrow> ib_recv_wr \<Rightarrow> ionet_send_remote_payload \<Rightarrow> vrnic \<Rightarrow> (u32 \<times> vrnic) option" where
  "bgvrnic_recv_remote env x w wqe wr p v =
     (case bgvrnic_xlate_sgl (v_mrs v) (rw_sg_list wr) (map (ve_stack env) [0..<MUDM_MAX_SGE]) MUDM_MAX_SGE of
        None \<Rightarrow> None
      | Some (rc, psge, n) \<Rightarrow>
          if sint rc < 0 then None
          else let over = rc < data_length p;
                   v1 = upd_wqe w (\<lambda>e. e\<lparr>wqe_length := rc,
                          wqe_status := (if over then IB_WC_LOC_LEN_ERR else wqe_status e),
                          imm_data_valid := (if rem_flags p AND 1 \<noteq> 0 then True else imm_data_valid e),
                          imm_data := (if rem_flags p AND 1 \<noteq> 0 then immediate_data p else imm_data e)\<rparr>) v
               in case rdma_read_retry env x w (rdma_object p) (if over then rc else data_length p)
                         (array_sgl (ve_stack env) psge) (array_sgl (ve_behind env) (SGE p)) v1 of
                    None \<Rightarrow> None
                  | Some (r, v2) \<Rightarrow> map_option (\<lambda>(rc2, f). (rc2, upd_wqe w f v2)) (read_outcome r))"

section \<open>The message callback\<close>

definition bgvrnic_get_qp :: "u32 \<Rightarrow> vrnic \<Rightarrow> nat option" where
  "bgvrnic_get_qp qpn v = v_qpns v qpn"

text \<open>An event for an identifier of the connection manager, and what its handler answers.\<close>

definition cm_notify :: "vrnic_env \<Rightarrow> nat \<Rightarrow> cm_event \<Rightarrow> vrnic \<Rightarrow> u32 \<times> vrnic" where
  "cm_notify env c e v = (ve_cm env (length (v_events v)), v\<lparr>v_events := v_events v @ [CmEvent c e]\<rparr>)"

text \<open>The sequence number of the packet: whether it is the expected one, and the next one.\<close>

definition psn_check :: "nat \<Rightarrow> ionet_header \<Rightarrow> vrnic \<Rightarrow> bool \<times> vrnic" where
  "psn_check q h v = (ucast (sequence_number h) \<noteq> rq_psn (v_qps v q),
     upd_qp q (\<lambda>qp. qp\<lparr>rq_psn := (ucast (sequence_number h) + 1) AND 0xffff\<rparr>) v)"

text \<open>The first unused entry of the queue.\<close>

definition find_unused :: "nat \<Rightarrow> vrnic \<Rightarrow> u64 option" where
  "find_unused q v = List.find (\<lambda>w. case v_wqes v w of None \<Rightarrow> False | Some e \<Rightarrow> wqe_st e = WQES_INIT) (rq (v_qps v q))"

definition no_buffer :: "vrnic_env \<Rightarrow> nat \<Rightarrow> vrnic \<Rightarrow> (u32 \<times> vrnic) option" where
  "no_buffer env q v =
     (let v1 = (case cm_id (v_qps v q) of
                  Some c \<Rightarrow> snd (cm_notify env c (CM_DISCONNECT (- errno_nr ECONNRESET)) (upd_qp q (\<lambda>qp. qp\<lparr>qp_state := IB_QPS_SQE\<rparr>) v))
                | None \<Rightarrow> v)
      in case mu_conn (v_qps v1 q) of None \<Rightarrow> None
         | Some x \<Rightarrow> map_option (\<lambda>(r, mc). (ret_int r, v1\<lparr>v_mc := mc\<rparr>)) (mudm_disconnect (ve_hws env) x (v_mc v1)))"

text \<open>The two kinds of data.\<close>

definition recv_into ::
  "vrnic_env \<Rightarrow> nat \<Rightarrow> u64 \<Rightarrow> bgvrnic_wqe \<Rightarrow> ib_recv_wr \<Rightarrow> ionet_header \<Rightarrow> u8 list \<Rightarrow> vrnic \<Rightarrow> (u32 \<times> vrnic) option" where
  "recv_into env q w wqe wr h payload v =
     (if ptype h = MUDM_PKT_DATA_IMM then bgvrnic_recv_immed env w wqe wr payload (ucast (payload_length h)) v
      else case mu_conn (v_qps v q) of None \<Rightarrow> None
           | Some x \<Rightarrow> bgvrnic_recv_remote env x w wqe wr (remote_of_bytes payload) v)"

definition recv_data :: "vrnic_env \<Rightarrow> nat \<Rightarrow> ionet_header \<Rightarrow> u8 list \<Rightarrow> vrnic \<Rightarrow> (u32 \<times> vrnic) option" where
  "recv_data env q h payload v =
     (case find_unused q v of
        None \<Rightarrow> no_buffer env q v
      | Some w \<Rightarrow>
         (case v_wqes v w of
            Some wqe \<Rightarrow>
             (case wqe_wr wqe of
                Some (RecvWr wr) \<Rightarrow>
                  (case recv_into env q w wqe wr h payload v of
                     None \<Rightarrow> None
                   | Some (rc, v1) \<Rightarrow> map_option (\<lambda>(_, v2). (rc, v2)) (bgvrnic_process_recv_wqes env q v1))
              | _ \<Rightarrow> None)
          | None \<Rightarrow> None))"

text \<open>The peer's requests to read from and write to this node's memory.\<close>

definition remote_usge :: "ionet_send_remote_payload \<Rightarrow> ib_sge" where
  "remote_usge p = \<lparr>sge_addr = remote_vaddr p, sge_length = data_length p, sge_lkey = rkey p\<rparr>"

definition recv_rdma_read :: "vrnic_env \<Rightarrow> nat \<Rightarrow> ionet_send_remote_payload \<Rightarrow> vrnic \<Rightarrow> (u32 \<times> vrnic) option" where
  "recv_rdma_read env q p v =
     (let (w, v1) = bgvrnic_alloc_wqe env WQET_RDMA None q v in
      case (bgvrnic_xlate_sgl (v_mrs v1) [remote_usge p] (map (ve_stack env) [0..<MUDM_MAX_SGE]) MUDM_MAX_SGE, mu_conn (v_qps v1 q)) of
        (Some (len, psge, _), Some x) \<Rightarrow>
          if w = 0 \<or> len \<noteq> data_length p then None
          else (case rdma_read_retry env x w (rdma_object p) len (array_sgl (ve_stack env) psge)
                       (array_sgl (ve_behind env) (SGE p)) v1 of
                  None \<Rightarrow> None
                | Some (r, v2) \<Rightarrow>
                    if r = RetOK \<or> r = RetErr ECANCELED then Some (ret_int r, bgvrnic_free_wqe w v2)
                    else if r = RetErr EINPROGRESS then Some (0, upd_wqe w (\<lambda>e. e\<lparr>wqe_st := WQES_RUN\<rparr>) v2)
                    else Some (ret_int r, v2))
      | _ \<Rightarrow> None)"

definition recv_rdma_write :: "vrnic_env \<Rightarrow> nat \<Rightarrow> ionet_send_remote_payload \<Rightarrow> vrnic \<Rightarrow> (u32 \<times> vrnic) option" where
  "recv_rdma_write env q p v =
     (case (bgvrnic_xlate_sgl (v_mrs v) [remote_usge p] (map (ve_stack env) [0..<MUDM_MAX_SGE]) MUDM_MAX_SGE, mu_conn (v_qps v q)) of
        (Some (len, psge, _), Some x) \<Rightarrow>
          if len \<noteq> data_length p then None
          else (case rdma_write_retry env x (rdma_object p) len (array_sgl (ve_stack env) psge)
                       (array_sgl (ve_behind env) (SGE p)) v of
                  None \<Rightarrow> None
                | Some (r, v1) \<Rightarrow> if r = RetOK \<or> r = RetErr ECANCELED then Some (ret_int r, v1) else None)
      | _ \<Rightarrow> None)"

definition MUDM_IP_IMMED :: u16 where "MUDM_IP_IMMED = 0x1bc0"

text \<open>
  The callback.  \<open>rx\<close> is the Ethernet part (\<^verbatim>\<open>bgvrnic_rx\<close>).  A packet for a number that no queue pair has makes
  the code follow a null pointer: \<open>None\<close>.
\<close>

definition mu_recv_cb ::
  "(u8 list \<Rightarrow> u16 \<Rightarrow> u32) \<Rightarrow> vrnic_env \<Rightarrow> ionet_header \<Rightarrow> u8 list \<Rightarrow> vrnic \<Rightarrow> (u32 \<times> vrnic) option" where
  "mu_recv_cb rx env h payload v =
     (if ptype h = MUDM_IP_IMMED then Some (rx payload (payload_length h), v)
      else case bgvrnic_get_qp (ucast (dest_qpn h)) v of
        None \<Rightarrow> None
      | Some q \<Rightarrow>
         (let (mismatch, v1) = psn_check q h v; p = remote_of_bytes payload in
          map_option (\<lambda>(rc, v2). (if mismatch \<and> rc = 0 then - errno_nr EPROTO else rc, v2))
            (if ptype h \<in> {MUDM_PKT_DATA_IMM, MUDM_PKT_DATA_REMOTE} then recv_data env q h payload v1
             else if ptype h = MUDM_RDMA_READ then recv_rdma_read env q p v1
             else if ptype h = MUDM_RDMA_WRITE then recv_rdma_write env q p v1
             else Some (0, v1))))"

end
