(* ===== verification/Vrnic_Mover.thy ===== *)
theory Vrnic_Mover
  imports Mudm_Send Mudm_Read
begin

text \<open>
  What the verbs driver relies on when it calls the data mover: on a connection that is up the calls
  return, with a result the driver knows, and leave the connection up.
\<close>

section \<open>A connection that is up\<close>

text \<open>\<open>k\<close> more descriptors can be injected before the number of descriptors reaches \<open>2 ^ 63\<close>.\<close>

definition conn_up :: "nat \<Rightarrow> nat \<Rightarrow> nat \<Rightarrow> my_context \<Rightarrow> bool" where
  "conn_up x n k mc \<longleftrightarrow> conn_magic_ok (conns mc x) \<and>
     inj_inv n (injfifo (injfifo_ctls mc (injfifo_of (conns mc x)))) \<and>
     length (ctl_log (injfifo_ctls mc (injfifo_of (conns mc x)))) + k \<le> 2 ^ 63"

text \<open>The hardware: it accepts descriptors and gets to any number of them.\<close>

definition hws_run :: "hws \<Rightarrow> bool" where
  "hws_run hs \<longleftrightarrow> hws_live hs \<and> (\<forall>l. \<forall>N<2 ^ 64. hw_completes hs l N)"

lemma conn_up_ctl: "conn_up x n (Suc k) mc \<Longrightarrow> ctl_inv n (injfifo_ctls mc (injfifo_of (conns mc x)))"
  by (simp add: conn_up_def ctl_inv_def ctl_log_def)

lemma conn_up_magic: "conn_up x n k mc \<Longrightarrow> conn_magic_ok (conns mc x)"
  by (simp add: conn_up_def)

lemma conn_up_weaken: "conn_up x n k mc \<Longrightarrow> j \<le> k \<Longrightarrow> conn_up x n j mc"
  by (simp add: conn_up_def)

text \<open>Only the connection and its FIFO matter.\<close>

lemma conn_up_cong:
  assumes "conns mc' = conns mc" "injfifo_ctls mc' = injfifo_ctls mc"
  shows "conn_up x n k mc' = conn_up x n k mc"
  using assms by (simp add: conn_up_def)

lemma check_complete_up:
  assumes "check_complete hs l cnt mc = (b, mc1)"
  shows "conn_up x n k mc1 = conn_up x n k mc" "conns mc1 = conns mc" "smallpa_obj_ctls mc1 = smallpa_obj_ctls mc"
    "clock (injfifo_ctls mc1 l) = Suc (clock (injfifo_ctls mc l))"
    "cnt \<le> hw_descCount (hs l (clock (injfifo_ctls mc l))) \<Longrightarrow> b"
  using assms by (auto simp: check_complete_def MUSPI_CheckDescComplete_def Let_def conn_up_def ctl_log_def inj_inv_def
      fifo_geometry_def split: prod.splits if_splits)

lemma send_pkt_wait_up:
  assumes "cnt \<noteq> -1"
  shows "conn_up x n k mc \<Longrightarrow> l = injfifo_of (conns mc x) \<Longrightarrow> cnt \<le> hw_descCount (hs l (clock (injfifo_ctls mc l) + j)) \<Longrightarrow>
    \<exists>r mc'. send_pkt_wait hs now x requestID cnt mc = Some (r, mc') \<and> r \<in> {RetOK, RetErr EINPROGRESS} \<and> conn_up x n k mc' \<and>
      mu_iMemoryFifoDescriptor (conns mc' x) = mu_iMemoryFifoDescriptor (conns mc x)"
proof (induction j arbitrary: mc)
  case (0 mc)
  obtain b mc1 where c: "check_complete hs l cnt mc = (b, mc1)" by (rule prod.exhaust)
  note C = check_complete_up[OF c]
  have b using C(5) 0(3) by simp
  then show ?case
    by (subst send_pkt_wait.simps) (use 0 c C in \<open>simp add: Let_def\<close>)
next
  case (Suc j)
  obtain b mc1 where c: "check_complete hs l cnt mc = (b, mc1)" by (rule prod.exhaust)
  note C = check_complete_up[OF c]
  have ih: "\<exists>r mc'. send_pkt_wait hs now x requestID cnt mc1 = Some (r, mc') \<and> r \<in> {RetOK, RetErr EINPROGRESS} \<and> conn_up x n k mc' \<and>
      mu_iMemoryFifoDescriptor (conns mc' x) = mu_iMemoryFifoDescriptor (conns mc1 x)"
    by (rule Suc.IH) (use C Suc.prems in simp_all)
  obtain s pc where a: "send_pkt_alloc requestID (smallpa_obj_ctls mc1 (pools_of (conns mc x))) = (s, pc)" by (rule prod.exhaust)
  have pc: "s = None \<Longrightarrow> pc = smallpa_obj_ctls mc1 (pools_of (conns mc x))"
    using a by (auto simp: send_pkt_alloc_def alloc_pkt_message_def split: if_splits option.splits)
  have e: "send_pkt_wait hs now x requestID cnt mc = (if b then Some (RetOK, mc1) else case s of
       Some spo \<Rightarrow> Some (RetErr EINPROGRESS, mc1\<lparr>smallpa_obj_ctls := (smallpa_obj_ctls mc1)(pools_of (conns mc x) :=
         snd (release_pkt_to_poll_ccontext now spo cnt x (set_pkt_req_id spo requestID pc)))\<rparr>)
     | None \<Rightarrow> send_pkt_wait hs now x requestID cnt mc1)"
    by (subst send_pkt_wait.simps) (use Suc.prems(2) c a assms in \<open>simp add: Let_def\<close>)
  have u: "conn_up x n k (mc1\<lparr>smallpa_obj_ctls := f\<rparr>)" for f using C(1) Suc.prems(1) by (simp add: conn_up_def)
  show ?case unfolding e using u ih C Suc.prems(1) by (cases s) auto
qed

lemma conn_memfifo_up:
  assumes "hws_live hs" "conn_up x n (Suc k) mc"
  shows "\<exists>cnt mc1. ctx_memfifo hs x ty paddr len mc = Some (cnt, mc1) \<and> cnt \<noteq> -1 \<and> conn_up x n k mc1 \<and>
    injfifo_of (conns mc1 x) = injfifo_of (conns mc x) \<and> pools_of (conns mc1 x) = pools_of (conns mc x)"
proof -
  let ?l = "injfifo_of (conns mc x)"
  from ctx_memfifo_total[OF assms(1) refl conn_up_ctl[OF assms(2)], of ty paddr len] obtain ct where
    C: "ctx_memfifo hs x ty paddr len mc = Some (of_nat (Suc (length (ctl_log (injfifo_ctls mc ?l)))),
      (upd_conn x (\<lambda>c. c\<lparr>memfifo_sent := memfifo_sent c + 1\<rparr>) mc)\<lparr>injfifo_ctls := (injfifo_ctls mc)(?l := ct)\<rparr>)"
    "ctl_log ct = ctl_log (injfifo_ctls mc ?l) @
      [MemFifoDesc (patch_memfifo ty paddr len (memfifo_sent (conns mc x)) (mu_iMemoryFifoDescriptor (conns mc x)))]"
    "inj_inv n (injfifo ct)" "of_nat (Suc (length (ctl_log (injfifo_ctls mc ?l)))) \<noteq> (-1 :: u64)" by blast
  show ?thesis
    by (rule exI, rule exI, rule conjI[OF C(1)]) (use C(2-4) assms(2) in \<open>simp add: conn_up_def conn_magic_ok_def upd_conn_def\<close>)
qed

lemma conn_pkt_sent_up: "conn_up x n j (conn_pkt_sent hs now y k cnt mc) = conn_up x n j mc"
  by (simp add: conn_up_def conn_pkt_sent_frame)

lemma mudm_send_pkt_up:
  assumes "hws_run hs" "conn_up x n (Suc k) mc" "plen \<le> 512"
  shows "\<exists>r mc'. mudm_send_pkt hs now x requestID ty paddr plen mc = Some (r, mc') \<and> r \<in> {RetOK, RetErr EINPROGRESS} \<and> conn_up x n k mc'"
proof -
  have live: "hws_live hs" using assms(1) by (simp add: hws_run_def)
  from conn_memfifo_up[OF live assms(2), of ty paddr "ucast plen"] obtain cnt mc1 where
    M: "ctx_memfifo hs x ty paddr (ucast plen) mc = Some (cnt, mc1)" "cnt \<noteq> -1" "conn_up x n k mc1" by blast
  have "unat cnt < 2 ^ LENGTH(64)" by (rule unsigned_less)
  then have "hw_completes hs (injfifo_of (conns mc1 x)) (unat cnt)"
    using assms(1) by (simp add: hws_run_def)
  then obtain j where j: "cnt \<le> hw_descCount (hs (injfifo_of (conns mc1 x)) (clock (injfifo_ctls mc1 (injfifo_of (conns mc1 x))) + j))"
    by (auto simp: hw_completes_def word_le_nat_alt)
  from send_pkt_wait_up[where hs = hs and now = now and requestID = requestID, OF M(2,3) refl j] show ?thesis
    using assms(3) conn_up_magic[OF assms(2)] M(1) by (auto simp: mudm_send_pkt_def TORUS_MAX_PAYLOAD_SIZE_def)
qed

text \<open>Hardware that has processed the descriptor at once: the packet is out.\<close>

lemma mudm_send_pkt_fast:
  assumes "hws_live hs" "conn_up x n (Suc k) mc" "plen \<le> 512" "\<forall>l i. hw_descCount (hs l i) = -1"
  shows "\<exists>mc'. mudm_send_pkt hs now x requestID ty paddr plen mc = Some (RetOK, mc') \<and> conn_up x n k mc'"
proof -
  from conn_memfifo_up[OF assms(1,2), of ty paddr "ucast plen"] obtain cnt mc1 where
    M: "ctx_memfifo hs x ty paddr (ucast plen) mc = Some (cnt, mc1)" "conn_up x n k mc1" by blast
  obtain b mc2 where c: "check_complete hs (injfifo_of (conns mc1 x)) cnt mc1 = (b, mc2)" by (rule prod.exhaust)
  note C = check_complete_up[OF c]
  have b using C(5) assms(4) by simp
  then have "send_pkt_wait hs now x requestID cnt mc1 = Some (RetOK, mc2)"
    by (subst send_pkt_wait.simps) (simp add: c Let_def)
  then show ?thesis
    using assms(3) conn_up_magic[OF assms(2)] M C(1) by (auto simp: mudm_send_pkt_def TORUS_MAX_PAYLOAD_SIZE_def)
qed

lemma mudm_send_message_remote_up:
  assumes "hws_live hs" "conn_up x n (Suc k) mc" "0 < sgl_num p" "sgl_num p \<le> 58"
    and "ty \<in> {MUDM_RDMA_WRITE, MUDM_RDMA_READ, MUDM_PKT_DATA_REMOTE, MUDM_RDMA_READ_IMM}"
  shows "\<exists>r mc'. mudm_send_message_remote hs now x ty p mc = Some (r, mc') \<and> r \<in> {RetErr EBUSY, RetErr EINPROGRESS} \<and> conn_up x n k mc'"
proof -
  let ?l = "injfifo_of (conns mc x)" and ?pl = "pools_of (conns mc x)"
  let ?ctl = "injfifo_ctls mc ?l"
  let ?mc0 = "mc\<lparr>injfifo_ctls := (injfifo_ctls mc)(?l := ?ctl\<lparr>clock := clock ?ctl + 1\<rparr>)\<rparr>"
  have st: "hw_state (hs ?l (clock ?ctl)) \<noteq> 0" using assms(1) by (simp add: hws_live_def hw_live_def)
  have u0: "conn_up x n (Suc k) ?mc0" using assms(2) by (simp add: conn_up_def ctl_log_def)
  have g: "sgl_num p \<noteq> 0" "\<not> MUDM_MAX_REMOTE_SGE < sgl_num p" using assms(3,4) by (simp_all add: MUDM_MAX_REMOTE_SGE_def not_less)
  have inject: "\<exists>r mc'. map_option (\<lambda>(desc_count, mc3). (RetErr EINPROGRESS, conn_pkt_sent hs now x pktd desc_count mc3))
      (ctx_memfifo hs x ty pa len mc2) = Some (r, mc') \<and> r \<in> {RetErr EBUSY, RetErr EINPROGRESS} \<and> conn_up x n k mc'"
    if "conns mc2 = conns ?mc0" "injfifo_ctls mc2 = injfifo_ctls ?mc0" for mc2 pktd pa len
    using conn_memfifo_up[OF assms(1), of x n k mc2 ty pa len] conn_up_cong[OF that] u0 by (auto simp: conn_pkt_sent_up)
  have up: "conn_up x n k mc'" if "conns mc' = conns mc" "injfifo_ctls mc' = injfifo_ctls ?mc0" for mc'
    using conn_up_weaken[OF u0, of k] conn_up_cong[of mc' ?mc0] that by simp
  obtain s pc where a: "alloc_pkt_message (packetcontrols mc ?pl) = (s, pc)" by (rule prod.exhaust)
  note e = mudm_send_message_remote_def[of hs now x ty p mc, unfolded Let_def]
  show ?thesis
  proof (cases s)
    case None
    then show ?thesis using g st a by (simp add: e up)
  next
    case (Some pktd)
    let ?mc1 = "(?mc0\<lparr>packetcontrols := (packetcontrols ?mc0)(?pl := pc)\<rparr>)\<lparr>pkt_mem := (pkt_mem mc)(?pl := (pkt_mem mc ?pl)(pktd :=
      write_at 0 (take (unat (remote_length (sgl_num p))) (remote_bytes p)) (pkt_mem mc ?pl pktd)))\<rparr>"
    obtain o1 rc where o: "allocate_rdma_object (rdma_obj_ctls mc ?pl) = (o1, rc)" by (rule prod.exhaust)
    show ?thesis
    proof (cases o1)
      case None
      show ?thesis using g st a Some assms(5) o None by (simp add: e up upd_packets_def)
    next
      case (Some obj)
      show ?thesis using g st a \<open>s = Some pktd\<close> assms(5) o Some by (simp add: e) (rule inject[simplified], simp_all)
    qed
  qed
qed

end
