(* ===== verification/Vrnic_Order.thy ===== *)
theory Vrnic_Order
  imports Vrnic_Send Vrnic_Mover
begin

text \<open>
  What the walk over the send queue does, on a connection that is up: it returns, every entry is
  completed at most once and in the order of the queue, and the others stay queued; and a request
  that is sent completes with its own number.
\<close>

section \<open>The descriptions sent\<close>

lemma xlate_rest_length: "length out \<le> length (xlate_rest num ss b out)"
  by (induction num ss b out rule: xlate_rest.induct) (auto simp: Let_def)

lemma xlate_sge_grows: "xlate_sge num mr u out = Some out' \<Longrightarrow> length out < length out'"
  using xlate_rest_length[of "out @ [_]"]
  by (auto simp: xlate_sge_def Let_def Suc_le_eq split: prod.splits list.splits if_splits)

lemma xlate_loop_count:
  "xlate_loop pool num us out t = Some (rc, out', n) \<Longrightarrow> length out \<le> length out' \<and> (n = num \<or> n = length out') \<and>
    (us \<noteq> [] \<longrightarrow> n = num \<or> length out < n)"
proof (induction us arbitrary: out t)
  case Nil
  then show ?case by auto
next
  case (Cons u us)
  show ?case
  proof (cases "bgvrnic_get_mr pool (sge_lkey u)")
    case None
    then show ?thesis using Cons.prems by auto
  next
    case (Some mr)
    then obtain out1 where o: "xlate_sge num mr u out = Some out1" using Cons.prems by (auto split: option.splits)
    note g = xlate_sge_grows[OF o]
    show ?thesis
      using Cons.prems Cons.IH[of out1 "t + sge_length u"] Some o g by (auto split: if_splits)
  qed
qed

text \<open>A request the driver can translate and send.\<close>

definition send_wr_ok :: "mr_pool \<Rightarrow> ib_send_wr \<Rightarrow> bool" where
  "send_wr_ok pool wr \<longleftrightarrow> sw_sg_list wr \<noteq> [] \<and> (\<forall>u\<in>set (sw_sg_list wr). sge_within pool u) \<and>
     sum_list (map (sge_pieces pool) (sw_sg_list wr)) < MUDM_MAX_SGE \<and> send_imm (sw_opcode wr) \<noteq> None"

definition wr_bytes :: "ib_send_wr \<Rightarrow> u32" where
  "wr_bytes wr = sum_list (map sge_length (sw_sg_list wr))"

definition wr_addrs :: "mr_pool \<Rightarrow> ib_send_wr \<Rightarrow> nat list" where
  "wr_addrs pool wr = concat (map (user_addrs pool) (sw_sg_list wr))"

lemma unat_sum_u32:
  "sum_list (map unat ls) < 2 ^ 32 \<Longrightarrow> unat (sum_list ls :: u32) = sum_list (map unat ls)"
proof (induction ls)
  case Nil
  then show ?case by simp
next
  case (Cons l ls)
  then have "unat (sum_list ls) = sum_list (map unat ls)" by simp
  with Cons.prems show ?case by (simp add: unat_add_lem[THEN iffD1])
qed

lemma length_wr_addrs:
  assumes "\<forall>u\<in>set us. sge_within pool u"
  shows "length (concat (map (user_addrs pool) us)) = sum_list (map (unat \<circ> sge_length) us)"
  using assms by (induction us) (auto simp: length_user_addrs)

lemma send_payload_total:
  assumes "send_wr_ok (v_mrs v) wr" "length (SGE (ve_payload env)) = MUDM_MAX_SGE"
  shows "\<exists>p. send_payload env w wqe wr v = Some p \<and> RequestID p = w \<and> 0 < sgl_num p \<and> sgl_num p < 58 \<and>
    length (SGE p) = MUDM_MAX_SGE \<and> data_length p = wr_bytes wr \<and>
    sgl_addrs (take (unat (sgl_num p)) (SGE p)) = wr_addrs (v_mrs v) wr \<and>
    rem_flags p = (if imm_data_valid wqe then 1 else 0) OR (if sw_flags wr AND IB_SEND_SOLICITED \<noteq> 0 then 2 else 0)"
proof -
  let ?us = "sw_sg_list wr" and ?p = "ve_payload env"
  have w: "\<forall>u\<in>set ?us. sge_within (v_mrs v) u" "?us \<noteq> []" "sum_list (map (sge_pieces (v_mrs v)) ?us) < MUDM_MAX_SGE"
    using assms(1) by (simp_all add: send_wr_ok_def)
  have pos: "0 < MUDM_MAX_SGE" by (simp add: MUDM_MAX_SGE_def)
  from xlate_total[OF w(1) pos, of "SGE ?p"] w(3) obtain ts where
    T: "bgvrnic_xlate_sgl (v_mrs v) ?us (SGE ?p) MUDM_MAX_SGE = Some (wr_bytes wr, ts @ drop (length ts) (SGE ?p), length ts)"
    "length ts < MUDM_MAX_SGE" "sgl_addrs ts = wr_addrs (v_mrs v) wr"
    by (auto simp: wr_bytes_def wr_addrs_def)
  then obtain rc out n where "xlate_loop (v_mrs v) MUDM_MAX_SGE ?us [] 0 = Some (rc, out, n)" "n = length ts"
    by (auto simp: bgvrnic_xlate_sgl_def)
  from xlate_loop_count[OF this(1)] this(2) w(2) T(2) have n0: "0 < length ts" by auto
  have u: "unat (of_nat (length ts) :: u32) = length ts" using T(2) by (simp add: unat_of_nat MUDM_MAX_SGE_def)
  have c: "0 < (of_nat (length ts) :: u32)" "(of_nat (length ts) :: u32) < 58"
    using u n0 T(2) by (simp_all add: word_less_nat_alt MUDM_MAX_SGE_def)
  show ?thesis using T c u assms(2) by (auto simp: send_payload_def)
qed

text \<open>A message of one piece that fits in a packet is sent as the packet it is.\<close>

lemma one_piece:
  assumes "\<forall>u\<in>set (sw_sg_list wr). sge_within pool u" "sgl_addrs [s] = wr_addrs pool wr" "wr_bytes wr \<le> 512"
  shows "unat (memlength s) = unat (wr_bytes wr)" "addr_span (ucast (physicalAddr s)) (ucast (wr_bytes wr)) = wr_addrs pool wr"
    "unat (ucast (memlength s) :: u16) = unat (wr_bytes wr)"
proof -
  let ?us = "sw_sg_list wr"
  have m: "unat (ucast (memlength s) :: u64) = unat (memlength s)" "unat (memlength s) < 2 ^ 28" using unat_ucast_28 by blast+
  have len: "unat (memlength s) = sum_list (map unat (map sge_length ?us))"
    using arg_cong[OF assms(2), of length] length_wr_addrs[OF assms(1)] m by (simp add: wr_addrs_def sgl_addrs_Cons)
  then have "sum_list (map unat (map sge_length ?us)) < 2 ^ 32" using m(2) by simp
  from unat_sum_u32[OF this] len show eq: "unat (memlength s) = unat (wr_bytes wr)" by (simp add: wr_bytes_def)
  have "unat (ucast (wr_bytes wr) :: u64) = unat (wr_bytes wr)"
    using eq m(2) by (simp add: unsigned_ucast_eq take_bit_nat_eq_self)
  then show "addr_span (ucast (physicalAddr s)) (ucast (wr_bytes wr)) = wr_addrs pool wr"
    using assms(2) eq m by (simp add: sgl_addrs_Cons addr_span_def)
  have "unat (wr_bytes wr) \<le> 512" using assms(3) by (simp add: word_le_nat_alt)
  then show "unat (ucast (memlength s) :: u16) = unat (wr_bytes wr)"
    using eq by (simp add: unsigned_ucast_eq take_bit_nat_eq_self)
qed

section \<open>One entry\<close>

definition vrnic_up :: "vrnic_env \<Rightarrow> nat \<Rightarrow> nat \<Rightarrow> nat \<Rightarrow> nat \<Rightarrow> vrnic \<Rightarrow> bool" where
  "vrnic_up env q x n k v \<longleftrightarrow> mu_conn (v_qps v q) = Some x \<and> conn_up x n k (v_mc v) \<and> hws_run (ve_hws env) \<and>
     length (SGE (ve_payload env)) = MUDM_MAX_SGE \<and> (\<forall>i. ve_kmalloc env i \<noteq> 0)"

lemma send_call_total:
  assumes up: "vrnic_up env q x n (Suc k) v" and wr: "send_wr_ok (v_mrs v) wr" and p: "send_payload env w wqe wr v = Some p"
  shows "\<exists>r mc'. send_call env x w wqe wr p v = Some (ret_int r, v\<lparr>v_mc := mc', v_calls := v_calls v + 1\<rparr>) \<and>
    r \<in> {RetOK, RetErr EINPROGRESS, RetErr EBUSY} \<and> (sw_opcode wr \<noteq> IB_WR_SEND \<longrightarrow> r \<noteq> RetOK) \<and> conn_up x n k mc'"
proof -
  note U = up[unfolded vrnic_up_def]
  from send_payload_total[OF wr, of env w wqe] U p have P: "0 < sgl_num p" "sgl_num p < 58"
    "length (SGE p) = MUDM_MAX_SGE" "data_length p = wr_bytes wr" "sgl_addrs (take (unat (sgl_num p)) (SGE p)) = wr_addrs (v_mrs v) wr"
    by auto
  have live: "hws_live (ve_hws env)" using U by (simp add: hws_run_def)
  have c: "conn_up x n (Suc k) (v_mc v)" using U by simp
  have remote: "\<exists>r mc'. mudm_send_message_remote (ve_hws env) (ve_now env (v_calls v)) x ty p' (v_mc v) = Some (r, mc') \<and>
      r \<in> {RetErr EBUSY, RetErr EINPROGRESS} \<and> conn_up x n k mc'"
    if "ty \<in> {MUDM_RDMA_WRITE, MUDM_RDMA_READ, MUDM_PKT_DATA_REMOTE, MUDM_RDMA_READ_IMM}" "sgl_num p' = sgl_num p" for ty p'
    by (rule mudm_send_message_remote_up[OF live c]) (use P that in \<open>simp_all add: less_imp_le\<close>)
  have pkt: "\<exists>r mc'. mudm_send_pkt (ve_hws env) (ve_now env (v_calls v)) x w MUDM_PKT_DATA_IMM (ucast (physicalAddr (SGE p ! 0)))
        (ucast (memlength (SGE p ! 0))) (v_mc v) = Some (r, mc') \<and> r \<in> {RetOK, RetErr EINPROGRESS} \<and> conn_up x n k mc'"
    if one: "sgl_num p = 1" "data_length p \<le> MUDM_MAX_PAYLOAD_SIZE"
  proof (rule mudm_send_pkt_up[OF _ c])
    show "hws_run (ve_hws env)" using U by simp
    have t: "take (unat (sgl_num p)) (SGE p) = [SGE p ! 0]"
      using P(3) one(1) by (simp add: take_Suc_conv_app_nth MUDM_MAX_SGE_def)
    have "unat (ucast (memlength (SGE p ! 0)) :: u16) = unat (wr_bytes wr)"
      using one(2) P(4,5) wr t by (intro one_piece(3)) (simp_all add: send_wr_ok_def MUDM_MAX_PAYLOAD_SIZE_def)
    then show "ucast (memlength (SGE p ! 0)) \<le> (512 :: u16)"
      using one(2) P(4) by (simp add: word_le_nat_alt MUDM_MAX_PAYLOAD_SIZE_def)
  qed
  have oc: "send_imm (sw_opcode wr) \<noteq> None" using wr by (simp add: send_wr_ok_def)
  show ?thesis
  proof (cases "sw_opcode wr")
    case IB_WR_SEND
    then show ?thesis using pkt remote[of MUDM_PKT_DATA_REMOTE p]
      by (cases "sgl_num p = 1 \<and> data_length p \<le> MUDM_MAX_PAYLOAD_SIZE") (auto simp: send_call_def Let_def)
  next
    case IB_WR_SEND_WITH_IMM
    then show ?thesis using remote[of MUDM_PKT_DATA_REMOTE p] by (auto simp: send_call_def Let_def)
  next
    case IB_WR_RDMA_READ
    then show ?thesis using remote[of MUDM_RDMA_WRITE "rdma_payload wr p"]
      by (auto simp: send_call_def Let_def rdma_payload_def)
  next
    case IB_WR_RDMA_WRITE
    then show ?thesis using remote[of MUDM_RDMA_READ "rdma_payload wr p"]
      by (auto simp: send_call_def Let_def rdma_payload_def)
  next
    case IB_WR_RDMA_WRITE_WITH_IMM
    then show ?thesis using remote[of MUDM_RDMA_READ "rdma_payload wr p"]
      by (auto simp: send_call_def Let_def rdma_payload_def)
  qed (use oc in simp_all)
qed

lemma send_state_cases:
  "send_state (ret_int RetOK) = Some WQES_DONE" "send_state (ret_int (RetErr EINPROGRESS)) = Some WQES_RUN"
  "send_state (ret_int (RetErr EBUSY)) = Some WQES_WAIT" "send_state (ret_int (RetErr ECANCELED)) = Some WQES_DONE"
  by (simp_all add: send_state_def ret_int_def)

lemma send_wqe_total:
  assumes up: "vrnic_up env q x n (Suc k) v" and wr: "send_wr_ok (v_mrs v) wr"
  shows "\<exists>s st mc'. send_wqe env q w wqe wr v =
      Some (wqe\<lparr>wqe_length := wr_bytes wr, wqe_st := s, wqe_status := st\<rparr>, v\<lparr>v_mc := mc', v_calls := v_calls v + 1\<rparr>) \<and>
    s \<in> {WQES_DONE, WQES_RUN, WQES_WAIT} \<and> (s = WQES_DONE \<longrightarrow> st = 0) \<and> (s \<noteq> WQES_DONE \<longrightarrow> sint st < 0) \<and>
    (sw_opcode wr \<noteq> IB_WR_SEND \<longrightarrow> s \<noteq> WQES_DONE) \<and> conn_up x n k mc'"
proof -
  note U = up[unfolded vrnic_up_def]
  from send_payload_total[OF wr, of env w wqe] U obtain p where P: "send_payload env w wqe wr v = Some p" "data_length p = wr_bytes wr"
    by auto
  from send_call_total[OF up wr P(1)] obtain r mc' where
    C: "send_call env x w wqe wr p v = Some (ret_int r, v\<lparr>v_mc := mc', v_calls := v_calls v + 1\<rparr>)"
    "r \<in> {RetOK, RetErr EINPROGRESS, RetErr EBUSY}" "conn_up x n k mc'" "sw_opcode wr \<noteq> IB_WR_SEND \<longrightarrow> r \<noteq> RetOK" by blast
  from C(2) obtain s where s: "send_state (ret_int r) = Some s" "s \<in> {WQES_DONE, WQES_RUN, WQES_WAIT}"
    "s = WQES_DONE \<longleftrightarrow> r = RetOK" using send_state_cases by auto
  have i: "sint (ret_int r) < 0 \<longleftrightarrow> r \<noteq> RetOK" "ret_int r = 0 \<longleftrightarrow> r = RetOK" "ret_int r \<noteq> - errno_nr ECANCELED"
    using C(2) by (auto simp: ret_int_def)
  show ?thesis
    by (rule exI[of _ s], rule exI[of _ "ret_int r"], rule exI[of _ mc'])
      (use U P C s i in \<open>auto simp: send_wqe_def\<close>)
qed

text \<open>Completing an entry.\<close>

lemma add_cqe_total:
  assumes "\<forall>i. ve_kmalloc env i \<noteq> 0" "wqe_wr wqe = Some wr" "wr_wc wr = Some (oc, wid)"
  shows "\<exists>wc v1. add_cqe_for env c q wqe v = Some (0, v1) \<and> wc_wr_id wc = wid \<and> wc_opcode wc = oc \<and>
    wc_byte_len wc = wqe_length wqe \<and> (wc_status wc, wc_vendor_err wc) = wc_status_of (wqe_status wqe) \<and>
    v_cqs v1 = (v_cqs v)(c := \<lparr>cq_flags = 0, cq_entries = cq_entries (v_cqs v c) @ [wc]\<rparr>) \<and>
    v_qps v1 = v_qps v \<and> v_qpns v1 = v_qpns v \<and> v_wqes v1 = v_wqes v \<and> v_mrs v1 = v_mrs v \<and> v_mc v1 = v_mc v \<and> v_mem v1 = v_mem v"
proof -
  let ?wc = "\<lparr>wc_wr_id = wid, wc_status = fst (wc_status_of (wqe_status wqe)), wc_opcode = oc,
     wc_vendor_err = snd (wc_status_of (wqe_status wqe)), wc_byte_len = wqe_length wqe, wc_src_qp = qp_num (v_qps v q),
     wc_imm = (if imm_data wqe \<noteq> 0 then Some (imm_data wqe) else None)\<rparr>"
  have cq: "cq\<lparr>cq_entries := es, cq_flags := 0\<rparr> = \<lparr>cq_flags = 0, cq_entries = es\<rparr>" for cq :: bgvrnic_cq and es
    by (cases cq) simp
  have "make_wc (qp_num (v_qps v q)) wr (wqe_length wqe) (wqe_status wqe) (imm_data wqe) = Some ?wc"
    using assms(3) by (simp add: make_wc_def)
  with assms(1,2) show ?thesis
    by (intro exI[of _ ?wc]) (simp add: add_cqe_for_def vrnic_kmalloc_def bgvrnic_add_cqe_def cq)
qed

lemma send_opcode_wc: "send_imm oc \<noteq> None \<Longrightarrow> \<exists>woc. send_wc_opcode oc = Some woc"
  by (cases oc) auto

section \<open>The walk\<close>

definition sq_entry_ok :: "nat \<Rightarrow> mr_pool \<Rightarrow> bgvrnic_wqe \<Rightarrow> bool" where
  "sq_entry_ok q pool e \<longleftrightarrow> wqe_ty e = WQET_SEND \<and> wqe_qp e = q \<and> wqe_st e \<noteq> WQES_INVALID \<and>
     (\<exists>wr. wqe_wr e = Some (SendWr wr) \<and> send_wr_ok pool wr)"

text \<open>
  The completions due for a list of entries: number and status, for those that want one.  An entry
  that is completed while it is sent has been successful.
\<close>

definition send_report :: "bgvrnic_qp \<Rightarrow> bgvrnic_wqe \<Rightarrow> (u64 \<times> u32) list" where
  "send_report qp e = (case wqe_wr e of Some (SendWr wr) \<Rightarrow>
       if wqe_signaled qp wr
       then [(sw_wr_id wr, if wqe_st e = WQES_DONE then fst (wc_status_of (wqe_status e)) else IB_WC_SUCCESS)] else []
     | _ \<Rightarrow> [])"

definition send_reports :: "nat \<Rightarrow> vrnic \<Rightarrow> u64 list \<Rightarrow> (u64 \<times> u32) list" where
  "send_reports q v D = concat (map (\<lambda>w. case v_wqes v w of Some e \<Rightarrow> send_report (v_qps v q) e | None \<Rightarrow> []) D)"

definition wc_report :: "ib_wc \<Rightarrow> u64 \<times> u32" where
  "wc_report wc = (wc_wr_id wc, wc_status wc)"

text \<open>The entries \<open>D\<close> of the rest \<open>ws\<close> of the queue have left it, reported by \<open>news\<close>; the others are still entries.\<close>

definition walked :: "nat \<Rightarrow> u64 list \<Rightarrow> u64 list \<Rightarrow> vrnic \<Rightarrow> u64 list \<Rightarrow> ib_wc list \<Rightarrow> vrnic \<Rightarrow> bool" where
  "walked q pre ws v D news v' \<longleftrightarrow> D = filter (\<lambda>w. w \<in> set D) ws \<and>
     v_qps v' = (v_qps v)(q := (v_qps v q)\<lparr>sq := pre @ filter (\<lambda>w. w \<notin> set D) ws\<rparr>) \<and>
     (\<forall>c. cq_entries (v_cqs v' c) = cq_entries (v_cqs v c) @ (if c = scq (v_qps v q) then news else [])) \<and>
     map wc_report news = send_reports q v D \<and>
     (\<forall>w\<in>set D. v_wqes v' w = None) \<and> (\<forall>w. w \<notin> set ws \<longrightarrow> v_wqes v' w = v_wqes v w) \<and>
     (\<forall>w\<in>set ws - set D. \<exists>e. v_wqes v' w = Some e \<and> sq_entry_ok q (v_mrs v) e \<and> wqe_wr e = wqe_wr (the (v_wqes v w))) \<and>
     v_mrs v' = v_mrs v \<and> v_mem v' = v_mem v \<and> v_qpns v' = v_qpns v"

lemma send_reports_cong:
  assumes "\<forall>w\<in>set D. v_wqes v' w = v_wqes v w" "sq_sig_all (v_qps v' q) = sq_sig_all (v_qps v q)"
  shows "send_reports q v' D = send_reports q v D"
proof -
  have "(case v_wqes v' w of Some e \<Rightarrow> send_report (v_qps v' q) e | None \<Rightarrow> []) =
      (case v_wqes v w of Some e \<Rightarrow> send_report (v_qps v q) e | None \<Rightarrow> [])" if "w \<in> set D" for w
    using assms that by (auto simp: send_report_def wqe_signaled_def split: option.splits vrnic_wr.splits)
  then show ?thesis by (simp add: send_reports_def cong: map_cong)
qed

lemma walked_sub: "walked q pre ws v D news v' \<Longrightarrow> set D \<subseteq> set ws"
  unfolding walked_def by (metis filter_is_subset)

lemma walked_entry:
  assumes "walked q pre ws v D news v'" "w \<in> set ws" "w \<notin> set D"
  shows "\<exists>e. v_wqes v' w = Some e \<and> sq_entry_ok q (v_mrs v) e \<and> wqe_wr e = wqe_wr (the (v_wqes v w))"
  using assms by (simp add: walked_def)

lemma walked_stop:
  assumes "sq (v_qps v q) = pre @ ws" "\<forall>w\<in>set ws. \<exists>e. v_wqes v w = Some e \<and> sq_entry_ok q (v_mrs v) e"
  shows "walked q pre ws v [] [] v"
proof -
  have "(v_qps v q)\<lparr>sq := pre @ ws\<rparr> = v_qps v q" using assms(1) by (cases "v_qps v q") simp
  then show ?thesis using assms(2) by (auto simp: walked_def send_reports_def)
qed

lemma walked_keep:
  assumes W: "walked q (pre @ [w]) ws v1 D news v'" and w: "w \<notin> set ws"
    and e: "v_wqes v w = Some e" "sq_entry_ok q (v_mrs v) e1" "wqe_wr e1 = wqe_wr e"
    and v1: "v_wqes v1 = (v_wqes v)(w \<mapsto> e1)" "v_qps v1 = v_qps v" "v_cqs v1 = v_cqs v" "v_mrs v1 = v_mrs v"
      "v_mem v1 = v_mem v" "v_qpns v1 = v_qpns v"
  shows "walked q pre (w # ws) v D news v'"
proof -
  have D: "w \<notin> set D" using walked_sub[OF W] w by blast
  have r: "send_reports q v1 D = send_reports q v D"
    by (rule send_reports_cong) (use D v1 in auto)
  have k: "v_wqes v' w = Some e1" using W w v1(1) by (simp add: walked_def)
  have "\<exists>e'. v_wqes v' y = Some e' \<and> sq_entry_ok q (v_mrs v) e' \<and> wqe_wr e' = wqe_wr (the (v_wqes v y))"
    if "y \<in> set (w # ws) - set D" for y
  proof (cases "y = w")
    case True
    then show ?thesis using k e by simp
  next
    case False
    then have "y \<in> set ws" "y \<notin> set D" using that by simp_all
    from walked_entry[OF W this] show ?thesis using False v1 by simp
  qed
  with W v1 w D r show ?thesis unfolding walked_def by auto
qed

lemma walked_done:
  assumes W: "walked q pre ws v1 D news v'" and w: "w \<notin> set ws" "w \<notin> set pre"
    and v1: "v_wqes v1 = (v_wqes v)(w := None)" "v_qps v1 = (v_qps v)(q := (v_qps v q)\<lparr>sq := pre @ ws\<rparr>)"
      "\<forall>c. cq_entries (v_cqs v1 c) = cq_entries (v_cqs v c) @ (if c = scq (v_qps v q) then wcs else [])"
      "v_mrs v1 = v_mrs v" "v_mem v1 = v_mem v" "v_qpns v1 = v_qpns v"
    and r: "map wc_report wcs = send_reports q v [w]"
  shows "walked q pre (w # ws) v (w # D) (wcs @ news) v'"
proof -
  have D: "w \<notin> set D" using walked_sub[OF W] w by blast
  have rs: "send_reports q v1 D = send_reports q v D"
    by (rule send_reports_cong) (use D v1 in auto)
  have rD: "send_reports q v (w # D) = send_reports q v [w] @ send_reports q v D" by (simp add: send_reports_def)
  have f: "filter (\<lambda>x. x = w \<or> x \<in> set D) ws = filter (\<lambda>x. x \<in> set D) ws"
    "filter (\<lambda>x. x \<noteq> w \<and> x \<notin> set D) ws = filter (\<lambda>x. x \<notin> set D) ws"
    using w(1) by (auto intro: filter_cong)
  have nw: "v_wqes v' w = None" using W w(1) v1(1) by (simp add: walked_def)
  have D1: "D = filter (\<lambda>x. x \<in> set D) ws" using W by (simp add: walked_def)
  show ?thesis unfolding walked_def
  proof (intro conjI)
    show "w # D = filter (\<lambda>x. x \<in> set (w # D)) (w # ws)" using D1 f(1) by simp
    show "map wc_report (wcs @ news) = send_reports q v (w # D)" unfolding rD rs[symmetric] using W r by (simp add: walked_def)
    show "\<forall>x\<in>set (w # D). v_wqes v' x = None" using W nw by (simp add: walked_def)
    show "\<forall>x. x \<notin> set (w # ws) \<longrightarrow> v_wqes v' x = v_wqes v x" using W v1(1) by (simp add: walked_def)
    show "\<forall>x\<in>set (w # ws) - set (w # D). \<exists>e. v_wqes v' x = Some e \<and> sq_entry_ok q (v_mrs v) e \<and> wqe_wr e = wqe_wr (the (v_wqes v x))"
    proof
      fix x assume "x \<in> set (w # ws) - set (w # D)"
      then have "x \<in> set ws" "x \<notin> set D" "x \<noteq> w" by auto
      with walked_entry[OF W this(1,2)] v1(1,4)
      show "\<exists>e. v_wqes v' x = Some e \<and> sq_entry_ok q (v_mrs v) e \<and> wqe_wr e = wqe_wr (the (v_wqes v x))" by simp
    qed
    show "v_qps v' = (v_qps v)(q := (v_qps v q)\<lparr>sq := pre @ filter (\<lambda>x. x \<notin> set (w # D)) (w # ws)\<rparr>)"
      using W v1(2) f(2) by (simp add: walked_def)
    show "\<forall>c. cq_entries (v_cqs v' c) = cq_entries (v_cqs v c) @ (if c = scq (v_qps v q) then wcs @ news else [])"
      using W v1(2,3) by (simp add: walked_def)
  qed (use W v1 in \<open>simp_all add: walked_def\<close>)
qed

lemma complete_send_total:
  assumes km: "\<forall>i. ve_kmalloc env i \<noteq> 0" and e: "wqe_wr e = Some (SendWr wr)" "send_imm (sw_opcode wr) \<noteq> None"
  shows "\<exists>rc1 wcs v1. complete_send env q w e wr rc v = Some (rc1, v1) \<and> rc1 \<in> {0, rc} \<and>
    v_wqes v1 = (v_wqes v)(w := None) \<and> v_qps v1 = (v_qps v)(q := (v_qps v q)\<lparr>sq := remove1 w (sq (v_qps v q))\<rparr>) \<and>
    (\<forall>c. cq_entries (v_cqs v1 c) = cq_entries (v_cqs v c) @ (if c = scq (v_qps v q) then wcs else [])) \<and>
    map wc_report wcs = (if wqe_signaled (v_qps v q) wr then [(sw_wr_id wr, fst (wc_status_of (wqe_status e)))] else []) \<and>
    v_mrs v1 = v_mrs v \<and> v_mem v1 = v_mem v \<and> v_qpns v1 = v_qpns v \<and> v_mc v1 = v_mc v"
proof (cases "wqe_signaled (v_qps v q) wr")
  case True
  from send_opcode_wc[OF e(2)] obtain oc where "wr_wc (SendWr wr) = Some (oc, sw_wr_id wr)" by (auto simp: wr_wc_def)
  from add_cqe_total[OF km e(1) this, of "scq (v_qps v q)" q v] obtain wc v1 where
    A: "add_cqe_for env (scq (v_qps v q)) q e v = Some (0, v1)" "wc_wr_id wc = sw_wr_id wr"
    "(wc_status wc, wc_vendor_err wc) = wc_status_of (wqe_status e)"
    "v_cqs v1 = (v_cqs v)(scq (v_qps v q) := \<lparr>cq_flags = 0, cq_entries = cq_entries (v_cqs v (scq (v_qps v q))) @ [wc]\<rparr>)"
    "v_qps v1 = v_qps v" "v_qpns v1 = v_qpns v" "v_wqes v1 = v_wqes v" "v_mrs v1 = v_mrs v" "v_mc v1 = v_mc v" "v_mem v1 = v_mem v"
    by blast
  have "wc_status wc = fst (wc_status_of (wqe_status e))" using A(3) by (metis fst_conv)
  with A True show ?thesis
    by (intro exI[of _ 0] exI[of _ "[wc]"]) (simp add: complete_send_def bgvrnic_free_wqe_def upd_qp_def wc_report_def)
next
  case False
  then show ?thesis
    by (intro exI[of _ rc] exI[of _ "[]"]) (simp add: complete_send_def bgvrnic_free_wqe_def upd_qp_def)
qed

lemma remove1_mid: "w \<notin> set pre \<Longrightarrow> remove1 w (pre @ w # ws) = pre @ ws"
  by (simp add: remove1_append)

lemma send_report_one:
  "v_wqes v w = Some e \<Longrightarrow> send_reports q v [w] = send_report (v_qps v q) e"
  by (simp add: send_reports_def)

lemma vrnic_up_cong:
  assumes "vrnic_up env q x n k v" "mu_conn (v_qps v' q) = mu_conn (v_qps v q)" "v_mc v' = v_mc v"
  shows "vrnic_up env q x n k v'"
  using assms by (simp add: vrnic_up_def)

lemma vrnic_up_weaken: "vrnic_up env q x n k v \<Longrightarrow> j \<le> k \<Longrightarrow> vrnic_up env q x n j v"
  by (auto simp: vrnic_up_def intro: conn_up_weaken)

text \<open>
  The entries \<open>ws\<close> still to be visited, of a queue \<open>pre @ ws\<close>.  The number of entries that remain
  grows by \<open>m\<close>, which is 0 exactly if all of \<open>ws\<close> have left.
\<close>

lemma send_walk_total:
  assumes "vrnic_up env q x n (length ws) v" "\<forall>w\<in>set ws. \<exists>e. v_wqes v w = Some e \<and> sq_entry_ok q (v_mrs v) e"
    and "sq (v_qps v q) = pre @ ws" "distinct (pre @ ws)"
  shows "\<exists>rc' m v' D news. send_walk env q ws rc rem v = Some (rc', rem + of_nat m, v') \<and> rc' \<in> {0, rc} \<and>
    walked q pre ws v D news v' \<and> m \<le> length ws \<and> (m = 0 \<longleftrightarrow> set D = set ws) \<and> vrnic_up env q x n 0 v'"
  using assms
proof (induction ws arbitrary: pre rc rem v)
  case Nil
  then have "walked q pre [] v [] [] v" by (intro walked_stop) simp_all
  with Nil(1) show ?case
    by (intro exI[of _ rc] exI[of _ 0] exI[of _ v] exI[of _ "[]"]) simp
next
  case (Cons w ws)
  note up = Cons.prems(1)[unfolded list.size add_Suc_right add_0_right]
  from Cons.prems(2) obtain e wr where e: "v_wqes v w = Some e" "sq_entry_ok q (v_mrs v) e" "wqe_wr e = Some (SendWr wr)"
    "send_wr_ok (v_mrs v) wr" by (auto simp: sq_entry_ok_def)
  have w: "w \<notin> set ws" "w \<notin> set pre" using Cons.prems(4) by auto
  have km: "\<forall>i. ve_kmalloc env i \<noteq> 0" using up by (simp add: vrnic_up_def)
  have im: "send_imm (sw_opcode wr) \<noteq> None" using e(4) by (simp add: send_wr_ok_def)
  have others: "\<forall>y\<in>set ws. \<exists>e. v_wqes v y = Some e \<and> sq_entry_ok q (v_mrs v) e" using Cons.prems(2) by simp
  text \<open>the entry leaves the queue\<close>
  have leaves: ?case
    if v1: "v_wqes v1 = (v_wqes v)(w \<mapsto> e1)" "v_qps v1 = v_qps v" "v_cqs v1 = v_cqs v" "v_mrs v1 = v_mrs v"
        "v_mem v1 = v_mem v" "v_qpns v1 = v_qpns v" "vrnic_up env q x n (length ws) v1"
      and e1: "wqe_wr e1 = Some (SendWr wr)"
        "fst (wc_status_of (wqe_status e1)) = (if wqe_st e = WQES_DONE then fst (wc_status_of (wqe_status e)) else IB_WC_SUCCESS)"
      and step: "\<And>rc1 v2. complete_send env q w e1 wr rc v1 = Some (rc1, v2) \<Longrightarrow>
         send_walk env q (w # ws) rc rem v = send_walk env q ws rc1 rem v2" for e1 v1
  proof -
    from complete_send_total[OF km e1(1) im, of q w rc v1] obtain rc1 wcs v2 where
      C: "complete_send env q w e1 wr rc v1 = Some (rc1, v2)" "rc1 \<in> {0, rc}" "v_wqes v2 = (v_wqes v1)(w := None)"
      "v_qps v2 = (v_qps v1)(q := (v_qps v1 q)\<lparr>sq := remove1 w (sq (v_qps v1 q))\<rparr>)"
      "\<forall>c. cq_entries (v_cqs v2 c) = cq_entries (v_cqs v1 c) @ (if c = scq (v_qps v1 q) then wcs else [])"
      "map wc_report wcs = (if wqe_signaled (v_qps v1 q) wr then [(sw_wr_id wr, fst (wc_status_of (wqe_status e1)))] else [])"
      "v_mrs v2 = v_mrs v1" "v_mem v2 = v_mem v1" "v_qpns v2 = v_qpns v1" "v_mc v2 = v_mc v1"
      by (elim exE conjE) (rule that)
    have q2: "v_qps v2 = (v_qps v)(q := (v_qps v q)\<lparr>sq := pre @ ws\<rparr>)"
      using C(4) v1(2) Cons.prems(3) w(2) by (simp add: remove1_mid)
    have r: "map wc_report wcs = send_reports q v [w]"
      using C(6) v1(2) e(3) e1(2) by (simp add: send_report_one[OF e(1)] send_report_def)
    have up2: "vrnic_up env q x n (length ws) v2" by (rule vrnic_up_cong[OF v1(7)]) (use q2 v1(2) C(10) in simp_all)
    have o2: "\<forall>y\<in>set ws. \<exists>e. v_wqes v2 y = Some e \<and> sq_entry_ok q (v_mrs v2) e"
      using others w(1) C(3,7) v1(1,4) by auto
    have s2: "sq (v_qps v2 q) = pre @ ws" "distinct (pre @ ws)" using q2 Cons.prems(4) by simp_all
    from Cons.IH[OF up2 o2 s2, of rc1 rem] obtain rc' m v' D news where
      I: "send_walk env q ws rc1 rem v2 = Some (rc', rem + of_nat m, v')" "rc' \<in> {0, rc1}"
      "walked q pre ws v2 D news v'" "m \<le> length ws" "m = 0 \<longleftrightarrow> set D = set ws" "vrnic_up env q x n 0 v'"
      by (elim exE conjE) (rule that)
    have "walked q pre (w # ws) v (w # D) (wcs @ news) v'"
      by (rule walked_done[OF I(3) w]) (use C q2 v1 r in simp_all)
    moreover have "m = 0 \<longleftrightarrow> set (w # D) = set (w # ws)" using I(5) w(1) walked_sub[OF I(3)] by auto
    ultimately show ?thesis using step[OF C(1)] I C(2)
      by (intro exI[of _ rc'] exI[of _ m] exI[of _ v'] exI[of _ "w # D"] exI[of _ "wcs @ news"]) auto
  qed
  text \<open>it is sent\<close>
  have sent: ?case if st: "wqe_st e = WQES_INIT \<or> wqe_st e = WQES_WAIT"
  proof -
    from send_wqe_total[OF up e(4), of w e] obtain s stat mc' where
      S: "send_wqe env q w e wr v = Some (e\<lparr>wqe_length := wr_bytes wr, wqe_st := s, wqe_status := stat\<rparr>,
        v\<lparr>v_mc := mc', v_calls := v_calls v + 1\<rparr>)" "s \<in> {WQES_DONE, WQES_RUN, WQES_WAIT}" "s = WQES_DONE \<longrightarrow> stat = 0"
      "conn_up x n (length ws) mc'" by blast
    let ?e1 = "e\<lparr>wqe_length := wr_bytes wr, wqe_st := s, wqe_status := stat\<rparr>"
    let ?v1 = "upd_wqe w (\<lambda>_. ?e1) (v\<lparr>v_mc := mc', v_calls := v_calls v + 1\<rparr>)"
    have v1: "v_wqes ?v1 = (v_wqes v)(w \<mapsto> ?e1)" "v_qps ?v1 = v_qps v" "v_cqs ?v1 = v_cqs v" "v_mrs ?v1 = v_mrs v"
        "v_mem ?v1 = v_mem v" "v_qpns ?v1 = v_qpns v" "vrnic_up env q x n (length ws) ?v1"
      using e(1) S(4) up by (simp_all add: upd_wqe_def vrnic_up_def)
    show ?thesis
    proof (cases "s = WQES_DONE")
      case True
      show ?thesis
      proof (rule leaves[OF v1])
        show "wqe_wr ?e1 = Some (SendWr wr)" using e(3) by simp
        show "fst (wc_status_of (wqe_status ?e1)) = (if wqe_st e = WQES_DONE then fst (wc_status_of (wqe_status e)) else IB_WC_SUCCESS)"
          using True S(3) st by (auto simp: wc_status_of_def)
        show "send_walk env q (w # ws) rc rem v = send_walk env q ws rc1 rem v2"
          if "complete_send env q w ?e1 wr rc ?v1 = Some (rc1, v2)" for rc1 v2
          using that True e(1,3) st S(1) by (auto simp: Let_def)
      qed
    next
      case False
      have ok: "sq_entry_ok q (v_mrs v) ?e1" using e S(2) by (auto simp: sq_entry_ok_def)
      have o1: "\<forall>y\<in>set ws. \<exists>e. v_wqes ?v1 y = Some e \<and> sq_entry_ok q (v_mrs ?v1) e"
        using others w(1) v1(1,4) by auto
      have s1: "sq (v_qps ?v1 q) = (pre @ [w]) @ ws" "distinct ((pre @ [w]) @ ws)"
        unfolding v1(2) using Cons.prems(3,4) by simp_all
      from Cons.IH[OF v1(7) o1 s1, of rc "rem + 1"] obtain rc' m v' D news where
        I: "send_walk env q ws rc (rem + 1) ?v1 = Some (rc', rem + 1 + of_nat m, v')" "rc' \<in> {0, rc}"
        "walked q (pre @ [w]) ws ?v1 D news v'" "m \<le> length ws" "m = 0 \<longleftrightarrow> set D = set ws" "vrnic_up env q x n 0 v'"
        by (elim exE conjE) (rule that)
      have "walked q pre (w # ws) v D news v'"
        by (rule walked_keep[OF I(3) w(1) e(1) ok _ v1(1-6)]) simp
      moreover have "set D \<noteq> set (w # ws)" using walked_sub[OF I(3)] w(1) by auto
      moreover have "send_walk env q (w # ws) rc rem v = send_walk env q ws rc (rem + 1) ?v1"
        using False e(1,3) st S(1) by (auto simp: Let_def)
      ultimately show ?thesis using I
        by (intro exI[of _ rc'] exI[of _ "Suc m"] exI[of _ v'] exI[of _ D] exI[of _ news]) (simp add: add.assoc)
    qed
  qed
  show ?case
  proof (cases "wqe_st e")
    case WQES_DONE
    show ?thesis
    proof (rule leaves[of v e])
      show "v_wqes v = (v_wqes v)(w \<mapsto> e)" using e(1) by (simp add: fun_upd_idem)
      show "vrnic_up env q x n (length ws) v" by (rule vrnic_up_weaken[OF up]) simp
    qed (use WQES_DONE e(1,3) in simp_all)
  next
    case WQES_RUN
    have "send_walk env q (w # ws) rc rem v = Some (rc, rem + 1, v)" using WQES_RUN e(1,3) by simp
    with walked_stop[OF Cons.prems(3,2)] vrnic_up_weaken[OF Cons.prems(1), of 0] show ?thesis
      by (intro exI[of _ rc] exI[of _ "Suc 0"] exI[of _ v] exI[of _ "[]"]) simp
  qed (use sent e(2) in \<open>simp_all add: sq_entry_ok_def\<close>)
qed

lemma process_send_total:
  assumes up: "vrnic_up env q x n (length (sq (v_qps v q))) v"
    and ok: "\<forall>w\<in>set (sq (v_qps v q)). \<exists>e. v_wqes v w = Some e \<and> sq_entry_ok q (v_mrs v) e"
    and "distinct (sq (v_qps v q))" "length (sq (v_qps v q)) < 2 ^ 31"
  shows "\<exists>rc v' D news. bgvrnic_process_send_wqes env q v = Some (rc, v') \<and> walked q [] (sq (v_qps v q)) v D news v' \<and>
    (rc = 0 \<longleftrightarrow> set D = set (sq (v_qps v q))) \<and> vrnic_up env q x n 0 v'"
proof -
  have s: "sq (v_qps v q) = [] @ sq (v_qps v q)" "distinct ([] @ sq (v_qps v q))" using assms(3) by simp_all
  from send_walk_total[OF up ok s, of 0 0] obtain rc' m v' D news where
    W: "send_walk env q (sq (v_qps v q)) 0 0 v = Some (rc', 0 + of_nat m, v')" "rc' \<in> {0, 0}" "walked q [] (sq (v_qps v q)) v D news v'"
    "m \<le> length (sq (v_qps v q))" "m = 0 \<longleftrightarrow> set D = set (sq (v_qps v q))" "vrnic_up env q x n 0 v'"
    by (elim exE conjE) (rule that)
  have "unat (of_nat m :: u32) = m" using W(4) assms(4) by (simp add: unat_of_nat)
  then have "(of_nat m :: u32) = 0 \<longleftrightarrow> m = 0" by (metis of_nat_0 unat_eq_0)
  with W show ?thesis
    by (intro exI[of _ "of_nat m"] exI[of _ v'] exI[of _ D] exI[of _ news]) (simp add: bgvrnic_process_send_wqes_def)
qed

section \<open>Properties\<close>


text \<open>Hardware that has processed every descriptor when it is asked.\<close>

definition fast_hws :: hws where
  "fast_hws = (\<lambda>_ _. \<lparr>hw_freeSpace = 3, hw_descCount = -1, hw_state = 1\<rparr>)"

lemma fast_hws_run: "hws_run fast_hws"
proof -
  have "unat (-1 :: u64) = 2 ^ 64 - 1" by (simp add: unsigned_minus_1_eq_mask mask_eq_exp_minus_1)
  then show ?thesis by (simp add: hws_run_def hws_live_def hw_live_def hw_completes_def fast_hws_def)
qed

definition demo_vrnic_env :: vrnic_env where
  "demo_vrnic_env = \<lparr>ve_kmalloc = (\<lambda>i. of_nat (2 * i + 1)), ve_now = (\<lambda>_. 5), ve_hws = fast_hws, ve_cnt = (\<lambda>_ _. 0), ve_cm = (\<lambda>_. 0),
     ve_payload = \<lparr>RequestID = 0, remote_vaddr = 0, rkey = 0, sgl_num = 0, data_length = 0, immediate_data = 0, rem_flags = 0,
       rem_reserved = 0, rdma_object = 0, SGE = replicate 58 \<lparr>physicalAddr = 0, memlength = 0\<rparr>\<rparr>,
     ve_stack = (\<lambda>_. \<lparr>physicalAddr = 0, memlength = 0\<rparr>), ve_behind = (\<lambda>_. \<lparr>physicalAddr = 0, memlength = 0\<rparr>)\<rparr>"

definition demo_send_wr :: "ib_wr_opcode \<Rightarrow> u64 \<Rightarrow> u32 \<Rightarrow> ib_send_wr" where
  "demo_send_wr oc n len = \<lparr>sw_wr_id = n, sw_sg_list = [\<lparr>sge_addr = 0x1000, sge_length = len, sge_lkey = 3\<rparr>], sw_opcode = oc,
     sw_flags = IB_SEND_SIGNALED, sw_imm_data = 0, sw_remote_addr = 0x5000, sw_rkey = 9\<rparr>"

definition demo_qp :: "u64 list \<Rightarrow> u64 list \<Rightarrow> bgvrnic_qp" where
  "demo_qp s r = \<lparr>qp_num = 6, qp_state = IB_QPS_RTS, rq_psn = 0, sq_sig_all = False, max_recv_sge = 4, mu_conn = Some 0,
     dest_qp_num = 0, cm_id = Some 0, references = 1, scq = 0, rcq = 1, sq = s, rq = r\<rparr>"

definition demo_vrnic :: "u64 list \<Rightarrow> u64 list \<Rightarrow> (u64 \<rightharpoonup> bgvrnic_wqe) \<Rightarrow> vrnic" where
  "demo_vrnic s r es = \<lparr>v_qps = (\<lambda>_. demo_qp s r), v_qpns = [6 \<mapsto> 0], v_wqes = es, v_cqs = (\<lambda>_. \<lparr>cq_flags = 0, cq_entries = []\<rparr>),
     v_mrs = [3 \<mapsto> demo_mr], v_mc = demo_ctx 4 (LActive 0), v_mem = (\<lambda>a. of_nat a), v_mallocs = 0, v_calls = 0, v_events = []\<rparr>"

lemma demo_send_ok: "send_imm oc \<noteq> None \<Longrightarrow> len \<le> 10 \<Longrightarrow> send_wr_ok (v_mrs (demo_vrnic s r es)) (demo_send_wr oc n len)"
proof -
  assume oc: "send_imm oc \<noteq> None" and "len \<le> 10"
  then have len: "unat len \<le> 10" by (simp add: word_le_nat_alt)
  have u: "unat (0x1000 - mr_start demo_mr) = 0" by (simp add: demo_mr_def)
  have "sge_within [3 \<mapsto> demo_mr] \<lparr>sge_addr = 0x1000, sge_length = len, sge_lkey = 3\<rparr>"
    using demo_mr_fits len by (simp add: sge_within_def demo_mr_addrs u del: upt_rec_numeral)
  moreover have "sge_pieces [3 \<mapsto> demo_mr] \<lparr>sge_addr = 0x1000, sge_length = len, sge_lkey = 3\<rparr> = 2"
    by (simp add: sge_pieces_def demo_mr_def)
  ultimately show ?thesis using oc by (simp add: send_wr_ok_def demo_vrnic_def demo_send_wr_def MUDM_MAX_SGE_def)
qed

lemma demo_vrnic_up: "k \<le> 100 \<Longrightarrow> vrnic_up demo_vrnic_env 0 0 4 k (demo_vrnic s r es)"
proof -
  assume k: "k \<le> 100"
  have c: "ctl_inv 4 (demo_injs 0)" "ctl_log (demo_injs 0) = []"
    using demo_injs_ctl by (simp_all add: demo_injs_def ctl_log_def demo_fifo_def)
  have "(of_nat (2 * i + 1) :: u64) \<noteq> 0" for i
  proof
    assume "(of_nat (2 * i + 1) :: u64) = 0"
    then have "(2 ^ 64 :: nat) dvd 2 * i + 1" by (simp only: word_of_nat_eq_0_iff) simp
    then have "(2 :: nat) dvd 2 * i + 1" by (rule dvd_trans[rotated]) simp
    then show False by simp
  qed
  then show ?thesis
    using k c fast_hws_run by (simp add: vrnic_up_def demo_vrnic_def demo_vrnic_env_def demo_qp_def conn_up_def ctl_inv_def
      demo_ctx_conn MUDM_MAX_SGE_def del: of_nat_add of_nat_mult of_nat_Suc)
qed

definition demo_entry :: "ib_wr_opcode \<Rightarrow> u64 \<Rightarrow> u32 \<Rightarrow> bgvrnic_wqe" where
  "demo_entry oc n len = new_wqe WQET_SEND (Some (SendWr (demo_send_wr oc n len))) 0"

lemma demo_entry_ok: "send_imm oc \<noteq> None \<Longrightarrow> len \<le> 10 \<Longrightarrow> sq_entry_ok 0 (v_mrs (demo_vrnic s r es)) (demo_entry oc n len)"
  using demo_send_ok by (simp add: sq_entry_ok_def demo_entry_def new_wqe_def)

definition demo_queue :: vrnic where
  "demo_queue = demo_vrnic [100, 200] [] [100 \<mapsto> demo_entry IB_WR_RDMA_WRITE 31 10, 200 \<mapsto> demo_entry IB_WR_SEND 32 4]"

lemma demo_queue_entries:
  "v_wqes demo_queue = [100 \<mapsto> demo_entry IB_WR_RDMA_WRITE 31 10, 200 \<mapsto> demo_entry IB_WR_SEND 32 4]"
  "sq (v_qps demo_queue 0) = [100, 200]" "scq (v_qps demo_queue 0) = 0" "cq_entries (v_cqs demo_queue 0) = []"
  "v_qps demo_queue 0 = demo_qp [100, 200] []"
  by (simp_all add: demo_queue_def demo_vrnic_def demo_qp_def)


text \<open>
  C29: a short message overtakes the request before it.  The walk goes on behind an entry it has just
  handed over and that is still in progress.  When a remote read or write is queued before a send
  that fits in one packet and the packet is out at once, the completion of the send is delivered
  while the request before it is still outstanding.
\<close>

theorem send_overtakes:
  assumes up: "vrnic_up env q x n 2 v" and fast: "\<forall>l i. hw_descCount (ve_hws env l i) = -1"
    and q: "sq (v_qps v q) = [w1, w2]" "w1 \<noteq> w2"
    and e1: "v_wqes v w1 = Some e1" "wqe_st e1 = WQES_INIT" "wqe_wr e1 = Some (SendWr wr1)" "sq_entry_ok q (v_mrs v) e1"
      "sw_opcode wr1 \<noteq> IB_WR_SEND"
    and e2: "v_wqes v w2 = Some e2" "wqe_st e2 = WQES_INIT" "wqe_wr e2 = Some (SendWr wr2)" "sq_entry_ok q (v_mrs v) e2"
      "sw_opcode wr2 = IB_WR_SEND" "wqe_signaled (v_qps v q) wr2"
    and one: "send_payload env w2 e2 wr2 v = Some p" "sgl_num p = 1" "data_length p \<le> 512"
  shows "\<exists>rc v' wc. bgvrnic_process_send_wqes env q v = Some (rc, v') \<and> sq (v_qps v' q) = [w1] \<and>
    cq_entries (v_cqs v' (scq (v_qps v q))) = cq_entries (v_cqs v (scq (v_qps v q))) @ [wc] \<and>
    wc_report wc = (sw_wr_id wr2, IB_WC_SUCCESS)"
proof -
  have ok: "send_wr_ok (v_mrs v) wr1" "send_wr_ok (v_mrs v) wr2" using e1(3,4) e2(3,4) by (auto simp: sq_entry_ok_def)
  from send_wqe_total[OF up[unfolded numeral_2_eq_2] ok(1), of w1 e1] e1(5) obtain s st mc' where
    S: "send_wqe env q w1 e1 wr1 v = Some (e1\<lparr>wqe_length := wr_bytes wr1, wqe_st := s, wqe_status := st\<rparr>,
      v\<lparr>v_mc := mc', v_calls := v_calls v + 1\<rparr>)" "s \<noteq> WQES_DONE" "conn_up x n (Suc 0) mc'" by blast
  define v1 where "v1 = upd_wqe w1 (\<lambda>_. e1\<lparr>wqe_length := wr_bytes wr1, wqe_st := s, wqe_status := st\<rparr>)
     (v\<lparr>v_mc := mc', v_calls := v_calls v + 1\<rparr>)"
  have v1: "v_qps v1 = v_qps v" "v_mrs v1 = v_mrs v" "v_wqes v1 w2 = Some e2" "v_cqs v1 = v_cqs v" "v_mc v1 = mc'"
    "vrnic_up env q x n (Suc 0) v1"
    using S(3) e2(1) q(2) up by (simp_all add: v1_def upd_wqe_def vrnic_up_def)
  have p1: "send_payload env w2 e2 wr2 v1 = Some p" using one(1) by (simp add: send_payload_def v1(2))
  have U: "hws_live (ve_hws env)" "mu_conn (v_qps v q) = Some x" "length (SGE (ve_payload env)) = MUDM_MAX_SGE"
    "\<forall>i. ve_kmalloc env i \<noteq> 0" using up by (simp_all add: vrnic_up_def hws_run_def)
  from send_payload_total[OF ok(2) U(3), of w2 e2] one(1) have P: "length (SGE p) = MUDM_MAX_SGE" "data_length p = wr_bytes wr2"
    "sgl_addrs (take (unat (sgl_num p)) (SGE p)) = wr_addrs (v_mrs v) wr2" by auto
  have t: "take (unat (sgl_num p)) (SGE p) = [SGE p ! 0]"
    using P(1) one(2) by (simp add: take_Suc_conv_app_nth MUDM_MAX_SGE_def)
  have "unat (ucast (memlength (SGE p ! 0)) :: u16) = unat (wr_bytes wr2)"
    using one(3) P(2,3) ok(2) t by (intro one_piece(3)) (simp_all add: send_wr_ok_def)
  then have "ucast (memlength (SGE p ! 0)) \<le> (512 :: u16)" using one(3) P(2) by (simp add: word_le_nat_alt)
  from mudm_send_pkt_fast[OF U(1) S(3) this fast, of "ve_now env (v_calls v1)" w2 MUDM_PKT_DATA_IMM
      "ucast (physicalAddr (SGE p ! 0))"] obtain mc2 where
    M: "mudm_send_pkt (ve_hws env) (ve_now env (v_calls v1)) x w2 MUDM_PKT_DATA_IMM (ucast (physicalAddr (SGE p ! 0)))
      (ucast (memlength (SGE p ! 0))) mc' = Some (RetOK, mc2)" by blast
  define e2' where "e2' = e2\<lparr>wqe_length := data_length p, wqe_st := WQES_DONE, wqe_status := 0\<rparr>"
  have S2: "send_wqe env q w2 e2 wr2 v1 = Some (e2', v1\<lparr>v_mc := mc2, v_calls := v_calls v1 + 1\<rparr>)"
    using M p1 one(2,3) e2(5) U(2) by (simp add: send_wqe_def send_call_def v1 Let_def MUDM_MAX_PAYLOAD_SIZE_def
      e2'_def send_state_def ret_int_def)
  define v2 where "v2 = upd_wqe w2 (\<lambda>_. e2') (v1\<lparr>v_mc := mc2, v_calls := v_calls v1 + 1\<rparr>)"
  have "wqe_wr e2' = Some (SendWr wr2)" "send_imm (sw_opcode wr2) \<noteq> None" using e2(3,5) by (simp_all add: e2'_def)
  from complete_send_total[OF U(4) this, of q w2 0 v2] obtain rc1 wcs v3 where
    C: "complete_send env q w2 e2' wr2 0 v2 = Some (rc1, v3)"
    "v_qps v3 = (v_qps v2)(q := (v_qps v2 q)\<lparr>sq := remove1 w2 (sq (v_qps v2 q))\<rparr>)"
    "\<forall>c. cq_entries (v_cqs v3 c) = cq_entries (v_cqs v2 c) @ (if c = scq (v_qps v2 q) then wcs else [])"
    "map wc_report wcs = (if wqe_signaled (v_qps v2 q) wr2 then [(sw_wr_id wr2, fst (wc_status_of (wqe_status e2')))] else [])"
    by (elim exE conjE) (rule that)
  have v2: "v_qps v2 = v_qps v" "v_cqs v2 = v_cqs v" by (simp_all add: v2_def upd_wqe_def v1)
  obtain wc where wc: "wcs = [wc]" "wc_report wc = (sw_wr_id wr2, IB_WC_SUCCESS)"
    using C(4) e2(6) by (auto simp: v2 e2'_def wc_status_of_def)
  have "send_walk env q [w1, w2] 0 0 v = send_walk env q [w2] 0 1 v1"
    by (subst send_walk.simps) (simp add: e1(1-3) S(1)[simplified] S(2) v1_def Let_def del: send_walk.simps)
  moreover have "wqe_st e2' = WQES_DONE" by (simp add: e2'_def)
  then have "send_walk env q [w2] 0 1 v1 = Some (rc1, 1, v3)"
    by (subst send_walk.simps) (simp add: v1(3) e2(2,3) S2[simplified] C(1)[unfolded v2_def, simplified] Let_def)
  ultimately have "send_walk env q [w1, w2] 0 0 v = Some (rc1, 1, v3)" by simp
  then show ?thesis using C(2,3) wc q by (simp add: bgvrnic_process_send_wqes_def v2)
qed

lemma demo_queue_payload:
  "\<exists>p. send_payload demo_vrnic_env 200 (demo_entry IB_WR_SEND 32 4) (demo_send_wr IB_WR_SEND 32 4) demo_queue = Some p \<and>
     sgl_num p = 1 \<and> data_length p \<le> 512"
  by (simp add: send_payload_def bgvrnic_xlate_sgl_def demo_vrnic_env_def demo_send_wr_def demo_queue_def demo_vrnic_def
    bgvrnic_get_mr_def xlate_sge_def demo_mr_def xlate_first_def MUDM_MAX_SGE_def)

theorem send_overtakes_witness:
  "\<exists>rc v' wc. bgvrnic_process_send_wqes demo_vrnic_env 0 demo_queue = Some (rc, v') \<and> sq (v_qps v' 0) = [100] \<and>
     cq_entries (v_cqs v' 0) = [wc] \<and> wc_report wc = (32, IB_WC_SUCCESS)"
proof -
  note Q = demo_queue_entries
  have up: "vrnic_up demo_vrnic_env 0 0 4 2 demo_queue" unfolding demo_queue_def by (rule demo_vrnic_up) simp
  have fast: "\<forall>l i. hw_descCount (ve_hws demo_vrnic_env l i) = -1" by (simp add: demo_vrnic_env_def fast_hws_def)
  have ok: "sq_entry_ok 0 (v_mrs demo_queue) (demo_entry IB_WR_RDMA_WRITE 31 10)" "sq_entry_ok 0 (v_mrs demo_queue) (demo_entry IB_WR_SEND 32 4)"
    unfolding demo_queue_def by (rule demo_entry_ok; simp)+
  have f: "(100 :: u64) \<noteq> 200" "v_wqes demo_queue 100 = Some (demo_entry IB_WR_RDMA_WRITE 31 10)"
    "v_wqes demo_queue 200 = Some (demo_entry IB_WR_SEND 32 4)" "wqe_st (demo_entry oc i k) = WQES_INIT"
    "wqe_wr (demo_entry oc i k) = Some (SendWr (demo_send_wr oc i k))" "sw_opcode (demo_send_wr oc i k) = oc"
    "sw_wr_id (demo_send_wr oc i k) = i" "wqe_signaled (v_qps demo_queue 0) (demo_send_wr oc i k)" for oc i k
    by (simp_all add: Q demo_entry_def new_wqe_def demo_send_wr_def wqe_signaled_def IB_SEND_SIGNALED_def)
  from demo_queue_payload obtain p where
    p: "send_payload demo_vrnic_env 200 (demo_entry IB_WR_SEND 32 4) (demo_send_wr IB_WR_SEND 32 4) demo_queue = Some p"
    "sgl_num p = 1" "data_length p \<le> 512" by blast
  have o: "sw_opcode (demo_send_wr IB_WR_RDMA_WRITE 31 10) \<noteq> IB_WR_SEND" by (simp add: f(6))
  from send_overtakes[OF up fast Q(2) f(1) f(2,4,5) ok(1) o f(3,4,5) ok(2) f(6,8) p] show ?thesis
    unfolding Q(3,4) f(7) append_Nil .
qed

end
