(* ===== verification/Vrnic_Buffer.thy ===== *)
theory Vrnic_Buffer
  imports Vrnic_Recv Vrnic_Order
begin

text \<open>
  What the receive side does: a payload is copied to the user's memory byte by byte, buffers are
  used and completed in the order they were posted, and a message sent by one node ends up in the
  buffer of the other.
\<close>

section \<open>Scattering a payload\<close>

lemma addr_span_36_28: "addr_span (ucast (physicalAddr s)) (ucast (memlength s)) =
    [unat (physicalAddr s)..<unat (physicalAddr s) + unat (memlength s)]"
  using unat_ucast_36[of "physicalAddr s"] unat_ucast_28[of "memlength s"] by (simp add: addr_span_def)

lemma mem_write_in: "j < length bs \<Longrightarrow> mem_write a bs m (a + j) = bs ! j"
  by (simp add: mem_write_def)

lemma mem_write_out: "b \<notin> {a..<a + length bs} \<Longrightarrow> mem_write a bs m b = m b"
  by (auto simp: mem_write_def)

lemma mem_write_map: "map (mem_write a bs m) [a..<a + length bs] = bs"
  by (rule nth_equalityI) (simp_all add: mem_write_in)

text \<open>The bytes arrive at the addresses of the list, one after the other, and nothing else changes.\<close>

lemma copy_chunks_total:
  assumes "length data \<le> length (sgl_addrs ss)" "distinct (sgl_addrs ss)"
  shows "\<exists>m'. copy_chunks ss data m = Some m' \<and> map m' (take (length data) (sgl_addrs ss)) = data \<and>
    (\<forall>a. a \<notin> set (take (length data) (sgl_addrs ss)) \<longrightarrow> m' a = m a)"
  using assms
proof (induction ss data m rule: copy_chunks.induct)
  case (1 data m)
  then show ?case by simp
next
  case (2 s ss data m)
  let ?n = "unat (memlength s)" and ?a = "unat (physicalAddr s)"
  let ?m1 = "mem_write ?a (take ?n data) m"
  have A: "sgl_addrs (s # ss) = [?a..<?a + ?n] @ sgl_addrs ss" by (simp add: sgl_addrs_Cons addr_span_36_28)
  consider "data = []" | "data \<noteq> []" "?n \<le> length data" | "data \<noteq> []" "length data < ?n" by linarith
  then show ?case
  proof cases
    case 1
    then show ?thesis by simp
  next
    case 2: 2
    have d: "length (drop ?n data) \<le> length (sgl_addrs ss)" "distinct (sgl_addrs ss)"
      using "2.prems" by (simp_all add: A)
    from "2.IH"[OF 2(1) refl refl 2(2) d] obtain m' where
      I: "copy_chunks ss (drop ?n data) ?m1 = Some m'"
      "map m' (take (length (drop ?n data)) (sgl_addrs ss)) = drop ?n data"
      "\<forall>a. a \<notin> set (take (length (drop ?n data)) (sgl_addrs ss)) \<longrightarrow> m' a = ?m1 a" by blast
    have ln: "length (take ?n data) = ?n" using 2(2) by simp
    have "m' a = ?m1 a" if "a \<in> {?a..<?a + ?n}" for a
    proof -
      have "a \<notin> set (sgl_addrs ss)" using "2.prems"(2) that by (auto simp: A)
      then show ?thesis using I(3) in_set_takeD by fast
    qed
    then have "map m' [?a..<?a + ?n] = map ?m1 [?a..<?a + ?n]" by simp
    also have "\<dots> = take ?n data" using mem_write_map[of ?a "take ?n data" m] ln by simp
    finally have f: "map m' [?a..<?a + ?n] = take ?n data" .
    have t: "take (length data) (sgl_addrs (s # ss)) = [?a..<?a + ?n] @ take (length (drop ?n data)) (sgl_addrs ss)"
      using 2(2) by (simp add: A)
    have "m' a = m a" if "a \<notin> set (take (length data) (sgl_addrs (s # ss)))" for a
      using that I(3) mem_write_out[of a ?a "take ?n data" m] ln unfolding t by auto
    then show ?thesis using 2 I(1,2) f unfolding t by (simp add: Let_def)
  next
    case 3
    have t: "take (length data) (sgl_addrs (s # ss)) = [?a..<?a + length data]"
      using 3(2) by (simp add: A)
    have "m1 a = m a" if "m1 = mem_write ?a data m" "a \<notin> set [?a..<?a + length data]" for a m1
      using that mem_write_out[of a ?a data m] by auto
    then show ?thesis using 3 mem_write_map[of ?a data m] unfolding t by (simp add: Let_def)
  qed
qed

section \<open>A message into a buffer\<close>

text \<open>A buffer in registered memory, its pieces apart from each other, and its bytes.\<close>

definition buf_addrs :: "mr_pool \<Rightarrow> ib_recv_wr \<Rightarrow> nat list" where
  "buf_addrs pool wr = concat (map (user_addrs pool) (rw_sg_list wr))"

definition buffer_ok :: "mr_pool \<Rightarrow> ib_recv_wr \<Rightarrow> bool" where
  "buffer_ok pool wr \<longleftrightarrow> (\<forall>u\<in>set (rw_sg_list wr). sge_within pool u) \<and>
     sum_list (map (sge_pieces pool) (rw_sg_list wr)) < MUDM_MAX_SGE \<and> distinct (buf_addrs pool wr) \<and>
     length (buf_addrs pool wr) < 2 ^ 31"

lemma sint_nonneg:
  assumes "unat (w :: u32) < 2 ^ 31"
  shows "\<not> sint w < 0"
proof -
  have "uint w < 2 ^ 31" using assms of_nat_less_iff[of "unat w" "2 ^ 31", where ?'a = int] by simp
  moreover have "0 \<le> uint w" by simp
  ultimately have "signed_take_bit 31 (uint w) = uint w" by (intro signed_take_bit_int_eq_self) linarith+
  with sint_uint[of w] show ?thesis by simp
qed

lemma xlate_buffer:
  assumes "buffer_ok pool wr"
  shows "\<exists>rc ts psge. bgvrnic_xlate_sgl pool (rw_sg_list wr) psge0 MUDM_MAX_SGE = Some (rc, ts @ psge, length ts) \<and>
    unat rc = length (buf_addrs pool wr) \<and> \<not> sint rc < 0 \<and> sgl_addrs ts = buf_addrs pool wr"
proof -
  let ?us = "rw_sg_list wr"
  have w: "\<forall>u\<in>set ?us. sge_within pool u" "sum_list (map (sge_pieces pool) ?us) < MUDM_MAX_SGE"
    "length (buf_addrs pool wr) < 2 ^ 31" using assms by (simp_all add: buffer_ok_def)
  have pos: "0 < MUDM_MAX_SGE" by (simp add: MUDM_MAX_SGE_def)
  from xlate_total[OF w(1) pos, of psge0] w(2) obtain ts where
    T: "bgvrnic_xlate_sgl pool ?us psge0 MUDM_MAX_SGE = Some (sum_list (map sge_length ?us), ts @ drop (length ts) psge0, length ts)"
    "sgl_addrs ts = buf_addrs pool wr" by (auto simp: buf_addrs_def)
  have len: "length (buf_addrs pool wr) = sum_list (map unat (map sge_length ?us))"
    using length_wr_addrs[OF w(1)] by (simp add: buf_addrs_def)
  then have "sum_list (map unat (map sge_length ?us)) < 2 ^ 32" using w(3) by simp
  from unat_sum_u32[OF this] len have u: "unat (sum_list (map sge_length ?us)) = length (buf_addrs pool wr)" by simp
  have "\<not> sint (sum_list (map sge_length ?us)) < 0"
    using u w(3) by (simp add: sint_nonneg)
  with T u show ?thesis by blast
qed

lemma recv_immed_total:
  assumes "buffer_ok (v_mrs v) wr" "unat len = length data" "v_wqes v w = Some e"
  shows "\<exists>rc m' st. let n = min (length data) (length (buf_addrs (v_mrs v) wr)) in
    bgvrnic_recv_immed env w e wr data len v = Some (rc, (v\<lparr>v_wqes := (v_wqes v)(w \<mapsto>
       e\<lparr>wqe_status := st, wqe_length := of_nat n, wqe_st := WQES_DONE\<rparr>)\<rparr>)\<lparr>v_mem := m'\<rparr>) \<and>
    map m' (take n (buf_addrs (v_mrs v) wr)) = take n data \<and>
    (\<forall>a. a \<notin> set (take n (buf_addrs (v_mrs v) wr)) \<longrightarrow> m' a = v_mem v a) \<and>
    (rc, st) = (if length data \<le> length (buf_addrs (v_mrs v) wr) then (0, IB_WC_SUCCESS) else (- errno_nr E2BIG, IB_WC_LOC_LEN_ERR))"
proof -
  let ?B = "buf_addrs (v_mrs v) wr" and ?n = "min (length data) (length (buf_addrs (v_mrs v) wr))"
  from xlate_buffer[OF assms(1), of "map (ve_stack env) [0..<MUDM_MAX_SGE]"] obtain rc ts psge where
    X: "bgvrnic_xlate_sgl (v_mrs v) (rw_sg_list wr) (map (ve_stack env) [0..<MUDM_MAX_SGE]) MUDM_MAX_SGE = Some (rc, ts @ psge, length ts)"
    "unat rc = length ?B" "\<not> sint rc < 0" "sgl_addrs ts = ?B" by (elim exE conjE) (rule that)
  have o: "rc < len \<longleftrightarrow> length ?B < length data" using X(2) assms(2) by (simp add: word_less_nat_alt)
  define len1 where "len1 = (if rc < len then rc else len)"
  have l1: "unat len1 = ?n" using X(2) assms(2) o by (auto simp: len1_def min_def)
  then have l1': "len1 = of_nat ?n" by (metis of_nat_unat ucast_id unat_of_nat)
  have "length (take (unat len1) data) \<le> length (sgl_addrs ts)" "distinct (sgl_addrs ts)"
    using l1 X(4) assms(1) by (simp_all add: buffer_ok_def)
  from copy_chunks_total[OF this, of "v_mem v"] obtain m' where
    C: "copy_chunks ts (take (unat len1) data) (v_mem v) = Some m'"
    "map m' (take (length (take (unat len1) data)) (sgl_addrs ts)) = take (unat len1) data"
    "\<forall>a. a \<notin> set (take (length (take (unat len1) data)) (sgl_addrs ts)) \<longrightarrow> m' a = v_mem v a" by blast
  have n: "length (take (unat len1) data) = ?n" using l1 by simp
  have "bgvrnic_recv_immed env w e wr data len v = Some (if rc < len then - errno_nr E2BIG else 0,
      (v\<lparr>v_wqes := (v_wqes v)(w \<mapsto> e\<lparr>wqe_status := (if rc < len then IB_WC_LOC_LEN_ERR else IB_WC_SUCCESS),
         wqe_length := len1, wqe_st := WQES_DONE\<rparr>)\<rparr>)\<lparr>v_mem := m'\<rparr>)"
    using X(1,3) C(1) assms(3) by (simp add: bgvrnic_recv_immed_def Let_def len1_def[symmetric] upd_wqe_def)
  moreover have "map m' (take ?n ?B) = take ?n data" "\<forall>a. a \<notin> set (take ?n ?B) \<longrightarrow> m' a = v_mem v a"
    using C(2,3)[unfolded n X(4)] unfolding l1 by blast+
  ultimately show ?thesis unfolding Let_def l1' o
    by (intro exI[of _ "if length ?B < length data then - errno_nr E2BIG else 0"] exI[of _ m']
      exI[of _ "if length ?B < length data then IB_WC_LOC_LEN_ERR else IB_WC_SUCCESS"] conjI)
      (simp_all only: not_less simp_thms split: if_splits, simp_all)
qed

section \<open>The receive queue\<close>

definition rq_entry_ok :: "nat \<Rightarrow> bgvrnic_wqe \<Rightarrow> bool" where
  "rq_entry_ok q e \<longleftrightarrow> wqe_ty e = WQET_RECV \<and> wqe_qp e = q \<and> wqe_st e \<in> {WQES_INIT, WQES_RUN, WQES_DONE} \<and>
     (\<exists>wr. wqe_wr e = Some (RecvWr wr))"

definition entry_done :: "vrnic \<Rightarrow> u64 \<Rightarrow> bool" where
  "entry_done v w \<longleftrightarrow> (\<exists>e. v_wqes v w = Some e \<and> wqe_st e = WQES_DONE)"

text \<open>The number of an entry, and its completion: number, status and length.\<close>

definition recv_id :: "vrnic \<Rightarrow> u64 \<Rightarrow> u64" where
  "recv_id v w = (case v_wqes v w of Some e \<Rightarrow> (case wqe_wr e of Some (RecvWr wr) \<Rightarrow> rw_wr_id wr | _ \<Rightarrow> 0) | None \<Rightarrow> 0)"

definition recv_report :: "vrnic \<Rightarrow> u64 \<Rightarrow> u64 \<times> u32 \<times> u32" where
  "recv_report v w = (recv_id v w, case v_wqes v w of Some e \<Rightarrow> (fst (wc_status_of (wqe_status e)), wqe_length e) | None \<Rightarrow> (0, 0))"

definition wc_recv :: "ib_wc \<Rightarrow> u64 \<times> u32 \<times> u32" where
  "wc_recv wc = (wc_wr_id wc, wc_status wc, wc_byte_len wc)"

text \<open>What a walk over the receive queue has done: the finished entries at its head are completed.\<close>

definition recv_walked :: "nat \<Rightarrow> u64 list \<Rightarrow> vrnic \<Rightarrow> ib_wc list \<Rightarrow> vrnic \<Rightarrow> bool" where
  "recv_walked q ws v news v' \<longleftrightarrow>
     v_qps v' = (v_qps v)(q := (v_qps v q)\<lparr>rq := dropWhile (entry_done v) ws\<rparr>) \<and>
     (\<forall>c. cq_entries (v_cqs v' c) = cq_entries (v_cqs v c) @ (if c = rcq (v_qps v q) then news else [])) \<and>
     map wc_recv news = map (recv_report v) (takeWhile (entry_done v) ws) \<and>
     v_wqes v' = (\<lambda>w. if w \<in> set (takeWhile (entry_done v) ws) then None else v_wqes v w) \<and>
     v_mrs v' = v_mrs v \<and> v_mem v' = v_mem v \<and> v_qpns v' = v_qpns v \<and> v_mc v' = v_mc v"

lemma complete_recv_total:
  assumes km: "\<forall>i. ve_kmalloc env i \<noteq> 0" and e: "v_wqes v w = Some e" "rq_entry_ok q e"
  shows "\<exists>wc v1. complete_recv env q w e v = Some (0, v1) \<and> wc_recv wc = recv_report v w \<and>
    v_wqes v1 = (v_wqes v)(w := None) \<and> v_qps v1 = (v_qps v)(q := (v_qps v q)\<lparr>rq := remove1 w (rq (v_qps v q))\<rparr>) \<and>
    (\<forall>c. cq_entries (v_cqs v1 c) = cq_entries (v_cqs v c) @ (if c = rcq (v_qps v q) then [wc] else [])) \<and>
    v_mrs v1 = v_mrs v \<and> v_mem v1 = v_mem v \<and> v_qpns v1 = v_qpns v \<and> v_mc v1 = v_mc v"
proof -
  obtain wr where wr: "wqe_wr e = Some (RecvWr wr)" using e(2) by (auto simp: rq_entry_ok_def)
  have "wr_wc (RecvWr wr) = Some (IB_WC_RECV, rw_wr_id wr)" by (simp add: wr_wc_def)
  from add_cqe_total[OF km wr this, of "rcq (v_qps v q)" q v] obtain wc v1 where
    A: "add_cqe_for env (rcq (v_qps v q)) q e v = Some (0, v1)" "wc_wr_id wc = rw_wr_id wr" "wc_byte_len wc = wqe_length e"
    "(wc_status wc, wc_vendor_err wc) = wc_status_of (wqe_status e)"
    "v_cqs v1 = (v_cqs v)(rcq (v_qps v q) := \<lparr>cq_flags = 0, cq_entries = cq_entries (v_cqs v (rcq (v_qps v q))) @ [wc]\<rparr>)"
    "v_qps v1 = v_qps v" "v_qpns v1 = v_qpns v" "v_wqes v1 = v_wqes v" "v_mrs v1 = v_mrs v" "v_mc v1 = v_mc v" "v_mem v1 = v_mem v"
    by blast
  have "wc_status wc = fst (wc_status_of (wqe_status e))" using A(4) by (metis fst_conv)
  then have "wc_recv wc = recv_report v w" using A(2,3) e(1) wr by (simp add: wc_recv_def recv_report_def recv_id_def)
  with A show ?thesis
    by (intro exI[of _ wc]) (simp add: complete_recv_def bgvrnic_free_wqe_def upd_qp_def)
qed

lemma recv_walk_total:
  assumes km: "\<forall>i. ve_kmalloc env i \<noteq> 0"
  shows "\<forall>w\<in>set ws. \<exists>e. v_wqes v w = Some e \<and> rq_entry_ok q e \<Longrightarrow> rq (v_qps v q) = ws \<Longrightarrow> distinct ws \<Longrightarrow>
    \<exists>rc' news v'. recv_walk env q ws rc v = Some (rc', v') \<and> rc' \<in> {0, rc} \<and> recv_walked q ws v news v'"
proof (induction ws arbitrary: rc v)
  case Nil
  have "(v_qps v q)\<lparr>rq := []\<rparr> = v_qps v q" using Nil(2) by (cases "v_qps v q") simp
  then show ?case by (intro exI[of _ rc] exI[of _ "[]"] exI[of _ v]) (simp add: recv_walked_def)
next
  case (Cons w ws)
  from Cons.prems(1) obtain e where e: "v_wqes v w = Some e" "rq_entry_ok q e" by auto
  have w: "w \<notin> set ws" "distinct ws" using Cons.prems(3) by simp_all
  show ?case
  proof (cases "wqe_st e = WQES_DONE")
    case False
    then have "\<not> entry_done v w" using e(1) by (simp add: entry_done_def)
    moreover have "(v_qps v q)\<lparr>rq := w # ws\<rparr> = v_qps v q" using Cons.prems(2) by (cases "v_qps v q") simp
    ultimately have "recv_walked q (w # ws) v [] v" by (simp add: recv_walked_def)
    moreover have "recv_walk env q (w # ws) rc v = Some (rc, v)"
      using e False by (auto simp: rq_entry_ok_def)
    ultimately show ?thesis by blast
  next
    case True
    then have d: "entry_done v w" using e(1) by (simp add: entry_done_def)
    from complete_recv_total[OF km e] obtain wc v1 where
      C: "complete_recv env q w e v = Some (0, v1)" "wc_recv wc = recv_report v w" "v_wqes v1 = (v_wqes v)(w := None)"
      "v_qps v1 = (v_qps v)(q := (v_qps v q)\<lparr>rq := remove1 w (rq (v_qps v q))\<rparr>)"
      "\<forall>c. cq_entries (v_cqs v1 c) = cq_entries (v_cqs v c) @ (if c = rcq (v_qps v q) then [wc] else [])"
      "v_mrs v1 = v_mrs v" "v_mem v1 = v_mem v" "v_qpns v1 = v_qpns v" "v_mc v1 = v_mc v" by (elim exE conjE) (rule that)
    have o1: "\<forall>y\<in>set ws. \<exists>e. v_wqes v1 y = Some e \<and> rq_entry_ok q e" using Cons.prems(1) w C(3) by auto
    have r1: "rq (v_qps v1 q) = ws" using C(4) Cons.prems(2) by simp
    from Cons.IH[OF o1 r1 w(2), of 0] obtain rc' news v' where
      I: "recv_walk env q ws 0 v1 = Some (rc', v')" "rc' \<in> {0, 0}" "recv_walked q ws v1 news v'"
      by (elim exE conjE) (rule that)
    have same: "v_wqes v1 y = v_wqes v y" if "y \<in> set ws" for y using that w(1) C(3) by auto
    have tw: "takeWhile (entry_done v1) ws = takeWhile (entry_done v) ws" "dropWhile (entry_done v1) ws = dropWhile (entry_done v) ws"
      using same by (auto intro: takeWhile_cong dropWhile_cong simp: entry_done_def)
    have rep: "map (recv_report v1) (takeWhile (entry_done v) ws) = map (recv_report v) (takeWhile (entry_done v) ws)"
      using same by (auto simp: recv_report_def recv_id_def dest!: set_takeWhileD)
    have wt: "w \<notin> set (takeWhile (entry_done v) ws)" using w(1) by (auto dest: set_takeWhileD)
    have "recv_walked q (w # ws) v (wc # news) v'"
      using I(3) C d wt unfolding recv_walked_def tw rep by (auto simp: fun_eq_iff)
    moreover have "recv_walk env q (w # ws) rc v = Some (rc', v')" using e(1) True C(1) I(1) by simp
    ultimately show ?thesis using I(2) by blast
  qed
qed

lemma process_recv_total:
  assumes "\<forall>i. ve_kmalloc env i \<noteq> 0" "\<forall>w\<in>set (rq (v_qps v q)). \<exists>e. v_wqes v w = Some e \<and> rq_entry_ok q e" "distinct (rq (v_qps v q))"
  shows "\<exists>news v'. bgvrnic_process_recv_wqes env q v = Some (0, v') \<and> recv_walked q (rq (v_qps v q)) v news v'"
  using recv_walk_total[OF assms(1,2) refl assms(3), of 0] by (auto simp: bgvrnic_process_recv_wqes_def)

text \<open>An entry that is changed in place stays a receive entry with its number.\<close>

definition in_place :: "u64 \<Rightarrow> vrnic \<Rightarrow> vrnic \<Rightarrow> bool" where
  "in_place w v v' \<longleftrightarrow> v_qps v' = v_qps v \<and> v_cqs v' = v_cqs v \<and> (\<forall>y. y \<noteq> w \<longrightarrow> v_wqes v' y = v_wqes v y) \<and>
     (\<forall>e. v_wqes v w = Some e \<longrightarrow> (\<exists>e'. v_wqes v' w = Some e' \<and> wqe_wr e' = wqe_wr e \<and> wqe_ty e' = wqe_ty e \<and>
        wqe_qp e' = wqe_qp e \<and> wqe_st e' \<in> {WQES_RUN, WQES_DONE}))"

lemma recv_immed_in_place:
  "bgvrnic_recv_immed env w e wr data len v = Some (rc, v') \<Longrightarrow> in_place w v v'"
  by (auto simp: bgvrnic_recv_immed_def in_place_def upd_wqe_def Let_def split: option.splits prod.splits if_splits)

lemma rdma_read_retry_frame:
  assumes "rdma_read_retry env x w obj len lm rm v = Some z"
  shows "\<exists>mc k. snd z = v\<lparr>v_mc := mc, v_calls := k\<rparr>"
proof (rule rdma_read_retry.raw_induct[where P = "\<lambda>env x w obj len lm rm v z. \<exists>mc k. snd z = v\<lparr>v_mc := mc, v_calls := k\<rparr>"
      and xa = "(((((((env, x), w), obj), len), lm), rm), v)", unfolded prod.case, OF _ assms], goal_cases)
  case 1: (1 f env x w obj len lm rm v z)
  from 1(2) obtain r rr where
    m: "mudm_rdma_read (ve_hws env) (ve_cnt env (v_calls v)) (ve_now env (v_calls v)) x w obj (ucast len) lm rm (v_mc v) = Some (r, rr)"
    by (auto split: option.splits)
  show ?case
  proof (cases "r = RetErr EBUSY")
    case True
    with 1(2) m have "f env x w obj len lm rm (v\<lparr>v_mc := rr_mc rr, v_calls := v_calls v + 1\<rparr>) = Some z" by (simp add: Let_def)
    from 1(1)[OF this] show ?thesis by auto
  next
    case False
    with 1(2) m have "z = (r, v\<lparr>v_mc := rr_mc rr, v_calls := v_calls v + 1\<rparr>)" by (auto simp: Let_def)
    then show ?thesis by auto
  qed
qed

lemma recv_remote_in_place:
  assumes "bgvrnic_recv_remote env x w e wr p v = Some (rc, v')"
  shows "in_place w v v'"
proof -
  from assms obtain rc0 psge n f r v1 g rc2 where R: "bgvrnic_xlate_sgl (v_mrs v) (rw_sg_list wr) (map (ve_stack env) [0..<MUDM_MAX_SGE]) MUDM_MAX_SGE = Some (rc0, psge, n)"
    "rdma_read_retry env x w (rdma_object p) (if rc0 < data_length p then rc0 else data_length p)
       (array_sgl (ve_stack env) psge) (array_sgl (ve_behind env) (SGE p)) (upd_wqe w f v) = Some (r, v1)"
    "\<And>e. wqe_wr (f e) = wqe_wr e \<and> wqe_ty (f e) = wqe_ty e \<and> wqe_qp (f e) = wqe_qp e"
    "read_outcome r = Some (rc2, g)" "v' = upd_wqe w g v1"
    by (auto simp: bgvrnic_recv_remote_def Let_def split: option.splits prod.splits if_splits)
  from rdma_read_retry_frame[OF R(2)] obtain mc k where m: "v1 = (upd_wqe w f v)\<lparr>v_mc := mc, v_calls := k\<rparr>" by auto
  have g: "wqe_wr (g e) = wqe_wr e \<and> wqe_ty (g e) = wqe_ty e \<and> wqe_qp (g e) = wqe_qp e \<and> wqe_st (g e) \<in> {WQES_RUN, WQES_DONE}" for e
    using R(4) by (auto simp: read_outcome_def split: if_splits)
  show ?thesis using R(3) g by (auto simp: in_place_def R(5) m upd_wqe_def)
qed

lemma recv_into_in_place: "recv_into env q w e wr h payload v = Some (rc, v') \<Longrightarrow> in_place w v v'"
  using recv_immed_in_place recv_remote_in_place by (auto simp: recv_into_def split: if_splits option.splits)

section \<open>Buffers in order\<close>

text \<open>
  The state of the driver with a history of the receive queue of queue pair \<open>q\<close>: the numbers of the
  buffers posted and of those whose completions the user has polled.  Memory is given as
  documented: addresses in use are not given again, and completions always find memory.
\<close>

definition kmalloc_ok :: "vrnic_env \<Rightarrow> nat \<Rightarrow> vrnic \<Rightarrow> bool" where
  "kmalloc_ok env k v \<longleftrightarrow> (\<forall>i. ve_kmalloc env i \<noteq> 0) \<and>
     (\<forall>i\<in>{v_mallocs v..<v_mallocs v + k}. v_wqes v (ve_kmalloc env i) = None) \<and>
     inj_on (ve_kmalloc env) {v_mallocs v..<v_mallocs v + k}"

definition posted_wrs :: "vrnic \<Rightarrow> nat \<Rightarrow> ib_recv_wr list \<Rightarrow> ib_recv_wr list \<Rightarrow> ib_recv_wr list" where
  "posted_wrs v q wrs bad = (if qp_state (v_qps v q) \<in> {IB_QPS_RESET, IB_QPS_ERR} then [] else take (length wrs - length bad) wrs)"

inductive recv_sys :: "nat \<Rightarrow> vrnic \<Rightarrow> u64 list \<Rightarrow> u64 list \<Rightarrow> bool" for q where
  recv_start: "rq (v_qps v q) = [] \<Longrightarrow> cq_entries (v_cqs v (rcq (v_qps v q))) = [] \<Longrightarrow> recv_sys q v [] []"
| recv_post: "recv_sys q v P R \<Longrightarrow> kmalloc_ok env (2 * length wrs) v \<Longrightarrow> bgvrnic_post_recv env q wrs v = (rc, bad, v') \<Longrightarrow>
    recv_sys q v' (P @ map rw_wr_id (posted_wrs v q wrs bad)) R"
| recv_message: "recv_sys q v P R \<Longrightarrow> kmalloc_ok env 0 v \<Longrightarrow> recv_data env q h payload v = Some (rc, v') \<Longrightarrow> recv_sys q v' P R"
| recv_status: "recv_sys q v P R \<Longrightarrow> kmalloc_ok env 0 v \<Longrightarrow> w \<in> set (rq (v_qps v q)) \<Longrightarrow>
    status_one env w status v = Some v' \<Longrightarrow> recv_sys q v' P R"
| recv_poll: "recv_sys q v P R \<Longrightarrow> bgvrnic_poll_cq n (v_cqs v (rcq (v_qps v q))) = (k, wcs, cq') \<Longrightarrow>
    recv_sys q (v\<lparr>v_cqs := (v_cqs v)(rcq (v_qps v q) := cq')\<rparr>) P (R @ map wc_wr_id wcs)"

definition recv_inv :: "nat \<Rightarrow> vrnic \<Rightarrow> u64 list \<Rightarrow> u64 list \<Rightarrow> bool" where
  "recv_inv q v P R \<longleftrightarrow> distinct (rq (v_qps v q)) \<and> (\<forall>w\<in>set (rq (v_qps v q)). \<exists>e. v_wqes v w = Some e \<and> rq_entry_ok q e) \<and>
     P = R @ map wc_wr_id (cq_entries (v_cqs v (rcq (v_qps v q)))) @ map (recv_id v) (rq (v_qps v q))"

lemma recv_inv_walked:
  assumes "recv_inv q v P R" "recv_walked q (rq (v_qps v q)) v news v'"
  shows "recv_inv q v' P R"
proof -
  let ?ws = "rq (v_qps v q)" and ?p = "entry_done v"
  note W = assms(2)[unfolded recv_walked_def] and I = assms(1)[unfolded recv_inv_def]
  have sp: "takeWhile ?p ?ws @ dropWhile ?p ?ws = ?ws" by simp
  have dj: "set (takeWhile ?p ?ws) \<inter> set (dropWhile ?p ?ws) = {}" "distinct (dropWhile ?p ?ws)"
    using I sp by (metis distinct_append)+
  have same: "v_wqes v' w = v_wqes v w" if "w \<in> set (dropWhile ?p ?ws)" for w using W dj that by auto
  have "map wc_wr_id news = map fst (map wc_recv news)" by (simp add: wc_recv_def)
  also have "\<dots> = map (recv_id v) (takeWhile ?p ?ws)" using W by (simp add: recv_report_def)
  finally have n: "map wc_wr_id news = map (recv_id v) (takeWhile ?p ?ws)" .
  have d: "map (recv_id v') (dropWhile ?p ?ws) = map (recv_id v) (dropWhile ?p ?ws)"
    using same by (simp add: recv_id_def)
  have "P = R @ map wc_wr_id (cq_entries (v_cqs v (rcq (v_qps v q))) @ news) @ map (recv_id v') (dropWhile ?p ?ws)"
    using I n d map_append[of "recv_id v" "takeWhile ?p ?ws" "dropWhile ?p ?ws"] by simp
  then show ?thesis using W I dj(2) same set_dropWhileD[of _ ?p ?ws] by (auto simp: recv_inv_def)
qed

lemma recv_inv_in_place:
  assumes "recv_inv q v P R" "in_place w v v'"
  shows "recv_inv q v' P R"
proof -
  have "recv_id v' y = recv_id v y" "\<exists>e. v_wqes v' y = Some e \<and> rq_entry_ok q e" if y: "y \<in> set (rq (v_qps v q))" for y
  proof -
    obtain e where e: "v_wqes v y = Some e" "rq_entry_ok q e" using assms(1) y by (auto simp: recv_inv_def)
    then obtain e' where "v_wqes v' y = Some e'" "wqe_wr e' = wqe_wr e" "rq_entry_ok q e'"
      using assms(2) by (cases "y = w") (auto simp: in_place_def rq_entry_ok_def)
    then show "recv_id v' y = recv_id v y" "\<exists>e. v_wqes v' y = Some e \<and> rq_entry_ok q e" using e by (simp_all add: recv_id_def)
  qed
  then have "map (recv_id v') (rq (v_qps v q)) = map (recv_id v) (rq (v_qps v q))"
    "\<forall>y\<in>set (rq (v_qps v q)). \<exists>e. v_wqes v' y = Some e \<and> rq_entry_ok q e" by simp_all
  then show ?thesis using assms by (simp add: recv_inv_def in_place_def)
qed

lemma recv_inv_process:
  assumes "recv_inv q v P R" "\<forall>i. ve_kmalloc env i \<noteq> 0" "bgvrnic_process_recv_wqes env q v = Some (rc, v')"
  shows "recv_inv q v' P R"
proof -
  from process_recv_total[where q = q and v = v, OF assms(2)] assms(1) obtain news v1 where
    "bgvrnic_process_recv_wqes env q v = Some (0, v1)" "recv_walked q (rq (v_qps v q)) v news v1" by (auto simp: recv_inv_def)
  with recv_inv_walked[OF assms(1)] assms(3) show ?thesis by simp
qed

lemma post_recv_loop_inv:
  assumes "post_recv_loop env q wrs v = (rc, bad, v')" "recv_inv q v P R" "\<forall>i. ve_kmalloc env i \<noteq> 0"
    and "\<forall>i\<in>{v_mallocs v..<v_mallocs v + 2 * length wrs}. v_wqes v (ve_kmalloc env i) = None"
    and "inj_on (ve_kmalloc env) {v_mallocs v..<v_mallocs v + 2 * length wrs}"
  shows "recv_inv q v' (P @ map rw_wr_id (take (length wrs - length bad) wrs)) R \<and> length bad \<le> length wrs"
  using assms
proof (induction wrs arbitrary: v P)
  case Nil
  then show ?case by simp
next
  case (Cons wr wrs)
  show ?case
  proof (cases "max_recv_sge (v_qps v q) < of_nat (length (rw_sg_list wr))")
    case True
    with Cons.prems(1,2) show ?thesis by auto
  next
    case False
    let ?w = "ve_kmalloc env (v_mallocs v)"
    let ?v1 = "v\<lparr>v_mallocs := v_mallocs v + 2, v_wqes := (v_wqes v)(?w \<mapsto> new_wqe WQET_RECV (Some (RecvWr wr)) q)\<rparr>"
    let ?v2 = "upd_qp q (\<lambda>qp. qp\<lparr>rq := rq qp @ [?w]\<rparr>) ?v1"
    have "bgvrnic_alloc_wqe env WQET_RECV (Some (RecvWr wr)) q v = (?w, ?v1)"
      using Cons.prems(3) by (simp add: bgvrnic_alloc_wqe_def vrnic_kmalloc_def Let_def)
    then have l: "post_recv_loop env q wrs ?v2 = (rc, bad, v')"
      using Cons.prems(1,3) False by (simp add: Let_def)
    have fresh: "v_wqes v ?w = None" using Cons.prems(4) by simp
    have nw: "?w \<notin> set (rq (v_qps v q))" using Cons.prems(2) fresh by (auto simp: recv_inv_def)
    have ids: "map (recv_id ?v2) (rq (v_qps v q)) = map (recv_id v) (rq (v_qps v q))"
      using nw by (auto simp: recv_id_def upd_qp_def)
    have "recv_inv q ?v2 (P @ [rw_wr_id wr]) R"
      using Cons.prems(2) nw ids by (auto simp: recv_inv_def upd_qp_def rq_entry_ok_def new_wqe_def recv_id_def)
    moreover have "\<forall>i\<in>{v_mallocs ?v2..<v_mallocs ?v2 + 2 * length wrs}. v_wqes ?v2 (ve_kmalloc env i) = None"
    proof
      fix i assume i: "i \<in> {v_mallocs ?v2..<v_mallocs ?v2 + 2 * length wrs}"
      then have r: "i \<in> {v_mallocs v..<v_mallocs v + 2 * length (wr # wrs)}" "i \<noteq> v_mallocs v" by (auto simp: upd_qp_def)
      then have "ve_kmalloc env i \<noteq> ?w" using inj_onD[OF Cons.prems(5), of i "v_mallocs v"] by auto
      then show "v_wqes ?v2 (ve_kmalloc env i) = None" using Cons.prems(4) r(1) by (simp add: upd_qp_def)
    qed
    moreover have "inj_on (ve_kmalloc env) {v_mallocs ?v2..<v_mallocs ?v2 + 2 * length wrs}"
      by (rule inj_on_subset[OF Cons.prems(5)]) (auto simp: upd_qp_def)
    ultimately have "recv_inv q v' ((P @ [rw_wr_id wr]) @ map rw_wr_id (take (length wrs - length bad) wrs)) R \<and> length bad \<le> length wrs"
      by (rule Cons.IH[OF l _ Cons.prems(3)])
    then show ?thesis by (auto simp: Suc_diff_le)
  qed
qed

lemma recv_inv_frame:
  assumes "recv_inv q v P R" "rq (v_qps v' q) = rq (v_qps v q)" "rcq (v_qps v' q) = rcq (v_qps v q)"
    "v_cqs v' = v_cqs v" "v_wqes v' = v_wqes v"
  shows "recv_inv q v' P R"
proof -
  have "recv_id v' = recv_id v" using assms(5) by (simp add: recv_id_def fun_eq_iff)
  then show ?thesis using assms by (simp add: recv_inv_def)
qed

lemma no_buffer_inv: "no_buffer env q v = Some (rc, v') \<Longrightarrow> recv_inv q v P R \<Longrightarrow> recv_inv q v' P R"
  by (rule recv_inv_frame[where v = v])
    (auto simp: no_buffer_def cm_notify_def upd_qp_def Let_def split: option.splits prod.splits if_splits)

lemma recv_data_inv:
  assumes "recv_data env q h payload v = Some (rc, v')" "recv_inv q v P R" "\<forall>i. ve_kmalloc env i \<noteq> 0"
  shows "recv_inv q v' P R"
proof (cases "find_unused q v")
  case None
  then show ?thesis using assms no_buffer_inv by (simp add: recv_data_def)
next
  case (Some w)
  then obtain e wr rc1 v1 where D: "recv_into env q w e wr h payload v = Some (rc, v1)"
    and p: "bgvrnic_process_recv_wqes env q v1 = Some (rc1, v')"
    using assms(1) by (auto simp: recv_data_def split: option.splits vrnic_wr.splits)
  have i: "in_place w v v1" by (rule recv_into_in_place[OF D])
  show ?thesis by (rule recv_inv_process[OF recv_inv_in_place[OF assms(2) i] assms(3) p])
qed

lemma status_recv_inv:
  assumes "status_one env w status v = Some v'" "recv_inv q v P R" "w \<in> set (rq (v_qps v q))" "\<forall>i. ve_kmalloc env i \<noteq> 0"
  shows "recv_inv q v' P R"
proof -
  obtain e where e: "v_wqes v w = Some e" "rq_entry_ok q e" using assms(2,3) by (auto simp: recv_inv_def)
  then have t: "wqe_ty e = WQET_RECV" "wqe_qp e = q" by (simp_all add: rq_entry_ok_def)
  then obtain rc where p: "bgvrnic_process_recv_wqes env q (upd_wqe w (wqe_done status) v) = Some (rc, v')"
    using assms(1) e(1) by (auto simp: status_one_def)
  have "in_place w v (upd_wqe w (wqe_done status) v)" using e(1) by (simp add: in_place_def upd_wqe_def wqe_done_def)
  then show ?thesis by (rule recv_inv_process[OF recv_inv_in_place[OF assms(2)] assms(4) p])
qed

lemma recv_sys_inv: "recv_sys q v P R \<Longrightarrow> recv_inv q v P R"
proof (induction rule: recv_sys.induct)
  case (recv_start v)
  then show ?case by (simp add: recv_inv_def)
next
  case (recv_post v P R env wrs rc bad v')
  then show ?case
    using post_recv_loop_inv[of env q wrs v rc bad v' P R]
    by (auto simp: bgvrnic_post_recv_def posted_wrs_def kmalloc_ok_def split: if_splits)
next
  case (recv_message v P R env h payload rc v')
  then show ?case using recv_data_inv by (simp add: kmalloc_ok_def)
next
  case (recv_status v P R env w status v')
  then show ?case using status_recv_inv by (simp add: kmalloc_ok_def)
next
  case (recv_poll v P R n k wcs cq')
  have w: "wcs = take (unat n) (cq_entries (v_cqs v (rcq (v_qps v q))))"
    "cq_entries cq' = drop (unat n) (cq_entries (v_cqs v (rcq (v_qps v q))))"
    using recv_poll.hyps(2) by (auto simp: bgvrnic_poll_cq_def poll_cq_take)
  have i: "recv_id (v\<lparr>v_cqs := c\<rparr>) = recv_id v" for c by (simp add: recv_id_def fun_eq_iff)
  have "map wc_wr_id wcs @ map wc_wr_id (cq_entries cq') = map wc_wr_id (cq_entries (v_cqs v (rcq (v_qps v q))))"
    unfolding w map_append[symmetric] append_take_drop_id ..
  then show ?case using recv_poll.IH by (simp add: recv_inv_def i)
qed

section \<open>A message, received\<close>

lemma find_unused_head:
  assumes "rq (v_qps v q) = w # ws" "v_wqes v w = Some e" "wqe_st e = WQES_INIT"
  shows "find_unused q v = Some w"
  using assms by (simp add: find_unused_def)

text \<open>An immediate message takes the buffer at the head of the queue and completes it at once.\<close>

lemma recv_data_imm_total:
  assumes km: "\<forall>i. ve_kmalloc env i \<noteq> 0"
    and rq: "rq (v_qps v q) = w # ws" "distinct (w # ws)" "\<forall>y\<in>set (w # ws). \<exists>e. v_wqes v y = Some e \<and> rq_entry_ok q e"
    and e: "v_wqes v w = Some e" "wqe_st e = WQES_INIT" "wqe_wr e = Some (RecvWr wr)" and buf: "buffer_ok (v_mrs v) wr"
    and h: "ptype h = MUDM_PKT_DATA_IMM" "unat (payload_length h) = length payload"
  shows "\<exists>rc v' wc news. let n = min (length payload) (length (buf_addrs (v_mrs v) wr)) in
    recv_data env q h payload v = Some (rc, v') \<and>
    map (v_mem v') (take n (buf_addrs (v_mrs v) wr)) = take n payload \<and>
    (\<forall>a. a \<notin> set (take n (buf_addrs (v_mrs v) wr)) \<longrightarrow> v_mem v' a = v_mem v a) \<and>
    cq_entries (v_cqs v' (rcq (v_qps v q))) = cq_entries (v_cqs v (rcq (v_qps v q))) @ wc # news \<and>
    wc_wr_id wc = rw_wr_id wr \<and> wc_byte_len wc = of_nat n \<and> v_wqes v' w = None \<and> rcq (v_qps v' q) = rcq (v_qps v q) \<and>
    (rc, wc_status wc) = (if length payload \<le> length (buf_addrs (v_mrs v) wr) then (0, IB_WC_SUCCESS) else (- errno_nr E2BIG, IB_WC_LOC_LEN_ERR))"
proof -
  let ?B = "buf_addrs (v_mrs v) wr" and ?n = "min (length payload) (length (buf_addrs (v_mrs v) wr))"
  have "unat (payload_length h) < 2 ^ LENGTH(16)" by (rule unsigned_less)
  then have len: "unat (ucast (payload_length h) :: u32) = length payload"
    using h(2) by (simp add: unsigned_ucast_eq take_bit_nat_eq_self)
  from recv_immed_total[OF buf len e(1), of env] obtain rc m' st where
    R: "bgvrnic_recv_immed env w e wr payload (ucast (payload_length h)) v = Some (rc, (v\<lparr>v_wqes := (v_wqes v)(w \<mapsto>
       e\<lparr>wqe_status := st, wqe_length := of_nat ?n, wqe_st := WQES_DONE\<rparr>)\<rparr>)\<lparr>v_mem := m'\<rparr>)"
    "map m' (take ?n ?B) = take ?n payload" "\<forall>a. a \<notin> set (take ?n ?B) \<longrightarrow> m' a = v_mem v a"
    "(rc, st) = (if length payload \<le> length ?B then (0, IB_WC_SUCCESS) else (- errno_nr E2BIG, IB_WC_LOC_LEN_ERR))"
    unfolding Let_def by (elim exE conjE) (rule that)
  define v1 where "v1 = (v\<lparr>v_wqes := (v_wqes v)(w \<mapsto>
       e\<lparr>wqe_status := st, wqe_length := of_nat ?n, wqe_st := WQES_DONE\<rparr>)\<rparr>)\<lparr>v_mem := m'\<rparr>"
  have v1: "v_qps v1 = v_qps v" "v_cqs v1 = v_cqs v" "v_mem v1 = m'"
    "v_wqes v1 = (v_wqes v)(w \<mapsto> e\<lparr>wqe_status := st, wqe_length := of_nat ?n, wqe_st := WQES_DONE\<rparr>)" by (simp_all add: v1_def)
  have "\<forall>y\<in>set (rq (v_qps v1 q)). \<exists>e. v_wqes v1 y = Some e \<and> rq_entry_ok q e"
  proof
    fix y assume "y \<in> set (rq (v_qps v1 q))"
    with rq(1,3) v1(1) obtain e' where "v_wqes v y = Some e'" "rq_entry_ok q e'" by auto
    with e(1) show "\<exists>e. v_wqes v1 y = Some e \<and> rq_entry_ok q e" by (cases "y = w") (auto simp: v1(4) rq_entry_ok_def)
  qed
  moreover have "distinct (rq (v_qps v1 q))" using rq(1,2) v1(1) by simp
  ultimately obtain news v' where P: "bgvrnic_process_recv_wqes env q v1 = Some (0, v')" "recv_walked q (rq (v_qps v1 q)) v1 news v'"
    using process_recv_total[where q = q and v = v1, OF km] by blast
  note W = P(2)[unfolded recv_walked_def]
  have d: "entry_done v1 w" by (simp add: entry_done_def v1(4))
  have st: "fst (wc_status_of st) = st" using R(4) by (auto simp: wc_status_of_def IB_WC_SUCCESS_def IB_WC_LOC_LEN_ERR_def split: if_splits)
  have "map wc_recv news = recv_report v1 w # map (recv_report v1) (takeWhile (entry_done v1) ws)"
    using W d by (simp add: v1(1) rq(1))
  then obtain wc news' where n: "news = wc # news'" "wc_recv wc = recv_report v1 w" by (cases news) auto
  have wc: "wc_wr_id wc = rw_wr_id wr" "wc_status wc = st" "wc_byte_len wc = of_nat ?n"
    using n(2) e(3) st by (simp_all add: wc_recv_def recv_report_def recv_id_def v1(4))
  have "recv_data env q h payload v = Some (rc, v')"
    using find_unused_head[OF rq(1) e(1,2)] e(1,3) h(1) R(1)[folded v1_def] P(1) by (simp add: recv_data_def recv_into_def)
  moreover have "v_mem v' = m'" "v_wqes v' w = None" "rcq (v_qps v' q) = rcq (v_qps v q)" using W d v1(1,3) rq(1) by simp_all
  moreover have "cq_entries (v_cqs v' (rcq (v_qps v q))) = cq_entries (v_cqs v (rcq (v_qps v q))) @ wc # news'"
    using W n(1) v1(1,2) by simp
  ultimately show ?thesis using R(2-4) wc unfolding Let_def
    by (intro exI[of _ rc] exI[of _ v'] exI[of _ wc] exI[of _ news'] conjI) simp_all
qed

section \<open>A short send\<close>

text \<open>Posting one request that fits in a packet, on a connection that is up with nothing else queued.\<close>

lemma unat_ucast_16: "unat (ucast (w :: u16) :: u64) = unat w"
proof -
  have "unat w < 2 ^ LENGTH(16)" by (rule unsigned_less)
  then show ?thesis by (simp add: unsigned_ucast_eq take_bit_nat_eq_self)
qed

lemma post_send_one:
  assumes up: "vrnic_up env q x n 1 v" and st: "qp_state (v_qps v q) = IB_QPS_RTS" "sq (v_qps v q) = []"
    and wr: "send_wr_ok (v_mrs v) wr" "sw_opcode wr = IB_WR_SEND" "of_nat (length (sw_sg_list wr)) \<le> max_recv_sge (v_qps v q)"
    and one: "bgvrnic_xlate_sgl (v_mrs v) (sw_sg_list wr) (SGE (ve_payload env)) MUDM_MAX_SGE = Some (len, psge, 1)" "len \<le> 512"
    and l: "l = injfifo_of (conns (v_mc v) x)"
  shows "\<exists>v' d. bgvrnic_post_send env q [wr] v = Some (0, [], v') \<and>
    ctl_log (injfifo_ctls (v_mc v') l) = ctl_log (injfifo_ctls (v_mc v) l) @ [MemFifoDesc d] \<and>
    addr_span (Pa_Payload d) (Message_Length d) = wr_addrs (v_mrs v) wr \<and> ptype (SoftwareBytes (muh d)) = MUDM_PKT_DATA_IMM \<and>
    unat (Message_Length d) = unat (wr_bytes wr) \<and> len = wr_bytes wr"
proof -
  let ?w = "ve_kmalloc env (v_mallocs v)" and ?e = "new_wqe WQET_SEND (Some (SendWr wr)) q"
  define v1 where "v1 = upd_qp q (\<lambda>qp. qp\<lparr>sq := sq qp @ [?w]\<rparr>) (v\<lparr>v_mallocs := v_mallocs v + 2, v_wqes := (v_wqes v)(?w \<mapsto> ?e)\<rparr>)"
  have U: "hws_run (ve_hws env)" "mu_conn (v_qps v q) = Some x" "length (SGE (ve_payload env)) = MUDM_MAX_SGE"
    "\<forall>i. ve_kmalloc env i \<noteq> 0" "conn_up x n (Suc 0) (v_mc v)" using up by (simp_all add: vrnic_up_def)
  have a: "bgvrnic_alloc_wqe env WQET_SEND (Some (SendWr wr)) q v = (?w, v\<lparr>v_mallocs := v_mallocs v + 2, v_wqes := (v_wqes v)(?w \<mapsto> ?e)\<rparr>)"
    using U(4) by (simp add: bgvrnic_alloc_wqe_def vrnic_kmalloc_def Let_def)
  have pl: "post_send_loop env q [wr] v = (0, [], True, v1)"
    using wr(2,3) a U(4) by (simp add: Let_def v1_def not_less)
  have v1: "v_mrs v1 = v_mrs v" "v_mc v1 = v_mc v" "sq (v_qps v1 q) = [?w]" "mu_conn (v_qps v1 q) = Some x" "v_wqes v1 ?w = Some ?e"
    using st(2) U(2) by (simp_all add: v1_def upd_qp_def)
  obtain p where p: "send_payload env ?w ?e wr v1 = Some p" "sgl_num p = 1" "data_length p = len" "SGE p = psge"
    using one(1) by (simp add: send_payload_def v1(1) new_wqe_def)
  from send_payload_total[of v1 wr env ?w ?e] wr(1) U(3) p have P: "length psge = MUDM_MAX_SGE" "len = wr_bytes wr"
    "sgl_addrs (take 1 psge) = wr_addrs (v_mrs v) wr" by (auto simp: v1(1))
  have t: "take 1 psge = [psge ! 0]" using P(1) by (simp add: take_Suc_conv_app_nth MUDM_MAX_SGE_def)
  have w: "\<forall>u\<in>set (sw_sg_list wr). sge_within (v_mrs v) u" using wr(1) by (simp add: send_wr_ok_def)
  note O = one_piece[OF w P(3)[unfolded t] one(2)[unfolded P(2)]]
  let ?pl = "ucast (memlength (psge ! 0)) :: u16" and ?log = "ctl_log (injfifo_ctls (v_mc v) l)"
  have plen: "?pl \<le> 512" using O(3) one(2) P(2) by (simp add: word_le_nat_alt)
  have wait: "\<forall>i. \<exists>j. of_nat (Suc (length ?log)) \<le> hw_descCount (ve_hws env l (i + j))"
  proof -
    have "unat (of_nat (Suc (length ?log)) :: u64) < 2 ^ LENGTH(64)" by (rule unsigned_less)
    then show ?thesis using U(1) by (auto simp: hws_run_def hw_completes_def word_le_nat_alt)
  qed
  have live: "hws_live (ve_hws env)" using U(1) by (simp add: hws_run_def)
  from mudm_send_pkt_total[where now = "ve_now env (v_calls v1)" and requestID = ?w and ty = MUDM_PKT_DATA_IMM and
      payload_paddr = "ucast (physicalAddr (psge ! 0))",
      OF plen conn_up_magic[OF U(5)] live l refl conn_up_ctl[OF U(5), folded l] disjI2[OF wait]] obtain r mc' d where
    M: "mudm_send_pkt (ve_hws env) (ve_now env (v_calls v1)) x ?w MUDM_PKT_DATA_IMM (ucast (physicalAddr (psge ! 0))) ?pl (v_mc v) = Some (r, mc')"
    "ctl_log (injfifo_ctls mc' l) = ?log @ [MemFifoDesc d]" "Pa_Payload d = ucast (physicalAddr (psge ! 0))"
    "Message_Length d = ucast ?pl" "ptype (SoftwareBytes (muh d)) = MUDM_PKT_DATA_IMM" "r = RetOK \<or> r = RetErr EINPROGRESS"
    by (elim exE conjE) blast
  have c: "send_call env x ?w ?e wr p v1 = Some (ret_int r, v1\<lparr>v_mc := mc', v_calls := v_calls v1 + 1\<rparr>)"
    using wr(2) p one(2) M(1) v1(2) by (simp add: send_call_def Let_def MUDM_MAX_PAYLOAD_SIZE_def)
  define e1 where "e1 = ?e\<lparr>wqe_length := len, wqe_st := (if r = RetOK then WQES_DONE else WQES_RUN), wqe_status := ret_int r\<rparr>"
  have s: "send_wqe env q ?w ?e wr v1 = Some (e1, v1\<lparr>v_mc := mc', v_calls := v_calls v1 + 1\<rparr>)"
    using v1(4) p(1,3) c M(6) by (auto simp: send_wqe_def e1_def send_state_def ret_int_def)
  define v2 where "v2 = upd_wqe ?w (\<lambda>_. e1) (v1\<lparr>v_mc := mc', v_calls := v_calls v1 + 1\<rparr>)"
  have e1: "wqe_wr e1 = Some (SendWr wr)" "send_imm (sw_opcode wr) \<noteq> None" using wr(2) by (simp_all add: e1_def new_wqe_def)
  from complete_send_total[OF U(4) e1, of q ?w 0 v2] obtain rc1 v3 where
    C: "complete_send env q ?w e1 wr 0 v2 = Some (rc1, v3)" "v_mc v3 = v_mc v2" by (elim exE conjE) (rule that)
  have st: "wqe_st ?e = WQES_INIT" "wqe_wr ?e = Some (SendWr wr)" by (simp_all add: new_wqe_def)
  have "\<exists>rc rem v'. send_walk env q [?w] 0 0 v1 = Some (rc, rem, v') \<and> v_mc v' = mc'"
    using v1(5) st s[simplified] C e1_def M(6) by (auto simp: Let_def v2_def upd_wqe_def)
  then obtain v' where "bgvrnic_post_send env q [wr] v = Some (0, [], v')" "v_mc v' = mc'"
    using assms(2) pl v1(3) by (auto simp: bgvrnic_post_send_def bgvrnic_process_send_wqes_def)
  moreover have "unat (Message_Length d) = unat (wr_bytes wr)"
    unfolding M(4) unat_ucast_16 by (rule O(3))
  moreover from this have "addr_span (Pa_Payload d) (Message_Length d) = wr_addrs (v_mrs v) wr"
    using O(2) M(3) one(2) P(2) by (simp add: addr_span_def unsigned_ucast_eq take_bit_nat_eq_self word_le_nat_alt)
  ultimately show ?thesis using M(2,5) P(2) by (intro exI[of _ v'] exI[of _ d]) simp
qed

section \<open>Properties\<close>


text \<open>
  C9: a short send ends up in the peer's buffer.  Posting a request for at most 512 bytes in one
  piece, on a queue pair that is ready to send with nothing else queued, injects one packet, whose
  address and length name the user bytes of the request.  When its payload, the bytes there, reaches a peer with an unused
  buffer that is large enough at the head of the receive queue, the callback returns 0 (the number
  being the expected one), the user bytes of the request have been copied to the user bytes of the
  buffer in order and nothing else has changed, and the next completion there has the number of
  the buffer, the length of the message and success.
\<close>

theorem send_reaches_buffer:
  assumes up: "vrnic_up env q x n 1 v" and st: "qp_state (v_qps v q) = IB_QPS_RTS" "sq (v_qps v q) = []"
    and wr: "send_wr_ok (v_mrs v) wr" "sw_opcode wr = IB_WR_SEND" "of_nat (length (sw_sg_list wr)) \<le> max_recv_sge (v_qps v q)"
    and one: "bgvrnic_xlate_sgl (v_mrs v) (sw_sg_list wr) (SGE (ve_payload env)) MUDM_MAX_SGE = Some (len, psge, 1)" "len \<le> 512"
    and l: "l = injfifo_of (conns (v_mc v) x)"
    and km: "\<forall>i. ve_kmalloc env2 i \<noteq> 0" and rq: "rq (v_qps v2 q2) = w # ws" "distinct (w # ws)"
      "\<forall>y\<in>set (w # ws). \<exists>e. v_wqes v2 y = Some e \<and> rq_entry_ok q2 e"
    and e: "v_wqes v2 w = Some e" "wqe_st e = WQES_INIT" "wqe_wr e = Some (RecvWr rwr)" "buffer_ok (v_mrs v2) rwr"
    and fits: "unat (wr_bytes wr) \<le> length (buf_addrs (v_mrs v2) rwr)"
  shows "\<exists>v' d. bgvrnic_post_send env q [wr] v = Some (0, [], v') \<and>
    ctl_log (injfifo_ctls (v_mc v') l) = ctl_log (injfifo_ctls (v_mc v) l) @ [MemFifoDesc d] \<and>
    addr_span (Pa_Payload d) (Message_Length d) = wr_addrs (v_mrs v) wr \<and>
    (\<forall>h payload. payload = map (v_mem v) (addr_span (Pa_Payload d) (Message_Length d)) \<and> ptype h = ptype (SoftwareBytes (muh d)) \<and>
       unat (payload_length h) = length payload \<and> v_qpns v2 (ucast (dest_qpn h)) = Some q2 \<and> ucast (sequence_number h) = rq_psn (v_qps v2 q2) \<longrightarrow>
       (\<exists>v2' wc news. mu_recv_cb rx env2 h payload v2 = Some (0, v2') \<and>
         map (v_mem v2') (take (length payload) (buf_addrs (v_mrs v2) rwr)) = map (v_mem v) (wr_addrs (v_mrs v) wr) \<and>
         (\<forall>a. a \<notin> set (take (length payload) (buf_addrs (v_mrs v2) rwr)) \<longrightarrow> v_mem v2' a = v_mem v2 a) \<and>
         cq_entries (v_cqs v2' (rcq (v_qps v2 q2))) = cq_entries (v_cqs v2 (rcq (v_qps v2 q2))) @ wc # news \<and>
         wc_recv wc = (rw_wr_id rwr, IB_WC_SUCCESS, wr_bytes wr)))"
proof -
  from post_send_one[OF up st wr one l] obtain v' d where
    S: "bgvrnic_post_send env q [wr] v = Some (0, [], v')"
    "ctl_log (injfifo_ctls (v_mc v') l) = ctl_log (injfifo_ctls (v_mc v) l) @ [MemFifoDesc d]"
    "addr_span (Pa_Payload d) (Message_Length d) = wr_addrs (v_mrs v) wr" "ptype (SoftwareBytes (muh d)) = MUDM_PKT_DATA_IMM"
    "unat (Message_Length d) = unat (wr_bytes wr)" by (elim exE conjE) (rule that)
  have pl: "length (wr_addrs (v_mrs v) wr) = unat (wr_bytes wr)" using arg_cong[OF S(3), of length] S(5) by simp
  have "\<exists>v2' wc news. mu_recv_cb rx env2 h payload v2 = Some (0, v2') \<and>
      map (v_mem v2') (take (length payload) (buf_addrs (v_mrs v2) rwr)) = payload \<and>
      (\<forall>a. a \<notin> set (take (length payload) (buf_addrs (v_mrs v2) rwr)) \<longrightarrow> v_mem v2' a = v_mem v2 a) \<and>
      cq_entries (v_cqs v2' (rcq (v_qps v2 q2))) = cq_entries (v_cqs v2 (rcq (v_qps v2 q2))) @ wc # news \<and>
      wc_recv wc = (rw_wr_id rwr, IB_WC_SUCCESS, wr_bytes wr)"
    if h: "payload = map (v_mem v) (wr_addrs (v_mrs v) wr)" "ptype h = MUDM_PKT_DATA_IMM"
      "unat (payload_length h) = length payload" "v_qpns v2 (ucast (dest_qpn h)) = Some q2"
      "ucast (sequence_number h) = rq_psn (v_qps v2 q2)" for h payload
  proof -
    let ?v3 = "snd (psn_check q2 h v2)"
    have v3: "rq (v_qps ?v3 q2) = w # ws" "v_wqes ?v3 = v_wqes v2" "v_mrs ?v3 = v_mrs v2" "v_mem ?v3 = v_mem v2" "v_cqs ?v3 = v_cqs v2"
      "rcq (v_qps ?v3 q2) = rcq (v_qps v2 q2)"
      using rq(1) by (simp_all add: psn_check_def upd_qp_def)
    have len: "length payload = unat (wr_bytes wr)" using h(1) pl by simp
    then have n: "min (length payload) (length (buf_addrs (v_mrs v2) rwr)) = length payload" "length payload \<le> length (buf_addrs (v_mrs v2) rwr)"
      using fits by simp_all
    from recv_data_imm_total[where v = ?v3 and q = q2 and h = h and payload = payload, unfolded v3, OF km refl rq(2,3) e h(2,3)]
    obtain rc v2' wc news where
      R: "recv_data env2 q2 h payload ?v3 = Some (rc, v2')" "map (v_mem v2') (take (length payload) (buf_addrs (v_mrs v2) rwr)) = payload"
      "\<forall>a. a \<notin> set (take (length payload) (buf_addrs (v_mrs v2) rwr)) \<longrightarrow> v_mem v2' a = v_mem v2 a"
      "cq_entries (v_cqs v2' (rcq (v_qps v2 q2))) = cq_entries (v_cqs v2 (rcq (v_qps v2 q2))) @ wc # news"
      "wc_wr_id wc = rw_wr_id rwr" "wc_byte_len wc = of_nat (length payload)" "(rc, wc_status wc) = (0, IB_WC_SUCCESS)"
      unfolding Let_def n(1) using n(2) by auto
    have "mu_recv_cb rx env2 h payload v2 = Some (0, v2')"
      using h(2,4,5) R(1,7) by (simp add: mu_recv_cb_def bgvrnic_get_qp_def psn_check_def MUDM_IP_IMMED_def MUDM_PKT_DATA_IMM_def)
    moreover have "wc_recv wc = (rw_wr_id rwr, IB_WC_SUCCESS, wr_bytes wr)" using R(5-7) len by (simp add: wc_recv_def)
    ultimately show ?thesis using R(2-4) by blast
  qed
  with S show ?thesis by (intro exI[of _ v'] exI[of _ d]) simp
qed

text \<open>
  Buffers of ten bytes in the demonstration region; two are posted to the empty queue of \<open>demo_vrnic\<close>.
\<close>

definition demo_recv_wr :: "u64 \<Rightarrow> ib_recv_wr" where
  "demo_recv_wr n = \<lparr>rw_wr_id = n, rw_sg_list = [\<lparr>sge_addr = 0x1000, sge_length = 10, sge_lkey = 3\<rparr>]\<rparr>"

definition demo_recv_entry :: "u64 \<Rightarrow> bgvrnic_wqe" where
  "demo_recv_entry n = new_wqe WQET_RECV (Some (RecvWr (demo_recv_wr n))) 0"

definition demo_header :: ionet_header where
  "demo_header = \<lparr>sequence_number = 0, torus_source_node = 0, torus_dest_node = 0, payload_length = 4,
     ptype = MUDM_PKT_DATA_IMM, source_qpn = 0, dest_qpn = 6\<rparr>"

lemma demo_buffer: "buf_addrs [3 \<mapsto> demo_mr] (demo_recv_wr n) = [0x500..<0x504] @ [0x900..<0x906]"
  by (simp add: buf_addrs_def demo_recv_wr_def user_addrs_def demo_mr_addrs del: upt_rec_numeral) (simp add: demo_mr_def)

lemma demo_buffer_ok: "buffer_ok [3 \<mapsto> demo_mr] (demo_recv_wr n)"
proof -
  have u: "unat (0x1000 - mr_start demo_mr) = 0" by (simp add: demo_mr_def)
  have "sge_within [3 \<mapsto> demo_mr] \<lparr>sge_addr = 0x1000, sge_length = 10, sge_lkey = 3\<rparr>"
    using demo_mr_fits by (simp add: sge_within_def demo_mr_addrs u del: upt_rec_numeral)
  moreover have "sge_pieces [3 \<mapsto> demo_mr] \<lparr>sge_addr = 0x1000, sge_length = 10, sge_lkey = 3\<rparr> = 2"
    by (simp add: sge_pieces_def demo_mr_def)
  ultimately show ?thesis unfolding buffer_ok_def demo_buffer
    by (simp add: demo_recv_wr_def MUDM_MAX_SGE_def del: upt_rec_numeral)
qed

lemma demo_kmalloc: "ve_kmalloc demo_vrnic_env i \<noteq> 0"
  using demo_vrnic_up[of 0 "[]" "[]" Map.empty] by (simp add: vrnic_up_def)

lemma demo_kmalloc_inj: "inj_on (ve_kmalloc demo_vrnic_env) {0..<4}"
proof -
  have "{0..<4 :: nat} = {0, 1, 2, 3}" by auto
  then show ?thesis by (simp add: inj_on_def demo_vrnic_env_def)
qed

lemma demo_post:
  "\<exists>v. bgvrnic_post_recv demo_vrnic_env 0 [demo_recv_wr 7, demo_recv_wr 8] (demo_vrnic [] [] Map.empty) = (0, [], v) \<and>
     rq (v_qps v 0) = [1, 5] \<and> v_wqes v = [1 \<mapsto> demo_recv_entry 7, 5 \<mapsto> demo_recv_entry 8] \<and> rcq (v_qps v 0) = 1 \<and>
     v_cqs v 1 = \<lparr>cq_flags = 0, cq_entries = []\<rparr> \<and> v_mrs v = [3 \<mapsto> demo_mr]"
  by (simp add: bgvrnic_post_recv_def demo_vrnic_def demo_qp_def bgvrnic_alloc_wqe_def vrnic_kmalloc_def demo_vrnic_env_def
    upd_qp_def demo_recv_wr_def demo_recv_entry_def Let_def)

lemma demo_recv_entry_ok: "rq_entry_ok 0 (demo_recv_entry n)" "wqe_st (demo_recv_entry n) = WQES_INIT"
  "wqe_wr (demo_recv_entry n) = Some (RecvWr (demo_recv_wr n))"
  by (simp_all add: rq_entry_ok_def demo_recv_entry_def new_wqe_def)


definition demo_receiver :: vrnic where
  "demo_receiver = (demo_vrnic [] [300] [300 \<mapsto> demo_recv_entry 7])\<lparr>v_mem := \<lambda>_. 0\<rparr>"

lemma demo_receiver_simps: "v_qps demo_receiver 0 = demo_qp [] [300]" "v_wqes demo_receiver = [300 \<mapsto> demo_recv_entry 7]"
  "v_mrs demo_receiver = [3 \<mapsto> demo_mr]" "v_mem demo_receiver = (\<lambda>_. 0)" "v_qpns demo_receiver = [6 \<mapsto> 0]"
  "cq_entries (v_cqs demo_receiver 1) = []"
  by (simp_all add: demo_receiver_def demo_vrnic_def)

lemma demo_send_one:
  "\<exists>psge. bgvrnic_xlate_sgl (v_mrs (demo_vrnic s r es)) (sw_sg_list (demo_send_wr IB_WR_SEND 32 4))
     (SGE (ve_payload demo_vrnic_env)) MUDM_MAX_SGE = Some (4, psge, 1)"
  by (simp add: bgvrnic_xlate_sgl_def demo_vrnic_env_def demo_send_wr_def demo_vrnic_def
    bgvrnic_get_mr_def xlate_sge_def demo_mr_def xlate_first_def MUDM_MAX_SGE_def)

lemma demo_send_bytes: "wr_bytes (demo_send_wr IB_WR_SEND 32 4) = 4"
  "wr_addrs [3 \<mapsto> demo_mr] (demo_send_wr IB_WR_SEND 32 4) = [0x500, 0x501, 0x502, 0x503]"
  by (simp_all add: wr_bytes_def wr_addrs_def demo_send_wr_def user_addrs_def demo_mr_addrs) (simp add: demo_mr_def)

lemma demo_recv_id: "rw_wr_id (demo_recv_wr n) = n"
  by (simp add: demo_recv_wr_def)

theorem send_reaches_buffer_witness:
  "\<exists>v' h v2' wc news. bgvrnic_post_send demo_vrnic_env 0 [demo_send_wr IB_WR_SEND 32 4] (demo_vrnic [] [] Map.empty) = Some (0, [], v') \<and>
     mu_recv_cb (\<lambda>_ _. 0) demo_vrnic_env h [0, 1, 2, 3] demo_receiver = Some (0, v2') \<and>
     map (v_mem v2') [0x500, 0x501, 0x502, 0x503, 0x900] = [0, 1, 2, 3, 0] \<and>
     cq_entries (v_cqs v2' 1) = wc # news \<and> wc_recv wc = (7, IB_WC_SUCCESS, 4)"
proof -
  let ?v = "demo_vrnic [] [] Map.empty" and ?wr = "demo_send_wr IB_WR_SEND 32 4"
  have up: "vrnic_up demo_vrnic_env 0 0 4 1 ?v" by (rule demo_vrnic_up) simp
  have st: "qp_state (v_qps ?v 0) = IB_QPS_RTS" "sq (v_qps ?v 0) = []" "v_mrs ?v = [3 \<mapsto> demo_mr]" "v_mem ?v = of_nat"
    by (simp_all add: demo_vrnic_def demo_qp_def)
  have wr: "send_wr_ok (v_mrs ?v) ?wr" "sw_opcode ?wr = IB_WR_SEND" "of_nat (length (sw_sg_list ?wr)) \<le> max_recv_sge (v_qps ?v 0)"
    using demo_send_ok[of IB_WR_SEND 4 "[]" "[]" Map.empty 32] by (simp_all add: demo_send_wr_def demo_vrnic_def demo_qp_def)
  from demo_send_one obtain psge where one: "bgvrnic_xlate_sgl (v_mrs ?v) (sw_sg_list ?wr) (SGE (ve_payload demo_vrnic_env)) MUDM_MAX_SGE = Some (4, psge, 1)"
    by blast
  have km: "\<forall>i. ve_kmalloc demo_vrnic_env i \<noteq> 0" using demo_kmalloc by blast
  note R = demo_receiver_simps
  have rq: "rq (v_qps demo_receiver 0) = [300]" "distinct [300 :: u64]"
    "\<forall>y\<in>set [300]. \<exists>e. v_wqes demo_receiver y = Some e \<and> rq_entry_ok 0 e" "v_wqes demo_receiver 300 = Some (demo_recv_entry 7)"
    "buffer_ok (v_mrs demo_receiver) (demo_recv_wr 7)" "unat (wr_bytes ?wr) \<le> length (buf_addrs (v_mrs demo_receiver) (demo_recv_wr 7))"
    "rcq (v_qps demo_receiver 0) = 1"
    using demo_recv_entry_ok(1) demo_buffer_ok by (simp_all add: R demo_qp_def demo_buffer demo_send_bytes(1))
  have le: "(4 :: u32) \<le> 512" by simp
  note T = send_reaches_buffer[OF up st(1,2) wr one le refl km rq(1-4) demo_recv_entry_ok(2,3) rq(5,6), where rx = "\<lambda>_ _. 0"]
  then obtain v' and d :: memfifo_desc where S: "bgvrnic_post_send demo_vrnic_env 0 [?wr] ?v = Some (0, [], v')"
    "addr_span (Pa_Payload d) (Message_Length d) = [0x500, 0x501, 0x502, 0x503]"
    and C: "\<forall>h payload. payload = map (v_mem ?v) (addr_span (Pa_Payload d) (Message_Length d)) \<and> ptype h = ptype (SoftwareBytes (muh d)) \<and>
       unat (payload_length h) = length payload \<and> v_qpns demo_receiver (ucast (dest_qpn h)) = Some 0 \<and>
       ucast (sequence_number h) = rq_psn (v_qps demo_receiver 0) \<longrightarrow>
       (\<exists>v2' wc news. mu_recv_cb (\<lambda>_ _. 0) demo_vrnic_env h payload demo_receiver = Some (0, v2') \<and>
         map (v_mem v2') (take (length payload) ([0x500..<0x504] @ [0x900..<0x906])) = map (v_mem ?v) [0x500, 0x501, 0x502, 0x503] \<and>
         (\<forall>a. a \<notin> set (take (length payload) ([0x500..<0x504] @ [0x900..<0x906])) \<longrightarrow> v_mem v2' a = 0) \<and>
         cq_entries (v_cqs v2' 1) = wc # news \<and> wc_recv wc = (7, IB_WC_SUCCESS, 4))"
    unfolding st(3) demo_send_bytes rq(7) R(3,4,6) demo_buffer append_Nil demo_recv_id by (elim exE conjE) (rule that)
  have p: "map (v_mem ?v) (addr_span (Pa_Payload d) (Message_Length d)) = [0, 1, 2, 3]"
    "map (v_mem ?v) [0x500, 0x501, 0x502, 0x503] = [0, 1, 2, 3]"
    "take (length [0, 1, 2, 3 :: u8]) ([0x500..<0x504] @ [0x900..<0x906]) = [0x500, 0x501, 0x502, 0x503]"
    by (simp_all add: S(2) st(4))
  have "ptype h = ptype (SoftwareBytes (muh d)) \<and> unat (payload_length h) = length [0, 1, 2, 3 :: u8] \<and>
      v_qpns demo_receiver (ucast (dest_qpn h)) = Some 0 \<and> ucast (sequence_number h) = rq_psn (v_qps demo_receiver 0)"
    if "h = demo_header\<lparr>ptype := ptype (SoftwareBytes (muh d))\<rparr>" for h
    using that by (simp add: demo_header_def R demo_qp_def)
  with C[rule_format, where payload = "[0, 1, 2, 3]", unfolded p] obtain h v2' wc news where
    "mu_recv_cb (\<lambda>_ _. 0) demo_vrnic_env h [0, 1, 2, 3] demo_receiver = Some (0, v2')"
    "map (v_mem v2') [0x500, 0x501, 0x502, 0x503] = [0, 1, 2, 3]" "\<forall>a. a \<notin> set [0x500, 0x501, 0x502, 0x503] \<longrightarrow> v_mem v2' a = 0"
    "cq_entries (v_cqs v2' 1) = wc # news" "wc_recv wc = (7, IB_WC_SUCCESS, 4)" by meson
  with S(1) show ?thesis by (intro exI[of _ v'] exI[of _ h] exI[of _ v2'] exI[of _ wc] exI[of _ news]) simp
qed



end
