(* ===== verification/Vrnic_Cm.thy ===== *)
theory Vrnic_Cm
  imports Vrnic_Recv Mudm_Handshake
begin

text \<open>
  The connection manager's side of the verbs driver, \<^verbatim>\<open>bgvrnic/bgvrnic_cm.c\<close>: opening, accepting and
  refusing connections between queue pairs, listening, and the callback on the data mover's
  connection messages.  A connection being made has an endpoint, which is on a list of the device.
\<close>

section \<open>State\<close>

text \<open>
  An identifier of the kernel's connection manager: its addresses, the endpoint the driver has stored in
  \<^verbatim>\<open>provider_data\<close>, and the references taken.
\<close>

record iw_cm_id =
  cid_local :: sockaddr_in
  cid_remote :: sockaddr_in
  cid_provider :: "u64 option"
  cid_refs :: int

datatype cep_state = CEP_INIT | CEP_CONNECTING | CEP_CONNECTED | CEP_DISCONNECTED

record bgvrnic_cep =
  cep_qp :: "nat option"
  cep_mu :: "nat option"
  remote_qpn :: u16
  remote_addr :: u32
  remote_request_id :: u64
  cep_source_qpn :: u16
  cep_st :: cep_state

text \<open>
  The device with its endpoints, by address, the list of them, and the identifiers that listen (a
  listener is nothing but its identifier).
\<close>

record cm_dev =
  cd_v :: vrnic
  cd_ids :: "nat \<Rightarrow> iw_cm_id"
  cd_cep :: "u64 \<rightharpoonup> bgvrnic_cep"
  ceps :: "u64 list"
  listeners :: "nat list"

text \<open>The addresses of queue pairs, the address of the network device, and the headers on the stack.\<close>

record cm_env =
  ce_v :: vrnic_env
  ce_qp_ptr :: "nat \<Rightarrow> u64"
  ce_select_addr :: u32
  ce_hdr :: ionet_header

record iw_cm_conn_param =
  cp_qpn :: u32
  cp_private_data :: "u8 list option"
  cp_private_data_len :: u16

definition upd_v :: "(vrnic \<Rightarrow> vrnic) \<Rightarrow> cm_dev \<Rightarrow> cm_dev" where
  "upd_v f d = d\<lparr>cd_v := f (cd_v d)\<rparr>"

definition upd_id :: "nat \<Rightarrow> (iw_cm_id \<Rightarrow> iw_cm_id) \<Rightarrow> cm_dev \<Rightarrow> cm_dev" where
  "upd_id c f d = d\<lparr>cd_ids := (cd_ids d)(c := f (cd_ids d c))\<rparr>"

definition set_provider :: "u64 option \<Rightarrow> iw_cm_id \<Rightarrow> iw_cm_id" where
  "set_provider p i = i\<lparr>cid_provider := p\<rparr>"

definition add_ref :: "iw_cm_id \<Rightarrow> iw_cm_id" where
  "add_ref i = i\<lparr>cid_refs := cid_refs i + 1\<rparr>"

definition rem_ref :: "iw_cm_id \<Rightarrow> iw_cm_id" where
  "rem_ref i = i\<lparr>cid_refs := cid_refs i - 1\<rparr>"

definition bgvrnic_add_ref :: "nat \<Rightarrow> cm_dev \<Rightarrow> cm_dev" where
  "bgvrnic_add_ref q = upd_v (upd_qp q (\<lambda>qp. qp\<lparr>references := references qp + 1\<rparr>))"

definition bgvrnic_rem_ref :: "nat \<Rightarrow> cm_dev \<Rightarrow> cm_dev" where
  "bgvrnic_rem_ref q = upd_v (upd_qp q (\<lambda>qp. qp\<lparr>references := references qp - 1\<rparr>))"

text \<open>A new endpoint at the end of the list, and taking one off and freeing it.\<close>

definition add_cep :: "u64 \<Rightarrow> bgvrnic_cep \<Rightarrow> cm_dev \<Rightarrow> cm_dev" where
  "add_cep p cep d = d\<lparr>cd_cep := (cd_cep d)(p \<mapsto> cep), ceps := ceps d @ [p]\<rparr>"

definition del_cep :: "u64 \<Rightarrow> cm_dev \<Rightarrow> cm_dev" where
  "del_cep p d = d\<lparr>cd_cep := (cd_cep d)(p := None), ceps := remove1 p (ceps d)\<rparr>"

definition upd_cep :: "u64 \<Rightarrow> (bgvrnic_cep \<Rightarrow> bgvrnic_cep) \<Rightarrow> cm_dev \<Rightarrow> cm_dev" where
  "upd_cep p f d = d\<lparr>cd_cep := (cd_cep d)(p := map_option f (cd_cep d p))\<rparr>"

definition cm_kmalloc :: "cm_env \<Rightarrow> cm_dev \<Rightarrow> u64 \<times> cm_dev" where
  "cm_kmalloc env d = (let (p, v) = vrnic_kmalloc (ce_v env) (cd_v d) in (p, d\<lparr>cd_v := v\<rparr>))"

text \<open>An event for an identifier, and what its handler answers.\<close>

definition cm_event_to :: "cm_env \<Rightarrow> nat \<Rightarrow> cm_event \<Rightarrow> cm_dev \<Rightarrow> u32 \<times> cm_dev" where
  "cm_event_to env c e d = (let (rc, v) = cm_notify (ce_v env) c e (cd_v d) in (rc, d\<lparr>cd_v := v\<rparr>))"

section \<open>Messages\<close>

definition ECONNREFUSED :: u32 where "ECONNREFUSED = 111"
definition MUDM_UNKNOWN_QPN :: u16 where "MUDM_UNKNOWN_QPN = -1"
definition MUDM_MAX_PRIVATE_DATA :: u16 where "MUDM_MAX_PRIVATE_DATA = 256"
definition MUDM_IS_IONODE :: u32 where "MUDM_IS_IONODE = 0x80000000"
definition MUDM_IS_CN :: u32 where "MUDM_IS_CN = 0"

text \<open>An address in the 16 bytes of a message, and the structure a message starts with.\<close>

definition ip_bytes :: "u32 \<Rightarrow> u8 list" where
  "ip_bytes a = be_bytes 4 a @ replicate 12 0"

definition ip_word :: "u8 list \<Rightarrow> u32" where
  "ip_word bs = be_word (take 4 bs)"

definition connect_of_bytes :: "ionet_header \<Rightarrow> u8 list \<Rightarrow> ionet_connect" where
  "connect_of_bytes h bs = \<lparr>ic_hdr = h, source_port = be_word (read_at 0 4 bs), dest_port = be_word (read_at 4 4 bs),
     source_IP_addr = read_at 8 16 bs, dest_IP_addr = read_at 24 16 bs, source_request_id = be_word (read_at 40 8 bs),
     ic_status = be_word (read_at 48 4 bs), private_data_length = be_word (read_at 52 2 bs)\<rparr>"

definition private_data_of :: "u8 list \<Rightarrow> u16 \<Rightarrow> u8 list option" where
  "private_data_of bs n = (if n \<noteq> 0 then Some (read_at connect_payload_length (unat n) bs) else None)"

text \<open>The message for the peer of an identifier.\<close>

definition cm_message :: "cm_env \<Rightarrow> u16 \<Rightarrow> u16 \<Rightarrow> sockaddr_in \<Rightarrow> sockaddr_in \<Rightarrow> u64 \<Rightarrow> u32 \<Rightarrow> ionet_connect" where
  "cm_message env sqpn dqpn src dst rid status =
     \<lparr>ic_hdr = (ce_hdr env)\<lparr>source_qpn := sqpn, dest_qpn := dqpn\<rparr>, source_port = ucast (sin_port src), dest_port = ucast (sin_port dst),
      source_IP_addr = ip_bytes (sin_addr src), dest_IP_addr = ip_bytes (sin_addr dst), source_request_id = rid,
      ic_status = status, private_data_length = 0\<rparr>"

definition mudm_dest32 :: "u32 \<Rightarrow> u32 \<Rightarrow> u32 \<Rightarrow> u32 \<Rightarrow> u32 \<Rightarrow> u32 \<Rightarrow> u32" where
  "mudm_dest32 a b c d e ionode_indicator =
     push_bit 24 (a AND 0x3F) OR push_bit 18 (b AND 0x3F) OR push_bit 12 (c AND 0x3F) OR push_bit 6 (d AND 0x3F) OR (e AND 0x3F) OR
     ionode_indicator"

text \<open>The node an address stands for: 10.nnppaaaa.bbbbcccc.ddddeeee.\<close>

definition dest_node_of :: "u32 \<Rightarrow> u32" where
  "dest_node_of ip =
     (let addr = be_bytes 4 ip; b = (\<lambda>i. ucast (addr ! i) :: u32)
      in mudm_dest32 (b 1 AND 0xf) (drop_bit 4 (b 2)) (b 2 AND 0xf) (drop_bit 4 (b 3)) (b 3 AND 0xf)
           (if b 1 AND 0xc0 = 0x80 then MUDM_IS_CN else MUDM_IS_IONODE))"

section \<open>The callback\<close>

text \<open>The identifier that listens for an address and a port; address 0 is any.\<close>

definition find_listener :: "u32 \<Rightarrow> u32 \<Rightarrow> cm_dev \<Rightarrow> nat option" where
  "find_listener addr port d =
     List.find (\<lambda>c. (sin_addr (cid_local (cd_ids d c)) = 0 \<or> addr = sin_addr (cid_local (cd_ids d c))) \<and>
       port = ucast (sin_port (cid_local (cd_ids d c)))) (listeners d)"

text \<open>No listener: the request is answered with an error; whether that is sent does not matter.\<close>

definition refuse_request :: "cm_env \<Rightarrow> nat \<Rightarrow> ionet_connect \<Rightarrow> cm_dev \<Rightarrow> (u32 \<times> cm_dev) option" where
  "refuse_request env x req d =
     (let v = cd_v d;
          rsp = \<lparr>ic_hdr = (ce_hdr env)\<lparr>source_qpn := dest_qpn (ic_hdr req), dest_qpn := source_qpn (ic_hdr req)\<rparr>,
             source_port = dest_port req, dest_port = source_port req, source_IP_addr = ip_bytes (ip_word (dest_IP_addr req)),
             dest_IP_addr = ip_bytes (ip_word (source_IP_addr req)), source_request_id = source_request_id req,
             ic_status = - ECONNREFUSED, private_data_length = 0\<rparr>
      in map_option (\<lambda>(_, mc). (0, d\<lparr>cd_v := v\<lparr>v_mc := mc, v_calls := v_calls v + 1\<rparr>\<rparr>))
           (mudm_conn_reply (ve_hws (ce_v env)) (ve_now (ce_v env) (v_calls v)) x rsp None 0 (v_mc v)))"

text \<open>The endpoint of a request and the addresses of its event.\<close>

definition request_cep :: "nat \<Rightarrow> ionet_connect \<Rightarrow> bgvrnic_cep" where
  "request_cep x req = \<lparr>cep_qp = None, cep_mu = Some x, remote_qpn = dest_qpn (ic_hdr req),
     remote_addr = torus_source_node (ic_hdr req), remote_request_id = source_request_id req,
     cep_source_qpn = source_qpn (ic_hdr req), cep_st = CEP_CONNECTING\<rparr>"

definition listener_addr :: "cm_env \<Rightarrow> ionet_connect \<Rightarrow> sockaddr_in \<Rightarrow> sockaddr_in" where
  "listener_addr env req a =
     (if sin_addr a = 0 then \<lparr>sin_addr = ce_select_addr env, sin_port = ucast (dest_port req)\<rparr> else a)"

definition request_cb :: "cm_env \<Rightarrow> nat \<Rightarrow> ionet_connect \<Rightarrow> u8 list option \<Rightarrow> cm_dev \<Rightarrow> (u32 \<times> cm_dev) option" where
  "request_cb env x req pd d =
     (case find_listener (ip_word (dest_IP_addr req)) (dest_port req) d of
        None \<Rightarrow> refuse_request env x req d
      | Some c \<Rightarrow>
         (let (p, d1) = cm_kmalloc env d in
          if p = 0 then Some (- errno_nr ENOMEM, d1)
          else Some (cm_event_to env c
                 (CM_CONNECT_REQUEST (listener_addr env req (cid_local (cd_ids d c)))
                    \<lparr>sin_addr = ip_word (source_IP_addr req), sin_port = ucast (source_port req)\<rparr> pd p)
                 (add_cep p (request_cep x req) d1))))"

text \<open>
  A reply goes to the first endpoint with its request id, which is then freed.  The queue pair is ready
  to send when the handler accepts the event, whatever the status of the reply.
\<close>

definition find_cep :: "u64 \<Rightarrow> cm_dev \<Rightarrow> u64 option" where
  "find_cep rid d = List.find (\<lambda>p. case cd_cep d p of None \<Rightarrow> False | Some cep \<Rightarrow> remote_request_id cep = rid) (ceps d)"

definition reply_cb :: "cm_env \<Rightarrow> ionet_connect \<Rightarrow> u8 list option \<Rightarrow> cm_dev \<Rightarrow> (u32 \<times> cm_dev) option" where
  "reply_cb env req pd d =
     (case find_cep (source_request_id req) d of
        None \<Rightarrow> Some (- errno_nr EINVAL, d)
      | Some p \<Rightarrow>
         (case Option.bind (cd_cep d p) cep_qp of
            None \<Rightarrow> None
          | Some q \<Rightarrow>
             (case cm_id (v_qps (cd_v d) q) of
                None \<Rightarrow> None
              | Some c \<Rightarrow>
                 (let d1 = upd_v (upd_qp q (\<lambda>qp. qp\<lparr>dest_qp_num := ucast (dest_qpn (ic_hdr req))\<rparr>)) d;
                      (rc, d2) = cm_event_to env c (CM_CONNECT_REPLY (ic_status req)
                        \<lparr>sin_addr = ip_word (dest_IP_addr req), sin_port = ucast (dest_port req)\<rparr>
                        \<lparr>sin_addr = ip_word (source_IP_addr req), sin_port = ucast (source_port req)\<rparr> pd p) d1;
                      d3 = (if rc \<noteq> 0 then d2 else upd_v (upd_qp q (\<lambda>qp. qp\<lparr>qp_state := IB_QPS_RTS\<rparr>)) d2)
                  in Some (rc, del_cep p (bgvrnic_rem_ref q (upd_id c (set_provider None) d3)))))))"

text \<open>The peer has disconnected.\<close>

definition disconnected_cb :: "cm_env \<Rightarrow> ionet_header \<Rightarrow> cm_dev \<Rightarrow> u32 \<times> cm_dev" where
  "disconnected_cb env h d =
     (case bgvrnic_get_qp (ucast (dest_qpn h)) (cd_v d) of
        None \<Rightarrow> (0, d)
      | Some q \<Rightarrow>
         (case cm_id (v_qps (cd_v d) q) of
            None \<Rightarrow> (0, d)
          | Some c \<Rightarrow>
             (let (rc, d1) = cm_event_to env c (CM_DISCONNECT 0) (upd_v (upd_qp q (\<lambda>qp. qp\<lparr>qp_state := IB_QPS_SQE\<rparr>)) d) in
              if rc \<noteq> 0 then (rc, d1)
              else let (rc2, d2) = cm_event_to env c CM_CLOSE d1
                   in (rc2, upd_v (upd_qp q (\<lambda>qp. qp\<lparr>cm_id := None\<rparr>)) (upd_id c (rem_ref \<circ> set_provider None) d2)))))"

definition mu_connect_cb :: "cm_env \<Rightarrow> nat \<Rightarrow> ionet_header \<Rightarrow> u8 list \<Rightarrow> cm_dev \<Rightarrow> (u32 \<times> cm_dev) option" where
  "mu_connect_cb env x h payload d =
     (let req = connect_of_bytes h payload; pd = private_data_of payload (private_data_length req) in
      if ptype h = MUDM_CONN_REQUEST then request_cb env x req pd d
      else if ptype h = MUDM_CONN_REPLY then reply_cb env req pd d
      else if ptype h = MUDM_DISCONNECTED then Some (disconnected_cb env h d)
      else Some (0, d))"

section \<open>Opening\<close>

definition open_cep :: "cm_env \<Rightarrow> nat \<Rightarrow> u32 \<Rightarrow> u32 \<Rightarrow> bgvrnic_cep" where
  "open_cep env q qpn dest_node = \<lparr>cep_qp = Some q, cep_mu = None, remote_qpn = MUDM_UNKNOWN_QPN, remote_addr = dest_node,
     remote_request_id = ce_qp_ptr env q, cep_source_qpn = ucast qpn, cep_st = CEP_CONNECTING\<rparr>"

text \<open>What a failed \<^verbatim>\<open>mudm_connect\<close> takes back.\<close>

definition connect_undo :: "nat \<Rightarrow> nat \<Rightarrow> u64 \<Rightarrow> cm_dev \<Rightarrow> cm_dev" where
  "connect_undo c q p d =
     del_cep p (bgvrnic_rem_ref q (upd_v (upd_qp q (\<lambda>qp. qp\<lparr>cm_id := None\<rparr>)) (upd_id c (rem_ref \<circ> set_provider None) d)))"

definition bgvrnic_connect :: "cm_env \<Rightarrow> nat \<Rightarrow> iw_cm_conn_param \<Rightarrow> cm_dev \<Rightarrow> (u32 \<times> cm_dev) option" where
  "bgvrnic_connect env c prm d0 =
     (let (p, d) = cm_kmalloc env d0 in
      if p = 0 then Some (- errno_nr ENOMEM, d)
      else if MUDM_MAX_PRIVATE_DATA < cp_private_data_len prm then Some (- errno_nr EINVAL, d)
      else case bgvrnic_get_qp (cp_qpn prm) (cd_v d) of
        None \<Rightarrow> Some (- errno_nr EINVAL, d)
      | Some q \<Rightarrow>
         (let d1 = upd_v (upd_qp q (\<lambda>qp. qp\<lparr>cm_id := Some c\<rparr>)) (upd_id c add_ref d);
              i = cd_ids d1 c;
              dest_node = dest_node_of (sin_addr (cid_remote i));
              d2 = upd_id c (set_provider (Some p)) (add_cep p (open_cep env q (cp_qpn prm) dest_node) (bgvrnic_add_ref q d1));
              req = cm_message env (ucast (cp_qpn prm)) MUDM_UNKNOWN_QPN (cid_local i) (cid_remote i) (ce_qp_ptr env q) 0;
              v = cd_v d2; now = ve_now (ce_v env)
          in case mudm_connect (ve_hws (ce_v env)) (now (v_calls v)) (now (v_calls v + 1)) dest_node req
                    (cp_private_data prm) (cp_private_data_len prm) (v_mc v) of
               None \<Rightarrow> None
             | Some (r, x, mc) \<Rightarrow>
                 (let d3 = upd_v (upd_qp q (\<lambda>qp. qp\<lparr>mu_conn := (if x = None then mu_conn qp else x)\<rparr>))
                             (d2\<lparr>cd_v := v\<lparr>v_mc := mc, v_calls := v_calls v + 2\<rparr>\<rparr>)
                  in Some (ret_int r, if r = RetOK then d3 else connect_undo c q p d3))))"

section \<open>Accepting and refusing\<close>

text \<open>
  Sending the answer of an endpoint.  The endpoint of a connection that is accepted stays on the list;
  where the exit is an error it is freed, on the way past the label \<^verbatim>\<open>out1\<close>.
\<close>

definition cm_reply :: "cm_env \<Rightarrow> nat \<Rightarrow> ionet_connect \<Rightarrow> u8 list option \<Rightarrow> u16 \<Rightarrow> cm_dev \<Rightarrow> (ret \<times> cm_dev) option" where
  "cm_reply env x rsp pd plen d =
     (let v = cd_v d in
      map_option (\<lambda>(r, mc). (r, d\<lparr>cd_v := v\<lparr>v_mc := mc, v_calls := v_calls v + 1\<rparr>\<rparr>))
        (mudm_conn_reply (ve_hws (ce_v env)) (ve_now (ce_v env) (v_calls v)) x rsp pd plen (v_mc v)))"

definition accept_out1 :: "nat \<Rightarrow> u64 \<Rightarrow> cm_dev \<Rightarrow> cm_dev" where
  "accept_out1 c p d = upd_id c (set_provider None) (del_cep p d)"

definition accept_out2 :: "nat \<Rightarrow> u64 \<Rightarrow> nat \<Rightarrow> cm_dev \<Rightarrow> cm_dev" where
  "accept_out2 c p q d = accept_out1 c p (upd_id c rem_ref (upd_v (upd_qp q (\<lambda>qp. qp\<lparr>cm_id := None\<rparr>)) d))"

text \<open>The queue pair to use; there is none on the two exits with \<^verbatim>\<open>-EINVAL\<close>.\<close>

definition accept_qp :: "iw_cm_conn_param \<Rightarrow> cm_dev \<Rightarrow> nat option" where
  "accept_qp prm d =
     (if MUDM_MAX_PRIVATE_DATA < cp_private_data_len prm then None else bgvrnic_get_qp (cp_qpn prm) (cd_v d))"

definition accept_cep :: "cm_env \<Rightarrow> nat \<Rightarrow> iw_cm_conn_param \<Rightarrow> u64 \<Rightarrow> bgvrnic_cep \<Rightarrow> nat \<Rightarrow> cm_dev \<Rightarrow> (u32 \<times> cm_dev) option" where
  "accept_cep env c prm p cep q d =
     (let i = cd_ids d c;
          d1 = upd_cep p (\<lambda>e. e\<lparr>cep_qp := Some q, cep_st := CEP_CONNECTED\<rparr>)
                 (upd_v (upd_qp q (\<lambda>qp. qp\<lparr>cm_id := Some c, qp_state := IB_QPS_RTS,
                     dest_qp_num := ucast (remote_qpn cep), mu_conn := cep_mu cep\<rparr>)) (upd_id c add_ref d));
          rsp = cm_message env (ucast (cp_qpn prm)) (cep_source_qpn cep) (cid_local i) (cid_remote i) (remote_request_id cep) 0
      in case cep_mu cep of
           None \<Rightarrow> None
         | Some x \<Rightarrow>
            (case cm_reply env x rsp (cp_private_data prm) (cp_private_data_len prm) d1 of
               None \<Rightarrow> None
             | Some (r, d2) \<Rightarrow>
                 if r \<noteq> RetOK then Some (ret_int r, accept_out2 c p q d2)
                 else let (rc, d3) = cm_event_to env c (CM_ESTABLISHED (cid_local i) (cid_remote i) (cp_private_data prm)) d2
                      in Some (rc, if rc \<noteq> 0 then accept_out2 c p q d3 else d3)))"

definition bgvrnic_accept :: "cm_env \<Rightarrow> nat \<Rightarrow> iw_cm_conn_param \<Rightarrow> cm_dev \<Rightarrow> (u32 \<times> cm_dev) option" where
  "bgvrnic_accept env c prm d =
     (case cid_provider (cd_ids d c) of
        None \<Rightarrow> (if accept_qp prm d = None then Some (- errno_nr EINVAL, d) else None)
      | Some p \<Rightarrow>
         (case cd_cep d p of
            None \<Rightarrow> None
          | Some cep \<Rightarrow>
             (case accept_qp prm d of
                None \<Rightarrow> Some (- errno_nr EINVAL, accept_out1 c p d)
              | Some q \<Rightarrow> accept_cep env c prm p cep q d)))"

text \<open>The length of the private data is a byte: it never exceeds the maximum.\<close>

definition bgvrnic_reject :: "cm_env \<Rightarrow> nat \<Rightarrow> u8 list option \<Rightarrow> u8 \<Rightarrow> cm_dev \<Rightarrow> (u32 \<times> cm_dev) option" where
  "bgvrnic_reject env c pd plen d =
     (let i = cd_ids d c in
      case cid_provider i of
        None \<Rightarrow> None
      | Some p \<Rightarrow>
         (case cd_cep d p of
            None \<Rightarrow> None
          | Some cep \<Rightarrow>
             (let rsp = cm_message env (cep_source_qpn cep) (remote_qpn cep) (cid_local i) (cid_remote i)
                          (remote_request_id cep) (- ECONNREFUSED)
              in case cep_mu cep of
                   None \<Rightarrow> None
                 | Some x \<Rightarrow>
                     map_option (\<lambda>(r, d1). (ret_int r, upd_id c (set_provider None) (del_cep p d1)))
                       (cm_reply env x rsp pd (ucast plen) (upd_cep p (\<lambda>e. e\<lparr>cep_st := CEP_DISCONNECTED\<rparr>) d)))))"

section \<open>Listening\<close>

definition bgvrnic_create_listen :: "cm_env \<Rightarrow> nat \<Rightarrow> cm_dev \<Rightarrow> u32 \<times> cm_dev" where
  "bgvrnic_create_listen env c d0 =
     (let (p, d) = cm_kmalloc env d0 in
      if p = 0 then (- errno_nr ENOMEM, d)
      else (0, (upd_id c (set_provider None \<circ> add_ref) d)\<lparr>listeners := listeners d @ [c]\<rparr>))"

definition bgvrnic_destroy_listen :: "nat \<Rightarrow> cm_dev \<Rightarrow> u32 \<times> cm_dev" where
  "bgvrnic_destroy_listen c d =
     (0, fold (\<lambda>l e. if l = c then upd_id c (rem_ref \<circ> set_provider None) e\<lparr>listeners := remove1 c (listeners e)\<rparr> else e)
           (listeners d) d)"

end
