(* ===== verification/Vrnic_Link.thy ===== *)
theory Vrnic_Link
  imports Vrnic_Cm Vrnic_Order
begin

text \<open>
  The two ends of a connection between queue pairs: what opening it on one node makes the callback on the
  other node report, what accepting it completes on both, and what a refusal leaves behind.
\<close>

section \<open>Messages\<close>

lemma read_message:
  assumes "ip_ok ic" "length msg = 512" "private_data_length ic \<le> 256" "Message_Length d = 288" "i + n \<le> 54"
  shows "read_at i n (pk_payload (packet_of d (connect_message ic pd pl msg))) = read_at i n (connect_bytes ic)"
proof -
  let ?m = "connect_message ic pd pl msg"
  have "read_at i n (take 288 ?m) = read_at i n (read_at 0 54 ?m)"
    using assms(5) by (simp add: read_at_take read_at_read_at)
  then show ?thesis using assms(4) by (simp add: connect_message_read(3)[OF assms(1-3)])
qed

lemma connect_of_message:
  assumes "ip_ok ic" "length msg = 512" "private_data_length ic \<le> 256" "Message_Length d = 288"
  shows "connect_of_bytes h (pk_payload (packet_of d (connect_message ic pd pl msg))) = ic\<lparr>ic_hdr := h\<rparr>"
proof -
  note R = read_message[OF assms, of _ _ pd pl]
  have "read_at 0 4 (connect_bytes ic) = be_bytes 4 (source_port ic)" "read_at 4 4 (connect_bytes ic) = be_bytes 4 (dest_port ic)"
    "read_at 8 16 (connect_bytes ic) = source_IP_addr ic" "read_at 24 16 (connect_bytes ic) = dest_IP_addr ic"
    "read_at 40 8 (connect_bytes ic) = be_bytes 8 (source_request_id ic)" "read_at 48 4 (connect_bytes ic) = be_bytes 4 (ic_status ic)"
    "read_at 52 2 (connect_bytes ic) = be_bytes 2 (private_data_length ic)"
    using assms(1) by (simp_all add: connect_bytes_def read_at_def ip_ok_def del: be_bytes.simps)
  then show ?thesis by (simp add: connect_of_bytes_def R del: be_bytes.simps packet_of_simps)
qed

lemma private_of_message:
  assumes "ip_ok ic" "length msg = 512" "private_data_length ic \<le> 202" "Message_Length d = 288"
    and "length bs = unat (private_data_length ic)"
  shows "private_data_of (pk_payload (packet_of d (connect_message ic (Some bs) pl msg))) (private_data_length ic) =
    (if private_data_length ic = 0 then None else Some bs)"
proof -
  have le: "private_data_length ic \<le> 256" "length bs \<le> 202" using assms(3,5) by (simp_all add: word_le_nat_alt)
  from connect_message_private[OF assms(1,2,5) le(1), of pl] le(2)
  have "read_at 54 (length bs) (take 288 (connect_message ic (Some bs) pl msg)) = bs" by simp
  then show ?thesis using assms(4,5) by (simp add: private_data_of_def connect_payload_length_def)
qed

lemma ip_word_bytes: "ip_word (ip_bytes a) = a"
  by (simp add: ip_word_def ip_bytes_def del: be_bytes.simps)

lemma cm_message_ip: "ip_ok (cm_message env s q src dst rid st)" "ip_ok ((cm_message env s q src dst rid st)\<lparr>private_data_length := n\<rparr>)"
  by (simp_all add: ip_ok_def cm_message_def ip_bytes_def del: be_bytes.simps)

lemma sock_roundtrip: "\<lparr>sin_addr = ip_word (ip_bytes (sin_addr a)), sin_port = ucast (ucast (sin_port a) :: u32)\<rparr> = (a :: sockaddr_in)"
proof -
  have "(ucast (ucast (sin_port a) :: u32) :: u16) = sin_port a"
    by (rule word_unat_eq_iff[THEN iffD2]) (simp add: unsigned_ucast_eq take_bit_word_eq_self take_bit_nat_eq_self)
  then show ?thesis by (cases a) (simp add: ip_word_bytes)
qed

text \<open>The driver's callback as the data mover sees it.\<close>

definition conn_cb :: "cm_env \<Rightarrow> cm_dev \<Rightarrow> recv_conn" where
  "conn_cb env d x h b mc = map_option (\<lambda>(rc, d'). (sint rc, v_mc (cd_v d')))
     (mu_connect_cb env x h b (upd_v (\<lambda>v. v\<lparr>v_mc := mc\<rparr>) d))"

section \<open>Opening\<close>

lemma cm_kmalloc_simps: "cm_kmalloc env d = (ve_kmalloc (ce_v env) (v_mallocs (cd_v d)), upd_v (\<lambda>v. v\<lparr>v_mallocs := v_mallocs v + 1\<rparr>) d)"
  by (simp add: cm_kmalloc_def vrnic_kmalloc_def upd_v_def)

lemma cm_event_simps: "cm_event_to env c e d =
    (ve_cm (ce_v env) (length (v_events (cd_v d))), upd_v (\<lambda>v. v\<lparr>v_events := v_events v @ [CmEvent c e]\<rparr>) d)"
  by (simp add: cm_event_to_def cm_notify_def upd_v_def)

text \<open>What the callback does with a request a listener waits for.\<close>

lemma request_cb_total:
  assumes "\<forall>i. ve_kmalloc (ce_v env) i \<noteq> 0"
    and "find_listener (ip_word (dest_IP_addr req)) (dest_port req) d = Some c"
  shows "\<exists>d' p. request_cb env y req pd d = Some (ve_cm (ce_v env) (length (v_events (cd_v d))), d') \<and>
    v_events (cd_v d') = v_events (cd_v d) @ [CmEvent c (CM_CONNECT_REQUEST (listener_addr env req (cid_local (cd_ids d c)))
      \<lparr>sin_addr = ip_word (source_IP_addr req), sin_port = ucast (source_port req)\<rparr> pd p)] \<and>
    ceps d' = ceps d @ [p] \<and> cd_cep d' = (cd_cep d)(p \<mapsto> request_cep y req) \<and> cd_ids d' = cd_ids d \<and>
    v_mc (cd_v d') = v_mc (cd_v d) \<and> v_qps (cd_v d') = v_qps (cd_v d)"
  using assms by (simp add: request_cb_def cm_kmalloc_simps cm_event_simps upd_v_def add_cep_def Let_def)

lemma find_listener_v: "find_listener a p (upd_v f d) = find_listener a p d"
  by (simp add: find_listener_def upd_v_def)

text \<open>What \<^verbatim>\<open>bgvrnic_connect\<close> does when the data mover takes the request.\<close>

lemma bgvrnic_connect_total:
  assumes km: "\<forall>i. ve_kmalloc (ce_v env) i \<noteq> 0" and len: "cp_private_data_len prm \<le> 256"
    and q: "bgvrnic_get_qp (cp_qpn prm) (cd_v d) = Some q"
    and i: "i = cd_ids d c" "dest = dest_node_of (sin_addr (cid_remote i))"
    and m: "mudm_connect (ve_hws (ce_v env)) (ve_now (ce_v env) (v_calls (cd_v d))) (ve_now (ce_v env) (v_calls (cd_v d) + 1)) dest
      (cm_message env (ucast (cp_qpn prm)) MUDM_UNKNOWN_QPN (cid_local i) (cid_remote i) (ce_qp_ptr env q) 0)
      (cp_private_data prm) (cp_private_data_len prm) (v_mc (cd_v d)) = Some (RetOK, Some x, mc')"
  shows "\<exists>d' p. bgvrnic_connect env c prm d = Some (0, d') \<and> ceps d' = ceps d @ [p] \<and>
    cd_cep d' = (cd_cep d)(p \<mapsto> open_cep env q (cp_qpn prm) dest) \<and> cid_provider (cd_ids d' c) = Some p \<and>
    cid_refs (cd_ids d' c) = cid_refs i + 1 \<and> v_mc (cd_v d') = mc' \<and> mu_conn (v_qps (cd_v d') q) = Some x \<and>
    cm_id (v_qps (cd_v d') q) = Some c \<and> references (v_qps (cd_v d') q) = references (v_qps (cd_v d) q) + 1 \<and>
    qp_state (v_qps (cd_v d') q) = qp_state (v_qps (cd_v d) q) \<and> v_qpns (cd_v d') = v_qpns (cd_v d)"
proof -
  have l: "\<not> MUDM_MAX_PRIVATE_DATA < cp_private_data_len prm" using len by (simp add: MUDM_MAX_PRIVATE_DATA_def not_less)
  have q': "bgvrnic_get_qp (cp_qpn prm) (cd_v (upd_v (\<lambda>v. v\<lparr>v_mallocs := v_mallocs v + 1\<rparr>) d)) = Some q"
    using q by (simp add: bgvrnic_get_qp_def upd_v_def)
  show ?thesis using m km l q' i
    by (simp add: bgvrnic_connect_def cm_kmalloc_simps Let_def upd_v_def upd_id_def upd_qp_def add_ref_def set_provider_def
      add_cep_def bgvrnic_add_ref_def ret_int_def)
qed

section \<open>Accepting\<close>

lemma bgvrnic_accept_total:
  assumes len: "cp_private_data_len prm \<le> 256" and q: "bgvrnic_get_qp (cp_qpn prm) (cd_v d) = Some q"
    and p: "cid_provider (cd_ids d c) = Some p" "cd_cep d p = Some cep" "cep_mu cep = Some y"
    and ev: "\<forall>j. ve_cm (ce_v env) j = 0" and i: "i = cd_ids d c"
    and m: "mudm_conn_reply (ve_hws (ce_v env)) (ve_now (ce_v env) (v_calls (cd_v d))) y
      (cm_message env (ucast (cp_qpn prm)) (cep_source_qpn cep) (cid_local i) (cid_remote i) (remote_request_id cep) 0)
      (cp_private_data prm) (cp_private_data_len prm) (v_mc (cd_v d)) = Some (RetOK, mc')"
  shows "\<exists>d'. bgvrnic_accept env c prm d = Some (0, d') \<and> v_mc (cd_v d') = mc' \<and>
    qp_state (v_qps (cd_v d') q) = IB_QPS_RTS \<and> mu_conn (v_qps (cd_v d') q) = Some y \<and> cm_id (v_qps (cd_v d') q) = Some c \<and>
    v_events (cd_v d') = v_events (cd_v d) @ [CmEvent c (CM_ESTABLISHED (cid_local i) (cid_remote i) (cp_private_data prm))] \<and>
    ceps d' = ceps d \<and> cd_cep d' = (cd_cep d)(p \<mapsto> cep\<lparr>cep_qp := Some q, cep_st := CEP_CONNECTED\<rparr>)"
proof -
  have "accept_qp prm d = Some q" using len q by (simp add: accept_qp_def MUDM_MAX_PRIVATE_DATA_def not_less)
  then show ?thesis using p ev m i
    by (simp add: bgvrnic_accept_def accept_cep_def cm_reply_def cm_event_simps Let_def upd_v_def upd_id_def upd_cep_def upd_qp_def)
qed

text \<open>What the callback does with a reply: it does not look at the status.\<close>

lemma reply_cb_total:
  assumes ev: "\<forall>j. ve_cm (ce_v env) j = 0" and p: "find_cep (source_request_id req) d = Some p"
    and c: "cd_cep d p = Some cep" "cep_qp cep = Some q" "cm_id (v_qps (cd_v d) q) = Some c"
  shows "\<exists>d'. reply_cb env req pd d = Some (0, d') \<and> v_mc (cd_v d') = v_mc (cd_v d) \<and>
    qp_state (v_qps (cd_v d') q) = IB_QPS_RTS \<and> mu_conn (v_qps (cd_v d') q) = mu_conn (v_qps (cd_v d) q) \<and>
    references (v_qps (cd_v d') q) = references (v_qps (cd_v d) q) - 1 \<and>
    v_events (cd_v d') = v_events (cd_v d) @ [CmEvent c (CM_CONNECT_REPLY (ic_status req)
      \<lparr>sin_addr = ip_word (dest_IP_addr req), sin_port = ucast (dest_port req)\<rparr>
      \<lparr>sin_addr = ip_word (source_IP_addr req), sin_port = ucast (source_port req)\<rparr> pd p)] \<and>
    cid_provider (cd_ids d' c) = None \<and> ceps d' = remove1 p (ceps d) \<and> cd_cep d' = (cd_cep d)(p := None)"
  using assms by (simp add: reply_cb_def cm_event_simps Let_def upd_v_def upd_id_def upd_qp_def del_cep_def bgvrnic_rem_ref_def
    set_provider_def)

lemma find_cep_v: "find_cep r (upd_v f d) = find_cep r d"
  by (simp add: find_cep_def upd_v_def)

section \<open>Refusing\<close>

text \<open>The data mover on a reply with an error: the callback, and then the block is freed.\<close>

lemma connect_reply_refused:
  assumes rep: "conn_rep mc ls" and x: "x \<in> set (ls (LPend pnd))" "pendlist_of (conns mc x) = Some pnd"
    "activelist_of (conns mc x) = Some al" and ma: "conn_magic_ok (conns mc x)"
    and i: "unat (pl_dest_conn_index (pk_connect p)) = x" "ucast (pl_dest_conn_index (pk_connect p)) < max_connections mc"
    and st: "pk_status p \<noteq> 0" and po: "port_ok (using_IO_port (pk_connect p))"
    and cb: "\<And>mc1. \<exists>r. cb x (pk_sw p) (pk_payload p) mc1 = Some (r, mc1)"
  shows "\<exists>mc1 mc2 r. cb x (pk_sw p) (pk_payload p) mc1 = Some (r, mc1) \<and> connect_reply cb p mc = Some (Inr r, mc2) \<and>
    cstate (conns mc1 x) = CONN_DISCONNECTING \<and> cstate (conns mc2 x) = CONN_FREE \<and>
    conn_rep mc2 (ls(LPend pnd := remove1 x (ls (LPend pnd)), LFree := x # ls LFree))"
proof -
  from reply_fields_total[OF po, of "conns mc x"] obtain c where
    c: "reply_fields p (conns mc x) = Some c" "pendlist_of c = pendlist_of (conns mc x)"
      "activelist_of c = activelist_of (conns mc x)" "cmagic c = cmagic (conns mc x)" by blast
  let ?mc0 = "upd_conn x (\<lambda>_. c) mc"
  have r0: "conn_rep ?mc0 ls" "pendlist_of (conns ?mc0 x) = Some pnd" "activelist_of (conns ?mc0 x) = Some al"
    using rep x(2,3) c(2,3) by simp_all
  let ?ls1 = "ls(LPend pnd := remove1 x (ls (LPend pnd)), LActive al := x # ls (LActive al))"
  from connection_activate_rep[OF r0(1) x(1) r0(2,3)] obtain mc1 where
    A: "connection_activate x ?mc0 = Some mc1" "conn_rep mc1 ?ls1"
    "conns mc1 = (conns ?mc0)(x := (conns ?mc0 x)\<lparr>cstate := CONN_ACTIVE\<rparr>)" by blast
  define mc2 where "mc2 = upd_conn x (\<lambda>k. k\<lparr>cstate := CONN_DISCONNECTING\<rparr>) mc1"
  have r2: "conn_rep mc2 ?ls1" using A(2) by (simp add: mc2_def)
  have "free_ok mc2 (LActive al) x" using A(3) c ma x(3) by (simp add: free_ok_def mc2_def conn_magic_ok_def)
  from connection_free_rep[OF r2 _ this] obtain mc3 where
    F: "connection_free x mc2 = Some (RetOK, mc3)" "conn_rep mc3 (?ls1(LActive al := remove1 x (?ls1 (LActive al)), LFree := x # ?ls1 LFree))"
    "conns mc3 = (conns mc2)(x := (conns mc2 x)\<lparr>cstate := CONN_FREE\<rparr>)" by auto
  have ls: "?ls1(LActive al := remove1 x (?ls1 (LActive al)), LFree := x # ?ls1 LFree) =
      ls(LPend pnd := remove1 x (ls (LPend pnd)), LFree := x # ls LFree)" by (rule ext) simp
  from cb obtain r where k: "cb x (pk_sw p) (pk_payload p) mc2 = Some (r, mc2)" by blast
  have "connect_reply cb p mc = Some (Inr r, mc3)"
    using i ma c(1) A(1) st F(1) k by (simp add: connect_reply_def Let_def mc2_def[symmetric])
  then show ?thesis using F(2,3) k unfolding ls
    by (intro exI[of _ mc2] exI[of _ mc3] exI[of _ r]) (simp add: mc2_def)
qed

text \<open>The packet of a request, as its receiver reads it.\<close>

lemma connect_packet:
  assumes mm: "mmagic mc = MUDM_MAGIC" and po: "port_ok (my_using_IO_port mc)" and rep: "conn_rep mc ls" and fs: "ls LFree = x # fs"
    and hs: "hws_live hs" and inj: "ctl_inv n (injfifo_ctls mc l)" and l: "l = connect_link mc dest"
    and pool: "pkt_free_list (packetcontrols mc l) = Some k" and buf: "length (pkt_mem mc l k) = 512"
    and pd: "length bs = unat plen" "plen \<le> 202" and req: "ip_ok (req\<lparr>private_data_length := plen\<rparr>)"
  shows "\<exists>mc' d. mudm_connect hs now now' dest req (Some bs) plen mc = Some (RetOK, Some x, mc') \<and>
    ctl_log (injfifo_ctls mc' l) = ctl_log (injfifo_ctls mc l) @ [MemFifoDesc d] \<and> cstate (conns mc' x) = CONN_PENDING \<and>
    (let p = packet_of d (pkt_mem mc' l k) in ptype (pk_sw p) = MUDM_CONN_REQUEST \<and>
      torus_source_node (pk_sw p) = myTorusAddress mc \<and> source_qpn (pk_sw p) = source_qpn (ic_hdr req) \<and>
      dest_qpn (pk_sw p) = dest_qpn (ic_hdr req) \<and> source_conn_index (pk_connect p) = my_index (conns mc x) \<and>
      connect_of_bytes (pk_sw p) (pk_payload p) = req\<lparr>private_data_length := plen, ic_hdr := pk_sw p\<rparr> \<and>
      private_data_of (pk_payload p) plen = (if plen = 0 then None else Some bs))"
proof -
  let ?ic = "req\<lparr>private_data_length := plen\<rparr>"
  have pl: "plen \<le> 256" using pd(2) by (simp add: word_le_nat_alt)
  from mudm_connect_total[OF mm pl po rep fs hs inj l pool, of now now' req "Some bs"] obtain mc' d where
    C: "mudm_connect hs now now' dest req (Some bs) plen mc = Some (RetOK, Some x, mc')"
    "ctl_log (injfifo_ctls mc' l) = ctl_log (injfifo_ctls mc l) @ [MemFifoDesc d]" "Message_Length d = 288"
    "ptype (SoftwareBytes (muh d)) = MUDM_CONN_REQUEST" "torus_source_node (SoftwareBytes (muh d)) = myTorusAddress mc"
    "pkt_mem mc' l k = connect_message ?ic (Some bs)
      \<lparr>source_conn_index = my_index (conns mc x), pl_dest_conn_index = -1, pl_version = MUDM_VERSION,
       using_IO_port = my_using_IO_port mc, rec_FIFO_Id = local_rec_FIFO_Id (conns mc' x), source_BlockID = myBlockID mc,
       myBridgeTorusAddress = mybridgingCNnode mc, sourceUCI = myUCI mc, pl_timestamp = now\<rparr> (pkt_mem mc l k)"
    "cstate (conns mc' x) = CONN_PENDING"
    "source_qpn (SoftwareBytes (muh d)) = source_qpn (ic_hdr req)" "dest_qpn (SoftwareBytes (muh d)) = dest_qpn (ic_hdr req)"
    by (elim exE conjE) (rule that)
  have len: "private_data_length ?ic \<le> 256" "private_data_length ?ic \<le> 202" "length bs = unat (private_data_length ?ic)"
    using pl pd by simp_all
  note M = connect_of_message[OF req buf len(1) C(3)] packet_connect[OF req buf len(1) C(3)]
    private_of_message[OF req buf len(2) C(3) len(3)]
  obtain pl' where p: "pkt_mem mc' l k = connect_message ?ic (Some bs) pl' (pkt_mem mc l k)" "source_conn_index pl' = my_index (conns mc x)"
    using C(6) by auto
  note N = M(1)[of "SoftwareBytes (muh d)" "Some bs" pl', folded p(1)] M(2)[of "Some bs" pl', folded p(1)] M(3)[of pl', folded p(1)]
  show ?thesis using C(1,2,4,5,7-9) p(2) N unfolding Let_def
    by (intro exI[of _ mc'] exI[of _ d] conjI) simp_all
qed

text \<open>The handler of a node that listens, with the driver's callback.\<close>

lemma request_received:
  assumes km: "\<forall>j. ve_kmalloc (ce_v env) j \<noteq> 0" and rep: "conn_rep (v_mc (cd_v d)) ls" and fs: "ls LFree = y # fs"
    and ty: "ptype (pk_sw p) = MUDM_CONN_REQUEST" and req: "connect_of_bytes (pk_sw p) (pk_payload p) = req"
    and lis: "find_listener (ip_word (dest_IP_addr req)) (dest_port req) d = Some c"
  shows "\<exists>mc3 d' q. connect_request now (conn_cb env d) p (v_mc (cd_v d)) =
        Some (Inr (sint (ve_cm (ce_v env) (length (v_events (cd_v d))))), upd_conn y reset_seqnum mc3) \<and>
    mu_connect_cb env y (pk_sw p) (pk_payload p) (upd_v (\<lambda>v. v\<lparr>v_mc := mc3\<rparr>) d) =
      Some (ve_cm (ce_v env) (length (v_events (cd_v d))), d') \<and>
    cstate (conns mc3 y) = CONN_PENDING \<and> destination (conns mc3 y) = torus_source_node (pk_sw p) \<and>
    dest_conn_index (conns mc3 y) = source_conn_index (pk_connect p) \<and>
    v_events (cd_v d') = v_events (cd_v d) @ [CmEvent c (CM_CONNECT_REQUEST (listener_addr env req (cid_local (cd_ids d c)))
      \<lparr>sin_addr = ip_word (source_IP_addr req), sin_port = ucast (source_port req)\<rparr>
      (private_data_of (pk_payload p) (private_data_length req)) q)] \<and>
    ceps d' = ceps d @ [q] \<and> cd_cep d' q = Some (request_cep y req)"
proof -
  from connect_request_accepts[OF rep fs, of now "conn_cb env d" p] obtain mc3 where
    R: "connect_request now (conn_cb env d) p (v_mc (cd_v d)) =
        map_option (\<lambda>(r, mc4). (Inr r, upd_conn y reset_seqnum mc4)) (conn_cb env d y (pk_sw p) (pk_payload p) mc3)"
    "cstate (conns mc3 y) = CONN_PENDING" "destination (conns mc3 y) = torus_source_node (pk_sw p)"
    "dest_conn_index (conns mc3 y) = source_conn_index (pk_connect p)" by (elim exE conjE) (rule that)
  let ?d = "upd_v (\<lambda>v. v\<lparr>v_mc := mc3\<rparr>) d" and ?pd = "private_data_of (pk_payload p) (private_data_length req)"
  have v: "v_events (cd_v ?d) = v_events (cd_v d)" "cd_ids ?d = cd_ids d" "ceps ?d = ceps d" "v_mc (cd_v ?d) = mc3"
    by (simp_all add: upd_v_def)
  have "find_listener (ip_word (dest_IP_addr req)) (dest_port req) ?d = Some c" using lis by (simp add: find_listener_v)
  from request_cb_total[OF km this, of y ?pd] obtain d' q where
    B: "request_cb env y req ?pd ?d = Some (ve_cm (ce_v env) (length (v_events (cd_v d))), d')"
    "v_events (cd_v d') = v_events (cd_v d) @ [CmEvent c (CM_CONNECT_REQUEST (listener_addr env req (cid_local (cd_ids d c)))
      \<lparr>sin_addr = ip_word (source_IP_addr req), sin_port = ucast (source_port req)\<rparr> ?pd q)]"
    "ceps d' = ceps d @ [q]" "cd_cep d' = (cd_cep ?d)(q \<mapsto> request_cep y req)" "v_mc (cd_v d') = mc3"
    unfolding v by (elim exE conjE) (rule that)
  have cb: "mu_connect_cb env y (pk_sw p) (pk_payload p) ?d = Some (ve_cm (ce_v env) (length (v_events (cd_v d))), d')"
    using B(1) ty by (simp add: mu_connect_cb_def req Let_def)
  then have "conn_cb env d y (pk_sw p) (pk_payload p) mc3 = Some (sint (ve_cm (ce_v env) (length (v_events (cd_v d)))), mc3)"
    using B(5) by (simp add: conn_cb_def)
  with R B(2-4) cb show ?thesis by (intro exI[of _ mc3] exI[of _ d'] exI[of _ q]) simp
qed

text \<open>The packet of a reply, as its receiver reads it.\<close>

lemma reply_packet:
  assumes mm: "mmagic mc = MUDM_MAGIC" and rep: "conn_rep mc ls"
    and y: "y \<in> set (ls (LPend pnd))" "pendlist_of (conns mc y) = Some pnd" "activelist_of (conns mc y) = Some al"
    and ma: "conn_magic_ok (conns mc y)" and na: "cstate (conns mc y) \<noteq> CONN_ABORTED"
    and po: "port_ok (io_port (conns mc y))" and st: "ic_status rp = 0" and hs: "hws_live hs"
    and l: "l = injfifo_of (conns mc y)" "pl' = pools_of (conns mc y)"
    and inj: "ctl_inv n (injfifo_ctls mc l)" and pool: "pkt_free_list (packetcontrols mc pl') = Some k"
    and buf: "length (pkt_mem mc pl' k) = 512" and pd: "length bs = unat plen" "plen \<le> 202"
    and ip: "ip_ok (rp\<lparr>private_data_length := plen\<rparr>)"
  shows "\<exists>mc' d. mudm_conn_reply hs now' y rp (Some bs) plen mc = Some (RetOK, mc') \<and>
    cstate (conns mc' y) = CONN_ACTIVE \<and> dest_qpn (SoftwareBytes (muh (mu_iMemoryFifoDescriptor (conns mc' y)))) = dest_qpn (ic_hdr rp) \<and>
    ctl_log (injfifo_ctls mc' l) = ctl_log (injfifo_ctls mc l) @ [MemFifoDesc d] \<and>
    (let p = packet_of d (pkt_mem mc' pl' k) in ptype (pk_sw p) = MUDM_CONN_REPLY \<and>
      source_qpn (pk_sw p) = source_qpn (ic_hdr rp) \<and> pk_connect p = reply_payload mc (conns mc y) \<and> pk_status p = 0 \<and>
      connect_of_bytes (pk_sw p) (pk_payload p) = rp\<lparr>private_data_length := plen, ic_hdr := pk_sw p\<rparr> \<and>
      private_data_of (pk_payload p) plen = (if plen = 0 then None else Some bs))"
proof -
  let ?ic = "rp\<lparr>private_data_length := plen\<rparr>" and ?m = "pkt_mem mc pl' k" and ?pl = "reply_payload mc (conns mc y)"
  have pl: "plen \<le> 256" using pd(2) by (simp add: word_le_nat_alt)
  from mudm_conn_reply_total[OF mm pl rep y ma na po st hs l inj pool, of now' "Some bs"] obtain mc' d c' where
    C: "mudm_conn_reply hs now' y rp (Some bs) plen mc = Some (RetOK, mc')"
    "conns mc' = (conns mc)(y := c')" "cstate c' = CONN_ACTIVE" "mu_iMemoryFifoDescriptor c' = d"
    "ctl_log (injfifo_ctls mc' l) = ctl_log (injfifo_ctls mc l) @ [MemFifoDesc d]" "Message_Length d = 288"
    "ptype (SoftwareBytes (muh d)) = MUDM_CONN_REPLY" "pkt_mem mc' pl' k = connect_message ?ic (Some bs) ?pl ?m"
    "source_qpn (SoftwareBytes (muh d)) = source_qpn (ic_hdr rp)" "dest_qpn (SoftwareBytes (muh d)) = dest_qpn (ic_hdr rp)"
    by (elim exE conjE) (rule that)
  have len: "private_data_length ?ic \<le> 256" "private_data_length ?ic \<le> 202" "length bs = unat (private_data_length ?ic)"
    using pl pd by simp_all
  note M = connect_of_message[OF ip buf len(1) C(6)] packet_connect[OF ip buf len(1) C(6)]
    private_of_message[OF ip buf len(2) C(6) len(3)] packet_status[OF ip buf len(1) C(6)]
  show ?thesis
    by (rule exI[of _ mc'], rule exI[of _ d]) (use C st M in \<open>simp add: Let_def\<close>)
qed

text \<open>The handler of the node that asked, with the driver's callback.\<close>

lemma reply_received:
  assumes rep: "conn_rep (v_mc (cd_v dv)) ls" and x: "x \<in> set (ls (LPend pnd))" "pendlist_of (conns (v_mc (cd_v dv)) x) = Some pnd"
      "activelist_of (conns (v_mc (cd_v dv)) x) = Some al" and ma: "conn_magic_ok (conns (v_mc (cd_v dv)) x)"
    and i: "unat (pl_dest_conn_index (pk_connect p)) = x" "ucast (pl_dest_conn_index (pk_connect p)) < max_connections (v_mc (cd_v dv))"
    and st: "pk_status p = 0" and po: "port_ok (using_IO_port (pk_connect p))"
    and ty: "ptype (pk_sw p) = MUDM_CONN_REPLY" and req: "connect_of_bytes (pk_sw p) (pk_payload p) = req"
    and ev: "\<forall>j. ve_cm (ce_v env) j = 0" and e: "find_cep (source_request_id req) dv = Some pc"
    and c: "cd_cep dv pc = Some cep" "cep_qp cep = Some q" "cm_id (v_qps (cd_v dv) q) = Some c"
  shows "\<exists>mc1 d'. connect_reply (conn_cb env dv) p (v_mc (cd_v dv)) = Some (Inr 0, mc1) \<and>
    mu_connect_cb env x (pk_sw p) (pk_payload p) (upd_v (\<lambda>v. v\<lparr>v_mc := mc1\<rparr>) dv) = Some (0, d') \<and>
    v_mc (cd_v d') = mc1 \<and> cstate (conns mc1 x) = CONN_ACTIVE \<and> dest_conn_index (conns mc1 x) = source_conn_index (pk_connect p) \<and>
    dest_qpn (SoftwareBytes (muh (mu_iMemoryFifoDescriptor (conns mc1 x)))) = source_qpn (pk_sw p) \<and>
    qp_state (v_qps (cd_v d') q) = IB_QPS_RTS \<and> mu_conn (v_qps (cd_v d') q) = mu_conn (v_qps (cd_v dv) q) \<and>
    v_events (cd_v d') = v_events (cd_v dv) @ [CmEvent c (CM_CONNECT_REPLY (ic_status req)
      \<lparr>sin_addr = ip_word (dest_IP_addr req), sin_port = ucast (dest_port req)\<rparr>
      \<lparr>sin_addr = ip_word (source_IP_addr req), sin_port = ucast (source_port req)\<rparr>
      (private_data_of (pk_payload p) (private_data_length req)) pc)] \<and> ceps d' = remove1 pc (ceps dv) \<and> cd_cep d' pc = None"
proof -
  from connect_reply_activates[OF rep x ma i st po, of "conn_cb env dv"] obtain mc1 where
    R: "connect_reply (conn_cb env dv) p (v_mc (cd_v dv)) =
        map_option (\<lambda>(r, mc2). (Inr r, mc2)) (conn_cb env dv x (pk_sw p) (pk_payload p) mc1)"
    "cstate (conns mc1 x) = CONN_ACTIVE" "dest_conn_index (conns mc1 x) = source_conn_index (pk_connect p)"
    "dest_qpn (SoftwareBytes (muh (mu_iMemoryFifoDescriptor (conns mc1 x)))) = source_qpn (pk_sw p)" by (elim exE conjE) (rule that)
  let ?d = "upd_v (\<lambda>v. v\<lparr>v_mc := mc1\<rparr>) dv" and ?pd = "private_data_of (pk_payload p) (private_data_length req)"
  have v: "find_cep (source_request_id req) ?d = Some pc" "cd_cep ?d pc = Some cep" "cm_id (v_qps (cd_v ?d) q) = Some c"
    "v_events (cd_v ?d) = v_events (cd_v dv)" "v_qps (cd_v ?d) = v_qps (cd_v dv)" "ceps ?d = ceps dv" "v_mc (cd_v ?d) = mc1"
    using e c by (simp_all add: find_cep_v) (simp_all add: upd_v_def)
  from reply_cb_total[OF ev v(1,2) c(2) v(3), of ?pd] obtain d' where
    B: "reply_cb env req ?pd ?d = Some (0, d')" "v_mc (cd_v d') = mc1" "qp_state (v_qps (cd_v d') q) = IB_QPS_RTS"
    "mu_conn (v_qps (cd_v d') q) = mu_conn (v_qps (cd_v dv) q)"
    "v_events (cd_v d') = v_events (cd_v dv) @ [CmEvent c (CM_CONNECT_REPLY (ic_status req)
      \<lparr>sin_addr = ip_word (dest_IP_addr req), sin_port = ucast (dest_port req)\<rparr>
      \<lparr>sin_addr = ip_word (source_IP_addr req), sin_port = ucast (source_port req)\<rparr> ?pd pc)]"
    "ceps d' = remove1 pc (ceps dv)" "cd_cep d' = (cd_cep ?d)(pc := None)" unfolding v(4-7) by (elim exE conjE) (rule that)
  have cb: "mu_connect_cb env x (pk_sw p) (pk_payload p) ?d = Some (0, d')"
    using B(1) ty by (simp add: mu_connect_cb_def req Let_def MUDM_CONN_REPLY_def MUDM_CONN_REQUEST_def)
  then have "conn_cb env dv x (pk_sw p) (pk_payload p) mc1 = Some (0, mc1)" using B(2) by (simp add: conn_cb_def)
  with R B(2-7) cb show ?thesis by (intro exI[of _ mc1] exI[of _ d']) simp
qed

text \<open>For the examples: devices with one identifier and one queue pair, number 6.\<close>

definition demo_sock :: "u32 \<Rightarrow> sockaddr_in" where
  "demo_sock a = \<lparr>sin_addr = a, sin_port = 80\<rparr>"

definition demo_cm_env :: cm_env where
  "demo_cm_env = \<lparr>ce_v = demo_vrnic_env\<lparr>ve_kmalloc := (\<lambda>_. 7), ve_hws := demo_hws\<rparr>, ce_qp_ptr = (\<lambda>q. 0x100),
     ce_select_addr = 0x0a010102, ce_hdr = ic_hdr (demo_req 0)\<rparr>"

definition demo_cm_dev :: "my_context \<Rightarrow> u32 \<Rightarrow> u32 \<Rightarrow> (u64 \<times> bgvrnic_cep) list \<Rightarrow> cm_dev" where
  "demo_cm_dev mc a b es = \<lparr>cd_v = (demo_vrnic [] [] Map.empty)\<lparr>v_mc := mc\<rparr>,
     cd_ids = (\<lambda>_. \<lparr>cid_local = demo_sock a, cid_remote = demo_sock b,
       cid_provider = (case es of [] \<Rightarrow> None | e # _ \<Rightarrow> Some (fst e)), cid_refs = 1\<rparr>),
     cd_cep = map_of es, ceps = map fst es, listeners = [0]\<rparr>"

definition demo_prm :: iw_cm_conn_param where
  "demo_prm = \<lparr>cp_qpn = 6, cp_private_data = Some [1, 2, 3], cp_private_data_len = 3\<rparr>"

definition demo_cep :: "nat option \<Rightarrow> nat option \<Rightarrow> bgvrnic_cep" where
  "demo_cep q x = \<lparr>cep_qp = q, cep_mu = x, remote_qpn = MUDM_UNKNOWN_QPN, remote_addr = 4, remote_request_id = 0x100,
     cep_source_qpn = 6, cep_st = CEP_CONNECTING\<rparr>"

lemma demo_cm_simps:
  "sin_addr (demo_sock a) = a" "sin_port (demo_sock a) = 80"
  "v_mc (cd_v (demo_cm_dev mc a b es)) = mc" "bgvrnic_get_qp 6 (cd_v (demo_cm_dev mc a b es)) = Some 0"
  "v_qps (cd_v (demo_cm_dev mc a b es)) q = demo_qp [] []" "v_events (cd_v (demo_cm_dev mc a b es)) = []"
  "cid_local (cd_ids (demo_cm_dev mc a b es) c) = demo_sock a" "cid_remote (cd_ids (demo_cm_dev mc a b es) c) = demo_sock b"
  "cid_provider (cd_ids (demo_cm_dev mc a b (e # es)) c) = Some (fst e)"
  "cd_cep (demo_cm_dev mc a b es) = map_of es" "ceps (demo_cm_dev mc a b es) = map fst es"
  "ve_kmalloc (ce_v demo_cm_env) j = 7" "ve_hws (ce_v demo_cm_env) = demo_hws" "ve_cm (ce_v demo_cm_env) j = 0"
  "cp_qpn demo_prm = 6" "cp_private_data demo_prm = Some [1, 2, 3]" "cp_private_data_len demo_prm = 3"
  "find_listener b 80 (demo_cm_dev mc b a es) = Some 0"
  by (simp_all add: demo_cm_dev_def demo_cm_env_def demo_vrnic_env_def demo_vrnic_def bgvrnic_get_qp_def demo_prm_def
      find_listener_def demo_sock_def)

text \<open>A refusal, as the data mover receives it.\<close>

definition demo_refusal_ic :: ionet_connect where
  "demo_refusal_ic = cm_message demo_cm_env 6 6 (demo_sock 1) (demo_sock 2) 0x100 (- ECONNREFUSED)"

definition demo_refusal :: mu_packet where
  "demo_refusal = (let d = (mu_iMemoryFifoDescriptor demo_conn)\<lparr>Message_Length := 288\<rparr> in
     packet_of (d\<lparr>muh := (muh d)\<lparr>SoftwareBytes := (SoftwareBytes (muh d))\<lparr>ptype := MUDM_CONN_REPLY\<rparr>\<rparr>\<rparr>)
       (connect_message demo_refusal_ic None \<lparr>source_conn_index = 0, pl_dest_conn_index = 0, pl_version = MUDM_VERSION,
         using_IO_port = TORUS_PORT_6, rec_FIFO_Id = 1, source_BlockID = 2, myBridgeTorusAddress = 9, sourceUCI = 3, pl_timestamp = 5\<rparr>
         (replicate 512 0)))"

lemma demo_refusal_reads:
  "ptype (pk_sw demo_refusal) = MUDM_CONN_REPLY" "source_request_id (connect_of_bytes h (pk_payload demo_refusal)) = 0x100"
  "ic_status (connect_of_bytes h (pk_payload demo_refusal)) = - 111" "pl_dest_conn_index (pk_connect demo_refusal) = 0"
  "port_ok (using_IO_port (pk_connect demo_refusal))"
proof -
  have i: "ip_ok demo_refusal_ic" "private_data_length demo_refusal_ic \<le> 256" by (simp_all add: demo_refusal_ic_def cm_message_ip)
      (simp add: cm_message_def)
  note M = connect_of_message[OF i(1) _ i(2)] packet_connect[OF i(1) _ i(2)]
  show "ptype (pk_sw demo_refusal) = MUDM_CONN_REPLY" by (simp add: demo_refusal_def Let_def)
  show "source_request_id (connect_of_bytes h (pk_payload demo_refusal)) = 0x100"
    "ic_status (connect_of_bytes h (pk_payload demo_refusal)) = - 111" unfolding demo_refusal_def Let_def
    by (subst M(1); simp add: demo_refusal_ic_def cm_message_def ECONNREFUSED_def)+
  have "pk_connect demo_refusal = \<lparr>source_conn_index = 0, pl_dest_conn_index = 0, pl_version = MUDM_VERSION,
      using_IO_port = TORUS_PORT_6, rec_FIFO_Id = 1, source_BlockID = 2, myBridgeTorusAddress = 9, sourceUCI = 3, pl_timestamp = 5\<rparr>"
    unfolding demo_refusal_def Let_def by (rule M(2)) simp_all
  then show "pl_dest_conn_index (pk_connect demo_refusal) = 0" "port_ok (using_IO_port (pk_connect demo_refusal))"
    by (simp_all add: port_ok_def)
qed

section \<open>Properties\<close>



text \<open>
  C12: accepting completes the connection on both nodes.  When \<^verbatim>\<open>bgvrnic_accept\<close> answers a pending
  request and the node that asked receives the packet, both queue pairs are ready to send, each has
  its connection, and each connection is active and carries the number of the other's queue pair.  The
  accepting side reports the connection established; the other reports a reply with status 0, the
  addresses seen from its side and the private data, and frees its endpoint.  The endpoint of the
  accepting side stays on its list.
\<close>

theorem vrnic_accept_establishes:
  assumes ev: "\<forall>j. ve_cm (ce_v eA) j = 0" "\<forall>j. ve_cm (ce_v eB) j = 0"
    and pd: "cp_private_data prm = Some bs" "length bs = unat (cp_private_data_len prm)" "cp_private_data_len prm \<le> 202"
    and q: "bgvrnic_get_qp (cp_qpn prm) (cd_v dB) = Some qB"
    and e: "cid_provider (cd_ids dB c) = Some pB" "cd_cep dB pB = Some cep" "cep_mu cep = Some y"
    and i: "i = cd_ids dB c" and mc: "mc = v_mc (cd_v dB)" and mm: "mmagic mc = MUDM_MAGIC" and rep: "conn_rep mc ls"
    and y: "y \<in> set (ls (LPend pnd))" "pendlist_of (conns mc y) = Some pnd" "activelist_of (conns mc y) = Some al"
    and ma: "conn_magic_ok (conns mc y)" and na: "cstate (conns mc y) \<noteq> CONN_ABORTED"
    and po: "port_ok (io_port (conns mc y))" and hs: "hws_live (ve_hws (ce_v eB))"
    and l: "l = injfifo_of (conns mc y)" "pl' = pools_of (conns mc y)"
    and inj: "ctl_inv n (injfifo_ctls mc l)" and pool: "pkt_free_list (packetcontrols mc pl') = Some k"
    and buf: "length (pkt_mem mc pl' k) = 512"
    and mcA: "mcA = v_mc (cd_v dA)" and repA: "conn_rep mcA lsA"
    and x: "x \<in> set (lsA (LPend pndA))" "pendlist_of (conns mcA x) = Some pndA" "activelist_of (conns mcA x) = Some alA"
      "conn_magic_ok (conns mcA x)"
    and idx: "unat (dest_conn_index (conns mc y)) = x" "ucast (dest_conn_index (conns mc y)) < max_connections mcA"
    and eA: "find_cep (remote_request_id cep) dA = Some pA" "cd_cep dA pA = Some cepA" "cep_qp cepA = Some qA"
      "cm_id (v_qps (cd_v dA) qA) = Some cA" "mu_conn (v_qps (cd_v dA) qA) = Some x"
  shows "\<exists>dB' d mcA' dA'. bgvrnic_accept eB c prm dB = Some (0, dB') \<and>
    qp_state (v_qps (cd_v dB') qB) = IB_QPS_RTS \<and> mu_conn (v_qps (cd_v dB') qB) = Some y \<and>
    cstate (conns (v_mc (cd_v dB')) y) = CONN_ACTIVE \<and>
    dest_qpn (SoftwareBytes (muh (mu_iMemoryFifoDescriptor (conns (v_mc (cd_v dB')) y)))) = cep_source_qpn cep \<and>
    v_events (cd_v dB') = v_events (cd_v dB) @ [CmEvent c (CM_ESTABLISHED (cid_local i) (cid_remote i) (Some bs))] \<and>
    ceps dB' = ceps dB \<and> cd_cep dB' pB = Some (cep\<lparr>cep_qp := Some qB, cep_st := CEP_CONNECTED\<rparr>) \<and>
    ctl_log (injfifo_ctls (v_mc (cd_v dB')) l) = ctl_log (injfifo_ctls mc l) @ [MemFifoDesc d] \<and>
    (let p = packet_of d (pkt_mem (v_mc (cd_v dB')) pl' k) in
      connect_reply (conn_cb eA dA) p mcA = Some (Inr 0, mcA') \<and>
      mu_connect_cb eA x (pk_sw p) (pk_payload p) (upd_v (\<lambda>v. v\<lparr>v_mc := mcA'\<rparr>) dA) = Some (0, dA') \<and> v_mc (cd_v dA') = mcA' \<and>
      qp_state (v_qps (cd_v dA') qA) = IB_QPS_RTS \<and> mu_conn (v_qps (cd_v dA') qA) = Some x \<and>
      cstate (conns mcA' x) = CONN_ACTIVE \<and> dest_conn_index (conns mcA' x) = my_index (conns mc y) \<and>
      dest_qpn (SoftwareBytes (muh (mu_iMemoryFifoDescriptor (conns mcA' x)))) = ucast (cp_qpn prm) \<and>
      v_events (cd_v dA') = v_events (cd_v dA) @ [CmEvent cA (CM_CONNECT_REPLY 0 (cid_remote i) (cid_local i)
        (if cp_private_data_len prm = 0 then None else Some bs) pA)] \<and>
      ceps dA' = remove1 pA (ceps dA) \<and> cd_cep dA' pA = None)"
proof -
  let ?rp = "cm_message eB (ucast (cp_qpn prm)) (cep_source_qpn cep) (cid_local i) (cid_remote i) (remote_request_id cep) 0"
  let ?now = "ve_now (ce_v eB) (v_calls (cd_v dB))" and ?len = "cp_private_data_len prm"
  have pl: "?len \<le> 256" using pd(3) by (simp add: word_le_nat_alt)
  have st: "ic_status ?rp = 0" by (simp add: cm_message_def)
  from reply_packet[OF mm rep y ma na po st hs l inj pool buf pd(2,3) cm_message_ip(2), of ?now] obtain mc' d where
    C: "mudm_conn_reply (ve_hws (ce_v eB)) ?now y ?rp (Some bs) ?len mc = Some (RetOK, mc')" "cstate (conns mc' y) = CONN_ACTIVE"
    "dest_qpn (SoftwareBytes (muh (mu_iMemoryFifoDescriptor (conns mc' y)))) = dest_qpn (ic_hdr ?rp)"
    "ctl_log (injfifo_ctls mc' l) = ctl_log (injfifo_ctls mc l) @ [MemFifoDesc d]"
    and P: "let p = packet_of d (pkt_mem mc' pl' k) in ptype (pk_sw p) = MUDM_CONN_REPLY \<and>
      source_qpn (pk_sw p) = source_qpn (ic_hdr ?rp) \<and> pk_connect p = reply_payload mc (conns mc y) \<and> pk_status p = 0 \<and>
      connect_of_bytes (pk_sw p) (pk_payload p) = ?rp\<lparr>private_data_length := ?len, ic_hdr := pk_sw p\<rparr> \<and>
      private_data_of (pk_payload p) ?len = (if ?len = 0 then None else Some bs)" by (elim exE conjE) (rule that)
  from bgvrnic_accept_total[OF pl q e ev(2) i, of mc'] C(1) obtain dB' where
    B: "bgvrnic_accept eB c prm dB = Some (0, dB')" "v_mc (cd_v dB') = mc'" "qp_state (v_qps (cd_v dB') qB) = IB_QPS_RTS"
    "mu_conn (v_qps (cd_v dB') qB) = Some y"
    "v_events (cd_v dB') = v_events (cd_v dB) @ [CmEvent c (CM_ESTABLISHED (cid_local i) (cid_remote i) (Some bs))]"
    "ceps dB' = ceps dB" "cd_cep dB' pB = Some (cep\<lparr>cep_qp := Some qB, cep_st := CEP_CONNECTED\<rparr>)" unfolding pd(1) mc by auto
  define p where "p = packet_of d (pkt_mem mc' pl' k)"
  note P = P[folded p_def, unfolded Let_def]
  let ?ic = "?rp\<lparr>private_data_length := ?len, ic_hdr := pk_sw p\<rparr>"
  have ic: "ptype (pk_sw p) = MUDM_CONN_REPLY" "connect_of_bytes (pk_sw p) (pk_payload p) = ?ic" "pk_status p = 0"
    "private_data_of (pk_payload p) (private_data_length ?ic) = (if ?len = 0 then None else Some bs)"
    "\<lparr>sin_addr = ip_word (source_IP_addr ?ic), sin_port = ucast (source_port ?ic)\<rparr> = cid_local i"
    "\<lparr>sin_addr = ip_word (dest_IP_addr ?ic), sin_port = ucast (dest_port ?ic)\<rparr> = cid_remote i" "ic_status ?ic = 0"
    using P by (simp_all add: cm_message_def sock_roundtrip)
  have h: "unat (pl_dest_conn_index (pk_connect p)) = x" "ucast (pl_dest_conn_index (pk_connect p)) < max_connections (v_mc (cd_v dA))"
    "port_ok (using_IO_port (pk_connect p))" and sid: "find_cep (source_request_id ?ic) dA = Some pA"
    using P idx po eA(1) mcA by (simp_all add: reply_payload_def cm_message_def)
  from reply_received[OF repA[unfolded mcA] x[unfolded mcA] h(1,2) ic(3) h(3) ic(1,2) ev(1) sid eA(2-4), unfolded ic(4-7), folded mcA] obtain mcA' dA' where
    "connect_reply (conn_cb eA dA) p mcA = Some (Inr 0, mcA')"
    "mu_connect_cb eA x (pk_sw p) (pk_payload p) (upd_v (\<lambda>v. v\<lparr>v_mc := mcA'\<rparr>) dA) = Some (0, dA')" "v_mc (cd_v dA') = mcA'"
    "cstate (conns mcA' x) = CONN_ACTIVE" "dest_conn_index (conns mcA' x) = source_conn_index (pk_connect p)"
    "dest_qpn (SoftwareBytes (muh (mu_iMemoryFifoDescriptor (conns mcA' x)))) = source_qpn (pk_sw p)"
    "qp_state (v_qps (cd_v dA') qA) = IB_QPS_RTS" "mu_conn (v_qps (cd_v dA') qA) = mu_conn (v_qps (cd_v dA) qA)"
    "v_events (cd_v dA') = v_events (cd_v dA) @ [CmEvent cA (CM_CONNECT_REPLY 0 (cid_remote i) (cid_local i)
        (if ?len = 0 then None else Some bs) pA)]" "ceps dA' = remove1 pA (ceps dA)" "cd_cep dA' pA = None"
    by (elim exE conjE) (rule that)
  with B C(2-4) P eA(5) show ?thesis
    by (intro exI[of _ dB'] exI[of _ d] exI[of _ mcA'] exI[of _ dA'])
      (simp add: p_def[symmetric] reply_payload_def cm_message_def)
qed

theorem vrnic_accept_establishes_witness:
  "\<exists>dB' d mcA' dA'.
     bgvrnic_accept demo_cm_env 0 demo_prm (demo_cm_dev (demo_peer 9 (LPend 0)) 0x0a010102 0x0a010101 [(7, demo_cep None (Some 0))]) = Some (0, dB') \<and>
     v_events (cd_v dB') = [CmEvent 0 (CM_ESTABLISHED (demo_sock 0x0a010102) (demo_sock 0x0a010101) (Some [1, 2, 3]))] \<and>
     connect_reply (conn_cb demo_cm_env (demo_cm_dev (demo_peer 4 (LPend 0)) 0x0a010101 0x0a010102 [(9, demo_cep (Some 0) None)]))
       (packet_of d (pkt_mem (v_mc (cd_v dB')) 0 0)) (demo_peer 4 (LPend 0)) = Some (Inr 0, mcA') \<and>
     mu_connect_cb demo_cm_env 0 (SoftwareBytes (muh d)) (take (unat (Message_Length d)) (pkt_mem (v_mc (cd_v dB')) 0 0))
       (upd_v (\<lambda>v. v\<lparr>v_mc := mcA'\<rparr>) (demo_cm_dev (demo_peer 4 (LPend 0)) 0x0a010101 0x0a010102 [(9, demo_cep (Some 0) None)])) = Some (0, dA') \<and>
     cstate (conns mcA' 0) = CONN_ACTIVE \<and> qp_state (v_qps (cd_v dA') 0) = IB_QPS_RTS \<and>
     v_events (cd_v dA') = [CmEvent 0 (CM_CONNECT_REPLY 0 (demo_sock 0x0a010101) (demo_sock 0x0a010102) (Some [1, 2, 3]) 9)] \<and>
     ceps dB' = [7] \<and> ceps dA' = []"
proof -
  have c: "mmagic (demo_peer m a) = MUDM_MAGIC" "port_ok (io_port (conns (demo_peer m a) 0))"
    "pendlist_of (conns (demo_peer m a) 0) = Some 0" "activelist_of (conns (demo_peer m a) 0) = Some 0"
    "conn_magic_ok (conns (demo_peer m a) 0)" "cstate (conns (demo_peer m a) 0) \<noteq> CONN_ABORTED"
    "0 = injfifo_of (conns (demo_peer m a) 0)" "0 = pools_of (conns (demo_peer m a) 0)"
    "injfifo_ctls (demo_peer m a) = demo_injs" "packetcontrols (demo_peer m a) = (\<lambda>_. demo_pkts)"
    "length (pkt_mem (demo_peer m a) 0 0) = 512" "max_connections (demo_peer m a) = 1"
    "dest_conn_index (conns (demo_peer m a) 0) = 0" for m a
    by (simp_all add: demo_peer_def demo_ctx_def demo_conn_def conn_magic_ok_def port_ok_def upd_conn_def)
  have i: "ctl_inv 4 (injfifo_ctls (demo_peer 9 (LPend 0)) 0)" "pkt_free_list (packetcontrols (demo_peer 9 (LPend 0)) 0) = Some 0"
    by (simp_all add: c demo_injs_ctl demo_pkts_free)
  have q: "mu_conn (demo_qp [] []) = Some 0" "cm_id (demo_qp [] []) = Some 0" by (simp_all add: demo_qp_def)
  have e: "cep_mu (demo_cep a b) = b" "cep_qp (demo_cep a b) = a" "remote_request_id (demo_cep a b) = 0x100" for a b
    by (simp_all add: demo_cep_def)
  let ?A = "demo_cm_dev (demo_peer 4 (LPend 0)) 0x0a010101 0x0a010102 [(9, demo_cep (Some 0) None)]"
    and ?B = "demo_cm_dev (demo_peer 9 (LPend 0)) 0x0a010102 0x0a010101 [(7, demo_cep None (Some 0))]"
  have f: "find_cep 0x100 ?A = Some 9" by (simp add: find_cep_def demo_cm_simps e)
  from vrnic_accept_establishes[where eA = demo_cm_env and eB = demo_cm_env and prm = demo_prm and bs = "[1, 2, 3]" and dA = ?A
      and dB = ?B and qB = 0 and c = 0 and mc = "demo_peer 9 (LPend 0)" and ls = "(\<lambda>_. [])(LPend 0 := [0])" and pnd = 0 and y = 0
      and cep = "demo_cep None (Some 0)" and pB = 7 and mcA = "demo_peer 4 (LPend 0)" and lsA = "(\<lambda>_. [])(LPend 0 := [0])"
      and pndA = 0 and x = 0 and pA = 9 and cepA = "demo_cep (Some 0) None" and qA = 0 and cA = 0,
      OF _ _ _ _ _ _ _ _ _ refl _ c(1) demo_peer_rep _ c(3-6,2) _ c(7,8) i c(11) _ demo_peer_rep _ c(3-5)]
  show ?thesis by (simp add: demo_cm_simps demo_hws_live Let_def q e f c) blast
qed

text \<open>
  C30: a refused connection is ready to send.  The data mover hands a reply with an error status to the
  callback and then frees the connection.  The callback reports the status, and makes the
  queue pair ready to send all the same: it is left in the state of an established connection, with a
  connection that is already first on the free list, to be given to the next one that is opened.
\<close>

theorem vrnic_refused_connected:
  assumes mc: "mc = v_mc (cd_v dv)" and rep: "conn_rep mc ls"
    and x: "x \<in> set (ls (LPend pnd))" "pendlist_of (conns mc x) = Some pnd" "activelist_of (conns mc x) = Some al"
    and ma: "conn_magic_ok (conns mc x)"
    and i: "unat (pl_dest_conn_index (pk_connect p)) = x" "ucast (pl_dest_conn_index (pk_connect p)) < max_connections mc"
    and po: "port_ok (using_IO_port (pk_connect p))" and ty: "ptype (pk_sw p) = MUDM_CONN_REPLY"
    and req: "req = connect_of_bytes (pk_sw p) (pk_payload p)" and st: "ic_status req \<noteq> 0"
    and ev: "\<forall>j. ve_cm (ce_v env) j = 0" and e: "find_cep (source_request_id req) dv = Some pc"
    and c: "cd_cep dv pc = Some cep" "cep_qp cep = Some q" "cm_id (v_qps (cd_v dv) q) = Some c"
      "mu_conn (v_qps (cd_v dv) q) = Some x"
  shows "\<exists>mc1 mc2 dv'. connect_reply (conn_cb env dv) p mc = Some (Inr 0, mc2) \<and>
    cstate (conns mc1 x) = CONN_DISCONNECTING \<and>
    mu_connect_cb env x (pk_sw p) (pk_payload p) (upd_v (\<lambda>v. v\<lparr>v_mc := mc1\<rparr>) dv) = Some (0, dv') \<and>
    (\<exists>a b pd. v_events (cd_v dv') = v_events (cd_v dv) @ [CmEvent c (CM_CONNECT_REPLY (ic_status req) a b pd pc)]) \<and>
    qp_state (v_qps (cd_v dv') q) = IB_QPS_RTS \<and> mu_conn (v_qps (cd_v dv') q) = Some x \<and>
    cstate (conns mc2 x) = CONN_FREE \<and>
    conn_rep mc2 (ls(LPend pnd := remove1 x (ls (LPend pnd)), LFree := x # ls LFree))"
proof -
  let ?pd = "private_data_of (pk_payload p) (private_data_length req)"
  let ?d = "\<lambda>m. upd_v (\<lambda>v. v\<lparr>v_mc := m\<rparr>) dv"
  have v: "find_cep (source_request_id req) (?d m) = Some pc" "cd_cep (?d m) pc = Some cep" "cm_id (v_qps (cd_v (?d m)) q) = Some c"
    "v_events (cd_v (?d m)) = v_events (cd_v dv)" "v_qps (cd_v (?d m)) = v_qps (cd_v dv)" "v_mc (cd_v (?d m)) = m" for m
    using e c by (simp_all add: find_cep_v) (simp_all add: upd_v_def)
  have B: "\<exists>d'. mu_connect_cb env x (pk_sw p) (pk_payload p) (?d m) = Some (0, d') \<and> v_mc (cd_v d') = m \<and>
      qp_state (v_qps (cd_v d') q) = IB_QPS_RTS \<and> mu_conn (v_qps (cd_v d') q) = Some x \<and>
      (\<exists>a b pd. v_events (cd_v d') = v_events (cd_v dv) @ [CmEvent c (CM_CONNECT_REPLY (ic_status req) a b pd pc)])" for m
    using reply_cb_total[OF ev v(1)[of m] v(2)[of m] c(2) v(3)[of m], of ?pd] ty c(4)
    by (auto simp: mu_connect_cb_def req[symmetric] Let_def MUDM_CONN_REPLY_def MUDM_CONN_REQUEST_def v(4-6))
  have cb: "conn_cb env dv x (pk_sw p) (pk_payload p) m = Some (0, m)" for m
    using B[of m] by (auto simp: conn_cb_def)
  have "pk_status p \<noteq> 0" using st by (simp add: req pk_status_def connect_of_bytes_def)
  from connect_reply_refused[OF rep x ma i this po, of "conn_cb env dv"] cb obtain mc1 mc2 r where
    "conn_cb env dv x (pk_sw p) (pk_payload p) mc1 = Some (r, mc1)" "connect_reply (conn_cb env dv) p mc = Some (Inr r, mc2)"
    "cstate (conns mc1 x) = CONN_DISCONNECTING" "cstate (conns mc2 x) = CONN_FREE"
    "conn_rep mc2 (ls(LPend pnd := remove1 x (ls (LPend pnd)), LFree := x # ls LFree))" by blast
  with B[of mc1] cb[of mc1] show ?thesis by auto
qed

theorem vrnic_refused_connected_witness:
  "\<exists>mc1 mc2 dv'. connect_reply (conn_cb demo_cm_env (demo_cm_dev (demo_peer 4 (LPend 0)) 0 0 [(9, demo_cep (Some 0) None)]))
       demo_refusal (demo_peer 4 (LPend 0)) = Some (Inr 0, mc2) \<and>
     mu_connect_cb demo_cm_env 0 (pk_sw demo_refusal) (pk_payload demo_refusal)
       (upd_v (\<lambda>v. v\<lparr>v_mc := mc1\<rparr>) (demo_cm_dev (demo_peer 4 (LPend 0)) 0 0 [(9, demo_cep (Some 0) None)])) = Some (0, dv') \<and>
     (\<exists>a b pd. v_events (cd_v dv') = [CmEvent 0 (CM_CONNECT_REPLY (- 111) a b pd 9)]) \<and>
     qp_state (v_qps (cd_v dv') 0) = IB_QPS_RTS \<and> mu_conn (v_qps (cd_v dv') 0) = Some 0 \<and> cstate (conns mc2 0) = CONN_FREE"
proof -
  have c: "pendlist_of (conns (demo_peer m a) 0) = Some 0" "activelist_of (conns (demo_peer m a) 0) = Some 0"
    "conn_magic_ok (conns (demo_peer m a) 0)" "max_connections (demo_peer m a) = 1" for m a
    by (simp_all add: demo_peer_def demo_ctx_def demo_conn_def conn_magic_ok_def upd_conn_def)
  have q: "mu_conn (demo_qp [] []) = Some 0" "cm_id (demo_qp [] []) = Some 0" by (simp_all add: demo_qp_def)
  have e: "cep_qp (demo_cep a b) = a" "remote_request_id (demo_cep a b) = 0x100" for a b by (simp_all add: demo_cep_def)
  let ?A = "demo_cm_dev (demo_peer 4 (LPend 0)) 0 0 [(9, demo_cep (Some 0) None)]"
  have f: "find_cep 0x100 ?A = Some 9" by (simp add: find_cep_def demo_cm_simps e)
  note T = vrnic_refused_connected[where env = demo_cm_env and dv = ?A and mc = "demo_peer 4 (LPend 0)"
      and ls = "(\<lambda>_. [])(LPend 0 := [0])" and pnd = 0 and x = 0 and p = demo_refusal and pc = 9 and cep = "demo_cep (Some 0) None" and q = 0 and c = 0,
      OF _ demo_peer_rep _ c(1-3) _ _ _ _ refl]
  from T show ?thesis
    by (simp add: demo_cm_simps demo_refusal_reads q e f c) (elim exE conjE, intro exI conjI, assumption+)
qed

end
