(* ===== verification/Spec2Isabelle.thy ===== *)
theory Spec2Isabelle
  imports Mudm_Lock Mudm_Read Mudm_Ready Vrnic_Buffer Vrnic_Link
begin

text \<open>
  A verification library for the messaging-unit data mover of Blue Gene/Q Linux (\<^verbatim>\<open>src/bgmudm\<close>)
  and the parts of the system programming interface it is compiled with
  (\<^verbatim>\<open>src/include/spi\<close>, \<^verbatim>\<open>src/include/MU_impl.h\<close>).

  The program.  The data mover (\<^verbatim>\<open>mudm\<close>) is a kernel module that carries packets and remote
  memory transfers between compute nodes and IO nodes.  Its user starts it with a set of callbacks
  (\<^verbatim>\<open>mudm_init\<close>), opens connections (\<^verbatim>\<open>mudm_connect\<close>, \<^verbatim>\<open>mudm_conn_reply\<close>, \<^verbatim>\<open>mudm_disconnect\<close>), sends
  packets and transfers memory through them (\<^verbatim>\<open>mudm_send_pkt\<close>, \<^verbatim>\<open>mudm_send_message_remote\<close>,
  \<^verbatim>\<open>mudm_rdma_read\<close>, \<^verbatim>\<open>mudm_rdma_write\<close>), polls for packets and completions
  (\<^verbatim>\<open>mudm_fifo_poll\<close>, \<^verbatim>\<open>poll_pkt_message\<close>, \<^verbatim>\<open>rdma_poll_rdma_counter\<close>), resets the links of a job
  (\<^verbatim>\<open>mudm_resetIOlink\<close>) and ends it (\<^verbatim>\<open>mudm_terminate\<close>).  It talks to the message unit through an
  injection FIFO of 64-byte descriptors and a reception FIFO of packets per link, both rings in
  memory.  A packet request is complete when its descriptor has left the FIFO, a memory transfer
  when a counter the message unit decrements is zero; both report to the user's status callback.

  The theories, and what they model.

  \<^item> \<^verbatim>\<open>Mudm_Prelude\<close>: machine integers, return codes (\<open>ret\<close>, negative errno values), the heap of
    \<^verbatim>\<open>next\<close> and \<^verbatim>\<open>prev\<close> pointers that all lists of the program share (\<open>links\<close>), chains in
    such a heap, and their frame lemmas.
  \<^item> \<^verbatim>\<open>Mudm_Pool\<close>: the locale \<open>object_pool\<close>, the contract of a free list with a list of posted objects
    that a poller sweeps.  Single ownership is proved once in it.  It is interpreted in
    \<^verbatim>\<open>Mudm_Pkt\<close> and \<^verbatim>\<open>Rdma_Object\<close> on the model of the code.  \<^verbatim>\<open>Mudm_Sweep\<close>: the pointer work the two pollers share.
  \<^item> \<^verbatim>\<open>Mudm_Alloc\<close> (\<^verbatim>\<open>mudm_cleanup.c\<close>): the clean-up table.
  \<^item> \<^verbatim>\<open>Mudm_Lock\<close> (\<^verbatim>\<open>mudm_lock.c\<close>, \<^verbatim>\<open>mudm_lock.h\<close>): the spin lock, one memory access per step of an
    inductive relation; mutual exclusion and obstruction freedom.
  \<^item> \<^verbatim>\<open>Mudm_Pkt\<close> (\<^verbatim>\<open>mudm_pkt.c\<close>, \<^verbatim>\<open>mudm_pkt.h\<close>), \<^verbatim>\<open>Rdma_Object\<close> (\<^verbatim>\<open>rdma_object.c\<close>, \<^verbatim>\<open>rdma_object.h\<close>): the pools of
    packet descriptors and RDMA objects with their polling and flushing, against the lists \<open>pkt_rep\<close> and
    \<open>rdma_rep\<close> they stand for.
  \<^item> \<^verbatim>\<open>Mu_Descriptor\<close> (\<^verbatim>\<open>mudm_descriptor.c\<close>, \<^verbatim>\<open>Descriptor_inlines.h\<close>): descriptors and their setters.
    \<^verbatim>\<open>Mu_InjFifo\<close> (\<^verbatim>\<open>Fifo.h\<close>, \<^verbatim>\<open>InjFifo.h\<close>, \<^verbatim>\<open>common_inlines.h\<close>): the injection ring, refined to the log of all injected descriptors
    (\<open>inj_log\<close>).  \<^verbatim>\<open>Mu_RecFifo\<close> (\<^verbatim>\<open>RecFifo.h\<close>, the poll loop of \<^verbatim>\<open>mudm.c\<close>): the reception ring, refined to a queue of packets.
  \<^item> \<^verbatim>\<open>Mudm_Types\<close>, \<^verbatim>\<open>Mudm_Context\<close> (\<^verbatim>\<open>common.h\<close>): the connection block, the main context and the layout of
    messages as bytes.
  \<^item> \<^verbatim>\<open>Mudm_Conn_List\<close>, \<^verbatim>\<open>Mudm_Connect\<close>, \<^verbatim>\<open>Mudm_Handshake\<close> (\<^verbatim>\<open>mudm_connect.c\<close>): the lists of connection blocks and the life of a
    block; connecting, replying and disconnecting with the handlers of their packets; and the two ends of a
    connection together.
  \<^item> \<^verbatim>\<open>Mudm_Send\<close>, \<^verbatim>\<open>Mudm_Sgl\<close>, \<^verbatim>\<open>Mudm_Read\<close>, \<^verbatim>\<open>Mudm_Recv\<close> (\<^verbatim>\<open>mudm.c\<close>): packets, scatter-gather writes, reads by bundles
    of descriptors a peer injects, and the receive path from the bytes in the ring to the handlers.
  \<^item> \<^verbatim>\<open>Mu_Kernel\<close> (\<^verbatim>\<open>MU_impl.h\<close>, \<^verbatim>\<open>kernel/MU.h\<close>, \<^verbatim>\<open>Addressing_inlines.h\<close>), \<^verbatim>\<open>Mu_Reset\<close> (\<^verbatim>\<open>Reset.h\<close>): the registers that say which FIFO is
    whose, and the reset of a subgroup and a link as a sequence of steps.
  \<^item> \<^verbatim>\<open>Mudm_Fifos\<close> (\<^verbatim>\<open>mudm_init.c\<close>): activation and release of the FIFOs the data mover owns.
    \<^verbatim>\<open>Mudm_Reset\<close> (\<^verbatim>\<open>mudm_cleanup.c\<close>): \<^verbatim>\<open>mudm_resetIOlink\<close> and \<^verbatim>\<open>mudm_terminate\<close>.
    \<^verbatim>\<open>Mudm_Init\<close> (\<^verbatim>\<open>mudm_init.c\<close>, \<^verbatim>\<open>mudm_personality.c\<close>): \<^verbatim>\<open>mudm_init\<close>.  \<^verbatim>\<open>Mudm_Ready\<close>: what it establishes, and the whole life from start to
    termination.

  How state and operations correspond.  A C structure is a record with the source's field names, prefixed where two
  structures share one.  A pointer to an element of an array is \<open>nat option\<close>; the \<^verbatim>\<open>next\<close> and \<^verbatim>\<open>prev\<close>
  fields of all elements of an array are one \<open>links\<close> record.  A pointer to a per-link object is the index of the
  link.  An operation is a function on the structure it works on and returns it updated; \<open>None\<close> is undefined behaviour (a \<^verbatim>\<open>NULL\<close>
  dereference, an access outside an array, an assertion that fails) or a loop that does not end.  Critical sections
  are single steps: that the lock provides this is \<^verbatim>\<open>Mudm_Lock\<close>.

  Loops and bounds.  Loops over lists and loops that wait for the hardware are \<open>partial_function (option)\<close>, so that ending is part
  of what is proved; there is no fuel.  Hardware that is read in a loop is a function from the number of the reading
  to the value (\<open>hw\<close>, \<open>env_rme\<close>), and a theorem that needs progress assumes it by name: \<open>hw_live\<close> (the
  FIFO stays active and free space is reported again and again), \<open>rmes_idle\<close> (the reception engines go idle).
  The reset takes seven and three calls of the step function, which is proved.  Rings have any size the
  hardware allows; counters are 64-bit words, and logs of up to \<open>2 ^ 63\<close> descriptors do not wrap around.

  What is not code of the program is a parameter: the user's callbacks (\<open>cb_ok\<close>, \<open>rcb_ok\<close>: they give and
  take objects through the pool and keep none; \<open>quiet_env\<close>: they post nothing; \<open>alloc_good\<close>: memory is given as documented), the time base, memory behind
  arrays, the readings of the hardware.  Every theorem with such a hypothesis has a witness with concrete parameters.

  What the groups of theorems show.  Pools: a poll or flush ends, reports each completed or cancelled
  request exactly once, and no object is lost or handed out twice in any interleaving.  FIFOs: the injection ring holds exactly the descriptors
  injected and not yet processed, in order; the reception ring hands out every packet once, whole, in order, also around the end of
  the memory.  Connections: a block is on one list at a time, and a handshake leaves both ends naming each other.
  Transfers: writes and reads of scatter-gather lists copy the bytes the lists name, however they are cut.  Kernel: a FIFO has one user, and
  deallocation undoes allocation.  Life: a start establishes the invariants the rest assumes; a reset cancels what is
  outstanding and leaves fresh links; a termination returns everything.  Errors: short lists, refused packets, exhausted pools, and the places
  where the code does something else than it means to, each with the theorem that shows it.

  The verbs driver over the data mover (\<^verbatim>\<open>src/bgvrnic\<close>).  It gives user programs the queue pairs of the verbs interface: requests
  posted to a send queue are handed to the data mover, messages that arrive are put into buffers posted to a receive
  queue, and both are completed to completion queues that the user polls.

  \<^item> \<^verbatim>\<open>Vrnic_Sgl\<close> (\<^verbatim>\<open>bgvrnic.h\<close>, \<^verbatim>\<open>bgvrnic_verbs.c\<close>): memory regions of pinned pages, and the translation of a user's list to
    physical pieces, refined to the bytes they name (\<open>user_addrs\<close>, \<open>umem_addrs\<close>).
  \<^item> \<^verbatim>\<open>Vrnic_Cq\<close>: requests, work queue entries, completion queues, and the state of the device (\<open>vrnic\<close>), which holds the
    main context of the data mover.
  \<^item> \<^verbatim>\<open>Vrnic_Send\<close> (\<^verbatim>\<open>bgvrnic_process_send_wqes\<close>, \<^verbatim>\<open>bgvrnic_post_send\<close>), \<^verbatim>\<open>Vrnic_Recv\<close> (\<^verbatim>\<open>bgvrnic_post_recv\<close>, \<^verbatim>\<open>mu_status_cb\<close>,
    \<^verbatim>\<open>mu_recv_cb\<close> of \<^verbatim>\<open>bgvrnic_main.c\<close>): the two queues and the driver's callbacks.
  \<^item> \<^verbatim>\<open>Vrnic_Mover\<close>: what the data mover does for a connection that is up, as the driver needs it.  \<^verbatim>\<open>Vrnic_Order\<close>: the
    walk over the send queue.  \<^verbatim>\<open>Vrnic_Buffer\<close>: buffers in order as an inductive system with its invariant, and a
    short message from a request on one node to the buffer on the other.

  \<^item> \<^verbatim>\<open>Vrnic_Cm\<close> (\<^verbatim>\<open>bgvrnic_cm.c\<close>): the connection manager's side, opening, accepting and refusing connections, listening,
    and the callback on connection messages; \<^verbatim>\<open>Vrnic_Link\<close>: both ends of a connection being made, from the call on one node
    over the packets of the data mover to the events on the other.

  A work queue entry has an address, given by a function of the number of the allocation (\<open>ve_kmalloc\<close>), since the address is the
  request id the data mover reports back.  An \<^verbatim>\<open>int\<close> result is kept as its 32 bits (\<open>ret_int\<close>).  Completion handlers and events for the
  connection manager are recorded in \<open>v_events\<close>; they are assumed not to call back into the driver.  A listener and an
  identifier of the kernel's connection manager are the number of the identifier; its addresses, the endpoint stored in it and its
  references are part of the state (\<open>cm_dev\<close>), the addresses of queue pairs and what the event handlers answer of the
  environment (\<open>cm_env\<close>).  A failed \<^verbatim>\<open>BUG_ON\<close> is \<open>None\<close>.  Not modelled are the management of
  queue pairs and completion queues (create, modify, query, destroy), the Ethernet device (\<^verbatim>\<open>bgvrnic_eth.c\<close>, a parameter where messages are received), the
  start of the module and its poll thread: they allocate and register kernel objects.

  Not modelled.  The flight recorder, RAS messages, trace output and the times they record
  (\<^verbatim>\<open>flightinfo4delay\<close>), the wake-up unit and \<^verbatim>\<open>mudm_poll_iolink_wakeup\<close>, interrupt status registers that are only cleared, and \<^verbatim>\<open>memfifoRecvCount\<close>: they
  have no effect on the modelled state.  The collective steps of the reset are a parameter: the reset of IO links
  skips them.  The collective operations (\<^verbatim>\<open>mudm_bcast.c\<close>, \<^verbatim>\<open>mudm_poll_bcast.c\<close>) and node-to-node messages (\<^verbatim>\<open>mudm_msg.c\<close>, \<^verbatim>\<open>mudm_ip.c\<close>).
  The headers under \<^verbatim>\<open>src/include/hwi\<close> are generated register layouts without behaviour.
\<close>

end
